(* ===== verification/Prelude.thy ===== *)
theory Prelude
  imports Main "HOL-Library.Word" "HOL-Library.While_Combinator" "HOL-Library.Char_ord"
begin

unbundle bit_operations_syntax

text \<open>
  What the components share: the machine types by name, the outcomes of memory requests,
  fixed-size arrays as lists, byte strings from literals, and the generic lemmas on lists and
  loops that the component proofs use. The collections \<open>array_simps\<close>, \<open>bits\<close> and
  \<open>alloc_simps\<close> are what \<open>simp add:\<close> takes in the other theories.
\<close>

named_theorems array_simps "reads and writes of arrays kept as lists"
named_theorems alloc_simps "unfolding a memory request"
named_theorems bits "bits of words"

section \<open>Machine types\<close>

type_synonym u8 = "8 word"
type_synonym u16 = "16 word"
type_synonym u32 = "32 word"
type_synonym u64 = "64 word"
type_synonym bytes = "u8 list"

text \<open>The bytes of a string literal of the source (ASCII; no terminating NUL).\<close>

definition lit :: "string \<Rightarrow> bytes" where
  "lit s = map (\<lambda>c. of_nat (of_char c)) s"

lemma length_lit [simp]: "length (lit s) = length s"
  by (simp add: lit_def)

lemma lit_simps [simp]:
  "lit [] = []"
  "lit (c # cs) = of_nat (of_char c) # lit cs"
  by (simp_all add: lit_def)

section \<open>Memory requests\<close>

text \<open>
  The allocator of the C library is not part of the program: what it answers is an input. A
  state that allocates carries the list of the answers to come, one for each request in the
  order they are made, \<open>False\<close> for a request refused; requests after the end of the list are
  granted. A theorem quantifies over the list, so it covers every pattern of failures.
\<close>

type_synonym mem = "bool list"

fun malloc :: "mem \<Rightarrow> bool \<times> mem" where
  "malloc [] = (True, [])"
| "malloc (a # m) = (a, m)"

lemma malloc_granted [alloc_simps]: "malloc [] = (True, [])"
  by simp

section \<open>Arrays\<close>

text \<open>
  A C array is a list, read with \<open>!\<close> and written with \<open>xs[i := v]\<close>; every read and
  write of the models is within the length, which is a lemma where the code relies on an
  argument for it.
\<close>

lemma nth_list_update_if [array_simps]:
  "i < length xs \<Longrightarrow> xs[i := v] ! j = (if i = j then v else xs ! j)"
  by simp

lemma take_Suc_nth [array_simps]: "i < length xs \<Longrightarrow> take (Suc i) xs = take i xs @ [xs ! i]"
  by (rule take_Suc_conv_app_nth)

lemma nth_append_last [simp]: "(xs @ [x]) ! length xs = x"
  by simp

lemma drop_nth_Cons: "i < length xs \<Longrightarrow> drop i xs = xs ! i # drop (Suc i) xs"
  by (simp add: Cons_nth_drop_Suc)

section \<open>Folds over counted loops\<close>

text \<open>
  \<open>for (i = a; i < b; i++) s = f(i, s)\<close> is \<open>fold f [a..<b] s\<close>. An invariant that the body
  keeps holds at the end.
\<close>

lemma fold_upt_invariant:
  assumes "P a s" and "\<And>i s. a \<le> i \<Longrightarrow> i < b \<Longrightarrow> P i s \<Longrightarrow> P (Suc i) (f i s)" and "a \<le> b"
  shows "P b (fold f [a..<b] s)"
  using assms(3,2)
proof (induction b rule: dec_induct)
  case base
  then show ?case using assms(1) by simp
next
  case (step n)
  from step.IH step.prems have "P n (fold f [a..<n] s)" by simp
  with step show ?case by simp
qed

lemma fold_invariant_list:
  assumes "P s" and "\<And>x s. x \<in> set xs \<Longrightarrow> P s \<Longrightarrow> P (f x s)"
  shows "P (fold f xs s)"
  using assms by (induction xs arbitrary: s) auto

section \<open>Bits\<close>

lemma unat_u8_less [simp]: "unat (x :: u8) < 256"
proof -
  have "unat x < 2 ^ LENGTH(8)" by (rule unsigned_less)
  then show ?thesis by simp
qed

lemma unat_u8_le [simp]: "unat (x :: u8) \<le> 255"
  using unat_u8_less [of x] by linarith

lemma of_nat_unat_u8 [simp]: "(of_nat (unat (x :: u8)) :: u8) = x"
  by simp

lemma unat_of_nat_u8: "n < 256 \<Longrightarrow> unat (of_nat n :: u8) = n"
  by (simp add: unat_of_nat)

lemma unat_ucast_u8_u32 [simp]: "unat (ucast (x :: u8) :: u32) = unat x"
proof -
  have "unat x < 2 ^ 32" using unat_u8_less [of x] by (rule less_trans) simp
  then show ?thesis by (simp add: unsigned_ucast_eq take_bit_nat_eq_self)
qed

lemma take_bit_32_u8 [simp]: "take_bit 32 (x :: u8) = x"
  by (rule bit_word_eqI) (simp add: bit_take_bit_iff)

lemma ucast_u8_u32_u8 [simp]: "(ucast (ucast (x :: u8) :: u32) :: u8) = x"
  by (rule bit_word_eqI) (simp add: bit_unsigned_iff)

lemma u8_eq_iff: "(x :: u8) = y \<longleftrightarrow> unat x = unat y"
  by (simp add: word_unat_eq_iff)

section \<open>Bit arrays\<close>

text \<open>Bytes used as an array of bits: bit \<open>k\<close> is bit \<open>k & 7\<close> of byte \<open>k >> 3\<close>.\<close>

definition bits_has :: "bytes \<Rightarrow> nat \<Rightarrow> bool" where
  "bits_has xs k \<longleftrightarrow> bit (xs ! (k div 8)) (k mod 8)"

definition bits_put :: "nat \<Rightarrow> bytes \<Rightarrow> bytes" where
  "bits_put k xs = xs[k div 8 := xs ! (k div 8) OR push_bit (k mod 8) 1]"

lemma length_bits_put [simp]: "length (bits_put k xs) = length xs"
  by (simp add: bits_put_def)

lemma bits_has_put [bits]:
  assumes "k div 8 < length xs"
  shows "bits_has (bits_put k xs) j \<longleftrightarrow> bits_has xs j \<or> j = k"
proof (cases "j div 8 = k div 8")
  case True
  have "j mod 8 = k mod 8 \<longleftrightarrow> j = k"
    using True by (metis div_mult_mod_eq)
  moreover have "bit (push_bit (k mod 8) (1 :: u8)) (j mod 8) \<longleftrightarrow> j mod 8 = k mod 8"
    using mod_less_divisor [of 8 j]
    by (auto simp: bit_push_bit_iff bit_1_iff simp del: push_bit_of_1)
  ultimately show ?thesis using True assms
    by (simp add: bits_has_def bits_put_def bit_or_iff del: push_bit_of_1)
next
  case False
  then have "j \<noteq> k" by auto
  with False show ?thesis by (simp add: bits_has_def bits_put_def)
qed

lemma bits_has_zeros [bits]: "j div 8 < n \<Longrightarrow> \<not> bits_has (replicate n 0) j"
  by (simp add: bits_has_def)

lemma bits_has_fold_put [bits]:
  assumes "\<And>k. k \<in> set ks \<Longrightarrow> k div 8 < length xs"
  shows "bits_has (fold bits_put ks xs) j \<longleftrightarrow> bits_has xs j \<or> j \<in> set ks"
  using assms by (induction ks arbitrary: xs) (auto simp: bits_has_put)

lemma length_fold_bits_put [simp]: "length (fold bits_put ks xs) = length xs"
  by (induction ks arbitrary: xs) auto

lemma u8_div8_less: "unat (c :: u8) div 8 < 32"
  using unat_u8_less [of c] by (simp add: less_mult_imp_div_less)

end
