(* ===== verification/Gram_Lang.thy ===== *)
theory Gram_Lang
  imports Prelude
begin

text \<open>
  What a grammar over bytes and special tokens means, apart from how the program stores one:
  productions, derivations and the language of a rule. \<open>Gram_Build\<close> shows which productions a
  builder holds and \<open>Gram_Match\<close> that the matcher recognises exactly this language. Nothing
  here is translated from the source.
\<close>

section \<open>Words, symbols, derivations\<close>

text \<open>The input of a matcher: a byte of text, or a special token of the model (one symbol).\<close>

datatype gsym = Byte u8 | Tok int

text \<open>A symbol of a production: one of a set of bytes, a special token, or another rule.\<close>

datatype asym = ASet "u8 set" | ATok int | ARule nat

type_synonym prods = "(nat \<times> asym list) set"

inductive derives :: "prods \<Rightarrow> asym list \<Rightarrow> gsym list \<Rightarrow> bool" for P where
  d_nil: "derives P [] []"
| d_set: "c \<in> S \<Longrightarrow> derives P xs w \<Longrightarrow> derives P (ASet S # xs) (Byte c # w)"
| d_tok: "derives P xs w \<Longrightarrow> derives P (ATok t # xs) (Tok t # w)"
| d_rule: "(r, ys) \<in> P \<Longrightarrow> derives P ys u \<Longrightarrow> derives P xs v \<Longrightarrow>
    derives P (ARule r # xs) (u @ v)"

inductive_cases derives_NilE [elim!]: "derives P [] w"
inductive_cases derives_SetE [elim!]: "derives P (ASet S # xs) w"
inductive_cases derives_TokE [elim!]: "derives P (ATok t # xs) w"
inductive_cases derives_RuleE [elim]: "derives P (ARule r # xs) w"

definition rule_lang :: "prods \<Rightarrow> nat \<Rightarrow> gsym list set" where
  "rule_lang P r = {w. \<exists>ys. (r, ys) \<in> P \<and> derives P ys w}"

lemma rule_langI [intro]: "(r, ys) \<in> P \<Longrightarrow> derives P ys w \<Longrightarrow> w \<in> rule_lang P r"
  by (auto simp: rule_lang_def)

lemma rule_langE [elim]:
  assumes "w \<in> rule_lang P r"
  obtains ys where "(r, ys) \<in> P" "derives P ys w"
  using assms by (auto simp: rule_lang_def)

lemma derives_Nil_iff [simp]: "derives P [] w \<longleftrightarrow> w = []"
  by (auto intro: d_nil)

lemma derives_Set_iff [simp]:
  "derives P (ASet S # xs) w \<longleftrightarrow> (\<exists>c v. c \<in> S \<and> w = Byte c # v \<and> derives P xs v)"
  by (auto intro: d_set)

lemma derives_Tok_iff [simp]:
  "derives P (ATok t # xs) w \<longleftrightarrow> (\<exists>v. w = Tok t # v \<and> derives P xs v)"
  by (auto intro: d_tok)

lemma derives_Rule_iff:
  "derives P (ARule r # xs) w \<longleftrightarrow>
     (\<exists>u v. w = u @ v \<and> u \<in> rule_lang P r \<and> derives P xs v)"
  by (auto simp: rule_lang_def intro: d_rule elim!: derives_RuleE)

lemma derives_Rule_single: "derives P [ARule r] w \<longleftrightarrow> w \<in> rule_lang P r"
  by (simp add: derives_Rule_iff)

lemma derives_append:
  "derives P (xs @ ys) w \<longleftrightarrow> (\<exists>u v. w = u @ v \<and> derives P xs u \<and> derives P ys v)"
proof (induction xs arbitrary: w)
  case Nil
  then show ?case by simp
next
  case (Cons x xs)
  show ?case
  proof (cases x)
    case (ASet S)
    then show ?thesis by (simp add: Cons.IH) (metis append_Cons)
  next
    case (ATok t)
    then show ?thesis by (simp add: Cons.IH) (metis append_Cons)
  next
    case (ARule r)
    then show ?thesis by (simp add: Cons.IH derives_Rule_iff) (metis append_assoc)
  qed
qed

lemma derives_mono:
  assumes "derives P xs w" and "P \<subseteq> Q"
  shows "derives Q xs w"
  using assms(1)
proof induction
  case (d_rule r ys u xs v)
  then show ?case using assms(2) by (blast intro: derives.d_rule)
qed (auto intro: derives.intros)

section \<open>Adding productions for new rules\<close>

text \<open>
  Productions added for rules that the old ones do not mention leave the languages of the old
  rules alone: what a builder adds later cannot change what a rule already complete means.
\<close>

fun refs :: "asym list \<Rightarrow> nat set" where
  "refs [] = {}"
| "refs (ARule r # xs) = insert r (refs xs)"
| "refs (_ # xs) = refs xs"

lemma refs_append [simp]: "refs (xs @ ys) = refs xs \<union> refs ys"
  by (induction xs rule: refs.induct) auto

definition closed_rules :: "prods \<Rightarrow> nat set \<Rightarrow> bool" where
  "closed_rules P R \<longleftrightarrow> (\<forall>(r, ys) \<in> P. r \<in> R \<longrightarrow> refs ys \<subseteq> R)"

lemma derives_restrict:
  assumes "derives Q xs w" and "refs xs \<subseteq> R" and "closed_rules P R"
    and "\<And>r ys. r \<in> R \<Longrightarrow> (r, ys) \<in> Q \<Longrightarrow> (r, ys) \<in> P"
  shows "derives P xs w"
  using assms(1,2)
proof induction
  case (d_rule r ys u xs v)
  then have r: "(r, ys) \<in> P" "r \<in> R" using assms(4) by auto
  then have "refs ys \<subseteq> R" using assms(3) by (auto simp: closed_rules_def)
  with d_rule r show ?case by (auto intro: derives.d_rule)
qed (auto intro: derives.intros)

lemma rule_lang_extend:
  assumes "P \<subseteq> Q" and "closed_rules P R" and "r \<in> R"
    and "\<And>r ys. r \<in> R \<Longrightarrow> (r, ys) \<in> Q \<Longrightarrow> (r, ys) \<in> P"
  shows "rule_lang Q r = rule_lang P r"
proof (rule set_eqI, rule iffI)
  fix w assume "w \<in> rule_lang Q r"
  then obtain ys where ys: "(r, ys) \<in> Q" "derives Q ys w" by blast
  then have P: "(r, ys) \<in> P" using assms(3,4) by blast
  then have "refs ys \<subseteq> R" using assms(2,3) by (auto simp: closed_rules_def)
  with ys(2) assms(2,4) P show "w \<in> rule_lang P r"
    by (blast intro: derives_restrict)
next
  fix w assume "w \<in> rule_lang P r"
  then show "w \<in> rule_lang Q r" using assms(1) by (blast intro: derives_mono)
qed

end
