(* ===== verification/Gram_Build.thy ===== *)
theory Gram_Build
  imports Gram_Lang
begin

text \<open>
  \<open>src/llm/grammar.c\<close> and \<open>src/llm/grammar_impl.h\<close>: byte sets, the builder of grammars and
  the compiled layout a match reads. Indices and counts, \<open>uint32_t\<close> in the source, are natural
  numbers: each is bounded by the number of elements in memory. The builder's \<open>failed\<close> flag is
  kept, and every request for memory may be refused (\<open>Prelude\<close>).
\<close>

section \<open>Byte sets\<close>

text \<open>Thirty-two bytes, byte \<open>c\<close> at bit \<open>c & 7\<close> of \<open>set[c >> 3]\<close>.\<close>

type_synonym bset = "u8 list"

definition set_clear :: bset where
  "set_clear = replicate 32 0"

definition set_add :: "bset \<Rightarrow> nat \<Rightarrow> nat \<Rightarrow> bset" where
  "set_add s lo hi =
     fold bits_put [lo..<Suc hi] s"

definition set_invert :: "bset \<Rightarrow> bset" where
  "set_invert s = fold (\<lambda>i s. s[i := NOT (s ! i)]) [0..<32] s"

definition gset_has :: "bset \<Rightarrow> u8 \<Rightarrow> bool" where
  "gset_has s c \<longleftrightarrow> bits_has s (unat c)"

definition bset_of :: "bset \<Rightarrow> u8 set" where
  "bset_of s = {c. gset_has s c}"

section \<open>The builder\<close>

datatype gel = GEL_END | GEL_SET nat | GEL_TOKEN int | GEL_RULE nat

record balt =
  bt_rule :: nat
  bt_el :: "gel list"
  bt_cap :: nat

record gbuild =
  alts :: "balt list"
  cap_alts :: nat
  n_rules :: nat
  sets :: "bset list"
  cap_sets :: nat
  byte_set :: "nat list"
  gfailed :: bool
  gmem :: mem

definition UINT32_MAX :: nat where
  "UINT32_MAX = 4294967295"

definition gbuild_new :: "mem \<Rightarrow> gbuild option" where
  "gbuild_new m =
     (case malloc m of (ok, m') \<Rightarrow>
        if ok then Some \<lparr>alts = [], cap_alts = 0, n_rules = 0, sets = [], cap_sets = 0,
                         byte_set = replicate 256 0, gfailed = False, gmem = m'\<rparr>
        else None)"

definition gb_request :: "gbuild \<Rightarrow> bool \<times> gbuild" where
  "gb_request b = (case malloc (gmem b) of (ok, m) \<Rightarrow> (ok, b\<lparr>gmem := m\<rparr>))"

definition gb_rule :: "gbuild \<Rightarrow> nat \<times> gbuild" where
  "gb_rule b = (n_rules b, b\<lparr>n_rules := Suc (n_rules b)\<rparr>)"

definition gb_alt :: "nat \<Rightarrow> gbuild \<Rightarrow> nat \<times> gbuild" where
  "gb_alt r b =
     (let new = (\<lambda>b. (length (alts b),
                      b\<lparr>alts := alts b @ [\<lparr>bt_rule = r, bt_el = [], bt_cap = 0\<rparr>]\<rparr>))
      in if length (alts b) = cap_alts b
         then (case gb_request b of (ok, b') \<Rightarrow>
                 if ok then new (b'\<lparr>cap_alts := (if cap_alts b \<noteq> 0 then 2 * cap_alts b else 64)\<rparr>)
                 else (UINT32_MAX, b'\<lparr>gfailed := True\<rparr>))
         else new b)"

definition push :: "nat \<Rightarrow> gel \<Rightarrow> gbuild \<Rightarrow> gbuild" where
  "push a e b =
     (if a \<ge> length (alts b) then b\<lparr>gfailed := True\<rparr>
      else
        let x = alts b ! a;
            add = (\<lambda>x b. b\<lparr>alts := (alts b)[a := x\<lparr>bt_el := bt_el x @ [e]\<rparr>]\<rparr>)
        in if length (bt_el x) = bt_cap x
           then (case gb_request b of (ok, b') \<Rightarrow>
                   if ok then add (x\<lparr>bt_cap := (if bt_cap x \<noteq> 0 then 2 * bt_cap x else 8)\<rparr>) b'
                   else b'\<lparr>gfailed := True\<rparr>)
           else add x b)"

definition add_set :: "bset \<Rightarrow> gbuild \<Rightarrow> nat \<times> gbuild" where
  "add_set s b =
     (let new = (\<lambda>b. (length (sets b), b\<lparr>sets := sets b @ [s]\<rparr>))
      in if length (sets b) = cap_sets b
         then (case gb_request b of (ok, b') \<Rightarrow>
                 if ok then new (b'\<lparr>cap_sets := (if cap_sets b \<noteq> 0 then 2 * cap_sets b else 64)\<rparr>)
                 else (0, b'\<lparr>gfailed := True\<rparr>))
         else new b)"

definition gb_set :: "nat \<Rightarrow> bset \<Rightarrow> gbuild \<Rightarrow> gbuild" where
  "gb_set a s b = (case add_set s b of (i, b') \<Rightarrow> if \<not> gfailed b' then push a (GEL_SET i) b' else b')"

definition gb_byte :: "nat \<Rightarrow> u8 \<Rightarrow> gbuild \<Rightarrow> gbuild" where
  "gb_byte a c b =
     (let k = unat c in
      if byte_set b ! k = 0 then
        (case add_set (set_add set_clear k k) b of (s, b') \<Rightarrow>
           if gfailed b' then b'
           else let b'' = b'\<lparr>byte_set := (byte_set b')[k := s + 1]\<rparr>
                in push a (GEL_SET (byte_set b'' ! k - 1)) b'')
      else push a (GEL_SET (byte_set b ! k - 1)) b)"

definition gb_lit :: "nat \<Rightarrow> bytes \<Rightarrow> gbuild \<Rightarrow> gbuild" where
  "gb_lit a s b = fold (gb_byte a) s b"

definition gb_token :: "nat \<Rightarrow> int \<Rightarrow> gbuild \<Rightarrow> gbuild" where
  "gb_token a t b = push a (GEL_TOKEN t) b"

definition gb_ref :: "nat \<Rightarrow> nat \<Rightarrow> gbuild \<Rightarrow> gbuild" where
  "gb_ref a r b = push a (GEL_RULE r) b"

definition gb_empty :: "gbuild \<Rightarrow> nat \<times> gbuild" where
  "gb_empty b = (case gb_rule b of (r, b') \<Rightarrow> (r, snd (gb_alt r b')))"

definition gbuild_failed :: "gbuild \<Rightarrow> bool" where
  "gbuild_failed b = gfailed b"

section \<open>The compiled grammar\<close>

text \<open>
  \<open>el\<close> holds every alternative's elements, each followed by \<open>GEL_END\<close>; rule \<open>r\<close> has
  \<open>rule_n ! r\<close> alternatives, the i-th starting at \<open>el ! (alt_pos ! (rule_first ! r + i))\<close>.
\<close>

record grammar =
  el :: "gel list"
  alt_pos :: "nat list"
  rule_first :: "nat list"
  rule_n :: "nat list"
  gr_rules :: nat
  gr_sets :: "bset list"

fun count_alts :: "nat \<Rightarrow> balt list \<Rightarrow> nat list \<Rightarrow> nat list" where
  "count_alts n [] rn = rn"
| "count_alts n (x # xs) rn =
     count_alts n xs (if bt_rule x < n then rn[bt_rule x := rn ! bt_rule x + 1] else rn)"

fun first_alts :: "nat list \<Rightarrow> nat \<Rightarrow> nat list" where
  "first_alts [] at = []"
| "first_alts (c # cs) at = at # first_alts cs (at + c)"

fun fill_alts :: "nat \<Rightarrow> nat list \<Rightarrow> balt list \<Rightarrow> nat list \<Rightarrow> nat list \<Rightarrow> gel list
    \<Rightarrow> nat list \<times> nat list \<times> gel list" where
  "fill_alts n rf [] ap rn e = (ap, rn, e)"
| "fill_alts n rf (x # xs) ap rn e =
     (let r = bt_rule x in
      if r \<ge> n then fill_alts n rf xs ap rn e
      else fill_alts n rf xs (ap[rf ! r + rn ! r := length e]) (rn[r := rn ! r + 1])
             (e @ bt_el x @ [GEL_END]))"

definition grammar_make :: "gbuild \<Rightarrow> mem \<Rightarrow> grammar option" where
  "grammar_make b m =
     (if gfailed b then None
      else
        let (ok0, m0) = malloc m in
        if \<not> ok0 then None
        else
        let nr = (if n_rules b \<noteq> 0 then n_rules b else 1);
            (ok1, m1) = malloc m0; (ok2, m2) = malloc m1; (ok3, m3) = malloc m2;
            (ok4, m4) = malloc m3; (ok5, m5) = malloc m4
        in if \<not> ok1 \<or> \<not> ok2 \<or> \<not> ok3 \<or> \<not> ok4 \<or> \<not> ok5 then None
        else
        let counts = count_alts (n_rules b) (alts b) (replicate nr 0);
            rf = first_alts (take (n_rules b) counts) 0 @ drop (n_rules b) (replicate nr 0);
            zeroed = replicate (n_rules b) 0 @ drop (n_rules b) counts;
            (ap, rn, e) = fill_alts (n_rules b) rf (alts b) (replicate (length (alts b) + 1) 0)
                            zeroed []
        in Some \<lparr>el = e, alt_pos = ap, rule_first = rf, rule_n = rn,
                 gr_rules = n_rules b, gr_sets = sets b\<rparr>)"


section \<open>Byte sets: lemmas\<close>

lemma length_set_add [simp]: "length (set_add s lo hi) = length s"
  by (simp add: set_add_def)

lemma length_set_clear [simp]: "length set_clear = 32"
  by (simp add: set_clear_def)

lemma gset_has_clear [simp]: "\<not> gset_has set_clear c"
  by (simp add: gset_has_def set_clear_def bits_has_zeros u8_div8_less)

lemma gset_has_add:
  assumes "length s = 32" and "hi < 256"
  shows "gset_has (set_add s lo hi) c \<longleftrightarrow> gset_has s c \<or> lo \<le> unat c \<and> unat c \<le> hi"
proof -
  have "bits_has (fold bits_put [lo..<Suc hi] s) (unat c) \<longleftrightarrow>
      bits_has s (unat c) \<or> unat c \<in> set [lo..<Suc hi]"
  proof (rule bits_has_fold_put)
    fix k assume "k \<in> set [lo..<Suc hi]"
    then show "k div 8 < length s" using assms by (intro less_mult_imp_div_less) auto
  qed
  then show ?thesis by (auto simp: gset_has_def set_add_def simp del: upt_Suc)
qed

lemma bset_of_add:
  "length s = 32 \<Longrightarrow> hi < 256 \<Longrightarrow>
     bset_of (set_add s lo hi) = bset_of s \<union> {c. lo \<le> unat c \<and> unat c \<le> hi}"
  by (auto simp: bset_of_def gset_has_add)

lemma bset_of_clear [simp]: "bset_of set_clear = {}"
  by (simp add: bset_of_def)

lemma bset_of_byte: "k < 256 \<Longrightarrow> bset_of (set_add set_clear k k) = {of_nat k}"
  by (auto simp: bset_of_add u8_eq_iff unat_of_nat_u8)

lemma set_invert_nth:
  assumes "length s = 32"
  shows "length (set_invert s) = 32 \<and> (\<forall>i < 32. set_invert s ! i = NOT (s ! i))"
proof -
  let ?f = "\<lambda>i s. s[i := NOT (s ! i)]"
  have "length (fold ?f [0..<32] s) = 32 \<and>
    (\<forall>i < 32. fold ?f [0..<32] s ! i = (if i < 32 then NOT (s ! i) else s ! i))"
    by (rule fold_upt_invariant [where P = "\<lambda>k t. length t = 32 \<and>
        (\<forall>i < 32. t ! i = (if i < k then NOT (s ! i) else s ! i))"])
       (use assms in \<open>auto simp: nth_list_update less_Suc_eq\<close>)
  then show ?thesis by (simp add: set_invert_def)
qed

lemma gset_has_invert: "length s = 32 \<Longrightarrow> gset_has (set_invert s) c \<longleftrightarrow> \<not> gset_has s c"
  using set_invert_nth [of s] u8_div8_less [of c]
  by (simp add: gset_has_def bits_has_def bit_not_iff)

section \<open>What a builder means\<close>

fun resolve :: "bset list \<Rightarrow> gel \<Rightarrow> asym" where
  "resolve ss GEL_END = ASet {}"
| "resolve ss (GEL_SET i) = ASet (bset_of (ss ! i))"
| "resolve ss (GEL_TOKEN t) = ATok t"
| "resolve ss (GEL_RULE r) = ARule r"

text \<open>The alternatives in the order they were made, with their elements' meaning.\<close>

definition aprods :: "gbuild \<Rightarrow> (nat \<times> asym list) list" where
  "aprods b = map (\<lambda>x. (bt_rule x, map (resolve (sets b)) (bt_el x))) (alts b)"

text \<open>The productions: an alternative of a rule never made is no production.\<close>

definition gprods :: "gbuild \<Rightarrow> prods" where
  "gprods b = {p \<in> set (aprods b). fst p < n_rules b}"

definition el_ok :: "nat \<Rightarrow> gel \<Rightarrow> bool" where
  "el_ok n e \<longleftrightarrow> e \<noteq> GEL_END \<and> (\<forall>i. e = GEL_SET i \<longrightarrow> i < n)"

definition gb_inv :: "gbuild \<Rightarrow> bool" where
  "gb_inv b \<longleftrightarrow>
     (\<forall>x \<in> set (alts b). \<forall>e \<in> set (bt_el x). el_ok (length (sets b)) e) \<and>
     length (byte_set b) = 256 \<and>
     (\<forall>k < 256. byte_set b ! k \<noteq> 0 \<longrightarrow>
        byte_set b ! k \<le> length (sets b) \<and>
        bset_of (sets b ! (byte_set b ! k - 1)) = {of_nat k})"

lemma length_aprods [simp]: "length (aprods b) = length (alts b)"
  by (simp add: aprods_def)

lemma resolve_sets_append:
  "el_ok (length ss) e \<Longrightarrow> resolve (ss @ ts) e = resolve ss e"
  by (cases e) (auto simp: el_ok_def nth_append)

lemma el_ok_mono: "el_ok n e \<Longrightarrow> n \<le> m \<Longrightarrow> el_ok m e"
  by (auto simp: el_ok_def)

lemma el_ok_Suc: "el_ok n e \<Longrightarrow> el_ok (Suc n) e"
  by (erule el_ok_mono) simp

text \<open>
  What the building steps share: once a request has failed the flag stays, and until then a
  step keeps the invariant and changes the productions in the way its name says.
\<close>

lemma gbuild_new_inv: "gbuild_new m = Some b \<Longrightarrow> gb_inv b \<and> aprods b = [] \<and> n_rules b = 0"
  by (auto simp: gbuild_new_def gb_inv_def aprods_def split: prod.splits if_splits)

lemma gb_requestD: "gb_request b = (ok, b') \<Longrightarrow> \<exists>m. b' = b\<lparr>gmem := m\<rparr>"
  by (auto simp: gb_request_def split: prod.splits)

lemma gb_rule_refines:
  assumes "gb_rule b = (r, b')"
  shows "r = n_rules b" "n_rules b' = Suc (n_rules b)" "aprods b' = aprods b"
    "gb_inv b' = gb_inv b" "gfailed b' = gfailed b" "alts b' = alts b"
  using assms by (auto simp: gb_rule_def aprods_def gb_inv_def)

lemma gb_alt_refines:
  assumes "gb_alt r b = (a, b')" and "\<not> gfailed b'"
  shows "\<not> gfailed b" "a = length (aprods b)" "aprods b' = aprods b @ [(r, [])]"
    "n_rules b' = n_rules b" "gb_inv b \<Longrightarrow> gb_inv b'"
  using assms
  by (auto simp: gb_alt_def aprods_def gb_inv_def Let_def split: if_splits prod.splits
      dest!: gb_requestD)

lemma push_effect:
  assumes "\<not> gfailed (push a e b)"
  shows "\<not> gfailed b" "a < length (alts b)" "sets (push a e b) = sets b"
    "n_rules (push a e b) = n_rules b" "byte_set (push a e b) = byte_set b"
    "\<exists>y. alts (push a e b) = (alts b)[a := y] \<and> bt_rule y = bt_rule (alts b ! a) \<and>
       bt_el y = bt_el (alts b ! a) @ [e]"
  using assms
  by (force simp: push_def Let_def split: if_splits prod.splits dest!: gb_requestD)+

lemma push_refines:
  assumes "\<not> gfailed (push a e b)" and "gb_inv b" and "el_ok (length (sets b)) e"
  shows "\<not> gfailed b" "a < length (aprods b)"
    "aprods (push a e b) =
       (aprods b)[a := (fst (aprods b ! a), snd (aprods b ! a) @ [resolve (sets b) e])]"
    "n_rules (push a e b) = n_rules b" "gb_inv (push a e b)"
proof -
  note eff = push_effect [OF assms(1)]
  obtain y where alts: "alts (push a e b) = (alts b)[a := y]" "bt_rule y = bt_rule (alts b ! a)"
      "bt_el y = bt_el (alts b ! a) @ [e]"
    using eff(6) by blast
  show "\<not> gfailed b" "a < length (aprods b)" "n_rules (push a e b) = n_rules b"
    using eff by auto
  show "aprods (push a e b) =
      (aprods b)[a := (fst (aprods b ! a), snd (aprods b ! a) @ [resolve (sets b) e])]"
    using eff alts by (simp add: aprods_def map_update)
  have "x \<in> set (alts (push a e b)) \<Longrightarrow> d \<in> set (bt_el x) \<Longrightarrow> el_ok (length (sets b)) d" for x d
    using assms(2,3) alts nth_mem [OF eff(2)] unfolding gb_inv_def
    by (auto dest!: set_update_subset_insert [THEN subsetD])
  then show "gb_inv (push a e b)"
    using assms(2) eff by (simp add: gb_inv_def)
qed

lemma add_set_refines:
  assumes "add_set s b = (i, b')" and "\<not> gfailed b'"
  shows "\<not> gfailed b" "i = length (sets b)" "sets b' = sets b @ [s]"
    "n_rules b' = n_rules b" "alts b' = alts b" "byte_set b' = byte_set b"
  using assms by (auto simp: add_set_def Let_def split: if_splits prod.splits dest!: gb_requestD)

lemma gb_inv_add_set:
  assumes "gb_inv b" and "sets b' = sets b @ [s]" and "alts b' = alts b"
    and "byte_set b' = byte_set b"
  shows "gb_inv b'" "aprods b' = aprods b"
proof -
  show "gb_inv b'"
    using assms by (auto simp: gb_inv_def nth_append intro!: el_ok_Suc)
  show "aprods b' = aprods b"
    using assms by (auto simp: gb_inv_def aprods_def resolve_sets_append)
qed

text \<open>The effect every element-appending step has: one symbol at the end of alternative \<open>a\<close>.\<close>

definition appended :: "nat \<Rightarrow> asym list \<Rightarrow> gbuild \<Rightarrow> gbuild \<Rightarrow> bool" where
  "appended a xs b b' \<longleftrightarrow>
     \<not> gfailed b \<and> n_rules b' = n_rules b \<and> gb_inv b' \<and>
     (xs \<noteq> [] \<longrightarrow> a < length (aprods b)) \<and>
     aprods b' = (aprods b)[a := (fst (aprods b ! a), snd (aprods b ! a) @ xs)]"

lemma push_appended:
  "\<not> gfailed (push a e b) \<Longrightarrow> gb_inv b \<Longrightarrow> el_ok (length (sets b)) e \<Longrightarrow>
     appended a [resolve (sets b) e] b (push a e b)"
  using push_refines [of a e b] by (auto simp: appended_def)

lemma gb_set_appended:
  assumes "\<not> gfailed (gb_set a s b)" and "gb_inv b"
  shows "appended a [ASet (bset_of s)] b (gb_set a s b)"
proof -
  obtain i b1 where add: "add_set s b = (i, b1)" by force
  then have set: "gb_set a s b = (if \<not> gfailed b1 then push a (GEL_SET i) b1 else b1)"
    by (simp add: gb_set_def)
  with assms(1) have ok: "\<not> gfailed b1" by (auto split: if_splits)
  with set have set: "gb_set a s b = push a (GEL_SET i) b1" by simp
  note ref = add_set_refines [OF add ok]
  note inv = gb_inv_add_set [OF assms(2) ref(3,5,6)]
  have "appended a [resolve (sets b1) (GEL_SET i)] b1 (push a (GEL_SET i) b1)"
    using assms(1) set inv ref by (intro push_appended) (auto simp: el_ok_def)
  then show ?thesis using set ref inv by (simp add: appended_def)
qed

lemma gb_byte_appended:
  assumes "\<not> gfailed (gb_byte a c b)" and "gb_inv b"
  shows "appended a [ASet {c}] b (gb_byte a c b)"
proof (cases "byte_set b ! unat c = 0")
  case True
  let ?k = "unat c"
  obtain i b1 where add: "add_set (set_add set_clear ?k ?k) b = (i, b1)" by force
  define b2 where "b2 = b1\<lparr>byte_set := (byte_set b1)[?k := i + 1]\<rparr>"
  have 1: "gb_byte a c b =
      (if gfailed b1 then b1 else push a (GEL_SET (byte_set b2 ! ?k - 1)) b2)"
    using True add by (simp add: gb_byte_def b2_def Let_def)
  with assms(1) have ok: "\<not> gfailed b1" by (auto split: if_splits)
  note ref = add_set_refines [OF add ok]
  note inv = gb_inv_add_set [OF assms(2) ref(3,5,6)]
  have len: "length (byte_set b1) = 256" using inv(1) by (simp add: gb_inv_def)
  have *: "bset_of (set_add set_clear ?k ?k) = {c}" by (simp add: bset_of_byte)
  have inv2: "gb_inv b2"
    using inv(1) ref * unfolding gb_inv_def b2_def
    by (auto simp: nth_list_update)
  have ap: "aprods b2 = aprods b" using inv(2) by (simp add: b2_def aprods_def)
  have get: "byte_set b2 ! ?k - 1 = i" using len by (simp add: b2_def)
  have push: "gb_byte a c b = push a (GEL_SET i) b2" using 1 ok get by simp
  have "appended a [resolve (sets b2) (GEL_SET i)] b2 (push a (GEL_SET i) b2)"
    using assms(1) push inv2 ref by (intro push_appended) (auto simp: el_ok_def b2_def)
  moreover have "resolve (sets b2) (GEL_SET i) = ASet {c}"
    using ref * by (simp add: b2_def)
  ultimately show ?thesis using push ref ap by (simp add: appended_def b2_def)
next
  case False
  let ?i = "byte_set b ! unat c - 1"
  have push: "gb_byte a c b = push a (GEL_SET ?i) b"
    using False by (simp add: gb_byte_def Let_def)
  have "byte_set b ! unat c \<le> length (sets b) \<and> bset_of (sets b ! ?i) = {of_nat (unat c)}"
    using assms(2) False unat_u8_less [of c] unfolding gb_inv_def by blast
  then have i: "?i < length (sets b)" "bset_of (sets b ! ?i) = {c}"
    using False by auto
  have "appended a [resolve (sets b) (GEL_SET ?i)] b (push a (GEL_SET ?i) b)"
    using assms push i by (intro push_appended) (auto simp: el_ok_def)
  with i push show ?thesis by simp
qed

lemma gb_token_appended:
  "\<not> gfailed (gb_token a t b) \<Longrightarrow> gb_inv b \<Longrightarrow> appended a [ATok t] b (gb_token a t b)"
  using push_appended [of a "GEL_TOKEN t" b] by (simp add: gb_token_def el_ok_def)

lemma gb_ref_appended:
  "\<not> gfailed (gb_ref a r b) \<Longrightarrow> gb_inv b \<Longrightarrow> appended a [ARule r] b (gb_ref a r b)"
  using push_appended [of a "GEL_RULE r" b] by (simp add: gb_ref_def el_ok_def)

lemma appended_trans:
  assumes "appended a xs b b1" and "appended a ys b1 b2"
  shows "appended a (xs @ ys) b b2"
proof (cases "a < length (aprods b)")
  case True
  then show ?thesis using assms by (simp add: appended_def)
next
  case False
  then have "xs = []" using assms(1) by (auto simp: appended_def)
  then show ?thesis using assms by (auto simp: appended_def)
qed

lemma gfailed_gb_byte: "gfailed b \<Longrightarrow> gfailed (gb_byte a c b)"
proof (rule ccontr)
  assume b: "gfailed b" and n: "\<not> gfailed (gb_byte a c b)"
  obtain i b1 where add: "add_set (set_add set_clear (unat c) (unat c)) b = (i, b1)" by force
  have "gfailed b1" using b add_set_refines(1) [OF add] by blast
  then show False using b n add push_effect(1) [of a _ b]
    by (auto simp: gb_byte_def Let_def split: if_splits)
qed

lemma gfailed_fold_gb_byte: "gfailed b \<Longrightarrow> gfailed (fold (gb_byte a) s b)"
  by (induction s arbitrary: b) (auto intro: gfailed_gb_byte)

lemma gb_lit_appended:
  assumes "\<not> gfailed (gb_lit a s b)" and "gb_inv b"
  shows "appended a (map (\<lambda>c. ASet {c}) s) b (gb_lit a s b)"
  using assms unfolding gb_lit_def
proof (induction s arbitrary: b)
  case Nil
  then show ?case by (simp add: appended_def)
next
  case (Cons c s)
  have ok: "\<not> gfailed (gb_byte a c b)"
    using Cons.prems(1) gfailed_fold_gb_byte [of "gb_byte a c b" a s] by auto
  have 1: "appended a [ASet {c}] b (gb_byte a c b)"
    using ok Cons.prems(2) by (rule gb_byte_appended)
  then have "gb_inv (gb_byte a c b)" by (simp add: appended_def)
  with Cons.IH Cons.prems(1) have
    "appended a (map (\<lambda>c. ASet {c}) s) (gb_byte a c b) (fold (gb_byte a) (c # s) b)"
    by simp
  from appended_trans [OF 1 this] show ?case by simp
qed

end
