(* ===== verification/Gram_Until.thy ===== *)
theory Gram_Until
  imports Gram_Build "HOL-Library.Sublist"
begin

text \<open>
  \<open>janas_gb_until\<close> of \<open>src/llm/grammar.c\<close>: the rule for any text up to the first occurrence of
  a word, that word included, built as the automaton of Knuth, Morris and Pratt. The loops that
  follow the failure table are \<open>while\<close> loops here as there; that they end is part of
  \<open>kmp_back_spec\<close>.
\<close>

section \<open>The construction\<close>

definition kmp_back :: "bytes \<Rightarrow> nat list \<Rightarrow> u8 \<Rightarrow> nat \<Rightarrow> nat" where
  "kmp_back e fs c k = while (\<lambda>k. k \<noteq> 0 \<and> e ! k \<noteq> c) (\<lambda>k. fs ! (k - 1)) k"

definition kmp_fail :: "bytes \<Rightarrow> nat list" where
  "kmp_fail e = snd (fold (\<lambda>i (k, fs).
     let k1 = kmp_back e fs (e ! i) k;
         k2 = (if e ! i = e ! k1 then k1 + 1 else k1)
     in (k2, fs[i := k2])) [1..<length e] (0, replicate (length e) 0))"

definition until_dest :: "bytes \<Rightarrow> nat list \<Rightarrow> nat \<Rightarrow> nat list" where
  "until_dest e fs i = map (\<lambda>c.
     let k = kmp_back e fs (of_nat c) i in if e ! k = of_nat c then k + 1 else 0) [0..<256]"

definition until_class :: "nat list \<Rightarrow> nat \<Rightarrow> bool list \<Rightarrow> bset \<times> bool list" where
  "until_class dest c dn = fold (\<lambda>d (s, dn).
     if \<not> dn ! d \<and> dest ! d = dest ! c then (set_add s d d, dn[d := True]) else (s, dn))
     [c..<256] (set_clear, dn)"

definition until_byte :: "nat \<Rightarrow> nat list \<Rightarrow> nat \<Rightarrow> nat list \<Rightarrow> nat \<Rightarrow> gbuild \<times> bool list
    \<Rightarrow> gbuild \<times> bool list" where
  "until_byte n rule i dest c st =
     (case st of (b, dn) \<Rightarrow>
        if dn ! c then (b, dn)
        else case until_class dest c dn of (s, dn') \<Rightarrow>
          case gb_alt (rule ! i) b of (a, b1) \<Rightarrow>
            let b2 = gb_set a s b1 in
            (if dest ! c < n then gb_ref a (rule ! (dest ! c)) b2 else b2, dn'))"

definition until_state :: "bytes \<Rightarrow> nat list \<Rightarrow> nat list \<Rightarrow> nat \<Rightarrow> gbuild \<Rightarrow> gbuild" where
  "until_state e fs rule i b =
     fst (fold (until_byte (length e) rule i (until_dest e fs i)) [0..<256]
       (b, replicate 256 False))"

definition gb_rules :: "nat \<Rightarrow> gbuild \<Rightarrow> nat list \<times> gbuild" where
  "gb_rules n b = fold (\<lambda>_ (rs, b). case gb_rule b of (r, b') \<Rightarrow> (rs @ [r], b')) [0..<n] ([], b)"

definition gb_until :: "bytes \<Rightarrow> gbuild \<Rightarrow> nat \<times> gbuild" where
  "gb_until e b =
     (if length e = 0 then gb_empty b
      else case gb_request b of (ok1, b1) \<Rightarrow> case gb_request b1 of (ok2, b2) \<Rightarrow>
        if \<not> ok1 \<or> \<not> ok2 then (0, b2\<lparr>gfailed := True\<rparr>)
        else case gb_rules (length e) b2 of (rule, b3) \<Rightarrow>
          (rule ! 0, fold (until_state e (kmp_fail e) rule) [0..<length e] b3))"

section \<open>Borders\<close>

text \<open>The longest proper border of the first \<open>j\<close> bytes, and the longest start of \<open>e\<close> a text ends with.\<close>

definition pb :: "bytes \<Rightarrow> nat \<Rightarrow> nat" where
  "pb e j = Max {k. k < j \<and> suffix (take k e) (take j e)}"

definition lb :: "bytes \<Rightarrow> bytes \<Rightarrow> nat" where
  "lb e s = Max {k. k \<le> length e \<and> suffix (take k e) s}"

lemma Max_bounded_eq:
  assumes "P k" and "\<And>k'. P k' \<Longrightarrow> k' \<le> (k :: nat)"
  shows "Max {k. P k} = k"
proof (rule Max_eqI)
  show "finite {k. P k}" using assms(2) by (auto intro: finite_subset [of _ "{..k}"])
qed (use assms in auto)

lemma pb_props:
  assumes "0 < j"
  shows "pb e j < j" "suffix (take (pb e j) e) (take j e)"
    "\<And>k. k < j \<Longrightarrow> suffix (take k e) (take j e) \<Longrightarrow> k \<le> pb e j"
proof -
  let ?S = "{k. k < j \<and> suffix (take k e) (take j e)}"
  have fin: "finite ?S" and ne: "?S \<noteq> {}" using assms by auto
  have "pb e j \<in> ?S" unfolding pb_def using fin ne by (rule Max_in)
  then show "pb e j < j" "suffix (take (pb e j) e) (take j e)" by auto
  show "\<And>k. k < j \<Longrightarrow> suffix (take k e) (take j e) \<Longrightarrow> k \<le> pb e j"
    unfolding pb_def by (rule Max_ge [OF fin]) simp
qed

lemma lb_props:
  shows "lb e s \<le> length e" "suffix (take (lb e s) e) s"
    "\<And>k. k \<le> length e \<Longrightarrow> suffix (take k e) s \<Longrightarrow> k \<le> lb e s"
proof -
  let ?S = "{k. k \<le> length e \<and> suffix (take k e) s}"
  have fin: "finite ?S" by (auto intro: finite_subset [of _ "{..length e}"])
  have ne: "?S \<noteq> {}" by (auto intro: exI [of _ 0])
  have "lb e s \<in> ?S" unfolding lb_def using fin ne by (rule Max_in)
  then show "lb e s \<le> length e" "suffix (take (lb e s) e) s" by auto
  show "\<And>k. k \<le> length e \<Longrightarrow> suffix (take k e) s \<Longrightarrow> k \<le> lb e s"
    unfolding lb_def by (rule Max_ge [OF fin]) simp
qed

lemma suffix_snoc_take:
  assumes "k < length e"
  shows "suffix (take (Suc k) e) (s @ [c]) \<longleftrightarrow> suffix (take k e) s \<and> e ! k = c"
  using assms by (auto simp: take_Suc_conv_app_nth)

lemma suffix_shorter:
  assumes "suffix (take k' e) s" and "suffix (take k e) s" and "k' \<le> k" "k \<le> length e"
  shows "suffix (take k' e) (take k e)"
  using suffix_length_suffix [OF assms(1,2)] assms(3,4) by simp

text \<open>
  Following the failure table from a border of \<open>s\<close>: the longest one that \<open>c\<close> extends, or the
  empty one. The loop ends, since each step goes to a shorter border.
\<close>

lemma kmp_back_spec:
  assumes tab: "\<And>j. 0 < j \<Longrightarrow> j \<le> k0 \<Longrightarrow> fs ! (j - 1) = pb e j"
    and s: "suffix (take k0 e) s" and k0: "k0 < length e"
  shows "kmp_back e fs c k0 \<le> k0 \<and> suffix (take (kmp_back e fs c k0) e) s \<and>
    (kmp_back e fs c k0 = 0 \<or> e ! kmp_back e fs c k0 = c) \<and>
    (\<forall>k'. k' \<le> k0 \<longrightarrow> suffix (take k' e) s \<longrightarrow> kmp_back e fs c k0 < k' \<longrightarrow> e ! k' \<noteq> c)"
  unfolding kmp_back_def
proof (rule while_rule [where r = "measure id" and P = "\<lambda>k. k \<le> k0 \<and> suffix (take k e) s \<and>
    (\<forall>k'. k' \<le> k0 \<longrightarrow> suffix (take k' e) s \<longrightarrow> k < k' \<longrightarrow> e ! k' \<noteq> c)"])
  fix k
  assume P: "k \<le> k0 \<and> suffix (take k e) s \<and>
      (\<forall>k'. k' \<le> k0 \<longrightarrow> suffix (take k' e) s \<longrightarrow> k < k' \<longrightarrow> e ! k' \<noteq> c)"
    and B: "k \<noteq> 0 \<and> e ! k \<noteq> c"
  have nx: "fs ! (k - 1) = pb e k" using tab P B by simp
  have pb: "pb e k < k" "suffix (take (pb e k) e) (take k e)" using pb_props [where j = k and e = e] B by auto
  have "e ! k' \<noteq> c" if k': "k' \<le> k0" "suffix (take k' e) s" "pb e k < k'" for k'
  proof (cases k k' rule: linorder_cases)
    case less
    then show ?thesis using P k' by blast
  next
    case equal
    then show ?thesis using B by simp
  next
    case greater
    then have "suffix (take k' e) (take k e)"
      using P k' k0 by (intro suffix_shorter [where s = s]) auto
    then show ?thesis using pb_props(3) [where j = k and e = e and k = k'] greater k'(3) by simp
  qed
  then show "fs ! (k - 1) \<le> k0 \<and> suffix (take (fs ! (k - 1)) e) s \<and>
      (\<forall>k'. k' \<le> k0 \<longrightarrow> suffix (take k' e) s \<longrightarrow> fs ! (k - 1) < k' \<longrightarrow> e ! k' \<noteq> c)"
    using nx pb P by (auto intro: suffix_order.trans)
  show "(fs ! (k - 1), k) \<in> measure id" using nx pb by simp
qed (use s in auto)

lemma kmp_step_pb:
  assumes tab: "\<And>j. 0 < j \<Longrightarrow> j \<le> i \<Longrightarrow> fs ! (j - 1) = pb e j"
    and i: "0 < i" "i < length e" and k1: "k1 = kmp_back e fs (e ! i) (pb e i)"
  shows "pb e (Suc i) = (if e ! i = e ! k1 then k1 + 1 else k1)"
proof -
  note pb = pb_props [OF i(1), where e = e]
  have spec: "k1 \<le> pb e i" "suffix (take k1 e) (take i e)" "k1 = 0 \<or> e ! k1 = e ! i"
    "\<And>k'. k' \<le> pb e i \<Longrightarrow> suffix (take k' e) (take i e) \<Longrightarrow> k1 < k' \<Longrightarrow> e ! k' \<noteq> e ! i"
    using kmp_back_spec [of "pb e i" fs e "take i e" "e ! i"] tab pb(1,2) i unfolding k1 by auto
  have take: "take (Suc i) e = take i e @ [e ! i]" using i by (simp add: take_Suc_conv_app_nth)
  have bound: "k' \<le> (if e ! i = e ! k1 then k1 + 1 else k1)"
    if k': "k' < Suc i" "suffix (take k' e) (take (Suc i) e)" for k'
  proof (cases k')
    case (Suc k)
    then have k: "suffix (take k e) (take i e)" "e ! k = e ! i" "k < i"
      using k' i suffix_snoc_take [of k e "take i e" "e ! i"] by (auto simp: take)
    then have "k \<le> pb e i" using pb(3) by simp
    with spec(4) [of k] k have "k \<le> k1" by (cases "k1 < k") auto
    with k(2) spec(3) Suc show ?thesis by auto
  qed simp
  have "k1 < length e" using spec(1) pb(1) i by simp
  then have "suffix (take (if e ! i = e ! k1 then k1 + 1 else k1) e) (take (Suc i) e)"
    using spec(2,3) suffix_snoc_take [of k1 e "take i e" "e ! i"]
    by (cases "e ! i = e ! k1") (simp_all add: take)
  moreover have "(if e ! i = e ! k1 then k1 + 1 else k1) < Suc i"
    using spec(1) pb(1) by auto
  ultimately show ?thesis
    unfolding pb_def by (intro Max_bounded_eq) (use bound in auto)
qed

lemma kmp_fail_spec:
  assumes "e \<noteq> []"
  shows "\<forall>j. 0 < j \<and> j \<le> length e \<longrightarrow> kmp_fail e ! (j - 1) = pb e j"
proof -
  let ?f = "\<lambda>i (k, fs). let k1 = kmp_back e fs (e ! i) k;
      k2 = (if e ! i = e ! k1 then k1 + 1 else k1) in (k2, fs[i := k2])"
  let ?P = "\<lambda>i (k, fs). k = pb e i \<and> length fs = length e \<and>
      (\<forall>j. 0 < j \<and> j \<le> i \<longrightarrow> fs ! (j - 1) = pb e j)"
  have pb1: "pb e (Suc 0) = 0" using pb_props(1) [where j = "Suc 0" and e = e] by simp
  have "?P (length e) (fold ?f [1..<length e] (0, replicate (length e) 0))"
  proof (rule fold_upt_invariant [where P = ?P and a = 1])
    have "replicate (length e) 0 ! (j - 1) = pb e j" if "0 < j" "j \<le> 1" for j
      using that pb1 assms by (cases "j = 1") auto
    then show "?P 1 (0, replicate (length e) 0)"
      using pb1 by auto
    show "1 \<le> length e" using assms by (simp add: Suc_le_eq)
    fix i st
    assume i: "1 \<le> i" "i < length e" and P: "?P i st"
    obtain k fs where st: "st = (k, fs)" by force
    define k1 where "k1 = kmp_back e fs (e ! i) k"
    have pb: "pb e (Suc i) = (if e ! i = e ! k1 then k1 + 1 else k1)"
      using P st i by (intro kmp_step_pb [where fs = fs]) (auto simp: k1_def)
    have f: "?f i st = (pb e (Suc i), fs[i := pb e (Suc i)])"
      by (simp only: st prod.case Let_def k1_def pb)
    have "fs[i := pb e (Suc i)] ! (j - 1) = pb e j" if "0 < j" "j \<le> Suc i" for j
      using P st i that by (cases "j = Suc i") auto
    then show "?P (Suc i) (?f i st)"
      using P st unfolding f by simp
  qed
  then show ?thesis by (auto simp: kmp_fail_def split: prod.splits)
qed

lemma lb_step:
  assumes i: "i = lb e s" "i < length e"
    and tab: "\<And>j. 0 < j \<Longrightarrow> j \<le> length e \<Longrightarrow> fs ! (j - 1) = pb e j"
    and k: "k = kmp_back e fs c i"
  shows "lb e (s @ [c]) = (if e ! k = c then k + 1 else 0)"
proof -
  note lb = lb_props [where e = e and s = s]
  have spec: "k \<le> i" "suffix (take k e) s" "k = 0 \<or> e ! k = c"
    "\<And>k'. k' \<le> i \<Longrightarrow> suffix (take k' e) s \<Longrightarrow> k < k' \<Longrightarrow> e ! k' \<noteq> c"
    using kmp_back_spec [of i fs e s c] tab i lb(2) unfolding k by auto
  have bound: "k' \<le> (if e ! k = c then k + 1 else 0)"
    if k': "k' \<le> length e" "suffix (take k' e) (s @ [c])" for k'
  proof (cases k')
    case (Suc j)
    then have j: "suffix (take j e) s" "e ! j = c"
      using k' suffix_snoc_take [of j e s c] by auto
    then have "j \<le> i" using lb(3) [of j] Suc k' i by simp
    with spec(4) [of j] j have "j \<le> k" by (cases "k < j") auto
    with j(2) spec(3) Suc show ?thesis by auto
  qed simp
  have "k < length e" using spec(1) i by simp
  then have "suffix (take (if e ! k = c then k + 1 else 0) e) (s @ [c])"
    using spec(2) suffix_snoc_take [of k e s c] by (cases "e ! k = c") simp_all
  with \<open>k < length e\<close> show ?thesis
    unfolding lb_def by (intro Max_bounded_eq) (use bound in auto)
qed

lemma until_dest_lb:
  assumes "lb e s = i" and "i < length e" and "e \<noteq> []"
  shows "until_dest e (kmp_fail e) i ! unat c = lb e (s @ [c])"
  using lb_step [of i e s "kmp_fail e" "kmp_back e (kmp_fail e) c i" c] assms kmp_fail_spec [of e]
  by (simp add: until_dest_def Let_def)

lemma until_dest_le:
  assumes "i < length e" and "e \<noteq> []" and "c < 256"
  shows "until_dest e (kmp_fail e) i ! c \<le> length e"
proof -
  have "lb e (take i e) = i"
    unfolding lb_def by (rule Max_bounded_eq) (use assms in \<open>auto dest: suffix_length_le\<close>)
  then have "until_dest e (kmp_fail e) i ! unat (of_nat c :: u8) = lb e (take i e @ [of_nat c])"
    using assms by (intro until_dest_lb) auto
  then show ?thesis using lb_props(1) assms(3) by (simp add: unat_of_nat_u8)
qed

section \<open>The alternatives of a state\<close>

lemma alt_appended:
  assumes "gb_alt r b = (a, b1)" and "appended a xs b1 b2" and "gb_inv b"
  shows "\<not> gfailed b" "aprods b2 = aprods b @ [(r, xs)]" "n_rules b2 = n_rules b" "gb_inv b2"
proof -
  have ok: "\<not> gfailed b1" using assms(2) by (simp add: appended_def)
  note alt = gb_alt_refines [OF assms(1) ok]
  then show "\<not> gfailed b" "n_rules b2 = n_rules b" "gb_inv b2"
    using assms(2) by (auto simp: appended_def)
  show "aprods b2 = aprods b @ [(r, xs)]"
    using alt(2,3) assms(2) by (simp add: appended_def del: length_aprods)
qed

lemma gb_set_ok: "\<not> gfailed (gb_set a s b) \<Longrightarrow> \<not> gfailed b"
proof -
  assume ok: "\<not> gfailed (gb_set a s b)"
  obtain i b1 where add: "add_set s b = (i, b1)" by force
  with ok have "\<not> gfailed b1" by (auto simp: gb_set_def split: if_splits)
  with add show ?thesis by (rule add_set_refines(1))
qed

lemma until_class_spec:
  assumes "until_class dest c dn = (s, dn')" and "length dn = 256" and "c < 256"
  shows "length dn' = 256"
    "\<And>d. d < 256 \<Longrightarrow> dn' ! d \<longleftrightarrow> dn ! d \<or> c \<le> d \<and> dest ! d = dest ! c"
    "bset_of s = {d. c \<le> unat d \<and> \<not> dn ! unat d \<and> dest ! unat d = dest ! c}"
proof -
  let ?f = "\<lambda>d (s, dn). if \<not> dn ! d \<and> dest ! d = dest ! c
      then (set_add s d d, dn[d := True]) else (s, dn)"
  let ?P = "\<lambda>k (s, t). length s = 32 \<and> length t = 256 \<and>
      (\<forall>d < 256. t ! d \<longleftrightarrow> dn ! d \<or> c \<le> d \<and> d < k \<and> dest ! d = dest ! c) \<and>
      bset_of s = {d. c \<le> unat d \<and> unat d < k \<and> \<not> dn ! unat d \<and> dest ! unat d = dest ! c}"
  have "?P 256 (fold ?f [c..<256] (set_clear, dn))"
  proof (rule fold_upt_invariant [where P = ?P and a = c])
    show "?P c (set_clear, dn)" using assms(2) by auto
    fix k st assume k: "c \<le> k" "k < 256" and P: "?P k st"
    obtain s t where st: "st = (s, t)" by force
    show "?P (Suc k) (?f k st)"
    proof (cases "\<not> t ! k \<and> dest ! k = dest ! c")
      case True
      moreover have "\<not> dn ! k" using True P k by (auto simp: st)
      ultimately show ?thesis
        using P k by (auto simp: st bset_of_add nth_list_update less_Suc_eq)
    next
      case False
      then have "dn ! k \<or> dest ! k \<noteq> dest ! c" using P k by (auto simp: st)
      then show ?thesis using P False k by (auto simp: st less_Suc_eq)
    qed
  qed (use assms in auto)
  then have P: "?P 256 (s, dn')" using assms(1) by (simp add: until_class_def)
  then show "length dn' = 256"
    "\<And>d. d < 256 \<Longrightarrow> dn' ! d \<longleftrightarrow> dn ! d \<or> c \<le> d \<and> dest ! d = dest ! c"
    "bset_of s = {d. c \<le> unat d \<and> \<not> dn ! unat d \<and> dest ! unat d = dest ! c}"
    by auto
qed

definition until_alt :: "nat \<Rightarrow> nat list \<Rightarrow> nat list \<Rightarrow> nat \<Rightarrow> asym list" where
  "until_alt n rule dest v =
     ASet {d. dest ! unat d = v} # (if v < n then [ARule (rule ! v)] else [])"

definition until_alts :: "nat \<Rightarrow> nat list \<Rightarrow> nat \<Rightarrow> nat list \<Rightarrow> nat \<Rightarrow> (nat \<times> asym list) set" where
  "until_alts n rule i dest k = {(rule ! i, until_alt n rule dest (dest ! c)) | c. c < k}"

lemma until_byte_step:
  assumes "until_byte n rule i dest c (b, dn) = (b', dn')" and "\<not> gfailed b'"
    and "gb_inv b" and "length dn = 256" and "c < 256"
    and dn: "\<And>d. d < 256 \<Longrightarrow> dn ! d \<longleftrightarrow> (\<exists>k < c. dest ! d = dest ! k)"
    and old: "until_alts n rule i dest c \<subseteq> set (aprods b)"
  shows "\<not> gfailed b \<and> gb_inv b' \<and> n_rules b' = n_rules b \<and> length dn' = 256 \<and>
    (\<forall>d < 256. dn' ! d \<longleftrightarrow> (\<exists>k < Suc c. dest ! d = dest ! k)) \<and>
    set (aprods b') = set (aprods b) \<union> until_alts n rule i dest (Suc c)"
proof (cases "dn ! c")
  case True
  then have *: "b' = b" "dn' = dn" using assms(1) by (auto simp: until_byte_def)
  obtain k where k: "k < c" "dest ! c = dest ! k" using dn [of c] True assms(5) by auto
  then have "until_alts n rule i dest (Suc c) = until_alts n rule i dest c"
    by (auto simp: until_alts_def less_Suc_eq)
  moreover have "dn ! d \<longleftrightarrow> (\<exists>k < Suc c. dest ! d = dest ! k)" if "d < 256" for d
    using dn [OF that] k by (auto simp: less_Suc_eq)
  ultimately show ?thesis using * assms by auto
next
  case False
  obtain s t where cl: "until_class dest c dn = (s, t)" by force
  obtain a b1 where alt: "gb_alt (rule ! i) b = (a, b1)" by force
  let ?v = "dest ! c"
  let ?b2 = "gb_set a s b1"
  have b': "b' = (if ?v < n then gb_ref a (rule ! ?v) ?b2 else ?b2)" and t: "dn' = t"
    using assms(1) False cl alt by (auto simp: until_byte_def Let_def)
  note cls = until_class_spec [OF cl assms(4,5)]
  have dn': "t ! d \<longleftrightarrow> (\<exists>k < Suc c. dest ! d = dest ! k)" if "d < 256" for d
    using cls(2) [OF that] dn [OF that] by (auto simp: less_Suc_eq) (metis linorder_not_le)
  have free: "\<not> (\<exists>k < c. dest ! c = dest ! k)" using dn [of c] False assms(5) by simp
  have s: "bset_of s = {d. dest ! unat d = ?v}"
  proof -
    have "c \<le> unat d \<and> \<not> dn ! unat d" if "dest ! unat d = ?v" for d :: u8
      using free that dn [of "unat d"] by (metis linorder_not_le unat_u8_less)
    then show ?thesis by (auto simp: cls(3))
  qed
  have ok2: "\<not> gfailed ?b2"
    using assms(2) push_effect(1) [of a _ ?b2] by (auto simp: b' gb_ref_def split: if_splits)
  then have ok1: "\<not> gfailed b1" by (rule gb_set_ok)
  have inv1: "gb_inv b1" using gb_alt_refines(5) [OF alt ok1] assms(3) by simp
  have set: "appended a [ASet {d. dest ! unat d = ?v}] b1 ?b2"
    using gb_set_appended [OF ok2 inv1] s by simp
  have "appended a (until_alt n rule dest ?v) b1 b'"
  proof (cases "?v < n")
    case True
    then have "appended a [ARule (rule ! ?v)] ?b2 b'"
      using assms(2) set b' gb_ref_appended [of a "rule ! ?v" ?b2] by (auto simp: appended_def)
    from appended_trans [OF set this] True show ?thesis by (simp add: until_alt_def)
  next
    case False
    then show ?thesis using set b' by (simp add: until_alt_def)
  qed
  note fin = alt_appended [OF alt this assms(3)]
  have "until_alts n rule i dest (Suc c) =
      insert (rule ! i, until_alt n rule dest ?v) (until_alts n rule i dest c)"
    by (auto simp: until_alts_def less_Suc_eq)
  then show ?thesis using fin cls(1) dn' t old by auto
qed

text \<open>
  The loops over bytes and states, once a request has failed, end failed; so what follows is
  stated for a builder that did not fail.
\<close>

lemma gfailed_until_byte:
  "gfailed b \<Longrightarrow> gfailed (fst (until_byte n rule i dest c (b, dn)))"
proof -
  assume f: "gfailed b"
  obtain s t where cl: "until_class dest c dn = (s, t)" by force
  obtain a b1 where alt: "gb_alt (rule ! i) b = (a, b1)" by force
  have 1: "gfailed b1" using gb_alt_refines(1) [OF alt] f by blast
  then have "gfailed (gb_set a s b1)" using gb_set_ok by blast
  moreover from this have "gfailed (gb_ref a r (gb_set a s b1))" for r
    using push_effect(1) [of a "GEL_RULE r"] by (auto simp: gb_ref_def)
  ultimately show ?thesis using f cl alt by (auto simp: until_byte_def Let_def)
qed

lemma until_state_step:
  assumes "\<not> gfailed (until_state e fs rule i b)" and "gb_inv b"
  shows "\<not> gfailed b" "gb_inv (until_state e fs rule i b)"
    "n_rules (until_state e fs rule i b) = n_rules b"
    "set (aprods (until_state e fs rule i b)) =
       set (aprods b) \<union> until_alts (length e) rule i (until_dest e fs i) 256"
proof -
  let ?n = "length e" and ?dest = "until_dest e fs i"
  let ?P = "\<lambda>c (b', dn). gfailed b' \<or> \<not> gfailed b \<and> gb_inv b' \<and> n_rules b' = n_rules b \<and>
      length dn = 256 \<and> (\<forall>d < 256. dn ! d \<longleftrightarrow> (\<exists>k < c. ?dest ! d = ?dest ! k)) \<and>
      set (aprods b') = set (aprods b) \<union> until_alts ?n rule i ?dest c"
  have "?P 256 (fold (until_byte ?n rule i ?dest) [0..<256] (b, replicate 256 False))"
  proof (rule fold_upt_invariant [where P = ?P and a = 0])
    show "?P 0 (b, replicate 256 False)" using assms(2) by (auto simp: until_alts_def)
    fix c st assume c: "0 \<le> c" "c < (256::nat)" and P: "?P c st"
    obtain b1 dn where st: "st = (b1, dn)" by force
    obtain b2 dn2 where step: "until_byte ?n rule i ?dest c (b1, dn) = (b2, dn2)" by force
    show "?P (Suc c) (until_byte ?n rule i ?dest c st)"
    proof (cases "gfailed b2")
      case True
      then show ?thesis by (simp add: st step)
    next
      case False
      then have nf: "\<not> gfailed b1"
        using gfailed_until_byte [of b1 ?n rule i ?dest c dn] step by auto
      have dn: "dn ! d \<longleftrightarrow> (\<exists>k < c. ?dest ! d = ?dest ! k)" if "d < 256" for d
        using P nf that by (simp add: st)
      have "until_alts ?n rule i ?dest c \<subseteq> set (aprods b1)" using P nf by (auto simp: st)
      note s = until_byte_step [OF step False _ _ c(2) dn this]
      have "until_alts ?n rule i ?dest c \<subseteq> until_alts ?n rule i ?dest (Suc c)"
        by (auto simp: until_alts_def)
      then show ?thesis using s P nf by (auto simp: st step)
    qed
  qed simp
  then show "\<not> gfailed b" "gb_inv (until_state e fs rule i b)"
    "n_rules (until_state e fs rule i b) = n_rules b"
    "set (aprods (until_state e fs rule i b)) =
       set (aprods b) \<union> until_alts (length e) rule i (until_dest e fs i) 256"
    using assms(1) by (auto simp: until_state_def split: prod.splits)
qed

section \<open>The language of the rule\<close>

lemma gb_rules_eq:
  "gb_rules n b = ([n_rules b..<n_rules b + n], b\<lparr>n_rules := n_rules b + n\<rparr>)"
proof -
  have "fold (\<lambda>_ (rs, b). case gb_rule b of (r, b') \<Rightarrow> (rs @ [r], b')) [0..<n] ([], b) =
      ([n_rules b..<n_rules b + n], b\<lparr>n_rules := n_rules b + n\<rparr>)"
    by (induction n) (auto simp: gb_rule_def)
  then show ?thesis by (simp add: gb_rules_def)
qed

lemma gfailed_until_state: "gfailed b \<Longrightarrow> gfailed (until_state e fs rule i b)"
proof -
  assume f: "gfailed b"
  have "gfailed (fst (fold (until_byte (length e) rule i (until_dest e fs i)) [0..<256]
      (b, replicate 256 False)))"
    by (rule fold_invariant_list [where P = "\<lambda>st. gfailed (fst st)"])
       (use f in \<open>auto intro: gfailed_until_byte\<close>)
  then show ?thesis by (simp add: until_state_def)
qed

lemma until_states:
  assumes "\<not> gfailed (fold (until_state e fs rule) [0..<n] b)" and "gb_inv b"
  shows "\<not> gfailed b \<and> gb_inv (fold (until_state e fs rule) [0..<n] b) \<and>
    n_rules (fold (until_state e fs rule) [0..<n] b) = n_rules b \<and>
    set (aprods (fold (until_state e fs rule) [0..<n] b)) =
      set (aprods b) \<union> (\<Union>i < n. until_alts (length e) rule i (until_dest e fs i) 256)"
  using assms
proof (induction n)
  case 0
  then show ?case by simp
next
  case (Suc n)
  let ?b = "fold (until_state e fs rule) [0..<n] b"
  have step: "fold (until_state e fs rule) [0..<Suc n] b = until_state e fs rule n ?b" by simp
  have ok: "\<not> gfailed ?b" using Suc.prems(1) gfailed_until_state unfolding step by blast
  note IH = Suc.IH [OF ok Suc.prems(2)]
  have "\<not> gfailed (until_state e fs rule n ?b)" using Suc.prems(1) unfolding step .
  from until_state_step [OF this] IH show ?case unfolding step by (auto simp: lessThan_Suc)
qed

definition rules_known :: "gbuild \<Rightarrow> bool" where
  "rules_known b \<longleftrightarrow> (\<forall>p \<in> set (aprods b). fst p < n_rules b)"

lemma gb_until_prods:
  assumes "gb_until e b = (r, b')" and "\<not> gfailed b'" and "gb_inv b" and "rules_known b"
    and "e \<noteq> []"
  defines "n \<equiv> length e" and "m \<equiv> n_rules b"
  shows "r = m \<and> \<not> gfailed b \<and> gb_inv b' \<and> n_rules b' = m + n \<and> rules_known b' \<and>
    gprods b' = gprods b \<union>
      {(m + i, until_alt n [m..<m + n] (until_dest e (kmp_fail e) i)
                 (until_dest e (kmp_fail e) i ! c)) | i c. i < n \<and> c < 256}"
proof -
  obtain ok1 b1 where 1: "gb_request b = (ok1, b1)" by force
  obtain ok2 b2 where 2: "gb_request b1 = (ok2, b2)" by force
  have b2: "\<exists>m'. b2 = b\<lparr>gmem := m'\<rparr>" using gb_requestD [OF 1] gb_requestD [OF 2] by auto
  let ?b3 = "b2\<lparr>n_rules := n_rules b2 + n\<rparr>"
  let ?rule = "[m..<m + n]"
  have m: "n_rules b2 = m" using b2 by (auto simp: m_def)
  have eq: "r = ?rule ! 0" "b' = fold (until_state e (kmp_fail e) ?rule) [0..<n] ?b3"
    using assms(1,2,5) 1 2 by (auto simp: gb_until_def gb_rules_eq n_def m split: if_splits)
  have b3: "gb_inv ?b3" "aprods ?b3 = aprods b" "gfailed ?b3 = gfailed b"
    using assms(3) b2 by (auto simp: gb_inv_def aprods_def)
  note st = until_states [OF assms(2) [unfolded eq(2)] b3(1), folded eq(2)]
  let ?new = "\<lambda>i c. (m + i, until_alt n ?rule (until_dest e (kmp_fail e) i)
      (until_dest e (kmp_fail e) i ! c))"
  have "(\<Union>i < n. until_alts n ?rule i (until_dest e (kmp_fail e) i) 256) =
      {?new i c | i c. i < n \<and> c < 256}"
    by (auto simp: until_alts_def)
  then have ap: "set (aprods b') = set (aprods b) \<union> {?new i c | i c. i < n \<and> c < 256}"
    using st b3 by (simp add: n_def)
  have n: "n_rules b' = m + n" using st m by simp
  have "rules_known b'" using ap n assms(4) by (auto simp: rules_known_def m_def)
  moreover have "gprods b' = gprods b \<union> {?new i c | i c. i < n \<and> c < 256}"
    using ap n assms(4) by (auto simp: gprods_def m_def rules_known_def)
  moreover have "r = m" using eq(1) assms(5) by (simp add: n_def)
  ultimately show ?thesis using st b3 n by auto
qed

definition first_end :: "bytes \<Rightarrow> bytes \<Rightarrow> bytes \<Rightarrow> bool" where
  "first_end e s x \<longleftrightarrow> suffix e (s @ x) \<and> (\<forall>k < length x. \<not> suffix e (s @ take k x))"

lemma first_end_Nil: "first_end e s [] \<longleftrightarrow> suffix e s"
  by (simp add: first_end_def)

lemma first_end_Cons:
  assumes "\<not> suffix e s"
  shows "first_end e s (c # x) \<longleftrightarrow>
    (if suffix e (s @ [c]) then x = [] else first_end e (s @ [c]) x)"
proof -
  have *: "(\<forall>k < length (c # x). \<not> suffix e (s @ take k (c # x))) \<longleftrightarrow>
      (\<forall>k < length x. \<not> suffix e ((s @ [c]) @ take k x))"
    using assms by (auto simp: less_Suc_eq_0_disj)
  show ?thesis
  proof (cases "suffix e (s @ [c])")
    case True
    show ?thesis
    proof (cases "x = []")
      case x: True
      show ?thesis unfolding first_end_def * using True x by (simp del: suffix_snoc)
    next
      case False
      then have "\<not> (\<forall>k < length x. \<not> suffix e ((s @ [c]) @ take k x))"
        using True by (auto intro!: exI [of _ 0] simp del: suffix_snoc)
      then show ?thesis unfolding first_end_def * using True False by (simp del: suffix_snoc)
    qed
  next
    case False
    then show ?thesis unfolding first_end_def * by (simp del: suffix_snoc)
  qed
qed

lemma suffix_iff_lb: "suffix e s \<longleftrightarrow> lb e s = length e"
  using lb_props(2) [where e = e and s = s] lb_props(3) [of "length e" e s]
    lb_props(1) [where e = e and s = s]
  by (auto simp: le_antisym)

lemma until_lang_step:
  assumes P: "\<And>i ys. i < n \<Longrightarrow> (m + i, ys) \<in> Q \<longleftrightarrow>
      (\<exists>c < 256. ys = until_alt n [m..<m + n] (dest i) (dest i ! c))"
    and i: "i < n"
  shows "w \<in> rule_lang Q (m + i) \<longleftrightarrow> (\<exists>c v. w = Byte c # v \<and>
    (if dest i ! unat c < n then v \<in> rule_lang Q (m + dest i ! unat c) else v = []))"
proof -
  have "w \<in> rule_lang Q (m + i) \<longleftrightarrow>
      (\<exists>c < 256. derives Q (until_alt n [m..<m + n] (dest i) (dest i ! c)) w)"
    using P [OF i] by (auto simp: rule_lang_def)
  also have "\<dots> \<longleftrightarrow> (\<exists>c < 256. \<exists>d v. dest i ! unat d = dest i ! c \<and> w = Byte d # v \<and>
      (if dest i ! c < n then v \<in> rule_lang Q (m + dest i ! c) else v = []))"
    by (auto simp: until_alt_def derives_Rule_single)
  also have "\<dots> \<longleftrightarrow> (\<exists>d v. w = Byte d # v \<and>
      (if dest i ! unat d < n then v \<in> rule_lang Q (m + dest i ! unat d) else v = []))"
    by (metis unat_u8_less)
  finally show ?thesis .
qed

lemma until_lang_state:
  assumes P: "\<And>i ys. i < length e \<Longrightarrow> (m + i, ys) \<in> Q \<longleftrightarrow> (\<exists>c < 256. ys =
      until_alt (length e) [m..<m + length e] (until_dest e (kmp_fail e) i)
        (until_dest e (kmp_fail e) i ! c))"
    and "e \<noteq> []" and "lb e s = i" and "i < length e"
  shows "w \<in> rule_lang Q (m + i) \<longleftrightarrow> (\<exists>x. w = map Byte x \<and> first_end e s x)"
  using assms(3,4)
proof (induction w arbitrary: s i)
  case Nil
  then have "\<not> suffix e s" by (simp add: suffix_iff_lb)
  then show ?case
    using until_lang_step [where Q = Q and m = m and n = "length e", OF P Nil.prems(2)]
    by (simp add: first_end_Nil)
next
  case (Cons y v)
  have ns: "\<not> suffix e s" using Cons.prems by (simp add: suffix_iff_lb)
  have d: "until_dest e (kmp_fail e) i ! unat c = lb e (s @ [c])" for c
    using Cons.prems assms(2) by (intro until_dest_lb) auto
  have step: "y # v \<in> rule_lang Q (m + i) \<longleftrightarrow> (\<exists>c. y = Byte c \<and>
      (if lb e (s @ [c]) < length e then v \<in> rule_lang Q (m + lb e (s @ [c])) else v = []))"
    using until_lang_step [where Q = Q and m = m and n = "length e", OF P Cons.prems(2)]
    by (auto simp: d)
  have "(if lb e (s @ [c]) < length e then v \<in> rule_lang Q (m + lb e (s @ [c])) else v = []) \<longleftrightarrow>
      (\<exists>x. v = map Byte x \<and> first_end e s (c # x))" for c
  proof (cases "lb e (s @ [c]) < length e")
    case True
    then show ?thesis
      using Cons.IH [OF refl True] ns by (auto simp: first_end_Cons suffix_iff_lb)
  next
    case False
    then have "suffix e (s @ [c])"
      using lb_props(1) [of e "s @ [c]"] by (simp add: suffix_iff_lb)
    with False ns show ?thesis by (auto simp: first_end_Cons)
  qed
  then show ?case unfolding step by (auto simp: Cons_eq_map_conv)
qed

lemma gb_empty_lang:
  assumes "gb_empty b = (r, b')" and "\<not> gfailed b'" and "gb_inv b" and "rules_known b"
  shows "rule_lang (gprods b') r = {[]}"
proof -
  obtain a where alt: "gb_alt (n_rules b) (b\<lparr>n_rules := Suc (n_rules b)\<rparr>) = (a, b')"
    and r: "r = n_rules b"
    using assms(1) by (cases "gb_alt (n_rules b) (b\<lparr>n_rules := Suc (n_rules b)\<rparr>)")
      (auto simp: gb_empty_def gb_rule_def)
  have ap: "aprods b' = aprods b @ [(r, [])]" "n_rules b' = Suc r"
    using gb_alt_refines [OF alt assms(2)] r by (auto simp: aprods_def)
  have "(r, ys) \<in> gprods b' \<longleftrightarrow> ys = []" for ys
    using ap assms(4) r by (auto simp: gprods_def rules_known_def)
  then show ?thesis by (auto simp: rule_lang_def)
qed

lemma gb_until_lang:
  assumes "gb_until e b = (r, b')" and "\<not> gfailed b'" and "gb_inv b" and "rules_known b"
  shows "rule_lang (gprods b') r =
    {map Byte x | x. suffix e x \<and> (\<forall>k < length x. \<not> suffix e (take k x))}"
proof (cases "e = []")
  case True
  then have "gb_empty b = (r, b')" using assms(1) by (simp add: gb_until_def)
  from gb_empty_lang [OF this assms(2-4)] True show ?thesis by auto
next
  case False
  note prods = gb_until_prods [OF assms False]
  have P: "(n_rules b + i, ys) \<in> gprods b' \<longleftrightarrow> (\<exists>c < 256. ys =
      until_alt (length e) [n_rules b..<n_rules b + length e] (until_dest e (kmp_fail e) i)
        (until_dest e (kmp_fail e) i ! c))" if "i < length e" for i ys
  proof -
    have eq: "gprods b' = gprods b \<union> {(n_rules b + i,
        until_alt (length e) [n_rules b..<n_rules b + length e] (until_dest e (kmp_fail e) i)
          (until_dest e (kmp_fail e) i ! c)) | i c. i < length e \<and> c < 256}"
      using prods by blast
    have "(n_rules b + i, ys) \<notin> gprods b" by (simp add: gprods_def)
    then show ?thesis unfolding eq using that by auto
  qed
  have "lb e [] = 0" using lb_props(2) [of e "[]"] False by auto
  with until_lang_state [OF P False this] False prods
  have "w \<in> rule_lang (gprods b') r \<longleftrightarrow> (\<exists>x. w = map Byte x \<and> first_end e [] x)" for w
    by auto
  then show ?thesis by (auto simp: first_end_def)
qed

end
