(* ===== verification/Gram_Grow.thy ===== *)
theory Gram_Grow
  imports Gram_Until
begin

text \<open>
  How a client of the builder adds rules to a grammar, for the clients that make many rules by
  recursion (\<open>Schema_Num\<close>). A builder is \<open>good X\<close> when its rules outside \<open>X\<close>, those whose
  alternatives are not all written yet, are finished: they refer to finished rules only, so what
  is added later cannot change their languages.
\<close>

section \<open>Finished rules and growth\<close>

definition settled :: "nat set \<Rightarrow> gbuild \<Rightarrow> bool" where
  "settled X b \<longleftrightarrow> closed_rules (gprods b) ({..<n_rules b} - X)"

definition good :: "nat set \<Rightarrow> gbuild \<Rightarrow> bool" where
  "good X b \<longleftrightarrow> gb_inv b \<and> rules_known b \<and> settled X b \<and> X \<subseteq> {..<n_rules b}"

definition done_rules :: "nat set \<Rightarrow> gbuild \<Rightarrow> nat set" where
  "done_rules X b = {..<n_rules b} - X"

text \<open>From \<open>b\<close> to \<open>b'\<close> only alternatives of new rules and of the rules \<open>I\<close> are added.\<close>

definition grows :: "nat set \<Rightarrow> gbuild \<Rightarrow> gbuild \<Rightarrow> bool" where
  "grows I b b' \<longleftrightarrow> \<not> gfailed b \<and> n_rules b \<le> n_rules b' \<and>
     (\<exists>ps. aprods b' = aprods b @ ps \<and> (\<forall>p \<in> set ps. n_rules b \<le> fst p \<or> fst p \<in> I))"

text \<open>An alternative \<open>a\<close> of rule \<open>r\<close> opened since \<open>b\<close>, with the symbols \<open>xs\<close> so far.\<close>

definition opened :: "nat \<Rightarrow> nat \<Rightarrow> asym list \<Rightarrow> nat set \<Rightarrow> gbuild \<Rightarrow> gbuild \<Rightarrow> bool" where
  "opened a r xs I b b' \<longleftrightarrow> \<not> gfailed b \<and> n_rules b \<le> n_rules b' \<and> a = length (aprods b) \<and>
     (\<exists>ps. aprods b' = aprods b @ (r, xs) # ps \<and> (\<forall>p \<in> set ps. n_rules b \<le> fst p \<or> fst p \<in> I))"

definition alts_of :: "gbuild \<Rightarrow> nat \<Rightarrow> asym list set" where
  "alts_of b r = {ys. (r, ys) \<in> gprods b}"

definition lang :: "gbuild \<Rightarrow> nat \<Rightarrow> gsym list set" where
  "lang b r = rule_lang (gprods b) r"

lemma grows_refl: "\<not> gfailed b \<Longrightarrow> grows I b b"
  by (simp add: grows_def)

lemma grows_mono: "grows I b b' \<Longrightarrow> I \<subseteq> J \<Longrightarrow> grows J b b'"
  by (auto simp: grows_def)

lemma grows_trans:
  assumes "grows I b b1" and "grows J b1 b2" and "\<And>j. j \<in> J \<Longrightarrow> j \<in> I \<or> n_rules b \<le> j"
  shows "grows I b b2"
proof -
  obtain ps where ps: "aprods b1 = aprods b @ ps" "\<forall>p \<in> set ps. n_rules b \<le> fst p \<or> fst p \<in> I"
    using assms(1) by (auto simp: grows_def)
  obtain qs where qs: "aprods b2 = aprods b1 @ qs" "\<forall>p \<in> set qs. n_rules b1 \<le> fst p \<or> fst p \<in> J"
    using assms(2) by (auto simp: grows_def)
  have le: "n_rules b \<le> n_rules b1" "n_rules b1 \<le> n_rules b2" "\<not> gfailed b"
    using assms(1,2) by (auto simp: grows_def)
  have "n_rules b \<le> fst p \<or> fst p \<in> I" if "p \<in> set (ps @ qs)" for p
    using that ps(2) qs(2) le assms(3) by fastforce
  then show ?thesis using ps qs le by (auto simp: grows_def)
qed

lemma opened_grows: "opened a r xs I b b' \<Longrightarrow> grows (insert r I) b b'"
  by (auto simp: opened_def grows_def)

lemma opened_then_grows:
  assumes "opened a r xs I b b1" and "grows J b1 b2" and "\<And>j. j \<in> J \<Longrightarrow> j \<in> I \<or> n_rules b \<le> j"
  shows "opened a r xs I b b2"
proof -
  obtain ps where ps: "aprods b1 = aprods b @ (r, xs) # ps" "\<forall>p \<in> set ps. n_rules b \<le> fst p \<or> fst p \<in> I"
    using assms(1) by (auto simp: opened_def)
  obtain qs where qs: "aprods b2 = aprods b1 @ qs" "\<forall>p \<in> set qs. n_rules b1 \<le> fst p \<or> fst p \<in> J"
    using assms(2) by (auto simp: grows_def)
  have le: "n_rules b \<le> n_rules b1" "n_rules b1 \<le> n_rules b2" "\<not> gfailed b" "a = length (aprods b)"
    using assms(1,2) by (auto simp: grows_def opened_def)
  have "n_rules b \<le> fst p \<or> fst p \<in> I" if "p \<in> set (ps @ qs)" for p
    using that ps(2) qs(2) le assms(3) by fastforce
  then show ?thesis using ps qs le by (auto simp: opened_def)
qed

lemma opened_appended:
  assumes "opened a r xs I b b1" and "appended a ys b1 b2"
  shows "opened a r (xs @ ys) I b b2"
proof -
  obtain ps where ps: "aprods b1 = aprods b @ (r, xs) # ps" "\<forall>p \<in> set ps. n_rules b \<le> fst p \<or> fst p \<in> I"
    and a: "a = length (aprods b)" "\<not> gfailed b" "n_rules b \<le> n_rules b1"
    using assms(1) by (auto simp: opened_def)
  have "aprods b1 ! a = (r, xs)" using ps(1) a(1) by (simp del: length_aprods)
  moreover have "(aprods b1)[a := x] = aprods b @ x # ps" for x
    using ps(1) a(1) by (simp add: list_update_append del: length_aprods)
  ultimately have "aprods b2 = aprods b @ (r, xs @ ys) # ps" "n_rules b2 = n_rules b1"
    using assms(2) by (auto simp: appended_def)
  then show ?thesis using ps(2) a by (auto simp: opened_def)
qed

section \<open>Steps keep a builder good\<close>

lemma gprods_eq: "rules_known b \<Longrightarrow> gprods b = set (aprods b)"
  by (auto simp: gprods_def rules_known_def)

lemma good_rule:
  assumes "gb_rule b = (q, b')" and "good X b" and "\<not> gfailed b'"
  shows "good (insert q X) b'" "grows I b b'" "q = n_rules b" "n_rules b' = Suc q" "q \<notin> X"
    "alts_of b' q = {}" "\<not> gfailed b"
proof -
  note r = gb_rule_refines [OF assms(1)]
  show q: "q = n_rules b" "n_rules b' = Suc q" using r by simp_all
  have known: "rules_known b" and inv: "gb_inv b" and X: "X \<subseteq> {..<n_rules b}"
    and settled: "settled X b" using assms(2) by (auto simp: good_def)
  have gp: "gprods b' = gprods b" using r known by (auto simp: gprods_def rules_known_def)
  show "good (insert q X) b'"
    using settled inv known X r gp
    by (fastforce simp: good_def settled_def closed_rules_def rules_known_def)
  show "grows I b b'" "\<not> gfailed b" using r assms(3) by (auto simp: grows_def)
  show "q \<notin> X" using X q by auto
  show "alts_of b' q = {}" using known q gp by (auto simp: alts_of_def gprods_def)
qed

lemma good_same_rules:
  assumes "good X b" and "gb_inv b'" and "n_rules b' = n_rules b" and "r \<in> X"
    and "\<And>p. p \<in> set (aprods b') \<Longrightarrow> p \<in> set (aprods b) \<or> fst p = r"
  shows "good X b'"
proof -
  have known: "rules_known b'"
    using assms unfolding good_def rules_known_def by fastforce
  have "(s, ys) \<in> gprods b" if "(s, ys) \<in> gprods b'" "s \<notin> X" for s ys
    using that assms(3,4) assms(5) [of "(s, ys)"] by (auto simp: gprods_def)
  then have "settled X b'"
    using assms(1,3) unfolding good_def settled_def closed_rules_def by fastforce
  with known assms show ?thesis by (auto simp: good_def)
qed

lemma good_alt:
  assumes "gb_alt r b = (a, b')" and "good X b" and "r \<in> X" and "\<not> gfailed b'"
  shows "good X b'" "opened a r [] I b b'" "n_rules b' = n_rules b"
proof -
  note alt = gb_alt_refines [OF assms(1,4)]
  have inv: "gb_inv b" using assms(2) by (simp add: good_def)
  show "n_rules b' = n_rules b" by (rule alt(4))
  show "opened a r [] I b b'" using alt by (auto simp: opened_def)
  show "good X b'"
    by (rule good_same_rules [OF assms(2) alt(5) [OF inv] alt(4) assms(3)]) (use alt(3) in auto)
qed

lemma good_appended:
  assumes "appended a ys b b'" and "good X b" and "opened a r xs I b0 b" and "r \<in> X"
  shows "good X b'"
proof (rule good_same_rules [OF assms(2) _ _ assms(4)])
  show "gb_inv b'" "n_rules b' = n_rules b" using assms(1) by (auto simp: appended_def)
  fix p assume "p \<in> set (aprods b')"
  then have "p \<in> set (aprods b) \<or> p = (fst (aprods b ! a), snd (aprods b ! a) @ ys)"
    using assms(1) set_update_subset_insert [of "aprods b" a] by (auto simp: appended_def)
  moreover have "aprods b ! a = (r, xs)"
    using assms(3) by (auto simp: opened_def simp del: length_aprods)
  ultimately show "p \<in> set (aprods b) \<or> fst p = r" by auto
qed

lemma good_set:
  assumes "\<not> gfailed (gb_set a s b)" and "good X b" and "opened a r xs I b0 b" and "r \<in> X"
  shows "good X (gb_set a s b)" "opened a r (xs @ [ASet (bset_of s)]) I b0 (gb_set a s b)"
    "\<not> gfailed b" "n_rules (gb_set a s b) = n_rules b"
proof -
  have inv: "gb_inv b" using assms(2) by (simp add: good_def)
  note ap = gb_set_appended [OF assms(1) inv]
  show "good X (gb_set a s b)" by (rule good_appended [OF ap assms(2-4)])
  show "opened a r (xs @ [ASet (bset_of s)]) I b0 (gb_set a s b)" by (rule opened_appended [OF assms(3) ap])
  show "\<not> gfailed b" "n_rules (gb_set a s b) = n_rules b" using ap by (auto simp: appended_def)
qed

lemma good_byte:
  assumes "\<not> gfailed (gb_byte a c b)" and "good X b" and "opened a r xs I b0 b" and "r \<in> X"
  shows "good X (gb_byte a c b)" "opened a r (xs @ [ASet {c}]) I b0 (gb_byte a c b)"
    "\<not> gfailed b" "n_rules (gb_byte a c b) = n_rules b"
proof -
  have inv: "gb_inv b" using assms(2) by (simp add: good_def)
  note ap = gb_byte_appended [OF assms(1) inv]
  show "good X (gb_byte a c b)" by (rule good_appended [OF ap assms(2-4)])
  show "opened a r (xs @ [ASet {c}]) I b0 (gb_byte a c b)" by (rule opened_appended [OF assms(3) ap])
  show "\<not> gfailed b" "n_rules (gb_byte a c b) = n_rules b" using ap by (auto simp: appended_def)
qed

lemma good_ref:
  assumes "\<not> gfailed (gb_ref a q b)" and "good X b" and "opened a r xs I b0 b" and "r \<in> X"
  shows "good X (gb_ref a q b)" "opened a r (xs @ [ARule q]) I b0 (gb_ref a q b)"
    "\<not> gfailed b" "n_rules (gb_ref a q b) = n_rules b"
proof -
  have inv: "gb_inv b" using assms(2) by (simp add: good_def)
  note ap = gb_ref_appended [OF assms(1) inv]
  show "good X (gb_ref a q b)" by (rule good_appended [OF ap assms(2-4)])
  show "opened a r (xs @ [ARule q]) I b0 (gb_ref a q b)" by (rule opened_appended [OF assms(3) ap])
  show "\<not> gfailed b" "n_rules (gb_ref a q b) = n_rules b" using ap by (auto simp: appended_def)
qed

section \<open>What growth leaves alone\<close>

lemma alts_grows:
  assumes "grows I b b'" and "good X b" and "good X' b'" and "r < n_rules b" and "r \<notin> I"
  shows "alts_of b' r = alts_of b r"
  using assms by (fastforce simp: alts_of_def gprods_eq good_def grows_def)

lemma alts_opened:
  assumes "opened a r xs I b b'" and "good X b" and "good X' b'" and "r < n_rules b" and "r \<notin> I"
  shows "alts_of b' r = insert xs (alts_of b r)"
  using assms by (fastforce simp: alts_of_def gprods_eq good_def opened_def)

lemma rule_lang_restrict:
  assumes "closed_rules P R" and "q \<in> R"
  shows "rule_lang P q = rule_lang {p \<in> P. fst p \<in> R} q"
proof (rule rule_lang_extend)
  show "closed_rules {p \<in> P. fst p \<in> R} R" using assms(1) by (auto simp: closed_rules_def)
qed (use assms(2) in auto)

lemma lang_same:
  assumes "good X b" and "r \<in> done_rules X b"
    and "\<And>s. s \<in> done_rules X b \<Longrightarrow> alts_of b' s = alts_of b s"
  shows "lang b' r = lang b r"
proof -
  let ?R = "done_rules X b"
  have cl: "closed_rules (gprods b) ?R" using assms(1) by (simp add: good_def settled_def done_rules_def)
  have eq: "{p \<in> gprods b'. fst p \<in> ?R} = {p \<in> gprods b. fst p \<in> ?R}"
  proof -
    have "(s, ys) \<in> gprods b' \<longleftrightarrow> (s, ys) \<in> gprods b" if "s \<in> ?R" for s ys
      using assms(3) [OF that] unfolding alts_of_def by blast
    then show ?thesis by auto
  qed
  then have "closed_rules (gprods b') ?R" using cl unfolding closed_rules_def by fastforce
  with cl assms(2) eq show ?thesis by (simp add: lang_def rule_lang_restrict)
qed

lemma lang_grows:
  assumes "grows I b b'" and "good X b" and "good X' b'" and "I \<subseteq> X" and "r \<in> done_rules X b"
  shows "lang b' r = lang b r"
  using assms(2,5)
proof (rule lang_same)
  fix s assume "s \<in> done_rules X b"
  then show "alts_of b' s = alts_of b s"
    using alts_grows [OF assms(1-3), of s] assms(4) by (auto simp: done_rules_def)
qed

text \<open>Symbols put at the end of an open alternative of \<open>r\<close> leave the other rules alone.\<close>

lemma appended_others:
  assumes "appended a ys b b'" and "good X b" and "opened a r xs I b0 b" and "r \<in> X"
  shows "s \<noteq> r \<Longrightarrow> alts_of b' s = alts_of b s" "done_rules X b' = done_rules X b"
    "s \<in> done_rules X b \<Longrightarrow> lang b' s = lang b s"
proof -
  obtain ps where ap: "aprods b = aprods b0 @ (r, xs) # ps" "a = length (aprods b0)"
    using assms(3) by (auto simp: opened_def)
  then have ap': "aprods b' = aprods b0 @ (r, xs @ ys) # ps" and n: "n_rules b' = n_rules b"
    using assms(1) by (simp_all add: appended_def list_update_append del: length_aprods)
  then show others: "alts_of b' s = alts_of b s" if "s \<noteq> r" for s
    unfolding alts_of_def gprods_def n ap' ap(1) using that by auto
  show "done_rules X b' = done_rules X b" using assms(1) by (simp add: done_rules_def appended_def)
  show "lang b' s = lang b s" if "s \<in> done_rules X b"
  proof (rule lang_same [OF assms(2) that])
    fix u assume "u \<in> done_rules X b"
    then have "u \<noteq> r" using assms(4) by (auto simp: done_rules_def)
    then show "alts_of b' u = alts_of b u" by (rule others)
  qed
qed

lemma done_grows: "grows I b b' \<Longrightarrow> r \<in> done_rules X b \<Longrightarrow> r \<in> done_rules X b'"
  by (auto simp: grows_def done_rules_def)

lemma ref_others:
  assumes "\<not> gfailed (gb_ref a q b)" and "good X b" and "opened a r xs I b0 b" and "r \<in> X"
  shows "done_rules X (gb_ref a q b) = done_rules X b"
    "s \<in> done_rules X b \<Longrightarrow> lang (gb_ref a q b) s = lang b s"
proof -
  have "gb_inv b" using assms(2) by (simp add: good_def)
  note ap = appended_others [OF gb_ref_appended [OF assms(1) this] assms(2-4)]
  show "done_rules X (gb_ref a q b) = done_rules X b" by (rule ap(2))
  show "s \<in> done_rules X b \<Longrightarrow> lang (gb_ref a q b) s = lang b s" by (rule ap(3))
qed

section \<open>Finishing a rule\<close>

lemma good_finish:
  assumes "good (insert q X) b" and "q \<notin> X" and "\<And>ys. ys \<in> alts_of b q \<Longrightarrow> refs ys \<subseteq> insert q (done_rules (insert q X) b)"
  shows "good X b" "q \<in> done_rules X b"
proof -
  have q: "q < n_rules b" using assms(1) by (auto simp: good_def)
  then show "q \<in> done_rules X b" using assms(2) by (simp add: done_rules_def)
  have "refs ys \<subseteq> {..<n_rules b} - X" if "(r, ys) \<in> gprods b" "r < n_rules b" "r \<notin> X" for r ys
  proof (cases "r = q")
    case True
    then have "refs ys \<subseteq> insert q (done_rules (insert q X) b)" using that assms(3) by (simp add: alts_of_def)
    then show ?thesis using q assms(2) by (auto simp: done_rules_def)
  next
    case False
    then show ?thesis using that assms(1) unfolding good_def settled_def closed_rules_def by fastforce
  qed
  then show "good X b" using assms(1) by (auto simp: good_def settled_def closed_rules_def)
qed

lemma lang_alts: "lang b q = {w. \<exists>ys \<in> alts_of b q. derives (gprods b) ys w}"
  by (auto simp: lang_def rule_lang_def alts_of_def)

lemma derives_set_rule:
  "derives (gprods b) [ASet S, ARule q] w \<longleftrightarrow> (\<exists>c v. w = Byte c # v \<and> c \<in> S \<and> v \<in> lang b q)"
  by (auto simp: derives_Rule_single lang_def)

lemma derives_rule: "derives (gprods b) [ARule q] w \<longleftrightarrow> w \<in> lang b q"
  by (simp add: derives_Rule_single lang_def)

section \<open>When every request is granted\<close>

definition roomy :: "gbuild \<Rightarrow> bool" where
  "roomy b \<longleftrightarrow> gmem b = [] \<and> \<not> gfailed b"

lemma gb_request_granted [alloc_simps]: "roomy b \<Longrightarrow> gb_request b = (True, b)"
  by (cases b) (simp add: gb_request_def roomy_def)

lemma gb_alt_granted:
  "roomy b \<Longrightarrow> gb_alt r b = (a, b') \<Longrightarrow>
     roomy b' \<and> a = length (alts b) \<and> length (alts b') = Suc (length (alts b))"
  by (auto simp: gb_alt_def Let_def alloc_simps roomy_def split: if_splits)

lemma push_granted:
  "roomy b \<Longrightarrow> a < length (alts b) \<Longrightarrow>
     roomy (push a e b) \<and> length (alts (push a e b)) = length (alts b)"
  by (auto simp: push_def Let_def alloc_simps roomy_def)

lemma gb_set_granted:
  "roomy b \<Longrightarrow> a < length (alts b) \<Longrightarrow>
     roomy (gb_set a s b) \<and> length (alts (gb_set a s b)) = length (alts b)"
  using push_granted [of "snd (add_set s b)" a "GEL_SET (fst (add_set s b))"]
  by (auto simp: gb_set_def add_set_def Let_def alloc_simps roomy_def)

lemma add_set_granted:
  "roomy b \<Longrightarrow> roomy (snd (add_set s b)) \<and> alts (snd (add_set s b)) = alts b"
  by (auto simp: add_set_def Let_def alloc_simps roomy_def)

lemma gb_byte_granted:
  "roomy b \<Longrightarrow> a < length (alts b) \<Longrightarrow>
     roomy (gb_byte a c b) \<and> length (alts (gb_byte a c b)) = length (alts b)"
proof -
  assume b: "roomy b" "a < length (alts b)"
  define k where "k = unat c"
  obtain s b1 where ad: "add_set (set_add set_clear k k) b = (s, b1)" by force
  have 1: "roomy b1" "alts b1 = alts b" using add_set_granted [OF b(1), of "set_add set_clear k k"] ad by auto
  let ?b2 = "b1\<lparr>byte_set := (byte_set b1)[k := s + 1]\<rparr>"
  have 2: "roomy ?b2" "length (alts ?b2) = length (alts b)" using 1 by (auto simp: roomy_def)
  have nf: "\<not> gfailed b1" using 1(1) by (simp add: roomy_def)
  show ?thesis
    using push_granted [OF b] push_granted [OF 2(1), of a] 2(2) b(2) ad nf
    by (simp add: gb_byte_def Let_def flip: k_def)
qed

lemma gb_ref_granted:
  "roomy b \<Longrightarrow> a < length (alts b) \<Longrightarrow>
     roomy (gb_ref a r b) \<and> length (alts (gb_ref a r b)) = length (alts b)"
  unfolding gb_ref_def by (rule push_granted)

section \<open>Failure stays\<close>

lemma fails_rule: "gfailed b \<Longrightarrow> gfailed (snd (gb_rule b))"
  by (simp add: gb_rule_def)

lemma fails_alt: "gfailed b \<Longrightarrow> gfailed (snd (gb_alt r b))"
  using gb_alt_refines(1) [of r b "fst (gb_alt r b)" "snd (gb_alt r b)"] by auto

lemma fails_push: "gfailed b \<Longrightarrow> gfailed (push a e b)"
  using push_effect(1) by blast

lemma fails_set: "gfailed b \<Longrightarrow> gfailed (gb_set a s b)"
  using gb_set_ok by blast

lemma fails_ref: "gfailed b \<Longrightarrow> gfailed (gb_ref a q b)"
  by (simp add: gb_ref_def fails_push)

lemmas fails = fails_rule fails_alt fails_set fails_ref gfailed_gb_byte

end
