(* ===== verification/Gram_Compile.thy ===== *)
theory Gram_Compile
  imports Gram_Build
begin

text \<open>
  \<open>janas_grammar_make\<close> lays the builder's alternatives out as the matcher reads them. Shown
  here: the layout holds exactly the builder's productions, and every position the matcher can
  be sent to is inside it (\<open>grammar_wf\<close>).
\<close>

section \<open>Reading the layout\<close>

text \<open>The elements from position \<open>p\<close> to the end of its alternative.\<close>

definition rest_els :: "gel list \<Rightarrow> nat \<Rightarrow> gel list" where
  "rest_els e p = takeWhile (\<lambda>x. x \<noteq> GEL_END) (drop p e)"

definition rest :: "grammar \<Rightarrow> nat \<Rightarrow> asym list" where
  "rest g p = map (resolve (gr_sets g)) (rest_els (el g) p)"

definition alt_at :: "grammar \<Rightarrow> nat \<Rightarrow> nat \<Rightarrow> nat" where
  "alt_at g r i = alt_pos g ! (rule_first g ! r + i)"

definition cprods :: "grammar \<Rightarrow> prods" where
  "cprods g = {(r, rest g (alt_at g r i)) | r i. r < gr_rules g \<and> i < rule_n g ! r}"

text \<open>An alternative's end can be found from \<open>p\<close>.\<close>

definition pos_ok :: "gel list \<Rightarrow> nat \<Rightarrow> bool" where
  "pos_ok e p \<longleftrightarrow> p < length e \<and> GEL_END \<in> set (drop p e)"

definition grammar_wf :: "grammar \<Rightarrow> bool" where
  "grammar_wf g \<longleftrightarrow>
     (\<forall>r < gr_rules g. \<forall>i < rule_n g ! r. pos_ok (el g) (alt_at g r i)) \<and>
     (\<forall>s. GEL_SET s \<in> set (el g) \<longrightarrow> s < length (gr_sets g))"

lemma rest_els_append: "pos_ok e p \<Longrightarrow> rest_els (e @ xs) p = rest_els e p"
  by (auto simp: pos_ok_def rest_els_def takeWhile_append)

lemma pos_ok_append: "pos_ok e p \<Longrightarrow> pos_ok (e @ xs) p"
  by (auto simp: pos_ok_def)

lemma rest_els_at_end:
  "GEL_END \<notin> set xs \<Longrightarrow> rest_els (e @ xs @ [GEL_END]) (length e) = xs"
  by (simp add: rest_els_def takeWhile_eq_all_conv [THEN iffD2] takeWhile_append)

lemma rest_els_END: "p < length e \<Longrightarrow> e ! p = GEL_END \<Longrightarrow> rest_els e p = []"
  by (simp add: rest_els_def drop_nth_Cons)

lemma rest_els_step:
  "p < length e \<Longrightarrow> e ! p \<noteq> GEL_END \<Longrightarrow> rest_els e p = e ! p # rest_els e (Suc p)"
  by (simp add: rest_els_def drop_nth_Cons)

lemma pos_ok_Suc: "pos_ok e p \<Longrightarrow> e ! p \<noteq> GEL_END \<Longrightarrow> pos_ok e (Suc p)"
  by (cases "Suc p < length e") (auto simp: pos_ok_def drop_nth_Cons)

section \<open>Counting and slots\<close>

definition cnt :: "nat \<Rightarrow> balt list \<Rightarrow> nat" where
  "cnt r xs = length (filter (\<lambda>x. bt_rule x = r) xs)"

lemma cnt_simps [simp]:
  "cnt r [] = 0" "cnt r (x # xs) = (if bt_rule x = r then Suc (cnt r xs) else cnt r xs)"
  by (simp_all add: cnt_def)

lemma count_alts_nth:
  "n \<le> length rn \<Longrightarrow> length (count_alts n xs rn) = length rn \<and>
     (\<forall>r < n. count_alts n xs rn ! r = rn ! r + cnt r xs)"
  by (induction n xs rn rule: count_alts.induct) (auto simp: nth_list_update)

lemma first_alts_nth:
  "length (first_alts cs a) = length cs \<and>
   (\<forall>r < length cs. first_alts cs a ! r = a + sum_list (take r cs))"
proof (induction cs arbitrary: a)
  case (Cons c cs)
  then show ?case by (auto simp: nth_Cons take_Cons' split: nat.splits)
qed simp

lemma sum_take_mono: "r \<le> r' \<Longrightarrow> sum_list (take r cs) \<le> sum_list (take r' (cs :: nat list))"
proof -
  assume "r \<le> r'"
  then have "take r' cs = take r cs @ take (r' - r) (drop r cs)"
    by (metis le_add_diff_inverse take_add)
  then show ?thesis by simp
qed

lemma sum_take_Suc:
  "r < length cs \<Longrightarrow> sum_list (take (Suc r) cs) = sum_list (take r cs) + (cs ! r :: nat)"
  by (simp add: take_Suc_conv_app_nth)

lemma slot_less:
  assumes "r < length cs" and "i < (cs ! r :: nat)" and "r < r'"
  shows "sum_list (take r cs) + i < sum_list (take r' cs)"
  using sum_take_mono [of "Suc r" r' cs] sum_take_Suc [OF assms(1)] assms by simp

lemma slot_inj:
  assumes "r < length cs" "r' < length cs" "i < cs ! r" "i' < (cs ! r' :: nat)"
    and "sum_list (take r cs) + i = sum_list (take r' cs) + i'"
  shows "r = r' \<and> i = i'"
proof (cases r r' rule: linorder_cases)
  case less
  then show ?thesis using slot_less [of r cs i r'] assms by simp
next
  case equal
  then show ?thesis using assms by simp
next
  case greater
  then show ?thesis using slot_less [of r' cs i' r] assms by simp
qed

lemma sum_cnt_le: "sum_list (map (\<lambda>r. cnt r xs) [0..<n]) \<le> length xs"
proof (induction xs)
  case (Cons x xs)
  have "sum_list (map (\<lambda>r. cnt r (x # xs)) [0..<n]) =
      sum_list (map (\<lambda>r. cnt r xs) [0..<n]) + (if bt_rule x < n then 1 else 0)"
    by (induction n) auto
  with Cons show ?case by simp
qed (simp add: sum_list_eq_0_iff)

section \<open>Filling the table\<close>

text \<open>
  What the filling loop keeps, \<open>D\<close> the alternatives already placed and \<open>cs\<close> how many each
  rule has in all.
\<close>

definition fill_inv :: "nat \<Rightarrow> nat list \<Rightarrow> nat list \<Rightarrow> balt list \<Rightarrow> nat list \<Rightarrow> nat list
    \<Rightarrow> gel list \<Rightarrow> bool" where
  "fill_inv n cs rf D ap rn e \<longleftrightarrow>
     (\<forall>r < n. \<forall>i < rn ! r. pos_ok e (ap ! (rf ! r + i))) \<and>
     {(r, rest_els e (ap ! (rf ! r + i))) | r i. r < n \<and> i < rn ! r} =
       {(bt_rule x, bt_el x) | x. x \<in> set D \<and> bt_rule x < n} \<and>
     set e \<subseteq> insert GEL_END (\<Union>x \<in> set D. set (bt_el x))"

lemma fill_inv_step:
  assumes inv: "fill_inv n cs rf D ap rn e"
    and r: "r = bt_rule x" "r < n" "n \<le> length cs" "n \<le> length rn"
    and rf: "\<And>r. r < n \<Longrightarrow> rf ! r = sum_list (take r cs)"
    and lt: "\<And>r. r < n \<Longrightarrow> rn ! r \<le> cs ! r" "rn ! r < cs ! r"
    and ap: "sum_list (take n cs) \<le> length ap"
    and el: "GEL_END \<notin> set (bt_el x)"
  shows "fill_inv n cs rf (D @ [x]) (ap[rf ! r + rn ! r := length e]) (rn[r := rn ! r + 1])
           (e @ bt_el x @ [GEL_END])"
proof -
  let ?ap = "ap[rf ! r + rn ! r := length e]" and ?rn = "rn[r := rn ! r + 1]"
    and ?e = "e @ bt_el x @ [GEL_END]"
  have in_ap: "rf ! r + rn ! r < length ap"
    using slot_less [of r cs "rn ! r" n] r lt(2) rf ap by simp
  have old: "?ap ! (rf ! q + i) = ap ! (rf ! q + i)" if "q < n" "i < rn ! q" for q i
  proof -
    have "rf ! r + rn ! r \<noteq> rf ! q + i"
      using slot_inj [of r cs q "rn ! r" i] that r lt lt(1) [OF that(1)] rf by auto
    then show ?thesis by simp
  qed
  have new: "?ap ! (rf ! r + rn ! r) = length e" using in_ap by simp
  have idx: "(q < n \<and> i < ?rn ! q) \<longleftrightarrow> (q < n \<and> i < rn ! q) \<or> (q = r \<and> i = rn ! r)" for q i
    using r by (auto simp: nth_list_update less_Suc_eq)
  have pos: "pos_ok ?e (length e)" by (simp add: pos_ok_def)
  have oldpos: "pos_ok e (ap ! (rf ! q + i))" if "q < n" "i < rn ! q" for q i
    using inv that by (simp add: fill_inv_def)
  have 1: "pos_ok ?e (?ap ! (rf ! q + i))" if "q < n" "i < ?rn ! q" for q i
    using idx [of q i] that old oldpos new pos by (auto intro: pos_ok_append)
  have 2: "rest_els ?e (?ap ! (rf ! q + i)) = rest_els e (ap ! (rf ! q + i))"
    if "q < n" "i < rn ! q" for q i
    using that old oldpos by (simp add: rest_els_append)
  have 3: "rest_els ?e (?ap ! (rf ! r + rn ! r)) = bt_el x"
    using new el by (simp add: rest_els_at_end)
  have "{(q, rest_els ?e (?ap ! (rf ! q + i))) | q i. q < n \<and> i < ?rn ! q} =
      insert (r, bt_el x) {(q, rest_els e (ap ! (rf ! q + i))) | q i. q < n \<and> i < rn ! q}"
    (is "?L = ?R")
  proof
    show "?L \<subseteq> ?R" using idx 2 3 by auto
    show "?R \<subseteq> ?L"
    proof
      fix p assume "p \<in> ?R"
      then consider "p = (r, bt_el x)"
        | q i where "p = (q, rest_els e (ap ! (rf ! q + i)))" "q < n" "i < rn ! q" by auto
      then show "p \<in> ?L"
      proof cases
        case 1
        then show ?thesis using idx [of r "rn ! r"] 3 by force
      next
        case (2 q i)
        then have "p = (q, rest_els ?e (?ap ! (rf ! q + i)))" "q < n \<and> i < ?rn ! q"
          using \<open>\<And>q i. q < n \<Longrightarrow> i < rn ! q \<Longrightarrow> rest_els ?e (?ap ! (rf ! q + i)) = _\<close> idx by auto
        then show ?thesis by blast
      qed
    qed
  qed
  also have "\<dots> = {(bt_rule y, bt_el y) | y. y \<in> set (D @ [x]) \<and> bt_rule y < n}"
    using inv r by (auto simp: fill_inv_def)
  finally show ?thesis using 1 inv by (auto simp: fill_inv_def)
qed

lemma fill_alts_inv:
  assumes "fill_alts n rf xs ap rn e = (ap', rn', e')" and "fill_inv n cs rf D ap rn e"
    and "n \<le> length cs" "n \<le> length rn"
    and "\<And>r. r < n \<Longrightarrow> rf ! r = sum_list (take r cs)"
    and "\<And>r. r < n \<Longrightarrow> rn ! r + cnt r xs = cs ! r"
    and "sum_list (take n cs) \<le> length ap"
    and "\<And>x. x \<in> set xs \<Longrightarrow> GEL_END \<notin> set (bt_el x)"
  shows "fill_inv n cs rf (D @ xs) ap' rn' e'"
  using assms
proof (induction n rf xs ap rn e arbitrary: D rule: fill_alts.induct)
  case (1 n rf ap rn e)
  then show ?case by simp
next
  case (2 n rf x xs ap rn e)
  show ?case
  proof (cases "bt_rule x \<ge> n")
    case True
    then have "fill_inv n cs rf (D @ [x]) ap rn e"
      using 2(4) by (auto simp: fill_inv_def)
    then have "fill_inv n cs rf ((D @ [x]) @ xs) ap' rn' e'"
      using 2(3,5-10) True by (intro "2.IH"(1) [OF refl]) auto
    then show ?thesis by simp
  next
    case False
    let ?r = "bt_rule x"
    have lt: "rn ! r \<le> cs ! r" if "r < n" for r using 2(8) [OF that] by simp
    have lt_r: "rn ! ?r < cs ! ?r" using 2(8) [of ?r] False by simp
    have step: "fill_inv n cs rf (D @ [x]) (ap[rf ! ?r + rn ! ?r := length e])
        (rn[?r := rn ! ?r + 1]) (e @ bt_el x @ [GEL_END])"
      using 2(4-10) False lt lt_r by (intro fill_inv_step) auto
    have cnts: "(rn[?r := rn ! ?r + 1]) ! r + cnt r xs = cs ! r" if "r < n" for r
      using 2(8) [OF that] 2(6) False by (auto simp: nth_list_update)
    have "fill_inv n cs rf ((D @ [x]) @ xs) ap' rn' e'"
      using 2(3,5-10) False step cnts
      by (intro "2.IH"(2) [OF refl]) (auto simp: Let_def)
    then show ?thesis by simp
  qed
qed

lemma grammar_make_fill:
  assumes "grammar_make b m = Some g" and "gb_inv b"
  shows "\<exists>cs. fill_inv (n_rules b) cs (rule_first g) (alts b) (alt_pos g) (rule_n g) (el g) \<and>
     gr_rules g = n_rules b \<and> gr_sets g = sets b"
proof -
  let ?n = "n_rules b"
  define nr where "nr = (if ?n \<noteq> 0 then ?n else 1)"
  define cs where "cs = count_alts ?n (alts b) (replicate nr 0)"
  define rf where "rf = first_alts (take ?n cs) 0 @ drop ?n (replicate nr 0)"
  define z where "z = replicate ?n 0 @ drop ?n cs"
  obtain ap rn e where fill: "fill_alts ?n rf (alts b) (replicate (length (alts b) + 1) 0) z []
      = (ap, rn, e)" by (metis prod_cases3)
  have g: "g = \<lparr>el = e, alt_pos = ap, rule_first = rf, rule_n = rn, gr_rules = ?n, gr_sets = sets b\<rparr>"
    using assms(1) fill
    by (auto simp: grammar_make_def Let_def nr_def cs_def rf_def z_def split: if_splits prod.splits)
  have nr: "?n \<le> nr" by (simp add: nr_def)
  have cs: "length cs = nr" "\<And>r. r < ?n \<Longrightarrow> cs ! r = cnt r (alts b)"
    using count_alts_nth [of ?n "replicate nr 0" "alts b"] nr by (auto simp: cs_def)
  have rf: "rf ! r = sum_list (take r cs)" if "r < ?n" for r
    using first_alts_nth [of "take ?n cs" 0] that cs(1) nr by (simp add: rf_def nth_append min_def)
  have z: "length z = nr" "\<And>r. r < ?n \<Longrightarrow> z ! r = 0"
    using cs(1) nr by (auto simp: z_def nth_append)
  have "take ?n cs = map (\<lambda>r. cnt r (alts b)) [0..<?n]"
    using cs nr by (intro nth_equalityI) auto
  then have room: "sum_list (take ?n cs) \<le> length (replicate (length (alts b) + 1) (0::nat))"
    using sum_cnt_le [of "alts b" ?n] by simp
  have "fill_inv ?n cs rf ([] @ alts b) ap rn e"
  proof (rule fill_alts_inv [OF fill])
    show "fill_inv ?n cs rf [] (replicate (length (alts b) + 1) 0) z []"
      using z by (auto simp: fill_inv_def)
    show "?n \<le> length cs" "?n \<le> length z" using cs z nr by auto
    show "rf ! r = sum_list (take r cs)" if "r < ?n" for r using that by (rule rf)
    show "z ! r + cnt r (alts b) = cs ! r" if "r < ?n" for r using that z cs by simp
    show "GEL_END \<notin> set (bt_el x)" if "x \<in> set (alts b)" for x
      using assms(2) that by (auto simp: gb_inv_def el_ok_def)
  qed (rule room)
  with g show ?thesis by auto
qed

lemma grammar_make_wf: "grammar_make b m = Some g \<Longrightarrow> gb_inv b \<Longrightarrow> grammar_wf g"
proof -
  assume g: "grammar_make b m = Some g" and inv: "gb_inv b"
  obtain cs where f: "fill_inv (n_rules b) cs (rule_first g) (alts b) (alt_pos g) (rule_n g) (el g)"
    "gr_rules g = n_rules b" "gr_sets g = sets b"
    using grammar_make_fill [OF g inv] by blast
  have "s < length (sets b)" if "GEL_SET s \<in> set (el g)" for s
  proof -
    have "GEL_SET s \<in> (\<Union>x \<in> set (alts b). set (bt_el x))"
      using that f(1) by (auto simp: fill_inv_def)
    then show ?thesis using inv by (auto simp: gb_inv_def el_ok_def)
  qed
  with f show ?thesis by (auto simp: grammar_wf_def fill_inv_def alt_at_def)
qed

lemma image_pairs:
  "(\<lambda>(r, x). (r, f x)) ` {(r, h r i) | r i. P r i} = {(r, f (h r i)) | r i. P r i}"
  by force

lemma grammar_make_cprods:
  assumes "grammar_make b m = Some g" and "gb_inv b"
  shows "cprods g = gprods b"
proof -
  obtain cs where f: "fill_inv (n_rules b) cs (rule_first g) (alts b) (alt_pos g) (rule_n g) (el g)"
    "gr_rules g = n_rules b" "gr_sets g = sets b"
    using grammar_make_fill [OF assms] by blast
  let ?res = "\<lambda>(r, els). (r, map (resolve (sets b)) els)"
  have "cprods g = ?res ` {(r, rest_els (el g) (alt_pos g ! (rule_first g ! r + i))) | r i.
      r < n_rules b \<and> i < rule_n g ! r}"
    unfolding image_pairs by (simp add: cprods_def rest_def alt_at_def f(2,3))
  also have "\<dots> = ?res ` {(bt_rule x, bt_el x) | x. x \<in> set (alts b) \<and> bt_rule x < n_rules b}"
    using f(1) by (simp add: fill_inv_def)
  also have "\<dots> = gprods b"
    by (force simp: gprods_def aprods_def)
  finally show ?thesis .
qed

end
