(* ===== verification/Gram_Match.thy ===== *)
theory Gram_Match
  imports Gram_Compile
begin

text \<open>
  \<open>src/llm/gmatch.c\<close>: matching a grammar, a byte or a special token at a time. The nodes of the
  stacks, their chunks, the hash table that finds an equal node, marking and undoing are kept as
  the source has them. A \<open>struct gnode *\<close> is a \<open>gnode\<close> value with the identity \<open>gid\<close> (how many
  nodes were made before it): a node is never written after it is made, so the chain of parents
  behind a pointer, and the chain of a bucket behind \<open>hnext\<close>, are immutable values; pointers are
  compared by identity. The allocator's answers are an input, \<open>Some a\<close> a block at address \<open>a\<close>,
  \<open>None\<close> (or the end of the list) a refusal; addresses only choose buckets.
\<close>

section \<open>State\<close>

datatype gnode = GNode (gid: nat) (gaddr: u64) (gpos: nat) (gh: u32)
  (gpar: "gnode option") (ghnext: "gnode list")

text \<open>A way the input can go on: a node on top of its stack, or the root rule matched whole.\<close>

datatype way = ACCEPT | Way gnode

lemma size_gpar: "gpar x = Some y \<Longrightarrow> size y < size x"
  by (cases x) simp

record gmatch =
  gm_g :: grammar
  gm_root :: nat
  bucket :: "nat \<Rightarrow> gnode list"
  chunks :: "(u64 \<times> nat) list"
  made :: "gnode list"
  n_nodes :: nat
  cur :: "way list"
  gm_failed :: bool
  gm_mem :: "u64 option list"

definition MAX_SET :: nat where "MAX_SET = 1024"
definition MAX_NODES :: nat where "MAX_NODES = 4194304"
definition MAX_DEPTH :: nat where "MAX_DEPTH = 512"
definition CHUNK :: nat where "CHUNK = 4096"
definition BUCKETS :: nat where "BUCKETS = 65536"

fun gm_malloc :: "u64 option list \<Rightarrow> u64 option \<times> u64 option list" where
  "gm_malloc [] = (None, [])"
| "gm_malloc (a # m) = (a, m)"

definition ptr :: "gnode option \<Rightarrow> u64" where
  "ptr p = (case p of None \<Rightarrow> 0 | Some x \<Rightarrow> gaddr x)"

definition node_hash :: "nat \<Rightarrow> gnode option \<Rightarrow> u32" where
  "node_hash pos parent =
     ucast (drop_bit 32 ((of_nat pos * 0x9e3779b97f4a7c15) XOR
                         (ptr parent * 0xbf58476d1ce4e5b9) :: u64))"

definition slot :: "u32 \<Rightarrow> nat" where
  "slot h = unat (h AND of_nat (BUCKETS - 1))"

definition same_node :: "gnode option \<Rightarrow> gnode option \<Rightarrow> bool" where
  "same_node p q \<longleftrightarrow> map_option gid p = map_option gid q"

section \<open>Making and unmaking nodes\<close>

definition new_node :: "u32 \<Rightarrow> nat \<Rightarrow> gnode option \<Rightarrow> gmatch \<Rightarrow> gnode option \<times> gmatch" where
  "new_node h pos parent m =
     (case chunks m of
        [] \<Rightarrow> (None, m)
      | (base, used) # cs \<Rightarrow>
          let n = GNode (length (made m)) (base + of_nat (24 * used)) pos h parent
                    (bucket m (slot h))
          in (Some n, m\<lparr>chunks := (base, Suc used) # cs, made := n # made m,
                       bucket := (bucket m)(slot h := n # bucket m (slot h)),
                       n_nodes := Suc (n_nodes m)\<rparr>))"

definition mk :: "nat \<Rightarrow> gnode option \<Rightarrow> gmatch \<Rightarrow> gnode option \<times> gmatch" where
  "mk pos parent m =
     (let h = node_hash pos parent in
      case find (\<lambda>n. gpos n = pos \<and> same_node (gpar n) parent) (bucket m (slot h)) of
        Some n \<Rightarrow> (Some n, m)
      | None \<Rightarrow>
          if n_nodes m \<ge> MAX_NODES then (None, m\<lparr>gm_failed := True\<rparr>)
          else if chunks m = [] \<or> snd (hd (chunks m)) = CHUNK then
            (case gm_malloc (gm_mem m) of (a, mem) \<Rightarrow>
               (case a of
                  None \<Rightarrow> (None, m\<lparr>gm_mem := mem, gm_failed := True\<rparr>)
                | Some base \<Rightarrow> new_node h pos parent
                                (m\<lparr>gm_mem := mem, chunks := (base, 0) # chunks m\<rparr>)))
          else new_node h pos parent m)"

text \<open>A mark: the chunk on top (its place in the chain, 0 for none) and how much of it is used.\<close>

type_synonym mark = "nat \<times> nat"

definition mark :: "gmatch \<Rightarrow> mark" where
  "mark m = (length (chunks m), (case chunks m of [] \<Rightarrow> 0 | (_, used) # _ \<Rightarrow> used))"

function undo :: "mark \<Rightarrow> gmatch \<Rightarrow> gmatch" where
  "undo k m =
     (case chunks m of
        [] \<Rightarrow> m
      | (base, used) # cs \<Rightarrow>
          if length (chunks m) \<noteq> fst k \<or> used > snd k then
            if used = 0 then undo k (m\<lparr>chunks := cs\<rparr>)
            else
              let n = hd (made m) in
              undo k (m\<lparr>chunks := (base, used - 1) # cs, made := tl (made m),
                       bucket := (bucket m)(slot (gh n) := ghnext n),
                       n_nodes := n_nodes m - 1\<rparr>)
          else m)"
  by pat_completeness auto
termination
  by (relation "measure (\<lambda>(k, m). sum_list (map snd (chunks m)) + length (chunks m))") auto

declare undo.simps [simp del]

section \<open>Ways\<close>

fun same_way :: "way \<Rightarrow> way \<Rightarrow> bool" where
  "same_way ACCEPT ACCEPT = True"
| "same_way (Way x) (Way y) = (gid x = gid y)"
| "same_way _ _ = False"

definition add_way :: "way \<Rightarrow> gmatch \<times> way list \<Rightarrow> gmatch \<times> way list" where
  "add_way x st =
     (case st of (m, ws) \<Rightarrow>
        if list_ex (same_way x) ws then (m, ws)
        else if length ws = MAX_SET then (m\<lparr>gm_failed := True\<rparr>, ws)
        else (m, ws @ [x]))"

text \<open>
  \<open>closure left x\<close>: \<open>left\<close> counts the depth down, \<open>left = MAX_DEPTH + 1 - depth\<close>, so the
  test \<open>depth > MAX_DEPTH\<close> is \<open>left = 0\<close>. The loop over the ends of rules follows the chain of
  parents.
\<close>

function closure :: "nat \<Rightarrow> gnode \<Rightarrow> gmatch \<times> way list \<Rightarrow> gmatch \<times> way list"
  and closure_alts :: "nat \<Rightarrow> nat list \<Rightarrow> gnode option \<Rightarrow> gmatch \<times> way list
    \<Rightarrow> gmatch \<times> way list" where
  "closure 0 x (m, ws) = (m\<lparr>gm_failed := True\<rparr>, ws)"
| "closure (Suc left) x (m, ws) =
     (let g = gm_g m in
      case el g ! gpos x of
        GEL_END \<Rightarrow> (case gpar x of
                      None \<Rightarrow> add_way ACCEPT (m, ws)
                    | Some y \<Rightarrow> closure (Suc left) y (m, ws))
      | GEL_RULE r \<Rightarrow>
          if el g ! (gpos x + 1) \<noteq> GEL_END then
            (case mk (gpos x + 1) (gpar x) m of (c, m') \<Rightarrow>
               (case c of
                  None \<Rightarrow> (m', ws)
                | Some cont \<Rightarrow>
                    if r \<ge> gr_rules g then (m', ws)
                    else closure_alts left (map (alt_at g r) [0..<rule_n g ! r]) (Some cont) (m', ws)))
          else if r \<ge> gr_rules g then (m, ws)
          else closure_alts left (map (alt_at g r) [0..<rule_n g ! r]) (gpar x) (m, ws)
      | _ \<Rightarrow> add_way (Way x) (m, ws))"
| "closure_alts left [] cont st = st"
| "closure_alts left (p # ps) cont (m, ws) =
     (case mk p cont m of (y, m') \<Rightarrow>
        (case y of
           None \<Rightarrow> (m', ws)
         | Some y \<Rightarrow> closure_alts left ps cont (closure left y (m', ws))))"
  by pat_completeness auto
termination
  by (relation "measures
        [\<lambda>x. case x of Inl (left, y, st) \<Rightarrow> 2 * left | Inr (left, ps, c, st) \<Rightarrow> 2 * left + 1,
         \<lambda>x. case x of Inl (left, y, st) \<Rightarrow> size y | Inr (left, ps, c, st) \<Rightarrow> length ps]")
     (auto dest: size_gpar)

declare closure.simps(2) [simp del]

section \<open>Steps, tries, feeds\<close>

definition reads_el :: "grammar \<Rightarrow> nat \<Rightarrow> u8 \<Rightarrow> int \<Rightarrow> bool" where
  "reads_el g p c token =
     (case el g ! p of
        GEL_TOKEN t \<Rightarrow> token \<ge> 0 \<and> t = token
      | GEL_SET s \<Rightarrow> \<not> token \<ge> 0 \<and> gset_has (gr_sets g ! s) c
      | _ \<Rightarrow> False)"

definition step_way :: "u8 \<Rightarrow> int \<Rightarrow> way \<Rightarrow> gmatch \<times> way list \<Rightarrow> gmatch \<times> way list" where
  "step_way c token x st =
     (case x of
        ACCEPT \<Rightarrow> st
      | Way n \<Rightarrow>
          case st of (m, out) \<Rightarrow>
            if \<not> reads_el (gm_g m) (gpos n) c token then (m, out)
            else case mk (gpos n + 1) (gpar n) m of (y, m') \<Rightarrow>
              (case y of None \<Rightarrow> (m', out) | Some y \<Rightarrow> closure (Suc MAX_DEPTH) y (m', out)))"

definition step :: "way list \<Rightarrow> u8 \<Rightarrow> int \<Rightarrow> gmatch \<Rightarrow> gmatch \<times> way list" where
  "step ins c token m = fold (step_way c token) ins (m, [])"

fun run_bytes :: "bytes \<Rightarrow> gmatch \<times> way list \<Rightarrow> gmatch \<times> way list" where
  "run_bytes [] (m, ins) = (m, ins)"
| "run_bytes (b # bs) (m, ins) = (if ins = [] then (m, ins) else run_bytes bs (step ins b (-1) m))"

definition run :: "bytes \<Rightarrow> int \<Rightarrow> gmatch \<Rightarrow> gmatch \<times> way list" where
  "run bs token m =
     (if token \<ge> 0 then step (cur m) 0 token m else run_bytes bs (m, cur m))"

definition gmatch_reset :: "gmatch \<Rightarrow> gmatch" where
  "gmatch_reset m =
     (let m0 = (undo (0, 0) m)\<lparr>gm_failed := False, cur := []\<rparr>; g = gm_g m in
      if gm_root m \<ge> gr_rules g then m0
      else case fold (\<lambda>p (m, ws). case mk p None m of (y, m') \<Rightarrow>
               (case y of None \<Rightarrow> (m', ws) | Some y \<Rightarrow> closure (Suc MAX_DEPTH) y (m', ws)))
             (map (alt_at g (gm_root m)) [0..<rule_n g ! gm_root m]) (m0, [])
           of (m', ws) \<Rightarrow> m'\<lparr>cur := ws\<rparr>)"

fun gm_mallocs :: "nat \<Rightarrow> u64 option list \<Rightarrow> bool \<times> u64 option list" where
  "gm_mallocs 0 mem = (True, mem)"
| "gm_mallocs (Suc k) mem =
     (case gm_malloc mem of (a, mem') \<Rightarrow> case gm_mallocs k mem' of (ok, mem'') \<Rightarrow>
        (a \<noteq> None \<and> ok, mem''))"

definition gmatch_new :: "grammar \<Rightarrow> nat \<Rightarrow> u64 option list \<Rightarrow> gmatch option" where
  "gmatch_new g root mem =
     (case gm_malloc mem of (a, mem') \<Rightarrow>
        if a = None then None
        else case gm_mallocs 4 mem' of (ok, mem'') \<Rightarrow>
          if \<not> ok then None
          else Some (gmatch_reset \<lparr>gm_g = g, gm_root = root, bucket = (\<lambda>_. []), chunks = [],
                       made = [], n_nodes = 0, cur = [], gm_failed = False, gm_mem = mem''\<rparr>))"

definition gmatch_accepting :: "gmatch \<Rightarrow> bool" where
  "gmatch_accepting m \<longleftrightarrow> list_ex (\<lambda>w. w = ACCEPT) (cur m)"

definition gmatch_try :: "bytes \<Rightarrow> int \<Rightarrow> gmatch \<Rightarrow> bool \<times> gmatch" where
  "gmatch_try bs token m =
     (if token < 0 \<and> bs = [] then (False, m)
      else let k = mark m; failed = gm_failed m in
        case run bs token m of (m', res) \<Rightarrow>
          (length res > 0, (undo k m')\<lparr>gm_failed := failed\<rparr>))"

definition gmatch_feed :: "bytes \<Rightarrow> int \<Rightarrow> gmatch \<Rightarrow> int \<times> gmatch" where
  "gmatch_feed bs token m =
     (if token < 0 \<and> bs = [] then (-1, m)
      else let k = mark m in
        case run bs token m of (m', res) \<Rightarrow>
          if length res = 0 then (-1, undo k m')
          else (0, m'\<lparr>cur := res\<rparr>))"

section \<open>The node store\<close>

text \<open>
  What the store keeps: identities count up, a parent is an older node, no two nodes have the
  same position and parent, and the buckets hold the nodes in the order of making, so that the
  newest is at the head of its chain.
\<close>

fun buckets_of :: "gnode list \<Rightarrow> nat \<Rightarrow> gnode list" where
  "buckets_of [] = (\<lambda>_. [])"
| "buckets_of (x # xs) = (buckets_of xs)(slot (gh x) := x # buckets_of xs (slot (gh x)))"

fun made_ok :: "gnode list \<Rightarrow> bool" where
  "made_ok [] = True"
| "made_ok (x # xs) \<longleftrightarrow> made_ok xs \<and> gid x = length xs \<and> set_option (gpar x) \<subseteq> set xs \<and>
     gh x = node_hash (gpos x) (gpar x) \<and> ghnext x = buckets_of xs (slot (gh x)) \<and>
     (\<forall>y \<in> set xs. \<not> (gpos y = gpos x \<and> gpar y = gpar x))"

fun chunks_ok :: "(u64 \<times> nat) list \<Rightarrow> bool" where
  "chunks_ok [] = True"
| "chunks_ok ((b, u) # cs) \<longleftrightarrow> 0 < u \<and> u \<le> CHUNK \<and> (\<forall>c \<in> set cs. snd c = CHUNK)"

definition gm_inv :: "gmatch \<Rightarrow> bool" where
  "gm_inv m \<longleftrightarrow> made_ok (made m) \<and> bucket m = buckets_of (made m) \<and>
     n_nodes m = length (made m) \<and> chunks_ok (chunks m) \<and>
     sum_list (map snd (chunks m)) = length (made m)"

lemma buckets_of_mem: "x \<in> set (buckets_of ms k) \<longleftrightarrow> x \<in> set ms \<and> slot (gh x) = k"
  by (induction ms) auto

lemma made_ok_gid: "made_ok ms \<Longrightarrow> x \<in> set ms \<Longrightarrow> gid x < length ms"
  by (induction ms) auto

lemma made_ok_gid_inj: "made_ok ms \<Longrightarrow> x \<in> set ms \<Longrightarrow> y \<in> set ms \<Longrightarrow> gid x = gid y \<Longrightarrow> x = y"
  by (induction ms) (auto dest: made_ok_gid)

lemma made_ok_parent: "made_ok ms \<Longrightarrow> x \<in> set ms \<Longrightarrow> gpar x = Some y \<Longrightarrow> y \<in> set ms"
  by (induction ms) auto

lemma made_ok_hash: "made_ok ms \<Longrightarrow> x \<in> set ms \<Longrightarrow> gh x = node_hash (gpos x) (gpar x)"
  by (induction ms) auto

lemma made_ok_unique:
  "made_ok ms \<Longrightarrow> x \<in> set ms \<Longrightarrow> y \<in> set ms \<Longrightarrow> gpos x = gpos y \<Longrightarrow> gpar x = gpar y \<Longrightarrow> x = y"
  by (induction ms) auto

lemma same_node_iff:
  "made_ok ms \<Longrightarrow> set_option p \<subseteq> set ms \<Longrightarrow> set_option q \<subseteq> set ms \<Longrightarrow> same_node p q \<longleftrightarrow> p = q"
  by (cases p; cases q) (auto simp: same_node_def dest: made_ok_gid_inj)

text \<open>One node pushed onto the chunks, and any number.\<close>

inductive push1 :: "(u64 \<times> nat) list \<Rightarrow> (u64 \<times> nat) list \<Rightarrow> bool" where
  same_chunk: "0 < u \<Longrightarrow> u < CHUNK \<Longrightarrow> push1 ((b, u) # cs) ((b, Suc u) # cs)"
| new_chunk: "cs = [] \<or> snd (hd cs) = CHUNK \<Longrightarrow> push1 cs ((b, Suc 0) # cs)"

inductive_cases push1E: "push1 cs cs'"

lemma push1_sum: "push1 cs cs' \<Longrightarrow> sum_list (map snd cs') = Suc (sum_list (map snd cs))"
  by (auto elim!: push1E)

text \<open>\<open>m'\<close> is \<open>m\<close> with nodes made since; nothing else but the failed flag and the memory differs.\<close>

inductive grown :: "gmatch \<Rightarrow> gmatch \<Rightarrow> bool" for m where
  grown_refl: "made m' = made m \<Longrightarrow> chunks m' = chunks m \<Longrightarrow> gm_g m' = gm_g m \<Longrightarrow>
    gm_root m' = gm_root m \<Longrightarrow> cur m' = cur m \<Longrightarrow> (gm_failed m \<Longrightarrow> gm_failed m') \<Longrightarrow>
    gm_inv m' \<Longrightarrow> grown m m'"
| grown_push: "grown m m1 \<Longrightarrow> made m' = n # made m1 \<Longrightarrow> push1 (chunks m1) (chunks m') \<Longrightarrow>
    gm_g m' = gm_g m1 \<Longrightarrow> gm_root m' = gm_root m1 \<Longrightarrow> cur m' = cur m1 \<Longrightarrow>
    (gm_failed m1 \<Longrightarrow> gm_failed m') \<Longrightarrow> gm_inv m' \<Longrightarrow> grown m m'"

lemma grown_self: "gm_inv m \<Longrightarrow> grown m m"
  by (auto intro: grown_refl)

lemma grown_inv: "grown m m' \<Longrightarrow> gm_inv m'"
  by (induction rule: grown.induct) auto

lemma grown_fields:
  "grown m m' \<Longrightarrow> gm_g m' = gm_g m \<and> gm_root m' = gm_root m \<and> cur m' = cur m \<and>
     (gm_failed m \<longrightarrow> gm_failed m') \<and> set (made m) \<subseteq> set (made m')"
  by (induction rule: grown.induct) auto

lemma grown_trans: "grown m1 m2 \<Longrightarrow> grown m m1 \<Longrightarrow> grown m m2"
proof (induction rule: grown.induct)
  case (grown_refl m')
  from grown_refl(8) show ?case
  proof (cases rule: grown.cases)
    case (grown_push m0 n)
    then show ?thesis using grown_refl grown_fields [OF grown_refl(8)]
      by (intro grown.grown_push [OF grown_push(1), of m' n]) auto
  qed (use grown_refl in \<open>auto intro!: grown.grown_refl\<close>)
next
  case (grown_push m2 m' n)
  then show ?case by (intro grown.grown_push [of m m2 m' n]) auto
qed

lemma grown_failed:
  "gm_inv m \<Longrightarrow> grown m (m\<lparr>gm_failed := True\<rparr>)" "gm_inv m \<Longrightarrow> grown m (m\<lparr>gm_mem := q, gm_failed := True\<rparr>)"
  by (auto intro!: grown_refl simp: gm_inv_def)

lemma new_node_grown:
  assumes "gm_inv m" and "set_option parent \<subseteq> set (made m)" and "h = node_hash pos parent"
    and "push1 (chunks m) ((base, Suc used) # cs)"
    and "m1 = m\<lparr>gm_mem := mem, chunks := (base, used) # cs\<rparr>"
    and "\<forall>y \<in> set (made m). \<not> (gpos y = pos \<and> gpar y = parent)"
    and "new_node h pos parent m1 = (r, m')"
  shows "grown m m' \<and> (\<exists>n. r = Some n \<and> n \<in> set (made m') \<and> gpos n = pos \<and> gpar n = parent)"
proof -
  have eqs: "made m1 = made m" "bucket m1 = bucket m" "n_nodes m1 = n_nodes m"
    "gm_g m1 = gm_g m" "gm_root m1 = gm_root m" "cur m1 = cur m" "gm_failed m1 = gm_failed m"
    "chunks m1 = (base, used) # cs"
    using assms(5) by auto
  define n where "n = GNode (length (made m)) (base + of_nat (24 * used)) pos h parent
      (bucket m (slot h))"
  have r: "r = Some n" and m': "m' = m1\<lparr>chunks := (base, Suc used) # cs, made := n # made m1,
      bucket := (bucket m1)(slot h := n # bucket m1 (slot h)), n_nodes := Suc (n_nodes m1)\<rparr>"
    using assms(7) eqs by (auto simp: new_node_def n_def Let_def)
  have ok: "chunks_ok ((base, Suc used) # cs)"
  proof -
    have "chunks_ok (chunks m)" using assms(1) by (simp add: gm_inv_def)
    then show ?thesis using assms(4)
      by (cases "chunks m") (force simp: CHUNK_def elim!: push1E)+
  qed
  have "gm_inv m'"
    using assms(1,2,3,6) ok eqs push1_sum [OF assms(4)] by (auto simp: gm_inv_def m' n_def)
  then have "grown m m'"
    using assms(4) eqs by (intro grown_push [OF grown_self [OF assms(1)], of m' n]) (auto simp: m')
  then show ?thesis using r by (auto simp: m' n_def)
qed

lemma mk_spec:
  assumes "mk pos parent m = (r, m')" and "gm_inv m" and "set_option parent \<subseteq> set (made m)"
  shows "grown m m' \<and> (case r of None \<Rightarrow> gm_failed m'
     | Some n \<Rightarrow> n \<in> set (made m') \<and> gpos n = pos \<and> gpar n = parent)"
proof -
  let ?h = "node_hash pos parent"
  let ?p = "\<lambda>n. gpos n = pos \<and> same_node (gpar n) parent"
  have ok: "made_ok (made m)" and bk: "bucket m = buckets_of (made m)"
    using assms(2) by (auto simp: gm_inv_def)
  have same: "same_node (gpar n) parent \<longleftrightarrow> gpar n = parent" if "n \<in> set (made m)" for n
    using ok assms(3) made_ok_parent [OF ok that]
    by (intro same_node_iff [OF ok]) (auto simp: elem_set)
  show ?thesis
  proof (cases "find ?p (bucket m (slot ?h))")
    case (Some n)
    then have "n \<in> set (made m)" "?p n"
      by (auto simp: find_Some_iff bk buckets_of_mem dest: nth_mem)
    moreover have "r = Some n" "m' = m" using Some assms(1) by (auto simp: mk_def Let_def)
    ultimately show ?thesis using assms(2) same by (auto intro: grown_self)
  next
    case None
    have fresh: "\<forall>y \<in> set (made m). \<not> (gpos y = pos \<and> gpar y = parent)"
    proof (intro ballI notI)
      fix y assume y: "y \<in> set (made m)" "gpos y = pos \<and> gpar y = parent"
      then have "y \<in> set (bucket m (slot ?h))"
        using made_ok_hash [OF ok y(1)] by (simp add: bk buckets_of_mem)
      then show False using None y same [OF y(1)] by (auto simp: find_None_iff)
    qed
    show ?thesis
    proof (cases "n_nodes m \<ge> MAX_NODES")
      case True
      then show ?thesis using None assms(1,2)
        by (auto simp: mk_def Let_def intro: grown_failed)
    next
      case room: False
      show ?thesis
      proof (cases "chunks m = [] \<or> snd (hd (chunks m)) = CHUNK")
        case full: True
        obtain a mem where a: "gm_malloc (gm_mem m) = (a, mem)" by force
        show ?thesis
        proof (cases a)
          case an: None
          then show ?thesis using None room full a assms(1,2)
            by (auto simp: mk_def Let_def intro: grown_failed)
        next
          case (Some base)
          let ?m1 = "m\<lparr>gm_mem := mem, chunks := (base, 0) # chunks m\<rparr>"
          have "new_node ?h pos parent ?m1 = (r, m')"
            using None room full a Some assms(1) by (auto simp: mk_def Let_def)
          from new_node_grown [OF assms(2,3) refl new_chunk [OF full] _ fresh this]
          show ?thesis by (auto split: option.splits)
        qed
      next
        case False
        then obtain base used cs where cs: "chunks m = (base, used) # cs"
          by (cases "chunks m") auto
        have u: "0 < used" "used < CHUNK"
          using False cs assms(2) by (auto simp: gm_inv_def)
        have new: "new_node ?h pos parent m = (r, m')"
          using None room False assms(1) by (auto simp: mk_def Let_def)
        have "push1 (chunks m) ((base, Suc used) # cs)" using same_chunk [OF u] cs by simp
        moreover have "m = m\<lparr>gm_mem := gm_mem m, chunks := (base, used) # cs\<rparr>"
          using cs by (cases m) simp
        ultimately have "grown m m' \<and>
            (\<exists>n. r = Some n \<and> n \<in> set (made m') \<and> gpos n = pos \<and> gpar n = parent)"
          by (rule new_node_grown [OF assms(2,3) refl _ _ fresh new])
        then show ?thesis by auto
      qed
    qed
  qed
qed

section \<open>Undoing\<close>

text \<open>
  Undoing to a mark takes back exactly the nodes made since: each is still the head of its
  bucket's chain when its turn comes.
\<close>

definition top_used :: "(u64 \<times> nat) list \<Rightarrow> nat" where
  "top_used cs = (case cs of [] \<Rightarrow> 0 | (_, u) # _ \<Rightarrow> u)"

lemma push1_grows:
  "push1 cs cs' \<Longrightarrow> length cs < length cs' \<or> length cs = length cs' \<and> top_used cs < top_used cs'"
  by (auto simp: top_used_def elim!: push1E)

lemma grown_chunks:
  "grown m m' \<Longrightarrow> length (chunks m) < length (chunks m') \<or>
     length (chunks m) = length (chunks m') \<and> top_used (chunks m) \<le> top_used (chunks m')"
  by (induction rule: grown.induct) (auto dest!: push1_grows)

lemma undo_push:
  assumes "grown m m1" and "made m' = n # made m1" and "push1 (chunks m1) (chunks m')"
    and "gm_inv m'"
  shows "undo (mark m) m' =
    undo (mark m) (m'\<lparr>chunks := chunks m1, made := made m1, bucket := buckets_of (made m1),
                      n_nodes := length (made m1)\<rparr>)"
proof -
  let ?cs = "chunks m1"
  have bk: "(bucket m')(slot (gh n) := ghnext n) = buckets_of (made m1)"
    using assms(2,4) by (auto simp: gm_inv_def fun_eq_iff)
  have n: "n_nodes m' = Suc (length (made m1))" using assms(2,4) by (simp add: gm_inv_def)
  have grow: "length (chunks m) < length ?cs \<or>
      length (chunks m) = length ?cs \<and> top_used (chunks m) \<le> top_used ?cs"
    using assms(1) by (rule grown_chunks)
  have k: "mark m = (length (chunks m), top_used (chunks m))"
    by (simp add: mark_def top_used_def)
  from assms(3) show ?thesis
  proof (cases rule: push1.cases)
    case (same_chunk u b cs)
    have "length (chunks m') \<noteq> length (chunks m) \<or> top_used (chunks m) < Suc u"
      using grow same_chunk by (auto simp: top_used_def)
    then show ?thesis
      unfolding k using same_chunk assms(2) bk n by (subst undo.simps) (simp add: Let_def)
  next
    case (new_chunk b)
    let ?m2 = "m'\<lparr>chunks := (b, 0) # ?cs, made := made m1, bucket := buckets_of (made m1),
        n_nodes := length (made m1)\<rparr>"
    have ne: "Suc (length ?cs) \<noteq> length (chunks m)" using grow by auto
    have "undo (mark m) m' = undo (mark m) ?m2"
      unfolding k using new_chunk assms(2) bk n ne by (subst undo.simps) (simp add: Let_def)
    also have "\<dots> = undo (mark m) (?m2\<lparr>chunks := ?cs\<rparr>)"
      unfolding k using ne by (subst undo.simps) simp
    also have "?m2\<lparr>chunks := ?cs\<rparr> = m'\<lparr>chunks := ?cs, made := made m1,
        bucket := buckets_of (made m1), n_nodes := length (made m1)\<rparr>"
      by (cases m') simp
    finally show ?thesis .
  qed
qed

lemma undo_stop: "undo (length (chunks m), top_used (chunks m)) m = m"
  by (subst undo.simps) (auto simp: top_used_def split: list.splits)

lemma undo_frame:
  "undo k (m\<lparr>gm_failed := f, gm_mem := q\<rparr>) = (undo k m)\<lparr>gm_failed := f, gm_mem := q\<rparr>"
proof (induction k m rule: undo.induct)
  case (1 k m)
  then show ?case
    by (cases m) (subst (1 2) undo.simps, auto simp: Let_def split: list.splits)
qed

text \<open>The store of \<open>m\<close> with the failed flag and the memory of \<open>m'\<close>.\<close>

lemma undo_grown:
  assumes "grown m m'" and "gm_inv m"
  shows "undo (mark m) m' = m\<lparr>gm_failed := gm_failed m', gm_mem := gm_mem m'\<rparr>"
  using assms(1)
proof (induction rule: grown.induct)
  case (grown_refl m')
  have "undo (mark m) m' = m'"
    using undo_stop [of m'] grown_refl by (simp add: mark_def top_used_def)
  moreover have "m' = m\<lparr>gm_failed := gm_failed m', gm_mem := gm_mem m'\<rparr>"
    using grown_refl assms(2) by (auto simp: gm_inv_def intro!: gmatch.equality)
  ultimately show ?case by simp
next
  case (grown_push m1 m' n)
  let ?m2 = "m'\<lparr>chunks := chunks m1, made := made m1, bucket := buckets_of (made m1),
      n_nodes := length (made m1)\<rparr>"
  have 1: "undo (mark m) m' = undo (mark m) ?m2"
    using grown_push by (intro undo_push [where n = n]) auto
  have inv: "gm_inv m1" using grown_push(1) by (rule grown_inv)
  have "?m2 = m1\<lparr>gm_failed := gm_failed m', gm_mem := gm_mem m'\<rparr>"
    using grown_push inv by (auto simp: gm_inv_def intro!: gmatch.equality)
  moreover have "undo (mark m) (m1\<lparr>gm_failed := f, gm_mem := q\<rparr>) =
      (undo (mark m) m1)\<lparr>gm_failed := f, gm_mem := q\<rparr>" for f q
    by (rule undo_frame)
  ultimately show ?case using 1 grown_push.IH by simp
qed

lemma undo_all:
  assumes "made_ok (made m)" and "bucket m = buckets_of (made m)"
    and "n_nodes m = length (made m)" and "sum_list (map snd (chunks m)) = length (made m)"
  shows "undo (0, 0) m = m\<lparr>made := [], bucket := (\<lambda>_. []), chunks := [], n_nodes := 0\<rparr>"
  using assms
proof (induction "(0, 0) :: mark" m rule: undo.induct)
  case (1 m)
  show ?case
  proof (cases "chunks m")
    case Nil
    then show ?thesis using "1.prems" by (subst undo.simps) simp
  next
    case (Cons c cs)
    then obtain b u where c: "chunks m = (b, u) # cs" by (cases c) auto
    show ?thesis
    proof (cases "u = 0")
      case True
      then have "undo (0, 0) m = undo (0, 0) (m\<lparr>chunks := cs\<rparr>)"
        using c by (subst undo.simps) simp
      then show ?thesis using "1.hyps"(1) [OF c] True "1.prems" c by simp
    next
      case False
      then obtain n ns where n: "made m = n # ns" using "1.prems"(4) c by (cases "made m") auto
      let ?m = "m\<lparr>chunks := (b, u - 1) # cs, made := ns,
          bucket := (bucket m)(slot (gh n) := ghnext n), n_nodes := n_nodes m - 1\<rparr>"
      have bk: "(bucket m)(slot (gh n) := ghnext n) = buckets_of ns"
        using "1.prems"(1,2) n by (auto simp: fun_eq_iff)
      have "undo (0, 0) m = undo (0, 0) ?m"
        using c False n by (subst undo.simps) (simp add: Let_def)
      also have "\<dots> = ?m\<lparr>made := [], bucket := (\<lambda>_. []), chunks := [], n_nodes := 0\<rparr>"
        using "1.hyps"(2) [OF c] False "1.prems" c n bk by (simp add: Let_def)
      finally show ?thesis by simp
    qed
  qed
qed

section \<open>Reaching the elements that read\<close>

text \<open>
  A stack is the list of its positions, innermost first; the empty stack is the root rule
  matched whole. \<open>reach g s t\<close>: from \<open>s\<close>, without reading, to \<open>t\<close>, whose top reads.
\<close>

inductive reach :: "grammar \<Rightarrow> nat list \<Rightarrow> nat list \<Rightarrow> bool" for g where
  reach_accept: "reach g [] []"
| reach_read: "(\<exists>s. el g ! p = GEL_SET s) \<or> (\<exists>t. el g ! p = GEL_TOKEN t) \<Longrightarrow>
    reach g (p # s) (p # s)"
| reach_end: "el g ! p = GEL_END \<Longrightarrow> reach g s t \<Longrightarrow> reach g (p # s) t"
| reach_rule: "el g ! p = GEL_RULE r \<Longrightarrow> r < gr_rules g \<Longrightarrow> i < rule_n g ! r \<Longrightarrow>
    reach g (alt_at g r i # (if el g ! (p + 1) = GEL_END then s else (p + 1) # s)) t \<Longrightarrow>
    reach g (p # s) t"

inductive_cases reach_NilE [elim!]: "reach g [] t"
inductive_cases reach_ConsE: "reach g (p # s) t"

fun stack :: "gnode \<Rightarrow> nat list" where
  "stack (GNode i a p h par hn) = p # (case par of None \<Rightarrow> [] | Some y \<Rightarrow> stack y)"

definition ostack :: "gnode option \<Rightarrow> nat list" where
  "ostack p = (case p of None \<Rightarrow> [] | Some x \<Rightarrow> stack x)"

fun wstack :: "way \<Rightarrow> nat list" where
  "wstack ACCEPT = []"
| "wstack (Way x) = stack x"

lemma stack_eq: "stack x = gpos x # ostack (gpar x)"
  by (cases x) (simp add: ostack_def)

declare stack.simps [simp del]

end
