(* ===== verification/Gram_Correct.thy ===== *)
theory Gram_Correct
  imports Gram_Match
begin

text \<open>
  The matcher recognises the language of its rule: \<open>closure\<close> finds the stacks that can be
  reached without reading, a step the stacks that a byte or a token leads to, and a stack that
  is empty is a whole match. What a refused request or a limit can do is leave ways out (the
  failed flag); it never lets in a way the grammar does not have.
\<close>

section \<open>What closure finds\<close>

definition ways_in :: "way list \<Rightarrow> gmatch \<Rightarrow> bool" where
  "ways_in ws m \<longleftrightarrow> (\<forall>n. Way n \<in> set ws \<longrightarrow> n \<in> set (made m))"

definition finds :: "(nat list \<Rightarrow> bool) \<Rightarrow> gmatch \<times> way list \<Rightarrow> gmatch \<times> way list \<Rightarrow> bool" where
  "finds R st st' \<longleftrightarrow>
     (case (st, st') of ((m, ws), (m', ws')) \<Rightarrow>
        grown m m' \<and> ways_in ws' m' \<and> set ws \<subseteq> set ws' \<and>
        (length ws \<le> MAX_SET \<longrightarrow> length ws' \<le> MAX_SET) \<and>
        (\<forall>t \<in> set ws'. t \<in> set ws \<or> R (wstack t)) \<and>
        (\<not> gm_failed m' \<longrightarrow> (\<forall>s. R s \<longrightarrow> s \<in> wstack ` set ws')))"

lemma ways_in_grown: "ways_in ws m \<Longrightarrow> grown m m' \<Longrightarrow> ways_in ws m'"
  by (auto simp: ways_in_def dest!: grown_fields)

lemma finds_trans:
  assumes "finds R (m, ws) (m1, ws1)" and "finds S (m1, ws1) (m2, ws2)"
  shows "finds (\<lambda>s. R s \<or> S s) (m, ws) (m2, ws2)"
proof -
  have "grown m m2" using assms grown_trans by (auto simp: finds_def)
  moreover have "gm_failed m1 \<longrightarrow> gm_failed m2"
    using assms(2) grown_fields by (auto simp: finds_def)
  ultimately show ?thesis using assms unfolding finds_def by (auto simp: subset_iff image_iff) blast+
qed

lemma finds_refl: "gm_inv m \<Longrightarrow> ways_in ws m \<Longrightarrow> finds (\<lambda>_. False) (m, ws) (m, ws)"
  by (auto simp: finds_def intro: grown_self)

lemma finds_grown:
  "grown m m1 \<Longrightarrow> finds R (m1, ws) st \<Longrightarrow> finds R (m, ws) st"
  by (auto simp: finds_def intro: grown_trans)

lemma finds_failed:
  "grown m m' \<Longrightarrow> gm_failed m' \<Longrightarrow> ways_in ws m \<Longrightarrow> finds R (m, ws) (m', ws)"
  by (auto simp: finds_def intro: ways_in_grown)

lemma finds_cong: "finds R st st' \<Longrightarrow> (\<And>s. R s \<longleftrightarrow> S s) \<Longrightarrow> finds S st st'"
  by (simp add: finds_def split: prod.splits)

lemma same_way_eq:
  "made_ok (made m) \<Longrightarrow> ways_in [x, y] m \<Longrightarrow> same_way x y \<longleftrightarrow> x = y"
  by (cases x; cases y) (auto simp: ways_in_def dest: made_ok_gid_inj)

lemma add_way_finds:
  assumes "gm_inv m" and "ways_in ws m" and "ways_in [x] m"
  shows "finds (\<lambda>s. s = wstack x) (m, ws) (add_way x (m, ws))"
proof -
  have ok: "made_ok (made m)" using assms(1) by (simp add: gm_inv_def)
  have "list_ex (same_way x) ws \<longleftrightarrow> x \<in> set ws"
    using assms(2,3) same_way_eq [OF ok] by (auto simp: list_ex_iff ways_in_def)
  then show ?thesis
    using assms grown_self [OF assms(1)] grown_failed(1) [OF assms(1)]
    by (auto simp: add_way_def finds_def ways_in_def)
qed

lemma reach_read_iff:
  "el g ! p = GEL_SET i \<or> el g ! p = GEL_TOKEN t \<Longrightarrow> reach g (p # s) q \<longleftrightarrow> q = p # s"
  by (auto elim: reach_ConsE intro: reach_read)

lemma reach_end_iff: "el g ! p = GEL_END \<Longrightarrow> reach g (p # s) q \<longleftrightarrow> reach g s q"
  by (auto elim: reach_ConsE intro: reach_end)

lemma reach_rule_iff:
  "el g ! p = GEL_RULE r \<Longrightarrow> reach g (p # s) q \<longleftrightarrow> r < gr_rules g \<and>
     (\<exists>i < rule_n g ! r. reach g (alt_at g r i # (if el g ! (p + 1) = GEL_END then s else (p + 1) # s)) q)"
  by (rule iffI, erule reach_ConsE) (auto intro: reach_rule)

lemma reach_Nil_iff: "reach g [] q \<longleftrightarrow> q = []"
  by (auto intro: reach_accept)

lemma ostack_Some [simp]: "ostack (Some x) = stack x" and ostack_None [simp]: "ostack None = []"
  by (simp_all add: ostack_def)

lemma closure_finds:
  "gm_g m = g \<Longrightarrow> gm_inv m \<Longrightarrow> ways_in ws m \<Longrightarrow> x \<in> set (made m) \<Longrightarrow>
     finds (reach g (stack x)) (m, ws) (closure d x (m, ws))"
  "gm_g m' = g \<Longrightarrow> gm_inv m' \<Longrightarrow> ways_in ws' m' \<Longrightarrow> set_option cont \<subseteq> set (made m') \<Longrightarrow>
     finds (\<lambda>s. \<exists>p \<in> set ps. reach g (p # ostack cont) s) (m', ws') (closure_alts d' ps cont (m', ws'))"
proof (induction d x "(m, ws)" and d' ps cont "(m', ws')" arbitrary: m ws and m' ws'
    rule: closure_closure_alts.induct)
  case (1 x m ws)
  then show ?case by (auto intro: finds_failed grown_failed)
next
  case (2 left x m ws)
  have inv: "made_ok (made m)" using 2 by (simp add: gm_inv_def)
  have par: "set_option (gpar x) \<subseteq> set (made m)"
    using made_ok_parent [OF inv] 2 by (cases "gpar x") auto
  show ?case
  proof (cases "el g ! gpos x")
    case GEL_END
    show ?thesis
    proof (cases "gpar x")
      case None
      have "finds (\<lambda>s. s = wstack ACCEPT) (m, ws) (add_way ACCEPT (m, ws))"
        using 2 by (intro add_way_finds) (auto simp: ways_in_def)
      then show ?thesis using None GEL_END 2
        by (auto simp: closure.simps(2) [of left x] Let_def stack_eq [of x] reach_end_iff reach_Nil_iff elim!: finds_cong)
    next
      case (Some y)
      then have "finds (reach g (stack y)) (m, ws) (closure (Suc left) y (m, ws))"
        using 2 GEL_END par by auto
      then show ?thesis using Some GEL_END 2
        by (auto simp: closure.simps(2) [of left x] Let_def stack_eq [of x] reach_end_iff elim!: finds_cong)
    qed
  next
    case (GEL_SET i)
    have "finds (\<lambda>s. s = wstack (Way x)) (m, ws) (add_way (Way x) (m, ws))"
      using 2 by (intro add_way_finds) (auto simp: ways_in_def)
    then show ?thesis using GEL_SET 2
      by (auto simp: closure.simps(2) [of left x] Let_def stack_eq [of x] reach_read_iff elim!: finds_cong)
  next
    case (GEL_TOKEN t)
    have "finds (\<lambda>s. s = wstack (Way x)) (m, ws) (add_way (Way x) (m, ws))"
      using 2 by (intro add_way_finds) (auto simp: ways_in_def)
    then show ?thesis using GEL_TOKEN 2
      by (auto simp: closure.simps(2) [of left x] Let_def stack_eq [of x] reach_read_iff elim!: finds_cong)
  next
    case (GEL_RULE r)
    let ?ps = "map (alt_at g r) [0..<rule_n g ! r]"
    show ?thesis
    proof (cases "el g ! (gpos x + 1) = GEL_END")
      case True
      show ?thesis
      proof (cases "r < gr_rules g")
        case r: True
        have "finds (\<lambda>s. \<exists>p \<in> set ?ps. reach g (p # ostack (gpar x)) s) (m, ws)
            (closure_alts left ?ps (gpar x) (m, ws))"
          using 2 GEL_RULE True r par by (auto simp: Let_def)
        then have "finds (reach g (stack x)) (m, ws) (closure_alts left ?ps (gpar x) (m, ws))"
          by (rule finds_cong) (use True r in \<open>auto simp: stack_eq [of x] reach_rule_iff [OF GEL_RULE]\<close>)
        then show ?thesis using GEL_RULE True r "2.prems"(1)
          by (simp add: closure.simps(2) [of left x] Let_def)
      next
        case False
        then show ?thesis using GEL_RULE True 2 finds_refl [of m ws]
          by (auto simp: closure.simps(2) [of left x] Let_def stack_eq [of x] reach_rule_iff elim!: finds_cong)
      qed
    next
      case ne: False
      obtain c m1 where mk: "mk (gpos x + 1) (gpar x) m = (c, m1)" by force
      note spec = mk_spec [OF mk "2.prems"(2) par]
      show ?thesis
      proof (cases c)
        case None
        then show ?thesis using spec mk GEL_RULE ne 2
          by (auto simp: closure.simps(2) [of left x] Let_def intro: finds_failed)
      next
        case (Some cont)
        have cont: "cont \<in> set (made m1)" "stack cont = (gpos x + 1) # ostack (gpar x)"
          "grown m m1" "gm_inv m1" "gm_g m1 = g" "ways_in ws m1"
          using spec Some 2 grown_inv grown_fields ways_in_grown
          by (auto simp: stack_eq [of cont])
        show ?thesis
        proof (cases "r < gr_rules g")
          case r: True
          have "finds (\<lambda>s. \<exists>p \<in> set ?ps. reach g (p # ostack (Some cont)) s) (m1, ws)
              (closure_alts left ?ps (Some cont) (m1, ws))"
            using 2 GEL_RULE ne r mk Some cont by (auto simp: Let_def)
          then have "finds (\<lambda>s. \<exists>p \<in> set ?ps. reach g (p # stack cont) s) (m, ws)
              (closure_alts left ?ps (Some cont) (m1, ws))"
            using cont(3) by (auto intro: finds_grown)
          then have "finds (reach g (stack x)) (m, ws) (closure_alts left ?ps (Some cont) (m1, ws))"
            by (rule finds_cong)
               (use ne r cont(2) in \<open>auto simp: stack_eq [of x] reach_rule_iff [OF GEL_RULE]\<close>)
          then show ?thesis using GEL_RULE ne r mk Some "2.prems"(1)
            by (simp add: closure.simps(2) [of left x] Let_def)
        next
          case False
          have "finds (\<lambda>_. False) (m, ws) (m1, ws)"
            using finds_grown [OF cont(3) finds_refl [OF cont(4,6)]] .
          then show ?thesis using False GEL_RULE ne mk Some 2
            by (auto simp: closure.simps(2) [of left x] Let_def stack_eq [of x] reach_rule_iff elim!: finds_cong)
        qed
      qed
    qed
  qed
next
  case (3 left cont m ws)
  then show ?case using finds_refl [of m ws] by (auto elim!: finds_cong)
next
  case (4 left p ps cont m ws)
  obtain y m1 where mk: "mk p cont m = (y, m1)" by force
  note spec = mk_spec [OF mk "4.prems"(2,4)]
  show ?case
  proof (cases y)
    case None
    then show ?thesis using spec mk 4 by (auto intro: finds_failed)
  next
    case (Some z)
    have z: "z \<in> set (made m1)" "stack z = p # ostack cont" "grown m m1" "gm_inv m1" "gm_g m1 = g"
      "ways_in ws m1"
      using spec Some 4 grown_inv grown_fields ways_in_grown by (auto simp: stack_eq [of z])
    obtain m2 ws2 where cl: "closure left z (m1, ws) = (m2, ws2)" by force
    have 1: "finds (reach g (stack z)) (m1, ws) (m2, ws2)"
      using 4(1) [OF mk [symmetric] Some z(5,4,6,1)] by (simp add: cl)
    then have g2: "grown m1 m2" and st2: "ways_in ws2 m2" by (auto simp: finds_def)
    note f1 = grown_fields [OF z(3)] and f2 = grown_fields [OF g2]
    have st2: "gm_inv m2" "gm_g m2 = g" "ways_in ws2 m2" "set_option cont \<subseteq> set (made m2)"
      using grown_inv [OF g2] st2 f1 f2 z(5) "4.prems"(4) by auto
    obtain m3 ws3 where al: "closure_alts left ps cont (m2, ws2) = (m3, ws3)" by force
    have "finds (\<lambda>s. \<exists>p \<in> set ps. reach g (p # ostack cont) s) (m2, ws2) (m3, ws3)"
      using 4(2) [OF mk [symmetric] Some _ st2(2,1,3,4)] cl al by simp
    from finds_grown [OF z(3) finds_trans [OF 1 this]]
    have "finds (\<lambda>s. \<exists>q \<in> set (p # ps). reach g (q # ostack cont) s) (m, ws) (m3, ws3)"
      by (rule finds_cong) (simp add: z(2))
    moreover have "closure_alts left (p # ps) cont (m, ws) = (m3, ws3)"
      using mk Some cl al by simp
    ultimately show ?thesis by simp
  qed
qed

section \<open>The language of a stack\<close>

definition syms :: "grammar \<Rightarrow> nat list \<Rightarrow> asym list" where
  "syms g s = concat (map (rest g) s)"

lemma syms_simps [simp]:
  "syms g [] = []" "syms g (p # s) = rest g p @ syms g s" "syms g (s @ t) = syms g s @ syms g t"
  by (simp_all add: syms_def)

definition reads :: "grammar \<Rightarrow> nat \<Rightarrow> gsym \<Rightarrow> bool" where
  "reads g p y \<longleftrightarrow>
     (case el g ! p of
        GEL_SET s \<Rightarrow> (\<exists>c. y = Byte c \<and> gset_has (gr_sets g ! s) c)
      | GEL_TOKEN t \<Rightarrow> y = Tok t
      | _ \<Rightarrow> False)"

definition stack_ok :: "grammar \<Rightarrow> nat list \<Rightarrow> bool" where
  "stack_ok g s \<longleftrightarrow> (\<forall>p \<in> set s. pos_ok (el g) p)"

lemma stack_ok_simps [simp]:
  "stack_ok g []" "stack_ok g (p # s) \<longleftrightarrow> pos_ok (el g) p \<and> stack_ok g s"
  by (auto simp: stack_ok_def)

lemma rest_step:
  "pos_ok (el g) p \<Longrightarrow> rest g p =
     (if el g ! p = GEL_END then [] else resolve (gr_sets g) (el g ! p) # rest g (Suc p))"
  by (simp add: rest_def rest_els_END rest_els_step pos_ok_def)

lemma rest_next_END: "pos_ok (el g) p \<Longrightarrow> el g ! p \<noteq> GEL_END \<Longrightarrow> el g ! Suc p = GEL_END \<Longrightarrow>
    rest g (Suc p) = []"
  using rest_step [OF pos_ok_Suc] by simp

lemma reach_stack_ok:
  "reach g s t \<Longrightarrow> grammar_wf g \<Longrightarrow> stack_ok g s \<Longrightarrow> stack_ok g t"
proof (induction rule: reach.induct)
  case (reach_rule p r i s t)
  then show ?case by (auto simp: grammar_wf_def dest: pos_ok_Suc)
qed auto

lemma reach_sound:
  "reach g s t \<Longrightarrow> grammar_wf g \<Longrightarrow> stack_ok g s \<Longrightarrow> derives (cprods g) (syms g t) w \<Longrightarrow>
     derives (cprods g) (syms g s) w"
proof (induction arbitrary: w rule: reach.induct)
  case (reach_end p s t)
  then show ?case by (simp add: rest_step)
next
  case (reach_rule p r i s t)
  let ?cont = "if el g ! (p + 1) = GEL_END then s else (p + 1) # s"
  have wf: "pos_ok (el g) (alt_at g r i)" "stack_ok g ?cont"
    using reach_rule by (auto simp: grammar_wf_def dest: pos_ok_Suc)
  have cont: "syms g ?cont = rest g (Suc p) @ syms g s"
    using reach_rule rest_next_END by auto
  have "derives (cprods g) (syms g (alt_at g r i # ?cont)) w"
    using reach_rule wf by auto
  then obtain u v where w: "w = u @ v" "derives (cprods g) (rest g (alt_at g r i)) u"
      "derives (cprods g) (rest g (Suc p) @ syms g s) v"
    using cont by (auto simp: derives_append)
  have "(r, rest g (alt_at g r i)) \<in> cprods g"
    using reach_rule by (auto simp: cprods_def)
  then have "derives (cprods g) (ARule r # rest g (Suc p) @ syms g s) w"
    using w by (auto intro: d_rule)
  then show ?case using reach_rule by (simp add: rest_step)
qed auto

lemma reach_append:
  "reach g s t \<Longrightarrow> t \<noteq> [] \<Longrightarrow> reach g (s @ c) (t @ c)"
proof (induction rule: reach.induct)
  case (reach_read p s)
  then show ?case by (auto intro: reach.reach_read)
next
  case (reach_end p s t)
  then show ?case by (simp add: reach.reach_end)
next
  case (reach_rule p r i s t)
  then show ?case using reach.reach_rule [OF reach_rule.hyps(1-3), of "s @ c" "t @ c"]
    by (simp split: if_splits)
qed simp

lemma reach_append_Nil:
  "reach g s t \<Longrightarrow> t = [] \<Longrightarrow> reach g c x \<Longrightarrow> reach g (s @ c) x"
proof (induction rule: reach.induct)
  case (reach_end p s t)
  then show ?case by (simp add: reach.reach_end)
next
  case (reach_rule p r i s t)
  then show ?case using reach.reach_rule [OF reach_rule.hyps(1-3), of "s @ c" x]
    by (simp split: if_splits)
qed simp_all

text \<open>Past the ends of rules: the first position that is not one.\<close>

lemma reach_skip:
  assumes "stack_ok g s" and "syms g s = x # xs"
  shows "\<exists>p s'. rest g p = resolve (gr_sets g) (el g ! p) # rest g (Suc p) \<and>
    el g ! p \<noteq> GEL_END \<and> x = resolve (gr_sets g) (el g ! p) \<and> pos_ok (el g) p \<and> stack_ok g s' \<and>
    xs = rest g (Suc p) @ syms g s' \<and> (\<forall>t. reach g (p # s') t \<longrightarrow> reach g s t)"
  using assms
proof (induction s)
  case (Cons p s)
  show ?case
  proof (cases "el g ! p = GEL_END")
    case True
    then have "syms g s = x # xs" using Cons by (simp add: rest_step)
    with Cons True show ?thesis by (auto intro: reach_end)
  next
    case False
    then show ?thesis using Cons
      by (intro exI [of _ p] exI [of _ s]) (auto simp: rest_step)
  qed
qed simp

lemma reach_skip_all: "stack_ok g s \<Longrightarrow> syms g s = [] \<Longrightarrow> reach g s []"
proof (induction s)
  case (Cons p s)
  then show ?case by (auto simp: rest_step split: if_splits intro: reach_end)
qed (auto intro: reach_accept)

lemma resolve_kinds:
  "resolve ss e = ASet S \<Longrightarrow> e \<noteq> GEL_END \<Longrightarrow> \<exists>i. e = GEL_SET i \<and> S = bset_of (ss ! i)"
  "resolve ss e = ATok t \<Longrightarrow> e = GEL_TOKEN t"
  "resolve ss e = ARule r \<Longrightarrow> e = GEL_RULE r"
  by (cases e; simp)+

text \<open>What a word of the stack's language starts with, found by \<open>reach\<close>.\<close>

definition starts :: "grammar \<Rightarrow> nat list \<Rightarrow> gsym list \<Rightarrow> bool" where
  "starts g s w \<longleftrightarrow> (case w of
     [] \<Rightarrow> reach g s []
   | y # v \<Rightarrow> \<exists>q s'. reach g s (q # s') \<and> reads g q y \<and>
                derives (cprods g) (syms g (Suc q # s')) v)"

lemma starts_append:
  assumes "starts g s u" and "starts g c v" and "derives (cprods g) (syms g c) v"
  shows "starts g (s @ c) (u @ v)"
proof (cases u)
  case Nil
  then have "reach g s []" using assms(1) by (simp add: starts_def)
  then have "reach g c x \<Longrightarrow> reach g (s @ c) x" for x by (rule reach_append_Nil) simp
  then show ?thesis using assms(2) Nil by (auto simp: starts_def split: list.splits)
next
  case (Cons y u')
  then obtain q s' where q: "reach g s (q # s')" "reads g q y"
      "derives (cprods g) (syms g (Suc q # s')) u'"
    using assms(1) by (auto simp: starts_def)
  have "reach g (s @ c) ((q # s') @ c)" using q(1) by (rule reach_append) simp
  moreover have "derives (cprods g) (syms g (Suc q # s') @ syms g c) (u' @ v)"
    unfolding derives_append using q(3) assms(3) by blast
  ultimately show ?thesis using Cons q(2)
    by (auto simp: starts_def intro!: exI [of _ q] exI [of _ "s' @ c"])
qed

lemma reach_complete:
  assumes "derives (cprods g) xs w" and "grammar_wf g"
  shows "stack_ok g s \<Longrightarrow> syms g s = xs \<Longrightarrow> starts g s w"
  using assms(1)
proof (induction arbitrary: s rule: derives.induct)
  case d_nil
  then show ?case by (simp add: starts_def reach_skip_all)
next
  case (d_set c S xs w)
  obtain p s' where p: "el g ! p \<noteq> GEL_END" "ASet S = resolve (gr_sets g) (el g ! p)"
      "xs = rest g (Suc p) @ syms g s'" "\<And>t. reach g (p # s') t \<Longrightarrow> reach g s t"
    using reach_skip [OF d_set.prems(1,2)] by auto
  obtain i where i: "el g ! p = GEL_SET i" "S = bset_of (gr_sets g ! i)"
    using resolve_kinds(1) [OF p(2) [symmetric] p(1)] by auto
  have "reach g s (p # s')" using p(4) i by (auto intro: reach_read)
  moreover have "reads g p (Byte c)" using i d_set by (auto simp: reads_def bset_of_def)
  ultimately show ?case using d_set p(3) by (auto simp: starts_def)
next
  case (d_tok xs w t)
  obtain p s' where p: "el g ! p \<noteq> GEL_END" "ATok t = resolve (gr_sets g) (el g ! p)"
      "xs = rest g (Suc p) @ syms g s'" "\<And>t. reach g (p # s') t \<Longrightarrow> reach g s t"
    using reach_skip [OF d_tok.prems(1,2)] by auto
  have i: "el g ! p = GEL_TOKEN t" using resolve_kinds(2) [OF p(2) [symmetric]] .
  have "reach g s (p # s')" using p(4) i by (auto intro: reach_read)
  moreover have "reads g p (Tok t)" using i by (auto simp: reads_def)
  ultimately show ?case using d_tok p(3) by (auto simp: starts_def)
next
  case (d_rule r ys u xs v)
  obtain p s' where p: "el g ! p \<noteq> GEL_END" "ARule r = resolve (gr_sets g) (el g ! p)"
      "pos_ok (el g) p" "stack_ok g s'" "xs = rest g (Suc p) @ syms g s'"
      "\<And>t. reach g (p # s') t \<Longrightarrow> reach g s t"
    using reach_skip [OF d_rule.prems(1,2)] by auto
  have rl: "el g ! p = GEL_RULE r" using resolve_kinds(3) [OF p(2) [symmetric]] .
  obtain i where i: "ys = rest g (alt_at g r i)" "r < gr_rules g" "i < rule_n g ! r"
    using d_rule.hyps(1) by (auto simp: cprods_def)
  let ?cont = "if el g ! (p + 1) = GEL_END then s' else (p + 1) # s'"
  have ok: "pos_ok (el g) (alt_at g r i)" "stack_ok g ?cont"
    using i p assms(2) by (auto simp: grammar_wf_def dest: pos_ok_Suc)
  have cont: "syms g ?cont = xs" using p rest_next_END by auto
  have "starts g [alt_at g r i] u" using d_rule.IH(1) ok i by simp
  moreover have "starts g ?cont v" using d_rule.IH(2) ok cont by simp
  moreover have "derives (cprods g) (syms g ?cont) v" using d_rule.hyps(3) cont by simp
  ultimately have "starts g ([alt_at g r i] @ ?cont) (u @ v)" by (rule starts_append)
  moreover have "reach g (alt_at g r i # ?cont) t \<Longrightarrow> reach g s t" for t
    using p(6) reach_rule [OF rl i(2,3), of s' t] by blast
  ultimately show ?case by (auto simp: starts_def split: list.splits)
qed

lemma stack_lang:
  assumes "grammar_wf g" and "stack_ok g s"
  shows "derives (cprods g) (syms g s) w \<longleftrightarrow> starts g s w"
proof
  assume "derives (cprods g) (syms g s) w"
  then show "starts g s w" using assms by (intro reach_complete) auto
next
  assume st: "starts g s w"
  show "derives (cprods g) (syms g s) w"
  proof (cases w)
    case Nil
    then show ?thesis using st assms reach_sound [of g s "[]" "[]"] by (simp add: starts_def)
  next
    case (Cons y v)
    then obtain q s' where q: "reach g s (q # s')" "reads g q y"
        "derives (cprods g) (syms g (Suc q # s')) v"
      using st by (auto simp: starts_def)
    have "pos_ok (el g) q" using reach_stack_ok [OF q(1) assms] by simp
    then have "derives (cprods g) (syms g (q # s')) (y # v)"
      using q(2,3) by (auto simp: rest_step reads_def bset_of_def split: gel.splits)
    then show ?thesis using reach_sound [OF q(1) assms] Cons by simp
  qed
qed

section \<open>The ways after an input\<close>

definition start_ways :: "grammar \<Rightarrow> nat \<Rightarrow> nat list set" where
  "start_ways g r = {t. r < gr_rules g \<and> (\<exists>i < rule_n g ! r. reach g [alt_at g r i] t)}"

definition next_ways :: "grammar \<Rightarrow> gsym \<Rightarrow> nat list set \<Rightarrow> nat list set" where
  "next_ways g y S = {t. \<exists>q s. q # s \<in> S \<and> reads g q y \<and> reach g (Suc q # s) t}"

definition ways :: "grammar \<Rightarrow> nat \<Rightarrow> gsym list \<Rightarrow> nat list set" where
  "ways g r w = fold (next_ways g) w (start_ways g r)"

lemma ways_snoc: "ways g r (w @ [y]) = next_ways g y (ways g r w)"
  by (simp add: ways_def)

lemma next_ways_empty [simp]: "next_ways g y {} = {}"
  by (simp add: next_ways_def)

lemma fold_next_ways_empty [simp]: "fold (next_ways g) w {} = {}"
  by (induction w) auto

lemma reach_reading: "reach g s t \<Longrightarrow> t = [] \<or> reach g t t"
  by (induction rule: reach.induct) (auto intro: reach_accept reach_read)

lemma ways_ok:
  assumes "grammar_wf g"
  shows "t \<in> ways g r w \<Longrightarrow> stack_ok g t"
proof (induction w arbitrary: t rule: rev_induct)
  case Nil
  then show ?case using assms reach_stack_ok [OF _ assms]
    by (fastforce simp: ways_def start_ways_def grammar_wf_def)
next
  case (snoc y w)
  then obtain q s where q: "q # s \<in> ways g r w" "reads g q y" "reach g (Suc q # s) t"
    by (auto simp: ways_snoc next_ways_def)
  have "pos_ok (el g) (Suc q)" "stack_ok g s"
    using snoc.IH [OF q(1)] q(2) by (auto simp: reads_def intro: pos_ok_Suc)
  then show ?case using reach_stack_ok [OF q(3) assms] by simp
qed

lemma derives_starts_reach:
  assumes "grammar_wf g" and "stack_ok g s"
  shows "derives (cprods g) (syms g s) v \<longleftrightarrow>
    (\<exists>t. reach g s t \<and> derives (cprods g) (syms g t) v)"
proof
  assume d: "derives (cprods g) (syms g s) v"
  then have st: "starts g s v" using stack_lang [OF assms] by simp
  show "\<exists>t. reach g s t \<and> derives (cprods g) (syms g t) v"
  proof (cases v)
    case Nil
    then show ?thesis using st by (auto simp: starts_def)
  next
    case (Cons y u)
    then obtain q s' where q: "reach g s (q # s')" "reads g q y"
        "derives (cprods g) (syms g (Suc q # s')) u"
      using st by (auto simp: starts_def)
    have ok: "stack_ok g (q # s')" using reach_stack_ok [OF q(1) assms] .
    moreover have "starts g (q # s') (y # u)"
      using q reach_reading [OF q(1)] by (auto simp: starts_def)
    ultimately have "derives (cprods g) (syms g (q # s')) (y # u)"
      using stack_lang [OF assms(1) ok] by blast
    then show ?thesis using q(1) Cons by blast
  qed
next
  assume "\<exists>t. reach g s t \<and> derives (cprods g) (syms g t) v"
  then show "derives (cprods g) (syms g s) v" using reach_sound [OF _ assms] by blast
qed

lemma derives_reads:
  assumes "pos_ok (el g) q" and "reads g q y" and "stack_ok g s"
  shows "derives (cprods g) (syms g (q # s)) (y # v) \<longleftrightarrow>
    derives (cprods g) (syms g (Suc q # s)) v"
  using assms by (auto simp: rest_step reads_def bset_of_def split: gel.splits)

lemma reach_top:
  "reach g s t \<Longrightarrow> t = q # u \<Longrightarrow> (\<exists>i. el g ! q = GEL_SET i) \<or> (\<exists>k. el g ! q = GEL_TOKEN k)"
  by (induction rule: reach.induct) auto

lemma derives_reads_only:
  assumes "stack_ok g (q # s)" and "reach g s0 (q # s)"
    and "derives (cprods g) (syms g (q # s)) (y # v)"
  shows "reads g q y"
proof -
  have "(\<exists>i. el g ! q = GEL_SET i) \<or> (\<exists>t. el g ! q = GEL_TOKEN t)"
    using reach_top [OF assms(2)] by blast
  then show ?thesis using assms(1,3) by (auto simp: rest_step reads_def bset_of_def)
qed

lemma ways_reached: "t \<in> ways g r w \<Longrightarrow> \<exists>s. reach g s t"
  by (cases w rule: rev_cases) (auto simp: ways_snoc next_ways_def ways_def start_ways_def)

text \<open>A word \<open>w @ v\<close> is in the rule's language when some way after \<open>w\<close> can go on with \<open>v\<close>.\<close>

lemma ways_lang:
  assumes "grammar_wf g"
  shows "w @ v \<in> rule_lang (cprods g) r \<longleftrightarrow>
    (\<exists>t \<in> ways g r w. derives (cprods g) (syms g t) v)"
proof (induction w arbitrary: v rule: rev_induct)
  case Nil
  have ok: "stack_ok g [alt_at g r i]" if "i < rule_n g ! r" "r < gr_rules g" for i
    using assms that by (auto simp: grammar_wf_def)
  have "v \<in> rule_lang (cprods g) r \<longleftrightarrow>
      (\<exists>i. i < rule_n g ! r \<and> r < gr_rules g \<and> derives (cprods g) (syms g [alt_at g r i]) v)"
    by (auto simp: rule_lang_def cprods_def)
  also have "\<dots> \<longleftrightarrow> (\<exists>t \<in> ways g r []. derives (cprods g) (syms g t) v)"
    using derives_starts_reach [OF assms ok, of _ v]
    by (auto simp: ways_def start_ways_def) blast+
  finally show ?case by simp
next
  case (snoc y w)
  have "(w @ [y]) @ v \<in> rule_lang (cprods g) r \<longleftrightarrow>
      (\<exists>t \<in> ways g r w. derives (cprods g) (syms g t) (y # v))"
    using snoc [of "y # v"] by simp
  also have "\<dots> \<longleftrightarrow> (\<exists>t \<in> ways g r (w @ [y]). derives (cprods g) (syms g t) v)"
  proof
    assume "\<exists>t \<in> ways g r w. derives (cprods g) (syms g t) (y # v)"
    then obtain t where t: "t \<in> ways g r w" "derives (cprods g) (syms g t) (y # v)" by blast
    from t(2) obtain q s where q: "t = q # s" by (cases t) auto
    obtain s0 where "reach g s0 (q # s)" using ways_reached [OF t(1)] q by auto
    then have rd: "reads g q y" and ok: "stack_ok g (q # s)"
      using derives_reads_only [of g q s] ways_ok [OF assms t(1)] t(2) q by auto
    have ok': "stack_ok g (Suc q # s)"
      using ok rd by (auto simp: reads_def intro: pos_ok_Suc)
    have "derives (cprods g) (syms g (Suc q # s)) v"
      using derives_reads [OF _ rd, of s v] ok t(2) q by simp
    then obtain t' where "reach g (Suc q # s) t'" "derives (cprods g) (syms g t') v"
      using derives_starts_reach [OF assms ok', of v] by blast
    then show "\<exists>t \<in> ways g r (w @ [y]). derives (cprods g) (syms g t) v"
      using t(1) q rd by (auto simp: ways_snoc next_ways_def)
  next
    assume "\<exists>t \<in> ways g r (w @ [y]). derives (cprods g) (syms g t) v"
    then obtain q s t where q: "q # s \<in> ways g r w" "reads g q y" "reach g (Suc q # s) t"
        "derives (cprods g) (syms g t) v"
      by (auto simp: ways_snoc next_ways_def)
    have ok: "stack_ok g (q # s)" using ways_ok [OF assms q(1)] .
    have ok': "stack_ok g (Suc q # s)"
      using ok q(2) by (auto simp: reads_def intro: pos_ok_Suc)
    have "derives (cprods g) (syms g (Suc q # s)) v"
      using derives_starts_reach [OF assms ok', of v] q(3,4) by blast
    then have "derives (cprods g) (syms g (q # s)) (y # v)"
      using derives_reads [OF _ q(2), of s v] ok by simp
    then show "\<exists>t \<in> ways g r w. derives (cprods g) (syms g t) (y # v)" using q(1) by blast
  qed
  finally show ?case .
qed

corollary ways_accept:
  assumes "grammar_wf g"
  shows "w \<in> rule_lang (cprods g) r \<longleftrightarrow> [] \<in> ways g r w"
proof -
  have "t = []" if t: "t \<in> ways g r w" "derives (cprods g) (syms g t) []" for t
  proof (rule ccontr)
    assume "t \<noteq> []"
    then obtain q s where q: "t = q # s" by (cases t) auto
    obtain s0 where "reach g s0 (q # s)" using ways_reached [OF t(1)] q by auto
    from reach_top [OF this refl] show False
      using ways_ok [OF assms t(1)] t(2) q by (auto simp: rest_step)
  qed
  then show ?thesis using ways_lang [OF assms, of w "[]" r] by force
qed

end
