(* ===== verification/Gram_Accept.thy ===== *)
theory Gram_Accept
  imports Gram_Correct
begin

text \<open>
  A match and its history: after a reset and a number of feeds the current set holds only ways
  that the grammar has after that input, and all of them unless a limit or a refused request
  set the failed flag. From this come what accepting, trying and feeding promise.
\<close>

section \<open>A step finds the next ways\<close>

definition sym_of :: "u8 \<Rightarrow> int \<Rightarrow> gsym" where
  "sym_of c token = (if token \<ge> 0 then Tok token else Byte c)"

lemma reads_el_iff: "reads_el g p c token \<longleftrightarrow> reads g p (sym_of c token)"
  by (auto simp: reads_el_def reads_def sym_of_def split: gel.splits)

lemma mk_finds:
  assumes "mk p par m = (y, m1)" and "gm_inv m" and "set_option par \<subseteq> set (made m)"
    and "ways_in ws m"
  shows "finds (reach (gm_g m) (p # ostack par)) (m, ws)
    (case y of None \<Rightarrow> (m1, ws) | Some z \<Rightarrow> closure d z (m1, ws))"
proof -
  note spec = mk_spec [OF assms(1-3)]
  show ?thesis
  proof (cases y)
    case None
    then show ?thesis using spec assms(4) by (auto intro: finds_failed)
  next
    case (Some z)
    have z: "z \<in> set (made m1)" "stack z = p # ostack par" "grown m m1"
      using spec Some by (auto simp: stack_eq [of z])
    have "finds (reach (gm_g m) (stack z)) (m1, ws) (closure d z (m1, ws))"
      using z(1) grown_inv [OF z(3)] grown_fields [OF z(3)] ways_in_grown [OF assms(4) z(3)]
      by (intro closure_finds(1)) auto
    then show ?thesis using Some finds_grown [OF z(3)] z(2) by simp
  qed
qed

definition way_next :: "grammar \<Rightarrow> gsym \<Rightarrow> way \<Rightarrow> nat list \<Rightarrow> bool" where
  "way_next g y x t \<longleftrightarrow> (\<exists>q s. wstack x = q # s \<and> reads g q y \<and> reach g (Suc q # s) t)"

lemma finds_step_way:
  assumes "gm_inv m" and "ways_in ws m" and "ways_in [x] m"
  shows "finds (way_next (gm_g m) (sym_of c token) x) (m, ws) (step_way c token x (m, ws))"
proof (cases x)
  case ACCEPT
  then show ?thesis using finds_refl [OF assms(1,2)]
    by (auto simp: step_way_def way_next_def elim!: finds_cong)
next
  case (Way n)
  have n: "n \<in> set (made m)" using assms(3) Way by (simp add: ways_in_def)
  have ok: "made_ok (made m)" using assms(1) by (simp add: gm_inv_def)
  have par: "set_option (gpar n) \<subseteq> set (made m)"
    using made_ok_parent [OF ok n] by (cases "gpar n") auto
  show ?thesis
  proof (cases "reads_el (gm_g m) (gpos n) c token")
    case False
    then show ?thesis using finds_refl [OF assms(1,2)] Way
      by (auto simp: step_way_def way_next_def stack_eq [of n] reads_el_iff elim!: finds_cong)
  next
    case True
    obtain y m1 where mk: "mk (gpos n + 1) (gpar n) m = (y, m1)" by force
    have "finds (reach (gm_g m) ((gpos n + 1) # ostack (gpar n))) (m, ws) (step_way c token x (m, ws))"
      using mk_finds [OF mk assms(1) par assms(2), of "Suc MAX_DEPTH"] mk True Way
      by (simp add: step_way_def)
    then show ?thesis
      by (rule finds_cong) (use True Way in \<open>auto simp: way_next_def stack_eq [of n] reads_el_iff\<close>)
  qed
qed

lemma finds_state:
  assumes "finds R (m, ws) (m', ws')"
  shows "grown m m'" "ways_in ws' m'" "gm_inv m'" "gm_g m' = gm_g m"
  using assms grown_inv grown_fields by (auto simp: finds_def)

lemma finds_fold:
  assumes "\<And>x m ws. P x m \<Longrightarrow> gm_g m = g \<Longrightarrow> gm_inv m \<Longrightarrow> ways_in ws m \<Longrightarrow>
      finds (R x) (m, ws) (f x (m, ws))"
    and "\<And>x m m'. P x m \<Longrightarrow> grown m m' \<Longrightarrow> P x m'"
  shows "gm_g m = g \<Longrightarrow> gm_inv m \<Longrightarrow> ways_in ws m \<Longrightarrow> (\<forall>x \<in> set xs. P x m) \<Longrightarrow>
    finds (\<lambda>t. \<exists>x \<in> set xs. R x t) (m, ws) (fold f xs (m, ws))"
proof (induction xs arbitrary: m ws)
  case Nil
  then show ?case using finds_refl by simp
next
  case (Cons x xs)
  obtain m1 ws1 where f: "f x (m, ws) = (m1, ws1)" by force
  have 1: "finds (R x) (m, ws) (m1, ws1)" using assms(1) [of x m ws] Cons f by simp
  have P1: "\<forall>x \<in> set xs. P x m1" using assms(2) [OF _ finds_state(1) [OF 1]] Cons.prems by auto
  obtain m2 ws2 where f2: "fold f xs (m1, ws1) = (m2, ws2)" by force
  have "finds (\<lambda>t. \<exists>x \<in> set xs. R x t) (m1, ws1) (m2, ws2)"
    using Cons.IH [of m1 ws1] finds_state [OF 1] P1 Cons.prems(1) f2 by simp
  from finds_trans [OF 1 this]
  have "finds (\<lambda>t. \<exists>y \<in> set (x # xs). R y t) (m, ws) (m2, ws2)" by (rule finds_cong) simp
  then show ?case using f f2 by simp
qed

lemma step_finds:
  assumes "gm_inv m" and "ways_in ins m"
  shows "finds (\<lambda>t. t \<in> next_ways (gm_g m) (sym_of c token) (wstack ` set ins)) (m, [])
    (step ins c token m)"
proof -
  have "finds (\<lambda>t. \<exists>x \<in> set ins. way_next (gm_g m) (sym_of c token) x t) (m, [])
      (fold (step_way c token) ins (m, []))"
  proof (rule finds_fold [where P = "\<lambda>x. ways_in [x]" and g = "gm_g m"])
    show "finds (way_next (gm_g m) (sym_of c token) x) (m', ws) (step_way c token x (m', ws))"
      if "ways_in [x] m'" "gm_g m' = gm_g m" "gm_inv m'" "ways_in ws m'" for x m' ws
      using finds_step_way [OF that(3,4,1)] that(2) by simp
  qed (use assms in \<open>auto simp: ways_in_def dest: grown_fields\<close>)
  then show ?thesis unfolding step_def
    by (rule finds_cong) (force simp: next_ways_def way_next_def)
qed

section \<open>Running over an input\<close>

definition input :: "bytes \<Rightarrow> int \<Rightarrow> gsym list" where
  "input bs token = (if token \<ge> 0 then [Tok token] else map Byte bs)"

text \<open>\<open>shows_ways m ws S\<close>: the list \<open>ws\<close> stands for the set \<open>S\<close> of stacks.\<close>

definition shows_ways :: "gmatch \<Rightarrow> way list \<Rightarrow> nat list set \<Rightarrow> bool" where
  "shows_ways m ws S \<longleftrightarrow> gm_inv m \<and> ways_in ws m \<and> length ws \<le> MAX_SET \<and>
     wstack ` set ws \<subseteq> S \<and> (\<not> gm_failed m \<longrightarrow> S \<subseteq> wstack ` set ws)"

lemma next_ways_mono: "S \<subseteq> T \<Longrightarrow> next_ways g y S \<subseteq> next_ways g y T"
  by (auto simp: next_ways_def)

lemma step_shows:
  assumes "shows_ways m ins S" and "step ins c token m = (m', ws)"
  shows "grown m m'" "shows_ways m' ws (next_ways (gm_g m) (sym_of c token) S)"
proof -
  note a = assms(1) [unfolded shows_ways_def]
  let ?N = "next_ways (gm_g m) (sym_of c token)"
  have f: "finds (\<lambda>t. t \<in> ?N (wstack ` set ins)) (m, []) (m', ws)"
    using step_finds [of m ins c token] a assms(2) by simp
  then show "grown m m'" by (rule finds_state)
  then have fl: "gm_failed m \<longrightarrow> gm_failed m'" by (simp add: grown_fields)
  have sub: "?N (wstack ` set ins) \<subseteq> ?N S" using a by (intro next_ways_mono) simp
  have "\<not> gm_failed m' \<longrightarrow> ?N S \<subseteq> ?N (wstack ` set ins)"
    using a fl by (auto intro: next_ways_mono [THEN subsetD])
  then show "shows_ways m' ws (?N S)"
    using f sub finds_state [OF f] by (auto simp: shows_ways_def finds_def)
qed

lemma run_bytes_shows:
  "shows_ways m ins S \<Longrightarrow> run_bytes bs (m, ins) = (m', ws) \<Longrightarrow>
     grown m m' \<and> shows_ways m' ws (fold (next_ways (gm_g m)) (map Byte bs) S)"
proof (induction bs "(m, ins)" arbitrary: m ins S rule: run_bytes.induct)
  case (1 m ins)
  then show ?case by (auto simp: shows_ways_def intro: grown_self)
next
  case (2 b bs m ins)
  show ?case
  proof (cases "ins = []")
    case True
    have "fold (next_ways (gm_g m)) xs S = {}" if "\<not> gm_failed m" for xs
      using 2 True that by (auto simp: shows_ways_def)
    then show ?thesis using 2 True by (auto simp: shows_ways_def intro: grown_self)
  next
    case False
    obtain m1 ws1 where st: "step ins b (-1) m = (m1, ws1)" by force
    note s = step_shows [OF "2.prems"(1) st]
    have g: "gm_g m1 = gm_g m" using grown_fields [OF s(1)] by simp
    have "grown m1 m' \<and> shows_ways m' ws
        (fold (next_ways (gm_g m1)) (map Byte bs) (next_ways (gm_g m) (sym_of b (-1)) S))"
      using 2(1) [OF False st s(2)] "2.prems"(2) False st by simp
    then show ?thesis using g grown_trans [OF _ s(1)] by (auto simp: sym_of_def)
  qed
qed

lemma run_shows:
  assumes "shows_ways m (cur m) S" and "run bs token m = (m', ws)"
  shows "grown m m' \<and> shows_ways m' ws (fold (next_ways (gm_g m)) (input bs token) S)"
proof (cases "token \<ge> 0")
  case True
  then show ?thesis using step_shows [OF assms(1), of 0 token m' ws] assms(2)
    by (simp add: run_def input_def sym_of_def)
next
  case False
  then show ?thesis using run_bytes_shows [OF assms(1), of bs m' ws] assms(2)
    by (simp add: run_def input_def)
qed

section \<open>The history of a match\<close>

definition after :: "gmatch \<Rightarrow> gsym list \<Rightarrow> bool" where
  "after m w \<longleftrightarrow> grammar_wf (gm_g m) \<and> shows_ways m (cur m) (ways (gm_g m) (gm_root m) w)"

lemma ways_append: "ways g r (v @ w) = fold (next_ways g) w (ways g r v)"
  by (simp add: ways_def)

lemma gmatch_reset_after:
  assumes "gm_inv m" and "grammar_wf (gm_g m)"
  shows "after (gmatch_reset m) [] \<and> gm_g (gmatch_reset m) = gm_g m \<and>
    gm_root (gmatch_reset m) = gm_root m"
proof -
  let ?g = "gm_g m" and ?r = "gm_root m"
  define m0 where "m0 = (undo (0, 0) m)\<lparr>gm_failed := False, cur := []\<rparr>"
  have m0: "gm_inv m0" "gm_g m0 = ?g" "gm_root m0 = ?r" "cur m0 = []" "\<not> gm_failed m0"
    using undo_all [of m] assms(1) by (auto simp: gm_inv_def m0_def)
  show ?thesis
  proof (cases "?r \<ge> gr_rules ?g")
    case True
    then show ?thesis using m0 assms(2)
      by (auto simp: gmatch_reset_def after_def shows_ways_def m0_def [symmetric] Let_def
          ways_in_def ways_def start_ways_def MAX_SET_def)
  next
    case False
    let ?f = "\<lambda>p (m, ws). case mk p None m of (y, m') \<Rightarrow>
        (case y of None \<Rightarrow> (m', ws) | Some y \<Rightarrow> closure (Suc MAX_DEPTH) y (m', ws))"
    let ?ps = "map (alt_at ?g ?r) [0..<rule_n ?g ! ?r]"
    obtain m' ws where f: "fold ?f ?ps (m0, []) = (m', ws)" by force
    have "finds (\<lambda>t. \<exists>p \<in> set ?ps. reach ?g [p] t) (m0, []) (fold ?f ?ps (m0, []))"
    proof (rule finds_fold [where P = "\<lambda>_ _. True" and g = ?g])
      show "finds (reach ?g [p]) (m1, ws1) (?f p (m1, ws1))"
        if "gm_g m1 = ?g" "gm_inv m1" "ways_in ws1 m1" for p m1 ws1
        using mk_finds [of p None m1 _ _ ws1 "Suc MAX_DEPTH"] that by (auto split: prod.split)
    qed (use m0 in \<open>auto simp: ways_in_def\<close>)
    then have fin: "finds (\<lambda>t. t \<in> start_ways ?g ?r) (m0, []) (m', ws)"
      unfolding f by (rule finds_cong) (use False in \<open>auto simp: start_ways_def\<close>)
    have reset: "gmatch_reset m = m'\<lparr>cur := ws\<rparr>"
      using f False by (simp add: gmatch_reset_def Let_def m0_def)
    show ?thesis
      using fin finds_state [OF fin] grown_fields [OF finds_state(1) [OF fin]] m0 assms(2)
      by (auto simp: reset after_def shows_ways_def finds_def gm_inv_def ways_in_def ways_def)
  qed
qed

lemma gmatch_new_after:
  assumes "gmatch_new g root mem = Some m" and "grammar_wf g"
  shows "after m [] \<and> gm_g m = g \<and> gm_root m = root"
proof -
  obtain mem' where m: "m = gmatch_reset \<lparr>gm_g = g, gm_root = root, bucket = (\<lambda>_. []), chunks = [],
      made = [], n_nodes = 0, cur = [], gm_failed = False, gm_mem = mem'\<rparr>"
    using assms(1) by (auto simp: gmatch_new_def split: prod.splits if_splits)
  show ?thesis unfolding m
    using gmatch_reset_after [of "\<lparr>gm_g = g, gm_root = root, bucket = (\<lambda>_. []), chunks = [],
      made = [], n_nodes = 0, cur = [], gm_failed = False, gm_mem = mem'\<rparr>"] assms(2)
    by (simp add: gm_inv_def)
qed

text \<open>A run and what undoing it leaves.\<close>

lemma after_run:
  assumes "after m w" and "run bs token m = (m', ws)"
  shows "grown m m'" "undo (mark m) m' = m\<lparr>gm_failed := gm_failed m', gm_mem := gm_mem m'\<rparr>"
    "shows_ways m' ws (ways (gm_g m) (gm_root m) (w @ input bs token))"
proof -
  have s: "shows_ways m (cur m) (ways (gm_g m) (gm_root m) w)" using assms(1) by (simp add: after_def)
  from run_shows [OF s assms(2)]
  show g: "grown m m'" and "shows_ways m' ws (ways (gm_g m) (gm_root m) (w @ input bs token))"
    by (auto simp: ways_append)
  show "undo (mark m) m' = m\<lparr>gm_failed := gm_failed m', gm_mem := gm_mem m'\<rparr>"
    using undo_grown [OF g] s by (simp add: shows_ways_def)
qed

lemma gmatch_try_verdict:
  assumes "after m w"
  shows "\<exists>mem. gmatch_try bs token m = (fst (gmatch_feed bs token m) = 0, m\<lparr>gm_mem := mem\<rparr>)"
proof (cases "token < 0 \<and> bs = []")
  case True
  then show ?thesis by (auto simp: gmatch_try_def gmatch_feed_def intro!: exI [of _ "gm_mem m"])
next
  case False
  obtain m' ws where r: "run bs token m = (m', ws)" by force
  show ?thesis using False r after_run(2) [OF assms r]
    by (cases m) (auto simp: gmatch_try_def gmatch_feed_def Let_def)
qed

lemma gmatch_feed_refused:
  assumes "after m w" and "gmatch_feed bs token m = (rc, m')" and "rc \<noteq> 0"
  shows "rc = -1" "cur m' = cur m" "made m' = made m" "bucket m' = bucket m"
    "gm_g m' = gm_g m" "gm_root m' = gm_root m" "after m' w"
proof -
  have "rc = -1 \<and> (\<exists>f mem. (gm_failed m \<longrightarrow> f) \<and> m' = m\<lparr>gm_failed := f, gm_mem := mem\<rparr>)"
  proof (cases "token < 0 \<and> bs = []")
    case True
    then show ?thesis using assms(2)
      by (auto simp: gmatch_feed_def intro!: exI [of _ "gm_failed m"] exI [of _ "gm_mem m"])
  next
    case False
    obtain m1 ws where r: "run bs token m = (m1, ws)" by force
    have "gm_failed m \<longrightarrow> gm_failed m1" using grown_fields [OF after_run(1) [OF assms(1) r]] by simp
    moreover have "rc = -1" "m' = undo (mark m) m1"
      using False r assms(2,3) by (auto simp: gmatch_feed_def Let_def split: if_splits)
    ultimately show ?thesis using after_run(2) [OF assms(1) r] by metis
  qed
  then obtain f mem where rc: "rc = -1" and m': "gm_failed m \<longrightarrow> f" "m' = m\<lparr>gm_failed := f, gm_mem := mem\<rparr>"
    by blast
  show "rc = -1" "cur m' = cur m" "made m' = made m" "bucket m' = bucket m"
    "gm_g m' = gm_g m" "gm_root m' = gm_root m"
    using rc m' by auto
  show "after m' w" using assms(1) m'
    by (auto simp: after_def shows_ways_def gm_inv_def ways_in_def)
qed

lemma gmatch_feed_accepted:
  assumes "after m w" and "gmatch_feed bs token m = (0, m')"
  shows "after m' (w @ input bs token)" "gm_g m' = gm_g m" "gm_root m' = gm_root m"
    "input bs token \<noteq> []" "cur m' \<noteq> []"
proof -
  have ne: "\<not> (token < 0 \<and> bs = [])" using assms(2) by (auto simp: gmatch_feed_def)
  then show "input bs token \<noteq> []" by (auto simp: input_def)
  obtain m1 ws where r: "run bs token m = (m1, ws)" by force
  have m': "m' = m1\<lparr>cur := ws\<rparr>" "ws \<noteq> []"
    using assms(2) r ne by (auto simp: gmatch_feed_def Let_def split: if_splits)
  note run = after_run [OF assms(1) r]
  note f = grown_fields [OF run(1)]
  show "gm_g m' = gm_g m" "gm_root m' = gm_root m" "cur m' \<noteq> []" using m' f by auto
  then show "after m' (w @ input bs token)" using run(3) m' assms(1)
    by (auto simp: after_def shows_ways_def gm_inv_def ways_in_def)
qed

lemma gmatch_feed_failed:
  assumes "after m w" and "gmatch_feed bs token m = (rc, m')" and "gm_failed m"
  shows "gm_failed m'"
proof -
  obtain m1 ws where r: "run bs token m = (m1, ws)" by force
  have "gm_failed m1" using grown_fields [OF after_run(1) [OF assms(1) r]] assms(3) by simp
  moreover from this have "gm_failed (undo (mark m) m1)" using after_run(2) [OF assms(1) r] by simp
  ultimately show ?thesis using assms(2,3) r
    by (auto simp: gmatch_feed_def Let_def split: if_splits)
qed

text \<open>A refusal is right as long as nothing gave out: no word of the rule begins that way.\<close>

lemma gmatch_feed_refused_ways:
  assumes "after m w" and "gmatch_feed bs token m = (rc, m')" and "rc \<noteq> 0"
    and "\<not> gm_failed m'" and "input bs token \<noteq> []"
  shows "ways (gm_g m) (gm_root m) (w @ input bs token) = {}"
proof -
  have ne: "\<not> (token < 0 \<and> bs = [])" using assms(5) by (auto simp: input_def)
  obtain m1 ws where r: "run bs token m = (m1, ws)" by force
  note run = after_run [OF assms(1) r]
  have fd: "ws = []" "m' = undo (mark m) m1"
    using assms(2,3) r ne by (auto simp: gmatch_feed_def Let_def split: if_splits)
  then have "gm_failed m1 = gm_failed m'" using run(2) by simp
  with fd show ?thesis using run(3) assms(4) by (auto simp: shows_ways_def)
qed

lemma gmatch_feed_refusal_right:
  assumes "after m w" and "gmatch_feed bs token m = (rc, m')" and "rc \<noteq> 0"
    and "\<not> gm_failed m'" and "input bs token \<noteq> []"
  shows "w @ input bs token @ v \<notin> rule_lang (cprods (gm_g m)) (gm_root m)"
  using ways_lang [of "gm_g m" "w @ input bs token" v "gm_root m"] assms(1)
    gmatch_feed_refused_ways [OF assms]
  by (auto simp: after_def)

lemma gmatch_accepting_sound:
  assumes "after m w" and "gmatch_accepting m"
  shows "w \<in> rule_lang (cprods (gm_g m)) (gm_root m)"
proof -
  have "[] \<in> wstack ` set (cur m)"
    using assms(2) by (force simp: gmatch_accepting_def list_ex_iff image_iff)
  then show ?thesis using ways_accept [of "gm_g m" w "gm_root m"] assms(1)
    by (auto simp: after_def shows_ways_def)
qed

lemma wstack_Nil: "wstack x = [] \<longleftrightarrow> x = ACCEPT"
  by (cases x) (auto simp: stack_eq)

lemma gmatch_accepting_complete:
  assumes "after m w" and "\<not> gm_failed m" and "w \<in> rule_lang (cprods (gm_g m)) (gm_root m)"
  shows "gmatch_accepting m"
proof -
  have "[] \<in> wstack ` set (cur m)"
    using ways_accept [of "gm_g m" w "gm_root m"] assms by (auto simp: after_def shows_ways_def)
  then show ?thesis by (auto simp: gmatch_accepting_def list_ex_iff) (metis wstack_Nil)
qed

end
