(* ===== verification/Matcher.thy ===== *)
theory Matcher
  imports Gram_Accept
begin

text \<open>
  The interface by which a client follows an input through a matcher: reset, accepting, try and
  feed, with what the client may rely on. \<open>held m w\<close> says that \<open>m\<close> has been fed
  \<open>w\<close> since its last reset. The compiled grammars of \<open>src/llm/gmatch.c\<close> provide it.
\<close>

text \<open>Feeding inputs one after the other, until one is refused.\<close>

fun feed_all :: "(bytes \<Rightarrow> int \<Rightarrow> 'm \<Rightarrow> int \<times> 'm) \<Rightarrow> (bytes \<times> int) list \<Rightarrow> 'm \<Rightarrow> 'm option" where
  "feed_all feed [] m = Some m"
| "feed_all feed ((bs, t) # ins) m =
     (case feed bs t m of (rc, m') \<Rightarrow> if rc = 0 then feed_all feed ins m' else None)"

definition word_of :: "(bytes \<times> int) list \<Rightarrow> gsym list" where
  "word_of ins = concat (map (\<lambda>(bs, t). input bs t) ins)"

lemma word_of_simps [simp]:
  "word_of [] = []" "word_of ((bs, t) # ins) = input bs t @ word_of ins"
  by (simp_all add: word_of_def)

locale matcher =
  fixes reset :: "'m \<Rightarrow> 'm"
    and accepting :: "'m \<Rightarrow> bool"
    and try_in :: "bytes \<Rightarrow> int \<Rightarrow> 'm \<Rightarrow> bool \<times> 'm"
    and feed :: "bytes \<Rightarrow> int \<Rightarrow> 'm \<Rightarrow> int \<times> 'm"
    and lang :: "'m \<Rightarrow> gsym list set"
    and held :: "'m \<Rightarrow> gsym list \<Rightarrow> bool"
    and gave_out :: "'m \<Rightarrow> bool"
  assumes reset_held: "held m w \<Longrightarrow> held (reset m) [] \<and> lang (reset m) = lang m"
    and accepting_sound: "held m w \<Longrightarrow> accepting m \<Longrightarrow> w \<in> lang m"
    and accepting_complete: "held m w \<Longrightarrow> \<not> gave_out m \<Longrightarrow> w \<in> lang m \<Longrightarrow> accepting m"
    and try_held: "held m w \<Longrightarrow> try_in bs t m = (ok, m') \<Longrightarrow>
      held m' w \<and> lang m' = lang m \<and> accepting m' = accepting m \<and> gave_out m' = gave_out m"
    and try_verdict: "held m w \<Longrightarrow> fst (try_in bs t m) \<longleftrightarrow> fst (feed bs t m) = 0"
    and feed_taken: "held m w \<Longrightarrow> feed bs t m = (0, m') \<Longrightarrow>
      held m' (w @ input bs t) \<and> lang m' = lang m \<and> (gave_out m \<longrightarrow> gave_out m')"
    and feed_refused: "held m w \<Longrightarrow> feed bs t m = (rc, m') \<Longrightarrow> rc \<noteq> 0 \<Longrightarrow>
      held m' w \<and> lang m' = lang m \<and> accepting m' = accepting m"
    and feed_right: "held m w \<Longrightarrow> feed bs t m = (rc, m') \<Longrightarrow> rc \<noteq> 0 \<Longrightarrow> \<not> gave_out m' \<Longrightarrow>
      input bs t \<noteq> [] \<Longrightarrow> w @ input bs t @ v \<notin> lang m"
begin

lemma feed_held:
  "held m w \<Longrightarrow> feed bs t m = (rc, m') \<Longrightarrow>
     held m' (if rc = 0 then w @ input bs t else w) \<and> lang m' = lang m"
  using feed_taken [of m w bs t m'] feed_refused [of m w bs t rc m'] by auto

lemma feed_all_held:
  "held m w \<Longrightarrow> feed_all feed ins m = Some m' \<Longrightarrow> held m' (w @ word_of ins) \<and> lang m' = lang m"
proof (induction ins arbitrary: m w)
  case (Cons x ins)
  then show ?case
    by (cases x) (force split: prod.splits if_splits dest: feed_taken)
qed simp

lemma feed_all_accepting:
  assumes "held m []" and "feed_all feed ins m = Some m'" and "\<not> gave_out m'"
  shows "accepting m' \<longleftrightarrow> word_of ins \<in> lang m"
  using feed_all_held [OF assms(1,2)] assms(3) accepting_sound [of m' "word_of ins"]
    accepting_complete [of m' "word_of ins"]
  by auto

lemma feed_all_accepting_sound:
  "held m [] \<Longrightarrow> feed_all feed ins m = Some m' \<Longrightarrow> accepting m' \<Longrightarrow> word_of ins \<in> lang m"
  using feed_all_held [of m "[]" ins m'] accepting_sound [of m' "word_of ins"] by auto

text \<open>What a try allowed, a feed of the same state takes.\<close>

lemma try_then_feed:
  "held m w \<Longrightarrow> try_in bs t m = (True, m1) \<Longrightarrow> fst (feed bs t m) = 0"
  using try_verdict [of m w bs t] by simp

end

text \<open>The compiled grammars: a match held over an input.\<close>

definition match_lang :: "gmatch \<Rightarrow> gsym list set" where
  "match_lang m = rule_lang (cprods (gm_g m)) (gm_root m)"

interpretation gm: matcher gmatch_reset gmatch_accepting gmatch_try gmatch_feed match_lang after gm_failed
proof unfold_locales
  fix m w bs t rc m' ok v
  assume a: "after m w"
  then have inv: "gm_inv m" "grammar_wf (gm_g m)" by (auto simp: after_def shows_ways_def)
  show "after (gmatch_reset m) [] \<and> match_lang (gmatch_reset m) = match_lang m"
    using gmatch_reset_after [OF inv] by (simp add: match_lang_def)
  show "gmatch_accepting m \<Longrightarrow> w \<in> match_lang m"
    using gmatch_accepting_sound [OF a] by (simp add: match_lang_def)
  show "\<not> gm_failed m \<Longrightarrow> w \<in> match_lang m \<Longrightarrow> gmatch_accepting m"
    using gmatch_accepting_complete [OF a] by (simp add: match_lang_def)
  obtain mem where tr: "gmatch_try bs t m = (fst (gmatch_feed bs t m) = 0, m\<lparr>gm_mem := mem\<rparr>)"
    using gmatch_try_verdict [OF a] by blast
  have keep: "after (m\<lparr>gm_mem := mem\<rparr>) w"
    using a by (auto simp: after_def shows_ways_def gm_inv_def ways_in_def)
  show "gmatch_try bs t m = (ok, m') \<Longrightarrow> after m' w \<and> match_lang m' = match_lang m \<and>
      gmatch_accepting m' = gmatch_accepting m \<and> gm_failed m' = gm_failed m"
    using tr keep by (auto simp: match_lang_def gmatch_accepting_def)
  show "fst (gmatch_try bs t m) \<longleftrightarrow> fst (gmatch_feed bs t m) = 0" using tr by simp
  show "gmatch_feed bs t m = (rc, m') \<Longrightarrow> rc \<noteq> 0 \<Longrightarrow> after m' w \<and> match_lang m' = match_lang m \<and>
      gmatch_accepting m' = gmatch_accepting m"
    using gmatch_feed_refused [OF a] by (auto simp: match_lang_def gmatch_accepting_def)
  show "gmatch_feed bs t m = (0, m') \<Longrightarrow> after m' (w @ input bs t) \<and> match_lang m' = match_lang m \<and>
      (gm_failed m \<longrightarrow> gm_failed m')"
    using gmatch_feed_accepted [OF a] gmatch_feed_failed [OF a] by (auto simp: match_lang_def)
  show "gmatch_feed bs t m = (rc, m') \<Longrightarrow> rc \<noteq> 0 \<Longrightarrow> \<not> gm_failed m' \<Longrightarrow> input bs t \<noteq> [] \<Longrightarrow>
      w @ input bs t @ v \<notin> match_lang m"
    using gmatch_feed_refusal_right [OF a] by (simp add: match_lang_def)
qed

end
