(* ===== verification/Gram_Whole.thy ===== *)
theory Gram_Whole
  imports Gram_Grow Matcher
begin

text \<open>
  The grammar engine from the builder to the matcher: what a client gets that builds a grammar
  with the operations of \<open>grammar.h\<close>, compiles it and matches a reply against it.
\<close>

section \<open>Builders as the program makes them\<close>

inductive built :: "gbuild \<Rightarrow> bool" where
  built_new: "gbuild_new m = Some b \<Longrightarrow> built b"
| built_rule: "built b \<Longrightarrow> gb_rule b = (r, b') \<Longrightarrow> built b'"
| built_alt: "built b \<Longrightarrow> r < n_rules b \<Longrightarrow> gb_alt r b = (a, b') \<Longrightarrow> built b'"
| built_set: "built b \<Longrightarrow> built (gb_set a s b)"
| built_byte: "built b \<Longrightarrow> built (gb_byte a c b)"
| built_lit: "built b \<Longrightarrow> built (gb_lit a cs b)"
| built_token: "built b \<Longrightarrow> built (gb_token a t b)"
| built_ref: "built b \<Longrightarrow> built (gb_ref a r b)"
| built_until: "built b \<Longrightarrow> gb_until e b = (r, b') \<Longrightarrow> built b'"
| built_empty: "built b \<Longrightarrow> gb_empty b = (r, b') \<Longrightarrow> built b'"

definition known :: "gbuild \<Rightarrow> bool" where
  "known b \<longleftrightarrow> gb_inv b \<and> rules_known b"

lemma rules_known_appended: "appended a xs b b' \<Longrightarrow> rules_known b \<Longrightarrow> rules_known b'"
  unfolding appended_def rules_known_def all_set_conv_all_nth by (auto simp: nth_list_update)

lemma known_appended: "known b \<Longrightarrow> appended a xs b b' \<Longrightarrow> known b'"
  using rules_known_appended by (auto simp: known_def appended_def)

lemma rules_known_new_alt:
  "aprods b' = aprods b @ [(r, [])] \<Longrightarrow> n_rules b' = n \<Longrightarrow> n_rules b \<le> n \<Longrightarrow> r < n \<Longrightarrow>
     rules_known b \<Longrightarrow> rules_known b'"
  by (fastforce simp: rules_known_def)

lemma known_alt:
  "known b \<Longrightarrow> r < n_rules b \<Longrightarrow> gb_alt r b = (a, b') \<Longrightarrow> \<not> gfailed b' \<Longrightarrow> known b'"
  using gb_alt_refines [of r b a b'] rules_known_new_alt [of b' b r "n_rules b"]
  by (auto simp: known_def)

lemma known_empty:
  assumes "known b" and "gb_empty b = (r, b')" and "\<not> gfailed b'"
  shows "known b'" "\<not> gfailed b"
proof -
  obtain r1 b1 a where 1: "gb_rule b = (r1, b1)" "gb_alt r1 b1 = (a, b')"
    using assms(2) by (cases "gb_rule b"; cases "gb_alt (fst (gb_rule b)) (snd (gb_rule b))")
      (auto simp: gb_empty_def)
  note f = gb_rule_refines [OF 1(1)]
  have "known b1" using assms(1) f by (auto simp: known_def rules_known_def)
  moreover have "r1 < n_rules b1" using f by simp
  ultimately show "known b'" using known_alt [OF _ _ 1(2) assms(3)] by simp
  show "\<not> gfailed b" using gb_alt_refines(1) [OF 1(2) assms(3)] f by simp
qed

lemma gfailed_gb_empty: "gb_empty b = (r, b') \<Longrightarrow> \<not> gfailed b' \<Longrightarrow> \<not> gfailed b"
  by (cases "gb_alt (n_rules b) (b\<lparr>n_rules := Suc (n_rules b)\<rparr>)")
     (auto simp: gb_empty_def gb_rule_def dest!: gb_alt_refines(1))

lemma gfailed_gb_until: "gb_until e b = (r, b') \<Longrightarrow> \<not> gfailed b' \<Longrightarrow> \<not> gfailed b"
proof (rule ccontr)
  assume u: "gb_until e b = (r, b')" "\<not> gfailed b'" "\<not> \<not> gfailed b"
  have st: "gfailed b1 \<Longrightarrow> gfailed (fold (until_state e (kmp_fail e) rs) is b1)" for rs "is" b1
    by (induction "is" arbitrary: b1) (auto intro: gfailed_until_state)
  show False
  proof (cases "e = []")
    case True
    then show False using u gfailed_gb_empty [of b r b'] by (simp add: gb_until_def)
  next
    case False
    obtain ok1 b1 where 1: "gb_request b = (ok1, b1)" by force
    obtain ok2 b2 where 2: "gb_request b1 = (ok2, b2)" by force
    have "gfailed b2" using u(3) gb_requestD [OF 1] gb_requestD [OF 2] by auto
    then show False using u(1,2) 1 2 False st
      by (auto simp: gb_until_def gb_rules_eq split: if_splits)
  qed
qed

lemma built_known: "built b \<Longrightarrow> \<not> gfailed b \<Longrightarrow> known b"
proof (induction rule: built.induct)
  case (built_new m b)
  then show ?case using gbuild_new_inv [of m b] by (auto simp: known_def rules_known_def)
next
  case (built_rule b r b')
  then show ?case using gb_rule_refines [OF built_rule.hyps(2)]
    by (auto simp: known_def rules_known_def)
next
  case (built_alt b r a b')
  then show ?case using gb_alt_refines(1) [OF built_alt.hyps(3)] known_alt by blast
next
  case (built_set b a s)
  then show ?case using gb_set_ok gb_set_appended known_appended by (meson known_def)
next
  case (built_byte b a c)
  then show ?case using gfailed_gb_byte gb_byte_appended known_appended by (meson known_def)
next
  case (built_lit b a cs)
  then show ?case
    using gfailed_fold_gb_byte gb_lit_appended known_appended unfolding gb_lit_def by (meson known_def)
next
  case (built_token b a t)
  then show ?case using push_effect(1) gb_token_appended known_appended unfolding gb_token_def
    by (meson known_def)
next
  case (built_ref b a r)
  then show ?case using push_effect(1) gb_ref_appended known_appended unfolding gb_ref_def
    by (meson known_def)
next
  case (built_until b e r b')
  then have g: "known b" using gfailed_gb_until by blast
  show ?case
  proof (cases "e = []")
    case True
    then have "gb_empty b = (r, b')" using built_until.hyps(2) by (simp add: gb_until_def)
    then show ?thesis using known_empty(1) [OF g] built_until.prems by simp
  next
    case False
    then show ?thesis using gb_until_prods [OF built_until.hyps(2) built_until.prems _ _ False] g
      by (auto simp: known_def)
  qed
next
  case (built_empty b r b')
  then show ?case using gfailed_gb_empty known_empty by blast
qed

lemma built_make:
  assumes "built b" and "grammar_make b mem = Some g"
  shows "grammar_wf g" "cprods g = gprods b"
proof -
  have "\<not> gfailed b" using assms(2) by (auto simp: grammar_make_def split: if_splits)
  then have "gb_inv b" using built_known [OF assms(1)] by (simp add: known_def)
  then show "grammar_wf g" "cprods g = gprods b"
    using grammar_make_wf [OF assms(2)] grammar_make_cprods [OF assms(2)] by auto
qed

text \<open>A match of a grammar as built, fresh from \<open>janas_gmatch_new\<close>.\<close>

lemma built_match:
  assumes "built b" and "grammar_make b mem = Some g" and "gmatch_new g r mem' = Some m"
  shows "after m []" "match_lang m = rule_lang (gprods b) r"
  using built_make [OF assms(1,2)] gmatch_new_after [OF assms(3)] by (auto simp: match_lang_def)

text \<open>As long as every request is granted, \<open>janas_gb_until\<close> does not fail.\<close>

lemma until_byte_granted:
  "roomy b \<Longrightarrow> roomy (fst (until_byte n rule i dest c (b, dn)))"
  using gb_alt_granted [of b "rule ! i"] gb_set_granted push_granted
  by (auto simp: until_byte_def gb_ref_def Let_def split: prod.split)

lemma gb_until_granted:
  assumes "roomy b"
  shows "roomy (snd (gb_until e b))"
proof -
  have st: "roomy b1 \<Longrightarrow> roomy (until_state e (kmp_fail e) rs i b1)" for rs i b1
    unfolding until_state_def
    by (rule fold_invariant_list [where P = "\<lambda>st. roomy (fst st)"])
       (auto intro: until_byte_granted)
  have "roomy b1 \<Longrightarrow> roomy (fold (until_state e (kmp_fail e) rs) is b1)" for rs "is" b1
    by (rule fold_invariant_list) (auto intro: st)
  moreover have "roomy (snd (gb_empty b))"
    using gb_alt_granted [of "b\<lparr>n_rules := Suc (n_rules b)\<rparr>" "n_rules b"] assms
    by (cases "gb_alt (n_rules b) (b\<lparr>n_rules := Suc (n_rules b)\<rparr>)")
       (auto simp: gb_empty_def gb_rule_def roomy_def)
  moreover have "roomy (b\<lparr>n_rules := n\<rparr>)" for n using assms by (simp add: roomy_def)
  ultimately show ?thesis using assms by (auto simp: gb_until_def alloc_simps gb_rules_eq)
qed

section \<open>An example\<close>

text \<open>
  The rule \<open>r: 'a' r | token 7\<close>, its compiled form, a match of it and an input: what the
  properties are applied to.
\<close>

lemmas build_eval = gbuild_new_def gb_rule_def gb_alt_def gb_byte_def gb_token_def gb_ref_def
  push_def add_set_def gb_request_def Let_def

definition demo_build :: gbuild where
  "demo_build =
     (let b = the (gbuild_new []); (r, b) = gb_rule b; (a1, b) = gb_alt r b;
          b = gb_byte a1 0x61 b; b = gb_ref a1 r b; (a2, b) = gb_alt r b in gb_token a2 7 b)"

definition demo_grammar :: grammar where
  "demo_grammar = the (grammar_make demo_build [])"

definition demo_mem :: "u64 option list" where
  "demo_mem = [Some 8192, Some 8192, Some 8192, Some 8192, Some 8192, Some 8192, Some 8192]"

definition demo_match :: gmatch where
  "demo_match = the (gmatch_new demo_grammar 0 demo_mem)"

definition demo_ins :: "(bytes \<times> int) list" where
  "demo_ins = [([0x61], -1), ([], 7)]"

definition demo_end :: gmatch where
  "demo_end = the (feed_all gmatch_feed demo_ins demo_match)"

lemma demo_built: "built demo_build"
proof -
  obtain b where b: "gbuild_new [] = Some b" by (simp add: gbuild_new_def)
  obtain r b1 where 1: "gb_rule b = (r, b1)" by force
  obtain a1 b2 where 2: "gb_alt r b1 = (a1, b2)" by force
  obtain a2 b3 where 3: "gb_alt r (gb_ref a1 r (gb_byte a1 0x61 b2)) = (a2, b3)" by force
  have eq: "demo_build = gb_token a2 7 b3" using b 1 2 3 by (simp add: demo_build_def)
  have b2: "built b2" and r: "r < n_rules b1"
    using built_alt [OF built_rule [OF built_new [OF b] 1] _ 2] 1 by (auto simp: gb_rule_def)
  have "n_rules b2 = n_rules b1" using 2 by (auto simp: gb_alt_def Let_def split: if_splits
        prod.splits dest!: gb_requestD)
  moreover have "n_rules (push a e b) = n_rules b" for a e b
    by (auto simp: push_def Let_def split: if_splits prod.splits dest!: gb_requestD)
  moreover have "n_rules (gb_byte a c b) = n_rules b" for a c b
    by (auto simp: gb_byte_def Let_def add_set_def calculation(2) split: if_splits prod.splits
        dest!: gb_requestD)
  ultimately have "r < n_rules (gb_ref a1 r (gb_byte a1 0x61 b2))" using r by (simp add: gb_ref_def)
  from built_alt [OF built_ref [OF built_byte [OF b2]] this 3]
  show ?thesis unfolding eq by (rule built_token)
qed

lemma demo_grammar_eval:
  "demo_grammar = \<lparr>el = [GEL_SET 0, GEL_RULE 0, GEL_END, GEL_TOKEN 7, GEL_END], alt_pos = [0, 3, 0],
     rule_first = [0], rule_n = [Suc (Suc 0)], gr_rules = 1, gr_sets = [set_add set_clear 97 97]\<rparr>"
  by (simp add: demo_grammar_def demo_build_def build_eval grammar_make_def)

lemma demo_make: "grammar_make demo_build [] = Some demo_grammar"
  by (simp add: demo_grammar_def demo_build_def build_eval grammar_make_def)

lemma gm_mallocs_4:
  "gm_mallocs 4 (a # b # c # d # mem) = (a \<noteq> None \<and> b \<noteq> None \<and> c \<noteq> None \<and> d \<noteq> None, mem)"
  by (simp add: numeral_eq_Suc)

lemmas closure_numeral =
  closure.simps(2) [of "pred_numeral k" "GNode i a p h par hn" for k i a p h par hn,
    folded numeral_eq_Suc]

lemmas match_eval = gmatch_new_def gmatch_reset_def undo.simps mk_def new_node_def add_way_def
  node_hash_def slot_def ptr_def MAX_NODES_def MAX_SET_def CHUNK_def BUCKETS_def alt_at_def
  same_node_def closure.simps(1) closure_alts.simps closure_numeral gm_mallocs_4 MAX_DEPTH_def
  Let_def gmatch_feed_def run_def step_def step_way_def reads_el_def mark_def

lemma demo_new: "gmatch_new demo_grammar 0 demo_mem = Some demo_match"
  by (simp add: demo_match_def demo_mem_def gmatch_new_def gm_mallocs_4)

lemma demo_match_eval:
  "demo_match = \<lparr>gm_g = demo_grammar, gm_root = 0,
     bucket = (\<lambda>_. [])(0 := [GNode 0 8192 0 0 None []], 27948 := [GNode 1 8216 3 3668340012 None []]),
     chunks = [(8192, 2)], made = [GNode 1 8216 3 3668340012 None [], GNode 0 8192 0 0 None []],
     n_nodes = 2, cur = [Way (GNode 0 8192 0 0 None []), Way (GNode 1 8216 3 3668340012 None [])],
     gm_failed = False, gm_mem = [Some 8192]\<rparr>"
  by (simp add: demo_match_def demo_mem_def demo_grammar_eval match_eval)

lemma demo_feed:
  "feed_all gmatch_feed demo_ins demo_match = Some demo_end \<and> gmatch_accepting demo_end \<and>
     \<not> gm_failed demo_end"
  by (simp add: demo_end_def demo_ins_def demo_match_eval demo_grammar_eval match_eval gset_has_add
      gmatch_accepting_def)

lemma demo_until: "\<not> gbuild_failed (snd (gb_until [0x2d, 0x2d] demo_build))"
proof -
  have "roomy demo_build" by (simp add: demo_build_def build_eval roomy_def)
  then show ?thesis using gb_until_granted by (simp add: gbuild_failed_def roomy_def)
qed

section \<open>Properties\<close>

text \<open>
  C1. A match is exact: when the inputs fed to a fresh match were all taken, the match accepts
  only words of the rule's language, and, unless a limit or a refused request made it leave ways
  out, it accepts every one.
\<close>

theorem matcher_exact:
  assumes "built b" and "grammar_make b mem = Some g" and "gmatch_new g r mem' = Some m0"
    and "feed_all gmatch_feed ins m0 = Some m"
  shows "(gmatch_accepting m \<longrightarrow> word_of ins \<in> rule_lang (gprods b) r) \<and>
    (\<not> gm_failed m \<longrightarrow> (gmatch_accepting m \<longleftrightarrow> word_of ins \<in> rule_lang (gprods b) r))"
  using gm.feed_all_accepting [of m0 ins m] gm.feed_all_accepting_sound [of m0 ins m]
    built_match [OF assms(1-3)] assms(4)
  by auto

theorem matcher_exact_witness:
  "word_of demo_ins \<in> rule_lang (gprods demo_build) 0 \<and> gmatch_accepting demo_end"
  using matcher_exact [OF demo_built demo_make demo_new] demo_feed by blast

text \<open>
  C2. A refusal is right: an input that is refused leaves the set of ways, the node store and
  its buckets as they were, and, unless a limit or a refused request got in the way, no word of
  the rule's language begins with what was fed followed by that input.
\<close>

theorem matcher_refusal:
  assumes "built b" and "grammar_make b mem = Some g" and "gmatch_new g r mem' = Some m0"
    and "feed_all gmatch_feed ins m0 = Some m"
    and "gmatch_feed bs t m = (rc, m')" and "rc \<noteq> 0"
  shows "rc = -1 \<and> cur m' = cur m \<and> made m' = made m \<and> bucket m' = bucket m \<and>
    (\<not> gm_failed m' \<and> input bs t \<noteq> [] \<longrightarrow>
       (\<forall>v. word_of ins @ input bs t @ v \<notin> rule_lang (gprods b) r))"
  using gm.feed_all_held [of m0 "[]" ins m] built_match [OF assms(1-3)] assms(4)
    gmatch_feed_refused [OF _ assms(5,6)] gm.feed_right [OF _ assms(5,6)]
  by auto

theorem matcher_refusal_witness:
  "\<forall>v. Byte 0x62 # v \<notin> rule_lang (gprods demo_build) 0"
proof -
  obtain m' where "gmatch_feed [0x62] (-1) demo_match = (-1, m')" "\<not> gm_failed m'"
    by (simp add: demo_match_eval demo_grammar_eval match_eval gset_has_add)
  then show ?thesis
    using matcher_refusal [OF demo_built demo_make demo_new, of "[]" demo_match "[0x62]" "-1" "-1" m']
    by (simp add: input_def)
qed

text \<open>
  C3. Trying an input says what feeding it would do and leaves the match as it was: only the
  allocator has been asked.
\<close>

theorem matcher_try_pure:
  assumes "built b" and "grammar_make b mem = Some g" and "gmatch_new g r mem' = Some m0"
    and "feed_all gmatch_feed ins m0 = Some m"
  shows "\<exists>q. gmatch_try bs t m = (fst (gmatch_feed bs t m) = 0, m\<lparr>gm_mem := q\<rparr>)"
  using gm.feed_all_held [of m0 "[]" ins m] built_match [OF assms(1-3)] assms(4)
    gmatch_try_verdict [of m _ bs t]
  by auto

theorem matcher_try_pure_witness:
  "\<exists>q. gmatch_try [0x61] (-1) demo_match = (True, demo_match\<lparr>gm_mem := q\<rparr>)"
proof -
  have "fst (gmatch_feed [0x61] (-1) demo_match) = 0"
    by (simp add: demo_match_eval demo_grammar_eval match_eval gset_has_add)
  then show ?thesis
    using matcher_try_pure [OF demo_built demo_make demo_new, of "[]" demo_match "[0x61]" "-1"]
    by simp
qed

text \<open>
  C4. \<open>janas_gb_until\<close> makes the rule it documents: the texts that end with the bytes asked for
  and do not contain them before. The automaton of the Knuth-Morris-Pratt search that it writes
  as rules has exactly that language, whatever the ending repeats.
\<close>

theorem until_language:
  assumes "built b" and "gb_until e b = (r, b')" and "\<not> gbuild_failed b'"
  shows "rule_lang (gprods b') r =
    {map Byte x | x. suffix e x \<and> (\<forall>k < length x. \<not> suffix e (take k x))}"
proof -
  have ok: "\<not> gfailed b'" using assms(3) by (simp add: gbuild_failed_def)
  have "known b" using built_known [OF assms(1)] gfailed_gb_until [OF assms(2) ok] by simp
  then show ?thesis using gb_until_lang [OF assms(2) ok] by (simp add: known_def)
qed

theorem until_language_witness:
  "rule_lang (gprods (snd (gb_until [0x2d, 0x2d] demo_build))) (fst (gb_until [0x2d, 0x2d] demo_build)) =
     {map Byte x | x. suffix [0x2d, 0x2d] x \<and> (\<forall>k < length x. \<not> suffix [0x2d, 0x2d] (take k x))}"
  by (rule until_language [OF demo_built prod.collapse [symmetric]]) (rule demo_until)

text \<open>
  C5. Compiling keeps the grammar: the arrays that \<open>janas_grammar_make\<close> lays out hold the
  productions of the builder, and every position of every alternative is closed by an end.
\<close>

theorem compile_refines:
  assumes "built b" and "grammar_make b mem = Some g"
  shows "cprods g = gprods b \<and> grammar_wf g"
  using built_make [OF assms] by simp

theorem compile_refines_witness:
  "cprods demo_grammar = gprods demo_build \<and> grammar_wf demo_grammar"
  by (rule compile_refines [OF demo_built demo_make])

end
