(* ===== verification/Constrain.thy ===== *)
theory Constrain
  imports Gram_Whole
begin

text \<open>
  \<open>src/llm/constrain.c\<close>: what a reply may say, token by token. The constraint follows the
  reply through its parts (reasoning, answer, a call opened in it, done) and holds the answer or
  the call to a rule of a grammar through the matcher interface. The tokenizer is an argument,
  reduced to what this file asks of it. Each of the two matches draws on its own list of the
  allocator's answers.
\<close>

section \<open>State\<close>

record tok_iface =
  tk_n_vocab :: nat
  tk_specials :: "int list"
  tk_decode :: "int \<Rightarrow> bytes"

record cspec =
  sp_g :: "grammar option"
  sp_answer :: nat
  sp_call :: nat
  sp_call_open :: int
  sp_ban_calls :: bool
  sp_thinking :: bool
  sp_think_close :: int
  sp_stop :: "int list"

datatype part = PART_THINK | PART_ANSWER | PART_CALL | PART_DONE

record constraint =
  c_spec :: cspec
  c_tok :: tok_iface
  c_special :: bytes
  c_stop :: "int list"
  c_part :: part
  c_answer :: "gmatch option"
  c_call :: "gmatch option"
  c_broken :: bool

definition NO_RULE :: nat where "NO_RULE = UINT32_MAX"

definition mark_specials :: "int list \<Rightarrow> bytes \<Rightarrow> bytes" where
  "mark_specials ids sp = fold (\<lambda>i. bits_put (nat i)) ids sp"

text \<open>A match for a rule: none when there is no grammar or no rule; \<open>None\<close> when memory ran out.\<close>

definition new_match :: "grammar option \<Rightarrow> nat \<Rightarrow> u64 option list \<Rightarrow> gmatch option option" where
  "new_match g r mem =
     (case g of
        None \<Rightarrow> Some None
      | Some g \<Rightarrow> if r = NO_RULE then Some None
                  else (case gmatch_new g r mem of None \<Rightarrow> None | Some m \<Rightarrow> Some (Some m)))"

definition constraint_new :: "cspec \<Rightarrow> tok_iface \<Rightarrow> mem \<Rightarrow> u64 option list \<Rightarrow> u64 option list
    \<Rightarrow> constraint option" where
  "constraint_new spec tok mem mem_answer mem_call =
     (let (ok0, mem1) = malloc mem in
      if \<not> ok0 then None
      else
      let (ok1, mem2) = malloc mem1; (ok2, mem3) = malloc mem2 in
      if \<not> ok1 \<or> \<not> ok2 then None
      else
      let special = mark_specials (tk_specials tok) (replicate ((tk_n_vocab tok + 7) div 8) 0) in
      case new_match (sp_g spec) (sp_answer spec) mem_answer of
        None \<Rightarrow> None
      | Some answer \<Rightarrow>
          (case new_match (sp_g spec) (sp_call spec) mem_call of
             None \<Rightarrow> None
           | Some call \<Rightarrow>
               Some \<lparr>c_spec = spec, c_tok = tok, c_special = special, c_stop = sp_stop spec,
                     c_part = (if sp_thinking spec \<and> sp_think_close spec \<ge> 0
                               then PART_THINK else PART_ANSWER),
                     c_answer = answer, c_call = call, c_broken = False\<rparr>))"

section \<open>Operations\<close>

definition is_stop :: "constraint \<Rightarrow> int \<Rightarrow> bool" where
  "is_stop c t \<longleftrightarrow> list_ex (\<lambda>s. s = t) (c_stop c)"

definition is_special :: "constraint \<Rightarrow> int \<Rightarrow> bool" where
  "is_special c t = bits_has (c_special c) (nat t)"

definition BUF :: nat where "BUF = 256"

definition fits :: "constraint \<Rightarrow> gmatch \<Rightarrow> int \<Rightarrow> bool \<times> gmatch" where
  "fits c m t =
     (if is_stop c t then (gmatch_accepting m, m)
      else if is_special c t then gmatch_try [] t m
      else let bs = tk_decode (c_tok c) t in
        if length bs \<le> BUF then gmatch_try bs (-1) m else (False, m))"

text \<open>The match goes on with a token: the match after it, and whether the constraint breaks.\<close>

definition feed :: "constraint \<Rightarrow> gmatch \<Rightarrow> int \<Rightarrow> bool \<times> gmatch" where
  "feed c m t =
     (if is_stop c t then (False, m)
      else
      let (rc, m') = (if is_special c t then gmatch_feed [] t m
                      else let bs = tk_decode (c_tok c) t in
                        if length bs \<le> BUF then gmatch_feed bs (-1) m else (-1, m))
      in (rc \<noteq> 0, m'))"

definition constraint_held :: "constraint \<Rightarrow> bool" where
  "constraint_held c \<longleftrightarrow>
     (if c_broken c then False
      else c_part c = PART_ANSWER \<and> c_answer c \<noteq> None \<or> c_part c = PART_CALL)"

definition active :: "constraint \<Rightarrow> bool" where
  "active c \<longleftrightarrow> constraint_held c \<or> c_part c = PART_ANSWER \<and> sp_ban_calls (c_spec c)"

text \<open>
  The source asks the match of a call without a test: a call is only open when there is one
  (\<open>reply_inv\<close> below), so the branch without a match does not occur.
\<close>

definition allows :: "constraint \<Rightarrow> int \<Rightarrow> bool \<times> constraint" where
  "allows c t =
     (if c_broken c then (True, c)
      else case c_part c of
        PART_ANSWER \<Rightarrow>
          (case c_answer c of
             Some m \<Rightarrow> (case fits c m t of (ok, m') \<Rightarrow> (ok, c\<lparr>c_answer := Some m'\<rparr>))
           | None \<Rightarrow> (\<not> (sp_ban_calls (c_spec c) \<and> t = sp_call_open (c_spec c)), c))
      | PART_CALL \<Rightarrow>
          (case c_call c of
             Some m \<Rightarrow> (case fits c m t of (ok, m') \<Rightarrow> (ok, c\<lparr>c_call := Some m'\<rparr>))
           | None \<Rightarrow> (False, c))
      | _ \<Rightarrow> (True, c))"

definition accept :: "constraint \<Rightarrow> int \<Rightarrow> constraint" where
  "accept c t =
     (if c_broken c then c
      else case c_part c of
        PART_THINK \<Rightarrow> if t = sp_think_close (c_spec c) then c\<lparr>c_part := PART_ANSWER\<rparr> else c
      | PART_ANSWER \<Rightarrow>
          (case c_answer c of
             Some m \<Rightarrow>
               if is_stop c t then c\<lparr>c_part := PART_DONE\<rparr>
               else (case feed c m t of (broke, m') \<Rightarrow> c\<lparr>c_answer := Some m', c_broken := broke\<rparr>)
           | None \<Rightarrow>
               (case c_call c of
                  Some m \<Rightarrow>
                    if t = sp_call_open (c_spec c)
                    then c\<lparr>c_call := Some (gmatch_reset m), c_part := PART_CALL\<rparr> else c
                | None \<Rightarrow> c))
      | PART_CALL \<Rightarrow>
          (case c_call c of
             Some m \<Rightarrow>
               (case feed c m t of (broke, m') \<Rightarrow>
                  let c' = c\<lparr>c_call := Some m', c_broken := broke\<rparr> in
                  if \<not> broke \<and> gmatch_accepting m' then c'\<lparr>c_part := PART_ANSWER\<rparr> else c')
           | None \<Rightarrow> c)
      | PART_DONE \<Rightarrow> c)"

section \<open>What a token means to a match\<close>

definition tok_syms :: "constraint \<Rightarrow> int \<Rightarrow> gsym list" where
  "tok_syms c t =
     (if is_stop c t then [] else if is_special c t then [Tok t]
      else map Byte (tk_decode (c_tok c) t))"

definition text_syms :: "constraint \<Rightarrow> int list \<Rightarrow> gsym list" where
  "text_syms c ts = concat (map (tok_syms c) ts)"

lemma text_syms_simps [simp]:
  "text_syms c [] = []" "text_syms c (ts @ [t]) = text_syms c ts @ tok_syms c t"
  by (simp_all add: text_syms_def)

lemma input_simps [simp]: "0 \<le> t \<Longrightarrow> input bs t = [Tok t]" "input bs (-1) = map Byte bs"
  by (simp_all add: input_def)

lemma fits_held:
  assumes "after m w" and "fits c m t = (ok, m')"
  shows "after m' w" "match_lang m' = match_lang m"
    "gmatch_accepting m' = gmatch_accepting m" "gm_failed m' = gm_failed m"
    "is_stop c t \<Longrightarrow> ok = gmatch_accepting m"
  using assms gm.try_held [OF assms(1)] by (auto simp: fits_def Let_def split: if_splits)

lemma token_feed_held:
  assumes "after m w" and "feed c m t = (broke, m')" and "0 \<le> t"
  shows "after m' (if broke then w else w @ tok_syms c t)" "match_lang m' = match_lang m"
proof -
  have "after m' (if broke then w else w @ tok_syms c t) \<and> match_lang m' = match_lang m"
  proof (cases "is_stop c t")
    case True
    then show ?thesis using assms by (auto simp: feed_def tok_syms_def)
  next
    case False
    show ?thesis
    proof (cases "is_special c t")
      case True
      then show ?thesis using False assms(2,3) gm.feed_held [OF assms(1), of "[]" t]
        by (auto simp: feed_def tok_syms_def split: prod.splits if_splits)
    next
      case nsp: False
      show ?thesis
      proof (cases "length (tk_decode (c_tok c) t) \<le> BUF")
        case True
        then show ?thesis
          using False nsp assms(2) gm.feed_held [OF assms(1), of "tk_decode (c_tok c) t" "-1"]
          by (auto simp: feed_def tok_syms_def Let_def split: prod.splits if_splits)
      next
        case big: False
        then show ?thesis using False nsp assms by (auto simp: feed_def Let_def)
      qed
    qed
  qed
  then show "after m' (if broke then w else w @ tok_syms c t)" "match_lang m' = match_lang m"
    by auto
qed

text \<open>A token that fits breaks the constraint only when a limit or the memory gave out.\<close>

lemma fits_then_feed:
  assumes "after m w" and "fits c m t = (True, m1)" and "feed c m1 t = (True, m2)" and "0 \<le> t"
  shows "gm_failed m2"
proof (rule ccontr)
  assume ok: "\<not> gm_failed m2"
  have ns: "\<not> is_stop c t" using assms(3) by (auto simp: feed_def)
  define bs k where "bs = (if is_special c t then [] else tk_decode (c_tok c) t)"
    and "k = (if is_special c t then t else -1)"
  have tr: "gmatch_try bs k m = (True, m1)" and len: "\<not> is_special c t \<Longrightarrow> length bs \<le> BUF"
    using assms(2) ns by (auto simp: fits_def Let_def bs_def k_def split: if_splits)
  obtain rc where fd: "gmatch_feed bs k m1 = (rc, m2)" "rc \<noteq> 0"
    using assms(3) ns len by (auto simp: feed_def Let_def bs_def k_def split: if_splits prod.splits)
  obtain m' where m': "gmatch_feed bs k m = (0, m')"
    using gm.try_then_feed [OF assms(1) tr] by (metis prod.collapse)
  have ne: "input bs k \<noteq> []" and some: "cur m' \<noteq> []" and aft: "after m' (w @ input bs k)"
    using gmatch_feed_accepted [OF assms(1) m'] by auto
  have m1: "after m1 w" "gm_g m1 = gm_g m" "gm_root m1 = gm_root m"
    using fits_held(1) [OF assms(1,2)] gmatch_try_verdict [OF assms(1), of bs k] tr by auto
  have "ways (gm_g m) (gm_root m) (w @ input bs k) \<noteq> {}"
    using aft some gmatch_feed_accepted [OF assms(1) m'] by (auto simp: after_def shows_ways_def)
  moreover have "ways (gm_g m1) (gm_root m1) (w @ input bs k) = {}"
    using gmatch_feed_refused_ways [OF m1(1) fd ok ne] .
  ultimately show False using m1 by simp
qed

section \<open>Replies\<close>

text \<open>
  A reply as the sampler makes it: it asks about any tokens in any order, and takes one only
  after it was allowed.
\<close>

inductive reply :: "constraint \<Rightarrow> int list \<Rightarrow> constraint \<Rightarrow> bool" for c0 where
  reply_start: "reply c0 [] c0"
| reply_ask: "reply c0 ts c \<Longrightarrow> 0 \<le> t \<Longrightarrow> allows c t = (ok, c') \<Longrightarrow> reply c0 ts c'"
| reply_take: "reply c0 ts c \<Longrightarrow> 0 \<le> t \<Longrightarrow> allows c t = (True, c') \<Longrightarrow>
    reply c0 (ts @ [t]) (accept c' t)"

definition same_setup :: "constraint \<Rightarrow> constraint \<Rightarrow> bool" where
  "same_setup c d \<longleftrightarrow> c_spec d = c_spec c \<and> c_tok d = c_tok c \<and> c_special d = c_special c \<and>
     c_stop d = c_stop c"

lemma same_setup_simps:
  assumes "same_setup c d"
  shows "c_spec d = c_spec c" "is_stop d = is_stop c" "is_special d = is_special c"
    "tok_syms d = tok_syms c" "text_syms d = text_syms c"
proof -
  show "c_spec d = c_spec c" "is_stop d = is_stop c" "is_special d = is_special c"
    and ts: "tok_syms d = tok_syms c"
    using assms by (auto simp: same_setup_def is_stop_def is_special_def tok_syms_def fun_eq_iff)
  show "text_syms d = text_syms c" by (simp add: text_syms_def ts fun_eq_iff)
qed

text \<open>The reasoning at the start of a reply: up to the first closing token, when it is expected.\<close>

definition thinks :: "constraint \<Rightarrow> bool" where
  "thinks c \<longleftrightarrow> sp_thinking (c_spec c) \<and> sp_think_close (c_spec c) \<ge> 0"

definition think_ok :: "constraint \<Rightarrow> int list \<Rightarrow> bool" where
  "think_ok c ts \<longleftrightarrow>
     (if thinks c then \<exists>us. ts = us @ [sp_think_close (c_spec c)] \<and> sp_think_close (c_spec c) \<notin> set us
      else ts = [])"

text \<open>A match for a rule of the grammar of the constraint.\<close>

definition matches :: "constraint \<Rightarrow> nat \<Rightarrow> gmatch \<Rightarrow> bool" where
  "matches c r m \<longleftrightarrow>
     match_lang m = rule_lang (cprods (the (sp_g (c_spec c)))) r \<and> (\<exists>w. after m w)"

text \<open>The answer so far, held to a rule by its match; the answer so far, free.\<close>

definition held_answer :: "constraint \<Rightarrow> int list \<Rightarrow> gmatch \<Rightarrow> bool" where
  "held_answer c ts m \<longleftrightarrow>
     (\<exists>us vs. ts = us @ vs \<and> think_ok c us \<and> (\<forall>t \<in> set vs. \<not> is_stop c t) \<and>
        after m (text_syms c vs))"

definition no_call_opened :: "constraint \<Rightarrow> int list \<Rightarrow> bool" where
  "no_call_opened c ts \<longleftrightarrow>
     (\<exists>us vs. ts = us @ vs \<and> think_ok c us \<and>
        (sp_ban_calls (c_spec c) \<longrightarrow> sp_call_open (c_spec c) \<notin> set vs))"

definition held_call :: "constraint \<Rightarrow> int list \<Rightarrow> gmatch \<Rightarrow> bool" where
  "held_call c ts m \<longleftrightarrow>
     (\<exists>us vs. ts = us @ sp_call_open (c_spec c) # vs \<and> after m (text_syms c vs))"

definition held_done :: "constraint \<Rightarrow> int list \<Rightarrow> bool" where
  "held_done c ts \<longleftrightarrow>
     (\<exists>us vs s rest. ts = us @ vs @ s # rest \<and> think_ok c us \<and> is_stop c s \<and>
        (\<forall>t \<in> set vs. \<not> is_stop c t) \<and>
        text_syms c vs \<in> rule_lang (cprods (the (sp_g (c_spec c)))) (sp_answer (c_spec c)))"

definition part_ok :: "constraint \<Rightarrow> int list \<Rightarrow> bool" where
  "part_ok c ts \<longleftrightarrow>
     (case c_part c of
        PART_THINK \<Rightarrow> thinks c \<and> sp_think_close (c_spec c) \<notin> set ts \<and>
          (\<forall>m. c_answer c = Some m \<longrightarrow> after m [])
      | PART_ANSWER \<Rightarrow>
          (case c_answer c of Some m \<Rightarrow> held_answer c ts m | None \<Rightarrow> no_call_opened c ts)
      | PART_CALL \<Rightarrow> c_answer c = None \<and> (\<exists>m. c_call c = Some m \<and> held_call c ts m) \<and>
          no_call_opened c ts \<and> \<not> sp_ban_calls (c_spec c)
      | PART_DONE \<Rightarrow> c_answer c \<noteq> None \<and> held_done c ts)"

definition reply_inv :: "constraint \<Rightarrow> int list \<Rightarrow> bool" where
  "reply_inv c ts \<longleftrightarrow>
     (\<forall>m. c_answer c = Some m \<longrightarrow> matches c (sp_answer (c_spec c)) m) \<and>
     (\<forall>m. c_call c = Some m \<longrightarrow> matches c (sp_call (c_spec c)) m) \<and>
     (\<not> c_broken c \<longrightarrow> part_ok c ts)"

lemma setup_facts:
  assumes "same_setup c d"
  shows "thinks d = thinks c" "think_ok d = think_ok c" "matches d = matches c"
    "held_answer d = held_answer c" "no_call_opened d = no_call_opened c"
    "held_call d = held_call c" "held_done d = held_done c"
proof -
  note s = same_setup_simps [OF assms]
  show th: "thinks d = thinks c" by (simp add: thinks_def s)
  then show tk: "think_ok d = think_ok c" by (simp add: think_ok_def fun_eq_iff s)
  show "matches d = matches c" by (simp add: matches_def fun_eq_iff s)
  show "held_answer d = held_answer c" by (simp add: held_answer_def fun_eq_iff s tk)
  show "no_call_opened d = no_call_opened c" by (simp add: no_call_opened_def fun_eq_iff s tk)
  show "held_call d = held_call c" by (simp add: held_call_def fun_eq_iff s)
  show "held_done d = held_done c" by (simp add: held_done_def fun_eq_iff s tk)
qed

lemma allows_setup: "allows c t = (ok, c') \<Longrightarrow> same_setup c c' \<and> c_part c' = c_part c \<and>
    c_broken c' = c_broken c"
  by (auto simp: allows_def same_setup_def split: if_splits part.splits option.splits prod.splits)

lemma accept_setup: "same_setup c (accept c t)"
  by (auto simp: accept_def same_setup_def Let_def split: part.split option.split prod.split)

lemma fits_matches:
  assumes "matches c r m" and "fits c m t = (ok, m')"
  shows "matches c r m'"
  using assms fits_held [OF _ assms(2)] by (auto simp: matches_def)

lemma feed_matches:
  assumes "matches c r m" and "feed c m t = (broke, m')" and "0 \<le> t"
  shows "matches c r m'"
  using assms(1) token_feed_held [OF _ assms(2,3)] unfolding matches_def by metis

text \<open>Asking changes nothing that the invariant speaks of.\<close>

lemma allows_inv:
  assumes "reply_inv c ts" and "allows c t = (ok, c')"
  shows "reply_inv c' ts"
proof (cases "c_broken c")
  case True
  then show ?thesis using assms by (simp add: allows_def)
next
  case False
  note inv = assms(1) [unfolded reply_inv_def]
  show ?thesis
  proof (cases "c_part c = PART_ANSWER \<and> c_answer c \<noteq> None")
    case True
    then obtain m where m: "c_answer c = Some m" by auto
    obtain m' where m': "fits c m t = (ok, m')" "c' = c\<lparr>c_answer := Some m'\<rparr>"
      using assms(2) False True m by (auto simp: allows_def split: prod.splits)
    have s: "same_setup c (c\<lparr>c_answer := Some m'\<rparr>)" by (simp add: same_setup_def)
    have "held_answer c ts m" using inv False True m by (simp add: part_ok_def)
    then have "held_answer c ts m'"
      unfolding held_answer_def using fits_held(1) [OF _ m'(1)] by blast
    moreover have "matches c (sp_answer (c_spec c)) m'"
      using fits_matches [OF _ m'(1)] inv m by simp
    ultimately show ?thesis using inv True False
      by (simp add: reply_inv_def part_ok_def setup_facts [OF s] m'(2) split: part.split)
  next
    case na: False
    show ?thesis
    proof (cases "c_part c = PART_CALL")
      case True
      then obtain m where m: "c_call c = Some m" "held_call c ts m"
        using inv False by (auto simp: part_ok_def)
      obtain m' where m': "fits c m t = (ok, m')" "c' = c\<lparr>c_call := Some m'\<rparr>"
        using assms(2) False True m by (auto simp: allows_def split: prod.splits)
      have s: "same_setup c (c\<lparr>c_call := Some m'\<rparr>)" by (simp add: same_setup_def)
      have "held_call c ts m'"
        using m(2) fits_held(1) [OF _ m'(1)] unfolding held_call_def by blast
      moreover have "matches c (sp_call (c_spec c)) m'"
        using fits_matches [OF _ m'(1)] inv m by simp
      ultimately show ?thesis using inv True False
        by (simp add: reply_inv_def part_ok_def setup_facts [OF s] m'(2) split: part.split)
    next
      case nc: False
      then have "c' = c" using assms(2) False na
        by (auto simp: allows_def split: part.splits option.splits)
      then show ?thesis using assms(1) by simp
    qed
  qed
qed

lemma think_ok_snoc:
  "thinks c \<Longrightarrow> sp_think_close (c_spec c) \<notin> set ts \<Longrightarrow> think_ok c (ts @ [sp_think_close (c_spec c)])"
  by (auto simp: think_ok_def)

lemma held_answer_snoc:
  assumes "held_answer c ts m" and "feed c m t = (False, m')" and "0 \<le> t" and "\<not> is_stop c t"
  shows "held_answer c (ts @ [t]) m'"
proof -
  obtain us vs where u: "ts = us @ vs" "think_ok c us" "\<forall>t \<in> set vs. \<not> is_stop c t"
      "after m (text_syms c vs)"
    using assms(1) by (auto simp: held_answer_def)
  have "after m' (text_syms c (vs @ [t]))" using token_feed_held(1) [OF u(4) assms(2,3)] by simp
  then show ?thesis unfolding held_answer_def
    by (intro exI [of _ us] exI [of _ "vs @ [t]"]) (use u assms(4) in auto)
qed

lemma held_call_snoc:
  assumes "held_call c ts m" and "feed c m t = (False, m')" and "0 \<le> t"
  shows "held_call c (ts @ [t]) m'"
proof -
  obtain us vs where u: "ts = us @ sp_call_open (c_spec c) # vs" "after m (text_syms c vs)"
    using assms(1) by (auto simp: held_call_def)
  have "after m' (text_syms c (vs @ [t]))" using token_feed_held(1) [OF u(2) assms(2,3)] by simp
  then show ?thesis unfolding held_call_def
    by (intro exI [of _ us] exI [of _ "vs @ [t]"]) (use u in auto)
qed

lemma no_call_opened_snoc:
  "no_call_opened c ts \<Longrightarrow> \<not> (sp_ban_calls (c_spec c) \<and> t = sp_call_open (c_spec c)) \<Longrightarrow>
     no_call_opened c (ts @ [t])"
  unfolding no_call_opened_def by (metis append_assoc rotate1.simps(2) set_rotate1 insertE list.set(2))

lemma held_done_snoc: "held_done c ts \<Longrightarrow> held_done c (ts @ [t])"
  unfolding held_done_def by (metis append_Cons append_assoc)

lemma allowed_stop:
  assumes "allows c0 t = (True, c)" and "c_part c = PART_ANSWER" and "c_answer c = Some m"
    and "\<not> c_broken c" and "is_stop c t"
  shows "gmatch_accepting m"
proof -
  have st: "is_stop c0 t" using assms(5) same_setup_simps(2) [of c0 c] allows_setup [OF assms(1)] by simp
  then show ?thesis using assms(1-4) allows_setup [OF assms(1)]
    by (auto simp: allows_def fits_def split: option.splits prod.splits)
qed

lemma allowed_free:
  assumes "allows c0 t = (True, c)" and "c_part c = PART_ANSWER" and "c_answer c = None"
    and "\<not> c_broken c"
  shows "\<not> (sp_ban_calls (c_spec c) \<and> t = sp_call_open (c_spec c))"
  using assms allows_setup [OF assms(1)]
  by (auto simp: allows_def same_setup_def split: option.splits prod.splits)

lemma held_answer_done:
  assumes "held_answer c ts m" and "matches c (sp_answer (c_spec c)) m" and "is_stop c t"
    and "gmatch_accepting m"
  shows "held_done c (ts @ [t])"
proof -
  obtain us vs where u: "ts = us @ vs" "think_ok c us" "\<forall>t \<in> set vs. \<not> is_stop c t"
      "after m (text_syms c vs)"
    using assms(1) by (auto simp: held_answer_def)
  have "text_syms c vs \<in> match_lang m" using gm.accepting_sound [OF u(4) assms(4)] .
  then show ?thesis unfolding held_done_def
    by (intro exI [of _ us] exI [of _ vs] exI [of _ t] exI [of _ "[]"])
       (use u assms(2,3) in \<open>auto simp: matches_def\<close>)
qed

text \<open>Taking an allowed token keeps the invariant.\<close>

lemma accept_inv:
  assumes "reply_inv c ts" and "0 \<le> t" and "allows c0 t = (True, c)" and "reply_inv c0 ts"
  shows "reply_inv (accept c t) (ts @ [t])"
proof (cases "c_broken c")
  case True
  then show ?thesis using assms(1) by (auto simp: accept_def reply_inv_def)
next
  case False
  note inv = assms(1) [unfolded reply_inv_def]
  have pt: "part_ok c ts" using inv False by simp
  show ?thesis
  proof (cases "c_part c")
    case PART_THINK
    have s: "same_setup c (c\<lparr>c_part := PART_ANSWER\<rparr>)" by (simp add: same_setup_def)
    show ?thesis
    proof (cases "t = sp_think_close (c_spec c)")
      case True
      have tk: "think_ok c (ts @ [t])" using pt PART_THINK think_ok_snoc True
        by (auto simp: part_ok_def)
      have "held_answer c (ts @ [t]) m" if "c_answer c = Some m" for m
        unfolding held_answer_def using tk pt PART_THINK that
        by (intro exI [of _ "ts @ [t]"] exI [of _ "[]"]) (auto simp: part_ok_def)
      moreover have "no_call_opened c (ts @ [t])"
        unfolding no_call_opened_def using tk by (intro exI [of _ "ts @ [t]"] exI [of _ "[]"]) auto
      ultimately show ?thesis using inv True PART_THINK False
        by (auto simp: accept_def reply_inv_def part_ok_def setup_facts [OF s] split: option.split)
    next
      case ne: False
      then show ?thesis using inv False PART_THINK by (auto simp: accept_def reply_inv_def part_ok_def)
    qed
  next
    case PART_ANSWER
    show ?thesis
    proof (cases "c_answer c")
      case (Some m)
      have ha: "held_answer c ts m" using pt PART_ANSWER Some by (simp add: part_ok_def)
      have mt: "matches c (sp_answer (c_spec c)) m" using inv Some by simp
      show ?thesis
      proof (cases "is_stop c t")
        case True
        have s: "same_setup c (c\<lparr>c_part := PART_DONE\<rparr>)" by (simp add: same_setup_def)
        have "gmatch_accepting m"
          using allowed_stop [OF assms(3)] PART_ANSWER Some False True by simp
        then have "held_done c (ts @ [t])"
          using held_answer_done [OF ha mt True] by simp
        then show ?thesis using inv PART_ANSWER Some False True
          by (auto simp: accept_def reply_inv_def part_ok_def setup_facts [OF s])
      next
        case ns: False
        obtain broke m' where f: "feed c m t = (broke, m')" by force
        have s: "same_setup c (c\<lparr>c_answer := Some m', c_broken := b\<rparr>)" for b
          by (simp add: same_setup_def)
        have "matches c (sp_answer (c_spec c)) m'" using feed_matches [OF mt f assms(2)] .
        moreover have "\<not> broke \<Longrightarrow> held_answer c (ts @ [t]) m'"
          using held_answer_snoc [OF ha _ assms(2) ns] f by simp
        ultimately show ?thesis using inv PART_ANSWER Some False ns f
          by (auto simp: accept_def reply_inv_def part_ok_def setup_facts [OF s])
      qed
    next
      case None
      have nc: "no_call_opened c ts" using pt PART_ANSWER None by (simp add: part_ok_def)
      have nb: "\<not> (sp_ban_calls (c_spec c) \<and> t = sp_call_open (c_spec c))"
        using allowed_free [OF assms(3)] PART_ANSWER None False by simp
      note nc' = no_call_opened_snoc [OF nc nb]
      show ?thesis
      proof (cases "c_call c \<noteq> None \<and> t = sp_call_open (c_spec c)")
        case True
        then obtain m where m: "c_call c = Some m" by auto
        have s: "same_setup c (c\<lparr>c_call := Some (gmatch_reset m), c_part := PART_CALL\<rparr>)"
          by (simp add: same_setup_def)
        have mt: "matches c (sp_call (c_spec c)) m" using inv m by simp
        then have "after (gmatch_reset m) []" "match_lang (gmatch_reset m) = match_lang m"
          using gm.reset_held by (auto simp: matches_def)
        moreover from this have "matches c (sp_call (c_spec c)) (gmatch_reset m)"
          using mt by (auto simp: matches_def)
        moreover have "held_call c (ts @ [t]) (gmatch_reset m)"
          unfolding held_call_def using calculation(1) True
          by (intro exI [of _ ts] exI [of _ "[]"]) simp
        ultimately show ?thesis using inv PART_ANSWER None False True m nc' nb
          by (auto simp: accept_def reply_inv_def part_ok_def setup_facts [OF s])
      next
        case nocall: False
        then show ?thesis using inv PART_ANSWER None False nc'
          by (auto simp: accept_def reply_inv_def part_ok_def split: option.splits)
      qed
    qed
  next
    case PART_CALL
    then obtain m where m: "c_call c = Some m" "held_call c ts m" and an: "c_answer c = None"
      and nc: "no_call_opened c ts" and nb: "\<not> sp_ban_calls (c_spec c)"
      using pt by (auto simp: part_ok_def)
    have nc': "no_call_opened c (ts @ [t])" using no_call_opened_snoc [OF nc] nb by simp
    have mt: "matches c (sp_call (c_spec c)) m" using inv m by simp
    obtain broke m' where f: "feed c m t = (broke, m')" by force
    define c' where "c' = c\<lparr>c_call := Some m', c_broken := broke\<rparr>"
    have s: "same_setup c c'" and s2: "same_setup c (c'\<lparr>c_part := PART_ANSWER\<rparr>)"
      by (simp_all add: same_setup_def c'_def)
    have mt': "matches c (sp_call (c_spec c)) m'" using feed_matches [OF mt f assms(2)] .
    have hc: "\<not> broke \<Longrightarrow> held_call c (ts @ [t]) m'"
      using held_call_snoc [OF m(2) _ assms(2)] f by simp
    have fields: "c_part c' = PART_CALL" "c_answer c' = None" "c_call c' = Some m'"
      "c_broken c' = broke" "c_spec c' = c_spec c"
      using PART_CALL an by (simp_all add: c'_def)
    have "accept c t = (if \<not> broke \<and> gmatch_accepting m' then c'\<lparr>c_part := PART_ANSWER\<rparr> else c')"
      using PART_CALL False m f by (simp add: accept_def c'_def Let_def)
    then show ?thesis using inv nc' mt' hc nb
      by (auto simp: reply_inv_def part_ok_def setup_facts [OF s] setup_facts [OF s2] fields)
  next
    case PART_DONE
    then show ?thesis using inv False held_done_snoc by (auto simp: accept_def reply_inv_def part_ok_def)
  qed
qed

lemma reply_inv:
  "reply c0 ts c \<Longrightarrow> reply_inv c0 [] \<Longrightarrow> reply_inv c ts \<and> same_setup c0 c"
proof (induction rule: reply.induct)
  case reply_start
  then show ?case by (simp add: same_setup_def)
next
  case (reply_ask ts c t ok c')
  then show ?case using allows_inv [OF _ reply_ask.hyps(3)] allows_setup [OF reply_ask.hyps(3)]
    by (auto simp: same_setup_def)
next
  case (reply_take ts c t c')
  then have "reply_inv c' ts" "reply_inv c ts" using allows_inv by auto
  then have "reply_inv (accept c' t) (ts @ [t])" using accept_inv reply_take.hyps(2,3) by blast
  then show ?case using reply_take allows_setup [OF reply_take.hyps(3)] accept_setup [of c' t]
    by (auto simp: same_setup_def)
qed

lemma reply_answer_None: "reply c0 ts c \<Longrightarrow> c_answer c = None \<longleftrightarrow> c_answer c0 = None"
proof (induction rule: reply.induct)
  case (reply_ask ts c t ok c')
  then show ?case
    by (auto simp: allows_def split: if_splits part.splits option.splits prod.splits)
next
  case (reply_take ts c t c')
  have "c_answer c' = None \<longleftrightarrow> c_answer c = None"
    using reply_take(3) by (auto simp: allows_def split: if_splits part.splits option.splits prod.splits)
  moreover have "c_answer (accept c' t) = None \<longleftrightarrow> c_answer c' = None"
    by (auto simp: accept_def Let_def split: part.split option.split prod.split)
  ultimately show ?case using reply_take.IH by simp
qed simp

section \<open>The start\<close>

lemma new_match_cases:
  "new_match g r mem = Some x \<Longrightarrow>
     x = None \<and> (g = None \<or> r = NO_RULE) \<or>
     (\<exists>gr m. g = Some gr \<and> r \<noteq> NO_RULE \<and> x = Some m \<and> gmatch_new gr r mem = Some m)"
  by (auto simp: new_match_def split: option.splits if_splits)

lemma new_match_after:
  assumes "new_match g r mem = Some (Some m)" and "\<And>gr. g = Some gr \<Longrightarrow> grammar_wf gr"
  shows "after m []" "match_lang m = rule_lang (cprods (the g)) r"
proof -
  obtain gr where gr: "g = Some gr" "gmatch_new gr r mem = Some m"
    using new_match_cases [OF assms(1)] by auto
  show "after m []" "match_lang m = rule_lang (cprods (the g)) r"
    using gmatch_new_after [OF gr(2) assms(2) [OF gr(1)]] gr(1) by (auto simp: match_lang_def)
qed

lemma constraint_new_inv:
  assumes "constraint_new spec tok mem ma mc = Some c"
    and wf: "\<And>g. sp_g spec = Some g \<Longrightarrow> grammar_wf g"
  shows "reply_inv c []" "c_spec c = spec" "c_tok c = tok" "\<not> c_broken c" "c_stop c = sp_stop spec"
    "c_answer c = None \<longleftrightarrow> sp_g spec = None \<or> sp_answer spec = NO_RULE"
    "c_call c = None \<longleftrightarrow> sp_g spec = None \<or> sp_call spec = NO_RULE"
proof -
  obtain ans cl where n: "new_match (sp_g spec) (sp_answer spec) ma = Some ans"
      "new_match (sp_g spec) (sp_call spec) mc = Some cl"
    and f: "c_spec c = spec" "c_tok c = tok" "c_answer c = ans" "c_call c = cl" "\<not> c_broken c"
      "c_stop c = sp_stop spec"
      "c_part c = (if sp_thinking spec \<and> sp_think_close spec \<ge> 0 then PART_THINK else PART_ANSWER)"
    using assms(1) by (auto simp: constraint_new_def Let_def split: prod.splits if_splits option.splits)
  show "c_spec c = spec" "c_tok c = tok" "\<not> c_broken c" "c_stop c = sp_stop spec" using f by auto
  show "c_answer c = None \<longleftrightarrow> sp_g spec = None \<or> sp_answer spec = NO_RULE"
    "c_call c = None \<longleftrightarrow> sp_g spec = None \<or> sp_call spec = NO_RULE"
    using new_match_cases [OF n(1)] new_match_cases [OF n(2)] f by auto
  have a: "after m [] \<and> matches c (sp_answer spec) m" if "ans = Some m" for m
    using new_match_after [OF _ wf, where mem = ma] n(1) that f(1) by (auto simp: matches_def)
  have b: "matches c (sp_call spec) m" if "cl = Some m" for m
    using new_match_after [OF _ wf, where mem = mc] n(2) that f(1) by (auto simp: matches_def)
  have tk: "think_ok c [] \<longleftrightarrow> \<not> thinks c" by (auto simp: think_ok_def)
  have "part_ok c []"
    using a f by (auto simp: part_ok_def held_answer_def no_call_opened_def tk thinks_def
        split: option.split)
  then show "reply_inv c []" using a b f by (auto simp: reply_inv_def)
qed

text \<open>What a reply gets from its first state, for a constraint over a grammar as built.\<close>

lemma reply_facts:
  assumes "built b" and "grammar_make b m = Some g" and "sp_g spec = Some g"
    and "constraint_new spec tok mem ma mc = Some c0" and "reply c0 ts c"
  shows "reply_inv c ts" "same_setup c0 c" "c_spec c = spec" "c_spec c0 = spec"
    "cprods (the (sp_g spec)) = gprods b"
proof -
  have wf: "grammar_wf g'" if "sp_g spec = Some g'" for g'
    using built_make [OF assms(1,2)] assms(3) that by simp
  note n = constraint_new_inv [OF assms(4) wf]
  from reply_inv [OF assms(5) n(1)] show "reply_inv c ts" and s: "same_setup c0 c" by auto
  show "c_spec c = spec" "c_spec c0 = spec" using s n by (auto simp: same_setup_def)
  show "cprods (the (sp_g spec)) = gprods b" using built_make [OF assms(1,2)] assms(3) by simp
qed

lemma allowed_call_accepting:
  assumes "reply_inv c ts" and "\<not> c_broken c" and "c_part c = PART_CALL" and "0 \<le> t"
    and "allows c t = (True, c1)" and "c_part (accept c1 t) = PART_ANSWER"
    and "\<not> c_broken (accept c1 t)"
  shows "\<exists>us vs. ts @ [t] = us @ sp_call_open (c_spec c) # vs \<and>
    text_syms c vs \<in> rule_lang (cprods (the (sp_g (c_spec c)))) (sp_call (c_spec c))"
proof -
  have s: "same_setup c c1" "c_part c1 = PART_CALL" "\<not> c_broken c1"
    using allows_setup [OF assms(5)] assms(2,3) by auto
  note inv = allows_inv [OF assms(1,5), unfolded reply_inv_def]
  have "part_ok c1 ts" using inv s by simp
  then obtain m where m: "c_call c1 = Some m" "held_call c1 ts m"
    using s by (auto simp: part_ok_def)
  obtain broke m' where f: "feed c1 m t = (broke, m')" by force
  have acc: "\<not> broke" "gmatch_accepting m'"
    using assms(6,7) s m f by (auto simp: accept_def Let_def split: if_splits)
  obtain us vs where u: "ts @ [t] = us @ sp_call_open (c_spec c1) # vs" "after m' (text_syms c1 vs)"
    using held_call_snoc [OF m(2) _ assms(4)] f acc(1) by (auto simp: held_call_def)
  have "matches c1 (sp_call (c_spec c1)) m'" using feed_matches [OF _ f assms(4)] inv m(1) by simp
  then have "text_syms c1 vs \<in> rule_lang (cprods (the (sp_g (c_spec c1)))) (sp_call (c_spec c1))"
    using gm.accepting_sound [OF u(2) acc(2)] by (simp add: matches_def)
  then show ?thesis using u(1) same_setup_simps [OF s(1)] by metis
qed

text \<open>A constraint breaks on an allowed token only where its match left ways out.\<close>

lemma allowed_breaks:
  assumes "reply_inv c ts" and "\<not> c_broken c" and "0 \<le> t"
    and "allows c t = (True, c1)" and "c_broken (accept c1 t)"
  shows "\<exists>m. (c_answer (accept c1 t) = Some m \<or> c_call (accept c1 t) = Some m) \<and> gm_failed m"
proof -
  note s = allows_setup [OF assms(4)]
  have brk: "gm_failed m2"
    if "fits c m t = (True, m1)" "feed c1 m1 t = (True, m2)" "after m w" for m m1 m2 w
  proof -
    have "feed c1 = feed c"
      using s by (auto simp: feed_def is_stop_def is_special_def same_setup_def fun_eq_iff)
    then show ?thesis using fits_then_feed [OF that(3,1) _ assms(3)] that(2) by simp
  qed
  note inv = assms(1) [unfolded reply_inv_def]
  consider "c_part c = PART_ANSWER" "c_answer c \<noteq> None" | "c_part c = PART_CALL" "c_call c \<noteq> None"
    using assms(2,5) s by (auto simp: accept_def split: part.splits option.splits if_splits)
      (use assms(4) in \<open>auto simp: allows_def split: option.splits prod.splits\<close>)
  then show ?thesis
  proof cases
    case 1
    then obtain m where m: "c_answer c = Some m" by auto
    obtain w where w: "after m w" using inv m by (auto simp: matches_def)
    obtain m1 where m1: "fits c m t = (True, m1)" "c1 = c\<lparr>c_answer := Some m1\<rparr>"
      using assms(4,2) 1 m by (auto simp: allows_def split: prod.splits)
    obtain broke m2 where f: "feed c1 m1 t = (broke, m2)" by force
    have "broke" "c_answer (accept c1 t) = Some m2"
      using assms(2,5) 1 m1(2) f by (auto simp: accept_def split: if_splits)
    then show ?thesis using brk [OF m1(1) _ w] f by auto
  next
    case 2
    then obtain m where m: "c_call c = Some m" by auto
    obtain w where w: "after m w" using inv m by (auto simp: matches_def)
    obtain m1 where m1: "fits c m t = (True, m1)" "c1 = c\<lparr>c_call := Some m1\<rparr>"
      using assms(4,2) 2 m by (auto simp: allows_def split: prod.splits)
    obtain broke m2 where f: "feed c1 m1 t = (broke, m2)" by force
    have "broke" "c_call (accept c1 t) = Some m2"
      using assms(2,5) 2 m1(2) f by (auto simp: accept_def Let_def split: if_splits)
    then show ?thesis using brk [OF m1(1) _ w] f by auto
  qed
qed

section \<open>An example\<close>

text \<open>Taking the tokens of a list, as long as each is allowed.\<close>

fun take_tokens :: "int list \<Rightarrow> constraint \<Rightarrow> constraint option" where
  "take_tokens [] c = Some c"
| "take_tokens (t # ts) c =
     (case allows c t of (ok, c') \<Rightarrow> if ok then take_tokens ts (accept c' t) else None)"

lemma reply_take_tokens:
  "reply c0 us c \<Longrightarrow> \<forall>t \<in> set ts. 0 \<le> t \<Longrightarrow> take_tokens ts c = Some c' \<Longrightarrow> reply c0 (us @ ts) c'"
proof (induction ts arbitrary: us c)
  case (Cons t ts)
  obtain c1 where c1: "allows c t = (True, c1)" "take_tokens ts (accept c1 t) = Some c'"
    using Cons.prems(3) by (auto split: prod.splits if_splits)
  have "reply c0 (us @ [t]) (accept c1 t)" using reply_take [OF Cons.prems(1) _ c1(1)] Cons.prems(2) by simp
  from Cons.IH [OF this _ c1(2)] show ?case using Cons.prems(2) by simp
qed simp

definition demo_tok :: tok_iface where
  "demo_tok = \<lparr>tk_n_vocab = 10, tk_specials = [7, 5, 9], tk_decode = (\<lambda>t. if t = 1 then [0x61] else [])\<rparr>"

text \<open>A held answer that token 9 ends; a free answer in which token 5 opens a call; calls forbidden.\<close>

definition demo_spec :: "bool \<Rightarrow> bool \<Rightarrow> cspec" where
  "demo_spec holds ban = \<lparr>sp_g = Some demo_grammar, sp_answer = (if holds then 0 else NO_RULE),
     sp_call = 0, sp_call_open = 5, sp_ban_calls = ban, sp_thinking = False, sp_think_close = -1,
     sp_stop = [9]\<rparr>"

definition demo_constraint :: "bool \<Rightarrow> bool \<Rightarrow> constraint" where
  "demo_constraint holds ban = \<lparr>c_spec = demo_spec holds ban, c_tok = demo_tok,
     c_special = [160, 2], c_stop = [9], c_part = PART_ANSWER,
     c_answer = (if holds then Some demo_match else None), c_call = Some demo_match,
     c_broken = False\<rparr>"

lemma demo_spec_g [simp]: "sp_g (demo_spec holds ban) = Some demo_grammar"
  by (simp add: demo_spec_def)

lemma demo_special: "mark_specials [7, 5, 9] (replicate 2 0) = [160, 2]"
  by (simp add: mark_specials_def bits_put_def numeral_2_eq_2)

lemma demo_constraint_new:
  "constraint_new (demo_spec holds ban) demo_tok [] demo_mem demo_mem =
     Some (demo_constraint holds ban)"
  by (simp add: constraint_new_def new_match_def demo_spec_def demo_new alloc_simps demo_tok_def
      demo_constraint_def demo_special NO_RULE_def UINT32_MAX_def)

lemmas reply_eval = take_tokens.simps allows_def accept_def fits_def feed_def is_stop_def is_special_def
  bits_has_def BUF_def demo_constraint_def demo_tok_def demo_spec_def demo_match_eval demo_grammar_eval
  match_eval gset_has_add gmatch_accepting_def gmatch_try_def NO_RULE_def UINT32_MAX_def

lemma demo_done:
  "\<exists>c. take_tokens [1, 7, 9] (demo_constraint True False) = Some c \<and> \<not> c_broken c \<and>
     c_part c = PART_DONE"
  by (simp add: reply_eval)

lemma demo_call:
  "\<exists>c c1. take_tokens [1, 5] (demo_constraint False False) = Some c \<and> \<not> c_broken c \<and>
     c_part c = PART_CALL \<and> allows c 7 = (True, c1) \<and> \<not> c_broken (accept c1 7) \<and>
     c_part (accept c1 7) = PART_ANSWER"
  by (simp add: reply_eval)

lemma demo_banned:
  "\<exists>c. take_tokens [1, 7] (demo_constraint False True) = Some c \<and> \<not> c_broken c \<and>
     c_part c = PART_ANSWER"
  by (simp add: reply_eval)

lemma demo_allowed:
  "\<exists>c1. allows (demo_constraint True False) 7 = (True, c1) \<and>
     \<not> (\<exists>x. (c_answer (accept c1 7) = Some x \<or> c_call (accept c1 7) = Some x) \<and> gm_failed x)"
  by (auto simp: reply_eval)

section \<open>Properties\<close>

text \<open>
  C6. A held answer that is done is whole: in every reply made of allowed tokens, when the
  constraint has reached its last part without breaking, the tokens after the reasoning up to
  the first stop token are a word of the answer's rule.
\<close>

theorem answer_held:
  assumes "built b" and "grammar_make b m = Some g" and "sp_g spec = Some g"
    and "constraint_new spec tok mem ma mc = Some c0" and "reply c0 ts c"
    and "\<not> c_broken c" and "c_part c = PART_DONE"
  shows "\<exists>us vs s rest. ts = us @ vs @ s # rest \<and> think_ok c0 us \<and> is_stop c0 s \<and>
    (\<forall>t \<in> set vs. \<not> is_stop c0 t) \<and> text_syms c0 vs \<in> rule_lang (gprods b) (sp_answer spec)"
proof -
  note f = reply_facts [OF assms(1-5)]
  have "held_done c ts" using f(1) assms(6,7) by (simp add: reply_inv_def part_ok_def)
  then have "held_done c0 ts" using setup_facts(7) [OF f(2)] by simp
  then show ?thesis unfolding held_done_def f(4,5) .
qed

theorem answer_held_witness:
  "\<exists>us vs s rest. [1, 7, 9] = us @ vs @ s # rest \<and> think_ok (demo_constraint True False) us \<and>
     is_stop (demo_constraint True False) s \<and>
     (\<forall>t \<in> set vs. \<not> is_stop (demo_constraint True False) t) \<and>
     text_syms (demo_constraint True False) vs \<in> rule_lang (gprods demo_build) (sp_answer (demo_spec True False))"
proof -
  obtain c where c: "take_tokens [1, 7, 9] (demo_constraint True False) = Some c" "\<not> c_broken c"
      "c_part c = PART_DONE"
    using demo_done by blast
  from reply_take_tokens [OF reply_start _ c(1)]
  have "reply (demo_constraint True False) [1, 7, 9] c" by simp
  from answer_held [OF demo_built demo_make demo_spec_g demo_constraint_new this c(2,3)]
  show ?thesis .
qed

text \<open>
  C7. A call is whole when it closes: in every reply made of allowed tokens, when a token takes
  the constraint from a call back to the answer, the tokens from the call's opening on, without
  it, are a word of the call's rule.
\<close>

theorem call_held:
  assumes "built b" and "grammar_make b m = Some g" and "sp_g spec = Some g"
    and "constraint_new spec tok mem ma mc = Some c0" and "reply c0 ts c"
    and "\<not> c_broken c" and "c_part c = PART_CALL" and "0 \<le> t" and "allows c t = (True, c1)"
    and "c_part (accept c1 t) = PART_ANSWER" and "\<not> c_broken (accept c1 t)"
  shows "\<exists>us vs. ts @ [t] = us @ sp_call_open spec # vs \<and>
    text_syms c0 vs \<in> rule_lang (gprods b) (sp_call spec)"
proof -
  note f = reply_facts [OF assms(1-5)]
  show ?thesis
    using allowed_call_accepting [OF f(1) assms(6-11)] f same_setup_simps(5) [OF f(2)] by simp
qed

theorem call_held_witness:
  "\<exists>us vs. [1, 5, 7] = us @ 5 # vs \<and>
     text_syms (demo_constraint False False) vs \<in> rule_lang (gprods demo_build) 0"
proof -
  obtain c c1 where c: "take_tokens [1, 5] (demo_constraint False False) = Some c" "\<not> c_broken c"
      "c_part c = PART_CALL" "allows c 7 = (True, c1)" "\<not> c_broken (accept c1 7)"
      "c_part (accept c1 7) = PART_ANSWER"
    using demo_call by blast
  from reply_take_tokens [OF reply_start _ c(1)]
  have "reply (demo_constraint False False) [1, 5] c" by simp
  from call_held [OF demo_built demo_make demo_spec_g demo_constraint_new this c(2,3) _ c(4,6,5)]
  show ?thesis by (simp add: demo_spec_def)
qed

text \<open>
  C8. With calls forbidden no call is ever open, and in a free answer the token that opens one does
  not come after the reasoning. An answer held to a rule does not ask about the ban: there the
  token comes exactly when the rule of the answer lets it.
\<close>

theorem calls_banned:
  assumes "built b" and "grammar_make b m = Some g" and "sp_g spec = Some g"
    and "constraint_new spec tok mem ma mc = Some c0" and "reply c0 ts c"
    and "\<not> c_broken c" and "sp_ban_calls spec"
  shows "c_part c \<noteq> PART_CALL \<and>
    (sp_answer spec = NO_RULE \<and> c_part c = PART_ANSWER \<longrightarrow>
       (\<exists>us vs. ts = us @ vs \<and> think_ok c0 us \<and> sp_call_open spec \<notin> set vs)) \<and>
    (sp_answer spec \<noteq> NO_RULE \<and> c_part c = PART_ANSWER \<longrightarrow>
       (\<exists>a. c_answer c = Some a \<and> fst (allows c (sp_call_open spec)) = fst (fits c a (sp_call_open spec))))"
proof (intro conjI impI)
  note f = reply_facts [OF assms(1-5)]
  have wf: "grammar_wf g'" if "sp_g spec = Some g'" for g'
    using built_make [OF assms(1,2)] assms(3) that by simp
  have po: "part_ok c ts" using f(1) assms(6) by (simp add: reply_inv_def)
  show "c_part c \<noteq> PART_CALL" using po f(3) assms(7) by (auto simp: part_ok_def)
  have an: "c_answer c = None \<longleftrightarrow> sp_answer spec = NO_RULE"
    using constraint_new_inv(6) [OF assms(4) wf] reply_answer_None [OF assms(5)] assms(3) by simp
  show "\<exists>us vs. ts = us @ vs \<and> think_ok c0 us \<and> sp_call_open spec \<notin> set vs"
    if "sp_answer spec = NO_RULE \<and> c_part c = PART_ANSWER"
  proof -
    have "no_call_opened c ts" using po that an by (simp add: part_ok_def)
    then show ?thesis using setup_facts(5) [OF f(2)] f(3,4) assms(7) by (auto simp: no_call_opened_def)
  qed
  show "\<exists>a. c_answer c = Some a \<and> fst (allows c (sp_call_open spec)) = fst (fits c a (sp_call_open spec))"
    if "sp_answer spec \<noteq> NO_RULE \<and> c_part c = PART_ANSWER"
    using that an assms(6) by (auto simp: allows_def split: prod.split)
qed

theorem calls_banned_witness:
  "\<exists>us vs. [1, 7] = us @ vs \<and> think_ok (demo_constraint False True) us \<and> 5 \<notin> set vs"
proof -
  obtain c where c: "take_tokens [1, 7] (demo_constraint False True) = Some c" "\<not> c_broken c"
      "c_part c = PART_ANSWER"
    using demo_banned by blast
  from reply_take_tokens [OF reply_start _ c(1)]
  have "reply (demo_constraint False True) [1, 7] c" by simp
  from calls_banned [OF demo_built demo_make demo_spec_g demo_constraint_new this c(2)] c(3)
  show ?thesis by (simp add: demo_spec_def)
qed

text \<open>
  C9. The constraint holds on: a token that was allowed breaks it only when its match had to
  leave ways out, at a limit or at a refused request.
\<close>

theorem allowed_token_holds:
  assumes "built b" and "grammar_make b m = Some g" and "sp_g spec = Some g"
    and "constraint_new spec tok mem ma mc = Some c0" and "reply c0 ts c"
    and "\<not> c_broken c" and "0 \<le> t" and "allows c t = (True, c1)"
    and "\<forall>x. c_answer (accept c1 t) = Some x \<or> c_call (accept c1 t) = Some x \<longrightarrow> \<not> gm_failed x"
  shows "\<not> c_broken (accept c1 t)"
  using allowed_breaks [OF reply_facts(1) [OF assms(1-5)] assms(6-8)] assms(9) by blast

theorem allowed_token_holds_witness:
  "\<exists>c1. allows (demo_constraint True False) 7 = (True, c1) \<and> \<not> c_broken (accept c1 7)"
proof -
  obtain c1 where c1: "allows (demo_constraint True False) 7 = (True, c1)"
      "\<forall>x. c_answer (accept c1 7) = Some x \<or> c_call (accept c1 7) = Some x \<longrightarrow> \<not> gm_failed x"
    using demo_allowed by blast
  have "\<not> c_broken (demo_constraint True False)" by (simp add: demo_constraint_def)
  from allowed_token_holds [OF demo_built demo_make demo_spec_g demo_constraint_new reply_start
      this _ c1]
  show ?thesis using c1(1) by auto
qed

end
