(* ===== verification/Json.thy ===== *)
theory Json
  imports Prelude
begin

text \<open>
  \<open>src/llm/json.c\<close>: the JSON reader and writer of the library. A \<open>struct janas_json\<close> tree is
  a value of \<open>json\<close>; the list of children is the list of items, and an object's item carries
  its key. The reader's arena is its blocks, each with the bytes used and its capacity, so a
  request of the arena asks the allocator exactly when the source does. Numbers keep their text.
\<close>

section \<open>Values, errors and the reader's state\<close>

datatype json =
    JNull
  | JFalse
  | JTrue
  | JNumber bytes
  | JString bytes
  | JArray "json list"
  | JObject "(bytes \<times> json) list"

text \<open>
  The reasons \<open>bad\<close> is called with, by name; an error is a reason with its byte offset (the
  source prints both), or no document at all for want of memory. The loop over the items of an
  array or object counts down; \<open>JLoop\<close> is its end, which \<open>read_value_total\<close> rules out.
\<close>

datatype why =
    Control_character | Unterminated_string | Out_of_memory | Invalid_u_escape | Invalid_escape
  | Invalid_number | Expected_member_name | Expected_colon | Expected_comma_or_brace
  | Expected_comma_or_bracket | Invalid_value | Nested_too_deeply | Unexpected_end
  | Text_after_value

datatype jerr = JBad why nat | JNoMem | JLoop

record reader =
  r_i :: nat
  r_blocks :: "(nat \<times> nat) list"
  r_mem :: mem

type_synonym 'a jresult = "jerr + 'a \<times> reader"

definition MAX_DEPTH :: nat where "MAX_DEPTH = 128"
definition BLOCK :: nat where "BLOCK = 65536"
definition NODE_SIZE :: nat where "NODE_SIZE = 56"

definition arena_alloc :: "nat \<Rightarrow> reader \<Rightarrow> bool \<times> reader" where
  "arena_alloc n r =
     (let n = (n + 15) div 16 * 16 in
      case r_blocks r of
        (used, cap) # bs \<Rightarrow>
          if cap - used < n then
            (case malloc (r_mem r) of (ok, m) \<Rightarrow>
               if ok then (True, r\<lparr>r_blocks := (n, max n BLOCK) # r_blocks r, r_mem := m\<rparr>)
               else (False, r\<lparr>r_mem := m\<rparr>))
          else (True, r\<lparr>r_blocks := (used + n, cap) # bs\<rparr>)
      | [] \<Rightarrow>
          (case malloc (r_mem r) of (ok, m) \<Rightarrow>
             if ok then (True, r\<lparr>r_blocks := (n, max n BLOCK) # r_blocks r, r_mem := m\<rparr>)
             else (False, r\<lparr>r_mem := m\<rparr>)))"

definition bad :: "why \<Rightarrow> reader \<Rightarrow> 'a jresult" where
  "bad why r = Inl (JBad why (r_i r))"

section \<open>Scanning\<close>

text \<open>The loops \<open>while (i < n && p(s[i])) i++\<close>.\<close>

function span :: "(u8 \<Rightarrow> bool) \<Rightarrow> bytes \<Rightarrow> nat \<Rightarrow> nat" where
  "span p s i = (if i < length s \<and> p (s ! i) then span p s (Suc i) else i)"
  by pat_completeness auto
termination
  by (relation "measure (\<lambda>(p, s, i). length s - i)") auto

declare span.simps [simp del]

definition is_ws :: "u8 \<Rightarrow> bool" where
  "is_ws c \<longleftrightarrow> c = 0x20 \<or> c = 0x09 \<or> c = 0x0a \<or> c = 0x0d"

definition is_digit :: "u8 \<Rightarrow> bool" where
  "is_digit c \<longleftrightarrow> 0x30 \<le> c \<and> c \<le> 0x39"

definition skip_ws :: "bytes \<Rightarrow> reader \<Rightarrow> reader" where
  "skip_ws s r = r\<lparr>r_i := span is_ws s (r_i r)\<rparr>"

definition hex_digit :: "u8 \<Rightarrow> u32" where
  "hex_digit c =
     (if 0x30 \<le> c \<and> c \<le> 0x39 then ucast (c - 0x30)
      else if 0x61 \<le> c \<and> c \<le> 0x66 then ucast (c - 0x61) + 10
      else if 0x41 \<le> c \<and> c \<le> 0x46 then ucast (c - 0x41) + 10
      else 16)"

fun hex4 :: "bytes \<Rightarrow> nat \<Rightarrow> nat \<Rightarrow> u32 \<Rightarrow> u32 option" where
  "hex4 s i 0 v = Some v"
| "hex4 s i (Suc k) v =
     (if hex_digit (s ! i) = 16 then None
      else hex4 s (Suc i) k (push_bit 4 v OR hex_digit (s ! i)))"

definition put_utf8 :: "u32 \<Rightarrow> bytes" where
  "put_utf8 cp =
     (if cp < 0x80 then [ucast cp]
      else if cp < 0x800 then
        [ucast (0xc0 OR drop_bit 6 cp), ucast (0x80 OR (cp AND 0x3f))]
      else if cp < 0x10000 then
        [ucast (0xe0 OR drop_bit 12 cp), ucast (0x80 OR (drop_bit 6 cp AND 0x3f)),
         ucast (0x80 OR (cp AND 0x3f))]
      else
        [ucast (0xf0 OR drop_bit 18 cp), ucast (0x80 OR (drop_bit 12 cp AND 0x3f)),
         ucast (0x80 OR (drop_bit 6 cp AND 0x3f)), ucast (0x80 OR (cp AND 0x3f))])"

section \<open>Strings\<close>

text \<open>The closing quote, or \<open>Inl\<close> the place of a control character.\<close>

function str_end :: "bytes \<Rightarrow> nat \<Rightarrow> nat + nat" where
  "str_end s i =
     (if i < length s \<and> s ! i \<noteq> 0x22 then
        if s ! i < 0x20 then Inl i
        else str_end s (i + (if s ! i = 0x5c then 2 else 1))
      else Inr i)"
  by pat_completeness auto
termination
  by (relation "measure (\<lambda>(s, i). length s - i)") auto

declare str_end.simps [simp del]

text \<open>The escape \<open>\u\<close> with its digits at \<open>i\<close>: the code point and the place after it.\<close>

definition u_escape :: "bytes \<Rightarrow> nat \<Rightarrow> nat \<Rightarrow> (u32 \<times> nat) option" where
  "u_escape s e i =
     (if i + 4 > e then None
      else case hex4 s i 4 0 of
        None \<Rightarrow> None
      | Some cp \<Rightarrow>
          let i = i + 4;
              lo = (if cp \<ge> 0xd800 \<and> cp < 0xdc00 \<and> i + 6 \<le> e \<and> s ! i = 0x5c \<and> s ! (i + 1) = 0x75
                    then hex4 s (i + 2) 4 0 else None)
          in case lo of
               Some lo \<Rightarrow>
                 if lo \<ge> 0xdc00 \<and> lo < 0xe000
                 then Some (0x10000 + push_bit 10 (cp - 0xd800) + (lo - 0xdc00), i + 6)
                 else Some (0xfffd, i)
             | None \<Rightarrow> Some (if cp \<ge> 0xd800 \<and> cp < 0xe000 then 0xfffd else cp, i))"

definition simple_escape :: "u8 \<Rightarrow> u8 option" where
  "simple_escape x =
     (if x = 0x22 \<or> x = 0x5c \<or> x = 0x2f then Some x
      else if x = 0x62 then Some 8
      else if x = 0x66 then Some 12
      else if x = 0x6e then Some 10
      else if x = 0x72 then Some 13
      else if x = 0x74 then Some 9
      else None)"

lemma u_escape_forward: "u_escape s e i = Some (cp, j) \<Longrightarrow> i + 4 \<le> j \<and> j \<le> e"
  by (auto simp: u_escape_def Let_def split: if_splits option.splits)

function str_decode :: "bytes \<Rightarrow> nat \<Rightarrow> nat \<Rightarrow> bytes \<Rightarrow> (why \<times> nat) + bytes" where
  "str_decode s e i w =
     (if i < e then
        if s ! i \<noteq> 0x5c then str_decode s e (i + 1) (w @ [s ! i])
        else case simple_escape (s ! (i + 1)) of
          Some c \<Rightarrow> str_decode s e (i + 2) (w @ [c])
        | None \<Rightarrow>
            if s ! (i + 1) = 0x75 then
              (case u_escape s e (i + 2) of
                 None \<Rightarrow> Inl (Invalid_u_escape, i + 2)
               | Some (cp, j) \<Rightarrow> str_decode s e j (w @ put_utf8 cp))
            else Inl (Invalid_escape, i + 1)
      else Inr w)"
  by pat_completeness auto
termination
  by (relation "measure (\<lambda>(s, e, i, w). e - i)") (auto dest: u_escape_forward)

declare str_decode.simps [simp del]

text \<open>A string whose opening quote is at \<open>r_i r\<close>.\<close>

definition read_string :: "bytes \<Rightarrow> reader \<Rightarrow> bytes jresult" where
  "read_string s r =
     (let start = r_i r + 1; r1 = r\<lparr>r_i := start\<rparr> in
      case str_end s start of
        Inl e \<Rightarrow> bad Control_character (r1\<lparr>r_i := e\<rparr>)
      | Inr e \<Rightarrow>
          if e \<ge> length s then bad Unterminated_string (r1\<lparr>r_i := length s\<rparr>)
          else case arena_alloc (e - start + 1) r1 of (ok, r2) \<Rightarrow>
            if \<not> ok then bad Out_of_memory r2
            else case str_decode s e start [] of
              Inl (why, at) \<Rightarrow> bad why (r2\<lparr>r_i := at\<rparr>)
            | Inr w \<Rightarrow> Inr (w, r2\<lparr>r_i := e + 1\<rparr>))"

section \<open>Numbers and literals\<close>

definition at_char :: "bytes \<Rightarrow> nat \<Rightarrow> u8 \<Rightarrow> bool" where
  "at_char s i c \<longleftrightarrow> i < length s \<and> s ! i = c"

definition at_digit :: "bytes \<Rightarrow> nat \<Rightarrow> bool" where
  "at_digit s i \<longleftrightarrow> i < length s \<and> is_digit (s ! i)"

definition num_int :: "bytes \<Rightarrow> nat \<Rightarrow> nat option" where
  "num_int s i =
     (let i = (if at_char s i 0x2d then i + 1 else i) in
      if at_char s i 0x30 then Some (i + 1)
      else if at_digit s i then Some (span is_digit s i)
      else None)"

definition num_frac :: "bytes \<Rightarrow> nat \<Rightarrow> nat option" where
  "num_frac s i =
     (if at_char s i 0x2e then
        (if at_digit s (i + 1) then Some (span is_digit s (i + 1)) else None)
      else Some i)"

definition num_exp :: "bytes \<Rightarrow> nat \<Rightarrow> nat option" where
  "num_exp s i =
     (if at_char s i 0x65 \<or> at_char s i 0x45 then
        let i = i + 1; i = (if at_char s i 0x2b \<or> at_char s i 0x2d then i + 1 else i) in
        if at_digit s i then Some (span is_digit s i) else None
      else Some i)"

definition number_end :: "bytes \<Rightarrow> nat \<Rightarrow> nat option" where
  "number_end s i =
     (case num_int s i of
        None \<Rightarrow> None
      | Some i \<Rightarrow> (case num_frac s i of None \<Rightarrow> None | Some i \<Rightarrow> num_exp s i))"

definition read_number :: "bytes \<Rightarrow> reader \<Rightarrow> json jresult" where
  "read_number s r =
     (case number_end s (r_i r) of
        None \<Rightarrow> bad Invalid_number r
      | Some e \<Rightarrow>
          (case arena_alloc (e - r_i r + 1) r of (ok, r1) \<Rightarrow>
             if \<not> ok then bad Out_of_memory r1
             else Inr (JNumber (take (e - r_i r) (drop (r_i r) s)), r1\<lparr>r_i := e\<rparr>)))"

definition literal :: "bytes \<Rightarrow> bytes \<Rightarrow> json \<Rightarrow> reader \<Rightarrow> json jresult" where
  "literal s word v r =
     (if take (length word) (drop (r_i r) s) \<noteq> word then bad Invalid_value r
      else Inr (v, r\<lparr>r_i := r_i r + length word\<rparr>))"

section \<open>Values\<close>

text \<open>A member's name and its colon; nothing in an array.\<close>

definition read_key :: "bytes \<Rightarrow> bool \<Rightarrow> reader \<Rightarrow> bytes jresult" where
  "read_key s object r =
     (if \<not> object then Inr ([], r)
      else if \<not> at_char s (r_i r) 0x22 then bad Expected_member_name r
      else case read_string s r of
        Inl e \<Rightarrow> Inl e
      | Inr (key, r1) \<Rightarrow>
          let r2 = skip_ws s r1 in
          if \<not> at_char s (r_i r2) 0x3a then bad Expected_colon r2
          else Inr (key, r2\<lparr>r_i := r_i r2 + 1\<rparr>))"

definition items_of :: "bool \<Rightarrow> (bytes \<times> json) list \<Rightarrow> json" where
  "items_of object its = (if object then JObject its else JArray (map snd its))"

text \<open>
  \<open>read_value s left\<close> reads a value at depth \<open>MAX_DEPTH - left\<close>. The loop over items is
  \<open>read_rest\<close>, with the items read so far; it counts down from the length of the text.
\<close>

function read_value :: "bytes \<Rightarrow> nat \<Rightarrow> reader \<Rightarrow> json jresult"
  and read_items :: "bytes \<Rightarrow> nat \<Rightarrow> bool \<Rightarrow> reader \<Rightarrow> json jresult"
  and read_rest :: "bytes \<Rightarrow> nat \<Rightarrow> bool \<Rightarrow> nat \<Rightarrow> (bytes \<times> json) list \<Rightarrow> reader \<Rightarrow> json jresult" where
  "read_value s 0 r = bad Nested_too_deeply r"
| "read_value s (Suc left) r =
     (let r = skip_ws s r in
      if r_i r \<ge> length s then bad Unexpected_end r
      else
        let c = s ! r_i r in
        if c = 0x7b then read_items s left True r
        else if c = 0x5b then read_items s left False r
        else if c = 0x22 then
          (case read_string s r of Inl e \<Rightarrow> Inl e | Inr (w, r') \<Rightarrow> Inr (JString w, r'))
        else if c = 0x74 then literal s (lit ''true'') JTrue r
        else if c = 0x66 then literal s (lit ''false'') JFalse r
        else if c = 0x6e then literal s (lit ''null'') JNull r
        else read_number s r)"
| "read_items s left object r =
     (let close = (if object then 0x7d else 0x5d); r1 = skip_ws s (r\<lparr>r_i := r_i r + 1\<rparr>) in
      if at_char s (r_i r1) close then Inr (items_of object [], r1\<lparr>r_i := r_i r1 + 1\<rparr>)
      else read_rest s left object (length s) [] r1)"
| "read_rest s left object 0 its r = Inl JLoop"
| "read_rest s left object (Suc k) its r =
     (let close = (if object then 0x7d else 0x5d) in
      case arena_alloc NODE_SIZE r of (ok, r) \<Rightarrow>
        if \<not> ok then bad Out_of_memory r
        else case read_key s object (skip_ws s r) of
          Inl e \<Rightarrow> Inl e
        | Inr (key, r) \<Rightarrow>
            (case read_value s left r of
               Inl e \<Rightarrow> Inl e
             | Inr (v, r) \<Rightarrow>
                 let r = skip_ws s r; its = its @ [(key, v)] in
                 if at_char s (r_i r) 0x2c then
                   read_rest s left object k its (r\<lparr>r_i := r_i r + 1\<rparr>)
                 else if at_char s (r_i r) close then
                   Inr (items_of object its, r\<lparr>r_i := r_i r + 1\<rparr>)
                 else bad (if object then Expected_comma_or_brace else Expected_comma_or_bracket) r))"
  by pat_completeness auto
termination
  by (relation "measures
        [\<lambda>x. case x of Inl (s, left, r) \<Rightarrow> 2 * left
                     | Inr (Inl (s, left, ob, r)) \<Rightarrow> 2 * left + 1
                     | Inr (Inr (s, left, ob, k, its, r)) \<Rightarrow> 2 * left + 1,
         \<lambda>x. case x of Inl _ \<Rightarrow> 0
                     | Inr (Inl (s, left, ob, r)) \<Rightarrow> length s + 1
                     | Inr (Inr (s, left, ob, k, its, r)) \<Rightarrow> k]") auto

definition json_parse :: "mem \<Rightarrow> bytes \<Rightarrow> jerr + json" where
  "json_parse m s =
     (case malloc m of (ok, m) \<Rightarrow>
        if \<not> ok then Inl JNoMem
        else
          let r0 = \<lparr>r_i = 0, r_blocks = [], r_mem = m\<rparr> in
          case arena_alloc NODE_SIZE r0 of (ok, r) \<Rightarrow>
            if \<not> ok then Inl (JBad Out_of_memory 0)
            else case read_value s MAX_DEPTH r of
              Inl e \<Rightarrow> Inl e
            | Inr (v, r) \<Rightarrow>
                let r = skip_ws s r in
                if r_i r \<noteq> length s then Inl (JBad Text_after_value (r_i r))
                else Inr v)"

section \<open>Looking into values\<close>

definition json_get :: "json \<Rightarrow> bytes \<Rightarrow> json option" where
  "json_get v key =
     (case v of JObject ms \<Rightarrow> map_option snd (find (\<lambda>(k, _). k = key) ms) | _ \<Rightarrow> None)"

definition json_str :: "json option \<Rightarrow> bytes option" where
  "json_str v = (case v of Some (JString s) \<Rightarrow> Some s | _ \<Rightarrow> None)"

definition json_is :: "json option \<Rightarrow> bytes \<Rightarrow> bool" where
  "json_is v s = (case v of Some (JString t) \<Rightarrow> t = s | _ \<Rightarrow> False)"

section \<open>The buffer and the writer\<close>

record buf =
  b_p :: bytes
  b_cap :: nat
  b_oom :: bool
  b_mem :: mem

definition buf_put :: "bytes \<Rightarrow> buf \<Rightarrow> buf" where
  "buf_put s b =
     (if b_oom b then b
      else if length (b_p b) + length s + 1 > b_cap b then
        (case malloc (b_mem b) of (ok, m) \<Rightarrow>
           if \<not> ok then b\<lparr>b_mem := m, b_oom := True\<rparr>
           else b\<lparr>b_p := b_p b @ s, b_cap := 2 * (length (b_p b) + length s) + 256, b_mem := m\<rparr>)
      else b\<lparr>b_p := b_p b @ s\<rparr>)"

text \<open>\<open>vsnprintf\<close> is the C library's; its text is an argument, \<open>None\<close> when it fails.\<close>

definition buf_printf :: "bytes option \<Rightarrow> buf \<Rightarrow> buf" where
  "buf_printf txt b =
     (case txt of
        None \<Rightarrow> b\<lparr>b_oom := True\<rparr>
      | Some t \<Rightarrow>
          if length t < 512 then buf_put t b
          else (case malloc (b_mem b) of (ok, m) \<Rightarrow>
                  if \<not> ok then b\<lparr>b_mem := m, b_oom := True\<rparr> else buf_put t (b\<lparr>b_mem := m\<rparr>)))"

definition hex_char :: "u8 \<Rightarrow> u8" where
  "hex_char d = (if d < 10 then 0x30 + d else 0x57 + d)"

text \<open>The escape of a byte, if it has one; \<open>\u%04x\<close> for the other control characters.\<close>

definition escape :: "u8 \<Rightarrow> bytes option" where
  "escape c =
     (if c = 0x22 then Some [0x5c, 0x22]
      else if c = 0x5c then Some [0x5c, 0x5c]
      else if c = 0x0a then Some [0x5c, 0x6e]
      else if c = 0x0d then Some [0x5c, 0x72]
      else if c = 0x09 then Some [0x5c, 0x74]
      else if c = 0x08 then Some [0x5c, 0x62]
      else if c = 0x0c then Some [0x5c, 0x66]
      else if c < 0x20 then
        Some [0x5c, 0x75, 0x30, 0x30, hex_char (drop_bit 4 c), hex_char (c AND 0x0f)]
      else None)"

text \<open>The loop over the bytes, with \<open>run\<close> the start of the bytes to copy as they are.\<close>

definition write_str_step :: "bytes \<Rightarrow> nat \<Rightarrow> buf \<times> nat \<Rightarrow> buf \<times> nat" where
  "write_str_step s i st =
     (case st of (b, run) \<Rightarrow>
        case escape (s ! i) of
          None \<Rightarrow> (b, run)
        | Some e \<Rightarrow> (buf_put e (buf_put (take (i - run) (drop run s)) b), i + 1))"

definition json_write_str :: "bytes \<Rightarrow> buf \<Rightarrow> buf" where
  "json_write_str s b =
     (case fold (write_str_step s) [0..<length s] (buf_put [0x22] b, 0) of (b, run) \<Rightarrow>
        buf_put [0x22] (buf_put (drop run s) b))"

fun write_value :: "json \<Rightarrow> buf \<Rightarrow> buf"
  and write_items :: "bool \<Rightarrow> json list \<Rightarrow> buf \<Rightarrow> buf"
  and write_members :: "bool \<Rightarrow> (bytes \<times> json) list \<Rightarrow> buf \<Rightarrow> buf" where
  "write_value JNull b = buf_put (lit ''null'') b"
| "write_value JFalse b = buf_put (lit ''false'') b"
| "write_value JTrue b = buf_put (lit ''true'') b"
| "write_value (JNumber t) b = buf_put t b"
| "write_value (JString t) b = json_write_str t b"
| "write_value (JArray vs) b = buf_put [0x5d] (write_items True vs (buf_put [0x5b] b))"
| "write_value (JObject ms) b = buf_put [0x7d] (write_members True ms (buf_put [0x7b] b))"
| "write_items first [] b = b"
| "write_items first (v # vs) b =
     write_items False vs (write_value v (if first then b else buf_put [0x2c, 0x20] b))"
| "write_members first [] b = b"
| "write_members first ((k, v) # ms) b =
     write_members False ms (write_value v (buf_put [0x3a, 0x20]
       (json_write_str k (if first then b else buf_put [0x2c, 0x20] b))))"

definition json_write :: "json \<Rightarrow> buf \<Rightarrow> buf" where
  "json_write v b = write_value v b"

end
