(* ===== verification/Json_Proofs.thy ===== *)
theory Json_Proofs
  imports Json
begin

text \<open>
  What the JSON reader and writer promise: the reader always ends with a value or an error at a
  place within the text, its strings fit the space it asks for, what the writer writes is read
  back as the same value, and what the reader returns is of the kind the writer round-trips.
\<close>

section \<open>Text at a place\<close>

text \<open>\<open>drop i s\<close> is the text from the place \<open>i\<close> on.\<close>

lemma drop_ConsD: "drop i s = x # xs \<Longrightarrow> i < length s \<and> s ! i = x \<and> drop (Suc i) s = xs"
  by (metis Cons_nth_drop_Suc drop_all leI list.distinct(1) list.inject)

lemma drop_appendD: "drop i s = xs @ ys \<Longrightarrow> i \<le> length s \<or> xs @ ys = []"
  by (cases "i \<le> length s") auto

lemma drop_append_next: "drop i s = xs @ ys \<Longrightarrow> drop (i + length xs) s = ys"
  by (metis add.commute append_eq_conv_conj drop_drop)

lemma drop_nth: "drop i s = xs \<Longrightarrow> k < length xs \<Longrightarrow> i + k < length s \<and> s ! (i + k) = xs ! k"
  by auto

lemma at_char_drop: "drop i s = xs \<Longrightarrow> at_char s i c \<longleftrightarrow> (xs \<noteq> [] \<and> hd xs = c)"
  by (auto simp: at_char_def hd_drop_conv_nth)

lemma at_char_shift: "at_char s (i + k) c \<longleftrightarrow> at_char (drop i s) k c"
  by (cases "i + k < length s") (auto simp: at_char_def)

lemma at_digit_shift: "at_digit s (i + k) \<longleftrightarrow> at_digit (drop i s) k"
  by (cases "i + k < length s") (auto simp: at_digit_def)

lemma span_le: "i \<le> length s \<Longrightarrow> i \<le> span p s i \<and> span p s i \<le> length s"
proof (induction p s i rule: span.induct)
  case (1 p s i)
  then show ?case by (cases "i < length s \<and> p (s ! i)") (auto simp: span.simps [of p s i])
qed

lemma span_ge: "i \<le> span p s i"
proof (induction p s i rule: span.induct)
  case (1 p s i)
  then show ?case by (cases "i < length s \<and> p (s ! i)") (auto simp: span.simps [of p s i])
qed

lemma span_stop: "\<not> (i < length s \<and> p (s ! i)) \<Longrightarrow> span p s i = i"
  by (subst span.simps) auto

lemma span_step: "i < length s \<Longrightarrow> p (s ! i) \<Longrightarrow> span p s i = span p s (Suc i)"
  by (subst span.simps) auto

lemma span_end: "span p s i < length s \<Longrightarrow> \<not> p (s ! span p s i)"
proof (induction p s i rule: span.induct)
  case (1 p s i)
  then show ?case by (cases "i < length s \<and> p (s ! i)") (auto simp: span.simps [of p s i])
qed

lemma span_shift: "span p s (i + k) = i + span p (drop i s) k"
proof (induction p "drop i s" k rule: span.induct)
  case (1 p k)
  show ?case
  proof (cases "i + k < length s \<and> p (s ! (i + k))")
    case True
    then show ?thesis using 1 span.simps [of p s "i + k"] span.simps [of p "drop i s" k] by auto
  next
    case False
    then have "\<not> (k < length (drop i s) \<and> p (drop i s ! k))" by auto
    then show ?thesis using False span_stop [of "i + k" s p] span_stop [of k "drop i s" p] by simp
  qed
qed

lemma skip_ws_simps [simp]:
  "r_i (skip_ws s r) = span is_ws s (r_i r)" "r_mem (skip_ws s r) = r_mem r"
  by (simp_all add: skip_ws_def)

lemma span_ws_idem [simp]: "span is_ws s (span is_ws s i) = span is_ws s i"
  using span_end [of is_ws s i] by (intro span_stop) auto

section \<open>The arena\<close>

lemma arena_alloc_i: "arena_alloc n r = (ok, r') \<Longrightarrow> r_i r' = r_i r"
  by (auto simp: arena_alloc_def Let_def split: list.splits prod.splits if_splits)

lemma arena_granted:
  "r_mem r = [] \<Longrightarrow> \<exists>r'. arena_alloc n r = (True, r') \<and> r_i r' = r_i r \<and> r_mem r' = []"
  by (auto simp: arena_alloc_def Let_def split: list.splits prod.splits)

text \<open>No block gives out more than it has.\<close>

definition arena_ok :: "reader \<Rightarrow> bool" where
  "arena_ok r \<longleftrightarrow> (\<forall>(used, cap) \<in> set (r_blocks r). used \<le> cap)"

lemma arena_alloc_ok: "arena_ok r \<Longrightarrow> arena_alloc n r = (ok, r') \<Longrightarrow> arena_ok r'"
  by (auto simp: arena_alloc_def arena_ok_def Let_def split: list.splits prod.splits if_splits)

section \<open>Strings: bounds\<close>

lemma str_end_bounds:
  "i \<le> length s \<Longrightarrow> case str_end s i of Inl e \<Rightarrow> i \<le> e \<and> e < length s
     | Inr e \<Rightarrow> i \<le> e \<and> (e < length s \<longrightarrow> s ! e = 0x22)"
proof (induction s i rule: str_end.induct)
  case (1 s i)
  show ?case
  proof (cases "i < length s \<and> s ! i \<noteq> 0x22 \<and> \<not> s ! i < 0x20")
    case True
    let ?j = "i + (if s ! i = 0x5c then 2 else 1)"
    have eq: "str_end s i = str_end s ?j" using True by (simp add: str_end.simps [of s i])
    show ?thesis
    proof (cases "?j \<le> length s")
      case le: True
      then show ?thesis unfolding eq using "1.IH" True by (auto split: sum.splits)
    next
      case False
      then have "str_end s ?j = Inr ?j" by (simp add: str_end.simps [of s ?j])
      then show ?thesis unfolding eq using False by auto
    qed
  next
    case False
    then show ?thesis by (auto simp: str_end.simps [of s i])
  qed
qed

lemma length_put_utf8: "length (put_utf8 cp) \<le> 4" "cp < 0x10000 \<Longrightarrow> length (put_utf8 cp) \<le> 3"
  by (auto simp: put_utf8_def)

lemma u_escape_length: "u_escape s e i = Some (cp, j) \<Longrightarrow> length (put_utf8 cp) \<le> j - i"
  using u_escape_forward [of s e i cp j] length_put_utf8(1) [of cp] by linarith

text \<open>Decoding never makes a string longer.\<close>

lemma str_decode_length: "str_decode s e i w = Inr d \<Longrightarrow> length d \<le> length w + (e - i)"
proof (induction s e i w rule: str_decode.induct)
  case (1 s e i w)
  show ?case
  proof (cases "i < e \<and> s ! i = 0x5c")
    case False
    then show ?thesis using 1 by (auto simp: str_decode.simps [of s e i w] split: if_splits)
  next
    case esc: True
    show ?thesis
    proof (cases "simple_escape (s ! (i + 1))")
      case (Some c)
      then show ?thesis using 1 esc by (auto simp: str_decode.simps [of s e i w])
    next
      case None
      then obtain cp j where u: "u_escape s e (i + 2) = Some (cp, j)" "s ! (i + 1) = 0x75"
        using 1(4) esc by (auto simp: str_decode.simps [of s e i w] split: if_splits option.splits)
      then have "length d \<le> length (w @ put_utf8 cp) + (e - j)"
        using 1 esc None by (auto simp: str_decode.simps [of s e i w])
      then show ?thesis using u_escape_length [OF u(1)] u_escape_forward [OF u(1)] esc by auto
    qed
  qed
qed

text \<open>An error of the decoder is within the string.\<close>

lemma str_decode_error: "str_decode s e i w = Inl (why, k) \<Longrightarrow> k \<le> Suc e"
proof (induction s e i w rule: str_decode.induct)
  case (1 s e i w)
  show ?case
  proof (cases "i < e \<and> s ! i = 0x5c")
    case False
    then show ?thesis using 1 by (auto simp: str_decode.simps [of s e i w] split: if_splits)
  next
    case esc: True
    show ?thesis
    proof (cases "simple_escape (s ! (i + 1))")
      case (Some c)
      then show ?thesis using 1 esc by (auto simp: str_decode.simps [of s e i w])
    next
      case None
      show ?thesis
      proof (cases "s ! (i + 1) = 0x75 \<and> u_escape s e (i + 2) \<noteq> None")
        case True
        then obtain cp j where u: "u_escape s e (i + 2) = Some (cp, j)" by auto
        then show ?thesis using 1 esc None True by (auto simp: str_decode.simps [of s e i w])
      next
        case False
        then show ?thesis using 1(4) esc None
          by (auto simp: str_decode.simps [of s e i w] split: if_splits option.splits)
      qed
    qed
  qed
qed

section \<open>The reader ends\<close>

text \<open>
  A step of the reader that starts at \<open>i\<close>: it fails at a place within the text, or it goes on
  by at least one byte and stays within it.
\<close>

definition within :: "bytes \<Rightarrow> jerr \<Rightarrow> bool" where
  "within s e \<longleftrightarrow> (case e of JBad _ k \<Rightarrow> k \<le> length s | _ \<Rightarrow> False)"

definition reads_on :: "bytes \<Rightarrow> nat \<Rightarrow> 'a jresult \<Rightarrow> bool" where
  "reads_on s i res \<longleftrightarrow>
     (case res of
        Inl e \<Rightarrow> within s e
      | Inr (_, r') \<Rightarrow> i < r_i r' \<and> r_i r' \<le> length s)"

lemma reads_on_bad [simp]: "reads_on s i (bad why r) \<longleftrightarrow> r_i r \<le> length s"
  by (simp add: reads_on_def bad_def within_def)

lemma reads_on_Inl [simp]: "reads_on s i (Inl e) \<longleftrightarrow> within s e"
  by (simp add: reads_on_def)

lemma reads_on_Inr [simp]: "reads_on s i (Inr (v, r)) \<longleftrightarrow> i < r_i r \<and> r_i r \<le> length s"
  by (simp add: reads_on_def)

lemma read_string_reads_on:
  assumes "r_i r < length s"
  shows "reads_on s (r_i r) (read_string s r)"
proof -
  let ?i = "r_i r + 1"
  have b: "case str_end s ?i of Inl e \<Rightarrow> ?i \<le> e \<and> e < length s
     | Inr e \<Rightarrow> ?i \<le> e \<and> (e < length s \<longrightarrow> s ! e = 0x22)"
    using str_end_bounds [of ?i s] assms by simp
  show ?thesis
  proof (cases "str_end s ?i")
    case (Inl e)
    then show ?thesis using b by (simp add: read_string_def Let_def)
  next
    case (Inr e)
    obtain ok r2 where a: "arena_alloc (e - ?i + 1) (r\<lparr>r_i := ?i\<rparr>) = (ok, r2)" by force
    have "r_i r2 = ?i" using arena_alloc_i [OF a] by simp
    then show ?thesis using b Inr a assms str_decode_error [of s e ?i "[]"]
      by (auto simp: read_string_def Let_def split: sum.split)
  qed
qed

lemma num_int_bounds: "num_int s i = Some e \<Longrightarrow> i < e \<and> e \<le> length s"
  using span_le [of "Suc i" s is_digit] span_le [of "Suc (Suc i)" s is_digit]
    span_step [of i s is_digit] span_step [of "Suc i" s is_digit]
  by (auto simp: num_int_def at_char_def at_digit_def Let_def split: if_splits)

lemma num_frac_bounds: "num_frac s i = Some e \<Longrightarrow> i \<le> length s \<Longrightarrow> i \<le> e \<and> e \<le> length s"
  using span_le [of "Suc i" s is_digit]
  by (auto simp: num_frac_def at_char_def at_digit_def split: if_splits)

lemma num_exp_bounds: "num_exp s i = Some e \<Longrightarrow> i \<le> length s \<Longrightarrow> i \<le> e \<and> e \<le> length s"
  using span_le [of "Suc i" s is_digit] span_le [of "Suc (Suc i)" s is_digit]
  by (auto simp: num_exp_def at_char_def at_digit_def Let_def split: if_splits)

lemma number_end_bounds: "number_end s i = Some e \<Longrightarrow> i < e \<and> e \<le> length s"
  by (fastforce simp: number_end_def split: option.splits
      dest!: num_int_bounds dest: num_frac_bounds num_exp_bounds)

lemma read_number_reads_on:
  "r_i r \<le> length s \<Longrightarrow> reads_on s (r_i r) (read_number s r)"
  using number_end_bounds [of s "r_i r"] arena_alloc_i
  by (fastforce simp: read_number_def split: option.splits prod.splits)

lemma literal_reads_on:
  "r_i r < length s \<Longrightarrow> w \<noteq> [] \<Longrightarrow> reads_on s (r_i r) (literal s w v r)"
proof -
  assume a: "r_i r < length s" "w \<noteq> []"
  have "r_i r + length w \<le> length s" if "take (length w) (drop (r_i r) s) = w"
    using arg_cong [OF that, of length] a by auto
  then show ?thesis using a by (auto simp: literal_def)
qed

lemma read_key_reads_on:
  assumes "r_i r \<le> length s"
  shows "case read_key s object r of Inr (k, r') \<Rightarrow> r_i r \<le> r_i r' \<and> r_i r' \<le> length s
    | Inl e \<Rightarrow> within s e"
proof (cases "object \<and> at_char s (r_i r) 0x22")
  case True
  then have "reads_on s (r_i r) (read_string s r)"
    using read_string_reads_on by (simp add: at_char_def)
  then show ?thesis using True span_le [of _ s is_ws]
    by (fastforce simp: read_key_def Let_def at_char_def reads_on_def within_def bad_def split: sum.splits)
next
  case False
  then show ?thesis using assms by (auto simp: read_key_def bad_def within_def)
qed

lemma read_value_total:
  "r_i r \<le> length s \<Longrightarrow> reads_on s (r_i r) (read_value s left r)"
  "r_i r < length s \<Longrightarrow> reads_on s (r_i r) (read_items s left object r)"
  "r_i r \<le> length s \<Longrightarrow> length s - r_i r < k \<Longrightarrow>
     reads_on s (r_i r) (read_rest s left object k its r)"
proof (induction s left r and s left object r and s left object k its r
    rule: read_value_read_items_read_rest.induct)
  case (1 s r)
  then show ?case by simp
next
  case (2 s left r)
  define r1 where "r1 = skip_ws s r"
  have i: "r_i r \<le> r_i r1" "r_i r1 \<le> length s" using span_le [OF 2(3)] by (auto simp: r1_def)
  have trans: "reads_on s (r_i r1) x \<Longrightarrow> reads_on s (r_i r) x" for x :: "json jresult"
    using i by (auto simp: reads_on_def split: sum.splits)
  show ?case
  proof (cases "r_i r1 < length s")
    case False
    then show ?thesis using i by (simp add: r1_def [symmetric] Let_def)
  next
    case lt: True
    have "reads_on s (r_i r1) (read_value s (Suc left) r)"
    proof (cases "s ! r_i r1 = 0x7b \<or> s ! r_i r1 = 0x5b")
      case True
      then show ?thesis using 2 lt by (auto simp: r1_def [symmetric] Let_def)
    next
      case False
      then show ?thesis
        using lt i read_string_reads_on [OF lt] literal_reads_on [OF lt] read_number_reads_on
        by (auto simp: r1_def [symmetric] Let_def lit_def
            split: sum.split)
    qed
    then show ?thesis by (rule trans)
  qed
next
  case (3 s left object r)
  define r1 where "r1 = skip_ws s (r\<lparr>r_i := r_i r + 1\<rparr>)"
  have i: "r_i r < r_i r1" "r_i r1 \<le> length s"
    using span_le [of "r_i r + 1" s is_ws] 3(2) by (auto simp: r1_def)
  have "reads_on s (r_i r1) (read_rest s left object (length s) [] r1)"
    if "\<not> at_char s (r_i r1) (if object then 0x7d else 0x5d)"
    using 3(1) [OF refl r1_def that] i by simp
  then have "reads_on s (r_i r) (read_rest s left object (length s) [] r1)"
    if "\<not> at_char s (r_i r1) (if object then 0x7d else 0x5d)"
    using that i by (auto simp: reads_on_def split: sum.splits)
  moreover have "read_items s left object r =
      (if at_char s (r_i r1) (if object then 0x7d else 0x5d)
       then Inr (items_of object [], r1\<lparr>r_i := r_i r1 + 1\<rparr>)
       else read_rest s left object (length s) [] r1)"
    by (simp add: r1_def Let_def)
  ultimately show ?case using i by (auto simp: at_char_def split del: if_split split: if_split)
next
  case (4 s left object its r)
  then show ?case by simp
next
  case (5 s left object k its r)
  obtain ok r1 where a: "arena_alloc NODE_SIZE r = (ok, r1)" by force
  have i1: "r_i r1 = r_i r" using arena_alloc_i [OF a] .
  show ?case
  proof (cases ok)
    case False
    then show ?thesis using a i1 5 by simp
  next
    case ok: True
    let ?r2 = "skip_ws s r1"
    have i2: "r_i r \<le> r_i ?r2" "r_i ?r2 \<le> length s" using span_le [OF 5(3)] i1 by auto
    note key = read_key_reads_on [OF i2(2), of object]
    show ?thesis
    proof (cases "read_key s object ?r2")
      case (Inl e)
      then show ?thesis using a ok key by simp
    next
      case (Inr kr)
      then obtain ky r3 where kr: "read_key s object ?r2 = Inr (ky, r3)" by (cases kr) auto
      have i3: "r_i r \<le> r_i r3" "r_i r3 \<le> length s" using key kr i2 by auto
      have v: "reads_on s (r_i r3) (read_value s left r3)"
        using 5(1) [OF refl a [symmetric] _ kr refl i3(2)] ok by simp
      show ?thesis
      proof (cases "read_value s left r3")
        case (Inl e)
        then show ?thesis using a ok kr v by simp
      next
        case (Inr vr)
        then obtain x r4 where vr: "read_value s left r3 = Inr (x, r4)" by (cases vr) auto
        define r5 where "r5 = skip_ws s r4"
        have i5: "r_i r < r_i r5" "r_i r5 \<le> length s"
          using v vr i3 span_le [of "r_i r4" s is_ws] by (auto simp: r5_def)
        have "reads_on s (Suc (r_i r5)) (read_rest s left object k (its @ [(ky, x)]) (r5\<lparr>r_i := r_i r5 + 1\<rparr>))"
          if "at_char s (r_i r5) 0x2c"
          using 5(2) [OF refl a [symmetric] _ kr refl vr refl r5_def refl that] ok i5 5(4) that
          by (auto simp: at_char_def)
        then have "reads_on s (r_i r) (read_rest s left object k (its @ [(ky, x)]) (r5\<lparr>r_i := r_i r5 + 1\<rparr>))"
          if "at_char s (r_i r5) 0x2c"
          using that i5 by (fastforce simp: reads_on_def split: sum.splits)
        moreover have "read_rest s left object (Suc k) its r =
            (if at_char s (r_i r5) 0x2c
             then read_rest s left object k (its @ [(ky, x)]) (r5\<lparr>r_i := r_i r5 + 1\<rparr>)
             else if at_char s (r_i r5) (if object then 0x7d else 0x5d)
             then Inr (items_of object (its @ [(ky, x)]), r5\<lparr>r_i := r_i r5 + 1\<rparr>)
             else bad (if object then Expected_comma_or_brace else Expected_comma_or_bracket) r5)"
          using a ok kr vr by (simp add: r5_def Let_def)
        ultimately show ?thesis using i5 by (auto simp: at_char_def)
      qed
    qed
  qed
qed

lemma json_parse_error:
  assumes "json_parse m s = Inl e"
  shows "e = JNoMem \<or> (\<exists>why k. e = JBad why k \<and> k \<le> length s)"
proof -
  have w: "within s e' \<Longrightarrow> \<exists>why k. e' = JBad why k \<and> k \<le> length s" for e'
    by (cases e') (auto simp: within_def)
  have "reads_on s 0 (read_value s MAX_DEPTH r)" if "r_i r = 0" for r
    using read_value_total(1) [of r s MAX_DEPTH] that by simp
  then have *: "reads_on s 0 (read_value s MAX_DEPTH r)"
    if "arena_alloc NODE_SIZE \<lparr>r_i = 0, r_blocks = [], r_mem = m'\<rparr> = (ok, r)" for m' ok r
    using arena_alloc_i [OF that] by simp
  obtain ok m' where m: "malloc m = (ok, m')" by force
  obtain ok2 r where a: "arena_alloc NODE_SIZE \<lparr>r_i = 0, r_blocks = [], r_mem = m'\<rparr> = (ok2, r)"
    by force
  show ?thesis
  proof (cases "ok \<and> ok2")
    case False
    then show ?thesis using assms m a by (auto simp: json_parse_def Let_def split: if_splits)
  next
    case True
    show ?thesis
    proof (cases "read_value s MAX_DEPTH r")
      case (Inl e')
      then show ?thesis using * [OF a] w assms m a True by (auto simp: json_parse_def Let_def)
    next
      case (Inr x)
      obtain v r' where x: "x = (v, r')" by force
      then have "span is_ws s (r_i r') \<le> length s" using * [OF a] Inr span_le [of "r_i r'" s] by simp
      then show ?thesis using assms m a True Inr x
        by (auto simp: json_parse_def Let_def split: if_splits)
    qed
  qed
qed

end
