(* ===== verification/Json_Round.thy ===== *)
theory Json_Round
  imports Json_Proofs
begin

text \<open>
  The round trip: the text the writer makes of a value, and the reader's answer to it.
\<close>

section \<open>The text of a value\<close>

definition escs :: "bytes \<Rightarrow> bytes" where
  "escs w = concat (map (\<lambda>c. case escape c of None \<Rightarrow> [c] | Some e \<Rightarrow> e) w)"

definition jstring :: "bytes \<Rightarrow> bytes" where
  "jstring w = 0x22 # escs w @ [0x22]"

definition member_head :: "bool \<Rightarrow> bytes \<Rightarrow> bytes" where
  "member_head object k = (if object then jstring k @ [0x3a, 0x20] else [])"

fun jtext :: "json \<Rightarrow> bytes"
  and jitems :: "bool \<Rightarrow> json list \<Rightarrow> bytes"
  and jmembers :: "bool \<Rightarrow> (bytes \<times> json) list \<Rightarrow> bytes" where
  "jtext JNull = lit ''null''"
| "jtext JFalse = lit ''false''"
| "jtext JTrue = lit ''true''"
| "jtext (JNumber t) = t"
| "jtext (JString t) = jstring t"
| "jtext (JArray vs) = 0x5b # jitems True vs @ [0x5d]"
| "jtext (JObject ms) = 0x7b # jmembers True ms @ [0x7d]"
| "jitems first [] = []"
| "jitems first (v # vs) = (if first then [] else [0x2c, 0x20]) @ jtext v @ jitems False vs"
| "jmembers first [] = []"
| "jmembers first ((k, v) # ms) =
     (if first then [] else [0x2c, 0x20]) @ jstring k @ [0x3a, 0x20] @ jtext v @ jmembers False ms"

lemma escs_simps [simp]:
  "escs [] = []" "escs (c # w) = (case escape c of None \<Rightarrow> [c] | Some e \<Rightarrow> e) @ escs w"
  by (simp_all add: escs_def)

lemma escs_append: "escs (v @ w) = escs v @ escs w"
  by (simp add: escs_def)

section \<open>The writer writes the text\<close>

text \<open>A writing step: it adds the text, unless memory ran out, and it never comes back from that.\<close>

definition puts :: "bytes \<Rightarrow> buf \<Rightarrow> buf \<Rightarrow> bool" where
  "puts t b b' \<longleftrightarrow> (\<not> b_oom b' \<longrightarrow> \<not> b_oom b \<and> b_p b' = b_p b @ t)"

lemma puts_trans: "puts t b b1 \<Longrightarrow> puts u b1 b2 \<Longrightarrow> puts (t @ u) b b2"
  by (auto simp: puts_def)

lemma puts_Nil: "puts [] b b"
  by (simp add: puts_def)

lemma buf_put_puts: "puts t b (buf_put t b)"
  by (auto simp: puts_def buf_put_def split: prod.split)

definition buf_ok :: "buf \<Rightarrow> bool" where
  "buf_ok b \<longleftrightarrow> b_p b = [] \<or> length (b_p b) < b_cap b"

lemma buf_put_ok: "buf_ok b \<Longrightarrow> buf_ok (buf_put t b)"
  by (auto simp: buf_put_def buf_ok_def split: prod.split)

lemma json_write_str_puts: "puts (jstring w) b (json_write_str w b)"
proof -
  define inv where "inv k st \<longleftrightarrow> snd st \<le> k \<and> (\<forall>i \<in> {snd st..<k}. escape (w ! i) = None) \<and>
      puts (0x22 # escs (take (snd st) w)) b (fst st)" for k :: nat and st :: "buf \<times> nat"
  have plain: "escs (take k (drop r w)) = take k (drop r w)"
    if "\<forall>i \<in> {r..<r + k}. escape (w ! i) = None" "r + k \<le> length w" for r k
  proof -
    have "escs u = u" if "\<forall>x \<in> set u. escape x = None" for u using that by (induction u) auto
    moreover have "\<forall>x \<in> set (take k (drop r w)). escape x = None"
      using that by (auto simp: in_set_conv_nth)
    ultimately show ?thesis by blast
  qed
  have *: "inv (length w) (fold (write_str_step w) [0..<length w] (buf_put [0x22] b, 0))"
  proof (rule fold_upt_invariant)
    show "inv 0 (buf_put [0x22] b, 0)" using buf_put_puts [of "[0x22]" b] by (simp add: inv_def)
    fix i st assume i: "i < length w" and inv: "inv i st"
    obtain b1 r where st: "st = (b1, r)" by force
    have r: "r \<le> i" "\<forall>j \<in> {r..<i}. escape (w ! j) = None" "puts (0x22 # escs (take r w)) b b1"
      using inv st by (auto simp: inv_def)
    show "inv (Suc i) (write_str_step w i st)"
    proof (cases "escape (w ! i)")
      case None
      then show ?thesis using r st by (auto simp: write_str_step_def inv_def less_Suc_eq)
    next
      case (Some e)
      have "take (Suc i) w = take r w @ take (i - r) (drop r w) @ [w ! i]"
        using i r(1) by (simp add: take_Suc_conv_app_nth) (metis append_take_drop_id le_add_diff_inverse take_add)
      then have "escs (take (Suc i) w) = escs (take r w) @ take (i - r) (drop r w) @ e"
        using plain [of r "i - r"] r i Some by (simp add: escs_append)
      moreover have "puts ((0x22 # escs (take r w)) @ take (i - r) (drop r w) @ e) b
          (buf_put e (buf_put (take (i - r) (drop r w)) b1))"
        by (intro puts_trans [OF r(3)] puts_trans [OF buf_put_puts] buf_put_puts)
      ultimately show ?thesis using st Some by (simp add: write_str_step_def inv_def)
    qed
  qed simp
  obtain b1 r where st: "fold (write_str_step w) [0..<length w] (buf_put [0x22] b, 0) = (b1, r)"
    by force
  have r: "r \<le> length w" "\<forall>j \<in> {r..<length w}. escape (w ! j) = None"
      "puts (0x22 # escs (take r w)) b b1"
    using * st by (auto simp: inv_def)
  have "escs w = escs (take r w @ drop r w)" by simp
  also have "\<dots> = escs (take r w) @ drop r w"
    using plain [of r "length w - r"] r by (simp only: escs_append) simp
  finally have e: "jstring w = (0x22 # escs (take r w)) @ drop r w @ [0x22]"
    by (simp add: jstring_def)
  show ?thesis unfolding e json_write_str_def st prod.case
    by (intro puts_trans [OF r(3)] puts_trans [OF buf_put_puts] buf_put_puts)
qed

lemma write_value_puts:
  "puts (jtext v) b (write_value v b)"
  "puts (jitems first vs) b (write_items first vs b)"
  "puts (jmembers first ms) b (write_members first ms b)"
proof (induction v b and first vs b and first ms b
    rule: write_value_write_items_write_members.induct)
  case (6 vs b)
  show ?case using puts_trans [OF puts_trans [OF buf_put_puts 6] buf_put_puts] by simp
next
  case (7 ms b)
  show ?case using puts_trans [OF puts_trans [OF buf_put_puts 7] buf_put_puts] by simp
next
  case (9 first v vs b)
  have "puts (if first then [] else [0x2c, 0x20]) b (if first then b else buf_put [0x2c, 0x20] b)"
    using buf_put_puts puts_Nil by simp
  from puts_trans [OF this puts_trans [OF 9(1) 9(2)]] show ?case by simp
next
  case (11 first k v ms b)
  let ?b1 = "if first then b else buf_put [0x2c, 0x20] b"
  have "puts (if first then [] else [0x2c, 0x20]) b ?b1" using buf_put_puts puts_Nil by simp
  from puts_trans [OF this puts_trans [OF json_write_str_puts puts_trans [OF buf_put_puts
        puts_trans [OF 11(1) 11(2)]]]]
  show ?case by simp
qed (auto intro: buf_put_puts json_write_str_puts puts_Nil)

section \<open>Reading a string back\<close>

lemma control_hex:
  "c < 0x20 \<Longrightarrow> hex_digit 0x30 = 0 \<and> hex_digit (hex_char (drop_bit 4 c)) \<noteq> 16 \<and>
     hex_digit (hex_char (c AND 0x0f)) \<noteq> 16 \<and>
     push_bit 4 (hex_digit (hex_char (drop_bit 4 c))) OR hex_digit (hex_char (c AND 0x0f)) = ucast c \<and>
     0x20 \<le> hex_char (drop_bit 4 c) \<and> hex_char (drop_bit 4 c) \<noteq> 0x22 \<and> hex_char (drop_bit 4 c) \<noteq> 0x5c \<and>
     0x20 \<le> hex_char (c AND 0x0f) \<and> hex_char (c AND 0x0f) \<noteq> 0x22 \<and> hex_char (c AND 0x0f) \<noteq> 0x5c"
proof -
  define P where "P = (\<lambda>c :: u8. hex_digit 0x30 = 0 \<and> hex_digit (hex_char (drop_bit 4 c)) \<noteq> 16 \<and>
     hex_digit (hex_char (c AND 0x0f)) \<noteq> 16 \<and>
     push_bit 4 (hex_digit (hex_char (drop_bit 4 c))) OR hex_digit (hex_char (c AND 0x0f)) = ucast c \<and>
     0x20 \<le> hex_char (drop_bit 4 c) \<and> hex_char (drop_bit 4 c) \<noteq> 0x22 \<and> hex_char (drop_bit 4 c) \<noteq> 0x5c \<and>
     0x20 \<le> hex_char (c AND 0x0f) \<and> hex_char (c AND 0x0f) \<noteq> 0x22 \<and> hex_char (c AND 0x0f) \<noteq> 0x5c)"
  have all: "list_all P [0, 1, 2, 3, 4, 5, 6, 7, 8, 9, 10, 11, 12, 13, 14, 15, 16, 17, 18, 19, 20,
      21, 22, 23, 24, 25, 26, 27, 28, 29, 30, 31]"
    by (simp add: P_def hex_digit_def hex_char_def)
  assume "c < 0x20"
  then have "unat c < 32" by (simp add: word_less_nat_alt)
  then have "c \<in> of_nat ` {0..<32}" by (intro image_eqI [of c of_nat "unat c"]) auto
  then have "c \<in> set (map of_nat [0..<32])" by simp
  moreover have "map of_nat [0..<32] = ([0, 1, 2, 3, 4, 5, 6, 7, 8, 9, 10, 11, 12, 13, 14, 15, 16, 17,
      18, 19, 20, 21, 22, 23, 24, 25, 26, 27, 28, 29, 30, 31] :: u8 list)"
    by code_simp
  ultimately have "c \<in> set [0, 1, 2, 3, 4, 5, 6, 7, 8, 9, 10, 11, 12, 13, 14, 15, 16, 17, 18, 19, 20,
      21, 22, 23, 24, 25, 26, 27, 28, 29, 30, 31]"
    by simp
  then have "P c" using all by (auto simp: list_all_iff)
  then show ?thesis by (simp add: P_def)
qed

lemma escape_cases:
  "escape c = None \<and> 0x20 \<le> c \<and> c \<noteq> 0x22 \<and> c \<noteq> 0x5c \<or>
   (\<exists>x. escape c = Some [0x5c, x] \<and> simple_escape x = Some c) \<or>
   escape c = Some [0x5c, 0x75, 0x30, 0x30, hex_char (drop_bit 4 c), hex_char (c AND 0x0f)] \<and> c < 0x20"
  by (auto simp: escape_def simple_escape_def not_less)

lemma str_end_escs: "drop i s = escs w @ 0x22 # rest \<Longrightarrow> str_end s i = Inr (i + length (escs w))"
proof (induction w arbitrary: i)
  case Nil
  then show ?case by (auto simp: str_end.simps [of s i] dest: drop_ConsD)
next
  case (Cons c w)
  have plain: "str_end s i = str_end s (Suc i)" if "drop i s = x # xs" "0x20 \<le> x" "x \<noteq> 0x22" "x \<noteq> 0x5c"
    for i x xs
    using drop_ConsD [OF that(1)] that(2-4) by (simp add: str_end.simps [of s i] not_less [symmetric])
  have esc: "str_end s i = str_end s (i + 2)" if "drop i s = 0x5c # xs" for i xs
    using drop_ConsD [OF that] by (simp add: str_end.simps [of s i])
  consider "escape c = None" "0x20 \<le> c" "c \<noteq> 0x22" "c \<noteq> 0x5c"
    | x where "escape c = Some [0x5c, x]"
    | "escape c = Some [0x5c, 0x75, 0x30, 0x30, hex_char (drop_bit 4 c), hex_char (c AND 0x0f)]" "c < 0x20"
    using escape_cases [of c] by auto
  then show ?case
  proof cases
    case 1
    then have d: "drop i s = c # escs w @ 0x22 # rest" using Cons.prems by simp
    show ?thesis using Cons.IH [of "Suc i"] drop_ConsD [OF d] plain [OF d 1(2-4)] 1(1) by simp
  next
    case (2 x)
    then have d: "drop i s = 0x5c # x # escs w @ 0x22 # rest" using Cons.prems by simp
    have "drop (i + 2) s = escs w @ 0x22 # rest" using drop_append_next [of i s "[0x5c, x]"] d by simp
    then show ?thesis using Cons.IH esc [OF d] 2 by simp
  next
    case 3
    define a b where "a = hex_char (drop_bit 4 c)" and "b = hex_char (c AND 0x0f)"
    have ab: "0x20 \<le> a" "a \<noteq> 0x22" "a \<noteq> 0x5c" "0x20 \<le> b" "b \<noteq> 0x22" "b \<noteq> 0x5c"
      using control_hex [OF 3(2)] by (auto simp: a_def b_def)
    have d: "drop i s = 0x5c # 0x75 # 0x30 # 0x30 # a # b # escs w @ 0x22 # rest"
      using Cons.prems 3 by (simp add: a_def b_def)
    have d2: "drop (i + 2) s = 0x30 # 0x30 # a # b # escs w @ 0x22 # rest"
      using drop_append_next [of i s "[0x5c, 0x75]"] d by simp
    note d3 = drop_ConsD [OF d2, THEN conjunct2, THEN conjunct2]
    note d4 = drop_ConsD [OF d3, THEN conjunct2, THEN conjunct2]
    note d5 = drop_ConsD [OF d4, THEN conjunct2, THEN conjunct2]
    note d6 = drop_ConsD [OF d5, THEN conjunct2, THEN conjunct2]
    have "str_end s i = str_end s (Suc (Suc (Suc (Suc (i + 2)))))"
      using esc [OF d] plain [OF d2] plain [OF d3] plain [OF d4 ab(1-3)] plain [OF d5 ab(4-6)] by simp
    then show ?thesis using Cons.IH [OF d6] 3 by (simp add: a_def b_def)
  qed
qed

lemma hex4_control:
  assumes "drop i s = 0x30 # 0x30 # hex_char (drop_bit 4 c) # hex_char (c AND 0x0f) # rest"
    and "c < 0x20"
  shows "hex4 s i 4 0 = Some (ucast c)"
proof -
  note d1 = drop_ConsD [OF assms(1)]
  note d2 = drop_ConsD [OF d1 [THEN conjunct2, THEN conjunct2]]
  note d3 = drop_ConsD [OF d2 [THEN conjunct2, THEN conjunct2]]
  note d4 = drop_ConsD [OF d3 [THEN conjunct2, THEN conjunct2]]
  have four: "(4 :: nat) = Suc (Suc (Suc (Suc 0)))" by simp
  show ?thesis unfolding four using d1 d2 d3 d4 control_hex [OF assms(2)] by simp
qed

lemma put_utf8_ascii: "c < 0x80 \<Longrightarrow> put_utf8 (ucast (c :: u8)) = [c]"
  by (simp add: put_utf8_def word_less_nat_alt)

lemma u_escape_control:
  assumes "drop i s = 0x30 # 0x30 # hex_char (drop_bit 4 c) # hex_char (c AND 0x0f) # rest"
    and "c < 0x20" and "i + 4 \<le> e"
  shows "u_escape s e i = Some (ucast c, i + 4)"
proof -
  have "ucast c < (0xd800 :: u32)" using assms(2) by (simp add: word_less_nat_alt)
  then show ?thesis using hex4_control [OF assms(1,2)] assms(3)
    by (auto simp: u_escape_def Let_def not_le [symmetric])
qed

lemma str_decode_steps:
  "i < e \<Longrightarrow> s ! i \<noteq> 0x5c \<Longrightarrow> str_decode s e i w = str_decode s e (i + 1) (w @ [s ! i])"
  "i < e \<Longrightarrow> s ! i = 0x5c \<Longrightarrow> simple_escape (s ! (i + 1)) = Some c \<Longrightarrow>
     str_decode s e i w = str_decode s e (i + 2) (w @ [c])"
  "i < e \<Longrightarrow> s ! i = 0x5c \<Longrightarrow> simple_escape (s ! (i + 1)) = None \<Longrightarrow> s ! (i + 1) = 0x75 \<Longrightarrow>
     u_escape s e (i + 2) = Some (cp, j) \<Longrightarrow> str_decode s e i w = str_decode s e j (w @ put_utf8 cp)"
  by (subst str_decode.simps, simp)+

lemma str_decode_escs:
  "drop i s = escs w @ rest \<Longrightarrow> e = i + length (escs w) \<Longrightarrow> str_decode s e i acc = Inr (acc @ w)"
proof (induction w arbitrary: i acc)
  case Nil
  then show ?case by (subst str_decode.simps) simp
next
  case (Cons c w)
  consider "escape c = None" "c \<noteq> 0x5c"
    | x where "escape c = Some [0x5c, x]" "simple_escape x = Some c"
    | "escape c = Some [0x5c, 0x75, 0x30, 0x30, hex_char (drop_bit 4 c), hex_char (c AND 0x0f)]" "c < 0x20"
    using escape_cases [of c] by auto
  then show ?case
  proof cases
    case 1
    then have d: "drop i s = c # escs w @ rest" using Cons.prems by simp
    have "i < e" using 1 Cons.prems(2) by simp
    then have "str_decode s e i acc = str_decode s e (Suc i) (acc @ [c])"
      using str_decode_steps(1) [of i e s acc] drop_ConsD [OF d] 1(2) by simp
    then show ?thesis using Cons.IH [of "Suc i" "acc @ [c]"] drop_ConsD [OF d] 1(1) Cons.prems(2) by simp
  next
    case (2 x)
    then have d: "drop i s = 0x5c # x # escs w @ rest" using Cons.prems by simp
    have "drop (i + 2) s = escs w @ rest" using drop_append_next [of i s "[0x5c, x]"] d by simp
    moreover have x: "s ! (i + 1) = x" using drop_ConsD [OF d] drop_ConsD [of "Suc i" s x] by simp
    moreover have "str_decode s e i acc = str_decode s e (i + 2) (acc @ [c])"
      using str_decode_steps(2) [of i e s c acc] drop_ConsD [OF d] 2 x Cons.prems(2) by simp
    ultimately show ?thesis using Cons.IH [of "i + 2" "acc @ [c]"] 2 Cons.prems(2) by simp
  next
    case 3
    have d: "drop i s = 0x5c # 0x75 # 0x30 # 0x30 # hex_char (drop_bit 4 c) # hex_char (c AND 0x0f) # escs w @ rest"
      using Cons.prems 3 by simp
    have d2: "drop (i + 2) s = 0x30 # 0x30 # hex_char (drop_bit 4 c) # hex_char (c AND 0x0f) # escs w @ rest"
      using drop_append_next [of i s "[0x5c, 0x75]"] d by simp
    have d6: "drop (i + 2 + 4) s = escs w @ rest"
      using drop_append_next [of "i + 2" s "[0x30, 0x30, hex_char (drop_bit 4 c), hex_char (c AND 0x0f)]"] d2
      by (simp add: eval_nat_numeral)
    have u: "u_escape s e (i + 2) = Some (ucast c, i + 2 + 4)"
      using u_escape_control [OF d2 3(2)] Cons.prems(2) 3 by simp
    have "s ! (i + 1) = 0x75" using drop_ConsD [OF d] drop_ConsD [of "Suc i" s "0x75"] by simp
    moreover have "put_utf8 (ucast c) = [c]"
      using 3(2) by (intro put_utf8_ascii) (simp add: word_less_nat_alt)
    moreover have "simple_escape 0x75 = None" by (simp add: simple_escape_def)
    ultimately have "str_decode s e i acc = str_decode s e (i + 2 + 4) (acc @ [c])"
      using str_decode_steps(3) [OF _ _ _ _ u, of acc] drop_ConsD [OF d] Cons.prems(2) 3(1) by simp
    then show ?thesis using Cons.IH [OF d6, of "acc @ [c]"] 3 Cons.prems(2) by simp
  qed
qed

lemma read_string_back:
  assumes "drop (r_i r) s = jstring w @ rest" and "r_mem r = []"
  shows "\<exists>r'. read_string s r = Inr (w, r') \<and> drop (r_i r') s = rest \<and> r_mem r' = []"
proof -
  let ?i = "r_i r + 1" and ?e = "r_i r + 1 + length (escs w)"
  have d: "drop ?i s = escs w @ 0x22 # rest"
    using drop_ConsD [of "r_i r" s] assms(1) by (simp add: jstring_def)
  have e: "str_end s ?i = Inr ?e" using str_end_escs [OF d] .
  have d2: "drop ?e s = 0x22 # rest" using drop_append_next [OF d] by simp
  obtain r2 where a: "arena_alloc (?e - ?i + 1) (r\<lparr>r_i := ?i\<rparr>) = (True, r2)" "r_i r2 = ?i" "r_mem r2 = []"
    using arena_granted [of "r\<lparr>r_i := ?i\<rparr>" "?e - ?i + 1"] assms(2) by auto
  have "str_decode s ?e ?i [] = Inr w" using str_decode_escs [OF d refl, of "[]"] by simp
  then show ?thesis using e a drop_ConsD [OF d2] by (simp add: read_string_def Let_def)
qed

section \<open>Reading a number back\<close>

definition number_text :: "bytes \<Rightarrow> bool" where
  "number_text t \<longleftrightarrow> number_end t 0 = Some (length t)"

text \<open>What can follow a value in a text: the end, or the next separator.\<close>

definition stops :: "bytes \<Rightarrow> bool" where
  "stops rest \<longleftrightarrow> rest = [] \<or> hd rest \<in> {0x2c, 0x5d, 0x7d}"

lemma number_end_shift: "number_end s i = map_option (\<lambda>k. i + k) (number_end (drop i s) 0)"
proof -
  have c: "at_char s (i + k) x = at_char (drop i s) k x" and d: "at_digit s (i + k) = at_digit (drop i s) k"
    and p: "span is_digit s (i + k) = i + span is_digit (drop i s) k" for k x
    by (rule at_char_shift at_digit_shift span_shift)+
  have si: "num_int s i = map_option (\<lambda>k. i + k) (num_int (drop i s) 0)"
    using c [of 0] d [of 0] c [of 1] d [of 1] p [of 0] p [of 1] by (simp add: num_int_def Let_def)
  have sf: "num_frac s (i + k) = map_option (\<lambda>k. i + k) (num_frac (drop i s) k)" for k
    using c [of k] d [of "k + 1"] p [of "k + 1"] by (simp add: num_frac_def)
  have se: "num_exp s (i + k) = map_option (\<lambda>k. i + k) (num_exp (drop i s) k)" for k
    using c [of k] c [of "k + 1"] d [of "k + 1"] p [of "k + 1"] d [of "k + 2"] p [of "k + 2"]
    by (simp add: num_exp_def Let_def)
  show ?thesis by (simp add: number_end_def si sf se split: option.split)
qed

text \<open>Cutting the text where the number ends changes nothing.\<close>

lemma at_take:
  "at_char (take e s) k c \<longleftrightarrow> k < e \<and> at_char s k c" "at_digit (take e s) k \<longleftrightarrow> k < e \<and> at_digit s k"
  by (auto simp: at_char_def at_digit_def)

lemma span_take: "span p s k \<le> e \<Longrightarrow> span p (take e s) k = span p s k"
proof (induction p s k rule: span.induct)
  case (1 p s i)
  show ?case
  proof (cases "i < length s \<and> p (s ! i)")
    case True
    then have eq: "span p s i = span p s (Suc i)" by (simp add: span_step)
    then have "i < e" using 1(2) span_ge [of "Suc i" p s] by simp
    then show ?thesis using 1 True eq span_step [of i "take e s" p] by simp
  next
    case False
    then show ?thesis using span_stop [of i s p] span_stop [of i "take e s" p] by auto
  qed
qed

lemma num_int_take: "num_int s i = Some a \<Longrightarrow> a \<le> e \<Longrightarrow> num_int (take e s) i = Some a"
  using num_int_bounds [of s i a] span_ge [of "Suc i" is_digit s] span_ge [of "Suc (Suc i)" is_digit s]
    span_step [of i s is_digit] span_step [of "Suc i" s is_digit]
  by (auto simp: num_int_def Let_def at_take span_take at_digit_def split: if_splits)

lemma num_frac_take: "num_frac s i = Some a \<Longrightarrow> a \<le> e \<Longrightarrow> num_frac (take e s) i = Some a"
  using span_ge [of "Suc i" is_digit s] span_step [of "Suc i" s is_digit]
    span_ge [of "Suc (Suc i)" is_digit s]
  by (auto simp: num_frac_def at_take span_take at_digit_def split: if_splits)

lemma num_exp_take: "num_exp s i = Some a \<Longrightarrow> a \<le> e \<Longrightarrow> num_exp (take e s) i = Some a"
  using span_ge [of "Suc (Suc i)" is_digit s] span_step [of "Suc i" s is_digit]
    span_ge [of "Suc (Suc (Suc i))" is_digit s] span_step [of "Suc (Suc i)" s is_digit]
  by (auto simp: num_exp_def Let_def at_take span_take at_digit_def split: if_splits)

lemma number_end_take:
  assumes "number_end s i = Some e"
  shows "number_text (take (e - i) (drop i s))"
proof -
  obtain a b where ab: "num_int s i = Some a" "num_frac s a = Some b" "num_exp s b = Some e"
    using assms by (auto simp: number_end_def split: option.splits)
  have le: "i < a" "a \<le> b" "b \<le> e" "e \<le> length s"
    using num_int_bounds [OF ab(1)] num_frac_bounds [OF ab(2)] num_exp_bounds [OF ab(3)] by auto
  have "number_end (take e s) i = Some e"
    using num_int_take [OF ab(1), of e] num_frac_take [OF ab(2), of e] num_exp_take [OF ab(3), of e] le
    by (simp add: number_end_def)
  then have "number_end (drop i (take e s)) 0 = Some (e - i)"
    using number_end_shift [of "take e s" i] by auto
  then show ?thesis using le by (simp add: number_text_def drop_take)
qed

text \<open>Putting a separator behind it changes nothing either.\<close>

lemma at_stops:
  assumes "stops rest" and "k \<le> length t"
  shows "c \<notin> {0x2c, 0x5d, 0x7d} \<Longrightarrow> at_char (t @ rest) k c \<longleftrightarrow> at_char t k c"
    "at_digit (t @ rest) k \<longleftrightarrow> at_digit t k"
  using assms
  by (cases "k = length t"; cases rest; auto simp: at_char_def at_digit_def stops_def nth_append is_digit_def)+

lemma span_stops:
  "stops rest \<Longrightarrow> k \<le> length t \<Longrightarrow> span is_digit (t @ rest) k = span is_digit t k"
proof (induction is_digit t k rule: span.induct)
  case (1 t k)
  have d: "at_digit (t @ rest) k \<longleftrightarrow> at_digit t k" using at_stops(2) [OF 1(2,3)] .
  show ?case
  proof (cases "at_digit t k")
    case True
    then show ?thesis
      using 1 d span_step [of k "t @ rest" is_digit] span_step [of k t is_digit]
      by (simp add: at_digit_def)
  next
    case False
    then show ?thesis
      using d span_stop [of k "t @ rest" is_digit] span_stop [of k t is_digit] by (simp add: at_digit_def)
  qed
qed

lemma number_end_stops:
  assumes "number_text t" and "stops rest"
  shows "number_end (t @ rest) 0 = Some (length t)"
proof -
  note at = at_stops [OF assms(2), of _ t] and sp = span_stops [OF assms(2), of _ t]
  obtain a b where ab: "num_int t 0 = Some a" "num_frac t a = Some b" "num_exp t b = Some (length t)"
    using assms(1) by (auto simp: number_text_def number_end_def split: option.splits)
  have le: "a \<le> length t" "b \<le> length t" "0 < length t"
    using num_int_bounds [OF ab(1)] num_frac_bounds [OF ab(2)] by auto
  have i: "num_int (t @ rest) 0 = Some a"
    using ab(1) at [of 0] at [of 1] sp [of 0] sp [of 1] Suc_leI [OF le(3)]
    by (simp add: num_int_def Let_def split: if_splits)
  have f: "num_frac (t @ rest) a = Some b"
  proof (cases "at_char t a 0x2e")
    case True
    then have "a + 1 \<le> length t" by (simp add: at_char_def)
    then show ?thesis using ab(2) True at [of a] at [of "a + 1"] sp [of "a + 1"] le
      by (simp add: num_frac_def split: if_splits)
  next
    case False
    then show ?thesis using ab(2) at [of a] le by (simp add: num_frac_def)
  qed
  have e: "num_exp (t @ rest) b = Some (length t)"
  proof (cases "at_char t b 0x65 \<or> at_char t b 0x45")
    case True
    then have l1: "b + 1 \<le> length t" by (auto simp: at_char_def)
    have "b + 2 \<le> length t" if "at_char t (b + 1) 0x2b \<or> at_char t (b + 1) 0x2d"
      using that by (auto simp: at_char_def)
    then show ?thesis
      using ab(3) True at [of b] at [of "b + 1"] at [of "b + 2"] sp [of "b + 1"] sp [of "b + 2"] le l1
      by (auto simp: num_exp_def Let_def split: if_splits)
  next
    case False
    then show ?thesis using ab(3) at [of b] le by (simp add: num_exp_def)
  qed
  show ?thesis using i f e by (simp add: number_end_def)
qed

lemma read_number_back:
  assumes "drop (r_i r) s = t @ rest" and "number_text t" and "stops rest" and "r_mem r = []"
  shows "\<exists>r'. read_number s r = Inr (JNumber t, r') \<and> drop (r_i r') s = rest \<and> r_mem r' = []"
proof -
  have e: "number_end s (r_i r) = Some (r_i r + length t)"
    using number_end_shift [of s "r_i r"] number_end_stops [OF assms(2,3)] assms(1) by simp
  obtain r1 where "arena_alloc (r_i r + length t - r_i r + 1) r = (True, r1)" "r_mem r1 = []"
    using arena_granted [OF assms(4)] by blast
  then show ?thesis using e assms(1) drop_append_next [OF assms(1)] by (simp add: read_number_def)
qed

text \<open>A number starts with a digit or a minus sign.\<close>

lemma number_text_start:
  assumes "number_text t"
  shows "t \<noteq> []" "hd t = 0x2d \<or> is_digit (hd t)"
proof -
  obtain a where "num_int t 0 = Some a"
    using assms by (auto simp: number_text_def number_end_def split: option.splits)
  then have "at_char t 0 0x2d \<or> at_char t 0 0x30 \<or> at_digit t 0"
    by (auto simp: num_int_def Let_def split: if_splits)
  then show "t \<noteq> []" "hd t = 0x2d \<or> is_digit (hd t)"
    by (auto simp: at_char_def at_digit_def hd_conv_nth is_digit_def)
qed

section \<open>Reading a value back\<close>

text \<open>What the writer can round-trip: numbers with a number's text, at most \<open>n\<close> levels.\<close>

fun depth_ok :: "nat \<Rightarrow> json \<Rightarrow> bool" where
  "depth_ok 0 v = False"
| "depth_ok (Suc n) (JArray vs) = (\<forall>v \<in> set vs. depth_ok n v)"
| "depth_ok (Suc n) (JObject ms) = (\<forall>m \<in> set ms. depth_ok n (snd m))"
| "depth_ok (Suc n) (JNumber t) = number_text t"
| "depth_ok (Suc n) _ = True"

text \<open>The items of an array as members without a key, so that one loop serves both.\<close>

definition mtext :: "bool \<Rightarrow> bytes \<times> json \<Rightarrow> bytes" where
  "mtext object m = (if object then jstring (fst m) @ [0x3a, 0x20] else []) @ jtext (snd m)"

definition mrest :: "bool \<Rightarrow> (bytes \<times> json) list \<Rightarrow> bytes" where
  "mrest object ms = concat (map (\<lambda>m. [0x2c, 0x20] @ mtext object m) ms)"

lemma mrest_simps [simp]:
  "mrest ob [] = []" "mrest ob (m # ms) = 0x2c # 0x20 # mtext ob m @ mrest ob ms"
  by (simp_all add: mrest_def)

lemma jmembers_mrest: "jmembers False ms = mrest True ms"
  by (induction ms) (auto simp: mtext_def)

lemma jitems_mrest: "jitems False vs = mrest False (map (Pair []) vs)"
  by (induction vs) (auto simp: mtext_def)

lemma jtext_items:
  "jtext (JArray (v # vs)) = 0x5b # mtext False ([], v) @ mrest False (map (Pair []) vs) @ [0x5d]"
  "jtext (JObject (m # ms)) = 0x7b # mtext True m @ mrest True ms @ [0x7d]"
  by (cases m; simp add: mtext_def jitems_mrest jmembers_mrest)+

lemma jtext_start:
  assumes "depth_ok n v"
  shows "\<exists>c xs. jtext v = c # xs \<and> \<not> is_ws c \<and> c \<noteq> 0x5d \<and> c \<noteq> 0x7d"
proof (cases v)
  case (JNumber t)
  then have t: "number_text t" using assms by (cases n) auto
  from number_text_start [OF t] show ?thesis
    using JNumber by (cases t) (auto simp: is_ws_def is_digit_def)
qed (auto simp: lit_def jstring_def is_ws_def)

lemma span_at: "drop (span is_ws s i) s = c # xs \<Longrightarrow> at_char s (span is_ws s i) c"
  by (auto simp: at_char_def dest: drop_ConsD)

lemma skip_none: "drop i s = c # xs \<Longrightarrow> \<not> is_ws c \<Longrightarrow> span is_ws s i = i"
  by (rule span_stop) (auto dest: drop_ConsD)

lemma skip_one: "drop i s = 0x20 # c # xs \<Longrightarrow> \<not> is_ws c \<Longrightarrow> span is_ws s i = Suc i"
proof -
  assume d: "drop i s = 0x20 # c # xs" "\<not> is_ws c"
  note 1 = drop_ConsD [OF d(1)]
  have "drop (Suc i) s = c # xs" using 1 by simp
  then show ?thesis using 1 span_step [of i s is_ws] skip_none [of "Suc i" s c xs] d(2)
    by (simp add: is_ws_def)
qed

text \<open>The promise: from a place where the text of \<open>v\<close> starts, \<open>v\<close> is read up to its end.\<close>

definition reads_back :: "json \<Rightarrow> bool" where
  "reads_back v \<longleftrightarrow>
     (\<forall>s r n rest. depth_ok n v \<longrightarrow> drop (span is_ws s (r_i r)) s = jtext v @ rest \<longrightarrow> stops rest \<longrightarrow>
        r_mem r = [] \<longrightarrow>
        (\<exists>r'. read_value s n r = Inr (v, r') \<and> drop (r_i r') s = rest \<and> r_mem r' = []))"

lemma read_key_back:
  assumes "drop (span is_ws s (r_i r)) s = mtext object m @ rest" and "r_mem r = []"
    and "depth_ok n (snd m)"
  shows "\<exists>r'. read_key s object (skip_ws s r) = Inr (if object then fst m else [], r') \<and>
    drop (span is_ws s (r_i r')) s = jtext (snd m) @ rest \<and> r_mem r' = []"
proof (cases object)
  case False
  then show ?thesis using assms by (auto simp: read_key_def mtext_def)
next
  case True
  obtain c xs where c: "jtext (snd m) = c # xs" "\<not> is_ws c" using jtext_start [OF assms(3)] by blast
  have d: "drop (r_i (skip_ws s r)) s = jstring (fst m) @ (0x3a # 0x20 # jtext (snd m) @ rest)"
    using assms(1) True by (simp add: mtext_def)
  have at: "at_char s (r_i (skip_ws s r)) 0x22" using d at_char_drop by (simp add: jstring_def)
  obtain r1 where r1: "read_string s (skip_ws s r) = Inr (fst m, r1)"
      "drop (r_i r1) s = 0x3a # 0x20 # jtext (snd m) @ rest" "r_mem r1 = []"
    using read_string_back [OF d] assms(2) by auto
  have sk: "span is_ws s (r_i r1) = r_i r1" using skip_none [OF r1(2)] by (simp add: is_ws_def)
  have col: "at_char s (r_i r1) 0x3a" using r1(2) at_char_drop by simp
  have d2: "drop (Suc (r_i r1)) s = 0x20 # jtext (snd m) @ rest" using drop_ConsD [OF r1(2)] by simp
  then have "span is_ws s (Suc (r_i r1)) = Suc (Suc (r_i r1))"
    using skip_one [of "Suc (r_i r1)" s c "xs @ rest"] c by simp
  moreover have "drop (Suc (Suc (r_i r1))) s = jtext (snd m) @ rest" using drop_ConsD [OF d2] by simp
  ultimately show ?thesis using True at r1 sk col by (simp add: read_key_def Let_def)
qed

lemma read_rest_back:
  assumes "\<And>m. m \<in> set ms \<Longrightarrow> reads_back (snd m)" and "\<forall>m \<in> set ms. depth_ok n (snd m)"
    and "ms \<noteq> []" and "length ms \<le> k" and "r_mem r = []"
    and "drop (span is_ws s (r_i r)) s = mtext object (hd ms) @ mrest object (tl ms) @
           (if object then 0x7d else 0x5d) # rest"
    and "\<not> object \<longrightarrow> (\<forall>m \<in> set ms. fst m = [])"
  shows "\<exists>r'. read_rest s n object k its r = Inr (items_of object (its @ ms), r') \<and>
    drop (r_i r') s = rest \<and> r_mem r' = []"
  using assms
proof (induction ms arbitrary: k its r)
  case (Cons m ms)
  let ?close = "if object then 0x7d else 0x5d :: u8"
  obtain k' where k: "k = Suc k'" using Cons.prems(4) by (cases k) auto
  obtain r1 where a: "arena_alloc NODE_SIZE r = (True, r1)" "r_i r1 = r_i r" "r_mem r1 = []"
    using arena_granted [OF Cons.prems(5)] by blast
  let ?tail = "mrest object ms @ ?close # rest"
  have d: "drop (span is_ws s (r_i r1)) s = mtext object m @ ?tail" using Cons.prems(6) a by simp
  have dm: "depth_ok n (snd m)" using Cons.prems(2) by simp
  obtain r2 where r2: "read_key s object (skip_ws s r1) = Inr (if object then fst m else [], r2)"
      "drop (span is_ws s (r_i r2)) s = jtext (snd m) @ ?tail" "r_mem r2 = []"
    using read_key_back [OF d a(3) dm] by blast
  have key: "(if object then fst m else [], snd m) = m" using Cons.prems(7) by (cases m) auto
  have st: "stops ?tail" by (cases ms) (auto simp: stops_def)
  have "reads_back (snd m)" using Cons.prems(1) by simp
  from this [unfolded reads_back_def, rule_format, OF dm r2(2) st r2(3)]
  obtain r3 where r3: "read_value s n r2 = Inr (snd m, r3)" "drop (r_i r3) s = ?tail" "r_mem r3 = []"
    by blast
  have sk: "span is_ws s (r_i r3) = r_i r3"
    by (rule skip_none [of _ _ "hd ?tail" "tl ?tail"]) (use r3(2) st in \<open>auto simp: stops_def is_ws_def\<close>)
  have eq: "read_rest s n object k its r =
      (if at_char s (r_i r3) 0x2c
       then read_rest s n object k' (its @ [m]) ((skip_ws s r3)\<lparr>r_i := r_i r3 + 1\<rparr>)
       else if at_char s (r_i r3) ?close
       then Inr (items_of object (its @ [m]), (skip_ws s r3)\<lparr>r_i := r_i r3 + 1\<rparr>)
       else bad (if object then Expected_comma_or_brace else Expected_comma_or_bracket) (skip_ws s r3))"
    using k a(1) r2(1) r3(1) key sk by (simp add: Let_def split del: if_split cong: if_cong)
  show ?case
  proof (cases ms)
    case Nil
    then have dc: "drop (r_i r3) s = ?close # rest" using r3(2) by simp
    show ?thesis unfolding eq using Nil r3(3) drop_ConsD [OF dc] at_char_drop [OF dc]
      by (auto simp: dc)
  next
    case (Cons m2 ms2)
    then have dc: "drop (r_i r3) s = 0x2c # 0x20 # mtext object m2 @ mrest object ms2 @ ?close # rest"
      using r3(2) by simp
    have d2: "drop (Suc (r_i r3)) s = 0x20 # mtext object m2 @ mrest object ms2 @ ?close # rest"
      using drop_ConsD [OF dc] by simp
    obtain c xs where c: "mtext object m2 = c # xs" "\<not> is_ws c"
      using jtext_start [of n "snd m2"] Cons.prems(2) Cons
      by (cases object) (auto simp: mtext_def jstring_def is_ws_def)
    have sp: "span is_ws s (Suc (r_i r3)) = Suc (Suc (r_i r3))"
      using skip_one [of "Suc (r_i r3)" s c] d2 c by simp
    let ?r4 = "(skip_ws s r3)\<lparr>r_i := r_i r3 + 1\<rparr>"
    have "drop (span is_ws s (r_i ?r4)) s = mtext object (hd ms) @ mrest object (tl ms) @ ?close # rest"
      using drop_ConsD [OF d2] sp Cons by simp
    then have "\<exists>r'. read_rest s n object k' (its @ [m]) ?r4 = Inr (items_of object ((its @ [m]) @ ms), r') \<and>
        drop (r_i r') s = rest \<and> r_mem r' = []"
      using Cons.prems k Cons r3(3) by (intro Cons.IH) auto
    then show ?thesis unfolding eq using at_char_drop [OF dc] by simp
  qed
qed simp

lemma length_mrest: "length ms \<le> length (mrest object ms)"
  by (induction ms) auto

text \<open>An opening bracket or brace, then items or the closing one.\<close>

lemma read_items_back:
  assumes "\<And>m. m \<in> set ms \<Longrightarrow> reads_back (snd m)" and "\<forall>m \<in> set ms. depth_ok n (snd m)"
    and "drop (r_i r) s = c # (case ms of [] \<Rightarrow> [] | m # ms \<Rightarrow> mtext object m @ mrest object ms) @
           (if object then 0x7d else 0x5d) # rest"
    and "r_mem r = []" and "\<not> object \<longrightarrow> (\<forall>m \<in> set ms. fst m = [])"
  shows "\<exists>r'. read_items s n object r = Inr (items_of object ms, r') \<and>
    drop (r_i r') s = rest \<and> r_mem r' = []"
proof -
  let ?close = "if object then 0x7d else 0x5d :: u8"
  let ?r1 = "skip_ws s (r\<lparr>r_i := r_i r + 1\<rparr>)"
  note d1 = drop_ConsD [OF assms(3), THEN conjunct2, THEN conjunct2]
  have eq: "read_items s n object r =
      (if at_char s (r_i ?r1) ?close then Inr (items_of object [], ?r1\<lparr>r_i := r_i ?r1 + 1\<rparr>)
       else read_rest s n object (length s) [] ?r1)"
    by (simp add: Let_def)
  show ?thesis
  proof (cases ms)
    case Nil
    then have d: "drop (Suc (r_i r)) s = ?close # rest" using d1 by simp
    have "span is_ws s (Suc (r_i r)) = Suc (r_i r)"
      using skip_none [OF d] by (simp add: is_ws_def)
    then show ?thesis unfolding eq using Nil at_char_drop [OF d] drop_ConsD [OF d] assms(4) by simp
  next
    case (Cons m ms2)
    then have d: "drop (Suc (r_i r)) s = mtext object m @ mrest object ms2 @ ?close # rest"
      using d1 by simp
    obtain c' xs where c: "mtext object m = c' # xs" "\<not> is_ws c'" "c' \<noteq> 0x5d" "c' \<noteq> 0x7d"
      using jtext_start [of n "snd m"] assms(2) Cons
      by (cases object) (auto simp: mtext_def jstring_def is_ws_def)
    have sp: "span is_ws s (Suc (r_i r)) = Suc (r_i r)" using skip_none [of "Suc (r_i r)" s c'] d c by simp
    have nclose: "\<not> at_char s (r_i ?r1) ?close" using at_char_drop [OF d] sp c by simp
    have "length (mrest object ms2) < length s" using arg_cong [OF d, of length] c by simp
    then have len: "length ms \<le> length s" using length_mrest [of ms2 object] Cons by simp
    have "\<exists>r'. read_rest s n object (length s) [] ?r1 = Inr (items_of object ([] @ ms), r') \<and>
        drop (r_i r') s = rest \<and> r_mem r' = []"
      by (rule read_rest_back) (use assms Cons len d sp in auto)
    then show ?thesis unfolding eq using nclose by simp
  qed
qed

lemma literal_back:
  "drop (r_i r) s = w @ rest \<Longrightarrow> r_mem r = [] \<Longrightarrow>
     \<exists>r'. literal s w v r = Inr (v, r') \<and> drop (r_i r') s = rest \<and> r_mem r' = []"
  using drop_append_next [of "r_i r" s w rest] by (simp add: literal_def)

lemma read_value_dispatch:
  assumes "drop (span is_ws s (r_i r)) s = c # xs"
  shows "read_value s (Suc n) r =
    (if c = 0x7b then read_items s n True (skip_ws s r)
     else if c = 0x5b then read_items s n False (skip_ws s r)
     else if c = 0x22 then
       (case read_string s (skip_ws s r) of Inl e \<Rightarrow> Inl e | Inr (w, r') \<Rightarrow> Inr (JString w, r'))
     else if c = 0x74 then literal s (lit ''true'') JTrue (skip_ws s r)
     else if c = 0x66 then literal s (lit ''false'') JFalse (skip_ws s r)
     else if c = 0x6e then literal s (lit ''null'') JNull (skip_ws s r)
     else read_number s (skip_ws s r))"
  using drop_ConsD [OF assms] by (simp add: Let_def del: read_items.simps)

lemma jtext_reads_back: "reads_back v"
proof (induction v rule: json.induct)
  case JNull
  show ?case unfolding reads_back_def
  proof (intro allI impI)
    fix s and r :: reader and n rest
    assume a: "depth_ok n JNull" "drop (span is_ws s (r_i r)) s = jtext JNull @ rest" "r_mem r = []"
    obtain n' where n: "n = Suc n'" using a(1) by (cases n) auto
    have d: "drop (r_i (skip_ws s r)) s = lit ''null'' @ rest" using a(2) by simp
    show "\<exists>r'. read_value s n r = Inr (JNull, r') \<and> drop (r_i r') s = rest \<and> r_mem r' = []"
      using literal_back [OF d, of JNull] a(3) read_value_dispatch [of s r "0x6e"] a(2)
      by (simp add: n lit_def)
  qed
next
  case JFalse
  show ?case unfolding reads_back_def
  proof (intro allI impI)
    fix s and r :: reader and n rest
    assume a: "depth_ok n JFalse" "drop (span is_ws s (r_i r)) s = jtext JFalse @ rest" "r_mem r = []"
    obtain n' where n: "n = Suc n'" using a(1) by (cases n) auto
    have d: "drop (r_i (skip_ws s r)) s = lit ''false'' @ rest" using a(2) by simp
    show "\<exists>r'. read_value s n r = Inr (JFalse, r') \<and> drop (r_i r') s = rest \<and> r_mem r' = []"
      using literal_back [OF d, of JFalse] a(3) read_value_dispatch [of s r "0x66"] a(2)
      by (simp add: n lit_def)
  qed
next
  case JTrue
  show ?case unfolding reads_back_def
  proof (intro allI impI)
    fix s and r :: reader and n rest
    assume a: "depth_ok n JTrue" "drop (span is_ws s (r_i r)) s = jtext JTrue @ rest" "r_mem r = []"
    obtain n' where n: "n = Suc n'" using a(1) by (cases n) auto
    have d: "drop (r_i (skip_ws s r)) s = lit ''true'' @ rest" using a(2) by simp
    show "\<exists>r'. read_value s n r = Inr (JTrue, r') \<and> drop (r_i r') s = rest \<and> r_mem r' = []"
      using literal_back [OF d, of JTrue] a(3) read_value_dispatch [of s r "0x74"] a(2)
      by (simp add: n lit_def)
  qed
next
  case (JNumber t)
  show ?case unfolding reads_back_def
  proof (intro allI impI)
    fix s and r :: reader and n rest
    assume a: "depth_ok n (JNumber t)" "drop (span is_ws s (r_i r)) s = jtext (JNumber t) @ rest"
      "stops rest" "r_mem r = []"
    obtain n' where n: "n = Suc n'" and t: "number_text t" using a(1) by (cases n) auto
    obtain c xs where c: "t = c # xs" "c = 0x2d \<or> is_digit c"
      using number_text_start [OF t] by (cases t) auto
    have d: "drop (r_i (skip_ws s r)) s = t @ rest" using a(2) by simp
    show "\<exists>r'. read_value s n r = Inr (JNumber t, r') \<and> drop (r_i r') s = rest \<and> r_mem r' = []"
      using read_number_back [OF d t a(3)] a(4) read_value_dispatch [of s r c] a(2) c
      by (auto simp: n is_digit_def)
  qed
next
  case (JString t)
  show ?case unfolding reads_back_def
  proof (intro allI impI)
    fix s and r :: reader and n rest
    assume a: "depth_ok n (JString t)" "drop (span is_ws s (r_i r)) s = jtext (JString t) @ rest"
      "r_mem r = []"
    obtain n' where n: "n = Suc n'" using a(1) by (cases n) auto
    have d: "drop (r_i (skip_ws s r)) s = jstring t @ rest" using a(2) by simp
    show "\<exists>r'. read_value s n r = Inr (JString t, r') \<and> drop (r_i r') s = rest \<and> r_mem r' = []"
      using read_string_back [OF d] a(3) read_value_dispatch [of s r "0x22"] a(2)
      by (auto simp: n jstring_def)
  qed
next
  case (JArray vs)
  show ?case unfolding reads_back_def
  proof (intro allI impI)
    fix s and r :: reader and n rest
    assume a: "depth_ok n (JArray vs)" "drop (span is_ws s (r_i r)) s = jtext (JArray vs) @ rest"
      "r_mem r = []"
    obtain n' where n: "n = Suc n'" and ok: "\<forall>v \<in> set vs. depth_ok n' v" using a(1) by (cases n) auto
    have tx: "jtext (JArray vs) = 0x5b # (case map (Pair []) vs of [] \<Rightarrow> []
        | m # ms \<Rightarrow> mtext False m @ mrest False ms) @ [0x5d]"
      by (cases vs) (simp_all add: jitems_mrest mtext_def)
    have "\<exists>r'. read_items s n' False (skip_ws s r) = Inr (items_of False (map (Pair []) vs), r') \<and>
        drop (r_i r') s = rest \<and> r_mem r' = []"
      by (rule read_items_back [where c = "0x5b"]) (use JArray ok a tx in auto)
    then show "\<exists>r'. read_value s n r = Inr (JArray vs, r') \<and> drop (r_i r') s = rest \<and> r_mem r' = []"
      using read_value_dispatch [of s r "0x5b"] a(2) tx
      by (auto simp: n items_of_def comp_def simp del: read_items.simps)
  qed
next
  case (JObject ms)
  show ?case unfolding reads_back_def
  proof (intro allI impI)
    fix s and r :: reader and n rest
    assume a: "depth_ok n (JObject ms)" "drop (span is_ws s (r_i r)) s = jtext (JObject ms) @ rest"
      "r_mem r = []"
    obtain n' where n: "n = Suc n'" and ok: "\<forall>m \<in> set ms. depth_ok n' (snd m)" using a(1) by (cases n) auto
    have tx: "jtext (JObject ms) = 0x7b # (case ms of [] \<Rightarrow> []
        | m # ms \<Rightarrow> mtext True m @ mrest True ms) @ [0x7d]"
      by (cases ms) (auto simp: jmembers_mrest mtext_def)
    have rb: "reads_back (snd m)" if "m \<in> set ms" for m
      using JObject [OF that, of "snd m"] by (cases m) auto
    have "\<exists>r'. read_items s n' True (skip_ws s r) = Inr (items_of True ms, r') \<and>
        drop (r_i r') s = rest \<and> r_mem r' = []"
      by (rule read_items_back [where c = "0x7b"]) (use rb ok a tx in auto)
    then show "\<exists>r'. read_value s n r = Inr (JObject ms, r') \<and> drop (r_i r') s = rest \<and> r_mem r' = []"
      using read_value_dispatch [of s r "0x7b"] a(2) tx
      by (auto simp: n items_of_def simp del: read_items.simps)
  qed
qed

lemma json_parse_back:
  assumes "depth_ok MAX_DEPTH v"
  shows "json_parse [] (jtext v) = Inr v"
proof -
  obtain r where a: "arena_alloc NODE_SIZE \<lparr>r_i = 0, r_blocks = [], r_mem = []\<rparr> = (True, r)"
      "r_i r = 0" "r_mem r = []"
    using arena_granted [of "\<lparr>r_i = 0, r_blocks = [], r_mem = []\<rparr>"] by auto
  obtain c xs where c: "jtext v = c # xs" "\<not> is_ws c" using jtext_start [OF assms] by blast
  then have "span is_ws (jtext v) 0 = 0" by (intro span_stop) auto
  then have d: "drop (span is_ws (jtext v) (r_i r)) (jtext v) = jtext v @ []" using a(2) by simp
  obtain r' where r': "read_value (jtext v) MAX_DEPTH r = Inr (v, r')" "drop (r_i r') (jtext v) = []"
    using jtext_reads_back [of v, unfolded reads_back_def, rule_format, OF assms d _ a(3)]
    by (auto simp: stops_def)
  have le: "r_i r' \<le> length (jtext v)" using read_value_total(1) [of r "jtext v" MAX_DEPTH] a(2) r'(1) by simp
  then have "r_i r' = length (jtext v)" using r'(2) by simp
  then show ?thesis using a r' by (simp add: json_parse_def Let_def span_stop)
qed

section \<open>What the reader returns\<close>

lemma read_value_depth:
  "read_value s left r = Inr (v, r') \<Longrightarrow> depth_ok left v"
  "read_items s left object r = Inr (v, r') \<Longrightarrow> depth_ok (Suc left) v"
  "read_rest s left object k its r = Inr (v, r') \<Longrightarrow> \<forall>m \<in> set its. depth_ok left (snd m) \<Longrightarrow>
     depth_ok (Suc left) v"
proof (induction s left r and s left object r and s left object k its r arbitrary: v r' and v r' and v r'
    rule: read_value_read_items_read_rest.induct)
  case (1 s r)
  then show ?case by (simp add: bad_def)
next
  case (2 s left r)
  define r1 where "r1 = skip_ws s r"
  have eq: "read_value s (Suc left) r =
      (if r_i r1 \<ge> length s then bad Unexpected_end r1
       else if s ! r_i r1 = 0x7b then read_items s left True r1
       else if s ! r_i r1 = 0x5b then read_items s left False r1
       else if s ! r_i r1 = 0x22 then
         (case read_string s r1 of Inl e \<Rightarrow> Inl e | Inr (w, r') \<Rightarrow> Inr (JString w, r'))
       else if s ! r_i r1 = 0x74 then literal s (lit ''true'') JTrue r1
       else if s ! r_i r1 = 0x66 then literal s (lit ''false'') JFalse r1
       else if s ! r_i r1 = 0x6e then literal s (lit ''null'') JNull r1
       else read_number s r1)"
    by (simp add: r1_def Let_def del: read_items.simps)
  show ?case
  proof (cases "r_i r1 < length s \<and> (s ! r_i r1 = 0x7b \<or> s ! r_i r1 = 0x5b)")
    case True
    then show ?thesis
      using 2(1) [OF r1_def _ refl, of v r'] 2(2) [OF r1_def _ refl, of v r'] 2(3) eq
      by (auto simp del: read_items.simps)
  next
    case False
    then show ?thesis using 2(3) number_end_take [of s "r_i r1"] unfolding eq
      by (auto simp: bad_def literal_def read_number_def simp del: read_items.simps
          split: if_splits sum.splits option.splits prod.splits)
  qed
next
  case (3 s left object r)
  define r1 where "r1 = skip_ws s (r\<lparr>r_i := r_i r + 1\<rparr>)"
  have eq: "read_items s left object r =
      (if at_char s (r_i r1) (if object then 0x7d else 0x5d)
       then Inr (items_of object [], r1\<lparr>r_i := r_i r1 + 1\<rparr>)
       else read_rest s left object (length s) [] r1)"
    by (simp add: r1_def Let_def)
  show ?case
  proof (cases "at_char s (r_i r1) (if object then 0x7d else 0x5d)")
    case True
    then show ?thesis using 3(2) unfolding eq by (auto simp: items_of_def)
  next
    case False
    then show ?thesis using 3(1) [OF refl r1_def False, of v r'] 3(2) unfolding eq by simp
  qed
next
  case (4 s left object its r)
  then show ?case by simp
next
  case (5 s left object k its r)
  obtain ok r1 where a: "arena_alloc NODE_SIZE r = (ok, r1)" by force
  have ok: "ok" using 5(3) a by (auto simp: bad_def split: if_splits)
  obtain ky r3 where kr: "read_key s object (skip_ws s r1) = Inr (ky, r3)"
    using 5(3) a ok by (auto split: sum.splits)
  obtain x r4 where vr: "read_value s left r3 = Inr (x, r4)"
    using 5(3) a ok kr by (auto split: sum.splits)
  define r5 where "r5 = skip_ws s r4"
  have x: "depth_ok left x" using 5(1) [OF refl a [symmetric] _ kr refl vr] ok by simp
  then have its: "\<forall>m \<in> set (its @ [(ky, x)]). depth_ok left (snd m)" using 5(4) by auto
  have eq: "read_rest s left object (Suc k) its r =
      (if at_char s (r_i r5) 0x2c
       then read_rest s left object k (its @ [(ky, x)]) (r5\<lparr>r_i := r_i r5 + 1\<rparr>)
       else if at_char s (r_i r5) (if object then 0x7d else 0x5d)
       then Inr (items_of object (its @ [(ky, x)]), r5\<lparr>r_i := r_i r5 + 1\<rparr>)
       else bad (if object then Expected_comma_or_brace else Expected_comma_or_bracket) r5)"
    using a ok kr vr by (simp add: r5_def Let_def)
  show ?case
  proof (cases "at_char s (r_i r5) 0x2c")
    case True
    then show ?thesis
      using 5(2) [OF refl a [symmetric] _ kr refl vr refl r5_def refl True _ its] ok 5(3) True unfolding eq by simp
  next
    case False
    then show ?thesis using 5(3) its unfolding eq
      by (auto simp: bad_def items_of_def split: if_splits)
  qed
qed

lemma json_parse_depth: "json_parse m s = Inr v \<Longrightarrow> depth_ok MAX_DEPTH v"
  by (auto simp: json_parse_def Let_def split: prod.splits if_splits sum.splits
      dest: read_value_depth(1))

lemma json_write_puts: "puts (jtext v) b (json_write v b)"
  by (simp add: json_write_def write_value_puts(1))

lemma write_ok:
  "buf_ok b \<Longrightarrow> buf_ok (write_value v b)"
  "buf_ok b \<Longrightarrow> buf_ok (write_items first vs b)"
  "buf_ok b \<Longrightarrow> buf_ok (write_members first ms b)"
proof -
  have str: "buf_ok b \<Longrightarrow> buf_ok (json_write_str w b)" for w b
  proof -
    assume b: "buf_ok b"
    have "buf_ok (fst (fold (write_str_step w) [0..<length w] (buf_put [0x22] b, 0)))"
      by (rule fold_invariant_list [where P = "\<lambda>st. buf_ok (fst st)"])
         (auto simp: write_str_step_def b buf_put_ok split: prod.splits option.splits)
    then show ?thesis by (auto simp: json_write_str_def buf_put_ok split: prod.splits)
  qed
  show "buf_ok b \<Longrightarrow> buf_ok (write_value v b)"
    "buf_ok b \<Longrightarrow> buf_ok (write_items first vs b)"
    "buf_ok b \<Longrightarrow> buf_ok (write_members first ms b)"
    by (induction v b and first vs b and first ms b
        rule: write_value_write_items_write_members.induct) (auto simp: buf_put_ok str)
qed

lemma MAX_DEPTH_Suc: "MAX_DEPTH = Suc (Suc 126)"
  by (simp add: MAX_DEPTH_def)

lemma depth_ok_pair:
  "number_text t \<Longrightarrow> depth_ok (Suc (Suc n)) (JArray [JNumber t, JString w])"
  by simp

lemma depth_ok_null: "depth_ok (Suc n) JNull"
  by simp

section \<open>Properties\<close>

text \<open>
  C10. What the writer writes the reader reads back: for every value of at most 128 levels whose
  numbers are number texts, with any bytes in its strings and keys, the text in the buffer reads
  as that value, unless the buffer ran out of memory.
\<close>

theorem json_round_trip:
  assumes "depth_ok MAX_DEPTH v" and "b_p b = []" and "\<not> b_oom (json_write v b)"
  shows "json_parse [] (b_p (json_write v b)) = Inr v"
  using json_write_puts [of v b] json_parse_back [OF assms(1)] assms(2,3) by (simp add: puts_def)

theorem json_round_trip_witness:
  "json_parse [] (b_p (json_write (JArray [JNumber [0x37], JString [0x0a, 0xe9]])
     \<lparr>b_p = [], b_cap = 0, b_oom = False, b_mem = []\<rparr>)) =
   Inr (JArray [JNumber [0x37], JString [0x0a, 0xe9]])"
proof (rule json_round_trip)
  have "span is_digit [0x37] 0 = 1"
    using span_step [of 0 "[0x37]" is_digit] span_stop [of 1 "[0x37]" is_digit] by (simp add: is_digit_def)
  then have "number_text [0x37]"
    by (simp add: number_text_def number_end_def num_int_def num_frac_def
        num_exp_def at_char_def at_digit_def is_digit_def Let_def)
  then show "depth_ok MAX_DEPTH (JArray [JNumber [0x37], JString [0x0a, 0xe9]])"
    unfolding MAX_DEPTH_Suc by (rule depth_ok_pair)
  show "\<not> b_oom (json_write (JArray [JNumber [0x37], JString [0x0a, 0xe9]])
      \<lparr>b_p = [], b_cap = 0, b_oom = False, b_mem = []\<rparr>)"
    by (simp add: json_write_def json_write_str_def buf_put_def write_str_step_def escape_def)
qed simp

text \<open>
  C11. Reading is a normal form of writing: whatever the reader returned, writing it and reading
  that again gives the same value.
\<close>

theorem json_reparse:
  assumes "json_parse m s = Inr v" and "b_p b = []" and "\<not> b_oom (json_write v b)"
  shows "json_parse [] (b_p (json_write v b)) = Inr v"
  using json_write_puts [of v b] json_parse_back [OF json_parse_depth [OF assms(1)]] assms(2,3)
  by (simp add: puts_def)

theorem json_reparse_witness:
  "json_parse [] (b_p (json_write JNull \<lparr>b_p = [], b_cap = 0, b_oom = False, b_mem = []\<rparr>)) = Inr JNull"
proof (rule json_reparse)
  show "json_parse [] (jtext JNull) = Inr JNull"
    by (rule json_parse_back) (unfold MAX_DEPTH_Suc, rule depth_ok_null)
qed (simp_all add: json_write_def buf_put_def)

text \<open>
  C12. The reader always ends, with a value or with an error at a place within the text: the loop
  over items never runs out of its count, and no offset is past the end.
\<close>

theorem json_parse_ends:
  "case json_parse m s of Inr v \<Rightarrow> depth_ok MAX_DEPTH v
     | Inl e \<Rightarrow> e = JNoMem \<or> (\<exists>why k. e = JBad why k \<and> k \<le> length s)"
  by (auto split: sum.split dest: json_parse_depth json_parse_error)

text \<open>
  C13. Nothing is written past its space. A string that \<open>read_string\<close> returns lies with its closing
  NUL between a place in the arena's newest block and what the block has given out, which is no
  more than it has; the place is the end of what the block had given out before, or the start of a
  block made for it. The buffer of the writer always has room for its closing NUL.
\<close>

theorem json_in_bounds:
  assumes "arena_ok r"
  shows "(\<forall>d r'. read_string s r = Inr (d, r') \<longrightarrow>
      (\<exists>off used cap bs. r_blocks r' = (used, cap) # bs \<and> off + length d + 1 \<le> used \<and> used \<le> cap \<and>
         (r_blocks r = (off, cap) # bs \<or> off = 0 \<and> bs = r_blocks r))) \<and>
   (b_p b = [] \<or> length (b_p b) < b_cap b \<longrightarrow>
      b_p (json_write v b) = [] \<or> length (b_p (json_write v b)) < b_cap (json_write v b))"
proof (intro conjI allI impI)
  fix d r' assume rd: "read_string s r = Inr (d, r')"
  let ?i = "r_i r + 1"
  obtain e r2 where e: "str_end s ?i = Inr e" "arena_alloc (e - ?i + 1) (r\<lparr>r_i := ?i\<rparr>) = (True, r2)"
      "str_decode s e ?i [] = Inr d" "r' = r2\<lparr>r_i := e + 1\<rparr>"
    using rd by (auto simp: read_string_def bad_def Let_def split: sum.splits prod.splits if_splits)
  have len: "length d \<le> e - ?i" using str_decode_length [OF e(3)] by simp
  have n: "e - ?i + 1 \<le> (e - ?i + 1 + 15) div 16 * 16" by linarith
  show "\<exists>off used cap bs. r_blocks r' = (used, cap) # bs \<and> off + length d + 1 \<le> used \<and> used \<le> cap \<and>
      (r_blocks r = (off, cap) # bs \<or> off = 0 \<and> bs = r_blocks r)"
    using e(2,4) len n assms
    by (auto simp: arena_alloc_def arena_ok_def Let_def split: list.splits prod.splits if_splits)
next
  assume "b_p b = [] \<or> length (b_p b) < b_cap b"
  then show "b_p (json_write v b) = [] \<or> length (b_p (json_write v b)) < b_cap (json_write v b)"
    using write_ok(1) [of b v] by (auto simp: buf_ok_def json_write_def)
qed

definition start_reader :: reader where
  "start_reader = \<lparr>r_i = 0, r_blocks = [(16, 65536)], r_mem = []\<rparr>"

lemma read_one_char:
  "read_string [0x22, 0x5c, 0x6e, 0x22] start_reader =
     Inr ([0x0a], \<lparr>r_i = 4, r_blocks = [(32, 65536)], r_mem = []\<rparr>)"
proof -
  have "str_end [0x22, 0x5c, 0x6e, 0x22] 1 = Inr 3"
    by (subst str_end.simps, simp, subst str_end.simps, simp)
  moreover have "str_decode [0x22, 0x5c, 0x6e, 0x22] 3 1 [] = Inr [0x0a]"
    by (subst str_decode.simps, simp add: simple_escape_def, subst str_decode.simps, simp)
  ultimately show ?thesis
    by (simp add: read_string_def start_reader_def arena_alloc_def Let_def)
qed

theorem json_in_bounds_witness:
  "\<exists>off. off + 2 \<le> (32 :: nat) \<and> (off = 16 \<or> off = 0)"
proof -
  have ok: "arena_ok start_reader" by (simp add: arena_ok_def start_reader_def)
  from json_in_bounds [OF ok, THEN conjunct1, rule_format, OF read_one_char]
  show ?thesis by (auto simp: start_reader_def)
qed

end
