(* ===== verification/Hash_Stream.thy ===== *)
theory Hash_Stream
  imports Prelude
begin

text \<open>
  What \<open>src/common/sha256.c\<close> and \<open>src/common/md5.c\<close> share: a message taken in pieces of any
  size, compressed in blocks of 64 bytes, with the bytes of an unfinished block waiting in a
  buffer. The interface is what a caller relies on; each of the two provides it.
\<close>

section \<open>Blocks\<close>

fun blocks :: "('h \<Rightarrow> bytes \<Rightarrow> 'h) \<Rightarrow> 'h \<Rightarrow> bytes \<Rightarrow> nat \<Rightarrow> 'h" where
  "blocks f h p 0 = h"
| "blocks f h p (Suc nb) = blocks f (f h (take 64 p)) (drop 64 p) nb"

lemma blocks_append:
  "length a = 64 * i \<Longrightarrow> blocks f h (a @ b) (i + j) = blocks f (blocks f h a i) b j"
  by (induction i arbitrary: h a) auto

lemma blocks_prefix: "64 * i \<le> length a \<Longrightarrow> blocks f h (a @ b) i = blocks f h a i"
  by (induction i arbitrary: h a) auto

lemma blocks_split:
  "length a = 64 * i \<Longrightarrow> blocks f h (a @ b) (length (a @ b) div 64) = blocks f (blocks f h a i) b (length b div 64)"
  using blocks_append [of a i f h b "length b div 64"] by simp

text \<open>\<open>memcpy(buf + at, p, length p)\<close>.\<close>

definition put_at :: "nat \<Rightarrow> bytes \<Rightarrow> bytes \<Rightarrow> bytes" where
  "put_at i p buf = take i buf @ p @ drop (i + length p) buf"

lemma length_put_at [simp]: "i + length p \<le> length buf \<Longrightarrow> length (put_at i p buf) = length buf"
  by (simp add: put_at_def)

lemma take_put_at: "i + length p \<le> length buf \<Longrightarrow> take (i + length p) (put_at i p buf) = take i buf @ p"
  by (simp add: put_at_def)

section \<open>A state that holds a message\<close>

text \<open>
  After the message \<open>m\<close>: its whole blocks are compressed into \<open>h\<close>, the rest is at the start of
  the buffer.
\<close>

definition holding :: "('h \<Rightarrow> bytes \<Rightarrow> 'h) \<Rightarrow> 'h \<Rightarrow> bytes \<Rightarrow> 'h \<Rightarrow> bytes \<Rightarrow> nat \<Rightarrow> bool" where
  "holding f h0 m h buf n \<longleftrightarrow>
     length buf = 64 \<and> n = length m mod 64 \<and> h = blocks f h0 m (length m div 64) \<and>
     take n buf = drop (length m div 64 * 64) m"

lemma holding_less: "holding f h0 m h buf n \<Longrightarrow> n < 64"
  by (simp add: holding_def)

lemma holding_init: "length buf = 64 \<Longrightarrow> holding f h0 [] h0 buf 0"
  by (simp add: holding_def)

lemma absorb_holding:
  assumes "length m mod 64 = 0" and "h = blocks f h0 m (length m div 64)" and "length buf = 64"
    and "q = drop (length p div 64 * 64) p"
  shows "holding f h0 (m @ p) (blocks f h p (length p div 64)) (put_at 0 q buf) (length q)"
proof -
  obtain i where i: "length m = 64 * i" using assms(1) by (metis mod_0_imp_dvd dvdE)
  have q: "length q = length p mod 64" using assms(4) by (simp add: minus_div_mult_eq_mod)
  have "blocks f h0 (m @ p) (length (m @ p) div 64) = blocks f h p (length p div 64)"
    using blocks_split [OF i, of f h0 p] assms(2) i by simp
  moreover have "length (m @ p) mod 64 = length q" using i q by simp
  moreover have "drop (length (m @ p) div 64 * 64) (m @ p) = q"
    using i assms(4) by simp
  moreover have "length q < 64" using q by simp
  ultimately show ?thesis using take_put_at [of 0 q buf] assms(3) by (simp add: holding_def)
qed

lemma fill_holding:
  assumes "holding f h0 m h buf n" and "n + length p < 64"
  shows "holding f h0 (m @ p) h (put_at n p buf) (n + length p)"
proof -
  have n: "n = length m mod 64" using assms(1) by (simp add: holding_def)
  have e: "length (m @ p) = 64 * (length m div 64) + (n + length p)" using n by simp
  have d: "length (m @ p) div 64 = length m div 64" and md: "length (m @ p) mod 64 = n + length p"
    unfolding e using assms(2) by (simp_all only: div_mult_self4 mod_mult_self4) auto
  have le: "length m div 64 * 64 \<le> length m" by simp
  have "blocks f h0 (m @ p) (length m div 64) = h"
    using assms(1) by (subst blocks_prefix) (auto simp: holding_def)
  moreover have "length buf = 64" and tl: "take n buf = drop (length m div 64 * 64) m"
    using assms(1) by (auto simp: holding_def)
  moreover have "take (n + length p) (put_at n p buf) = drop (length m div 64 * 64) (m @ p)"
    using take_put_at [of n p buf] assms(2) calculation(2) le by (simp add: tl)
  ultimately show ?thesis using assms(2) unfolding holding_def d md by simp
qed

lemma full_holding:
  assumes "holding f h0 m h buf n" and "n + length p = 64" and "p \<noteq> []"
  shows "length (m @ p) mod 64 = 0" "blocks f h0 (m @ p) (length (m @ p) div 64) = f h (put_at n p buf)"
    "length (put_at n p buf) = 64"
proof -
  let ?i = "length m div 64"
  have n: "n = length m mod 64" and buf: "length buf = 64"
    and h: "h = blocks f h0 m ?i" and tl: "take n buf = drop (?i * 64) m"
    using assms(1) by (auto simp: holding_def)
  have len: "length (m @ p) = 64 * (?i + 1)"
  proof -
    have "length m = 64 * ?i + n" using n by simp
    then show ?thesis using assms(2) by simp
  qed
  then show "length (m @ p) mod 64 = 0" by simp
  show "length (put_at n p buf) = 64" using assms(2) buf by simp
  have put: "put_at n p buf = take n buf @ p" using assms(2) buf by (simp add: put_at_def)
  let ?a = "take (?i * 64) m" and ?b = "drop (?i * 64) m @ p"
  have a: "length ?a = 64 * ?i"
    using div_times_less_eq_dividend [of "length m" 64] by (simp add: min_absorb2)
  have "blocks f h0 (?a @ ?b) (?i + 1) = blocks f (blocks f h0 ?a ?i) ?b 1"
    by (rule blocks_append [OF a])
  also have "blocks f h0 ?a ?i = h"
    using blocks_prefix [of ?i ?a f h0 "drop (?i * 64) m"] a h by simp
  also have "blocks f h ?b 1 = f h (put_at n p buf)"
    using assms(2) buf put by (simp add: tl [symmetric])
  finally have "blocks f h0 (?a @ ?b) (?i + 1) = f h (put_at n p buf)" .
  moreover have "m @ p = ?a @ ?b" by (simp only: append_assoc [symmetric] append_take_drop_id)
  moreover have "length (m @ p) div 64 = ?i + 1"
    unfolding len by (rule nonzero_mult_div_cancel_left) simp
  ultimately show "blocks f h0 (m @ p) (length (m @ p) div 64) = f h (put_at n p buf)"
    by (simp only:)
qed

section \<open>The interface\<close>

locale stream_hash =
  fixes init :: 's
    and update :: "bytes \<Rightarrow> 's \<Rightarrow> 's"
    and digest :: "'s \<Rightarrow> bytes"
    and holds :: "'s \<Rightarrow> bytes \<Rightarrow> bool"
    and hash :: "bytes \<Rightarrow> bytes"
  assumes init_holds: "holds init []"
    and update_holds: "holds s m \<Longrightarrow> holds (update d s) (m @ d)"
    and digest_hash: "holds s m \<Longrightarrow> digest s = hash m"
begin

lemma fold_holds: "holds s m \<Longrightarrow> holds (fold update ds s) (m @ concat ds)"
proof (induction ds arbitrary: s m)
  case (Cons d ds)
  then show ?case using Cons.IH [OF update_holds [OF Cons.prems]] by simp
qed simp

text \<open>Whatever the pieces, the digest is the hash of the whole.\<close>

lemma digest_pieces: "digest (fold update ds init) = hash (concat ds)"
  using digest_hash [OF fold_holds [OF init_holds]] by simp

lemma pieces_irrelevant: "concat ds = concat es \<Longrightarrow> digest (fold update ds init) = digest (fold update es init)"
  by (simp add: digest_pieces)

end

section \<open>Padding\<close>

text \<open>The bytes of a digest as lowercase hexadecimal digits.\<close>

definition hex_lower :: "u8 \<Rightarrow> u8" where
  "hex_lower d = (if d < 10 then 0x30 + d else 0x57 + d)"

definition hex_bytes :: "bytes \<Rightarrow> bytes" where
  "hex_bytes bs = concat (map (\<lambda>b. [hex_lower (drop_bit 4 b), hex_lower (b AND 15)]) bs)"

text \<open>
  The standard's padding: a one bit, zeros up to eight bytes short of a block, the length in
  bits in the byte order of the hash.
\<close>

definition padded :: "(u64 \<Rightarrow> bytes) \<Rightarrow> bytes \<Rightarrow> bytes" where
  "padded enc m =
     m @ 0x80 # replicate ((119 - length m mod 64) mod 64) 0 @ enc (of_nat (8 * length m))"

definition pad_block :: "(u64 \<Rightarrow> bytes) \<Rightarrow> nat \<Rightarrow> u64 \<Rightarrow> bytes" where
  "pad_block enc n bits =
     (let k = (if n < 56 then 56 else 120) - n in 0x80 # replicate (k - 1) 0 @ enc bits)"

lemma padded_eq:
  assumes "n = length m mod 64"
  shows "padded enc m = m @ pad_block enc n (of_nat (8 * length m))"
proof -
  have "(119 - n) mod 64 = (if n < 56 then 56 else 120) - n - 1"
  proof (cases "n < 56")
    case True
    then have e: "119 - n = 64 + (55 - n)" by simp
    have "(119 - n) mod 64 = (55 - n) mod 64" unfolding e by (simp only: mod_add_self1)
    then show ?thesis using True by simp
  next
    case False
    moreover have "n < 64" using assms by simp
    ultimately show ?thesis by simp
  qed
  then show ?thesis using assms by (simp add: padded_def pad_block_def Let_def)
qed

lemma length_pad_block:
  "n < 64 \<Longrightarrow> length (enc bits) = 8 \<Longrightarrow>
     length (pad_block enc n bits) = (if n < 56 then 64 else 128) - n"
  by (simp add: pad_block_def Let_def, arith)

lemma padded_blocks:
  assumes "\<And>x. length (enc x) = 8"
  shows "length (padded enc m) mod 64 = 0"
proof -
  let ?n = "length m mod 64"
  have n: "?n < 64" by simp
  have "length (padded enc m) = length m + ((if ?n < 56 then 64 else 128) - ?n)"
    using padded_eq [OF refl, of enc m] length_pad_block [OF n assms] by simp
  also have "\<dots> mod 64 = (?n + ((if ?n < 56 then 64 else 128) - ?n)) mod 64"
    by (simp add: mod_add_left_eq)
  also have "?n + ((if ?n < 56 then 64 else 128) - ?n) = (if ?n < 56 then 64 else 128)"
    using n by simp
  finally show ?thesis by (simp split: if_splits)
qed

text \<open>The loop that writes the eight bytes of the length into the padding.\<close>

lemma fold_put_bytes:
  "k + n \<le> length xs \<Longrightarrow> fold (\<lambda>i p. p[k + i := g i]) [0..<n] xs = take k xs @ map g [0..<n] @ drop (k + n) xs"
proof (induction n)
  case (Suc n)
  then have "fold (\<lambda>i p. p[k + i := g i]) [0..<n] xs = take k xs @ map g [0..<n] @ drop (k + n) xs" by simp
  moreover have "drop (k + n) xs = xs ! (k + n) # drop (Suc (k + n)) xs"
    using Suc.prems by (simp add: Cons_nth_drop_Suc)
  moreover have "length (take k xs) = k" using Suc.prems by simp
  ultimately show ?case by (simp add: list_update_append)
qed simp

lemma take_of_append: "xs = u @ v \<Longrightarrow> length u = k \<Longrightarrow> take k xs = u"
  by simp

lemma pad_bytes_eq:
  fixes g :: "nat \<Rightarrow> u8"
  assumes "n < 64" and "k = (if n < 56 then 56 else 120) - n"
  shows "take (k + 8) (fold (\<lambda>i p. p[k + i := g i]) [0..<8] (0x80 # replicate 71 0)) =
    0x80 # replicate (k - 1) 0 @ map g [0..<8]"
proof -
  have k: "0 < k" "k + 8 \<le> 72" using assms by (auto split: if_splits)
  have "take k (0x80 # replicate 71 0) = 0x80 # replicate (k - 1) (0 :: u8)"
    using k by (cases k) (auto simp: min_def)
  moreover have "fold (\<lambda>i p. p[k + i := g i]) [0..<8] (0x80 # replicate 71 0) =
      take k (0x80 # replicate 71 0) @ map g [0..<8] @ drop (k + 8) (0x80 # replicate 71 0)"
    using k by (intro fold_put_bytes) simp
  ultimately have "fold (\<lambda>i p. p[k + i := g i]) [0..<8] (0x80 # replicate 71 0) =
      (0x80 # replicate (k - 1) 0 @ map g [0..<8]) @ drop (k + 8) (0x80 # replicate 71 0)"
    by simp
  moreover have "length (0x80 # replicate (k - 1) 0 @ map g [0..<8]) = k + 8" using k by simp
  ultimately show ?thesis by (rule take_of_append)
qed

lemma fold_upt_split: "a \<le> b \<Longrightarrow> b \<le> c \<Longrightarrow> fold f [a..<c] s = fold f [b..<c] (fold f [a..<b] s)"
  using upt_add_eq_append [of a b "c - b"] by simp

end
