(* ===== verification/Sha256.thy ===== *)
theory Sha256
  imports Hash_Stream
begin

text \<open>
  \<open>src/common/sha256.c\<close>: SHA-256 by the portable compression function, taken in pieces. The
  function on the processor's SHA instructions is not modelled: it is made of intrinsics that the
  repository does not define, and the source calls it in place of \<open>blocks_c\<close>.
\<close>

section \<open>The compression function\<close>

definition K :: "u32 list" where
  "K = concat [
   [0x428a2f98, 0x71374491, 0xb5c0fbcf, 0xe9b5dba5],
   [0x3956c25b, 0x59f111f1, 0x923f82a4, 0xab1c5ed5],
   [0xd807aa98, 0x12835b01, 0x243185be, 0x550c7dc3],
   [0x72be5d74, 0x80deb1fe, 0x9bdc06a7, 0xc19bf174],
   [0xe49b69c1, 0xefbe4786, 0x0fc19dc6, 0x240ca1cc],
   [0x2de92c6f, 0x4a7484aa, 0x5cb0a9dc, 0x76f988da],
   [0x983e5152, 0xa831c66d, 0xb00327c8, 0xbf597fc7],
   [0xc6e00bf3, 0xd5a79147, 0x06ca6351, 0x14292967],
   [0x27b70a85, 0x2e1b2138, 0x4d2c6dfc, 0x53380d13],
   [0x650a7354, 0x766a0abb, 0x81c2c92e, 0x92722c85],
   [0xa2bfe8a1, 0xa81a664b, 0xc24b8b70, 0xc76c51a3],
   [0xd192e819, 0xd6990624, 0xf40e3585, 0x106aa070],
   [0x19a4c116, 0x1e376c08, 0x2748774c, 0x34b0bcb5],
   [0x391c0cb3, 0x4ed8aa4a, 0x5b9cca4f, 0x682e6ff3],
   [0x748f82ee, 0x78a5636f, 0x84c87814, 0x8cc70208],
   [0x90befffa, 0xa4506ceb, 0xbef9a3f7, 0xc67178f2]]"

definition ror :: "u32 \<Rightarrow> nat \<Rightarrow> u32" where
  "ror x n = drop_bit n x OR push_bit (32 - n) x"

definition be32_at :: "bytes \<Rightarrow> nat \<Rightarrow> u32" where
  "be32_at p i = push_bit 24 (ucast (p ! (4 * i))) OR push_bit 16 (ucast (p ! (4 * i + 1))) OR
     push_bit 8 (ucast (p ! (4 * i + 2))) OR ucast (p ! (4 * i + 3))"

definition schedule_step :: "nat \<Rightarrow> u32 list \<Rightarrow> u32 list" where
  "schedule_step i w =
     (let s0 = ror (w ! (i - 15)) 7 XOR ror (w ! (i - 15)) 18 XOR drop_bit 3 (w ! (i - 15));
          s1 = ror (w ! (i - 2)) 17 XOR ror (w ! (i - 2)) 19 XOR drop_bit 10 (w ! (i - 2))
      in w @ [w ! (i - 16) + s0 + w ! (i - 7) + s1])"

definition schedule :: "bytes \<Rightarrow> u32 list" where
  "schedule p = fold schedule_step [16..<64] (map (be32_at p) [0..<16])"

text \<open>The working variables \<open>a\<close> to \<open>h\<close> (the source's \<open>k\<close> is the last).\<close>

type_synonym regs = "u32 \<times> u32 \<times> u32 \<times> u32 \<times> u32 \<times> u32 \<times> u32 \<times> u32"

fun round :: "u32 \<Rightarrow> u32 \<Rightarrow> regs \<Rightarrow> regs" where
  "round ki wi (a, b, c, d, e, f, g, k) =
     (let t1 = k + (ror e 6 XOR ror e 11 XOR ror e 25) + ((e AND f) XOR (NOT e AND g)) + ki + wi;
          t2 = (ror a 2 XOR ror a 13 XOR ror a 22) + ((a AND b) XOR (a AND c) XOR (b AND c))
      in (t1 + t2, a, b, c, d + t1, e, f, g))"

definition compress :: "u32 list \<Rightarrow> bytes \<Rightarrow> u32 list" where
  "compress h p =
     (let w = schedule p in
      case fold (\<lambda>i. round (K ! i) (w ! i)) [0..<64]
             (h ! 0, h ! 1, h ! 2, h ! 3, h ! 4, h ! 5, h ! 6, h ! 7) of
        (a, b, c, d, e, f, g, k) \<Rightarrow>
          [h ! 0 + a, h ! 1 + b, h ! 2 + c, h ! 3 + d, h ! 4 + e, h ! 5 + f, h ! 6 + g, h ! 7 + k])"

section \<open>The state and its operations\<close>

record sha256 =
  sh_h :: "u32 list"
  sh_len :: u64
  sh_buf :: bytes
  sh_n :: nat

definition H0 :: "u32 list" where
  "H0 = [0x6a09e667, 0xbb67ae85, 0x3c6ef372, 0xa54ff53a, 0x510e527f, 0x9b05688c, 0x1f83d9ab,
         0x5be0cd19]"

text \<open>The buffer of a state before its first message is whatever the memory held.\<close>

definition sha256_init :: "bytes \<Rightarrow> sha256" where
  "sha256_init buf = \<lparr>sh_h = H0, sh_len = 0, sh_buf = buf, sh_n = 0\<rparr>"

text \<open>The whole blocks of the piece, and what is left of it into the buffer.\<close>

definition sha256_absorb :: "bytes \<Rightarrow> sha256 \<Rightarrow> sha256" where
  "sha256_absorb p s =
     (let (h, q) = (if length p \<ge> 64
                    then (blocks compress (sh_h s) p (length p div 64), drop (length p div 64 * 64) p)
                    else (sh_h s, p))
      in s\<lparr>sh_h := h, sh_buf := put_at 0 q (sh_buf s), sh_n := length q\<rparr>)"

definition sha256_update :: "bytes \<Rightarrow> sha256 \<Rightarrow> sha256" where
  "sha256_update p s =
     (let s = s\<lparr>sh_len := sh_len s + of_nat (length p)\<rparr> in
      if sh_n s \<noteq> 0 then
        let k = (if 64 - sh_n s < length p then 64 - sh_n s else length p);
            s = s\<lparr>sh_buf := put_at (sh_n s) (take k p) (sh_buf s), sh_n := sh_n s + k\<rparr>;
            p = drop k p
        in if sh_n s < 64 then s
           else sha256_absorb p (s\<lparr>sh_h := blocks compress (sh_h s) (sh_buf s) 1, sh_n := 0\<rparr>)
      else sha256_absorb p s)"

definition be64 :: "u64 \<Rightarrow> bytes" where
  "be64 x = map (\<lambda>i. ucast (drop_bit (56 - 8 * i) x)) [0..<8]"

definition HEX :: bytes where
  "HEX = lit ''0123456789abcdef''"

definition hex2 :: "u8 \<Rightarrow> bytes" where
  "hex2 b = [HEX ! unat (drop_bit 4 b), HEX ! unat (b AND 15)]"

definition sha256_out :: "u32 list \<Rightarrow> bytes" where
  "sha256_out h = concat (map (\<lambda>i. concat (map (\<lambda>j.
     hex2 (ucast (drop_bit (24 - 8 * j) (h ! i)))) [0..<4])) [0..<8])"

definition sha256_hex :: "sha256 \<Rightarrow> bytes \<times> sha256" where
  "sha256_hex s =
     (let bits = sh_len s * 8;
          k = (if sh_n s < 56 then 56 else 120) - sh_n s;
          pad = fold (\<lambda>i pad. pad[k + i := ucast (drop_bit (56 - 8 * i) bits)]) [0..<8]
                  (0x80 # replicate 71 0);
          len = sh_len s;
          s' = (sha256_update (take (k + 8) pad) s)\<lparr>sh_len := len\<rparr>
      in (sha256_out (sh_h s'), s'))"

text \<open>
  \<open>janas_sha256_file\<close>: whether the file opened, the answer of the allocator, and what each
  \<open>read\<close> gives: a piece, nothing at the end (\<open>Some []\<close>), or an error.
\<close>

fun read_pieces :: "bytes option list \<Rightarrow> sha256 \<Rightarrow> sha256 option" where
  "read_pieces [] s = Some s"
| "read_pieces (None # rs) s = None"
| "read_pieces (Some [] # rs) s = Some s"
| "read_pieces (Some p # rs) s = read_pieces rs (sha256_update p s)"

definition sha256_file :: "bool \<Rightarrow> mem \<Rightarrow> bytes \<Rightarrow> bytes option list \<Rightarrow> bytes option" where
  "sha256_file opened m buf rs =
     (if \<not> opened then None
      else case malloc m of (ok, _) \<Rightarrow>
        if \<not> ok then None
        else case read_pieces rs (sha256_init buf) of
          None \<Rightarrow> None
        | Some s \<Rightarrow> Some (fst (sha256_hex s)))"

section \<open>The interface\<close>

definition sha256_holds :: "sha256 \<Rightarrow> bytes \<Rightarrow> bool" where
  "sha256_holds s m \<longleftrightarrow> holding compress H0 m (sh_h s) (sh_buf s) (sh_n s) \<and>
     sh_len s = of_nat (length m)"

text \<open>The standard's hash: the digest of the blocks of the padded message.\<close>

definition sha256_hash :: "bytes \<Rightarrow> bytes" where
  "sha256_hash m =
     sha256_out (blocks compress H0 (padded be64 m) (length (padded be64 m) div 64))"

lemma sha256_absorb_eq:
  "sha256_absorb p s = s\<lparr>sh_h := blocks compress (sh_h s) p (length p div 64),
     sh_buf := put_at 0 (drop (length p div 64 * 64) p) (sh_buf s),
     sh_n := length (drop (length p div 64 * 64) p)\<rparr>"
  by (auto simp: sha256_absorb_def Let_def)

lemma sha256_absorb_holding:
  assumes "length m mod 64 = 0" and "sh_h s = blocks compress H0 m (length m div 64)"
    and "length (sh_buf s) = 64"
  shows "holding compress H0 (m @ p) (sh_h (sha256_absorb p s)) (sh_buf (sha256_absorb p s))
    (sh_n (sha256_absorb p s))" "sh_len (sha256_absorb p s) = sh_len s"
  using absorb_holding [OF assms refl, of p] by (simp_all add: sha256_absorb_eq)

lemma sha256_update_fill:
  assumes "sh_n s \<noteq> 0" and "sh_n s + k = 64" and "(if 64 - sh_n s < length p then 64 - sh_n s else length p) = k"
    and "length (put_at (sh_n s) (take k p) (sh_buf s)) = 64"
  shows "sha256_update p s = sha256_absorb (drop k p)
    (s\<lparr>sh_len := sh_len s + of_nat (length p),
       sh_h := compress (sh_h s) (put_at (sh_n s) (take k p) (sh_buf s)),
       sh_buf := put_at (sh_n s) (take k p) (sh_buf s), sh_n := 0\<rparr>)"
proof (cases "64 - sh_n s < length p")
  case True
  then have k: "k = 64 - sh_n s" using assms(3) by simp
  show ?thesis using assms(1,2,4) True unfolding k
    by (simp add: sha256_update_def Let_def sha256_absorb_eq)
next
  case False
  then have k: "k = length p" using assms(3) by simp
  show ?thesis using assms(1,2,4) False unfolding k
    by (simp add: sha256_update_def Let_def sha256_absorb_eq)
qed

lemma sha256_update_holds:
  assumes "sha256_holds s m"
  shows "sha256_holds (sha256_update p s) (m @ p)"
proof -
  have hd: "holding compress H0 m (sh_h s) (sh_buf s) (sh_n s)" and len: "sh_len s = of_nat (length m)"
    using assms by (auto simp: sha256_holds_def)
  have lt: "sh_n s < 64" and buf: "length (sh_buf s) = 64" and n: "sh_n s = length m mod 64"
    using hd by (auto simp: holding_def)
  let ?s = "s\<lparr>sh_len := sh_len s + of_nat (length p)\<rparr>"
  show ?thesis
  proof (cases "sh_n s = 0")
    case True
    then have up: "sha256_update p s = sha256_absorb p ?s" by (simp add: sha256_update_def Let_def)
    have "length m mod 64 = 0" "sh_h ?s = blocks compress H0 m (length m div 64)" "length (sh_buf ?s) = 64"
      using hd True n by (auto simp: holding_def)
    from sha256_absorb_holding [OF this, of p] show ?thesis unfolding up sha256_holds_def using len by simp
  next
    case ne: False
    show ?thesis
    proof (cases "sh_n s + length p < 64")
      case True
      then have "\<not> 64 - sh_n s < length p" by simp
      then have "sha256_update p s = ?s\<lparr>sh_buf := put_at (sh_n s) p (sh_buf s), sh_n := sh_n s + length p\<rparr>"
        using ne True by (simp add: sha256_update_def Let_def)
      then show ?thesis using fill_holding [OF hd True] len by (simp add: sha256_holds_def)
    next
      case False
      let ?k = "64 - sh_n s" and ?q = "take (64 - sh_n s) p" and ?r = "drop (64 - sh_n s) p"
      let ?t = "?s\<lparr>sh_h := compress (sh_h s) (put_at (sh_n s) ?q (sh_buf s)),
          sh_buf := put_at (sh_n s) ?q (sh_buf s), sh_n := 0\<rparr>"
      have k: "(if ?k < length p then ?k else length p) = ?k" using False lt by auto
      have q: "sh_n s + length ?q = 64" "?q \<noteq> []" using False lt by auto
      note full = full_holding [OF hd q]
      have up: "sha256_update p s = sha256_absorb ?r ?t"
        using sha256_update_fill [OF ne _ k full(3)] lt by simp
      from sha256_absorb_holding [OF full(1), of ?t ?r] full(2,3)
      show ?thesis unfolding up sha256_holds_def using len by simp
    qed
  qed
qed

lemma length_be64 [simp]: "length (be64 x) = 8"
  by (simp add: be64_def)

lemma sha256_hex_hash:
  assumes "sha256_holds s m"
  shows "fst (sha256_hex s) = sha256_hash m"
proof -
  let ?n = "sh_n s" and ?bits = "sh_len s * 8"
  let ?k = "(if ?n < 56 then 56 else 120) - ?n"
  have n: "?n < 64" "?n = length m mod 64" and len: "sh_len s = of_nat (length m)"
    using assms by (auto simp: sha256_holds_def holding_def)
  have pad: "take (?k + 8) (fold (\<lambda>i pad. pad[?k + i := ucast (drop_bit (56 - 8 * i) ?bits)]) [0..<8]
      (0x80 # replicate 71 0)) = pad_block be64 ?n ?bits"
    using pad_bytes_eq [OF n(1) refl] by (simp add: pad_block_def be64_def Let_def)
  have bits: "?bits = of_nat (8 * length m)" by (simp add: len mult.commute)
  have "sha256_holds (sha256_update (pad_block be64 ?n ?bits) s) (padded be64 m)"
    using sha256_update_holds [OF assms] padded_eq [OF n(2), of be64] bits by simp
  then have "sh_h (sha256_update (pad_block be64 ?n ?bits) s) =
      blocks compress H0 (padded be64 m) (length (padded be64 m) div 64)"
    by (simp add: sha256_holds_def holding_def)
  then show ?thesis unfolding sha256_hex_def Let_def pad sha256_hash_def by simp
qed

lemma sha256_init_holds: "length buf = 64 \<Longrightarrow> sha256_holds (sha256_init buf) []"
  by (simp add: sha256_holds_def sha256_init_def holding_init)

interpretation sha: stream_hash "sha256_init (replicate 64 0)" sha256_update "\<lambda>s. fst (sha256_hex s)"
  sha256_holds sha256_hash
proof unfold_locales
  show "sha256_holds (sha256_init (replicate 64 0)) []" by (rule sha256_init_holds) simp
  fix s m d
  assume "sha256_holds s m"
  then show "sha256_holds (sha256_update d s) (m @ d)" "fst (sha256_hex s) = sha256_hash m"
    by (rule sha256_update_holds, rule sha256_hex_hash)
qed

lemma read_pieces_holds:
  "\<forall>r \<in> set rs. r \<noteq> None \<and> r \<noteq> Some [] \<Longrightarrow> sha256_holds s m \<Longrightarrow>
     \<exists>s'. read_pieces (rs @ Some [] # rest) s = Some s' \<and> sha256_holds s' (m @ concat (map the rs))"
proof (induction rs arbitrary: s m)
  case (Cons r rs)
  obtain x p where r: "r = Some (x # p)" using Cons.prems(1) by (cases r; cases "the r") auto
  have "sha256_holds (sha256_update (x # p) s) (m @ x # p)" using sha256_update_holds [OF Cons.prems(2)] .
  from Cons.IH [OF _ this] Cons.prems(1) show ?case by (simp add: r)
qed simp

lemma read_pieces_fails:
  "\<forall>r \<in> set rs. r \<noteq> None \<and> r \<noteq> Some [] \<Longrightarrow> read_pieces (rs @ None # rest) s = None"
proof (induction rs arbitrary: s)
  case (Cons r rs)
  obtain x p where r: "r = Some (x # p)" using Cons.prems(1) by (cases r; cases "the r") auto
  show ?case using Cons.IH Cons.prems(1) by (simp add: r)
qed simp

section \<open>A known answer\<close>

definition abc_words :: "u32 list" where
  "abc_words =
    [1633837952, 0, 0, 0, 0, 0, 0, 0,
     0, 0, 0, 0, 0, 0, 0, 24,
     1633837952, 983040, 2108187653, 1610613702, 1050508152, 25426944, 316456923, 3806512014,
     3357629466, 3073800610, 3854317833, 845560923, 2636160359, 3968280267, 1881225380, 3552024379,
     2482346367, 996719219, 2952069057, 4043988066, 176896406, 1924104970, 2483675966, 610538786,
     2672279444, 4037431130, 1042573945, 657669027, 206005234, 2215296807, 2049510749, 106709978,
     4215179723, 3430291419, 3118885940, 2845390439, 2226839261, 3256115900, 344409900, 2987358873,
     4015503821, 3957764664, 2682456414, 2025622859, 2755645205, 1720397816, 4004225740, 313650667]"

lemma schedule_abc:
  "fold schedule_step [16..<24]
    [1633837952, 0, 0, 0, 0, 0, 0, 0,
     0, 0, 0, 0, 0, 0, 0, 24] =
    [1633837952, 0, 0, 0, 0, 0, 0, 0,
     0, 0, 0, 0, 0, 0, 0, 24,
     1633837952, 983040, 2108187653, 1610613702, 1050508152, 25426944, 316456923, 3806512014]"
  "fold schedule_step [24..<32]
    [1633837952, 0, 0, 0, 0, 0, 0, 0,
     0, 0, 0, 0, 0, 0, 0, 24,
     1633837952, 983040, 2108187653, 1610613702, 1050508152, 25426944, 316456923, 3806512014] =
    [1633837952, 0, 0, 0, 0, 0, 0, 0,
     0, 0, 0, 0, 0, 0, 0, 24,
     1633837952, 983040, 2108187653, 1610613702, 1050508152, 25426944, 316456923, 3806512014,
     3357629466, 3073800610, 3854317833, 845560923, 2636160359, 3968280267, 1881225380, 3552024379]"
  "fold schedule_step [32..<40]
    [1633837952, 0, 0, 0, 0, 0, 0, 0,
     0, 0, 0, 0, 0, 0, 0, 24,
     1633837952, 983040, 2108187653, 1610613702, 1050508152, 25426944, 316456923, 3806512014,
     3357629466, 3073800610, 3854317833, 845560923, 2636160359, 3968280267, 1881225380, 3552024379] =
    [1633837952, 0, 0, 0, 0, 0, 0, 0,
     0, 0, 0, 0, 0, 0, 0, 24,
     1633837952, 983040, 2108187653, 1610613702, 1050508152, 25426944, 316456923, 3806512014,
     3357629466, 3073800610, 3854317833, 845560923, 2636160359, 3968280267, 1881225380, 3552024379,
     2482346367, 996719219, 2952069057, 4043988066, 176896406, 1924104970, 2483675966, 610538786]"
  "fold schedule_step [40..<48]
    [1633837952, 0, 0, 0, 0, 0, 0, 0,
     0, 0, 0, 0, 0, 0, 0, 24,
     1633837952, 983040, 2108187653, 1610613702, 1050508152, 25426944, 316456923, 3806512014,
     3357629466, 3073800610, 3854317833, 845560923, 2636160359, 3968280267, 1881225380, 3552024379,
     2482346367, 996719219, 2952069057, 4043988066, 176896406, 1924104970, 2483675966, 610538786] =
    [1633837952, 0, 0, 0, 0, 0, 0, 0,
     0, 0, 0, 0, 0, 0, 0, 24,
     1633837952, 983040, 2108187653, 1610613702, 1050508152, 25426944, 316456923, 3806512014,
     3357629466, 3073800610, 3854317833, 845560923, 2636160359, 3968280267, 1881225380, 3552024379,
     2482346367, 996719219, 2952069057, 4043988066, 176896406, 1924104970, 2483675966, 610538786,
     2672279444, 4037431130, 1042573945, 657669027, 206005234, 2215296807, 2049510749, 106709978]"
  "fold schedule_step [48..<56]
    [1633837952, 0, 0, 0, 0, 0, 0, 0,
     0, 0, 0, 0, 0, 0, 0, 24,
     1633837952, 983040, 2108187653, 1610613702, 1050508152, 25426944, 316456923, 3806512014,
     3357629466, 3073800610, 3854317833, 845560923, 2636160359, 3968280267, 1881225380, 3552024379,
     2482346367, 996719219, 2952069057, 4043988066, 176896406, 1924104970, 2483675966, 610538786,
     2672279444, 4037431130, 1042573945, 657669027, 206005234, 2215296807, 2049510749, 106709978] =
    [1633837952, 0, 0, 0, 0, 0, 0, 0,
     0, 0, 0, 0, 0, 0, 0, 24,
     1633837952, 983040, 2108187653, 1610613702, 1050508152, 25426944, 316456923, 3806512014,
     3357629466, 3073800610, 3854317833, 845560923, 2636160359, 3968280267, 1881225380, 3552024379,
     2482346367, 996719219, 2952069057, 4043988066, 176896406, 1924104970, 2483675966, 610538786,
     2672279444, 4037431130, 1042573945, 657669027, 206005234, 2215296807, 2049510749, 106709978,
     4215179723, 3430291419, 3118885940, 2845390439, 2226839261, 3256115900, 344409900, 2987358873]"
  "fold schedule_step [56..<64]
    [1633837952, 0, 0, 0, 0, 0, 0, 0,
     0, 0, 0, 0, 0, 0, 0, 24,
     1633837952, 983040, 2108187653, 1610613702, 1050508152, 25426944, 316456923, 3806512014,
     3357629466, 3073800610, 3854317833, 845560923, 2636160359, 3968280267, 1881225380, 3552024379,
     2482346367, 996719219, 2952069057, 4043988066, 176896406, 1924104970, 2483675966, 610538786,
     2672279444, 4037431130, 1042573945, 657669027, 206005234, 2215296807, 2049510749, 106709978,
     4215179723, 3430291419, 3118885940, 2845390439, 2226839261, 3256115900, 344409900, 2987358873] =
    [1633837952, 0, 0, 0, 0, 0, 0, 0,
     0, 0, 0, 0, 0, 0, 0, 24,
     1633837952, 983040, 2108187653, 1610613702, 1050508152, 25426944, 316456923, 3806512014,
     3357629466, 3073800610, 3854317833, 845560923, 2636160359, 3968280267, 1881225380, 3552024379,
     2482346367, 996719219, 2952069057, 4043988066, 176896406, 1924104970, 2483675966, 610538786,
     2672279444, 4037431130, 1042573945, 657669027, 206005234, 2215296807, 2049510749, 106709978,
     4215179723, 3430291419, 3118885940, 2845390439, 2226839261, 3256115900, 344409900, 2987358873,
     4015503821, 3957764664, 2682456414, 2025622859, 2755645205, 1720397816, 4004225740, 313650667]"
  by (simp_all add: schedule_step_def ror_def Let_def)

lemma rounds_abc:
  "fold (\<lambda>i. round (K ! i) (abc_words ! i)) [0..<8]
    (1779033703, 3144134277, 1013904242, 2773480762, 1359893119, 2600822924, 528734635, 1541459225) =
    (2241887071, 3842179968, 725748213, 71342698, 207977081, 2603066369, 1900175533, 1135452741)"
  "fold (\<lambda>i. round (K ! i) (abc_words ! i)) [8..<16]
    (2241887071, 3842179968, 725748213, 71342698, 207977081, 2603066369, 1900175533, 1135452741) =
    (2969183118, 3227803614, 3643992854, 2274437520, 123276749, 194179596, 1952073950, 509051416)"
  "fold (\<lambda>i. round (K ! i) (abc_words ! i)) [16..<24]
    (2969183118, 3227803614, 3643992854, 2274437520, 123276749, 194179596, 1952073950, 509051416) =
    (3319086477, 2812502591, 3261099373, 2647034723, 2856829767, 1240797514, 3777329520, 2329577776)"
  "fold (\<lambda>i. round (K ! i) (abc_words ! i)) [24..<32]
    (3319086477, 2812502591, 3261099373, 2647034723, 2856829767, 1240797514, 3777329520, 2329577776) =
    (1941126133, 3935906338, 2684750640, 909411017, 3126399250, 17410874, 2917635127, 1628611511)"
  "fold (\<lambda>i. round (K ! i) (abc_words ! i)) [32..<40]
    (1941126133, 3935906338, 2684750640, 909411017, 3126399250, 17410874, 2917635127, 1628611511) =
    (2045405306, 1841658506, 887035396, 1101421745, 519815328, 4034403272, 2768741693, 124953195)"
  "fold (\<lambda>i. round (K ! i) (abc_words ! i)) [40..<48]
    (2045405306, 1841658506, 887035396, 1101421745, 519815328, 4034403272, 2768741693, 124953195) =
    (1098003085, 2706117808, 1923828625, 643991573, 4274981830, 3581645993, 3077922209, 2819559920)"
  "fold (\<lambda>i. round (K ! i) (abc_words ! i)) [48..<56]
    (1098003085, 2706117808, 1923828625, 643991573, 4274981830, 3581645993, 3077922209, 2819559920) =
    (952932627, 1053056219, 4117770203, 270520975, 1422599787, 3842906959, 2672265155, 1386118400)"
  "fold (\<lambda>i. round (K ! i) (abc_words ! i)) [56..<64]
    (952932627, 1053056219, 4117770203, 270520975, 1422599787, 3842906959, 2672265155, 1386118400) =
    (1349398616, 3550093669, 80891244, 3093179625, 1593118500, 4212265488, 2492278198, 2518632596)"
  by (simp_all add: K_def abc_words_def ror_def Let_def upt_conv_Cons)

definition abc_block :: bytes where
  "abc_block = [0x61, 0x62, 0x63, 0x80] @ replicate 59 0 @ [0x18]"

lemma schedule_abc_block: "schedule abc_block = abc_words"
proof -
  have first: "map (be32_at abc_block) [0..<16] =
      [1633837952, 0, 0, 0, 0, 0, 0, 0, 0, 0, 0, 0, 0, 0, 0, 24]"
    by (simp add: be32_at_def abc_block_def upt_rec [of _ "numeral _"] nth_append)
  have "fold schedule_step [16..<64] s = fold schedule_step [56..<64] (fold schedule_step [48..<56]
      (fold schedule_step [40..<48] (fold schedule_step [32..<40] (fold schedule_step [24..<32]
      (fold schedule_step [16..<24] s)))))" for s
    by (subst fold_upt_split [of 16 56 64], simp, simp, subst fold_upt_split [of 16 48 56], simp, simp,
        subst fold_upt_split [of 16 40 48], simp, simp, subst fold_upt_split [of 16 32 40], simp, simp,
        subst fold_upt_split [of 16 24 32], simp, simp, rule refl)
  then show ?thesis unfolding schedule_def first by (simp only: schedule_abc abc_words_def)
qed

lemma rounds_abc_all:
  "fold (\<lambda>i. round (K ! i) (abc_words ! i)) [0..<64]
     (1779033703, 3144134277, 1013904242, 2773480762, 1359893119, 2600822924, 528734635, 1541459225) =
   (1349398616, 3550093669, 80891244, 3093179625, 1593118500, 4212265488, 2492278198, 2518632596)"
proof -
  let ?f = "\<lambda>i. round (K ! i) (abc_words ! i)"
  have "fold ?f [0..<64] s = fold ?f [56..<64] (fold ?f [48..<56] (fold ?f [40..<48] (fold ?f [32..<40]
      (fold ?f [24..<32] (fold ?f [16..<24] (fold ?f [8..<16] (fold ?f [0..<8] s)))))))" for s
    by (subst fold_upt_split [of 0 56 64], simp, simp, subst fold_upt_split [of 0 48 56], simp, simp,
        subst fold_upt_split [of 0 40 48], simp, simp, subst fold_upt_split [of 0 32 40], simp, simp,
        subst fold_upt_split [of 0 24 32], simp, simp, subst fold_upt_split [of 0 16 24], simp, simp,
        subst fold_upt_split [of 0 8 16], simp, simp, rule refl)
  then show ?thesis by (simp only: rounds_abc)
qed

lemma compress_abc:
  "compress H0 abc_block = [3128432319, 2399260650, 1094795486, 1571693091, 2953011619, 2518121116, 3021012833, 4060091821]"
proof -
  have regs: "(H0 ! 0, H0 ! 1, H0 ! 2, H0 ! 3, H0 ! 4, H0 ! 5, H0 ! 6, H0 ! 7) =
      (1779033703, 3144134277, 1013904242, 2773480762, 1359893119, 2600822924, 528734635, 1541459225)"
    by (simp add: H0_def)
  show ?thesis unfolding compress_def Let_def schedule_abc_block regs rounds_abc_all prod.case
    by (simp add: H0_def)
qed

lemma padded_abc: "padded be64 [0x61, 0x62, 0x63] = abc_block"
proof -
  have "replicate 59 (0 :: u8) = replicate 52 0 @ replicate 7 0" by (simp flip: replicate_add)
  also have "replicate 7 (0 :: u8) = [0, 0, 0, 0, 0, 0, 0]" by (simp add: numeral_eq_Suc)
  finally show ?thesis by (simp add: padded_def be64_def abc_block_def upt_conv_Cons)
qed

section \<open>Properties\<close>

text \<open>
  C14. However a message is cut into pieces, taking the pieces one after the other gives the
  standard's hash of the whole: its padded blocks compressed in order, eight words in hexadecimal.
\<close>

theorem sha256_streaming:
  "fst (sha256_hex (fold sha256_update ds (sha256_init (replicate 64 0)))) =
     sha256_out (blocks compress H0 (padded be64 (concat ds)) (length (padded be64 (concat ds)) div 64))"
  using sha.digest_pieces [of ds] by (simp add: sha256_hash_def)

text \<open>
  The standard's example: the digest of the three bytes \<open>abc\<close>, by the compression function
  of the source evaluated round by round.
\<close>

theorem sha256_known_answer:
  "fst (sha256_hex (sha256_update (lit ''abc'') (sha256_init (replicate 64 0)))) =
     lit ''ba7816bf8f01cfea414140de5dae2223b00361a396177a9cb410ff61f20015ad''"
proof -
  have abc: "lit ''abc'' = [0x61, 0x62, 0x63]" by (simp add: lit_def)
  have "fst (sha256_hex (sha256_update (lit ''abc'') (sha256_init (replicate 64 0)))) = sha256_hash [0x61, 0x62, 0x63]"
    using sha.digest_pieces [of "[lit ''abc'']"] abc by simp
  also have "\<dots> = sha256_out (compress H0 abc_block)"
  proof -
    have "length abc_block = 64" by (simp add: abc_block_def)
    moreover have "blocks compress H0 abc_block 1 = compress H0 (take 64 abc_block)" by simp
    ultimately show ?thesis unfolding sha256_hash_def padded_abc by simp
  qed
  also have "\<dots> = lit ''ba7816bf8f01cfea414140de5dae2223b00361a396177a9cb410ff61f20015ad''"
    unfolding compress_abc by (simp add: sha256_out_def hex2_def HEX_def upt_conv_Cons)
  finally show ?thesis .
qed

text \<open>
  C16. \<open>janas_sha256_file\<close> hashes what the reads gave up to the end of the file, whatever sizes
  they came in, and gives nothing when a read fails.
\<close>

theorem sha256_file_hash:
  assumes "\<forall>r \<in> set rs. r \<noteq> None \<and> r \<noteq> Some []" and "length buf = 64"
  shows "sha256_file True [] buf (rs @ Some [] # rest) = Some (sha256_hash (concat (map the rs))) \<and>
    sha256_file True [] buf (rs @ None # rest) = None"
  using read_pieces_holds [OF assms(1) sha256_init_holds [OF assms(2)], of rest]
    read_pieces_fails [OF assms(1)] sha256_hex_hash
  by (auto simp: sha256_file_def)

theorem sha256_file_hash_witness:
  "sha256_file True [] (replicate 64 0) [Some [0x61], Some [0x62, 0x63], Some []] =
     Some (sha256_hash [0x61, 0x62, 0x63])"
  using sha256_file_hash [of "[Some [0x61], Some [0x62, 0x63]]" "replicate 64 0" "[]"] by simp

end
