(* ===== verification/Md5.thy ===== *)
theory Md5
  imports Hash_Stream
begin

text \<open>
  \<open>src/common/md5.c\<close>: MD5 taken in pieces, the second provider of the streaming interface.
\<close>

section \<open>The compression function\<close>

definition K :: "u32 list" where
  "K =
    [0xd76aa478, 0xe8c7b756, 0x242070db, 0xc1bdceee, 0xf57c0faf, 0x4787c62a,
     0xa8304613, 0xfd469501, 0x698098d8, 0x8b44f7af, 0xffff5bb1, 0x895cd7be,
     0x6b901122, 0xfd987193, 0xa679438e, 0x49b40821, 0xf61e2562, 0xc040b340,
     0x265e5a51, 0xe9b6c7aa, 0xd62f105d, 0x02441453, 0xd8a1e681, 0xe7d3fbc8,
     0x21e1cde6, 0xc33707d6, 0xf4d50d87, 0x455a14ed, 0xa9e3e905, 0xfcefa3f8,
     0x676f02d9, 0x8d2a4c8a, 0xfffa3942, 0x8771f681, 0x6d9d6122, 0xfde5380c,
     0xa4beea44, 0x4bdecfa9, 0xf6bb4b60, 0xbebfbc70, 0x289b7ec6, 0xeaa127fa,
     0xd4ef3085, 0x04881d05, 0xd9d4d039, 0xe6db99e5, 0x1fa27cf8, 0xc4ac5665,
     0xf4292244, 0x432aff97, 0xab9423a7, 0xfc93a039, 0x655b59c3, 0x8f0ccc92,
     0xffeff47d, 0x85845dd1, 0x6fa87e4f, 0xfe2ce6e0, 0xa3014314, 0x4e0811a1,
     0xf7537e82, 0xbd3af235, 0x2ad7d2bb, 0xeb86d391]"

definition R :: "nat list" where
  "R =
    [7, 12, 17, 22, 7, 12, 17, 22, 7, 12, 17, 22, 7, 12, 17, 22,
     5, 9, 14, 20, 5, 9, 14, 20, 5, 9, 14, 20, 5, 9, 14, 20,
     4, 11, 16, 23, 4, 11, 16, 23, 4, 11, 16, 23, 4, 11, 16, 23,
     6, 10, 15, 21, 6, 10, 15, 21, 6, 10, 15, 21, 6, 10, 15, 21]"

definition le32_at :: "bytes \<Rightarrow> nat \<Rightarrow> u32" where
  "le32_at p i = ucast (p ! (4 * i)) OR push_bit 8 (ucast (p ! (4 * i + 1))) OR
     push_bit 16 (ucast (p ! (4 * i + 2))) OR push_bit 24 (ucast (p ! (4 * i + 3)))"

text \<open>The mixing function of a round and the word of the block it takes.\<close>

definition mix :: "nat \<Rightarrow> u32 \<Rightarrow> u32 \<Rightarrow> u32 \<Rightarrow> u32 \<times> nat" where
  "mix i b c d =
     (if i < 16 then ((b AND c) OR (NOT b AND d), i)
      else if i < 32 then ((d AND b) OR (NOT d AND c), (5 * i + 1) mod 16)
      else if i < 48 then (b XOR c XOR d, (3 * i + 5) mod 16)
      else (c XOR (b OR NOT d), (7 * i) mod 16))"

definition md5_round :: "u32 list \<Rightarrow> nat \<Rightarrow> u32 \<times> u32 \<times> u32 \<times> u32 \<Rightarrow> u32 \<times> u32 \<times> u32 \<times> u32" where
  "md5_round m i r =
     (case r of (a, b, c, d) \<Rightarrow>
        let (f, g) = mix i b c d; x = a + f + K ! i + m ! g in
        (d, b + (push_bit (R ! i) x OR drop_bit (32 - R ! i) x), b, c))"

definition block :: "u32 list \<Rightarrow> bytes \<Rightarrow> u32 list" where
  "block h p =
     (case fold (md5_round (map (le32_at p) [0..<16])) [0..<64] (h ! 0, h ! 1, h ! 2, h ! 3) of
        (a, b, c, d) \<Rightarrow> [h ! 0 + a, h ! 1 + b, h ! 2 + c, h ! 3 + d])"

section \<open>The state and its operations\<close>

record md5 =
  md_h :: "u32 list"
  md_len :: u64
  md_buf :: bytes
  md_n :: nat

definition H0 :: "u32 list" where
  "H0 = [0x67452301, 0xefcdab89, 0x98badcfe, 0x10325476]"

definition md5_init :: "bytes \<Rightarrow> md5" where
  "md5_init buf = \<lparr>md_h = H0, md_len = 0, md_buf = buf, md_n = 0\<rparr>"

text \<open>The loop \<open>for (; n >= 64; p += 64, n -= 64)\<close>, then the rest into the buffer.\<close>

function md5_whole :: "bytes \<Rightarrow> u32 list \<Rightarrow> u32 list \<times> bytes" where
  "md5_whole p h = (if length p \<ge> 64 then md5_whole (drop 64 p) (block h (take 64 p)) else (h, p))"
  by pat_completeness auto
termination
  by (relation "measure (\<lambda>(p, h). length p)") auto

declare md5_whole.simps [simp del]

definition md5_absorb :: "bytes \<Rightarrow> md5 \<Rightarrow> md5" where
  "md5_absorb p s =
     (case md5_whole p (md_h s) of (h, q) \<Rightarrow>
        s\<lparr>md_h := h, md_buf := put_at 0 q (md_buf s), md_n := length q\<rparr>)"

definition md5_update :: "bytes \<Rightarrow> md5 \<Rightarrow> md5" where
  "md5_update p s =
     (let s = s\<lparr>md_len := md_len s + of_nat (length p)\<rparr> in
      if md_n s \<noteq> 0 then
        let k = (if 64 - md_n s < length p then 64 - md_n s else length p);
            s = s\<lparr>md_buf := put_at (md_n s) (take k p) (md_buf s), md_n := md_n s + k\<rparr>;
            p = drop k p
        in if md_n s < 64 then s
           else md5_absorb p (s\<lparr>md_h := block (md_h s) (md_buf s), md_n := 0\<rparr>)
      else md5_absorb p s)"

definition le64 :: "u64 \<Rightarrow> bytes" where
  "le64 x = map (\<lambda>i. ucast (drop_bit (8 * i) x)) [0..<8]"

definition HEX :: bytes where
  "HEX = lit ''0123456789abcdef''"

definition md5_out :: "u32 list \<Rightarrow> bytes" where
  "md5_out h = concat (map (\<lambda>i.
     let b = ucast (drop_bit (8 * (i mod 4)) (h ! (i div 4))) :: u8
     in [HEX ! unat (drop_bit 4 b), HEX ! unat (b AND 15)]) [0..<16])"

definition md5_hex :: "md5 \<Rightarrow> bytes \<times> md5" where
  "md5_hex s =
     (let bits = md_len s * 8;
          k = (if md_n s < 56 then 56 - md_n s else 120 - md_n s);
          pad = fold (\<lambda>i pad. pad[k + i := ucast (drop_bit (8 * i) bits)]) [0..<8]
                  (0x80 # replicate 71 0);
          s' = md5_update (take (k + 8) pad) s
      in (md5_out (md_h s'), s'))"

section \<open>The interface\<close>

definition md5_holds :: "md5 \<Rightarrow> bytes \<Rightarrow> bool" where
  "md5_holds s m \<longleftrightarrow> holding block H0 m (md_h s) (md_buf s) (md_n s) \<and> md_len s = of_nat (length m)"

definition md5_hash :: "bytes \<Rightarrow> bytes" where
  "md5_hash m = md5_out (blocks block H0 (padded le64 m) (length (padded le64 m) div 64))"

lemma md5_whole_eq:
  "md5_whole p h = (blocks block h p (length p div 64), drop (length p div 64 * 64) p)"
proof (induction p h rule: md5_whole.induct)
  case (1 p h)
  show ?case
  proof (cases "length p \<ge> 64")
    case True
    obtain i where i: "length p div 64 = Suc i" "length (drop 64 p) div 64 = i"
      using True by (metis Suc_eq_plus1 add.commute div_self le_div_geq length_drop zero_less_numeral)
    then show ?thesis using 1 True by (subst md5_whole.simps) (simp add: add.commute)
  next
    case False
    then show ?thesis by (subst md5_whole.simps) simp
  qed
qed

lemma md5_absorb_holding:
  assumes "length m mod 64 = 0" and "md_h s = blocks block H0 m (length m div 64)"
    and "length (md_buf s) = 64"
  shows "holding block H0 (m @ p) (md_h (md5_absorb p s)) (md_buf (md5_absorb p s)) (md_n (md5_absorb p s))"
    "md_len (md5_absorb p s) = md_len s"
  using absorb_holding [OF assms refl, of p] by (simp_all add: md5_absorb_def md5_whole_eq)

lemma md5_update_fill:
  assumes "md_n s \<noteq> 0" and "md_n s + k = 64" and "(if 64 - md_n s < length p then 64 - md_n s else length p) = k"
  shows "md5_update p s = md5_absorb (drop k p)
    (s\<lparr>md_len := md_len s + of_nat (length p),
       md_h := block (md_h s) (put_at (md_n s) (take k p) (md_buf s)),
       md_buf := put_at (md_n s) (take k p) (md_buf s), md_n := 0\<rparr>)"
proof (cases "64 - md_n s < length p")
  case True
  then have k: "k = 64 - md_n s" using assms(3) by simp
  show ?thesis using assms(1,2) True unfolding k
    by (simp add: md5_update_def Let_def md5_absorb_def md5_whole_eq)
next
  case False
  then have k: "k = length p" using assms(3) by simp
  show ?thesis using assms(1,2) False unfolding k
    by (simp add: md5_update_def Let_def md5_absorb_def md5_whole_eq)
qed

lemma md5_update_holds:
  assumes "md5_holds s m"
  shows "md5_holds (md5_update p s) (m @ p)"
proof -
  have hd: "holding block H0 m (md_h s) (md_buf s) (md_n s)" and len: "md_len s = of_nat (length m)"
    using assms by (auto simp: md5_holds_def)
  have lt: "md_n s < 64" and n: "md_n s = length m mod 64" using hd by (auto simp: holding_def)
  let ?s = "s\<lparr>md_len := md_len s + of_nat (length p)\<rparr>"
  consider "md_n s = 0" | "md_n s \<noteq> 0" "md_n s + length p < 64" | "md_n s \<noteq> 0" "\<not> md_n s + length p < 64"
    by blast
  then show ?thesis
  proof cases
    case 1
    then have up: "md5_update p s = md5_absorb p ?s" by (simp add: md5_update_def Let_def)
    have "length m mod 64 = 0" "md_h ?s = blocks block H0 m (length m div 64)" "length (md_buf ?s) = 64"
      using hd 1 n by (auto simp: holding_def)
    from md5_absorb_holding [OF this, of p] show ?thesis unfolding up md5_holds_def using len by simp
  next
    case 2
    then have "md5_update p s = ?s\<lparr>md_buf := put_at (md_n s) p (md_buf s), md_n := md_n s + length p\<rparr>"
      by (simp add: md5_update_def Let_def)
    then show ?thesis using fill_holding [OF hd 2(2)] len by (simp add: md5_holds_def)
  next
    case 3
    let ?k = "64 - md_n s"
    let ?q = "take ?k p"
    have k: "(if ?k < length p then ?k else length p) = ?k" using 3 lt by auto
    have q: "md_n s + length ?q = 64" "?q \<noteq> []" using 3 lt by auto
    note full = full_holding [OF hd q]
    have up: "md5_update p s = md5_absorb (drop ?k p)
        (?s\<lparr>md_h := block (md_h s) (put_at (md_n s) ?q (md_buf s)),
            md_buf := put_at (md_n s) ?q (md_buf s), md_n := 0\<rparr>)" (is "_ = md5_absorb _ ?t")
      using md5_update_fill [OF 3(1) _ k] lt by simp
    from md5_absorb_holding [OF full(1), of ?t "drop ?k p"] full(2,3)
    show ?thesis unfolding up md5_holds_def using len by simp
  qed
qed

lemma length_le64 [simp]: "length (le64 x) = 8"
  by (simp add: le64_def)

lemma md5_hex_hash:
  assumes "md5_holds s m"
  shows "fst (md5_hex s) = md5_hash m"
proof -
  let ?n = "md_n s" and ?bits = "md_len s * 8"
  have n: "?n < 64" "?n = length m mod 64" and len: "md_len s = of_nat (length m)"
    using assms by (auto simp: md5_holds_def holding_def)
  have k: "(if ?n < 56 then 56 - ?n else 120 - ?n) = (if ?n < 56 then 56 else 120) - ?n" by simp
  have pad: "take ((if ?n < 56 then 56 else 120) - ?n + 8)
      (fold (\<lambda>i pad. pad[(if ?n < 56 then 56 else 120) - ?n + i := ucast (drop_bit (8 * i) ?bits)]) [0..<8]
        (0x80 # replicate 71 0)) = pad_block le64 ?n ?bits"
    using pad_bytes_eq [OF n(1) refl] by (simp add: pad_block_def le64_def Let_def)
  have bits: "?bits = of_nat (8 * length m)" by (simp add: len mult.commute)
  have "md5_holds (md5_update (pad_block le64 ?n ?bits) s) (padded le64 m)"
    using md5_update_holds [OF assms] padded_eq [OF n(2), of le64] bits by simp
  then have "md_h (md5_update (pad_block le64 ?n ?bits) s) =
      blocks block H0 (padded le64 m) (length (padded le64 m) div 64)"
    by (simp add: md5_holds_def holding_def)
  then show ?thesis unfolding md5_hex_def Let_def k pad md5_hash_def by simp
qed

interpretation md: stream_hash "md5_init (replicate 64 0)" md5_update "\<lambda>s. fst (md5_hex s)"
  md5_holds md5_hash
proof unfold_locales
  show "md5_holds (md5_init (replicate 64 0)) []"
    by (simp add: md5_holds_def md5_init_def holding_init)
  fix s m d
  assume "md5_holds s m"
  then show "md5_holds (md5_update d s) (m @ d)" "fst (md5_hex s) = md5_hash m"
    by (rule md5_update_holds, rule md5_hex_hash)
qed

section \<open>A known answer\<close>

definition abc_block :: bytes where
  "abc_block = [0x61, 0x62, 0x63, 0x80] @ replicate 52 0 @ [0x18, 0, 0, 0, 0, 0, 0, 0]"

lemma abc_words: "map (le32_at abc_block) [0..<16] =
    [2153996897, 0, 0, 0, 0, 0, 0, 0, 0, 0, 0, 0, 0, 0, 24, 0]"
  by (simp add: le32_at_def abc_block_def upt_conv_Cons nth_append)

lemma rounds_abc_md5:
  "fold (md5_round [2153996897, 0, 0, 0, 0, 0, 0, 0, 0, 0, 0, 0, 0, 0, 24, 0]) [0..<8]
    (1732584193, 4023233417, 2562383102, 271733878) =
    (3342287343, 2458753526, 545113723, 2343317585)"
  "fold (md5_round [2153996897, 0, 0, 0, 0, 0, 0, 0, 0, 0, 0, 0, 0, 0, 24, 0]) [8..<16]
    (3342287343, 2458753526, 545113723, 2343317585) =
    (3718887846, 1924133600, 3818292587, 2701465749)"
  "fold (md5_round [2153996897, 0, 0, 0, 0, 0, 0, 0, 0, 0, 0, 0, 0, 0, 24, 0]) [16..<24]
    (3718887846, 1924133600, 3818292587, 2701465749) =
    (1504247770, 1191783431, 2885450016, 1828728606)"
  "fold (md5_round [2153996897, 0, 0, 0, 0, 0, 0, 0, 0, 0, 0, 0, 0, 0, 24, 0]) [24..<32]
    (1504247770, 1191783431, 2885450016, 1828728606) =
    (2030729211, 1919107795, 2787673258, 2672289016)"
  "fold (md5_round [2153996897, 0, 0, 0, 0, 0, 0, 0, 0, 0, 0, 0, 0, 0, 24, 0]) [32..<40]
    (2030729211, 1919107795, 2787673258, 2672289016) =
    (565254073, 1513053861, 896868990, 1853106645)"
  "fold (md5_round [2153996897, 0, 0, 0, 0, 0, 0, 0, 0, 0, 0, 0, 0, 0, 24, 0]) [40..<48]
    (565254073, 1513053861, 896868990, 1853106645) =
    (2133741691, 2079037184, 2410570649, 2581161885)"
  "fold (md5_round [2153996897, 0, 0, 0, 0, 0, 0, 0, 0, 0, 0, 0, 0, 0, 24, 0]) [48..<56]
    (2133741691, 2079037184, 2410570649, 2581161885) =
    (114056842, 1006251047, 2103651792, 1527617450)"
  "fold (md5_round [2153996897, 0, 0, 0, 0, 0, 0, 0, 0, 0, 0, 0, 0, 0, 24, 0]) [56..<64]
    (114056842, 1006251047, 2103651792, 1527617450) =
    (822795919, 3229755059, 3833903576, 1649249458)"
  by (simp_all add: md5_round_def mix_def K_def R_def Let_def upt_conv_Cons)

lemma block_abc: "block H0 abc_block = [2555380112, 2958021180, 2101319382, 1920983336]"
proof -
  let ?f = "md5_round [2153996897, 0, 0, 0, 0, 0, 0, 0, 0, 0, 0, 0, 0, 0, 24, 0]"
  have "fold ?f [0..<64] s = fold ?f [56..<64] (fold ?f [48..<56] (fold ?f [40..<48] (fold ?f [32..<40]
      (fold ?f [24..<32] (fold ?f [16..<24] (fold ?f [8..<16] (fold ?f [0..<8] s)))))))" for s
    by (subst fold_upt_split [of 0 56 64], simp, simp, subst fold_upt_split [of 0 48 56], simp, simp,
        subst fold_upt_split [of 0 40 48], simp, simp, subst fold_upt_split [of 0 32 40], simp, simp,
        subst fold_upt_split [of 0 24 32], simp, simp, subst fold_upt_split [of 0 16 24], simp, simp,
        subst fold_upt_split [of 0 8 16], simp, simp, rule refl)
  moreover have "(H0 ! 0, H0 ! 1, H0 ! 2, H0 ! 3) = (1732584193, 4023233417, 2562383102, 271733878)" by (simp add: H0_def)
  ultimately show ?thesis unfolding block_def abc_words by (simp only: rounds_abc_md5 prod.case) (simp add: H0_def)
qed

lemma padded_abc_md5: "padded le64 [0x61, 0x62, 0x63] = abc_block"
  by (simp add: padded_def le64_def abc_block_def upt_conv_Cons)

section \<open>Properties\<close>

text \<open>
  C17. However a message is cut into pieces, the digest is that of the whole: the padded blocks
  compressed in order, as RFC 1321 has it; and the digest of the RFC's example \<open>abc\<close> is the
  one it lists.
\<close>

theorem md5_streaming:
  "fst (md5_hex (fold md5_update ds (md5_init (replicate 64 0)))) =
     md5_out (blocks block H0 (padded le64 (concat ds)) (length (padded le64 (concat ds)) div 64)) \<and>
   fst (md5_hex (md5_update (lit ''abc'') (md5_init (replicate 64 0)))) =
     lit ''900150983cd24fb0d6963f7d28e17f72''"
proof -
  have abc: "lit ''abc'' = [0x61, 0x62, 0x63]" by (simp add: lit_def)
  have "fst (md5_hex (md5_update (lit ''abc'') (md5_init (replicate 64 0)))) = md5_hash [0x61, 0x62, 0x63]"
    using md.digest_pieces [of "[lit ''abc'']"] abc by simp
  also have "\<dots> = md5_out (block H0 abc_block)"
  proof -
    have "length abc_block = 64" by (simp add: abc_block_def)
    moreover have "blocks block H0 abc_block 1 = block H0 (take 64 abc_block)" by simp
    ultimately show ?thesis unfolding md5_hash_def padded_abc_md5 by simp
  qed
  also have "\<dots> = lit ''900150983cd24fb0d6963f7d28e17f72''"
    unfolding block_abc by (simp add: md5_out_def HEX_def upt_conv_Cons)
  finally show ?thesis using md.digest_pieces [of ds] by (simp add: md5_hash_def)
qed

end
