(* ===== verification/C_Strings.thy ===== *)
theory C_Strings
  imports Prelude
begin

text \<open>
  The parts of the C library's string functions that several components call, on byte strings
  without their NUL: \<open>strchr\<close>, \<open>strrchr\<close> as the place found, \<open>tolower\<close> and the tests of
  \<open>ctype.h\<close> on one byte, as in the C locale and in the UTF-8 ones.
\<close>

fun strchr :: "u8 \<Rightarrow> bytes \<Rightarrow> nat option" where
  "strchr c [] = None"
| "strchr c (x # xs) = (if x = c then Some 0 else map_option Suc (strchr c xs))"

fun strrchr :: "u8 \<Rightarrow> bytes \<Rightarrow> nat option" where
  "strrchr c [] = None"
| "strrchr c (x # xs) =
     (case strrchr c xs of Some i \<Rightarrow> Some (Suc i) | None \<Rightarrow> if x = c then Some 0 else None)"

definition tolower :: "u8 \<Rightarrow> u8" where
  "tolower c = (if 0x41 \<le> c \<and> c \<le> 0x5a then c + 0x20 else c)"

definition isspace :: "u8 \<Rightarrow> bool" where
  "isspace c \<longleftrightarrow> c = 0x20 \<or> 0x09 \<le> c \<and> c \<le> 0x0d"

definition isalpha :: "u8 \<Rightarrow> bool" where
  "isalpha c \<longleftrightarrow> 0x41 \<le> c \<and> c \<le> 0x5a \<or> 0x61 \<le> c \<and> c \<le> 0x7a"

definition isdigit :: "u8 \<Rightarrow> bool" where
  "isdigit c \<longleftrightarrow> 0x30 \<le> c \<and> c \<le> 0x39"

text \<open>\<open>strcasecmp(a, b) == 0\<close>.\<close>

definition same_nocase :: "bytes \<Rightarrow> bytes \<Rightarrow> bool" where
  "same_nocase a b \<longleftrightarrow> map tolower a = map tolower b"

lemma strchr_None_iff [simp]: "strchr c s = None \<longleftrightarrow> c \<notin> set s"
  by (induction s) auto

lemma strchr_Some_iff: "strchr c s = Some i \<longleftrightarrow> i < length s \<and> s ! i = c \<and> c \<notin> set (take i s)"
proof (induction s arbitrary: i)
  case (Cons x s)
  then show ?case by (cases i) auto
qed simp

lemma strrchr_None_iff [simp]: "strrchr c s = None \<longleftrightarrow> c \<notin> set s"
  by (induction s) (auto split: option.splits)

lemma strrchr_Some_iff:
  "strrchr c s = Some i \<longleftrightarrow> i < length s \<and> s ! i = c \<and> c \<notin> set (drop (Suc i) s)"
proof (induction s arbitrary: i)
  case (Cons x s)
  show ?case
  proof (cases "strrchr c s")
    case None
    then have "c \<notin> set s" by simp
    with None show ?thesis
      by (cases i) (auto dest: in_set_dropD simp del: strrchr_None_iff)
  next
    case (Some j)
    then have c: "c \<in> set s" by (metis option.distinct(1) strrchr_None_iff)
    show ?thesis
    proof (cases i)
      case 0
      with Some c show ?thesis by simp
    next
      case (Suc k)
      with Some have "strrchr c (x # s) = Some i \<longleftrightarrow> strrchr c s = Some k" by auto
      with Cons.IH [of k] Suc show ?thesis by simp
    qed
  qed
qed simp

lemma strchr_append: "c \<notin> set a \<Longrightarrow> strchr c (a @ c # b) = Some (length a)"
  by (simp add: strchr_Some_iff nth_append)

lemma strrchr_append: "c \<notin> set b \<Longrightarrow> strrchr c (a @ c # b) = Some (length a)"
  by (simp add: strrchr_Some_iff nth_append)

lemma strchr_split:
  assumes "strchr c s = Some i"
  obtains a b where "s = a @ c # b" and "i = length a" and "c \<notin> set a"
proof
  from assms have *: "i < length s" "s ! i = c" "c \<notin> set (take i s)" by (auto simp: strchr_Some_iff)
  from * show "s = take i s @ c # drop (Suc i) s" by (metis Cons_nth_drop_Suc append_take_drop_id)
  from * show "i = length (take i s)" "c \<notin> set (take i s)" by simp_all
qed

lemma strrchr_split:
  assumes "strrchr c s = Some i"
  obtains a b where "s = a @ c # b" and "i = length a" and "c \<notin> set b"
proof
  from assms have *: "i < length s" "s ! i = c" "c \<notin> set (drop (Suc i) s)"
    by (auto simp: strrchr_Some_iff)
  from * show "s = take i s @ c # drop (Suc i) s" by (metis Cons_nth_drop_Suc append_take_drop_id)
  from * show "i = length (take i s)" "c \<notin> set (drop (Suc i) s)" by simp_all
qed

lemma same_nocase_length: "same_nocase a b \<Longrightarrow> length a = length b"
  unfolding same_nocase_def by (metis length_map)


section \<open>Numbers in decimal\<close>

text \<open>The digits of a natural number as \<open>%d\<close> writes them, and what digits are worth.\<close>

fun dec :: "nat \<Rightarrow> bytes" where
  "dec n = (if n < 10 then [0x30 + of_nat n] else dec (n div 10) @ [0x30 + of_nat (n mod 10)])"

declare dec.simps [simp del]

definition dec_int :: "int \<Rightarrow> bytes" where
  "dec_int x = (if x < 0 then 0x2d # dec (nat (- x)) else dec (nat x))"

definition digit_val :: "u8 \<Rightarrow> nat" where
  "digit_val c = unat (c - 0x30)"

definition dec_val :: "bytes \<Rightarrow> nat" where
  "dec_val ds = foldl (\<lambda>a c. 10 * a + digit_val c) 0 ds"

lemma dec_val_Nil [simp]: "dec_val [] = 0"
  by (simp add: dec_val_def)

lemma dec_val_snoc [simp]: "dec_val (ds @ [c]) = 10 * dec_val ds + digit_val c"
  by (simp add: dec_val_def)

lemma digit_of:
  assumes "n < 10"
  shows "isdigit (0x30 + of_nat n)" "digit_val (0x30 + of_nat n) = n"
proof -
  have "unat (of_nat n :: u8) = n" using assms by (simp add: unat_of_nat_u8)
  then have "unat (0x30 + of_nat n :: u8) = 0x30 + n"
    using assms by (simp add: unat_word_ariths)
  then show "isdigit (0x30 + of_nat n)" using assms by (simp add: isdigit_def word_le_nat_alt)
  show "digit_val (0x30 + of_nat n) = n" using assms by (simp add: digit_val_def unat_of_nat_u8)
qed

lemma digit_val_less: "isdigit c \<Longrightarrow> digit_val c < 10"
  and digit_val_inj: "isdigit c \<Longrightarrow> 0x30 + of_nat (digit_val c) = c"
proof -
  assume "isdigit c"
  then have c: "unat (0x30 :: u8) \<le> unat c" "unat c \<le> 0x39"
    by (auto simp: isdigit_def word_le_nat_alt)
  then have "digit_val c = unat c - 0x30"
    unfolding digit_val_def by (subst unat_sub) (auto simp: word_le_nat_alt)
  with c show "digit_val c < 10" by simp
  show "0x30 + of_nat (digit_val c) = c" by (simp add: digit_val_def)
qed

lemma dec_small: "n < 10 \<Longrightarrow> dec n = [0x30 + of_nat n]"
  and dec_large: "10 \<le> n \<Longrightarrow> dec n = dec (n div 10) @ [0x30 + of_nat (n mod 10)]"
  by (simp_all add: dec.simps [of n])

lemma dec_val_single [simp]: "dec_val [c] = digit_val c"
  by (simp add: dec_val_def)

lemma dec_induct [case_names small large]:
  fixes n :: nat
  assumes "\<And>n. n < 10 \<Longrightarrow> P n" and "\<And>n. 10 \<le> n \<Longrightarrow> P (n div 10) \<Longrightarrow> P n"
  shows "P n"
proof (induction n rule: less_induct)
  case (less n)
  then show ?case using assms by (cases "n < 10") auto
qed

lemma dec_digits: "list_all isdigit (dec n)"
  by (induction n rule: dec_induct) (simp_all add: dec_small dec_large digit_of)

lemma dec_nonempty [simp]: "dec n \<noteq> []"
  by (simp add: dec.simps [of n])

lemma dec_val_dec [simp]: "dec_val (dec n) = n"
  by (induction n rule: dec_induct) (simp_all add: dec_small dec_large digit_of)

text \<open>A text of digits is the number's own when it has no zero in front.\<close>

lemma dec_dec_val:
  assumes "list_all isdigit ds" and "ds \<noteq> []" and "hd ds \<noteq> 0x30 \<or> length ds = 1"
  shows "dec (dec_val ds) = ds"
  using assms
proof (induction ds rule: rev_induct)
  case (snoc c ds)
  show ?case
  proof (cases "ds = []")
    case True
    with snoc.prems show ?thesis by (simp add: dec_small digit_val_less digit_val_inj)
  next
    case False
    with snoc have IH: "dec (dec_val ds) = ds" and hd: "hd ds \<noteq> 0x30" by auto
    have "dec 0 = [0x30]" by (simp add: dec_small)
    with IH hd have "dec_val ds \<noteq> 0" by (metis list.sel(1))
    moreover have "digit_val c < 10" "0x30 + of_nat (digit_val c) = c"
      using snoc.prems digit_val_less digit_val_inj by auto
    ultimately show ?thesis using IH by (simp add: dec_large)
  qed
qed simp

end
