(* ===== verification/Net_Policy.thy ===== *)
theory Net_Policy
  imports C_Strings
begin

text \<open>
  \<open>src/common/mcp_policy.c\<close>: where a connection made on someone else's word may go. The socket
  address is a value of the two families the code tells apart; an address is the list of its
  bytes in network order. \<open>policy\<close> is \<open>struct janas_net_policy\<close>, its null pointer \<open>None\<close>.
\<close>

section \<open>Addresses\<close>

definition BAD :: "(u32 \<times> nat) list" where
  "BAD = [(0x00000000, 8), (0x0a000000, 8), (0x64400000, 10), (0x7f000000, 8), (0xa9fe0000, 16),
     (0xac100000, 12), (0xc0000000, 24), (0xc0000200, 24), (0xc0586300, 24), (0xc0a80000, 16),
     (0xc6120000, 15), (0xc6336400, 24), (0xcb007100, 24), (0xe0000000, 4), (0xf0000000, 4)]"

definition v4_public :: "u32 \<Rightarrow> bool" where
  "v4_public a \<longleftrightarrow>
     \<not> list_ex (\<lambda>(net, bits). drop_bit (32 - bits) a = drop_bit (32 - bits) net) BAD"

definition be32 :: "bytes \<Rightarrow> u32" where
  "be32 p = push_bit 24 (ucast (p ! 0)) OR push_bit 16 (ucast (p ! 1)) OR
     push_bit 8 (ucast (p ! 2)) OR ucast (p ! 3)"

definition ZERO :: bytes where "ZERO = replicate 12 0"
definition MAPPED :: bytes where "MAPPED = replicate 10 0 @ [255, 255]"
definition NAT64 :: bytes where "NAT64 = [0, 0x64, 0xff, 0x9b] @ replicate 8 0"

definition v6_public :: "bytes \<Rightarrow> bool" where
  "v6_public b =
     (if take 12 b = MAPPED \<or> take 12 b = NAT64 then v4_public (be32 (drop 12 b))
      else if take 12 b = ZERO then False
      else if b ! 0 = 0x20 \<and> b ! 1 = 0x02 then v4_public (be32 (drop 2 b))
      else if b ! 0 AND 0xfe = 0xfc then False
      else if b ! 0 = 0xfe \<and> b ! 1 AND 0xc0 = 0x80 then False
      else if b ! 0 = 0xfe \<and> b ! 1 AND 0xc0 = 0xc0 then False
      else if b ! 0 = 0xff then False
      else if b ! 0 = 0x20 \<and> b ! 1 = 0x01 \<and> b ! 2 = 0x0d \<and> b ! 3 = 0xb8 then False
      else if b ! 0 = 0x01 \<and> b ! 1 = 0x00 \<and> take 6 (drop 2 b) = take 6 ZERO then False
      else if b ! 0 = 0x20 \<and> b ! 1 = 0x01 \<and> b ! 2 = 0x00 \<and> b ! 3 = 0x00 then False
      else if b ! 0 = 0x20 \<and> b ! 1 = 0x01 \<and> b ! 2 = 0x00 \<and> b ! 3 AND 0xf0 = 0x20 then False
      else if b ! 0 = 0x20 \<and> b ! 1 = 0x01 \<and> b ! 2 = 0x00 \<and> b ! 3 = 0x02 \<and> b ! 4 = 0 \<and> b ! 5 = 0
        then False
      else if b ! 0 = 0x5f then False
      else True)"

datatype sockaddr = Inet (inet_addr: bytes) | Inet6 (inet6_addr: bytes) | Other_family

definition addr_public :: "sockaddr option \<Rightarrow> bool" where
  "addr_public sa =
     (case sa of
        None \<Rightarrow> False
      | Some (Inet b) \<Rightarrow> v4_public (be32 b)
      | Some (Inet6 b) \<Rightarrow> v6_public b
      | Some Other_family \<Rightarrow> False)"

section \<open>Entries of the list\<close>

text \<open>The host and the port, if any, that an entry names; nothing when its brackets are not closed.\<close>

definition entry_parts :: "bytes \<Rightarrow> (bytes \<times> bytes option) option" where
  "entry_parts e =
     (if e \<noteq> [] \<and> hd e = 0x5b then
        let h = tl e in
        case strchr 0x5d h of
          None \<Rightarrow> None
        | Some he \<Rightarrow>
            let rest = drop (he + 1) h in
            if rest \<noteq> [] \<and> hd rest = 0x3a then Some (take he h, Some (tl rest))
            else if rest \<noteq> [] then None
            else Some (take he h, None)
      else case strrchr 0x3a e of
          Some he \<Rightarrow>
            if strchr 0x3a e \<noteq> Some he then Some (e, None)
            else Some (take he e, Some (drop (he + 1) e))
        | None \<Rightarrow> Some (e, None))"

definition entry_names :: "bytes \<Rightarrow> bytes \<Rightarrow> bytes \<Rightarrow> bool" where
  "entry_names e host port =
     (case entry_parts e of
        None \<Rightarrow> False
      | Some (h, p) \<Rightarrow>
          if length host \<noteq> length h \<or> \<not> same_nocase h host then False
          else case p of None \<Rightarrow> True | Some p \<Rightarrow> p = port)"

record policy =
  public_only :: bool
  allow :: "bytes list"

definition net_allowed :: "policy option \<Rightarrow> bytes \<Rightarrow> bytes \<Rightarrow> sockaddr option \<Rightarrow> bool" where
  "net_allowed p host port sa =
     (case p of
        None \<Rightarrow> True
      | Some p \<Rightarrow> \<not> public_only p \<or> addr_public sa \<or> list_ex (\<lambda>e. entry_names e host port) (allow p))"

section \<open>IPv4 by ranges\<close>

text \<open>A prefix of \<open>bits\<close> bits is the range of the addresses between its first and its last.\<close>

lemma unat_mask_u32: "k < 32 \<Longrightarrow> unat (mask k :: u32) = 2 ^ k - 1"
proof -
  assume "k < 32"
  then have "(2 :: nat) ^ k < 2 ^ 32" by (intro power_strict_increasing) auto
  then have "unat (of_nat (2 ^ k - 1) :: u32) = 2 ^ k - 1"
    by (subst unat_of_nat, intro mod_less) simp
  moreover have "(of_nat (2 ^ k - 1) :: u32) = mask k"
    by (simp add: mask_eq_exp_minus_1 of_nat_diff)
  ultimately show ?thesis by simp
qed

lemma unat_drop_bit_u32: "unat (drop_bit k (a :: u32)) = unat a div 2 ^ k"
proof -
  have "unat a < 2 ^ LENGTH(32)" by (rule unsigned_less)
  then have "unat (drop_bit k a) = drop_bit k (unat a)"
    by (simp add: unsigned_drop_bit_eq take_bit_nat_eq_self)
  then show ?thesis by (simp only: drop_bit_eq_div)
qed

lemma div_eq_range: "0 < m \<Longrightarrow> a div m = q \<longleftrightarrow> m * q \<le> a \<and> a \<le> m * q + (m - 1)" for a m q :: nat
  using dividend_less_times_div [of m a] times_div_less_eq_dividend [of m a]
  by (auto intro!: div_nat_eqI simp: mult.commute)

lemma drop_bit_range:
  fixes a net :: u32
  assumes "k < 32" and "net AND mask k = 0"
  shows "drop_bit k a = drop_bit k net \<longleftrightarrow> net \<le> a \<and> a \<le> net OR mask k"
proof -
  have net: "unat net = 2 ^ k * (unat net div 2 ^ k)"
  proof -
    have "take_bit k net = 0" using assms(2) by (simp add: take_bit_eq_mask)
    then have "take_bit k (unat net) = 0" by (metis unsigned_0 unsigned_take_bit_eq)
    then have "unat net mod 2 ^ k = 0" by (simp add: take_bit_eq_mod)
    then show ?thesis by (metis add.right_neutral mult_div_mod_eq)
  qed
  have top: "unat (net OR mask k) = unat net + (2 ^ k - 1)"
  proof -
    have "net + mask k = net OR mask k" using assms(2) by (rule disjunctive_add_eq_or)
    moreover have "unat (net + mask k) = unat net + unat (mask k :: u32)"
    proof (rule unat_add_lem [THEN iffD1])
      have "(unat net div 2 ^ k) < 2 ^ (32 - k)"
      proof (rule less_mult_imp_div_less)
        have "unat net < 2 ^ LENGTH(32)" by (rule unsigned_less)
        then show "unat net < 2 ^ (32 - k) * 2 ^ k"
          using assms(1) by (simp flip: power_add)
      qed
      then have "unat net div 2 ^ k + 1 \<le> 2 ^ (32 - k)" by simp
      then have "(unat net div 2 ^ k + 1) * 2 ^ k \<le> 2 ^ (32 - k) * 2 ^ k" by (rule mult_le_mono1)
      also have "\<dots> = 2 ^ 32" using assms(1) by (simp flip: power_add)
      finally have "unat net + 2 ^ k \<le> 2 ^ 32" using net by (simp add: algebra_simps)
      moreover have "unat (mask k :: u32) = 2 ^ k - 1"
        using assms(1) by (simp add: unat_mask_u32)
      moreover have "(0 :: nat) < 2 ^ k" by simp
      ultimately show "unat net + unat (mask k :: u32) < 2 ^ LENGTH(32)" by simp
    qed
    moreover have "unat (mask k :: u32) = 2 ^ k - 1"
      using assms(1) by (simp add: unat_mask_u32)
    ultimately show ?thesis by simp
  qed
  have "drop_bit k a = drop_bit k net \<longleftrightarrow> unat a div 2 ^ k = unat net div 2 ^ k"
    by (simp add: word_unat_eq_iff unat_drop_bit_u32)
  also have "\<dots> \<longleftrightarrow> unat net \<le> unat a \<and> unat a \<le> unat net + (2 ^ k - 1)"
  proof -
    have "(0 :: nat) < 2 ^ k" by simp
    from div_eq_range [OF this, of "unat a" "unat net div 2 ^ k"] net show ?thesis by simp
  qed
  finally show ?thesis using top by (simp add: word_le_nat_alt)
qed

text \<open>The ranges of IANA's registry that are not for the Internet, first and last address.\<close>

definition RANGES4 :: "(u32 \<times> u32) list" where
  "RANGES4 = [(0x00000000, 0x00ffffff), (0x0a000000, 0x0affffff), (0x64400000, 0x647fffff),
     (0x7f000000, 0x7fffffff), (0xa9fe0000, 0xa9feffff), (0xac100000, 0xac1fffff),
     (0xc0000000, 0xc00000ff), (0xc0000200, 0xc00002ff), (0xc0586300, 0xc05863ff),
     (0xc0a80000, 0xc0a8ffff), (0xc6120000, 0xc613ffff), (0xc6336400, 0xc63364ff),
     (0xcb007100, 0xcb0071ff), (0xe0000000, 0xefffffff), (0xf0000000, 0xffffffff)]"

definition special4 :: "u32 \<Rightarrow> bool" where
  "special4 a \<longleftrightarrow> list_ex (\<lambda>(lo, hi). lo \<le> a \<and> a \<le> hi) RANGES4"

lemma v4_public_special: "v4_public a \<longleftrightarrow> \<not> special4 a"
proof -
  have "RANGES4 = map (\<lambda>(net, bits). (net, net OR mask (32 - bits))) BAD"
    by (simp add: RANGES4_def BAD_def mask_eq_exp_minus_1)
  moreover have "list_all (\<lambda>(net, bits). 32 - bits < 32 \<and> net AND mask (32 - bits) = 0) BAD"
    by (simp add: BAD_def mask_eq_exp_minus_1)
  moreover have "list_ex (\<lambda>(net, bits). drop_bit (32 - bits) a = drop_bit (32 - bits) net) xs =
      list_ex (\<lambda>(lo, hi). lo \<le> a \<and> a \<le> hi) (map (\<lambda>(net, bits). (net, net OR mask (32 - bits))) xs)"
    if "list_all (\<lambda>(net, bits). 32 - bits < 32 \<and> net AND mask (32 - bits) = 0) xs" for xs
    using that by (induction xs) (auto simp: drop_bit_range)
  ultimately show ?thesis by (simp add: v4_public_def special4_def)
qed

section \<open>IPv6 by prefixes\<close>

text \<open>The first \<open>k\<close> bits of \<open>b\<close> are those of \<open>net\<close>.\<close>

definition prefix :: "bytes \<times> nat \<Rightarrow> bytes \<Rightarrow> bool" where
  "prefix nk b = (case nk of (net, k) \<Rightarrow>
     take (k div 8) b = take (k div 8) net \<and>
     (k mod 8 = 0 \<or> drop_bit (8 - k mod 8) (b ! (k div 8)) = drop_bit (8 - k mod 8) (net ! (k div 8))))"

text \<open>The ranges the source names: \<open>::/96, fc00::/7, fe80::/10, fec0::/10, ff00::/8,
  2001:db8::/32, 100::/64, 2001::/32, 2001:20::/28, 2001:2::/48\<close> and \<open>5f00::/16\<close>.\<close>

definition SPECIAL6 :: "(bytes \<times> nat) list" where
  "SPECIAL6 = [(ZERO, 96), ([0xfc], 7), ([0xfe, 0x80], 10), ([0xfe, 0xc0], 10), ([0xff], 8),
     ([0x20, 0x01, 0x0d, 0xb8], 32), ([0x01] @ replicate 7 0, 64), ([0x20, 0x01, 0, 0], 32),
     ([0x20, 0x01, 0x00, 0x20], 28), ([0x20, 0x01, 0x00, 0x02, 0, 0], 48), ([0x5f, 0x00], 16)]"

text \<open>The IPv4 address inside: mapped, NAT64 (\<open>64:ff9b::/96\<close>) or 6to4 (\<open>2002::/16\<close>).\<close>

definition embedded4 :: "bytes \<Rightarrow> u32 option" where
  "embedded4 b =
     (if prefix (MAPPED, 96) b \<or> prefix (NAT64, 96) b then Some (be32 (drop 12 b))
      else if prefix ([0x20, 0x02], 16) b then Some (be32 (drop 2 b))
      else None)"

lemma u8_bits: "(x :: u8) = y \<longleftrightarrow> list_all (\<lambda>n. bit x n = bit y n) [0, 1, 2, 3, 4, 5, 6, 7]"
proof -
  have "{..<8 :: nat} = set [0, 1, 2, 3, 4, 5, 6, 7]" by auto
  then have "(\<forall>n < 8. bit x n = bit y n) \<longleftrightarrow> list_all (\<lambda>n. bit x n = bit y n) [0, 1, 2, 3, 4, 5, 6, 7]"
    unfolding list_all_iff by (metis lessThan_iff)
  then show ?thesis by (simp add: bit_eq_iff)
qed

lemma u8_high: "8 \<le> n \<Longrightarrow> \<not> bit (x :: u8) n"
  using bit_imp_le_length [of x n] by auto

lemma u8_mask_7: "(x :: u8) AND 0xfe = 0xfc \<longleftrightarrow> drop_bit 1 x = 0x7e"
  and u8_mask_2: "(x :: u8) AND 0xc0 = 0x80 \<longleftrightarrow> drop_bit 6 x = 2"
    "(x :: u8) AND 0xc0 = 0xc0 \<longleftrightarrow> drop_bit 6 x = 3"
  and u8_mask_4: "(x :: u8) AND 0xf0 = 0x20 \<longleftrightarrow> drop_bit 4 x = 2"
  by (auto simp: u8_bits bit_and_iff bit_drop_bit_eq u8_high eval_nat_numeral)


lemma replicate_eval:
  "replicate 7 x = [x, x, x, x, x, x, x]" "replicate 6 x = [x, x, x, x, x, x]" for x :: u8
  by (simp_all add: eval_nat_numeral)

lemma take_4_nth: "4 \<le> length b \<Longrightarrow> take 4 b = [x, y, z, u] \<longleftrightarrow> b ! 0 = x \<and> b ! 1 = y \<and> b ! 2 = z \<and> b ! 3 = u"
  and take_3_nth: "3 \<le> length b \<Longrightarrow> take 3 b = [x, y, z] \<longleftrightarrow> b ! 0 = x \<and> b ! 1 = y \<and> b ! 2 = z"
  and take_2_nth: "2 \<le> length b \<Longrightarrow> take 2 b = [x, y] \<longleftrightarrow> b ! 0 = x \<and> b ! 1 = y"
  and take_1_nth: "1 \<le> length b \<Longrightarrow> take (Suc 0) b = [x] \<longleftrightarrow> b ! 0 = x"
  by (auto simp: list_eq_iff_nth_eq All_less_Suc eval_nat_numeral)

lemma take_6_nth: "6 \<le> length b \<Longrightarrow> take 6 b = [x, y, z, u, v, w] \<longleftrightarrow>
    b ! 0 = x \<and> b ! 1 = y \<and> b ! 2 = z \<and> b ! 3 = u \<and> b ! 4 = v \<and> b ! 5 = w"
  by (auto simp: list_eq_iff_nth_eq All_less_Suc eval_nat_numeral)

lemma take_8_split: "8 \<le> length b \<Longrightarrow> take 8 b = x # y # zs \<longleftrightarrow> b ! 0 = x \<and> b ! 1 = y \<and> take 6 (drop 2 b) = zs"
  by (cases b; cases "tl b") (auto simp: eval_nat_numeral)

lemma prefix_nets:
  assumes "length b = 16"
  shows "prefix (MAPPED, 96) b \<longleftrightarrow> take 12 b = MAPPED" "prefix (NAT64, 96) b \<longleftrightarrow> take 12 b = NAT64"
    "prefix (ZERO, 96) b \<longleftrightarrow> take 12 b = ZERO"
    "prefix ([0x20, 0x02], 16) b \<longleftrightarrow> b ! 0 = 0x20 \<and> b ! 1 = 0x02"
    "prefix ([0xfc], 7) b \<longleftrightarrow> b ! 0 AND 0xfe = 0xfc"
    "prefix ([0xfe, 0x80], 10) b \<longleftrightarrow> b ! 0 = 0xfe \<and> b ! 1 AND 0xc0 = 0x80"
    "prefix ([0xfe, 0xc0], 10) b \<longleftrightarrow> b ! 0 = 0xfe \<and> b ! 1 AND 0xc0 = 0xc0"
    "prefix ([0xff], 8) b \<longleftrightarrow> b ! 0 = 0xff" "prefix ([0x5f], 8) b \<longleftrightarrow> b ! 0 = 0x5f"
    "prefix ([0x5f, 0x00], 16) b \<longleftrightarrow> b ! 0 = 0x5f \<and> b ! 1 = 0"
    "prefix ([0x20, 0x01, 0x0d, 0xb8], 32) b \<longleftrightarrow> b ! 0 = 0x20 \<and> b ! 1 = 0x01 \<and> b ! 2 = 0x0d \<and> b ! 3 = 0xb8"
    "prefix ([0x01] @ replicate 7 0, 64) b \<longleftrightarrow> b ! 0 = 0x01 \<and> b ! 1 = 0x00 \<and> take 6 (drop 2 b) = take 6 ZERO"
    "prefix ([0x20, 0x01, 0, 0], 32) b \<longleftrightarrow> b ! 0 = 0x20 \<and> b ! 1 = 0x01 \<and> b ! 2 = 0x00 \<and> b ! 3 = 0x00"
    "prefix ([0x20, 0x01, 0x00, 0x20], 28) b \<longleftrightarrow>
       b ! 0 = 0x20 \<and> b ! 1 = 0x01 \<and> b ! 2 = 0x00 \<and> b ! 3 AND 0xf0 = 0x20"
    "prefix ([0x20, 0x01, 0x00, 0x02, 0, 0], 48) b \<longleftrightarrow>
       b ! 0 = 0x20 \<and> b ! 1 = 0x01 \<and> b ! 2 = 0x00 \<and> b ! 3 = 0x02 \<and> b ! 4 = 0 \<and> b ! 5 = 0"
  using assms
  by (simp_all add: prefix_def MAPPED_def NAT64_def ZERO_def u8_mask_7 u8_mask_2 u8_mask_4 take_2_nth
      take_1_nth take_4_nth take_3_nth take_6_nth take_8_split replicate_eval)

lemma v6_public_prefixes:
  assumes "length b = 16"
  shows "v6_public b \<longleftrightarrow> (case embedded4 b of
      Some a \<Rightarrow> \<not> special4 a
    | None \<Rightarrow> \<not> list_ex (\<lambda>net. prefix net b) SPECIAL6 \<and> \<not> prefix ([0x5f], 8) b)"
proof -
  have "b ! 0 = 0" if "take 12 b = ZERO"
    using that nth_take [of 0 12 b] by (simp add: ZERO_def)
  then show ?thesis
    by (auto simp add: v6_public_def embedded4_def SPECIAL6_def prefix_nets [OF assms] v4_public_special
        simp del: append.simps replicate.simps)
qed


section \<open>Entries by their forms\<close>

text \<open>
  The entries that name a host and a port, \<open>[\<close> and \<open>]\<close> around the host when it has colons:
  \<open>host\<close>, \<open>host:port\<close>, \<open>[host]\<close>, \<open>[host]:port\<close>, letters of either case in the host.
\<close>

definition names :: "bytes \<Rightarrow> bytes \<Rightarrow> bytes \<Rightarrow> bool" where
  "names e host port \<longleftrightarrow>
     (\<exists>h. same_nocase h host \<and>
        ((e = [] \<or> hd e \<noteq> 0x5b) \<and> e = h \<and> count_list e 0x3a \<noteq> 1 \<or>
         (e = [] \<or> hd e \<noteq> 0x5b) \<and> e = h @ 0x3a # port \<and> 0x3a \<notin> set h \<and> 0x3a \<notin> set port \<or>
         e = 0x5b # h @ [0x5d] \<and> 0x5d \<notin> set h \<or>
         e = 0x5b # h @ 0x5d # 0x3a # port \<and> 0x5d \<notin> set h))"

lemma count_one_colon:
  assumes "strrchr c e = Some i"
  shows "strchr c e = Some i \<longleftrightarrow> count_list e c = 1"
proof -
  from assms obtain a b where e: "e = a @ c # b" "i = length a" "c \<notin> set b" by (rule strrchr_split)
  show ?thesis
  proof (cases "c \<in> set a")
    case True
    then have "strchr c e \<noteq> Some i" using e by (auto simp: strchr_Some_iff)
    moreover have "count_list a c \<noteq> 0" using True by (simp add: count_list_0_iff)
    ultimately show ?thesis using e by simp
  next
    case False
    then show ?thesis using e by (simp add: strchr_append count_notin)
  qed
qed

lemma entry_parts_bracket:
  "entry_parts (0x5b # h) = Some (a, p) \<longleftrightarrow>
     0x5d \<notin> set a \<and> (case p of None \<Rightarrow> h = a @ [0x5d] | Some q \<Rightarrow> h = a @ 0x5d # 0x3a # q)"
proof (cases "strchr 0x5d h")
  case None
  then have "0x5d \<notin> set h" by simp
  with None show ?thesis by (auto simp: entry_parts_def Let_def split: option.splits simp del: strchr_None_iff)
next
  case (Some i)
  then obtain x y where h: "h = x @ 0x5d # y" "i = length x" "0x5d \<notin> set x" by (rule strchr_split)
  have eq: "x @ 0x5d # y = a @ 0x5d # z \<and> 0x5d \<notin> set a \<longleftrightarrow> x = a \<and> y = z" for z
    using h(3) by (auto simp: append_eq_append_conv2 append_eq_Cons_conv Cons_eq_append_conv)
  show ?thesis
    using Some h eq [of "[]"] eq [of "0x3a # the p"]
    by (cases p; cases y) (auto simp: entry_parts_def Let_def)
qed

lemma entry_parts_plain:
  assumes "e = [] \<or> hd e \<noteq> 0x5b"
  shows "entry_parts e = Some (a, p) \<longleftrightarrow>
    (case p of None \<Rightarrow> e = a \<and> count_list e 0x3a \<noteq> 1
     | Some q \<Rightarrow> e = a @ 0x3a # q \<and> 0x3a \<notin> set a \<and> 0x3a \<notin> set q)"
proof (cases "strrchr 0x3a e")
  case None
  then have "0x3a \<notin> set e" by simp
  moreover from this have "count_list e 0x3a = 0" by (simp add: count_notin)
  ultimately show ?thesis
    using assms None by (auto simp: entry_parts_def split: option.splits simp del: strrchr_None_iff)
next
  case (Some i)
  then obtain x y where e: "e = x @ 0x3a # y" "i = length x" "0x3a \<notin> set y" by (rule strrchr_split)
  show ?thesis
  proof (cases "count_list e 0x3a = 1")
    case True
    then have "count_list x 0x3a = 0" using e by simp
    then have "0x3a \<notin> set x" by (simp add: count_list_0_iff)
    moreover have "x @ 0x3a # y = a @ 0x3a # z \<and> 0x3a \<notin> set a \<longleftrightarrow> x = a \<and> y = z" for z
      using calculation by (auto simp: append_eq_append_conv2 append_eq_Cons_conv Cons_eq_append_conv)
    ultimately show ?thesis
      using assms Some count_one_colon [OF Some] True e
      by (cases p) (auto simp: entry_parts_def)
  next
    case False
    have "e \<noteq> a @ 0x3a # q \<or> 0x3a \<in> set a \<or> 0x3a \<in> set q" for q
    proof (rule ccontr)
      assume "\<not> ?thesis"
      then have "count_list e 0x3a = 1" by (simp add: count_notin)
      with False show False by simp
    qed
    then show ?thesis
      using assms Some count_one_colon [OF Some] False by (cases p) (auto simp: entry_parts_def)
  qed
qed

lemma entry_names_iff: "entry_names e host port \<longleftrightarrow> names e host port"
proof -
  have eq: "entry_names e host port \<longleftrightarrow>
      (\<exists>h. same_nocase h host \<and> (entry_parts e = Some (h, None) \<or> entry_parts e = Some (h, Some port)))"
    by (auto simp: entry_names_def same_nocase_length split: option.splits prod.splits)
  show ?thesis
  proof (cases "e \<noteq> [] \<and> hd e = 0x5b")
    case True
    then obtain h where "e = 0x5b # h" by (cases e) auto
    then show ?thesis unfolding eq names_def by (auto simp: entry_parts_bracket)
  next
    case False
    then show ?thesis unfolding eq names_def by (auto simp: entry_parts_plain)
  qed
qed


section \<open>Where a connection may go\<close>

text \<open>
  C18. Which addresses are public: an IPv4 one exactly outside the ranges of the registry, and an
  IPv6 one judged by the IPv4 address inside it (mapped, NAT64 or 6to4) when it has one. Another
  is public exactly when it begins with none of the prefixes the source names and not with the
  byte \<open>5f\<close>: of \<open>5f00::/8\<close> only \<open>5f00::/16\<close> is named, the rest is refused all the same.
\<close>

theorem addr_public_ranges:
  assumes "length b = 16"
  shows "(addr_public (Some (Inet a)) \<longleftrightarrow> \<not> special4 (be32 a)) \<and>
    (addr_public (Some (Inet6 b)) \<longleftrightarrow>
      (case embedded4 b of Some a \<Rightarrow> \<not> special4 a
       | None \<Rightarrow> \<not> list_ex (\<lambda>net. prefix net b) SPECIAL6 \<and> \<not> prefix ([0x5f], 8) b))"
  using v6_public_prefixes [OF assms] by (simp add: addr_public_def v4_public_special)

theorem addr_public_ranges_witness:
  "\<not> addr_public (Some (Inet6 (MAPPED @ [10, 0, 0, 1]))) \<and> addr_public (Some (Inet [8, 8, 8, 8]))"
proof -
  have "length (MAPPED @ [10, 0, 0, 1 :: u8]) = 16" by (simp add: MAPPED_def)
  from addr_public_ranges [OF this, of "[8, 8, 8, 8]"] show ?thesis
    by (simp add: embedded4_def prefix_def MAPPED_def be32_def special4_def RANGES4_def)
qed

text \<open>
  C19. With the policy that refuses private addresses, a connection to an address that is not
  public is allowed exactly when an entry of the list has one of the four forms for its host,
  letters of either case, and its port or none.
\<close>

theorem net_allowed_private:
  assumes "public_only p" and "\<not> addr_public sa"
  shows "net_allowed (Some p) host port sa \<longleftrightarrow> (\<exists>e \<in> set (allow p). names e host port)"
  using assms by (simp add: net_allowed_def list_ex_iff entry_names_iff)

theorem net_allowed_private_witness:
  "net_allowed (Some \<lparr>public_only = True, allow = [lit ''LocalHost:80'']\<rparr>) (lit ''localhost'') (lit ''80'')
     (Some (Inet [127, 0, 0, 1])) \<and>
   \<not> net_allowed (Some \<lparr>public_only = True, allow = []\<rparr>) (lit ''localhost'') (lit ''80'')
     (Some (Inet [127, 0, 0, 1]))"
proof -
  let ?sa = "Some (Inet [127, 0, 0, 1])"
  let ?p = "\<lparr>public_only = True, allow = [lit ''LocalHost:80'']\<rparr>"
  have np: "\<not> addr_public ?sa"
    by (simp add: addr_public_def v4_public_special be32_def special4_def RANGES4_def)
  have "names (lit ''LocalHost:80'') (lit ''localhost'') (lit ''80'')"
    unfolding names_def
    by (rule exI [of _ "lit ''LocalHost''"]) (simp add: same_nocase_def tolower_def)
  then show ?thesis
    using net_allowed_private [of ?p, OF _ np] net_allowed_private [of "\<lparr>public_only = True, allow = []\<rparr>", OF _ np]
    by simp
qed

end
