(* ===== verification/Words.thy ===== *)
theory Words
  imports C_Strings
begin

text \<open>
  \<open>src/common/words.c\<close>: the words a user gives a program. \<open>distance\<close> keeps the source's table
  of distances between the starts of two words, here related to the edits that turn one word into
  the other; \<open>closest\<close> picks the nearest name; \<open>word_int\<close> and \<open>word_choice\<close> read a value
  strictly. The words are byte strings without their NUL, a null pointer is \<open>None\<close>.
  \<open>janas_word_real\<close> reads a double with \<open>strtod\<close> and is not modelled.
\<close>

section \<open>The distance of two words\<close>

definition LONGEST :: nat where "LONGEST = 64"

type_synonym table = "int list list"

definition put :: "nat \<Rightarrow> nat \<Rightarrow> int \<Rightarrow> table \<Rightarrow> table" where
  "put i j v d = d[i := (d ! i)[j := v]]"

definition cell :: "bytes \<Rightarrow> bytes \<Rightarrow> nat \<Rightarrow> nat \<Rightarrow> table \<Rightarrow> table" where
  "cell a b i j d =
     (let ca = tolower (a ! (i - 1));
          cb = tolower (b ! (j - 1));
          v = d ! (i - 1) ! (j - 1) + (if ca \<noteq> cb then 1 else 0);
          v = (if d ! (i - 1) ! j + 1 < v then d ! (i - 1) ! j + 1 else v);
          v = (if d ! i ! (j - 1) + 1 < v then d ! i ! (j - 1) + 1 else v);
          v = (if i > 1 \<and> j > 1 \<and> ca = tolower (b ! (j - 2)) \<and> tolower (a ! (i - 2)) = cb \<and>
                 d ! (i - 2) ! (j - 2) + 1 < v
               then d ! (i - 2) ! (j - 2) + 1 else v)
      in put i j v d)"

text \<open>The array on the stack holds anything at first: \<open>d0\<close>.\<close>

definition distance_from :: "table \<Rightarrow> bytes \<Rightarrow> bytes \<Rightarrow> int" where
  "distance_from d0 a b =
     (let na = (if length a > LONGEST then LONGEST else length a);
          nb = (if length b > LONGEST then LONGEST else length b);
          d = fold (\<lambda>i. put i 0 (int i)) [0..<na + 1] d0;
          d = fold (\<lambda>j. put 0 j (int j)) [0..<nb + 1] d;
          d = fold (\<lambda>i d. fold (\<lambda>j. cell a b i j) [1..<nb + 1] d) [1..<na + 1] d
      in d ! na ! nb)"

definition distance :: "bytes \<Rightarrow> bytes \<Rightarrow> int" where
  "distance = distance_from (replicate (LONGEST + 1) (replicate (LONGEST + 1) 0))"

definition starts :: "bytes \<Rightarrow> bytes \<Rightarrow> bool" where
  "starts a b =
     (let na = length a; nb = length b; n = (if na < nb then na else nb) in
      if n < 4 \<or> na = nb then False
      else list_all (\<lambda>i. tolower (a ! i) = tolower (b ! i)) [0..<n])"

text \<open>The names up to a null pointer.\<close>

definition listed :: "bytes option list \<Rightarrow> bytes list" where
  "listed names = map the (takeWhile (\<lambda>x. x \<noteq> None) names)"

definition nearer :: "bytes \<Rightarrow> bytes \<Rightarrow> bytes option \<times> int \<Rightarrow> bytes option \<times> int" where
  "nearer w name st =
     (case st of (best, best_d) \<Rightarrow>
        let d = distance w name in if d < best_d then (Some name, d) else (best, best_d))"

definition closest :: "bytes option \<Rightarrow> bytes option list \<Rightarrow> bytes option" where
  "closest w names =
     (case w of
        None \<Rightarrow> None
      | Some w \<Rightarrow>
          if w = [] then None
          else
            let len = length w;
                most = (if len \<ge> 12 then 3 else if len \<ge> 6 then 2 else 1);
                (best, best_d) = fold (nearer w) (listed names) (None, most + 1)
            in case best of
                 None \<Rightarrow> find (starts w) (listed names)
               | Some b \<Rightarrow> Some b)"

section \<open>Values read strictly\<close>

text \<open>\<open>snprintf\<close> into \<open>cap\<close> bytes leaves room for the NUL.\<close>

definition snprintf :: "nat \<Rightarrow> bytes \<Rightarrow> bytes" where
  "snprintf cap t = take (cap - 1) t"

definition unknown_word :: "nat \<Rightarrow> bytes \<Rightarrow> bytes \<Rightarrow> bytes option list \<Rightarrow> bytes" where
  "unknown_word cap w what names =
     (case closest (Some w) names of
        Some near \<Rightarrow>
          snprintf cap (w @ lit '' is not '' @ what @ lit '' (did you mean '' @ near @ lit ''?)'')
      | None \<Rightarrow> snprintf cap (w @ lit '' is not '' @ what))"

definition LLONG_MAX :: int where "LLONG_MAX = 9223372036854775807"
definition LLONG_MIN :: int where "LLONG_MIN = - 9223372036854775808"

text \<open>
  \<open>strtoll(v, &end, 10)\<close> on a text that begins with no space: the value, where it ends, and
  whether \<open>errno\<close> is set.
\<close>

definition strtoll :: "bytes \<Rightarrow> int \<times> nat \<times> bool" where
  "strtoll v =
     (let i = (if v \<noteq> [] \<and> (hd v = 0x2d \<or> hd v = 0x2b) then 1 else 0);
          ds = takeWhile isdigit (drop i v);
          x = (if v \<noteq> [] \<and> hd v = 0x2d then - int (dec_val ds) else int (dec_val ds))
      in if ds = [] then (0, 0, False)
         else if x > LLONG_MAX then (LLONG_MAX, i + length ds, True)
         else if x < LLONG_MIN then (LLONG_MIN, i + length ds, True)
         else (x, i + length ds, False))"

definition word_int :: "bytes option \<Rightarrow> int \<Rightarrow> int \<Rightarrow> nat \<Rightarrow> bytes + int" where
  "word_int v lo hi why_len =
     (case v of
        None \<Rightarrow> Inl (snprintf why_len (lit ''a value is missing''))
      | Some v \<Rightarrow>
          let (x, e, err) = (if v \<noteq> [] \<and> \<not> isspace (hd v) then strtoll v else (0, 0, False)) in
          if v = [] \<or> isspace (hd v) \<or> drop e v \<noteq> [] \<or> err then
            Inl (snprintf why_len (v @ lit '' is not a whole number''))
          else if x < lo \<or> x > hi then
            Inl (snprintf why_len (v @ lit '' is '' @ (if x < lo then lit ''below'' else lit ''above'') @
                   lit '' '' @ dec_int (if x < lo then lo else hi)))
          else Inr x)"

text \<open>The list of the names in 256 bytes, and the place the next one goes.\<close>

definition name_list :: "bytes list \<Rightarrow> bytes" where
  "name_list ns =
     fst (fold (\<lambda>(i, name) (list, k).
                  if k < 256 then
                    let t = (if i = 0 then [] else lit '', '') @ name in
                    (take k list @ snprintf (256 - k) t, k + length t)
                  else (list, k))
            (enumerate 0 ns) ([], 0))"

definition word_choice :: "bytes option \<Rightarrow> bytes option list \<Rightarrow> nat \<Rightarrow> bytes + nat" where
  "word_choice v names why_len =
     (case (case v of None \<Rightarrow> None
            | Some v \<Rightarrow> find (\<lambda>i. v = listed names ! i) [0..<length (listed names)]) of
        Some i \<Rightarrow> Inr i
      | None \<Rightarrow>
          let list = name_list (listed names);
              letters = (case v of None \<Rightarrow> False | Some v \<Rightarrow> list_ex isalpha v);
              near = (if letters then closest v names else None);
              v' = (case v of None \<Rightarrow> lit ''nothing'' | Some v \<Rightarrow> v)
          in Inl (case near of
                    Some near \<Rightarrow>
                      snprintf why_len (v' @ lit '' is not one of '' @ list @ lit '' (did you mean '' @
                        near @ lit ''?)'')
                  | None \<Rightarrow> snprintf why_len (v' @ lit '' is not one of '' @ list)))"

section \<open>Edits\<close>

text \<open>
  \<open>align k xs ys\<close>: \<open>ys\<close> comes from \<open>xs\<close> by \<open>k\<close> edits side by side: a letter changed,
  left out or put in, or two neighbours swapped.
\<close>

inductive align :: "nat \<Rightarrow> 'a list \<Rightarrow> 'a list \<Rightarrow> bool" where
  align_Nil: "align 0 [] []"
| align_keep: "align k xs ys \<Longrightarrow> align k (x # xs) (x # ys)"
| align_change: "align k xs ys \<Longrightarrow> align (Suc k) (x # xs) (y # ys)"
| align_drop: "align k xs ys \<Longrightarrow> align (Suc k) (x # xs) ys"
| align_insert: "align k xs ys \<Longrightarrow> align (Suc k) xs (y # ys)"
| align_swap: "align k xs ys \<Longrightarrow> align (Suc k) (x # y # xs) (y # x # ys)"

lemma align_append: "align k xs ys \<Longrightarrow> align l us vs \<Longrightarrow> align (k + l) (xs @ us) (ys @ vs)"
  by (induction rule: align.induct) (auto intro: align.intros)

lemma align_single:
  "align 0 [x] [x]" "align (Suc 0) [x] [y]" "align (Suc 0) [x] []" "align (Suc 0) [] [y]"
  "align (Suc 0) [x, y] [y, x]"
  by (auto intro: align.intros)

lemma align_rev: "align k xs ys \<Longrightarrow> align k (rev xs) (rev ys)"
proof (induction rule: align.induct)
  case (align_keep k xs ys x)
  from align_append [OF align_keep.IH align_single(1) [of x]] show ?case by simp
next
  case (align_change k xs ys x y)
  from align_append [OF align_change.IH align_single(2) [of x y]] show ?case by simp
next
  case (align_drop k xs ys x)
  from align_append [OF align_drop.IH align_single(3) [of x]] show ?case by simp
next
  case (align_insert k xs ys y)
  from align_append [OF align_insert.IH align_single(4) [of y]] show ?case by simp
next
  case (align_swap k xs ys x y)
  from align_append [OF align_swap.IH align_single(5) [of y x]] show ?case by simp
qed (simp add: align_Nil)

text \<open>
  One edit anywhere in a word. Edits one after the other may touch a letter twice, which those of
  \<open>align\<close> do not.
\<close>

inductive edit :: "'a list \<Rightarrow> 'a list \<Rightarrow> bool" where
  edit_change: "edit (us @ x # vs) (us @ y # vs)"
| edit_drop: "edit (us @ x # vs) (us @ vs)"
| edit_insert: "edit (us @ vs) (us @ y # vs)"
| edit_swap: "edit (us @ x # y # vs) (us @ y # x # vs)"

lemma edit_Cons: "edit xs ys \<Longrightarrow> edit (x # xs) (x # ys)"
  by (induction rule: edit.induct) (auto simp flip: append_Cons intro: edit.intros)

lemma edits_Cons: "(edit ^^ k) xs ys \<Longrightarrow> (edit ^^ k) (x # xs) (x # ys)"
  by (induction k arbitrary: ys) (auto intro: edit_Cons)

lemma align_edits: "align k xs ys \<Longrightarrow> (edit ^^ k) xs ys"
proof (induction rule: align.induct)
  case (align_change k xs ys x y)
  then show ?case using edits_Cons [of k xs ys x] edit_change [of "[]" x ys y] by auto
next
  case (align_drop k xs ys x)
  then show ?case using edits_Cons [of k xs ys x] edit_drop [of "[]" x ys] by auto
next
  case (align_insert k xs ys y)
  then show ?case using edit_insert [of "[]" ys y] by auto
next
  case (align_swap k xs ys x y)
  then show ?case using edits_Cons [of k "y # xs" "y # ys" x] edits_Cons [of k xs ys y] edit_swap [of "[]" x y ys]
    by auto
qed (auto intro: edits_Cons)

text \<open>The recursion of the table, on the words read backwards.\<close>

fun osa :: "'a list \<Rightarrow> 'a list \<Rightarrow> nat" where
  "osa [] ys = length ys"
| "osa (x # xs) [] = Suc (length xs)"
| "osa (x # xs) (y # ys) =
     min (if xs \<noteq> [] \<and> ys \<noteq> [] \<and> x = hd ys \<and> hd xs = y then Suc (osa (tl xs) (tl ys))
          else Suc (osa xs (y # ys)))
       (min (Suc (osa xs (y # ys)))
         (min (Suc (osa (x # xs) ys)) (osa xs ys + (if x \<noteq> y then 1 else 0))))"

lemma osa_Nil [simp]: "osa xs [] = length xs"
  by (cases xs) auto

lemma osa_swap_base: "osa (x # xs) ys \<le> Suc (osa xs ys)"
  by (cases ys) (auto simp: Let_def)

lemma osa_insert: "osa xs (y # ys) \<le> Suc (osa xs ys)"
  by (cases xs) (auto simp: Let_def)

lemma osa_le: "align k xs ys \<Longrightarrow> osa xs ys \<le> k"
proof (induction rule: align.induct)
  case (align_drop k xs ys x)
  then show ?case using osa_swap_base [of x xs ys] by simp
next
  case (align_insert k xs ys y)
  then show ?case using osa_insert [of xs y ys] by simp
qed (auto simp: min_def)

lemma align_Nil_left: "align (length ys) [] ys"
  by (induction ys) (auto intro: align.intros)

lemma align_min: "align k xs ys \<Longrightarrow> align l xs ys \<Longrightarrow> align (min k l) xs ys"
  by (simp add: min_def)

lemma align_osa: "align (osa xs ys) xs ys"
proof (induction xs ys rule: osa.induct)
  case (1 ys)
  then show ?case by (simp add: align_Nil_left)
next
  case (2 x xs)
  have "align (length xs) xs []" for xs :: "'a list" by (induction xs) (auto intro: align.intros)
  from this [of "x # xs"] show ?case by simp
next
  case (3 x xs y ys)
  have same: "align (osa xs ys + (if x \<noteq> y then 1 else 0)) (x # xs) (y # ys)"
    using 3(5) by (auto intro: align.intros)
  have del: "align (Suc (osa xs (y # ys))) (x # xs) (y # ys)"
    using 3(3) by (auto intro: align.intros)
  have ins: "align (Suc (osa (x # xs) ys)) (x # xs) (y # ys)"
    using 3(4) by (auto intro: align.intros)
  have swp: "align (Suc (osa (tl xs) (tl ys))) (x # xs) (y # ys)"
    if *: "xs \<noteq> [] \<and> ys \<noteq> [] \<and> x = hd ys \<and> hd xs = y"
  proof -
    from * have "xs = y # tl xs" "ys = x # tl ys" by (metis list.collapse)+
    with align_swap [OF 3(1) [OF *], of x y] show ?thesis by simp
  qed
  have swp': "align (if xs \<noteq> [] \<and> ys \<noteq> [] \<and> x = hd ys \<and> hd xs = y then Suc (osa (tl xs) (tl ys))
      else Suc (osa xs (y # ys))) (x # xs) (y # ys)"
    using swp del by (simp split: if_split)
  show ?case
    unfolding osa.simps by (intro align_min swp' del ins same)
qed

lemma osa_Least: "osa xs ys = (LEAST k. align k xs ys)"
  by (rule Least_equality [symmetric]) (auto intro: align_osa osa_le)

lemma osa_rev: "osa (rev xs) (rev ys) = osa xs ys"
proof -
  have "align k (rev xs) (rev ys) \<longleftrightarrow> align k xs ys" for k
    using align_rev [of k xs ys] align_rev [of k "rev xs" "rev ys"] by auto
  then show ?thesis by (simp add: osa_Least)
qed

section \<open>The table\<close>

definition sized :: "table \<Rightarrow> bool" where
  "sized d \<longleftrightarrow> length d = LONGEST + 1 \<and> list_all (\<lambda>r. length r = LONGEST + 1) d"

definition word_key :: "bytes \<Rightarrow> bytes" where
  "word_key a = map tolower (take LONGEST a)"

text \<open>The value that belongs at a place: the distance of the starts of those lengths.\<close>

definition value_at :: "bytes \<Rightarrow> bytes \<Rightarrow> nat \<Rightarrow> nat \<Rightarrow> int" where
  "value_at a b i j = int (osa (rev (take i a)) (rev (take j b)))"

lemma sized_put: "sized d \<Longrightarrow> i \<le> LONGEST \<Longrightarrow> sized (put i j v d)"
  by (auto simp: sized_def put_def list_all_length nth_list_update)

lemma put_nth:
  "sized d \<Longrightarrow> i \<le> LONGEST \<Longrightarrow> j \<le> LONGEST \<Longrightarrow>
    put i j v d ! i' ! j' = (if i' = i \<and> j' = j then v else d ! i' ! j')"
  by (auto simp: sized_def put_def list_all_length nth_list_update)

lemma take_rev_step:
  "0 < i \<Longrightarrow> i \<le> length a \<Longrightarrow> rev (take i a) = a ! (i - 1) # rev (take (i - 1) a)"
  by (cases i) (simp_all add: take_Suc_conv_app_nth)

lemma value_at_step:
  assumes "0 < i" and "i \<le> length a" and "0 < j" and "j \<le> length b"
  shows "value_at a b i j =
    min (if i > 1 \<and> j > 1 \<and> a ! (i - 1) = b ! (j - 2) \<and> a ! (i - 2) = b ! (j - 1)
         then value_at a b (i - 2) (j - 2) + 1 else value_at a b (i - 1) j + 1)
      (min (value_at a b (i - 1) j + 1)
        (min (value_at a b i (j - 1) + 1)
          (value_at a b (i - 1) (j - 1) + (if a ! (i - 1) \<noteq> b ! (j - 1) then 1 else 0))))"
proof -
  have i: "rev (take i a) = a ! (i - 1) # rev (take (i - 1) a)"
    and j: "rev (take j b) = b ! (j - 1) # rev (take (j - 1) b)"
    using assms take_rev_step by blast+
  have i2: "i > 1 \<Longrightarrow> rev (take (i - 1) a) = a ! (i - 2) # rev (take (i - 2) a)"
    and j2: "j > 1 \<Longrightarrow> rev (take (j - 1) b) = b ! (j - 2) # rev (take (j - 2) b)"
    using take_rev_step [of "i - 1" a] take_rev_step [of "j - 1" b] assms by (auto simp: numeral_2_eq_2)
  define xs ys where "xs = rev (take (i - 1) a)" and "ys = rev (take (j - 1) b)"
  have v: "value_at a b i j = int (osa (a ! (i - 1) # xs) (b ! (j - 1) # ys))"
    "value_at a b (i - 1) (j - 1) = int (osa xs ys)"
    "value_at a b (i - 1) j = int (osa xs (b ! (j - 1) # ys))"
    "value_at a b i (j - 1) = int (osa (a ! (i - 1) # xs) ys)"
    by (simp_all only: value_at_def i j xs_def ys_def)
  have ne: "xs \<noteq> [] \<longleftrightarrow> i > 1" "ys \<noteq> [] \<longleftrightarrow> j > 1"
    using assms by (auto simp: xs_def ys_def)
  have "value_at a b (i - 2) (j - 2) = int (osa (tl xs) (tl ys))" "hd xs = a ! (i - 2)" "hd ys = b ! (j - 2)"
    if "i > 1" "j > 1"
    using that i2 j2 by (simp_all add: value_at_def xs_def ys_def)
  then have "value_at a b (i - 2) (j - 2) = int (osa (tl xs) (tl ys)) \<and> hd xs = a ! (i - 2) \<and>
      hd ys = b ! (j - 2)" if "xs \<noteq> [] \<and> ys \<noteq> []"
    using that ne by blast
  then have sw: "(if i > 1 \<and> j > 1 \<and> a ! (i - 1) = b ! (j - 2) \<and> a ! (i - 2) = b ! (j - 1)
       then value_at a b (i - 2) (j - 2) + 1 else int (osa xs (b ! (j - 1) # ys)) + 1) =
     int (if xs \<noteq> [] \<and> ys \<noteq> [] \<and> a ! (i - 1) = hd ys \<and> hd xs = b ! (j - 1)
       then Suc (osa (tl xs) (tl ys)) else Suc (osa xs (b ! (j - 1) # ys)))"
    unfolding ne [symmetric] by auto
  show ?thesis
    unfolding v sw osa.simps of_nat_min
    by (cases "a ! (i - 1) = b ! (j - 1)") (simp_all add: add.commute split del: if_split)
qed

lemma min_steps:
  fixes x y z w :: int
  shows "min (if c then w + 1 else y + 1) (min (y + 1) (min (z + 1) x)) =
    (let v = x; v = (if y + 1 < v then y + 1 else v); v = (if z + 1 < v then z + 1 else v)
     in if c \<and> w + 1 < v then w + 1 else v)"
  by (auto simp: Let_def min_def)

definition filled :: "bytes \<Rightarrow> bytes \<Rightarrow> nat \<Rightarrow> nat \<Rightarrow> table \<Rightarrow> bool" where
  "filled a b i j d \<longleftrightarrow> sized d \<and>
     (\<forall>i' j'. i' \<le> length a \<longrightarrow> j' \<le> length b \<longrightarrow> i' = 0 \<or> j' = 0 \<or> i' < i \<or> i' = i \<and> j' < j \<longrightarrow>
        d ! i' ! j' = value_at a b i' j')"

lemma length_word_key [simp]: "length (word_key a) = min LONGEST (length a)"
  by (simp add: word_key_def min.commute)

lemma word_key_nth: "i < LONGEST \<Longrightarrow> i < length a \<Longrightarrow> word_key a ! i = tolower (a ! i)"
  by (simp add: word_key_def)

lemma cell_filled:
  assumes "filled (word_key a) (word_key b) i j d" and "0 < i" and "i \<le> length (word_key a)"
    and "0 < j" and "j \<le> length (word_key b)"
  shows "filled (word_key a) (word_key b) i (Suc j) (cell a b i j d)"
proof -
  let ?V = "value_at (word_key a) (word_key b)"
  have bounds: "i \<le> LONGEST" "j \<le> LONGEST" "i \<le> length a" "j \<le> length b" using assms by auto
  have sz: "sized d" using assms(1) by (simp add: filled_def)
  have old: "d ! i' ! j' = ?V i' j'" if "i' \<le> i" "j' \<le> j" "i' < i \<or> j' < j" for i' j'
  proof -
    have "i' \<le> length (word_key a)" "j' \<le> length (word_key b)" using that assms by auto
    then show ?thesis using assms(1) that unfolding filled_def by (metis le_neq_implies_less)
  qed
  have keys: "tolower (a ! (i - 1)) = word_key a ! (i - 1)" "tolower (b ! (j - 1)) = word_key b ! (j - 1)"
    "tolower (a ! (i - 2)) = word_key a ! (i - 2)" "tolower (b ! (j - 2)) = word_key b ! (j - 2)"
    using bounds assms by (auto intro!: word_key_nth [symmetric])
  have reads: "d ! (i - 1) ! (j - 1) = ?V (i - 1) (j - 1)" "d ! (i - 1) ! j = ?V (i - 1) j"
    "d ! i ! (j - 1) = ?V i (j - 1)" "d ! (i - 2) ! (j - 2) = ?V (i - 2) (j - 2)"
    using assms(2,4) by (intro old; simp)+
  have cell: "cell a b i j d = put i j (?V i j) d"
    unfolding cell_def keys reads value_at_step [OF assms(2,3,4,5)] min_steps Let_def
    by (simp only: conj_assoc)
  show ?thesis
    unfolding cell filled_def
  proof (intro conjI allI impI)
    show "sized (put i j (?V i j) d)" using sz bounds by (simp add: sized_put)
    fix i' j'
    assume le: "i' \<le> length (word_key a)" "j' \<le> length (word_key b)"
      and new: "i' = 0 \<or> j' = 0 \<or> i' < i \<or> i' = i \<and> j' < Suc j"
    then have "i' = i \<and> j' = j \<or> i' = 0 \<or> j' = 0 \<or> i' < i \<or> i' = i \<and> j' < j" by auto
    then show "put i j (?V i j) d ! i' ! j' = ?V i' j'"
      using le sz bounds assms(1) by (auto simp: put_nth filled_def)
  qed
qed

lemma filled_borders:
  assumes "sized d" and "\<forall>i' < length a + 1. d ! i' ! 0 = int i'" and "\<forall>j' < length b + 1. d ! 0 ! j' = int j'"
  shows "filled a b 1 1 d"
proof -
  have "d ! i' ! j' = value_at a b i' j'" if "i' \<le> length a" "j' \<le> length b" "i' = 0 \<or> j' = 0" for i' j'
    using that assms(2,3) by (auto simp: value_at_def)
  with assms(1) show ?thesis by (auto simp: filled_def)
qed

lemma filled_row: "filled a b i (length b + 1) d \<Longrightarrow> filled a b (Suc i) 1 d"
  unfolding filled_def by (metis One_nat_def Suc_eq_plus1 less_Suc_eq less_Suc_eq_le less_one)

lemma borders_filled:
  assumes "sized d0" and "length a \<le> LONGEST" and "length b \<le> LONGEST"
  shows "filled a b 1 1 (fold (\<lambda>j. put 0 j (int j)) [0..<length b + 1]
    (fold (\<lambda>i. put i 0 (int i)) [0..<length a + 1] d0))"
proof -
  let ?d = "fold (\<lambda>i. put i 0 (int i)) [0..<length a + 1] d0"
  have d: "sized ?d \<and> (\<forall>i' < length a + 1. ?d ! i' ! 0 = int i')"
    by (rule fold_upt_invariant [of "\<lambda>k d. sized d \<and> (\<forall>i' < k. d ! i' ! 0 = int i')"])
      (use assms in \<open>auto simp: sized_put put_nth less_Suc_eq\<close>)
  let ?e = "fold (\<lambda>j. put 0 j (int j)) [0..<length b + 1] ?d"
  have "sized ?e \<and> (\<forall>i' < length a + 1. ?e ! i' ! 0 = int i') \<and> (\<forall>j' < length b + 1. ?e ! 0 ! j' = int j')"
    by (rule fold_upt_invariant [of "\<lambda>k d. sized d \<and> (\<forall>i' < length a + 1. d ! i' ! 0 = int i') \<and>
          (\<forall>j' < k. d ! 0 ! j' = int j')"])
      (use assms d in \<open>auto simp: sized_put put_nth less_Suc_eq\<close>)
  then show ?thesis by (intro filled_borders) auto
qed

lemma distance_from_osa:
  assumes "sized d0"
  shows "distance_from d0 a b = int (osa (word_key a) (word_key b))"
proof -
  let ?ka = "word_key a" and ?kb = "word_key b"
  have lens: "(if length a > LONGEST then LONGEST else length a) = length ?ka"
    "(if length b > LONGEST then LONGEST else length b) = length ?kb" by auto
  have row: "filled ?ka ?kb (Suc i) 1 (fold (\<lambda>j. cell a b i j) [1..<length ?kb + 1] d)"
    if "filled ?ka ?kb i 1 d" "1 \<le> i" "i < length ?ka + 1" for i d
  proof -
    have "filled ?ka ?kb i (length ?kb + 1) (fold (\<lambda>j. cell a b i j) [1..<length ?kb + 1] d)"
      by (rule fold_upt_invariant [of "\<lambda>j. filled ?ka ?kb i j"]) (use that in \<open>auto intro!: cell_filled\<close>)
    then show ?thesis by (rule filled_row)
  qed
  let ?d = "fold (\<lambda>j. put 0 j (int j)) [0..<length ?kb + 1]
    (fold (\<lambda>i. put i 0 (int i)) [0..<length ?ka + 1] d0)"
  have "filled ?ka ?kb (length ?ka + 1) 1
      (fold (\<lambda>i d. fold (\<lambda>j. cell a b i j) [1..<length ?kb + 1] d) [1..<length ?ka + 1] ?d)"
  proof (rule fold_upt_invariant [of "\<lambda>i. filled ?ka ?kb i 1"])
    show "filled ?ka ?kb 1 1 ?d" by (rule borders_filled) (use assms in auto)
  qed (use row in blast, simp)
  then have "distance_from d0 a b = value_at ?ka ?kb (length ?ka) (length ?kb)"
    unfolding distance_from_def Let_def lens by (simp add: filled_def)
  then show ?thesis by (simp add: value_at_def osa_rev)
qed

lemma distance_osa: "distance a b = int (osa (word_key a) (word_key b))"
proof -
  have "sized (replicate n (replicate n 0))" if "n = LONGEST + 1" for n
    using that by (auto simp: sized_def list_all_iff)
  then show ?thesis by (simp add: distance_def distance_from_osa)
qed


section \<open>The nearest name\<close>

definition most :: "bytes \<Rightarrow> int" where
  "most w = (if length w \<ge> 12 then 3 else if length w \<ge> 6 then 2 else 1)"

text \<open>The loop keeps the first name of the smallest distance, if it is below the bound.\<close>

lemma first_min_attained:
  fixes f :: "'a \<Rightarrow> int"
  assumes "xs \<noteq> []"
  shows "find (\<lambda>y. f y = Min (f ` set xs)) xs \<noteq> None"
proof -
  have "Min (f ` set xs) \<in> f ` set xs" using assms by (intro Min_in) auto
  then show ?thesis by (auto simp: find_None_iff)
qed

lemma nearest_fold:
  "fold (nearer w) xs (b, m) =
    (if \<exists>x \<in> set xs. distance w x < m
     then (find (\<lambda>x. distance w x = Min (distance w ` set xs)) xs, Min (distance w ` set xs))
     else (b, m))"
proof (induction xs arbitrary: b m)
  case (Cons x xs)
  let ?f = "distance w" and ?k = "Min (distance w ` set xs)"
  show ?case
  proof (cases "xs = []")
    case True
    then show ?thesis by (simp add: nearer_def Let_def)
  next
    case False
    then have ex: "(\<exists>y \<in> set xs. ?f y < c) \<longleftrightarrow> ?k < c" for c by (simp add: Min_less_iff)
    have k: "Min (?f ` set (x # xs)) = min (?f x) ?k" using False by simp
    have step: "fold (nearer w) (x # xs) (b, m) = fold (nearer w) xs (if ?f x < m then (Some x, ?f x) else (b, m))"
      by (simp add: nearer_def Let_def)
    show ?thesis
    proof (cases "?f x < m")
      case True
      then show ?thesis
        unfolding step k by (simp add: Cons.IH ex min_def order_le_less)
    next
      case False
      then show ?thesis
        unfolding step k by (simp add: Cons.IH ex min_def)
    qed
  qed
qed simp

lemma closest_eq:
  assumes "w \<noteq> []"
  shows "closest (Some w) names =
    (if \<exists>n \<in> set (listed names). distance w n \<le> most w
     then find (\<lambda>n. distance w n = Min (distance w ` set (listed names))) (listed names)
     else find (starts w) (listed names))"
proof -
  have *: "closest (Some w) names =
      (case fst (fold (nearer w) (listed names) (None, most w + 1)) of
         None \<Rightarrow> find (starts w) (listed names) | Some b \<Rightarrow> Some b)"
    using assms by (simp add: closest_def most_def Let_def split_beta)
  then show ?thesis
  proof (cases "\<exists>n \<in> set (listed names). distance w n \<le> most w")
    case True
    then have "listed names \<noteq> []" by auto
    from first_min_attained [OF this, of "distance w"] * True show ?thesis
      by (auto simp: nearest_fold)
  qed (simp add: nearest_fold)
qed

text \<open>One word is the start of the other, case aside, and has four letters or more.\<close>

definition start_of_other :: "bytes \<Rightarrow> bytes \<Rightarrow> bool" where
  "start_of_other a b \<longleftrightarrow>
     4 \<le> length a \<and> 4 \<le> length b \<and>
     (\<exists>x xs. map tolower a = map tolower b @ x # xs \<or> map tolower b = map tolower a @ x # xs)"

lemma nth_prefix:
  "length a < length b \<and> (\<forall>i < length a. f (a ! i) = f (b ! i)) \<longleftrightarrow> (\<exists>x xs. map f b = map f a @ x # xs)"
proof (induction a arbitrary: b)
  case Nil
  then show ?case by (cases b) auto
next
  case (Cons c a)
  then show ?case
  proof (cases b)
    case (Cons d b')
    have "(\<forall>i < length (c # a). f ((c # a) ! i) = f (b ! i)) \<longleftrightarrow> f c = f d \<and> (\<forall>i < length a. f (a ! i) = f (b' ! i))"
      by (auto simp: Cons less_Suc_eq_0_disj)
    then show ?thesis using Cons.IH [of b'] Cons by auto
  qed simp
qed

lemma starts_iff: "starts a b \<longleftrightarrow> start_of_other a b"
proof -
  note p = nth_prefix [of a b tolower] nth_prefix [of b a tolower]
  have "starts a b \<longleftrightarrow> 4 \<le> length a \<and> 4 \<le> length b \<and>
      (length b < length a \<and> (\<forall>i < length b. tolower (b ! i) = tolower (a ! i)) \<or>
       length a < length b \<and> (\<forall>i < length a. tolower (a ! i) = tolower (b ! i)))"
    by (auto simp: starts_def Let_def list_all_iff)
  then show ?thesis unfolding p start_of_other_def by blast
qed

section \<open>Whole numbers\<close>

text \<open>The texts of a whole number: digits, with a sign or none.\<close>

definition number_text :: "bytes \<Rightarrow> int \<Rightarrow> bool" where
  "number_text v x \<longleftrightarrow>
     (\<exists>ds. ds \<noteq> [] \<and> list_all isdigit ds \<and>
        ((v = ds \<or> v = 0x2b # ds) \<and> x = int (dec_val ds) \<or> v = 0x2d # ds \<and> x = - int (dec_val ds)))"

lemma isdigit_not_sign: "isdigit c \<Longrightarrow> c \<noteq> 0x2d \<and> c \<noteq> 0x2b \<and> \<not> isspace c"
  by (auto simp: isdigit_def isspace_def word_le_nat_alt)

lemma takeWhile_whole: "length xs \<le> length (takeWhile p xs) \<longleftrightarrow> list_all p xs"
  by (induction xs) auto

lemma takeWhile_all: "list_all p xs \<Longrightarrow> takeWhile p xs = xs"
  by (induction xs) auto

lemma strtoll_sign:
  assumes "c = 0x2d \<or> c = 0x2b"
  shows "strtoll (c # cs) = (x, e, False) \<and> drop e (c # cs) = [] \<longleftrightarrow>
     cs \<noteq> [] \<and> list_all isdigit cs \<and> e = Suc (length cs) \<and> LLONG_MIN \<le> x \<and> x \<le> LLONG_MAX \<and>
     x = (if c = 0x2d then - int (dec_val cs) else int (dec_val cs))"
proof (cases "list_all isdigit cs")
  case True
  with assms show ?thesis
    by (auto simp: strtoll_def Let_def takeWhile_all LLONG_MIN_def LLONG_MAX_def)
next
  case False
  then have "drop (Suc (length (takeWhile isdigit cs))) (c # cs) \<noteq> []" by (simp add: takeWhile_whole)
  with assms False show ?thesis
    by (auto simp: strtoll_def Let_def split: if_splits)
qed

lemma strtoll_plain:
  assumes "v \<noteq> []" and "hd v \<noteq> 0x2d" and "hd v \<noteq> 0x2b"
  shows "strtoll v = (x, e, False) \<and> drop e v = [] \<longleftrightarrow>
     list_all isdigit v \<and> e = length v \<and> x \<le> LLONG_MAX \<and> x = int (dec_val v)"
proof (cases "list_all isdigit v")
  case True
  with assms show ?thesis
    by (auto simp: strtoll_def Let_def takeWhile_all LLONG_MIN_def LLONG_MAX_def)
next
  case False
  then have "drop (length (takeWhile isdigit v)) v \<noteq> []" by (simp add: takeWhile_whole)
  with assms False show ?thesis
    by (auto simp: strtoll_def Let_def split: if_splits)
qed

lemma strtoll_whole:
  assumes "v \<noteq> []"
  shows "strtoll v = (x, e, False) \<and> drop e v = [] \<longleftrightarrow>
     number_text v x \<and> LLONG_MIN \<le> x \<and> x \<le> LLONG_MAX \<and> e = length v"
proof -
  from assms obtain c cs where v: "v = c # cs" by (cases v) auto
  show ?thesis
  proof (cases "c = 0x2d \<or> c = 0x2b")
    case True
    from strtoll_sign [OF True] show ?thesis using True v by (auto simp: number_text_def isdigit_def)
  next
    case False
    then have "strtoll v = (x, e, False) \<and> drop e v = [] \<longleftrightarrow>
        list_all isdigit v \<and> e = length v \<and> x \<le> LLONG_MAX \<and> x = int (dec_val v)"
      using v by (intro strtoll_plain) auto
    moreover have "number_text v x \<longleftrightarrow> list_all isdigit v \<and> x = int (dec_val v)"
      using False v by (auto simp: number_text_def)
    ultimately show ?thesis by (auto simp: LLONG_MIN_def)
  qed
qed


lemma int_text_start: "number_text v x \<Longrightarrow> v \<noteq> [] \<and> \<not> isspace (hd v)"
proof -
  have "\<not> isspace 0x2b" "\<not> isspace 0x2d" by (simp_all add: isspace_def)
  then show "number_text v x \<Longrightarrow> v \<noteq> [] \<and> \<not> isspace (hd v)"
    by (auto simp: number_text_def neq_Nil_conv isdigit_not_sign)
qed

lemma number_text_dec: "number_text (dec_int y) y"
  unfolding number_text_def dec_int_def
  by (rule exI [of _ "dec (nat \<bar>y\<bar>)"]) (auto simp: dec_digits)

lemma word_int_iff:
  "word_int (Some t) lo hi n = Inr x \<longleftrightarrow>
     number_text t x \<and> LLONG_MIN \<le> x \<and> x \<le> LLONG_MAX \<and> lo \<le> x \<and> x \<le> hi"
proof (cases "t = [] \<or> isspace (hd t)")
  case True
  then show ?thesis using int_text_start [of t x] by (auto simp: word_int_def)
next
  case False
  obtain y e err where st: "strtoll t = (y, e, err)" by (cases "strtoll t") auto
  have "word_int (Some t) lo hi n = Inr x \<longleftrightarrow> (strtoll t = (x, e, False) \<and> drop e t = []) \<and> lo \<le> x \<and> x \<le> hi"
    using False st by (auto simp: word_int_def)
  also have "strtoll t = (x, e, False) \<and> drop e t = [] \<longleftrightarrow>
      number_text t x \<and> LLONG_MIN \<le> x \<and> x \<le> LLONG_MAX \<and> e = length t"
    using False by (intro strtoll_whole) simp
  also have "\<dots> \<longleftrightarrow> number_text t x \<and> LLONG_MIN \<le> x \<and> x \<le> LLONG_MAX"
    using strtoll_whole [of t x "length t"] st False by auto
  finally show ?thesis by auto
qed

text \<open>
  C20. The distance of two words is the least number of letters changed, left out, put in, or
  swapped with their neighbour that turns one into the other, case aside, on their first 64
  letters, when no letter is touched twice; whatever the table held before. So many edits one
  after the other do turn one word into the other, but fewer may: from \<open>ca\<close> to \<open>abc\<close> the
  distance is 3, where a swap and a letter put in between the two are enough.
\<close>

theorem distance_least_edits:
  assumes "sized d0"
  shows "distance_from d0 a b = int (LEAST k. align k (word_key a) (word_key b)) \<and>
    (edit ^^ nat (distance_from d0 a b)) (word_key a) (word_key b) \<and>
    distance_from d0 (lit ''ca'') (lit ''abc'') = 3 \<and> (edit ^^ 2) (lit ''ca'') (lit ''abc'')"
proof -
  have "align (osa xs ys) xs ys" for xs ys :: bytes
    unfolding osa_Least using align_osa by (rule LeastI)
  then have "(edit ^^ osa (word_key a) (word_key b)) (word_key a) (word_key b)" by (rule align_edits)
  moreover have "edit (lit ''ca'') (lit ''ac'')" using edit_swap [of "[]" "0x63" "0x61" "[]"] by simp
  moreover have "edit (lit ''ac'') (lit ''abc'')" using edit_insert [of "[0x61]" "[0x63]" "0x62"] by simp
  moreover have "osa (word_key (lit ''ca'')) (word_key (lit ''abc'')) = 3"
    by (simp add: word_key_def LONGEST_def tolower_def)
  ultimately show ?thesis using assms by (auto simp: distance_from_osa osa_Least numeral_2_eq_2)
qed

lemma sized_replicate: "n = LONGEST + 1 \<Longrightarrow> sized (replicate n (replicate n x))"
  by (auto simp: sized_def list_all_iff)

theorem distance_least_edits_witness:
  "distance_from (replicate 65 (replicate 65 7)) (lit ''tmep'') (lit ''Temp'') =
     int (LEAST k. align k (word_key (lit ''tmep'')) (word_key (lit ''Temp'')))"
proof -
  have "sized (replicate 65 (replicate 65 7))" by (rule sized_replicate) (simp add: LONGEST_def)
  from distance_least_edits [OF this, of "lit ''tmep''" "lit ''Temp''"] show ?thesis by blast
qed

text \<open>
  C21. The name proposed for a word is the first of those at the smallest distance when that is
  within 1 for a word of up to 5 letters, 2 up to 11 and 3 beyond, else the first that is the
  start of the other or it of them, and none when there is none. The names are those of the list,
  up to a null pointer if it holds one.
\<close>

theorem closest_nearest:
  assumes "w \<noteq> []" and "rest = [] \<or> hd rest = None"
  shows "closest (Some w) (map Some ns @ rest) =
    (if \<exists>n \<in> set ns. distance w n \<le> (if length w < 6 then 1 else if length w < 12 then 2 else 3)
     then find (\<lambda>n. distance w n = Min (distance w ` set ns)) ns
     else find (start_of_other w) ns)"
proof -
  have "listed (map Some ns @ rest) = ns"
    using assms(2) by (induction ns) (cases rest; auto simp: listed_def)+
  moreover have "most w = (if length w < 6 then 1 else if length w < 12 then 2 else 3)" by (simp add: most_def)
  moreover have "starts w = start_of_other w" by (simp add: fun_eq_iff starts_iff)
  ultimately show ?thesis using closest_eq [OF assms(1), of "map Some ns @ rest"] by simp
qed

lemma near_temp:
  "distance (lit ''tmep'') (lit ''port'') = 4" "distance (lit ''tmep'') (lit ''Temp'') = 1"
  by (simp_all add: distance_osa word_key_def LONGEST_def tolower_def)

theorem closest_nearest_witness:
  "closest (Some (lit ''tmep'')) (map Some [lit ''port'', lit ''Temp''] @ []) = Some (lit ''Temp'')"
  using closest_nearest [of "lit ''tmep''" "[]" "[lit ''port'', lit ''Temp'']"] near_temp by simp

text \<open>
  C22. A value is read as a whole number exactly when it is a text of one, with a sign or none
  and nothing around it, that fits 64 bits and the bounds; so a number written in decimal is read
  back as itself.
\<close>

theorem word_int_exact:
  "(word_int v lo hi n = Inr x \<longleftrightarrow>
     (\<exists>t. v = Some t \<and> number_text t x \<and> LLONG_MIN \<le> x \<and> x \<le> LLONG_MAX \<and> lo \<le> x \<and> x \<le> hi)) \<and>
   (LLONG_MIN \<le> y \<and> y \<le> LLONG_MAX \<and> lo \<le> y \<and> y \<le> hi \<longrightarrow> word_int (Some (dec_int y)) lo hi n = Inr y)"
proof -
  have "word_int None lo hi n \<noteq> Inr x" by (simp add: word_int_def)
  then show ?thesis
    using word_int_iff number_text_dec by (cases v) auto
qed

theorem word_int_exact_witness:
  "word_int (Some (lit ''-42'')) (- 100) 100 80 = Inr (- 42) \<and>
   word_int (Some (lit ''-42'')) 0 100 80 \<noteq> Inr (- 42)"
proof -
  have "dec_int (- 42) = lit ''-42''"
    by (simp add: dec_int_def dec_large dec_small)
  then show ?thesis
    using word_int_exact [of None "- 100" 100 80 0 "- 42"] word_int_exact [of "Some (lit ''-42'')" 0 100 80 "- 42"]
    by (simp add: LLONG_MIN_def LLONG_MAX_def)
qed

end
