(* ===== verification/Schema_Num.thy ===== *)
theory Schema_Num
  imports Gram_Grow C_Strings Complex_Main
begin

text \<open>
  \<open>src/llm/schema_num.c\<close>: numbers with bounds as grammar rules. \<open>dp\<close> is \<open>struct dp\<close> with its
  two tables of rules already made; the builder is passed along. Magnitudes are below \<open>10 ^ 18\<close>
  and remainders below 50, so the 64-bit and 32-bit arithmetic of the source never wraps and is
  that of the natural numbers. A table's free slot holds \<open>NONE\<close>. Where the source makes two
  calls in the arguments of a third, in an order C leaves open, the model makes the first one
  first. A double is the rational number it stands for: \<open>floor\<close>, \<open>ceil\<close>, comparisons and
  the sign are exact, and the operations that round take the rounding \<open>fl\<close> as an argument.
\<close>

section \<open>Digit by digit\<close>

definition NONE :: nat where "NONE = UINT32_MAX"
definition MAG_DIGITS :: nat where "MAG_DIGITS = 18"
definition MAG_MAX :: nat where "MAG_MAX = 999999999999999999"
definition MULT_MAX :: nat where "MULT_MAX = 50"
definition FRAC_MAX :: nat where "FRAC_MAX = 19"

record dp =
  dp_len :: nat
  dp_lo :: bytes
  dp_hi :: bytes
  dp_m :: nat
  dp_edge :: "nat list"
  dp_free :: "nat list"

definition digit_char :: "nat \<Rightarrow> u8" where
  "digit_char d = 0x30 + of_nat d"

text \<open>The digits from \<open>dg\<close> on, not yet taken, that lead to the remainder \<open>nr\<close>, as a set.\<close>

definition digit_class :: "nat \<Rightarrow> nat \<Rightarrow> nat \<Rightarrow> nat \<Rightarrow> bool list \<Rightarrow> bset \<times> bool list" where
  "digit_class m r nr dg taken =
     fold (\<lambda>e (set, taken).
             if \<not> taken ! e \<and> (r * 10 + e) mod m = nr
             then (set_add set (unat (digit_char e)) (unat (digit_char e)), taken[e := True])
             else (set, taken))
       [dg..<10] (set_clear, taken)"

text \<open>One round of the loop over the digits; \<open>sub\<close> makes the state that a remainder leads to.\<close>

definition free_digit :: "nat \<Rightarrow> nat \<Rightarrow> nat \<Rightarrow> (nat \<Rightarrow> dp \<times> gbuild \<Rightarrow> nat \<times> dp \<times> gbuild) \<Rightarrow> nat
    \<Rightarrow> bool list \<times> dp \<times> gbuild \<Rightarrow> bool list \<times> dp \<times> gbuild" where
  "free_digit m r rule sub dg st =
     (case st of (taken, d, b) \<Rightarrow>
        if taken ! dg then (taken, d, b)
        else
          let nr = (r * 10 + dg) mod m;
              (set, taken) = digit_class m r nr dg taken;
              (a, b) = gb_alt rule b;
              b = gb_set a set b;
              (q, d, b) = sub nr (d, b)
          in (taken, d, gb_ref a q b))"

fun free_state :: "nat \<Rightarrow> nat \<Rightarrow> dp \<times> gbuild \<Rightarrow> nat \<times> dp \<times> gbuild" where
  "free_state 0 r (d, b) =
     (let slot = r in
      if dp_free d ! slot \<noteq> NONE then (dp_free d ! slot, d, b)
      else case gb_rule b of (rule, b) \<Rightarrow>
        (rule, d\<lparr>dp_free := (dp_free d)[slot := rule]\<rparr>, if r = 0 then snd (gb_alt rule b) else b))"
| "free_state (Suc left) r (d, b) =
     (let slot = Suc left * dp_m d + r in
      if dp_free d ! slot \<noteq> NONE then (dp_free d ! slot, d, b)
      else case gb_rule b of (rule, b) \<Rightarrow>
        (rule, snd (fold (free_digit (dp_m d) r rule (free_state left)) [0..<10]
                     (replicate 10 False, d\<lparr>dp_free := (dp_free d)[slot := rule]\<rparr>, b))))"

text \<open>
  The runs of digits from \<open>dg\<close> to \<open>to\<close> with the same next state, first and last: a digit of its
  own when \<open>m > 1\<close> or where a bound's digit begins or ends a run.
\<close>

function digit_runs :: "nat \<Rightarrow> (nat \<Rightarrow> bool \<times> bool) \<Rightarrow> nat \<Rightarrow> nat \<Rightarrow> (nat \<times> nat) list" where
  "digit_runs m tight dg to =
     (if dg > to then []
      else
        let e = (if m = 1
                 then dg + length (takeWhile (\<lambda>k. tight k = tight dg) [dg + 1..<to + 1])
                 else dg)
        in (dg, e) # digit_runs m tight (e + 1) to)"
  by pat_completeness auto
termination
  by (relation "measure (\<lambda>(m, tight, dg, to). Suc to - dg)") auto

declare digit_runs.simps [simp del]

text \<open>\<open>state left tlo thi r\<close>: the state at \<open>pos = len - left\<close>, \<open>left\<close> digits to go.\<close>

definition tight_at :: "dp \<Rightarrow> nat \<Rightarrow> bool \<Rightarrow> bool \<Rightarrow> nat \<Rightarrow> bool \<times> bool" where
  "tight_at d pos tlo thi dg =
     (tlo \<and> dg = digit_val (dp_lo d ! pos), thi \<and> dg = digit_val (dp_hi d ! pos))"

definition edge_slot :: "dp \<Rightarrow> nat \<Rightarrow> bool \<Rightarrow> bool \<Rightarrow> nat \<Rightarrow> nat" where
  "edge_slot d pos tlo thi r = ((pos * 2 + of_bool tlo) * 2 + of_bool thi) * dp_m d + r"

definition edge_run :: "nat \<Rightarrow> nat \<Rightarrow> nat \<Rightarrow> (nat \<Rightarrow> bool \<times> bool)
    \<Rightarrow> (bool \<Rightarrow> bool \<Rightarrow> nat \<Rightarrow> dp \<times> gbuild \<Rightarrow> nat \<times> dp \<times> gbuild) \<Rightarrow> nat \<times> nat \<Rightarrow> dp \<times> gbuild \<Rightarrow> dp \<times> gbuild" where
  "edge_run m r rule tight sub run st =
     (case (run, st) of ((dg, e), d, b) \<Rightarrow>
        let (ntl, nth) = tight dg;
            nr = (r * 10 + dg) mod m;
            set = set_add set_clear (unat (digit_char dg)) (unat (digit_char e));
            (a, b) = gb_alt rule b;
            b = gb_set a set b;
            (q, d, b) = sub ntl nth nr (d, b)
        in (d, gb_ref a q b))"

fun state :: "nat \<Rightarrow> bool \<Rightarrow> bool \<Rightarrow> nat \<Rightarrow> dp \<times> gbuild \<Rightarrow> nat \<times> dp \<times> gbuild" where
  "state 0 tlo thi r (d, b) =
     (if \<not> tlo \<and> \<not> thi then free_state 0 r (d, b)
      else
        let sl = edge_slot d (dp_len d) tlo thi r in
        if dp_edge d ! sl \<noteq> NONE then (dp_edge d ! sl, d, b)
        else case gb_rule b of (rule, b) \<Rightarrow>
          (rule, d\<lparr>dp_edge := (dp_edge d)[sl := rule]\<rparr>, if r = 0 then snd (gb_alt rule b) else b))"
| "state (Suc left) tlo thi r (d, b) =
     (if \<not> tlo \<and> \<not> thi then free_state (Suc left) r (d, b)
      else
        let pos = dp_len d - Suc left; sl = edge_slot d pos tlo thi r in
        if dp_edge d ! sl \<noteq> NONE then (dp_edge d ! sl, d, b)
        else case gb_rule b of (rule, b) \<Rightarrow>
          let from = (if tlo then digit_val (dp_lo d ! pos) else 0);
              to = (if thi then digit_val (dp_hi d ! pos) else 9);
              tight = tight_at d pos tlo thi
          in (rule, fold (edge_run (dp_m d) r rule tight (state left))
                      (digit_runs (dp_m d) tight from to)
                      (d\<lparr>dp_edge := (dp_edge d)[sl := rule]\<rparr>, b)))"

fun ndigits :: "nat \<Rightarrow> nat" where
  "ndigits x = (if x \<ge> 10 then ndigits (x div 10) + 1 else 1)"

declare ndigits.simps [simp del]

text \<open>The digits of the two bounds, written from the last place to the first.\<close>

definition put_digits :: "nat \<Rightarrow> nat \<Rightarrow> bytes \<Rightarrow> bytes" where
  "put_digits len x s =
     fst (fold (\<lambda>k (s, x). (s[k := digit_char (x mod 10)], x div 10)) (rev [0..<len]) (s, x))"

text \<open>One round of the loop of \<open>magnitudes\<close>: the numbers of \<open>len\<close> digits.\<close>

definition length_round :: "nat \<Rightarrow> nat \<Rightarrow> nat \<Rightarrow> nat \<Rightarrow> dp \<times> gbuild \<Rightarrow> dp \<times> gbuild" where
  "length_round into a hi len st =
     (case st of (d, b) \<Rightarrow>
        let p10 = 10 ^ (len - 1);
            top = (if len = MAG_DIGITS then MAG_MAX else p10 * 10 - 1);
            lo = (if len = 1 then 0 else p10); up = top;
            lo = (if lo < a then a else lo);
            up = (if up > hi then hi else up)
        in if lo > up then (d, b)
           else
             let d = d\<lparr>dp_len := len\<rparr> in
             if ndigits lo \<noteq> len \<or> ndigits up \<noteq> len then (d, b)
             else
               let d = d\<lparr>dp_lo := put_digits len lo (dp_lo d), dp_hi := put_digits len up (dp_hi d),
                         dp_edge := replicate ((MAG_DIGITS + 1) * 4 * dp_m d) NONE\<rparr>;
                   (alt, b) = gb_alt into b;
                   (q, d, b) = state len True True 0 (d, b)
               in (d, gb_ref alt q b))"

text \<open>\<open>False\<close> for the return value \<open>-1\<close>.\<close>

definition magnitudes :: "nat \<Rightarrow> nat \<Rightarrow> nat \<Rightarrow> nat \<Rightarrow> gbuild \<Rightarrow> bool \<times> gbuild" where
  "magnitudes into a hi m b =
     (if a > hi then (True, b)
      else case gb_request b of (ok1, b) \<Rightarrow>
        case gb_request b of (ok2, b) \<Rightarrow>
        if \<not> ok1 \<or> \<not> ok2 then (False, b)
        else
          let d = \<lparr>dp_len = 0, dp_lo = replicate (MAG_DIGITS + 1) 0, dp_hi = replicate (MAG_DIGITS + 1) 0,
                   dp_m = m, dp_edge = replicate ((MAG_DIGITS + 1) * 4 * m) NONE,
                   dp_free = replicate ((MAG_DIGITS + 1) * m) NONE\<rparr>
          in (True, snd (fold (length_round into a hi) [1..<MAG_DIGITS + 1] (d, b))))"


section \<open>Integers with bounds\<close>

record bounds =
  has_lo :: bool
  has_hi :: bool
  lo_x :: bool
  hi_x :: bool
  has_mult :: bool
  b_lo :: rat
  b_hi :: rat
  b_mult :: rat

text \<open>\<open>(double)MAG_MAX\<close> is \<open>10 ^ 18\<close>.\<close>

definition DMAG :: rat where "DMAG = 1000000000000000000"

definition clamp_mag :: "rat \<Rightarrow> nat" where
  "clamp_mag x = (if x \<le> 0 then 0 else if x \<ge> DMAG then MAG_MAX else nat \<lfloor>x\<rfloor>)"

definition mult_of :: "(rat \<Rightarrow> rat) \<Rightarrow> bounds \<Rightarrow> nat \<Rightarrow> nat \<times> nat" where
  "mult_of fl bd relaxed =
     (if has_mult bd then
        let mv = b_mult bd in
        if mv \<ge> 1 \<and> mv \<le> of_nat MULT_MAX \<and> mv = of_int \<lfloor>mv\<rfloor> then (nat \<lfloor>mv\<rfloor>, relaxed)
        else if \<not> (mv > 0 \<and> mv < 1 \<and> of_int \<lfloor>fl (1 / mv)\<rfloor> = fl (1 / mv)) then (1, relaxed + 1)
        else (1, relaxed)
      else (1, relaxed))"

text \<open>The least and the greatest integer inside the bounds, as far as the rules go.\<close>

definition int_range :: "(rat \<Rightarrow> rat) \<Rightarrow> bounds \<Rightarrow> rat \<times> rat" where
  "int_range fl bd =
     (let L = (if has_lo bd then
                 (if lo_x bd then fl (of_int \<lfloor>b_lo bd\<rfloor> + 1) else of_int \<lceil>b_lo bd\<rceil>)
               else - DMAG);
          H = (if has_hi bd then
                 (if hi_x bd then fl (of_int \<lceil>b_hi bd\<rceil> - 1) else of_int \<lfloor>b_hi bd\<rfloor>)
               else DMAG);
          L = (if L < - DMAG then - DMAG else L);
          H = (if H > DMAG then DMAG else H)
      in (L, H))"

definition int_bounded :: "(rat \<Rightarrow> rat) \<Rightarrow> bounds \<Rightarrow> nat \<Rightarrow> gbuild \<Rightarrow> nat \<times> nat \<times> gbuild" where
  "int_bounded fl bd relaxed b =
     (let (m, relaxed) = mult_of fl bd relaxed;
          (L, H) = int_range fl bd;
          (r, b) = gb_rule b
      in if L > H then (r, relaxed, b)
         else
           let (ok, b) = (if H \<ge> 0 then magnitudes r (clamp_mag L) (clamp_mag H) m b else (True, b)) in
           if \<not> ok then (NONE, relaxed, b)
           else if L < 0 then
             let (neg, b) = gb_rule b;
                 a = (if H < 0 then clamp_mag (- H) else 1);
                 (ok, b) = magnitudes neg (if a \<noteq> 0 then a else 1) (clamp_mag (- L)) m b
             in if \<not> ok then (NONE, relaxed, b)
                else
                  let (alt, b) = gb_alt r b;
                      b = gb_byte alt 0x2d b
                  in (r, relaxed, gb_ref alt neg b)
           else (r, relaxed, b))"

section \<open>Real numbers with bounds\<close>

definition DG :: bset where "DG = set_add set_clear 0x30 0x39"
definition D19 :: bset where "D19 = set_add set_clear 0x31 0x39"

text \<open>The rules \<open>D_k\<close>, up to \<open>k\<close> more digits, and \<open>Z_k\<close>, up to \<open>k\<close> digits not all zero.\<close>

definition more_digits :: "nat \<Rightarrow> nat list \<times> gbuild \<Rightarrow> nat list \<times> gbuild" where
  "more_digits k st =
     (case st of (dk, b) \<Rightarrow>
        let (r, b) = gb_rule b;
            b = snd (gb_alt r b);
            (a, b) = gb_alt r b;
            b = gb_set a DG b
        in (dk @ [r], gb_ref a (dk ! (k - 1)) b))"

definition nonzero_digits :: "nat list \<Rightarrow> nat \<Rightarrow> nat \<times> gbuild \<Rightarrow> nat \<times> gbuild" where
  "nonzero_digits dk k st =
     (case st of (z, b) \<Rightarrow>
        let (r, b) = gb_rule b;
            (a, b) = gb_alt r b;
            b = gb_set a D19 b;
            b = gb_ref a (dk ! (k - 1)) b;
            b = (if z \<noteq> NONE then
                   let (a, b) = gb_alt r b; b = gb_byte a 0x30 b in gb_ref a z b
                 else b)
        in (r, b))"

definition fraction :: "bool \<Rightarrow> gbuild \<Rightarrow> nat \<times> gbuild" where
  "fraction nz b =
     (let (d, b) = gb_empty b;
          (dk, b) = fold more_digits [1..<FRAC_MAX + 1] ([d], b);
          (z, b) = (if nz then fold (nonzero_digits dk) [1..<FRAC_MAX + 1] (NONE, b) else (NONE, b));
          (r, b) = gb_rule b;
          (a, b) = gb_alt r b;
          b = gb_byte a 0x2e b
      in if nz then (r, gb_ref a z b)
         else let b = gb_set a DG b in (r, gb_ref a (dk ! (FRAC_MAX - 1)) b))"

definition num_part :: "nat \<Rightarrow> nat \<Rightarrow> nat \<Rightarrow> nat \<Rightarrow> gbuild \<Rightarrow> bool \<times> gbuild" where
  "num_part into a hi tail b =
     (if a > hi then (True, b)
      else
        let (ip, b) = gb_rule b;
            (ok, b) = magnitudes ip a hi 1 b
        in if \<not> ok then (False, b)
           else
             let (alt, b) = gb_alt into b;
                 b = gb_ref alt ip b
             in (True, if tail \<noteq> NONE then gb_ref alt tail b else b))"

text \<open>The numbers the range gives: \<open>i1\<close>, \<open>i2\<close>, \<open>p\<close> and \<open>q\<close> of the source.\<close>

definition side_parts :: "(rat \<Rightarrow> rat) \<Rightarrow> rat \<Rightarrow> bool \<Rightarrow> rat \<Rightarrow> bool \<Rightarrow> bool \<Rightarrow> bool \<Rightarrow> int \<times> int \<times> int \<times> int" where
  "side_parts fl A ax B bx no_hi pos =
     (let (i1, q) = (if A = of_int \<lfloor>A\<rfloor> then (if ax then (\<lfloor>A\<rfloor> + 1, \<lfloor>A\<rfloor>) else (\<lfloor>A\<rfloor>, -1))
                     else (\<lceil>A\<rceil>, -1));
          (i1, q) = (if pos \<and> i1 = 0 \<and> q < 0 then (1, 0) else (i1, q));
          (i2, p) = (if no_hi then (int MAG_MAX, -1)
                     else if B = of_int \<lfloor>B\<rfloor> then (\<lfloor>B\<rfloor> - 1, if \<not> bx then \<lfloor>B\<rfloor> else -1)
                     else (\<lfloor>B\<rfloor> - 1, \<lfloor>B\<rfloor>));
          p = (if p \<ge> 0 \<and> (p < i1 \<or> pos \<and> p = 0) then -1 else p);
          q = (if q \<ge> 0 \<and> \<not> no_hi \<and> fl (of_int q + 1) > B then -1 else q)
      in (i1, i2, p, q))"

definition real_side :: "(rat \<Rightarrow> rat) \<Rightarrow> nat \<Rightarrow> rat \<Rightarrow> bool \<Rightarrow> rat \<Rightarrow> bool \<Rightarrow> bool \<Rightarrow> bool \<Rightarrow> nat \<Rightarrow> nat
    \<Rightarrow> gbuild \<Rightarrow> bool \<times> gbuild" where
  "real_side fl into A ax B bx no_hi pos any_f nz_f b =
     (let (i1, i2, p, q) = side_parts fl A ax B bx no_hi pos;
          (ok, b) =
            (if i1 \<le> i2 then
               let (opt, b) = gb_rule b;
                   b = snd (gb_alt opt b);
                   (a, b) = gb_alt opt b;
                   b = gb_ref a any_f b
               in num_part into (nat i1) (clamp_mag (fl (of_int i2))) opt b
             else (True, b))
      in if \<not> ok then (False, b)
         else
           let (ok, b) = (if p \<ge> 0 then num_part into (nat p) (nat p) NONE b else (True, b)) in
           if \<not> ok then (False, b)
           else if q \<ge> 0 then num_part into (nat q) (nat q) nz_f b
           else (True, b))"

definition real_bounded :: "(rat \<Rightarrow> rat) \<Rightarrow> bounds \<Rightarrow> nat \<Rightarrow> gbuild \<Rightarrow> nat \<times> nat \<times> gbuild" where
  "real_bounded fl bd relaxed b =
     (if has_mult bd \<and> b_mult bd \<ge> 1 \<and> b_mult bd = of_int \<lfloor>b_mult bd\<rfloor>
      then int_bounded fl bd relaxed b
      else
        let relaxed = (if has_mult bd then relaxed + 1 else relaxed);
            (any_f, b) = fraction False b;
            (nz_f, b) = fraction True b;
            (r, b) = gb_rule b;
            lo = b_lo bd; hi = b_hi bd;
            (ok, b) =
              (if \<not> has_hi bd \<or> hi > 0 \<or> hi = 0 \<and> \<not> hi_x bd then
                 real_side fl r (if has_lo bd \<and> lo > 0 then lo else 0) (has_lo bd \<and> lo \<ge> 0 \<and> lo_x bd)
                   (if has_hi bd then hi else 0) (hi_x bd) (\<not> has_hi bd) False any_f nz_f b
               else (True, b))
        in if \<not> ok then (NONE, relaxed, b)
           else if \<not> has_lo bd \<or> lo < 0 then
             let (neg, b) = gb_rule b;
                 (ok, b) =
                   real_side fl neg (if has_hi bd \<and> hi < 0 then - hi else 0)
                     (if has_hi bd \<and> hi < 0 then hi_x bd else True)
                     (if has_lo bd then - lo else 0) (lo_x bd) (\<not> has_lo bd) True any_f nz_f b
             in if \<not> ok then (NONE, relaxed, b)
                else
                  let (alt, b) = gb_alt r b;
                      b = gb_byte alt 0x2d b
                  in (r, relaxed, gb_ref alt neg b)
           else (r, relaxed, b))"

end
