(* ===== verification/Schema_Digits.thy ===== *)
theory Schema_Digits
  imports Schema_Num
begin

text \<open>
  What the rules of \<open>Schema_Num\<close> mean: the states made digit by digit have the numbers they
  stand for as their languages, and the rule of \<open>magnitudes\<close> the decimal texts of the multiples
  between its bounds.
\<close>

section \<open>Failure stays in the states\<close>

lemma fails_free_digit:
  assumes "\<And>nr d b. gfailed b \<Longrightarrow> gfailed (snd (snd (sub nr (d, b))))" and "gfailed (snd (snd st))"
  shows "gfailed (snd (snd (free_digit m r rule sub dg st)))"
proof -
  obtain taken d b where st: "st = (taken, d, b)" by (cases st)
  obtain set tk where dc: "digit_class m r ((r * 10 + dg) mod m) dg taken = (set, tk)" by force
  obtain a b1 where al: "gb_alt rule b = (a, b1)" by force
  obtain q d2 b2 where sb: "sub ((r * 10 + dg) mod m) (d, gb_set a set b1) = (q, d2, b2)"
    by (cases "sub ((r * 10 + dg) mod m) (d, gb_set a set b1)")
  have "gfailed b" using assms(2) st by simp
  then have "gfailed b1" using fails_alt [of b rule] al by simp
  then have "gfailed b2" using assms(1) [of "gb_set a set b1" "(r * 10 + dg) mod m" d] fails_set sb by simp
  then show ?thesis
    using st dc al sb \<open>gfailed b\<close> by (simp add: free_digit_def Let_def fails_ref)
qed

lemma fails_free_state: "gfailed b \<Longrightarrow> gfailed (snd (snd (free_state left r (d, b))))"
proof (induction left arbitrary: r d b)
  case 0
  then show ?case by (auto simp: Let_def fails_alt gb_rule_def split: prod.split)
next
  case (Suc left)
  obtain rule b1 where rl: "gb_rule b = (rule, b1)" by force
  have b1: "gfailed b1" using Suc.prems rl by (auto simp: gb_rule_def)
  have "gfailed (snd (snd (fold (free_digit (dp_m d) r rule (free_state left)) [0..<10] (tk, d', b1))))" for tk d'
    by (rule fold_invariant_list [where P = "\<lambda>st. gfailed (snd (snd st))"])
      (use b1 Suc.IH in \<open>auto intro: fails_free_digit\<close>)
  then show ?case using Suc.prems rl by (auto simp: Let_def simp del: upt_Suc split: prod.split)
qed

lemma fails_edge_run:
  assumes "\<And>x y nr d b. gfailed b \<Longrightarrow> gfailed (snd (snd (sub x y nr (d, b))))" and "gfailed (snd st)"
  shows "gfailed (snd (edge_run m r rule tight sub run st))"
proof -
  obtain d b where st: "st = (d, b)" by (cases st)
  obtain dg e where run: "run = (dg, e)" by (cases run)
  obtain x y where t: "tight dg = (x, y)" by force
  define s where "s = set_add set_clear (unat (digit_char dg)) (unat (digit_char e))"
  obtain a b1 where al: "gb_alt rule b = (a, b1)" by force
  obtain q d2 b2 where sb: "sub x y ((r * 10 + dg) mod m) (d, gb_set a s b1) = (q, d2, b2)"
    by (cases "sub x y ((r * 10 + dg) mod m) (d, gb_set a s b1)")
  have "gfailed b1" using fails_alt [of b rule] assms(2) st al by simp
  then have "gfailed b2" using assms(1) [of "gb_set a s b1" x y "(r * 10 + dg) mod m" d] fails_set sb by simp
  then show ?thesis
    using st run t al sb by (simp add: edge_run_def Let_def fails_ref s_def)
qed

lemma fails_state: "gfailed b \<Longrightarrow> gfailed (snd (snd (state left tlo thi r (d, b))))"
proof (induction left arbitrary: tlo thi r d b)
  case 0
  then show ?case using fails_free_state [of b 0 r d]
    by (auto simp: Let_def fails_alt gb_rule_def split: prod.split)
next
  case (Suc left)
  obtain rule b1 where rl: "gb_rule b = (rule, b1)" by force
  have b1: "gfailed b1" using Suc.prems rl by (auto simp: gb_rule_def)
  have "gfailed (snd (fold (edge_run (dp_m d) r rule tight (state left)) runs (d', b1)))" for tight runs d'
    by (rule fold_invariant_list [where P = "\<lambda>st. gfailed (snd st)"])
      (use b1 Suc.IH in \<open>auto intro: fails_edge_run\<close>)
  then show ?case using Suc.prems rl fails_free_state [of b "Suc left" r d]
    by (simp add: Let_def del: free_state.simps)
qed

section \<open>Digits\<close>

lemma dec_val_Cons: "dec_val (c # w) = digit_val c * 10 ^ length w + dec_val w"
proof (induction w rule: rev_induct)
  case (snoc x w)
  have "dec_val (c # w @ [x]) = 10 * dec_val (c # w) + digit_val x"
    using dec_val_snoc [of "c # w" x] by simp
  then show ?case using snoc by (simp add: algebra_simps)
qed simp

lemma digit_char_props:
  assumes "e < 10"
  shows "isdigit (digit_char e)" "digit_val (digit_char e) = e" "unat (digit_char e) = 48 + e"
proof -
  show "isdigit (digit_char e)" "digit_val (digit_char e) = e"
    using digit_of [OF assms] by (simp_all add: digit_char_def)
  have "unat (of_nat e :: u8) = e" using assms by (simp add: unat_of_nat_u8)
  then show "unat (digit_char e) = 48 + e"
    using assms by (simp add: digit_char_def unat_word_ariths)
qed

lemma digit_char_val: "isdigit c \<Longrightarrow> digit_char (digit_val c) = c"
  by (simp add: digit_char_def digit_val_inj)

lemma digit_chars: "{c. isdigit c} = digit_char ` {..<10}"
  using digit_char_props digit_char_val digit_val_less by (force simp: image_iff)

text \<open>The digits between two.\<close>

lemma bset_digits:
  assumes "x \<le> y" and "y < 10"
  shows "bset_of (set_add set_clear (unat (digit_char x)) (unat (digit_char y))) = digit_char ` {x..y}"
proof -
  have "c \<in> digit_char ` {x..y} \<longleftrightarrow> 48 + x \<le> unat c \<and> unat c \<le> 48 + y" for c :: u8
  proof
    assume "c \<in> digit_char ` {x..y}"
    then show "48 + x \<le> unat c \<and> unat c \<le> 48 + y" using assms by (auto simp: digit_char_props)
  next
    assume c: "48 + x \<le> unat c \<and> unat c \<le> 48 + y"
    then have "unat (digit_char (unat c - 48)) = unat c" using assms by (subst digit_char_props(3)) auto
    then have "digit_char (unat c - 48) = c" by (simp add: u8_eq_iff)
    then show "c \<in> digit_char ` {x..y}" using c by (intro image_eqI [of _ _ "unat c - 48"]) auto
  qed
  then show ?thesis using assms by (auto simp: bset_of_add digit_char_props)
qed

lemma digit_class_spec:
  assumes "digit_class m r nr dg taken = (s, taken')" and "length taken = 10" and "dg \<le> 10"
  shows "bset_of s = digit_char ` {e. dg \<le> e \<and> e < 10 \<and> \<not> taken ! e \<and> (r * 10 + e) mod m = nr}"
    and "length taken' = 10"
    and "\<And>e. e < 10 \<Longrightarrow> taken' ! e \<longleftrightarrow> taken ! e \<or> dg \<le> e \<and> (r * 10 + e) mod m = nr"
proof -
  let ?f = "\<lambda>e (set, tk). if \<not> tk ! e \<and> (r * 10 + e) mod m = nr
     then (set_add set (unat (digit_char e)) (unat (digit_char e)), tk[e := True]) else (set, tk)"
  let ?P = "\<lambda>k (s, tk). length s = 32 \<and> length tk = 10 \<and>
      bset_of s = digit_char ` {e. dg \<le> e \<and> e < k \<and> \<not> taken ! e \<and> (r * 10 + e) mod m = nr} \<and>
      (\<forall>e < 10. tk ! e \<longleftrightarrow> taken ! e \<or> dg \<le> e \<and> e < k \<and> (r * 10 + e) mod m = nr)"
  have "?P 10 (fold ?f [dg..<10] (set_clear, taken))"
  proof (rule fold_upt_invariant [of ?P])
    show "?P dg (set_clear, taken)" using assms(2) by auto
    show "dg \<le> 10" by (rule assms(3))
    fix k st assume k: "dg \<le> k" "k < 10" and P: "?P k st"
    obtain s tk where st: "st = (s, tk)" by force
    have len: "length s = 32" "length tk = 10" and
      set: "bset_of s = digit_char ` {e. dg \<le> e \<and> e < k \<and> \<not> taken ! e \<and> (r * 10 + e) mod m = nr}" and
      tk: "\<forall>e < 10. tk ! e \<longleftrightarrow> taken ! e \<or> dg \<le> e \<and> e < k \<and> (r * 10 + e) mod m = nr"
      using P st by auto
    have one: "{c. unat (digit_char k) \<le> unat c \<and> unat c \<le> unat (digit_char k)} = {digit_char k}"
      by (auto simp: u8_eq_iff)
    have tkk: "tk ! k \<longleftrightarrow> taken ! k" using tk k by auto
    show "?P (Suc k) (?f k st)"
    proof (cases "\<not> taken ! k \<and> (r * 10 + k) mod m = nr")
      case True
      have "{e. dg \<le> e \<and> e < Suc k \<and> \<not> taken ! e \<and> (r * 10 + e) mod m = nr} =
          insert k {e. dg \<le> e \<and> e < k \<and> \<not> taken ! e \<and> (r * 10 + e) mod m = nr}"
        using True k by (auto simp: less_Suc_eq)
      then show ?thesis using True st len set tk tkk k one
        by (auto simp: bset_of_add nth_list_update less_Suc_eq)
    next
      case False
      have "{e. dg \<le> e \<and> e < Suc k \<and> \<not> taken ! e \<and> (r * 10 + e) mod m = nr} =
          {e. dg \<le> e \<and> e < k \<and> \<not> taken ! e \<and> (r * 10 + e) mod m = nr}"
        using False k by (auto simp: less_Suc_eq)
      then show ?thesis using False st len set tk tkk k by (auto simp: less_Suc_eq)
    qed
  qed
  then have "?P 10 (s, taken')" using assms(1) by (simp add: digit_class_def)
  then show "bset_of s = digit_char ` {e. dg \<le> e \<and> e < 10 \<and> \<not> taken ! e \<and> (r * 10 + e) mod m = nr}"
    and "length taken' = 10"
    and "\<And>e. e < 10 \<Longrightarrow> taken' ! e \<longleftrightarrow> taken ! e \<or> dg \<le> e \<and> (r * 10 + e) mod m = nr"
    by auto
qed

section \<open>States without a bound\<close>

text \<open>The texts of \<open>l\<close> digits that, after digits of remainder \<open>r\<close>, make a multiple of \<open>m\<close>.\<close>

definition free_lang :: "nat \<Rightarrow> nat \<Rightarrow> nat \<Rightarrow> gsym list set" where
  "free_lang m l r =
     {map Byte w | w. length w = l \<and> list_all isdigit w \<and> (r * 10 ^ l + dec_val w) mod m = 0}"

lemma free_lang_0: "free_lang m 0 r = (if r mod m = 0 then {[]} else {})"
  by (auto simp: free_lang_def)

lemma remainder_step: "((r * 10 + d) mod m * k + v) mod m = (r * (10 * k) + (d * k + v)) mod m" for r d m k v :: nat
proof -
  have "((r * 10 + d) mod m * k + v) mod m = ((r * 10 + d) * k + v) mod m"
    by (intro mod_add_cong mod_mult_cong) simp_all
  then show ?thesis by (simp add: algebra_simps)
qed

lemma free_lang_Suc:
  "free_lang m (Suc l) r =
     {Byte c # v | c v. isdigit c \<and> v \<in> free_lang m l ((r * 10 + digit_val c) mod m)}"
proof -
  have step: "(r * 10 ^ Suc l + dec_val (c # w)) mod m = 0 \<longleftrightarrow>
      ((r * 10 + digit_val c) mod m * 10 ^ l + dec_val w) mod m = 0" if "length w = l" for c w
    using that remainder_step [of r "digit_val c" m "10 ^ l" "dec_val w"] by (simp add: dec_val_Cons)
  show ?thesis
  proof (intro set_eqI iffI)
    fix x assume "x \<in> free_lang m (Suc l) r"
    then obtain c w where "x = map Byte (c # w)" "length w = l" "list_all isdigit (c # w)"
      "(r * 10 ^ Suc l + dec_val (c # w)) mod m = 0"
      by (auto simp: free_lang_def length_Suc_conv)
    then show "x \<in> {Byte c # v | c v. isdigit c \<and> v \<in> free_lang m l ((r * 10 + digit_val c) mod m)}"
      using step by (auto simp: free_lang_def simp del: power_Suc)
  next
    fix x assume "x \<in> {Byte c # v | c v. isdigit c \<and> v \<in> free_lang m l ((r * 10 + digit_val c) mod m)}"
    then obtain c w where "x = map Byte (c # w)" "length w = l" "isdigit c" "list_all isdigit w"
      "((r * 10 + digit_val c) mod m * 10 ^ l + dec_val w) mod m = 0"
      by (auto simp: free_lang_def)
    then show "x \<in> free_lang m (Suc l) r"
      using step [of w c] unfolding free_lang_def
      by (intro CollectI exI [of _ "c # w"]) (simp del: power_Suc)
  qed
qed

text \<open>The entries of a table for up to \<open>k\<close> digits are finished rules for their languages.\<close>

definition free_ok :: "nat \<Rightarrow> nat \<Rightarrow> nat set \<Rightarrow> gbuild \<Rightarrow> nat list \<Rightarrow> bool" where
  "free_ok m k X b fr \<longleftrightarrow> length fr = (MAG_DIGITS + 1) * m \<and>
     (\<forall>l \<le> k. \<forall>r < m. fr ! (l * m + r) \<noteq> NONE \<longrightarrow>
        fr ! (l * m + r) \<in> done_rules X b \<and> lang b (fr ! (l * m + r)) = free_lang m l r)"

lemma done_grows_fresh:
  assumes "grows I b b'" and "X' \<subseteq> X \<union> {n_rules b..}"
  shows "done_rules X b \<subseteq> done_rules X' b'"
  using assms by (auto simp: grows_def done_rules_def)

lemma free_ok_grows:
  assumes "free_ok m k X b fr" and "grows I b b'" and "good X b" and "good X' b'" and "I \<subseteq> X"
    and "X' \<subseteq> X \<union> {n_rules b..}"
  shows "free_ok m k X' b' fr"
  using assms(1) lang_grows [OF assms(2-5)] done_grows_fresh [OF assms(2,6)]
  unfolding free_ok_def by blast

lemma slot_less_size:
  assumes "l \<le> MAG_DIGITS" and "r < m"
  shows "l * m + r < (MAG_DIGITS + 1) * m"
proof -
  have "l * m + r < l * m + m" using assms(2) by simp
  also have "\<dots> \<le> (MAG_DIGITS + 1) * m" using mult_le_mono1 [of "Suc l" "MAG_DIGITS + 1" m] assms(1) by simp
  finally show ?thesis .
qed

lemma slot_eq_iff:
  assumes "r < m" and "r' < (m :: nat)"
  shows "l * m + r = l' * m + r' \<longleftrightarrow> l = l' \<and> r = r'"
proof
  assume eq: "l * m + r = l' * m + r'"
  have "(l * m + r) div m = l" "(l' * m + r') div m = l'" using assms by auto
  with eq have "l = l'" by simp
  with eq show "l = l' \<and> r = r'" by simp
qed simp

text \<open>What a call made at level \<open>l\<close> gives: the shape of \<open>free_state\<close>'s specification.\<close>

definition free_call :: "nat \<Rightarrow> nat \<Rightarrow> nat set \<Rightarrow> nat \<Rightarrow> dp \<times> gbuild \<Rightarrow> nat \<times> dp \<times> gbuild \<Rightarrow> bool" where
  "free_call m l X r st res \<longleftrightarrow>
     (case (st, res) of ((d, b), q, d', b') \<Rightarrow>
        good X b' \<and> grows {} b b' \<and> q \<in> done_rules X b' \<and> lang b' q = free_lang m l r \<and>
        free_ok m l X b' (dp_free d') \<and> d' = d\<lparr>dp_free := dp_free d'\<rparr> \<and>
        (\<forall>k \<ge> Suc l * m. dp_free d' ! k = dp_free d ! k))"

lemma free_digit_step:
  assumes step: "free_digit m r rule sub dg (taken, d, b) = (taken', d', b')" and ok: "\<not> gfailed b'"
    and sub: "\<And>nr d b. nr < m \<Longrightarrow> good X b \<Longrightarrow> free_ok m l X b (dp_free d) \<Longrightarrow> dp_m d = m \<Longrightarrow>
      \<not> gfailed (snd (snd (sub nr (d, b)))) \<Longrightarrow> free_call m l X nr (d, b) (sub nr (d, b))"
    and fails: "\<And>nr d b. gfailed b \<Longrightarrow> gfailed (snd (snd (sub nr (d, b))))"
    and b: "good X b" "free_ok m l X b (dp_free d)" "dp_m d = m" "0 < m"
    and rule: "rule \<in> X" and dg: "dg < 10" and len: "length taken = 10" and new: "\<not> taken ! dg"
  defines "nr \<equiv> (r * 10 + dg) mod m"
  shows "\<exists>q. good X b' \<and> grows {rule} b b' \<and> free_ok m l X b' (dp_free d') \<and>
     d' = d\<lparr>dp_free := dp_free d'\<rparr> \<and> (\<forall>k \<ge> Suc l * m. dp_free d' ! k = dp_free d ! k) \<and>
     q \<in> done_rules X b' \<and> lang b' q = free_lang m l nr \<and> length taken' = 10 \<and>
     (\<forall>e < 10. taken' ! e \<longleftrightarrow> taken ! e \<or> dg \<le> e \<and> (r * 10 + e) mod m = nr) \<and>
     alts_of b' rule = insert [ASet (digit_char ` {e. dg \<le> e \<and> e < 10 \<and> \<not> taken ! e \<and>
       (r * 10 + e) mod m = nr}), ARule q] (alts_of b rule)"
proof -
  obtain s tk where dc: "digit_class m r nr dg taken = (s, tk)" by force
  obtain a b1 where al: "gb_alt rule b = (a, b1)" by force
  let ?b2 = "gb_set a s b1"
  obtain q d3 b3 where sb: "sub nr (d, ?b2) = (q, d3, b3)" by (cases "sub nr (d, ?b2)")
  have res: "taken' = tk" "d' = d3" "b' = gb_ref a q b3"
    using step new dc al sb by (simp_all add: free_digit_def Let_def nr_def)
  have ok3: "\<not> gfailed b3" using ok res fails_ref by blast
  have ok2: "\<not> gfailed ?b2" using fails [of ?b2 nr d] sb ok3 by auto
  have ok1: "\<not> gfailed b1" using ok2 fails_set by blast
  note 1 = good_alt(1) [OF al b(1) rule ok1] good_alt(2) [OF al b(1) rule ok1, of "{}"]
  note 2 = good_set [OF ok2 1(1) 1(2) rule]
  have g2: "grows {rule} b ?b2" using opened_grows [OF 2(2)] by simp
  have f2: "free_ok m l X ?b2 (dp_free d)"
    by (rule free_ok_grows [OF b(2) g2 b(1) 2(1)]) (use rule in auto)
  have "nr < m" using b(4) by (simp add: nr_def)
  from sub [OF this 2(1) f2 b(3)] sb ok3
  have 3: "good X b3" "grows {} ?b2 b3" "q \<in> done_rules X b3" "lang b3 q = free_lang m l nr"
    "free_ok m l X b3 (dp_free d3)" "d3 = d\<lparr>dp_free := dp_free d3\<rparr>"
    "\<forall>k \<ge> Suc l * m. dp_free d3 ! k = dp_free d ! k"
    by (simp_all add: free_call_def)
  have o3: "opened a rule [ASet (bset_of s)] {} b b3"
    using opened_then_grows [OF 2(2) 3(2)] by simp
  have okr: "\<not> gfailed (gb_ref a q b3)" using ok res by simp
  note 4 = good_ref [OF okr 3(1) o3 rule]
  have o4: "opened a rule [ASet (bset_of s), ARule q] {} b (gb_ref a q b3)" using 4(2) by simp
  note others = ref_others [OF okr 3(1) o3 rule]
  have g4: "grows {rule} b (gb_ref a q b3)" using opened_grows [OF o4] by simp
  have f4: "free_ok m l X (gb_ref a q b3) (dp_free d3)"
    using 3(5) others unfolding free_ok_def by auto
  have rn: "rule < n_rules b" using rule b(1) by (auto simp: good_def)
  note al4 = alts_opened [OF o4 b(1) 4(1) rn]
  have tk: "length tk = 10" "\<forall>e < 10. tk ! e \<longleftrightarrow> taken ! e \<or> dg \<le> e \<and> (r * 10 + e) mod m = nr"
    and set: "bset_of s = digit_char ` {e. dg \<le> e \<and> e < 10 \<and> \<not> taken ! e \<and> (r * 10 + e) mod m = nr}"
    using digit_class_spec [OF dc len] dg by auto
  show ?thesis
    unfolding res using 4(1) g4 f4 3(3,4,6,7) others tk al4 set
    by (intro exI [of _ q]) auto
qed

text \<open>The loop over the digits, after those below \<open>k\<close>.\<close>

definition free_loop :: "nat \<Rightarrow> nat \<Rightarrow> nat \<Rightarrow> nat set \<Rightarrow> nat \<Rightarrow> dp \<times> gbuild \<Rightarrow> nat \<Rightarrow> bool list \<times> dp \<times> gbuild \<Rightarrow> bool" where
  "free_loop m l r X rule st0 k st \<longleftrightarrow>
     (case (st0, st) of ((d0, b0), taken, d, b) \<Rightarrow>
        good X b \<and> grows {rule} b0 b \<and> free_ok m l X b (dp_free d) \<and> d = d0\<lparr>dp_free := dp_free d\<rparr> \<and>
        (\<forall>j \<ge> Suc l * m. dp_free d ! j = dp_free d0 ! j) \<and> length taken = 10 \<and>
        (\<forall>e < 10. taken ! e \<longleftrightarrow> (\<exists>g < k. (r * 10 + g) mod m = (r * 10 + e) mod m)) \<and>
        (\<forall>ys \<in> alts_of b rule. \<exists>g q. g < k \<and> q \<in> done_rules X b \<and>
           lang b q = free_lang m l ((r * 10 + g) mod m) \<and>
           ys = [ASet (digit_char ` {e. e < 10 \<and> (r * 10 + e) mod m = (r * 10 + g) mod m}), ARule q]) \<and>
        (\<forall>g < k. \<exists>q. [ASet (digit_char ` {e. e < 10 \<and> (r * 10 + e) mod m = (r * 10 + g) mod m}), ARule q]
           \<in> alts_of b rule))"

lemma free_loop_step:
  assumes inv: "free_loop m l r X rule (d0, b0) k st" and k: "k < 10"
    and ok: "\<not> gfailed (snd (snd (free_digit m r rule sub k st)))"
    and sub: "\<And>nr d b. nr < m \<Longrightarrow> good X b \<Longrightarrow> free_ok m l X b (dp_free d) \<Longrightarrow> dp_m d = m \<Longrightarrow>
      \<not> gfailed (snd (snd (sub nr (d, b)))) \<Longrightarrow> free_call m l X nr (d, b) (sub nr (d, b))"
    and fails: "\<And>nr d b. gfailed b \<Longrightarrow> gfailed (snd (snd (sub nr (d, b))))"
    and m: "dp_m d0 = m" "0 < m" and rule: "rule \<in> X" "rule < n_rules b0"
  shows "free_loop m l r X rule (d0, b0) (Suc k) (free_digit m r rule sub k st)"
proof -
  obtain taken d b where st: "st = (taken, d, b)" by (cases st)
  let ?c = "\<lambda>e. (r * 10 + e) mod m"
  have I: "good X b" "grows {rule} b0 b" "free_ok m l X b (dp_free d)" "d = d0\<lparr>dp_free := dp_free d\<rparr>"
    "\<forall>j \<ge> Suc l * m. dp_free d ! j = dp_free d0 ! j" "length taken = 10"
    and tk: "\<forall>e < 10. taken ! e \<longleftrightarrow> (\<exists>g < k. ?c g = ?c e)"
    and alts: "\<And>ys. ys \<in> alts_of b rule \<Longrightarrow> \<exists>g q. g < k \<and> q \<in> done_rules X b \<and> lang b q = free_lang m l (?c g) \<and>
        ys = [ASet (digit_char ` {e. e < 10 \<and> ?c e = ?c g}), ARule q]"
    and all: "\<And>g. g < k \<Longrightarrow> \<exists>q. [ASet (digit_char ` {e. e < 10 \<and> ?c e = ?c g}), ARule q] \<in> alts_of b rule"
    using inv st unfolding free_loop_def by auto
  have dm: "dp_m d = m"
  proof -
    have "dp_m d = dp_m (d0\<lparr>dp_free := dp_free d\<rparr>)" using I(4) by simp
    then show ?thesis using m(1) by simp
  qed
  show ?thesis
  proof (cases "taken ! k")
    case True
    then obtain g0 where g0: "g0 < k" "?c g0 = ?c k" using tk k by auto
    have "free_digit m r rule sub k st = st" using True st by (simp add: free_digit_def)
    moreover have "(\<exists>g < k. ?c g = ?c e) \<longleftrightarrow> (\<exists>g < Suc k. ?c g = ?c e)" for e
      using g0 by (auto simp: less_Suc_eq)
    moreover have "\<exists>q. [ASet (digit_char ` {e. e < 10 \<and> ?c e = ?c g}), ARule q] \<in> alts_of b rule"
      if "g < Suc k" for g
      using that all [of g] all [OF g0(1)] g0(2) by (cases "g = k") auto
    moreover have "\<exists>g q. g < Suc k \<and> q \<in> done_rules X b \<and> lang b q = free_lang m l (?c g) \<and>
        ys = [ASet (digit_char ` {e. e < 10 \<and> ?c e = ?c g}), ARule q]" if "ys \<in> alts_of b rule" for ys
      using alts [OF that] less_SucI by blast
    ultimately show ?thesis
      using I tk st unfolding free_loop_def by simp
  next
    case False
    obtain taken' d' b' where step: "free_digit m r rule sub k (taken, d, b) = (taken', d', b')"
      by (cases "free_digit m r rule sub k (taken, d, b)")
    have okb: "\<not> gfailed b'" using ok st step by simp
    from free_digit_step [OF step okb sub fails I(1,3) dm m(2) rule(1) k I(6) False]
    obtain q where S: "good X b'" "grows {rule} b b'" "free_ok m l X b' (dp_free d')"
      "d' = d\<lparr>dp_free := dp_free d'\<rparr>" "\<forall>j \<ge> Suc l * m. dp_free d' ! j = dp_free d ! j"
      "q \<in> done_rules X b'" "lang b' q = free_lang m l (?c k)" "length taken' = 10"
      and tk': "\<forall>e < 10. taken' ! e \<longleftrightarrow> taken ! e \<or> k \<le> e \<and> ?c e = ?c k"
      and al: "alts_of b' rule = insert [ASet (digit_char ` {e. k \<le> e \<and> e < 10 \<and> \<not> taken ! e \<and> ?c e = ?c k}),
        ARule q] (alts_of b rule)"
      by blast
    have fresh: "?c g \<noteq> ?c k" if "g < k" for g using False tk k that by auto
    have set: "{e. k \<le> e \<and> e < 10 \<and> \<not> taken ! e \<and> ?c e = ?c k} = {e. e < 10 \<and> ?c e = ?c k}"
      using tk fresh by (auto simp: not_less [symmetric])
    have tkn: "taken' ! e \<longleftrightarrow> (\<exists>g < Suc k. ?c g = ?c e)" if "e < 10" for e
    proof -
      have "e < k \<longrightarrow> ?c e \<noteq> ?c k" using fresh by blast
      then show ?thesis using tk tk' that by (auto simp: less_Suc_eq not_le)
    qed
    have rl: "rule < n_rules b" using rule(2) I(2) by (auto simp: grows_def)
    have keep: "q' \<in> done_rules X b' \<and> lang b' q' = lang b q'" if "q' \<in> done_rules X b" for q'
      using that done_grows [OF S(2)] lang_grows [OF S(2) I(1) S(1)] rule(1) by auto
    have "\<exists>g q. g < Suc k \<and> q \<in> done_rules X b' \<and> lang b' q = free_lang m l (?c g) \<and>
        ys = [ASet (digit_char ` {e. e < 10 \<and> ?c e = ?c g}), ARule q]" if "ys \<in> alts_of b' rule" for ys
    proof (cases "ys \<in> alts_of b rule")
      case True
      from alts [OF True] obtain g q' where "g < k" "q' \<in> done_rules X b" "lang b q' = free_lang m l (?c g)"
        "ys = [ASet (digit_char ` {e. e < 10 \<and> ?c e = ?c g}), ARule q']" by blast
      with keep show ?thesis by (intro exI [of _ g] exI [of _ q']) simp
    next
      case False
      then have "ys = [ASet (digit_char ` {e. e < 10 \<and> ?c e = ?c k}), ARule q]"
        using that al set by simp
      then show ?thesis using S(6,7) by blast
    qed
    moreover have "\<exists>q. [ASet (digit_char ` {e. e < 10 \<and> ?c e = ?c g}), ARule q] \<in> alts_of b' rule"
      if "g < Suc k" for g
      using that all [of g] al set by (cases "g = k") auto
    moreover have "grows {rule} b0 b'" using grows_trans [OF I(2) S(2)] by simp
    moreover have "d' = d0\<lparr>dp_free := dp_free d'\<rparr>"
    proof -
      have "d' = d0\<lparr>dp_free := dp_free d\<rparr>\<lparr>dp_free := dp_free d'\<rparr>" using I(4) S(4) by metis
      then show ?thesis by simp
    qed
    moreover have "\<forall>j \<ge> Suc l * m. dp_free d' ! j = dp_free d0 ! j" using S(5) I(5) by metis
    ultimately show ?thesis
      using S(1,3,8) tkn st step unfolding free_loop_def by simp
  qed
qed

lemma record_free_update: "d\<lparr>dp_free := x\<rparr> = d\<lparr>dp_free := y\<rparr> \<longleftrightarrow> x = y" for d :: dp
  by (metis dp.select_convs(6) dp.surjective dp.update_convs(6))

lemma free_ok_put:
  assumes "free_ok m k X b fr" and "l \<le> MAG_DIGITS" and "r < m" and "q \<in> done_rules X b"
    and "lang b q = free_lang m l r"
  shows "free_ok m k X b (fr[l * m + r := q])"
  using assms slot_less_size [OF assms(2,3)] slot_eq_iff [OF assms(3)]
  by (auto simp: free_ok_def nth_list_update)

lemma free_ok_above:
  assumes "free_ok m (Suc l) X b fr" and "r < m"
  shows "free_ok m l X b (fr[Suc l * m + r := q])"
proof -
  have "fr[Suc l * m + r := q] ! (l' * m + r') = fr ! (l' * m + r')" if "l' \<le> l" "r' < m" for l' r'
    using slot_eq_iff [OF assms(2) that(2), of "Suc l" l'] that(1) by (metis Suc_n_not_le_n nth_list_update_neq)
  then show ?thesis using assms(1) by (simp add: free_ok_def)
qed

lemma free_slot:
  assumes "free_ok m l X b fr" and "r < m" and "fr ! (l * m + r) \<noteq> NONE"
  shows "fr ! (l * m + r) \<in> done_rules X b" "lang b (fr ! (l * m + r)) = free_lang m l r"
  using assms by (auto simp: free_ok_def)

lemma lang_of_classes:
  assumes alts: "\<And>ys. ys \<in> alts_of b rule \<Longrightarrow> \<exists>g q. g < 10 \<and>
      lang b q = free_lang m l ((r * 10 + g) mod m) \<and>
      ys = [ASet (digit_char ` {e. e < 10 \<and> (r * 10 + e) mod m = (r * 10 + g) mod m}), ARule q]"
    and all: "\<And>g. g < 10 \<Longrightarrow> \<exists>q. [ASet (digit_char ` {e. e < 10 \<and> (r * 10 + e) mod m = (r * 10 + g) mod m}),
      ARule q] \<in> alts_of b rule"
  shows "lang b rule = free_lang m (Suc l) r"
proof (rule set_eqI, rule iffI)
  fix w assume "w \<in> lang b rule"
  then obtain ys where ys: "ys \<in> alts_of b rule" "derives (gprods b) ys w" by (auto simp: lang_alts)
  with alts obtain g q where "lang b q = free_lang m l ((r * 10 + g) mod m)"
    "ys = [ASet (digit_char ` {e. e < 10 \<and> (r * 10 + e) mod m = (r * 10 + g) mod m}), ARule q]" by blast
  with ys(2) show "w \<in> free_lang m (Suc l) r"
    by (auto simp: derives_set_rule free_lang_Suc digit_char_props simp del: derives_Set_iff)
next
  fix w assume "w \<in> free_lang m (Suc l) r"
  then obtain c v where w: "w = Byte c # v" "isdigit c" "v \<in> free_lang m l ((r * 10 + digit_val c) mod m)"
    by (auto simp: free_lang_Suc)
  have g: "digit_val c < 10" using w(2) by (rule digit_val_less)
  from all [OF g] obtain q where q: "[ASet (digit_char ` {e. e < 10 \<and> (r * 10 + e) mod m =
      (r * 10 + digit_val c) mod m}), ARule q] \<in> alts_of b rule" by blast
  from alts [OF this] obtain g' where g': "lang b q = free_lang m l ((r * 10 + g') mod m)"
    "digit_char ` {e. e < 10 \<and> (r * 10 + e) mod m = (r * 10 + digit_val c) mod m} =
     digit_char ` {e. e < 10 \<and> (r * 10 + e) mod m = (r * 10 + g') mod m}" by auto
  have c: "c = digit_char (digit_val c)" using w(2) by (simp add: digit_char_val)
  then have mem: "c \<in> digit_char ` {e. e < 10 \<and> (r * 10 + e) mod m = (r * 10 + digit_val c) mod m}"
    using g by blast
  with g'(2) obtain e where "c = digit_char e" "e < 10" "(r * 10 + e) mod m = (r * 10 + g') mod m" by auto
  then have "(r * 10 + digit_val c) mod m = (r * 10 + g') mod m" by (simp add: digit_char_props)
  with w(3) g'(1) have "v \<in> lang b q" by simp
  then have "derives (gprods b) [ASet (digit_char ` {e. e < 10 \<and> (r * 10 + e) mod m =
      (r * 10 + digit_val c) mod m}), ARule q] w"
    unfolding derives_set_rule using mem w(1) by blast
  with q show "w \<in> lang b rule" unfolding lang_alts by (intro CollectI bexI)
qed

lemma free_state_spec:
  assumes "good X b" and "free_ok m l X b (dp_free d)" and "dp_m d = m" and "0 < m" and "r < m"
    and "l \<le> MAG_DIGITS" and "\<not> gfailed (snd (snd (free_state l r (d, b))))"
  shows "free_call m l X r (d, b) (free_state l r (d, b))"
  using assms
proof (induction l arbitrary: X r d b)
  case 0
  note free = 0(2)
  show ?case
  proof (cases "dp_free d ! r = NONE")
    case False
    then show ?thesis
      using free_slot [of m 0 X b "dp_free d" r] 0 by (simp add: free_call_def grows_refl)
  next
    case True
    obtain q b1 where rl: "gb_rule b = (q, b1)" by force
    let ?b' = "if r = 0 then snd (gb_alt q b1) else b1"
    have res: "free_state 0 r (d, b) = (q, d\<lparr>dp_free := (dp_free d)[r := q]\<rparr>, ?b')"
      using True rl by simp
    have ok: "\<not> gfailed ?b'" using 0(7) res by simp
    then have ok1: "\<not> gfailed b1" using fails_alt by (auto split: if_splits)
    note 1 = good_rule [OF rl 0(1) ok1]
    have "good (insert q X) ?b' \<and> grows {q} b1 ?b' \<and> n_rules ?b' = n_rules b1 \<and>
        alts_of ?b' q = (if r = 0 then {[]} else {})"
    proof (cases "r = 0")
      case True
      obtain a b2 where al: "gb_alt q b1 = (a, b2)" by force
      have ok2: "\<not> gfailed b2" using ok True al by simp
      note a = good_alt(1,3) [OF al 1(1) insertI1 ok2] good_alt(2) [OF al 1(1) insertI1 ok2, of "{}"]
      have "alts_of b2 q = insert [] (alts_of b1 q)"
        by (rule alts_opened [OF a(3) 1(1) a(1)]) (use 1 in auto)
      then show ?thesis
        using True al a opened_grows [OF a(3)] 1(6) by simp
    next
      case False
      then show ?thesis
        using 1 ok1 by (simp add: grows_refl)
    qed
    then have 2: "good (insert q X) ?b'" "grows {q} b1 ?b'" "n_rules ?b' = n_rules b1"
      "alts_of ?b' q = (if r = 0 then {[]} else {})" by blast+
    have "\<And>ys. ys \<in> alts_of ?b' q \<Longrightarrow> refs ys \<subseteq> insert q (done_rules (insert q X) ?b')"
      unfolding 2(4) by (auto split: if_splits)
    note fin = good_finish [OF 2(1) 1(5) this]
    have g: "grows {} b ?b'" by (rule grows_trans [OF 1(2) 2(2)]) (simp add: 1(3))
    have "derives (gprods ?b') [] w \<longleftrightarrow> w = []" for w by simp
    then have lang: "lang ?b' q = free_lang m 0 r"
      unfolding lang_alts 2(4) free_lang_0 using 0(4,5) by auto
    have "free_ok m 0 X ?b' (dp_free d)"
      by (rule free_ok_grows [OF free g 0(1) fin(1)]) auto
    from free_ok_put [OF this _ 0(5) fin(2) lang] have "free_ok m 0 X ?b' ((dp_free d)[r := q])" by simp
    then show ?thesis
      unfolding res using fin g lang 0(5) by (simp add: free_call_def)
  qed
next
  case (Suc l)
  let ?sl = "Suc l * m + r"
  show ?case
  proof (cases "dp_free d ! ?sl = NONE")
    case False
    then show ?thesis
      using free_slot [OF Suc.prems(2,5)] Suc.prems by (simp add: free_call_def grows_refl)
  next
    case True
    obtain q b1 where rl: "gb_rule b = (q, b1)" by force
    let ?d0 = "d\<lparr>dp_free := (dp_free d)[?sl := q]\<rparr>"
    let ?f = "free_digit m r q (free_state l)"
    let ?res = "fold ?f [0..<10] (replicate 10 False, ?d0, b1)"
    have res: "free_state (Suc l) r (d, b) = (q, snd ?res)"
      using True rl Suc.prems(3) by (simp add: Let_def del: upt_Suc upt_conv_Cons)
    have ok: "\<not> gfailed (snd (snd ?res))" using Suc.prems(7) res by simp
    have fst: "\<And>nr d b. gfailed b \<Longrightarrow> gfailed (snd (snd (free_state l nr (d, b))))"
      by (rule fails_free_state)
    have prior: "\<not> gfailed (snd (snd (?f k st))) \<Longrightarrow> \<not> gfailed (snd (snd st))" for k st
      using fails_free_digit [where sub = "free_state l", OF fst] by blast
    have ok1: "\<not> gfailed b1"
    proof
      assume "gfailed b1"
      then have "gfailed (snd (snd ?res))"
        by (intro fold_invariant_list [where P = "\<lambda>st. gfailed (snd (snd st))"]) (use prior in auto)
      with ok show False ..
    qed
    note 1 = good_rule [OF rl Suc.prems(1) ok1]
    let ?X = "insert q X"
    have size: "?sl < length (dp_free d)"
      using slot_less_size [OF Suc.prems(6,5)] Suc.prems(2) by (simp add: free_ok_def)
    have f1: "free_ok m (Suc l) ?X b1 (dp_free d)"
      by (rule free_ok_grows [OF Suc.prems(2) 1(2) Suc.prems(1) 1(1)]) (use 1(3) in auto)
    have f0: "free_ok m l ?X b1 (dp_free ?d0)"
      using free_ok_above [OF f1 Suc.prems(5)] by simp
    have sub: "free_call m l ?X nr (d', b') (free_state l nr (d', b'))"
      if "nr < m" "good ?X b'" "free_ok m l ?X b' (dp_free d')" "dp_m d' = m"
        "\<not> gfailed (snd (snd (free_state l nr (d', b'))))" for nr d' b'
      using Suc.IH [of ?X b' d' nr] that Suc.prems(4,6) by simp
    have "\<not> gfailed (snd (snd ?res)) \<longrightarrow> free_loop m l r ?X q (?d0, b1) 10 ?res"
    proof (rule fold_upt_invariant [where P = "\<lambda>k st. \<not> gfailed (snd (snd st)) \<longrightarrow>
        free_loop m l r ?X q (?d0, b1) k st"])
      show "\<not> gfailed (snd (snd (replicate 10 False, ?d0, b1))) \<longrightarrow>
          free_loop m l r ?X q (?d0, b1) 0 (replicate 10 False, ?d0, b1)"
        using 1 f0 ok1 by (simp add: free_loop_def grows_refl nth_replicate del: replicate.simps)
    next
      fix k st assume k: "k < 10" and IH: "\<not> gfailed (snd (snd st)) \<longrightarrow> free_loop m l r ?X q (?d0, b1) k st"
      show "\<not> gfailed (snd (snd (?f k st))) \<longrightarrow> free_loop m l r ?X q (?d0, b1) (Suc k) (?f k st)"
      proof
        assume okk: "\<not> gfailed (snd (snd (?f k st)))"
        with prior IH have "free_loop m l r ?X q (?d0, b1) k st" by blast
        then show "free_loop m l r ?X q (?d0, b1) (Suc k) (?f k st)"
        proof (rule free_loop_step [where sub = "free_state l", OF _ k okk sub fst])
          show "dp_m ?d0 = m" "0 < m" "q \<in> ?X" "q < n_rules b1" using Suc.prems(3,4) 1(3,4) by simp_all
        qed
      qed
    qed simp
    with ok have loop: "free_loop m l r ?X q (?d0, b1) 10 ?res" by blast
    obtain taken d2 b2 where r2: "?res = (taken, d2, b2)" by (cases ?res)
    have L: "good ?X b2" "grows {q} b1 b2" "free_ok m l ?X b2 (dp_free d2)" "d2 = ?d0\<lparr>dp_free := dp_free d2\<rparr>"
      "\<forall>j \<ge> Suc l * m. dp_free d2 ! j = dp_free ?d0 ! j"
      and alts: "\<And>ys. ys \<in> alts_of b2 q \<Longrightarrow> \<exists>g q'. g < 10 \<and> q' \<in> done_rules ?X b2 \<and>
           lang b2 q' = free_lang m l ((r * 10 + g) mod m) \<and>
           ys = [ASet (digit_char ` {e. e < 10 \<and> (r * 10 + e) mod m = (r * 10 + g) mod m}), ARule q']"
      and all: "\<And>g. g < 10 \<Longrightarrow> \<exists>q'. [ASet (digit_char ` {e. e < 10 \<and> (r * 10 + e) mod m = (r * 10 + g) mod m}),
           ARule q'] \<in> alts_of b2 q"
      using loop unfolding r2 free_loop_def by auto
    have "refs ys \<subseteq> insert q (done_rules ?X b2)" if "ys \<in> alts_of b2 q" for ys
      using alts [OF that] by auto
    note fin = good_finish [OF L(1) 1(5) this]
    have lang: "lang b2 q = free_lang m (Suc l) r"
      by (rule lang_of_classes) (use alts all in blast)+
    have g: "grows {} b b2" by (rule grows_trans [OF 1(2) L(2)]) (simp add: 1(3))
    have old: "free_ok m (Suc l) X b2 (dp_free d)"
      by (rule free_ok_grows [OF Suc.prems(2) g Suc.prems(1) fin(1)]) auto
    have new: "free_ok m l X b2 (dp_free d2)"
      using L(3) unfolding free_ok_def done_rules_def by auto
    have "free_ok m (Suc l) X b2 (dp_free d2)"
    proof -
      have "dp_free d2 ! (Suc l * m + s) \<noteq> NONE \<longrightarrow> dp_free d2 ! (Suc l * m + s) \<in> done_rules X b2 \<and>
          lang b2 (dp_free d2 ! (Suc l * m + s)) = free_lang m (Suc l) s" if "s < m" for s
      proof (cases "s = r")
        case True
        then show ?thesis using L(5) size fin(2) lang by simp
      next
        case False
        then have "dp_free d2 ! (Suc l * m + s) = dp_free d ! (Suc l * m + s)" using L(5) by simp
        then show ?thesis using old that by (auto simp: free_ok_def)
      qed
      then show ?thesis using new unfolding free_ok_def by (auto simp: le_Suc_eq)
    qed
    moreover have "d2 = d\<lparr>dp_free := dp_free d2\<rparr>" using L(4) by simp
    moreover have "\<forall>k \<ge> Suc (Suc l) * m. dp_free d2 ! k = dp_free d ! k"
      using L(5) Suc.prems(5) by (auto simp: nth_list_update)
    ultimately show ?thesis
      unfolding res r2 using fin g lang by (simp add: free_call_def del: mult_Suc)
  qed
qed

end
