(* ===== verification/Schema_Edges.thy ===== *)
theory Schema_Edges
  imports Schema_Digits
begin

text \<open>
  The states that follow a bound, and \<open>magnitudes\<close>: the rule it fills has the decimal texts of
  the multiples between its bounds as its language.
\<close>

section \<open>Digits under a bound\<close>

text \<open>What the digits of a bound from \<open>left\<close> before the end are worth.\<close>

definition tail_val :: "nat \<Rightarrow> bytes \<Rightarrow> nat \<Rightarrow> nat" where
  "tail_val len s left = dec_val (drop (len - left) (take len s))"

definition edge_lang :: "dp \<Rightarrow> nat \<Rightarrow> bool \<Rightarrow> bool \<Rightarrow> nat \<Rightarrow> gsym list set" where
  "edge_lang d left tlo thi r =
     {map Byte w | w. length w = left \<and> list_all isdigit w \<and>
        (tlo \<longrightarrow> tail_val (dp_len d) (dp_lo d) left \<le> dec_val w) \<and>
        (thi \<longrightarrow> dec_val w \<le> tail_val (dp_len d) (dp_hi d) left) \<and>
        (r * 10 ^ left + dec_val w) mod dp_m d = 0}"

definition dp_ok :: "dp \<Rightarrow> bool" where
  "dp_ok d \<longleftrightarrow> dp_len d \<le> MAG_DIGITS \<and> 0 < dp_m d \<and>
     length (dp_lo d) = MAG_DIGITS + 1 \<and> list_all isdigit (take (dp_len d) (dp_lo d)) \<and>
     length (dp_hi d) = MAG_DIGITS + 1 \<and> list_all isdigit (take (dp_len d) (dp_hi d))"

lemma dec_val_bound: "list_all isdigit w \<Longrightarrow> dec_val w < 10 ^ length w"
proof (induction w rule: rev_induct)
  case (snoc c w)
  then have "dec_val w < 10 ^ length w" "digit_val c < 10" by (auto simp: digit_val_less)
  then show ?case by simp
qed simp

lemma list_all_drop: "list_all p xs \<Longrightarrow> list_all p (drop n xs)"
  by (auto simp: list_all_iff dest: in_set_dropD)

lemma tail_val_Suc:
  assumes "left < len" and "len \<le> length s"
  shows "tail_val len s (Suc left) = digit_val (s ! (len - Suc left)) * 10 ^ left + tail_val len s left"
proof -
  have "drop (len - Suc left) (take len s) = s ! (len - Suc left) # drop (len - left) (take len s)"
    using assms by (subst Cons_nth_drop_Suc [symmetric]) (auto simp: Suc_diff_Suc)
  then show ?thesis using assms by (simp add: tail_val_def dec_val_Cons)
qed

lemma tail_val_bound:
  assumes "list_all isdigit (take len s)" and "left \<le> len" and "len \<le> length s"
  shows "tail_val len s left < 10 ^ left"
  using dec_val_bound [OF list_all_drop [OF assms(1)], of "len - left"] assms(2,3)
  by (simp add: tail_val_def)

lemma edge_lang_free: "edge_lang d left False False r = free_lang (dp_m d) left r"
  by (simp add: edge_lang_def free_lang_def)

lemma digit_le_iff: "x < k \<Longrightarrow> y < k \<Longrightarrow> a * k + x \<le> b * k + y \<longleftrightarrow> a < b \<or> a = b \<and> x \<le> y" for a b k x y :: nat
proof -
  assume x: "x < k" and y: "y < k"
  have "a * k + x \<le> b * k + y" if "a < b"
  proof -
    have "a * k + k \<le> b * k" using that by (metis Suc_leI add.commute mult_Suc mult_le_mono1)
    then show ?thesis using x by simp
  qed
  moreover have "\<not> a * k + x \<le> b * k + y" if "b < a"
  proof -
    have "b * k + k \<le> a * k" using that by (metis Suc_leI add.commute mult_Suc mult_le_mono1)
    then show ?thesis using y by simp
  qed
  ultimately show ?thesis by (cases a b rule: linorder_cases) auto
qed

lemma edge_lang_0: "edge_lang d 0 tlo thi r = (if r mod dp_m d = 0 then {[]} else {})"
  by (auto simp: edge_lang_def tail_val_def)

text \<open>The digits a state allows, and the state each leads to.\<close>

definition from_digit :: "dp \<Rightarrow> nat \<Rightarrow> bool \<Rightarrow> nat" where
  "from_digit d pos tlo = (if tlo then digit_val (dp_lo d ! pos) else 0)"

definition to_digit :: "dp \<Rightarrow> nat \<Rightarrow> bool \<Rightarrow> nat" where
  "to_digit d pos thi = (if thi then digit_val (dp_hi d ! pos) else 9)"

lemma edge_lang_Suc:
  assumes "dp_ok d" and "left < dp_len d"
  defines "pos \<equiv> dp_len d - Suc left"
  shows "Byte c # v \<in> edge_lang d (Suc left) tlo thi r \<longleftrightarrow>
    isdigit c \<and> from_digit d pos tlo \<le> digit_val c \<and> digit_val c \<le> to_digit d pos thi \<and>
    v \<in> edge_lang d left (fst (tight_at d pos tlo thi (digit_val c))) (snd (tight_at d pos tlo thi (digit_val c)))
      ((r * 10 + digit_val c) mod dp_m d)"
proof -
  let ?m = "dp_m d" and ?len = "dp_len d" and ?dc = "digit_val c"
  have len: "?len \<le> length (dp_lo d)" "?len \<le> length (dp_hi d)" using assms(1) by (auto simp: dp_ok_def)
  have lo: "tail_val ?len (dp_lo d) (Suc left) = digit_val (dp_lo d ! pos) * 10 ^ left + tail_val ?len (dp_lo d) left"
    and hi: "tail_val ?len (dp_hi d) (Suc left) = digit_val (dp_hi d ! pos) * 10 ^ left + tail_val ?len (dp_hi d) left"
    using tail_val_Suc [OF assms(2) len(1)] tail_val_Suc [OF assms(2) len(2)] by (simp_all add: pos_def)
  have bounds: "tail_val ?len (dp_lo d) left < 10 ^ left" "tail_val ?len (dp_hi d) left < 10 ^ left"
    using assms(1,2) len by (auto simp: dp_ok_def intro!: tail_val_bound)
  have "Byte c # map Byte w \<in> edge_lang d (Suc left) tlo thi r \<longleftrightarrow>
      isdigit c \<and> from_digit d pos tlo \<le> ?dc \<and> ?dc \<le> to_digit d pos thi \<and>
      map Byte w \<in> edge_lang d left (tlo \<and> ?dc = digit_val (dp_lo d ! pos)) (thi \<and> ?dc = digit_val (dp_hi d ! pos))
        ((r * 10 + ?dc) mod ?m)" for w
  proof (cases "length w = left \<and> list_all isdigit w \<and> isdigit c")
    case True
    have inj: "map Byte w = map Byte w' \<longleftrightarrow> w = w'" for w' by (auto simp: inj_map_eq_map inj_def)
    have inj': "Byte c # map Byte w = map Byte w' \<longleftrightarrow> c # w = w'" for w' by (cases w') (auto simp: inj)
    have w: "dec_val w < 10 ^ left" using True dec_val_bound by blast
    have dc: "?dc \<le> 9" using True digit_val_less [of c] by simp
    have cw: "dec_val (c # w) = ?dc * 10 ^ left + dec_val w" using True by (simp add: dec_val_Cons)
    have m: "(r * 10 ^ Suc left + dec_val (c # w)) mod ?m = ((r * 10 + ?dc) mod ?m * 10 ^ left + dec_val w) mod ?m"
      unfolding cw remainder_step by simp
    have le: "tail_val ?len (dp_lo d) (Suc left) \<le> dec_val (c # w) \<longleftrightarrow>
        digit_val (dp_lo d ! pos) < ?dc \<or> digit_val (dp_lo d ! pos) = ?dc \<and> tail_val ?len (dp_lo d) left \<le> dec_val w"
      "dec_val (c # w) \<le> tail_val ?len (dp_hi d) (Suc left) \<longleftrightarrow>
        ?dc < digit_val (dp_hi d ! pos) \<or> ?dc = digit_val (dp_hi d ! pos) \<and> dec_val w \<le> tail_val ?len (dp_hi d) left"
      unfolding lo hi cw by (simp_all only: digit_le_iff [OF bounds(1) w] digit_le_iff [OF w bounds(2)])
    have L: "Byte c # map Byte w \<in> edge_lang d (Suc left) tlo thi r \<longleftrightarrow>
        (tlo \<longrightarrow> tail_val ?len (dp_lo d) (Suc left) \<le> dec_val (c # w)) \<and>
        (thi \<longrightarrow> dec_val (c # w) \<le> tail_val ?len (dp_hi d) (Suc left)) \<and>
        (r * 10 ^ Suc left + dec_val (c # w)) mod ?m = 0"
      unfolding edge_lang_def using True inj' by auto
    have R: "map Byte w \<in> edge_lang d left x y n \<longleftrightarrow> (x \<longrightarrow> tail_val ?len (dp_lo d) left \<le> dec_val w) \<and>
        (y \<longrightarrow> dec_val w \<le> tail_val ?len (dp_hi d) left) \<and> (n * 10 ^ left + dec_val w) mod ?m = 0" for x y n
      unfolding edge_lang_def using True inj by auto
    show ?thesis
      unfolding L R m le from_digit_def to_digit_def using True dc by (cases tlo; cases thi) auto
  next
    case False
    then show ?thesis by (auto simp: edge_lang_def Cons_eq_map_conv inj_map_eq_map inj_def)
  qed
  moreover have "\<exists>w. v = map Byte w" if "Byte c # v \<in> edge_lang d (Suc left) tlo thi r"
    using that by (auto simp: edge_lang_def)
  moreover have "\<exists>w. v = map Byte w" if "v \<in> edge_lang d left x y n" for x y n
    using that by (auto simp: edge_lang_def)
  ultimately show ?thesis unfolding tight_at_def fst_conv snd_conv by metis
qed

text \<open>Runs of digits.\<close>

lemma takeWhile_upt:
  assumes "k < length (takeWhile p [a..<b])"
  shows "p (a + k)" "a + k < b"
proof -
  have k: "k < length [a..<b]" using assms length_takeWhile_le [of p "[a..<b]"] by linarith
  have "takeWhile p [a..<b] ! k = [a..<b] ! k" using assms by (rule takeWhile_nth)
  also have "\<dots> = a + k" using k by (intro nth_upt) simp
  finally have "takeWhile p [a..<b] ! k = a + k" .
  moreover have "takeWhile p [a..<b] ! k \<in> set (takeWhile p [a..<b])" using assms by (rule nth_mem)
  ultimately show "p (a + k)" using set_takeWhileD [of "a + k" p "[a..<b]"] by simp
  show "a + k < b" using k by simp
qed

definition runs_ok :: "nat \<Rightarrow> (nat \<Rightarrow> bool \<times> bool) \<Rightarrow> nat \<Rightarrow> nat \<Rightarrow> (nat \<times> nat) list \<Rightarrow> bool" where
  "runs_ok m tight dg to runs \<longleftrightarrow>
     (\<forall>x e. (x, e) \<in> set runs \<longrightarrow> dg \<le> x \<and> x \<le> e \<and> e \<le> to \<and>
        (\<forall>k. x \<le> k \<and> k \<le> e \<longrightarrow> tight k = tight x \<and> (m = 1 \<or> k = x))) \<and>
     (\<forall>k. dg \<le> k \<and> k \<le> to \<longrightarrow> (\<exists>x e. (x, e) \<in> set runs \<and> x \<le> k \<and> k \<le> e))"

lemma runs_ok_Cons:
  assumes "runs_ok m tight (e + 1) to runs" and "dg \<le> e" and "e \<le> to"
    and "\<And>k. dg \<le> k \<Longrightarrow> k \<le> e \<Longrightarrow> tight k = tight dg \<and> (m = 1 \<or> k = dg)"
  shows "runs_ok m tight dg to ((dg, e) # runs)"
  unfolding runs_ok_def
proof (intro conjI allI impI)
  fix x f assume mem: "(x, f) \<in> set ((dg, e) # runs)"
  have old: "e + 1 \<le> x \<and> x \<le> f \<and> f \<le> to" "x \<le> k \<and> k \<le> f \<longrightarrow> tight k = tight x \<and> (m = 1 \<or> k = x)"
    if "(x, f) \<in> set runs" for k using assms(1) that unfolding runs_ok_def by blast+
  show "dg \<le> x" "x \<le> f" "f \<le> to" using mem old(1) assms(2,3) by auto
  fix k assume "x \<le> k \<and> k \<le> f"
  then show "tight k = tight x" "m = 1 \<or> k = x" using mem old(2) assms(4) by auto
next
  fix k assume k: "dg \<le> k \<and> k \<le> to"
  show "\<exists>x f. (x, f) \<in> set ((dg, e) # runs) \<and> x \<le> k \<and> k \<le> f"
  proof (cases "k \<le> e")
    case False
    then have "e + 1 \<le> k \<and> k \<le> to" using k by simp
    with assms(1) show ?thesis unfolding runs_ok_def by (meson list.set_intros(2))
  qed (use k in auto)
qed

lemma digit_runs_ok: "runs_ok m tight dg to (digit_runs m tight dg to)"
proof (induction m tight dg to rule: digit_runs.induct)
  case (1 m tight dg to)
  show ?case
  proof (cases "dg > to")
    case True
    then show ?thesis by (simp add: digit_runs.simps [of m tight dg to] runs_ok_def)
  next
    case False
    let ?n = "length (takeWhile (\<lambda>k. tight k = tight dg) [dg + 1..<to + 1])"
    define e where "e = (if m = 1 then dg + ?n else dg)"
    have runs: "digit_runs m tight dg to = (dg, e) # digit_runs m tight (e + 1) to"
      using False by (subst digit_runs.simps) (simp add: Let_def e_def)
    show ?thesis
      unfolding runs
    proof (rule runs_ok_Cons)
      show "runs_ok m tight (e + 1) to (digit_runs m tight (e + 1) to)"
        using 1 [OF False] by (simp add: e_def)
      show "dg \<le> e" "e \<le> to"
        using False length_takeWhile_le [of "\<lambda>k. tight k = tight dg" "[dg + 1..<to + 1]"] by (auto simp: e_def)
      fix k assume k: "dg \<le> k" "k \<le> e"
      show "tight k = tight dg \<and> (m = 1 \<or> k = dg)"
      proof (cases "m = 1 \<and> k \<noteq> dg")
        case True
        then have "k - (dg + 1) < ?n" using k by (auto simp: e_def simp del: upt_Suc)
        from takeWhile_upt(1) [OF this] True k show ?thesis by simp
      next
        case False
        then show ?thesis using k by (auto simp: e_def split: if_splits)
      qed
    qed
  qed
qed

section \<open>The states of a bound\<close>

definition slot_of :: "nat \<Rightarrow> nat \<Rightarrow> bool \<Rightarrow> bool \<Rightarrow> nat \<Rightarrow> nat" where
  "slot_of m pos tlo thi r = ((pos * 2 + of_bool tlo) * 2 + of_bool thi) * m + r"

lemma edge_slot_of: "edge_slot d pos tlo thi r = slot_of (dp_m d) pos tlo thi r"
  by (simp add: edge_slot_def slot_of_def)

lemma slot_of_eq_iff:
  assumes "r < m" and "r' < m"
  shows "slot_of m pos tlo thi r = slot_of m pos' tlo' thi' r' \<longleftrightarrow> pos = pos' \<and> tlo = tlo' \<and> thi = thi' \<and> r = r'"
  unfolding slot_of_def slot_eq_iff [OF assms] by (cases tlo; cases thi; cases tlo'; cases thi') (simp; presburger)+

lemma slot_of_size:
  assumes "pos \<le> MAG_DIGITS" and "r < m"
  shows "slot_of m pos tlo thi r < (MAG_DIGITS + 1) * 4 * m"
proof -
  have "(pos * 2 + of_bool tlo) * 2 + of_bool thi < (MAG_DIGITS + 1) * 4"
    using assms(1) by (cases tlo; cases thi) auto
  then have "Suc ((pos * 2 + of_bool tlo) * 2 + of_bool thi) * m \<le> (MAG_DIGITS + 1) * 4 * m"
    by (intro mult_le_mono1) simp
  then show ?thesis using assms(2) by (simp add: slot_of_def)
qed

text \<open>The entries from place \<open>pos\<close> on are finished rules for their languages.\<close>

definition edge_ok :: "dp \<Rightarrow> nat \<Rightarrow> nat set \<Rightarrow> gbuild \<Rightarrow> nat list \<Rightarrow> bool" where
  "edge_ok d pos X b ed \<longleftrightarrow> length ed = (MAG_DIGITS + 1) * 4 * dp_m d \<and>
     (\<forall>p tlo thi r. pos \<le> p \<and> p \<le> dp_len d \<and> r < dp_m d \<longrightarrow> ed ! slot_of (dp_m d) p tlo thi r \<noteq> NONE \<longrightarrow>
        ed ! slot_of (dp_m d) p tlo thi r \<in> done_rules X b \<and>
        lang b (ed ! slot_of (dp_m d) p tlo thi r) = edge_lang d (dp_len d - p) tlo thi r)"

definition tables_ok :: "dp \<Rightarrow> nat \<Rightarrow> nat set \<Rightarrow> gbuild \<Rightarrow> dp \<Rightarrow> bool" where
  "tables_ok d0 pos X b d \<longleftrightarrow>
     d = d0\<lparr>dp_edge := dp_edge d, dp_free := dp_free d\<rparr> \<and>
     free_ok (dp_m d0) MAG_DIGITS X b (dp_free d) \<and> edge_ok d0 pos X b (dp_edge d)"

text \<open>Entries of places before \<open>pos\<close> are left alone.\<close>

definition keeps :: "dp \<Rightarrow> nat \<Rightarrow> nat list \<Rightarrow> nat list \<Rightarrow> bool" where
  "keeps d pos ed ed' \<longleftrightarrow>
     (\<forall>p tlo thi r. p < pos \<and> r < dp_m d \<longrightarrow> ed' ! slot_of (dp_m d) p tlo thi r = ed ! slot_of (dp_m d) p tlo thi r)"

definition edge_call :: "dp \<Rightarrow> nat \<Rightarrow> nat set \<Rightarrow> bool \<Rightarrow> bool \<Rightarrow> nat \<Rightarrow> dp \<times> gbuild \<Rightarrow> nat \<times> dp \<times> gbuild \<Rightarrow> bool" where
  "edge_call d0 left X tlo thi r st res \<longleftrightarrow>
     (case (st, res) of ((d, b), q, d', b') \<Rightarrow>
        good X b' \<and> grows {} b b' \<and> q \<in> done_rules X b' \<and> lang b' q = edge_lang d0 left tlo thi r \<and>
        tables_ok d0 (dp_len d0 - left) X b' d' \<and> keeps d0 (dp_len d0 - left) (dp_edge d) (dp_edge d'))"

lemma edge_ok_grows:
  assumes "edge_ok d pos X b ed" and "grows I b b'" and "good X b" and "good X' b'" and "I \<subseteq> X"
    and "X' \<subseteq> X \<union> {n_rules b..}"
  shows "edge_ok d pos X' b' ed"
  using assms(1) lang_grows [OF assms(2-5)] done_grows_fresh [OF assms(2,6)]
  unfolding edge_ok_def by blast

lemma tables_ok_grows:
  assumes "tables_ok d0 pos X b d" and "grows I b b'" and "good X b" and "good X' b'" and "I \<subseteq> X"
    and "X' \<subseteq> X \<union> {n_rules b..}"
  shows "tables_ok d0 pos X' b' d"
  using assms(1) free_ok_grows [OF _ assms(2-6)] edge_ok_grows [OF _ assms(2-6)]
  by (auto simp: tables_ok_def)

lemma tables_ok_m: "tables_ok d0 pos X b d \<Longrightarrow> dp_m d = dp_m d0 \<and> dp_len d = dp_len d0 \<and>
    dp_lo d = dp_lo d0 \<and> dp_hi d = dp_hi d0"
  by (metis dp.ext_inject dp.surjective dp.update_convs(5) dp.update_convs(6) tables_ok_def)

text \<open>One run of digits.\<close>

lemma edge_run_step:
  assumes step: "edge_run m r rule tight sub (x, e) (d, b) = (d', b')" and ok: "\<not> gfailed b'"
    and sub: "\<And>u v nr d b. nr < m \<Longrightarrow> good X b \<Longrightarrow> tables_ok d0 pos X b d \<Longrightarrow>
      \<not> gfailed (snd (snd (sub u v nr (d, b)))) \<Longrightarrow> edge_call d0 left X u v nr (d, b) (sub u v nr (d, b))"
    and fails: "\<And>u v nr d b. gfailed b \<Longrightarrow> gfailed (snd (snd (sub u v nr (d, b))))"
    and b: "good X b" "tables_ok d0 pos X b d" and m: "dp_m d0 = m" "0 < m" "pos = dp_len d0 - left"
    and rule: "rule \<in> X" and run: "x \<le> e" "e < 10"
  shows "\<exists>q. good X b' \<and> grows {rule} b b' \<and> tables_ok d0 pos X b' d' \<and>
     keeps d0 pos (dp_edge d) (dp_edge d') \<and> q \<in> done_rules X b' \<and>
     lang b' q = edge_lang d0 left (fst (tight x)) (snd (tight x)) ((r * 10 + x) mod m) \<and>
     alts_of b' rule = insert [ASet (digit_char ` {x..e}), ARule q] (alts_of b rule)"
proof -
  let ?u = "fst (tight x)" and ?v = "snd (tight x)" and ?nr = "(r * 10 + x) mod m"
  define s where "s = set_add set_clear (unat (digit_char x)) (unat (digit_char e))"
  obtain a b1 where al: "gb_alt rule b = (a, b1)" by force
  let ?b2 = "gb_set a s b1"
  obtain q d3 b3 where sb: "sub ?u ?v ?nr (d, ?b2) = (q, d3, b3)" by (cases "sub ?u ?v ?nr (d, ?b2)")
  have res: "d' = d3" "b' = gb_ref a q b3"
    using step al sb by (simp_all add: edge_run_def Let_def s_def split_beta)
  have ok3: "\<not> gfailed b3" using ok res fails_ref by blast
  have ok2: "\<not> gfailed ?b2" using fails [of ?b2 ?u ?v ?nr d] sb ok3 by auto
  have ok1: "\<not> gfailed b1" using ok2 fails_set by blast
  note 1 = good_alt(1) [OF al b(1) rule ok1] good_alt(2) [OF al b(1) rule ok1, of "{}"]
  note 2 = good_set [OF ok2 1(1) 1(2) rule]
  have g2: "grows {rule} b ?b2" using opened_grows [OF 2(2)] by simp
  have t2: "tables_ok d0 pos X ?b2 d"
    by (rule tables_ok_grows [OF b(2) g2 b(1) 2(1)]) (use rule in auto)
  have "?nr < m" using m(2) by simp
  from sub [OF this 2(1) t2, of ?u ?v] sb ok3 m(3)
  have 3: "good X b3" "grows {} ?b2 b3" "q \<in> done_rules X b3" "lang b3 q = edge_lang d0 left ?u ?v ?nr"
    "tables_ok d0 pos X b3 d3" "keeps d0 pos (dp_edge d) (dp_edge d3)"
    by (simp_all add: edge_call_def)
  have o3: "opened a rule [ASet (bset_of s)] {} b b3"
    using opened_then_grows [OF 2(2) 3(2)] by simp
  have okr: "\<not> gfailed (gb_ref a q b3)" using ok res by simp
  note 4 = good_ref [OF okr 3(1) o3 rule]
  have o4: "opened a rule [ASet (bset_of s), ARule q] {} b (gb_ref a q b3)" using 4(2) by simp
  note others = ref_others [OF okr 3(1) o3 rule]
  have g4: "grows {rule} b (gb_ref a q b3)" using opened_grows [OF o4] by simp
  have t4: "tables_ok d0 pos X (gb_ref a q b3) d3"
    using 3(5) others unfolding tables_ok_def free_ok_def edge_ok_def by auto
  have rn: "rule < n_rules b" using rule b(1) by (auto simp: good_def)
  note al4 = alts_opened [OF o4 b(1) 4(1) rn]
  have "bset_of s = digit_char ` {x..e}" unfolding s_def using run by (rule bset_digits)
  then show ?thesis
    unfolding res using 4(1) g4 t4 3(3,4,6) others al4 by (intro exI [of _ q]) auto
qed

text \<open>The runs one after the other: every alternative is one of them, and every run has its own.\<close>

definition run_alt :: "dp \<Rightarrow> nat \<Rightarrow> nat \<Rightarrow> nat set \<Rightarrow> gbuild \<Rightarrow> (nat \<Rightarrow> bool \<times> bool) \<Rightarrow> nat \<times> nat \<Rightarrow> asym list \<Rightarrow> bool" where
  "run_alt d0 left r X b tight run ys \<longleftrightarrow>
     (case run of (x, e) \<Rightarrow> \<exists>q. q \<in> done_rules X b \<and> ys = [ASet (digit_char ` {x..e}), ARule q] \<and>
        lang b q = edge_lang d0 left (fst (tight x)) (snd (tight x)) ((r * 10 + x) mod dp_m d0))"

lemma run_alt_grows:
  assumes "run_alt d0 left r X b tight run ys" and "grows I b b'" and "good X b" and "good X b'" and "I \<subseteq> X"
  shows "run_alt d0 left r X b' tight run ys"
  using assms(1) lang_grows [OF assms(2-5)] done_grows [OF assms(2)]
  unfolding run_alt_def by (auto split: prod.splits)

lemma edge_runs:
  assumes "fold (edge_run m r rule tight sub) runs (d, b) = (d', b')" and "\<not> gfailed b'"
    and sub: "\<And>u v nr d b. nr < m \<Longrightarrow> good X b \<Longrightarrow> tables_ok d0 pos X b d \<Longrightarrow>
      \<not> gfailed (snd (snd (sub u v nr (d, b)))) \<Longrightarrow> edge_call d0 left X u v nr (d, b) (sub u v nr (d, b))"
    and fails: "\<And>u v nr d b. gfailed b \<Longrightarrow> gfailed (snd (snd (sub u v nr (d, b))))"
    and "good X b" and "tables_ok d0 pos X b d" and m: "dp_m d0 = m" "0 < m" "pos = dp_len d0 - left"
    and rule: "rule \<in> X" and "list_all (\<lambda>(x, e). x \<le> e \<and> e < 10) runs" and "\<not> gfailed b"
  shows "good X b' \<and> grows {rule} b b' \<and> tables_ok d0 pos X b' d' \<and> keeps d0 pos (dp_edge d) (dp_edge d') \<and>
    (\<forall>ys \<in> alts_of b' rule. ys \<in> alts_of b rule \<or> (\<exists>run \<in> set runs. run_alt d0 left r X b' tight run ys)) \<and>
    (\<forall>run \<in> set runs. \<exists>ys \<in> alts_of b' rule. run_alt d0 left r X b' tight run ys)"
  using assms(1,2,5,6,11,12)
proof (induction runs arbitrary: d b)
  case Nil
  then show ?case by (simp add: grows_refl keeps_def)
next
  case (Cons run runs)
  obtain x e where run: "run = (x, e)" by (cases run)
  obtain d1 b1 where step: "edge_run m r rule tight sub (x, e) (d, b) = (d1, b1)" by force
  have rest: "fold (edge_run m r rule tight sub) runs (d1, b1) = (d', b')"
    using Cons.prems(1) run step by simp
  have ok1: "\<not> gfailed b1"
  proof
    assume "gfailed b1"
    then have "gfailed (snd (fold (edge_run m r rule tight sub) runs (d1, b1)))"
      by (intro fold_invariant_list [where P = "\<lambda>st. gfailed (snd st)"] fails_edge_run [where sub = sub, OF fails]) simp_all
    with rest Cons.prems(2) show False by simp
  qed
  from edge_run_step [where sub = sub, OF step ok1 sub fails Cons.prems(3,4) m rule] Cons.prems(5) run
  obtain q where S: "good X b1" "grows {rule} b b1" "tables_ok d0 pos X b1 d1"
     "keeps d0 pos (dp_edge d) (dp_edge d1)" "q \<in> done_rules X b1"
     "lang b1 q = edge_lang d0 left (fst (tight x)) (snd (tight x)) ((r * 10 + x) mod m)"
     "alts_of b1 rule = insert [ASet (digit_char ` {x..e}), ARule q] (alts_of b rule)"
    by auto
  let ?ys = "[ASet (digit_char ` {x..e}), ARule q]"
  from Cons.IH [OF rest Cons.prems(2) S(1,3) _ ok1] Cons.prems(5)
  have IH: "good X b'" "grows {rule} b1 b'" "tables_ok d0 pos X b' d'" "keeps d0 pos (dp_edge d1) (dp_edge d')"
    "\<forall>ys \<in> alts_of b' rule. ys \<in> alts_of b1 rule \<or> (\<exists>run \<in> set runs. run_alt d0 left r X b' tight run ys)"
    "\<forall>run \<in> set runs. \<exists>ys \<in> alts_of b' rule. run_alt d0 left r X b' tight run ys" by auto
  have "run_alt d0 left r X b1 tight run ?ys" using S(5,6) run m(1) by (simp add: run_alt_def)
  then have mine: "run_alt d0 left r X b' tight run ?ys"
    by (rule run_alt_grows [OF _ IH(2) S(1) IH(1)]) (use rule in simp)
  have "?ys \<in> alts_of b' rule"
    using S(7) IH(2) S(1) IH(1) by (auto simp: alts_of_def gprods_eq good_def grows_def)
  moreover have "grows {rule} b b'" using grows_trans [OF S(2) IH(2)] by simp
  moreover have "keeps d0 pos (dp_edge d) (dp_edge d')" using S(4) IH(4) by (simp add: keeps_def)
  ultimately show ?case using IH S(7) mine by auto
qed

lemma edge_ok_put:
  assumes "edge_ok d (Suc pos) X b ed'" and "edge_ok d pos X b ed" and "keeps d (Suc pos) (ed[slot_of (dp_m d) pos tlo thi r := q]) ed'"
    and "pos \<le> MAG_DIGITS" and "r < dp_m d" and "q \<in> done_rules X b" and "lang b q = edge_lang d (dp_len d - pos) tlo thi r"
  shows "edge_ok d pos X b ed'"
proof -
  let ?sl = "slot_of (dp_m d)"
  have size: "?sl pos tlo thi r < length ed" using slot_of_size [OF assms(4,5)] assms(2) by (simp add: edge_ok_def)
  have "ed' ! ?sl p u v s \<in> done_rules X b \<and> lang b (ed' ! ?sl p u v s) = edge_lang d (dp_len d - p) u v s"
    if p: "pos \<le> p" "p \<le> dp_len d" "s < dp_m d" and set: "ed' ! ?sl p u v s \<noteq> NONE" for p u v s
  proof (cases "p = pos")
    case True
    have eq: "ed' ! ?sl pos u v s = ed[?sl pos tlo thi r := q] ! ?sl pos u v s"
      using assms(3) p(3) by (simp add: keeps_def)
    show ?thesis
    proof (cases "u = tlo \<and> v = thi \<and> s = r")
      case same: True
      then show ?thesis using eq size True assms(6,7) by simp
    next
      case False
      then have "?sl pos u v s \<noteq> ?sl pos tlo thi r" using slot_of_eq_iff [OF p(3) assms(5), of pos u v pos tlo thi] by simp
      then have "ed' ! ?sl pos u v s = ed ! ?sl pos u v s" using eq by simp
      then show ?thesis using True assms(2) p set by (simp add: edge_ok_def)
    qed
  next
    case False
    then have "Suc pos \<le> p" using p(1) by simp
    then show ?thesis using assms(1) p set by (simp add: edge_ok_def)
  qed
  then show ?thesis using assms(1) by (simp add: edge_ok_def)
qed

lemma tables_ok_put:
  assumes "tables_ok d0 (Suc pos) X b d'" and "tables_ok d0 pos X b d"
    and "keeps d0 (Suc pos) ((dp_edge d)[slot_of (dp_m d0) pos tlo thi r := q]) (dp_edge d')"
    and "pos \<le> MAG_DIGITS" and "r < dp_m d0" and "q \<in> done_rules X b" and "lang b q = edge_lang d0 (dp_len d0 - pos) tlo thi r"
  shows "tables_ok d0 pos X b d'"
  using assms edge_ok_put [of d0 pos X b "dp_edge d'" "dp_edge d" tlo thi r q] by (auto simp: tables_ok_def)

lemma edge_ok_above:
  assumes "edge_ok d pos X b ed" and "r < dp_m d"
  shows "edge_ok d (Suc pos) X b (ed[slot_of (dp_m d) pos tlo thi r := q])"
proof -
  have "ed[slot_of (dp_m d) pos tlo thi r := q] ! slot_of (dp_m d) p u v s = ed ! slot_of (dp_m d) p u v s"
    if "Suc pos \<le> p" "s < dp_m d" for p u v s
    using slot_of_eq_iff [OF assms(2) that(2), of pos tlo thi p u v] that(1)
    by (metis Suc_n_not_le_n nth_list_update_neq)
  then show ?thesis using assms(1) by (simp add: edge_ok_def)
qed

lemma keeps_put:
  assumes "keeps d (Suc pos) (ed[slot_of (dp_m d) pos tlo thi r := q]) ed'" and "r < dp_m d"
  shows "keeps d pos ed ed'"
  unfolding keeps_def
proof (intro allI impI)
  fix p u v s assume p: "p < pos \<and> s < dp_m d"
  then have "slot_of (dp_m d) p u v s \<noteq> slot_of (dp_m d) pos tlo thi r"
    using slot_of_eq_iff [of s "dp_m d" r p u v pos tlo thi] assms(2) by simp
  then show "ed' ! slot_of (dp_m d) p u v s = ed ! slot_of (dp_m d) p u v s"
    using assms(1) p by (simp add: keeps_def)
qed

text \<open>The alternatives made for the runs are exactly the first digits of the language.\<close>

lemma lang_of_runs:
  assumes runs: "runs_ok (dp_m d) (tight_at d pos tlo thi) (from_digit d pos tlo) (to_digit d pos thi) runs"
    and alts: "\<forall>ys \<in> alts_of b rule. \<exists>run \<in> set runs. run_alt d left r X b (tight_at d pos tlo thi) run ys"
    and all: "\<forall>run \<in> set runs. \<exists>ys \<in> alts_of b rule. run_alt d left r X b (tight_at d pos tlo thi) run ys"
    and d: "dp_ok d" "left < dp_len d" "pos = dp_len d - Suc left" and e: "list_all (\<lambda>(x, e). x \<le> e \<and> e < 10) runs"
  shows "lang b rule = edge_lang d (Suc left) tlo thi r"
proof -
  let ?t = "tight_at d pos tlo thi"
  have same: "?t k = ?t x \<and> (r * 10 + k) mod dp_m d = (r * 10 + x) mod dp_m d \<and>
      from_digit d pos tlo \<le> k \<and> k \<le> to_digit d pos thi" if "(x, e) \<in> set runs" "x \<le> k" "k \<le> e" for x e k
  proof -
    have "from_digit d pos tlo \<le> x" "e \<le> to_digit d pos thi" "?t k = ?t x" "dp_m d = 1 \<or> k = x"
      using runs that unfolding runs_ok_def by blast+
    then show ?thesis using that by auto
  qed
  have step: "w \<in> edge_lang d (Suc left) tlo thi r \<longleftrightarrow> (\<exists>c v. w = Byte c # v \<and> isdigit c \<and>
      from_digit d pos tlo \<le> digit_val c \<and> digit_val c \<le> to_digit d pos thi \<and>
      v \<in> edge_lang d left (fst (?t (digit_val c))) (snd (?t (digit_val c))) ((r * 10 + digit_val c) mod dp_m d))" for w
  proof -
    have "\<exists>c v. w = Byte c # v" if "w \<in> edge_lang d (Suc left) tlo thi r"
      using that by (auto simp: edge_lang_def length_Suc_conv)
    then show ?thesis using edge_lang_Suc [OF d(1,2), of _ _ tlo thi r] unfolding d(3) by blast
  qed
  show ?thesis
  proof (rule set_eqI, rule iffI)
    fix w assume "w \<in> lang b rule"
    then obtain ys where ys: "ys \<in> alts_of b rule" "derives (gprods b) ys w" by (auto simp: lang_alts)
    then obtain x e where run: "(x, e) \<in> set runs" "run_alt d left r X b ?t (x, e) ys"
      using alts by fast
    then obtain q where q: "ys = [ASet (digit_char ` {x..e}), ARule q]"
      "lang b q = edge_lang d left (fst (?t x)) (snd (?t x)) ((r * 10 + x) mod dp_m d)"
      by (auto simp: run_alt_def)
    with ys(2) obtain k v where w: "w = Byte (digit_char k) # v" "x \<le> k" "k \<le> e" "v \<in> lang b q"
      unfolding q(1) derives_set_rule by auto
    have "k < 10" using e run(1) w(3) by (auto simp: list_all_iff)
    then have "isdigit (digit_char k)" "digit_val (digit_char k) = k" by (simp_all add: digit_char_props)
    with same [OF run(1) w(2,3)] w q(2) show "w \<in> edge_lang d (Suc left) tlo thi r"
      unfolding step by (intro exI [of _ "digit_char k"] exI [of _ v]) simp
  next
    fix w assume "w \<in> edge_lang d (Suc left) tlo thi r"
    then obtain c v where w: "w = Byte c # v" "isdigit c" "from_digit d pos tlo \<le> digit_val c"
      "digit_val c \<le> to_digit d pos thi"
      "v \<in> edge_lang d left (fst (?t (digit_val c))) (snd (?t (digit_val c))) ((r * 10 + digit_val c) mod dp_m d)"
      unfolding step by blast
    then obtain x e where run: "(x, e) \<in> set runs" "x \<le> digit_val c" "digit_val c \<le> e"
      using runs unfolding runs_ok_def by blast
    with all obtain ys where ys: "ys \<in> alts_of b rule" "run_alt d left r X b ?t (x, e) ys" by blast
    then obtain q where q: "ys = [ASet (digit_char ` {x..e}), ARule q]"
      "lang b q = edge_lang d left (fst (?t x)) (snd (?t x)) ((r * 10 + x) mod dp_m d)"
      by (auto simp: run_alt_def)
    have "v \<in> lang b q" using w(5) q(2) same [OF run] by simp
    moreover have "c \<in> digit_char ` {x..e}"
      using run w(2) by (intro image_eqI [of _ _ "digit_val c"]) (auto simp: digit_char_val)
    ultimately have "derives (gprods b) ys w" unfolding q(1) derives_set_rule using w(1) by blast
    with ys(1) show "w \<in> lang b rule" unfolding lang_alts by blast
  qed
qed

end
