(* ===== verification/Schema_Int.thy ===== *)
theory Schema_Int
  imports Schema_Edges
begin

text \<open>
  The state made for a bound has the language of the digits it allows, and \<open>magnitudes\<close> and
  \<open>janas_jsg_int_bounded\<close> write rules for exactly the integers inside the bounds.
\<close>

section \<open>The recursion over the digits\<close>

lemma free_ok_le: "free_ok m k X b fr \<Longrightarrow> l \<le> k \<Longrightarrow> free_ok m l X b fr"
  by (auto simp: free_ok_def)

lemma free_ok_above_call:
  assumes "free_ok m k X b fr" and "free_ok m l X b' fr'" and "\<forall>j \<ge> Suc l * m. fr' ! j = fr ! j"
    and "grows {} b b'" and "good X b" and "good X b'"
  shows "free_ok m k X b' fr'"
proof -
  have old: "free_ok m k X b' fr" by (rule free_ok_grows [OF assms(1,4,5,6)]) auto
  have "fr' ! (l' * m + r) = fr ! (l' * m + r)" if "\<not> l' \<le> l" for l' r
  proof -
    have "Suc l * m \<le> l' * m" using that by (intro mult_le_mono1) simp
    then show ?thesis using assms(3) by simp
  qed
  then have "fr' ! (l' * m + r) \<noteq> NONE \<longrightarrow> fr' ! (l' * m + r) \<in> done_rules X b' \<and>
      lang b' (fr' ! (l' * m + r)) = free_lang m l' r" if "l' \<le> k" "r < m" for l' r
    using that old assms(2) by (cases "l' \<le> l") (auto simp: free_ok_def)
  then show ?thesis using assms(2) by (simp add: free_ok_def)
qed

lemma state_free:
  assumes "good X b" and t: "tables_ok d0 (dp_len d0 - left) X b d" and "dp_ok d0" and "left \<le> dp_len d0"
    and "r < dp_m d0" and "\<not> gfailed (snd (snd (free_state left r (d, b))))"
  shows "edge_call d0 left X False False r (d, b) (free_state left r (d, b))"
proof -
  have m: "dp_m d = dp_m d0" using tables_ok_m [OF t] by simp
  have l: "left \<le> MAG_DIGITS" and m0: "0 < dp_m d0" using assms(3,4) by (auto simp: dp_ok_def)
  have free: "free_ok (dp_m d0) MAG_DIGITS X b (dp_free d)" using t by (simp add: tables_ok_def)
  obtain q d' b' where res: "free_state left r (d, b) = (q, d', b')" by (cases "free_state left r (d, b)")
  from free_state_spec [OF assms(1) free_ok_le [OF free l] m m0 assms(5) l assms(6)]
  have F: "good X b'" "grows {} b b'" "q \<in> done_rules X b'" "lang b' q = free_lang (dp_m d0) left r"
    "free_ok (dp_m d0) left X b' (dp_free d')" "d' = d\<lparr>dp_free := dp_free d'\<rparr>"
    "\<forall>k \<ge> Suc left * dp_m d0. dp_free d' ! k = dp_free d ! k"
    unfolding res by (simp_all add: free_call_def)
  have edge: "dp_edge d' = dp_edge d" by (subst F(6)) simp
  have "edge_ok d0 (dp_len d0 - left) X b' (dp_edge d)"
    by (rule edge_ok_grows [OF _ F(2) assms(1) F(1)]) (use t in \<open>auto simp: tables_ok_def\<close>)
  moreover have "free_ok (dp_m d0) MAG_DIGITS X b' (dp_free d')"
    by (rule free_ok_above_call [OF free F(5,7,2) assms(1) F(1)])
  moreover have "d' = d0\<lparr>dp_edge := dp_edge d', dp_free := dp_free d'\<rparr>"
  proof -
    have "d = d0\<lparr>dp_edge := dp_edge d, dp_free := dp_free d\<rparr>" using t by (simp add: tables_ok_def)
    then have "d\<lparr>dp_free := dp_free d'\<rparr> = d0\<lparr>dp_edge := dp_edge d, dp_free := dp_free d\<rparr>\<lparr>dp_free := dp_free d'\<rparr>" by metis
    with F(6) edge show ?thesis by simp
  qed
  ultimately show ?thesis
    unfolding res using F(1-4) edge by (simp add: edge_call_def tables_ok_def keeps_def edge_lang_free)
qed

lemma edge_known:
  assumes "good X b" and t: "tables_ok d0 (dp_len d0 - left) X b d" and "left \<le> dp_len d0" and "r < dp_m d0"
    and "dp_edge d ! slot_of (dp_m d0) (dp_len d0 - left) tlo thi r \<noteq> NONE" and "\<not> gfailed b"
  shows "edge_call d0 left X tlo thi r (d, b) (dp_edge d ! slot_of (dp_m d0) (dp_len d0 - left) tlo thi r, d, b)"
  using assms by (auto simp: edge_call_def grows_refl keeps_def tables_ok_def edge_ok_def)

text \<open>
  A rule \<open>q\<close> made for the state and finished: its slot holds it and the entries of later places
  are those of the calls for its alternatives.
\<close>

lemma edge_made:
  assumes t: "tables_ok d0 pos X b d" and q: "gb_rule b = (q, b1)" "good X b" "\<not> gfailed b1"
    and fin: "good (insert q X) b2" "grows {q} b1 b2"
      "\<And>ys. ys \<in> alts_of b2 q \<Longrightarrow> refs ys \<subseteq> insert q (done_rules (insert q X) b2)"
    and tables: "tables_ok d0 (Suc pos) (insert q X) b2 d2"
      "keeps d0 (Suc pos) ((dp_edge d)[slot_of (dp_m d0) pos tlo thi r := q]) (dp_edge d2)"
    and lang: "lang b2 q = edge_lang d0 left tlo thi r" and pos: "pos = dp_len d0 - left" "left \<le> dp_len d0"
    and d0: "dp_ok d0" "r < dp_m d0"
  shows "edge_call d0 left X tlo thi r (d, b) (q, d2, b2)"
proof -
  note 1 = good_rule [OF q]
  note F = good_finish [OF fin(1) 1(5) fin(3)]
  have g: "grows {} b b2" by (rule grows_trans [OF 1(2) fin(2)]) (simp add: 1(3))
  have t2: "tables_ok d0 pos X b2 d" by (rule tables_ok_grows [OF t g q(2) F(1)]) auto
  have t2': "tables_ok d0 (Suc pos) X b2 d2"
    using tables(1) unfolding tables_ok_def free_ok_def edge_ok_def done_rules_def by auto
  have "tables_ok d0 pos X b2 d2"
    by (rule tables_ok_put [OF t2' t2 tables(2)]) (use pos d0 F(2) lang in \<open>auto simp: dp_ok_def\<close>)
  moreover have "keeps d0 pos (dp_edge d) (dp_edge d2)" by (rule keeps_put [OF tables(2) d0(2)])
  ultimately show ?thesis using F g lang pos(1) by (simp add: edge_call_def)
qed

lemma tables_ok_new:
  assumes t: "tables_ok d0 pos X b d" and q: "gb_rule b = (q, b1)" "good X b" "\<not> gfailed b1" and "r < dp_m d0"
  shows "tables_ok d0 (Suc pos) (insert q X) b1
    (d\<lparr>dp_edge := (dp_edge d)[slot_of (dp_m d0) pos tlo thi r := q]\<rparr>)"
proof -
  note 1 = good_rule [OF q]
  have "tables_ok d0 pos (insert q X) b1 d"
    by (rule tables_ok_grows [OF t 1(2) q(2) 1(1)]) (use 1(3) in auto)
  then have "d = d0\<lparr>dp_edge := dp_edge d, dp_free := dp_free d\<rparr>"
    "free_ok (dp_m d0) MAG_DIGITS (insert q X) b1 (dp_free d)" "edge_ok d0 pos (insert q X) b1 (dp_edge d)"
    by (auto simp: tables_ok_def)
  moreover from this(1) have "d\<lparr>dp_edge := x\<rparr> = d0\<lparr>dp_edge := x, dp_free := dp_free d\<rparr>" for x
    by (metis dp.fold_congs(5) dp.surjective dp.update_convs(5) dp.update_convs(6))
  ultimately show ?thesis
    using edge_ok_above [OF _ assms(5)] by (simp add: tables_ok_def)
qed

lemma state_spec:
  assumes "good X b" and "tables_ok d0 (dp_len d0 - left) X b d" and "dp_ok d0" and "left \<le> dp_len d0"
    and "r < dp_m d0" and "\<not> gfailed (snd (snd (state left tlo thi r (d, b))))"
  shows "edge_call d0 left X tlo thi r (d, b) (state left tlo thi r (d, b))"
  using assms
proof (induction left arbitrary: X tlo thi r d b)
  case 0
  note t = 0(2)
  have same: "dp_m d = dp_m d0" "dp_len d = dp_len d0" using tables_ok_m [OF t] by auto
  let ?sl = "slot_of (dp_m d0) (dp_len d0) tlo thi r"
  have nf: "\<not> gfailed b" using 0(6) fails_state by blast
  consider "\<not> tlo \<and> \<not> thi" | "tlo \<or> thi" "dp_edge d ! ?sl \<noteq> NONE" | "tlo \<or> thi" "dp_edge d ! ?sl = NONE" by blast
  then show ?case
  proof cases
    case 1
    then have "state 0 tlo thi r (d, b) = free_state 0 r (d, b)" by simp
    then show ?thesis using state_free [OF 0(1) t 0(3-5)] 0(6) 1 by simp
  next
    case 2
    then have "state 0 tlo thi r (d, b) = (dp_edge d ! ?sl, d, b)"
      by (auto simp: edge_slot_of same Let_def)
    then show ?thesis using edge_known [OF 0(1) t _ 0(5) _ nf, of tlo thi] 2 by simp
  next
    case 3
    obtain q b1 where rl: "gb_rule b = (q, b1)" by force
    let ?b2 = "if r = 0 then snd (gb_alt q b1) else b1"
    let ?d2 = "d\<lparr>dp_edge := (dp_edge d)[?sl := q]\<rparr>"
    have res: "state 0 tlo thi r (d, b) = (q, ?d2, ?b2)"
      using 3 rl by (auto simp: edge_slot_of same Let_def)
    have ok: "\<not> gfailed ?b2" using 0(6) res by simp
    then have ok1: "\<not> gfailed b1" using fails_alt by (auto split: if_splits)
    note 1 = good_rule [OF rl 0(1) ok1]
    have B: "good (insert q X) ?b2 \<and> grows {q} b1 ?b2 \<and> alts_of ?b2 q = (if r = 0 then {[]} else {})"
    proof (cases "r = 0")
      case True
      obtain a b2 where al: "gb_alt q b1 = (a, b2)" by force
      have ok2: "\<not> gfailed b2" using ok True al by simp
      note a = good_alt(1,3) [OF al 1(1) insertI1 ok2] good_alt(2) [OF al 1(1) insertI1 ok2, of "{}"]
      have "alts_of b2 q = insert [] (alts_of b1 q)"
        by (rule alts_opened [OF a(3) 1(1) a(1)]) (use 1 in auto)
      then show ?thesis using True al a opened_grows [OF a(3)] 1(6) by simp
    next
      case False
      then show ?thesis using 1 ok1 by (simp add: grows_refl)
    qed
    have "lang ?b2 q = edge_lang d0 0 tlo thi r"
      unfolding lang_alts edge_lang_0 using B 0(5) by (auto split: if_splits)
    moreover have "tables_ok d0 (Suc (dp_len d0)) (insert q X) ?b2 ?d2"
    proof (rule tables_ok_grows [OF tables_ok_new [OF _ rl 0(1) ok1 0(5)]])
      show "tables_ok d0 (dp_len d0) X b d" using t by simp
      show "grows {q} b1 ?b2" "good (insert q X) b1" "good (insert q X) ?b2" using B 1 by auto
    qed auto
    ultimately show ?thesis
      unfolding res using B t 0(3,5)
      by (intro edge_made [OF _ rl 0(1) ok1]) (auto simp: keeps_def split: if_splits)
  qed
next
  case (Suc left)
  note t = Suc.prems(2)
  define pos where "pos = dp_len d0 - Suc left"
  have same: "dp_m d = dp_m d0" "dp_len d = dp_len d0" "dp_lo d = dp_lo d0" "dp_hi d = dp_hi d0"
    using tables_ok_m [OF t] by auto
  have pos: "Suc pos = dp_len d0 - left" "pos < dp_len d0" using Suc.prems(4) by (auto simp: pos_def)
  let ?sl = "slot_of (dp_m d0) pos tlo thi r"
  have nf: "\<not> gfailed b" using Suc.prems(6) fails_state by blast
  consider "\<not> tlo \<and> \<not> thi" | "tlo \<or> thi" "dp_edge d ! ?sl \<noteq> NONE" | "tlo \<or> thi" "dp_edge d ! ?sl = NONE" by blast
  then show ?case
  proof cases
    case 1
    then have "state (Suc left) tlo thi r (d, b) = free_state (Suc left) r (d, b)" by simp
    then show ?thesis using state_free [OF Suc.prems(1) t Suc.prems(3-5)] Suc.prems(6) 1 by simp
  next
    case 2
    then have "state (Suc left) tlo thi r (d, b) = (dp_edge d ! ?sl, d, b)"
      by (auto simp: edge_slot_of same Let_def pos_def)
    then show ?thesis using edge_known [OF Suc.prems(1) t Suc.prems(4,5) _ nf, of tlo thi] 2 by (simp add: pos_def)
  next
    case 3
    obtain q b1 where rl: "gb_rule b = (q, b1)" by force
    let ?d1 = "d\<lparr>dp_edge := (dp_edge d)[?sl := q]\<rparr>"
    let ?t = "tight_at d0 pos tlo thi"
    define runs where "runs = digit_runs (dp_m d0) ?t (from_digit d0 pos tlo) (to_digit d0 pos thi)"
    let ?f = "edge_run (dp_m d0) r q ?t (state left)"
    obtain d2 b2 where fold: "fold ?f runs (?d1, b1) = (d2, b2)" by force
    have tight: "tight_at d pos tlo thi = ?t" by (simp add: tight_at_def same fun_eq_iff)
    have res: "state (Suc left) tlo thi r (d, b) = (q, d2, b2)"
      using 3 rl fold tight same by (auto simp: edge_slot_of Let_def runs_def from_digit_def to_digit_def simp flip: pos_def)
    have ok2: "\<not> gfailed b2" using Suc.prems(6) res by simp
    have fails: "\<And>u v nr d b. gfailed b \<Longrightarrow> gfailed (snd (snd (state left u v nr (d, b))))"
      by (rule fails_state)
    have ok1: "\<not> gfailed b1"
    proof
      assume "gfailed b1"
      then have "gfailed (snd (fold ?f runs (?d1, b1)))"
        by (intro fold_invariant_list [where P = "\<lambda>st. gfailed (snd st)"] fails_edge_run [where sub = "state left", OF fails]) simp_all
      with fold ok2 show False by simp
    qed
    note 1 = good_rule [OF rl Suc.prems(1) ok1]
    have t': "tables_ok d0 pos X b d" using t by (simp add: pos_def)
    have t1: "tables_ok d0 (Suc pos) (insert q X) b1 ?d1"
      by (rule tables_ok_new [OF t' rl Suc.prems(1) ok1 Suc.prems(5)])
    have hi: "to_digit d0 pos thi < 10"
    proof -
      have "list_all isdigit (take (dp_len d0) (dp_hi d0))" "dp_len d0 \<le> length (dp_hi d0)"
        using Suc.prems(3) by (auto simp: dp_ok_def)
      then have "isdigit (dp_hi d0 ! pos)" using pos(2) by (auto simp: list_all_length)
      then show ?thesis by (simp add: to_digit_def digit_val_less)
    qed
    have rok: "runs_ok (dp_m d0) ?t (from_digit d0 pos tlo) (to_digit d0 pos thi) runs"
      by (simp add: runs_def digit_runs_ok)
    then have le: "list_all (\<lambda>(x, e). x \<le> e \<and> e < 10) runs"
      using hi unfolding runs_ok_def list_all_iff by fastforce
    have sub: "edge_call d0 left (insert q X) u v nr (d', b') (state left u v nr (d', b'))"
      if "nr < dp_m d0" "good (insert q X) b'" "tables_ok d0 (Suc pos) (insert q X) b' d'"
        "\<not> gfailed (snd (snd (state left u v nr (d', b'))))" for u v nr d' b'
      using Suc.IH [of "insert q X" b' d' nr u v] that Suc.prems(3,4) pos by simp
    from edge_runs [where sub = "state left", OF fold ok2 sub fails 1(1) t1 refl _ pos(1) insertI1 le ok1] Suc.prems(5)
    have R: "good (insert q X) b2" "grows {q} b1 b2" "tables_ok d0 (Suc pos) (insert q X) b2 d2"
      "keeps d0 (Suc pos) (dp_edge ?d1) (dp_edge d2)"
      and alts: "\<forall>ys \<in> alts_of b2 q. \<exists>run \<in> set runs. run_alt d0 left r (insert q X) b2 ?t run ys"
      and all: "\<forall>run \<in> set runs. \<exists>ys \<in> alts_of b2 q. run_alt d0 left r (insert q X) b2 ?t run ys"
      using 1(6) by auto
    have "lang b2 q = edge_lang d0 (Suc left) tlo thi r"
      by (rule lang_of_runs [OF rok alts all Suc.prems(3) _ pos_def le]) (use Suc.prems(4) in simp)
    moreover have "refs ys \<subseteq> insert q (done_rules (insert q X) b2)" if "ys \<in> alts_of b2 q" for ys
      using alts that by (fastforce simp: run_alt_def)
    moreover have "keeps d0 (Suc pos) ((dp_edge d)[?sl := q]) (dp_edge d2)" using R(4) by simp
    ultimately show ?thesis
      unfolding res using R Suc.prems(3-5) pos_def
      by (intro edge_made [OF t' rl Suc.prems(1) ok1]) auto
  qed
qed

section \<open>The digits of the bounds\<close>

lemma put_digits_Suc:
  "put_digits (Suc n) x s = put_digits n (x div 10) (s[n := digit_char (x mod 10)])"
  by (simp add: put_digits_def)

lemma put_digits_props:
  "n \<le> length s \<Longrightarrow> length (put_digits n x s) = length s \<and> (\<forall>k \<ge> n. put_digits n x s ! k = s ! k) \<and>
    list_all isdigit (take n (put_digits n x s)) \<and> dec_val (take n (put_digits n x s)) = x mod 10 ^ n"
proof (induction n arbitrary: x s)
  case 0
  then show ?case by (simp add: put_digits_def)
next
  case (Suc n)
  let ?s = "s[n := digit_char (x mod 10)]"
  have n: "n < length s" using Suc.prems by simp
  with Suc.IH [of ?s "x div 10"]
  have IH: "length (put_digits n (x div 10) ?s) = length s" "\<forall>k \<ge> n. put_digits n (x div 10) ?s ! k = ?s ! k"
    "list_all isdigit (take n (put_digits n (x div 10) ?s))"
    "dec_val (take n (put_digits n (x div 10) ?s)) = x div 10 mod 10 ^ n" by auto
  have take: "take (Suc n) (put_digits n (x div 10) ?s) = take n (put_digits n (x div 10) ?s) @ [digit_char (x mod 10)]"
    using n IH(1,2) by (simp add: take_Suc_conv_app_nth)
  have "x mod 10 ^ Suc n = 10 * (x div 10 mod 10 ^ n) + x mod 10"
    by (simp add: mod_mult2_eq)
  then show ?case
    unfolding put_digits_Suc take using IH by (auto simp: digit_char_props)
qed

lemma length_dec: "length (dec n) = ndigits n"
proof (induction n rule: dec_induct)
  case (small n)
  then show ?case by (simp add: dec_small ndigits.simps [of n])
next
  case (large n)
  then show ?case by (simp add: dec_large ndigits.simps [of n])
qed

lemma dec_lower: "10 ^ (length (dec n) - 1) \<le> n \<or> n = 0"
proof (induction n rule: dec_induct)
  case (small n)
  then show ?case by (auto simp: dec_small)
next
  case (large n)
  then have "n div 10 \<noteq> 0" by auto
  with large have "10 ^ (length (dec (n div 10)) - 1) \<le> n div 10" by blast
  then have "10 ^ (length (dec (n div 10)) - 1) * 10 \<le> n" by linarith
  moreover obtain k where k: "length (dec (n div 10)) = Suc k" by (cases "dec (n div 10)") auto
  moreover have "length (dec n) = Suc (Suc k)" using large(1) k by (simp add: dec_large)
  ultimately show ?case by simp
qed

lemma dec_upper: "n < 10 ^ length (dec n)"
  using dec_val_bound [OF dec_digits, of n] by simp

lemma length_dec_iff:
  assumes "0 < len"
  shows "length (dec n) = len \<longleftrightarrow> n < 10 ^ len \<and> (10 ^ (len - 1) \<le> n \<or> len = 1)"
proof
  assume "length (dec n) = len"
  then show "n < 10 ^ len \<and> (10 ^ (len - 1) \<le> n \<or> len = 1)"
    using dec_upper [of n] dec_lower [of n] by (auto simp: dec_small)
next
  assume n: "n < 10 ^ len \<and> (10 ^ (len - 1) \<le> n \<or> len = 1)"
  show "length (dec n) = len"
  proof (rule ccontr)
    assume "length (dec n) \<noteq> len"
    then consider "length (dec n) < len" | "len < length (dec n)" by linarith
    then show False
    proof cases
      case 1
      then have "len \<noteq> 1" by (cases "length (dec n)") auto
      with n have "10 ^ (len - 1) \<le> n" by simp
      moreover have "(10 :: nat) ^ length (dec n) \<le> 10 ^ (len - 1)" using 1 by (intro power_increasing) auto
      ultimately show False using dec_upper [of n] by linarith
    next
      case 2
      then have "(10 :: nat) ^ len \<le> 10 ^ (length (dec n) - 1)" by (intro power_increasing) auto
      moreover have "length (dec 0) = 1" by (simp add: dec_small)
      then have "n \<noteq> 0" using 2 assms by (cases "n = 0") auto
      ultimately show False using n dec_lower [of n] by linarith
    qed
  qed
qed

text \<open>The texts of \<open>len\<close> digits between two bounds of that length are the numbers' own.\<close>

lemma digit_texts:
  assumes "0 < len" and "10 ^ (len - 1) \<le> lo \<or> len = 1" and "up < 10 ^ len"
  shows "{map Byte w | w. length w = len \<and> list_all isdigit w \<and> lo \<le> dec_val w \<and> dec_val w \<le> up \<and> dec_val w mod m = 0} =
    {map Byte (dec n) | n. lo \<le> n \<and> n \<le> up \<and> m dvd n}"
proof -
  have own: "dec (dec_val w) = w" if "length w = len" "list_all isdigit w" "lo \<le> dec_val w" for w
  proof (rule dec_dec_val [OF that(2)])
    show ne: "w \<noteq> []" using that(1) assms(1) by auto
    show "hd w \<noteq> 0x30 \<or> length w = 1"
    proof (rule ccontr)
      assume "\<not> (hd w \<noteq> 0x30 \<or> length w = 1)"
      then have hd: "hd w = 0x30" and len: "length w \<noteq> 1" by auto
      obtain c v where w: "w = c # v" using ne by (cases w) auto
      have "digit_val 0x30 = 0" by (simp add: digit_val_def)
      then have "dec_val w = dec_val v" using hd w by (simp add: dec_val_Cons)
      moreover have "dec_val v < 10 ^ length v" using that(2) w by (intro dec_val_bound) simp
      moreover have "length v = len - 1" "len \<noteq> 1" using that(1) len w by auto
      ultimately show False using assms(2) that(3) by simp
    qed
  qed
  have len: "length (dec n) = len" if "lo \<le> n" "n \<le> up" for n
  proof -
    have "n < 10 ^ len" using that(2) assms(3) by (rule le_less_trans)
    moreover have "10 ^ (len - 1) \<le> n \<or> len = 1" using assms(2) that(1) le_trans by blast
    ultimately have "n < 10 ^ len \<and> (10 ^ (len - 1) \<le> n \<or> len = 1)" ..
    then show ?thesis by (rule iffD2 [OF length_dec_iff [OF assms(1)]])
  qed
  show ?thesis
  proof (intro subset_antisym subsetI)
    fix x assume "x \<in> {map Byte w | w. length w = len \<and> list_all isdigit w \<and> lo \<le> dec_val w \<and> dec_val w \<le> up \<and> dec_val w mod m = 0}"
    then obtain w where w: "x = map Byte w" "length w = len" "list_all isdigit w" "lo \<le> dec_val w" "dec_val w \<le> up"
      "dec_val w mod m = 0" by (elim CollectE exE conjE)
    then show "x \<in> {map Byte (dec n) | n. lo \<le> n \<and> n \<le> up \<and> m dvd n}"
      using own [OF w(2-4)] by (intro CollectI exI [of _ "dec_val w"]) (simp add: dvd_eq_mod_eq_0)
  next
    fix x assume "x \<in> {map Byte (dec n) | n. lo \<le> n \<and> n \<le> up \<and> m dvd n}"
    then obtain n where n: "x = map Byte (dec n)" "lo \<le> n" "n \<le> up" "n mod m = 0" by (auto simp: dvd_eq_mod_eq_0)
    then show "x \<in> {map Byte w | w. length w = len \<and> list_all isdigit w \<and> lo \<le> dec_val w \<and> dec_val w \<le> up \<and> dec_val w mod m = 0}"
      using len dec_digits by (intro CollectI exI [of _ "dec n"]) simp
  qed
qed

section \<open>One length, and all of them\<close>

definition texts :: "nat \<Rightarrow> nat \<Rightarrow> nat \<Rightarrow> gsym list set" where
  "texts a hi m = {map Byte (dec n) | n. a \<le> n \<and> n \<le> hi \<and> m dvd n}"

definition dp_fits :: "nat \<Rightarrow> nat set \<Rightarrow> gbuild \<Rightarrow> dp \<Rightarrow> bool" where
  "dp_fits m X b d \<longleftrightarrow> dp_m d = m \<and> length (dp_lo d) = MAG_DIGITS + 1 \<and> length (dp_hi d) = MAG_DIGITS + 1 \<and>
     free_ok m MAG_DIGITS X b (dp_free d)"

lemma edge_ok_fresh: "edge_ok d pos X b (replicate ((MAG_DIGITS + 1) * 4 * dp_m d) NONE)" if "dp_len d \<le> MAG_DIGITS"
proof -
  have "replicate ((MAG_DIGITS + 1) * 4 * dp_m d) NONE ! slot_of (dp_m d) p tlo thi r = NONE"
    if "p \<le> dp_len d" "r < dp_m d" for p tlo thi r
    using slot_of_size [of p r "dp_m d" tlo thi] that \<open>dp_len d \<le> MAG_DIGITS\<close> by simp
  then show ?thesis by (simp add: edge_ok_def)
qed

text \<open>The numbers of one length: their rule, made from the two bounds written as digits.\<close>

lemma length_state:
  assumes d: "dp_fits m X b d" and b: "good X b" and "0 < m" and len: "0 < len" "len \<le> MAG_DIGITS"
    and lo: "10 ^ (len - 1) \<le> lo \<or> len = 1" "lo \<le> up" "up < 10 ^ len"
    and d': "d' = d\<lparr>dp_len := len, dp_lo := put_digits len lo (dp_lo d), dp_hi := put_digits len up (dp_hi d),
       dp_edge := replicate ((MAG_DIGITS + 1) * 4 * m) NONE\<rparr>"
    and st: "state len True True 0 (d', b) = (q, d2, b2)" and ok: "\<not> gfailed b2"
  shows "good X b2 \<and> grows {} b b2 \<and> q \<in> done_rules X b2 \<and> lang b2 q = texts lo up m \<and> dp_fits m X b2 d2"
proof -
  have sz: "len \<le> length (dp_lo d)" "len \<le> length (dp_hi d)" using d len by (auto simp: dp_fits_def)
  note plo = put_digits_props [OF sz(1), of lo] and phi = put_digits_props [OF sz(2), of up]
  have v: "dec_val (take len (dp_lo d')) = lo" "dec_val (take len (dp_hi d')) = up"
    using plo phi lo by (auto simp: d')
  have f: "dp_len d' = len" "dp_m d' = m" "dp_free d' = dp_free d" using d by (auto simp: d' dp_fits_def)
  have dok: "dp_ok d'" using plo phi d assms(3) len f by (auto simp: dp_ok_def d' dp_fits_def)
  have e: "edge_ok d' 0 X b (dp_edge d')"
    using edge_ok_fresh [of d' 0 X b] len f by (simp add: d')
  have t: "tables_ok d' (dp_len d' - len) X b d'"
    using e d f by (simp add: tables_ok_def dp_fits_def)
  from state_spec [OF b t dok, of 0 True True] st ok f assms(3)
  have S: "good X b2" "grows {} b b2" "q \<in> done_rules X b2" "lang b2 q = edge_lang d' len True True 0"
    "tables_ok d' 0 X b2 d2" by (simp_all add: edge_call_def)
  have "tail_val len (dp_lo d') len = lo" "tail_val len (dp_hi d') len = up" using v by (simp_all add: tail_val_def)
  then have "edge_lang d' len True True 0 =
      {map Byte w | w. length w = len \<and> list_all isdigit w \<and> lo \<le> dec_val w \<and> dec_val w \<le> up \<and> dec_val w mod m = 0}"
    by (auto simp: edge_lang_def f)
  also have "\<dots> = texts lo up m" unfolding texts_def by (rule digit_texts) (use len lo in auto)
  finally have lang: "lang b2 q = texts lo up m" using S(4) by simp
  have "dp_fits m X b2 d2"
    using tables_ok_m [OF S(5)] S(5) f plo phi d by (auto simp: dp_fits_def tables_ok_def d')
  with S lang show ?thesis by blast
qed

lemma texts_split: "texts a hi m = texts a (min hi k) m \<union> texts (max a (Suc k)) hi m"
  by (fastforce simp: texts_def)

text \<open>
  Alternatives of one reference each, added to \<open>into\<close>: together their rules have the language \<open>T\<close>.
\<close>

definition added :: "nat \<Rightarrow> nat set \<Rightarrow> gsym list set \<Rightarrow> gbuild \<Rightarrow> gbuild \<Rightarrow> bool" where
  "added into X T b b' \<longleftrightarrow> good X b' \<and> grows {into} b b' \<and>
     (\<exists>Q. Q \<subseteq> done_rules X b' \<and> alts_of b' into = alts_of b into \<union> (\<lambda>q. [ARule q]) ` Q \<and> (\<Union>q \<in> Q. lang b' q) = T)"

lemma added_none: "good X b \<Longrightarrow> \<not> gfailed b \<Longrightarrow> added into X {} b b"
  by (auto simp: added_def grows_refl)

lemma added_one:
  assumes ad: "added into X T b0 b" and into: "into \<in> X" "into < n_rules b0"
    and al: "gb_alt into b = (a, b1)" and sub: "\<not> gfailed b1 \<Longrightarrow> good X b1 \<Longrightarrow> \<not> gfailed b2 \<Longrightarrow> good X b2 \<and> grows {} b1 b2 \<and> q \<in> done_rules X b2 \<and> lang b2 q = S"
    and ok: "\<not> gfailed b1" "\<not> gfailed b2" "\<not> gfailed (gb_ref a q b2)"
  shows "added into X (T \<union> S) b0 (gb_ref a q b2)"
proof -
  obtain Q where Q: "Q \<subseteq> done_rules X b" "alts_of b into = alts_of b0 into \<union> (\<lambda>q. [ARule q]) ` Q"
      "(\<Union>q \<in> Q. lang b q) = T" and b: "good X b" "grows {into} b0 b"
    using ad by (auto simp: added_def)
  have le: "n_rules b0 \<le> n_rules b" using b(2) by (simp add: grows_def)
  note A = good_alt(1,3) [OF al b(1) into(1) ok(1)] good_alt(2) [OF al b(1) into(1) ok(1), of "{}"]
  from sub [OF ok(1) A(1) ok(2)] have s: "good X b2" "grows {} b1 b2" "q \<in> done_rules X b2" "lang b2 q = S" by auto
  have o: "opened a into [] {} b b2" by (rule opened_then_grows [OF A(3) s(2)]) simp
  note R = good_ref [OF ok(3) s(1) o into(1)] and O = ref_others [OF ok(3) s(1) o into(1)]
  have o': "opened a into [ARule q] {} b (gb_ref a q b2)" using R(2) by simp
  have g: "grows {into} b (gb_ref a q b2)" by (rule opened_grows [OF o'])
  have "alts_of (gb_ref a q b2) into = insert [ARule q] (alts_of b into)"
    by (rule alts_opened [OF o' b(1) R(1)]) (use into le in auto)
  moreover have "lang (gb_ref a q b2) p = lang b p \<and> p \<in> done_rules X (gb_ref a q b2)" if "p \<in> Q" for p
    using lang_grows [OF g b(1) R(1)] done_grows [OF g] that Q(1) into(1) by blast
  moreover have "lang (gb_ref a q b2) q = S \<and> q \<in> done_rules X (gb_ref a q b2)" using O s(3,4) by simp
  ultimately have "insert q Q \<subseteq> done_rules X (gb_ref a q b2)"
    "alts_of (gb_ref a q b2) into = alts_of b0 into \<union> (\<lambda>q. [ARule q]) ` insert q Q"
    "(\<Union>p \<in> insert q Q. lang (gb_ref a q b2) p) = T \<union> S"
    using Q by auto
  moreover have "grows {into} b0 (gb_ref a q b2)" by (rule grows_trans [OF b(2) g]) simp
  ultimately show ?thesis unfolding added_def using R(1) by blast
qed

lemma fails_length_round:
  assumes "gfailed (snd st)"
  shows "gfailed (snd (length_round into a hi len st))"
proof -
  obtain d b where st: "st = (d, b)" by force
  obtain x b1 where al: "gb_alt into b = (x, b1)" by force
  have b1: "gfailed b1" using fails_alt [of b into] assms st al by simp
  have "gfailed (gb_ref x q b2)" if "state len True True 0 (d', b1) = (q, d2, b2)" for d' q d2 b2
    using fails_ref fails_state [OF b1, of len True True 0 d'] that by simp
  then show ?thesis
    using assms unfolding length_round_def st prod.case Let_def al
    by (auto simp del: state.simps split: prod.split)
qed

text \<open>After the lengths below \<open>len\<close>: the numbers with fewer digits are written.\<close>

definition round_lo :: "nat \<Rightarrow> nat \<Rightarrow> nat" where
  "round_lo a len = max a (if len = 1 then 0 else 10 ^ (len - 1))"

definition round_up :: "nat \<Rightarrow> nat \<Rightarrow> nat" where
  "round_up hi len = min hi (10 ^ len - 1)"

lemma round_bounds:
  assumes "0 < len" "round_lo a len \<le> round_up hi len"
  shows "10 ^ (len - 1) \<le> round_lo a len \<or> len = 1" "round_up hi len < 10 ^ len"
    "ndigits (round_lo a len) = len" "ndigits (round_up hi len) = len"
proof -
  show b: "10 ^ (len - 1) \<le> round_lo a len \<or> len = 1" by (simp add: round_lo_def)
  have "(0::nat) < 10 ^ len" by simp
  then show u: "round_up hi len < 10 ^ len" by (simp add: round_up_def min_less_iff_disj)
  show "ndigits (round_lo a len) = len" "ndigits (round_up hi len) = len"
    using length_dec_iff [OF assms(1)] b u assms(2) length_dec by auto
qed

lemma length_round_eq:
  assumes "0 < len"
  shows "length_round into a hi len (d, b) =
    (if round_lo a len > round_up hi len then (d, b)
     else let d' = d\<lparr>dp_len := len, dp_lo := put_digits len (round_lo a len) (dp_lo d),
                dp_hi := put_digits len (round_up hi len) (dp_hi d),
                dp_edge := replicate ((MAG_DIGITS + 1) * 4 * dp_m d) NONE\<rparr>;
              (x, b) = gb_alt into b; (q, d, b) = state len True True 0 (d', b)
          in (d, gb_ref x q b))"
proof -
  define p10 :: nat where "p10 = 10 ^ (len - 1)"
  have p: "p10 * 10 = 10 ^ len" using assms by (simp add: p10_def flip: power_Suc2)
  then have top: "(if len = MAG_DIGITS then MAG_MAX else p10 * 10 - 1) = 10 ^ len - 1"
    by (simp add: MAG_MAX_def MAG_DIGITS_def)
  have lo: "(if (if len = 1 then 0 else p10) < a then a else if len = 1 then 0 else p10) = round_lo a len"
    by (auto simp: round_lo_def p10_def)
  have up: "(if 10 ^ len - 1 > hi then hi else 10 ^ len - 1) = round_up hi len" by (auto simp: round_up_def)
  show ?thesis
  proof (cases "round_lo a len > round_up hi len")
    case True
    then show ?thesis
      by (simp only: length_round_def prod.case Let_def p10_def [symmetric] top lo up if_True)
  next
    case False
    with round_bounds [OF assms, of a hi]
    have nd: "(ndigits (round_lo a len) \<noteq> len \<or> ndigits (round_up hi len) \<noteq> len) = False" by auto
    have sel: "dp_lo (d\<lparr>dp_len := len\<rparr>) = dp_lo d" "dp_hi (d\<lparr>dp_len := len\<rparr>) = dp_hi d" "dp_m (d\<lparr>dp_len := len\<rparr>) = dp_m d"
      by simp_all
    show ?thesis
      unfolding length_round_def prod.case Let_def p10_def [symmetric] top lo up nd if_False sel by (rule refl)
  qed
qed

lemma length_round_step:
  assumes len: "0 < len" "len \<le> MAG_DIGITS" and m: "0 < m" and hi: "hi \<le> MAG_MAX" and ah: "a \<le> hi"
    and into: "into \<in> X" "into < n_rules b0"
    and ad: "added into X (if len = 1 then {} else texts a (min hi (10 ^ (len - 1) - 1)) m) b0 b" and d: "dp_fits m X b d"
    and ok: "\<not> gfailed (snd (length_round into a hi len (d, b)))"
  shows "added into X (texts a (min hi (10 ^ len - 1)) m) b0 (snd (length_round into a hi len (d, b))) \<and>
    dp_fits m X (snd (length_round into a hi len (d, b))) (fst (length_round into a hi len (d, b)))"
proof -
  let ?lo = "round_lo a len" and ?up = "round_up hi len"
  let ?T = "if len = 1 then {} else texts a (min hi (10 ^ (len - 1) - 1)) m"
  have T: "?T \<union> texts ?lo ?up m = texts a (min hi (10 ^ len - 1)) m"
  proof (cases "len = 1")
    case True
    then show ?thesis by (simp add: round_lo_def round_up_def)
  next
    case False
    define p :: nat where "p = 10 ^ (len - 1)"
    have p: "0 < p" "p * 10 = 10 ^ len" using len(1) by (auto simp: p_def simp flip: power_Suc2)
    then have "min (min hi (10 ^ len - 1)) (p - 1) = min hi (p - 1)" by simp
    then show ?thesis
      using False p texts_split [of a "min hi (10 ^ len - 1)" m "p - 1"]
      by (simp add: round_lo_def round_up_def p_def)
  qed
  show ?thesis
  proof (cases "?lo > ?up")
    case True
    then have "texts ?lo ?up m = {}" by (auto simp: texts_def)
    then show ?thesis using ad d T True by (simp add: length_round_eq [OF len(1)])
  next
    case False
    then have le: "?lo \<le> ?up" by simp
    note bound = round_bounds(1) [OF len(1) le] le round_bounds(2) [OF len(1) le]
    define d' where "d' = d\<lparr>dp_len := len, dp_lo := put_digits len ?lo (dp_lo d),
       dp_hi := put_digits len ?up (dp_hi d), dp_edge := replicate ((MAG_DIGITS + 1) * 4 * m) NONE\<rparr>"
    have dm: "dp_m d = m" using d by (simp add: dp_fits_def)
    obtain x b1 where al: "gb_alt into b = (x, b1)" by force
    obtain q d2 b2 where st: "state len True True 0 (d', b1) = (q, d2, b2)"
      by (cases "state len True True 0 (d', b1)")
    have res: "length_round into a hi len (d, b) = (d2, gb_ref x q b2)"
      unfolding length_round_eq [OF len(1)] dm d'_def [symmetric] using False al st by (simp add: Let_def)
    have ok3: "\<not> gfailed (gb_ref x q b2)" using ok res by simp
    then have ok2: "\<not> gfailed b2" using fails_ref by blast
    then have ok1: "\<not> gfailed b1" using fails_state [of b1 len True True 0 d'] st by auto
    have b: "good X b" using ad by (simp add: added_def)
    note A = good_alt(1,3) [OF al b into(1) ok1] good_alt(2) [OF al b into(1) ok1, of "{}"]
    have "free_ok m MAG_DIGITS X b1 (dp_free d)"
      by (rule free_ok_grows [OF _ opened_grows [OF A(3)] b A(1)]) (use d into(1) in \<open>auto simp: dp_fits_def\<close>)
    then have "dp_fits m X b1 d" using d by (simp add: dp_fits_def)
    note S = length_state [OF this A(1) m len bound d'_def st ok2]
    have added: "added into X (?T \<union> texts ?lo ?up m) b0 (gb_ref x q b2)"
      by (rule added_one [OF ad into al _ ok1 ok2 ok3]) (use S in blast)
    have "opened x into [] {} b b2" by (rule opened_then_grows [OF A(3)]) (use S in auto)
    note R = ref_others [OF ok3 _ this into(1)]
    have "dp_fits m X (gb_ref x q b2) d2"
      using S R unfolding dp_fits_def free_ok_def by metis
    then show ?thesis unfolding res using added T by simp
  qed
qed

lemma same_rules_mem:
  "gprods (b\<lparr>gmem := mm\<rparr>) = gprods b" "good X (b\<lparr>gmem := mm\<rparr>) = good X b" "aprods (b\<lparr>gmem := mm\<rparr>) = aprods b"
  "done_rules X (b\<lparr>gmem := mm\<rparr>) = done_rules X b" "alts_of (b\<lparr>gmem := mm\<rparr>) r = alts_of b r"
proof -
  show a: "aprods (b\<lparr>gmem := mm\<rparr>) = aprods b" by (simp add: aprods_def)
  then show g: "gprods (b\<lparr>gmem := mm\<rparr>) = gprods b" by (simp add: gprods_def)
  then show "alts_of (b\<lparr>gmem := mm\<rparr>) r = alts_of b r" by (simp add: alts_of_def)
  show "done_rules X (b\<lparr>gmem := mm\<rparr>) = done_rules X b" by (simp add: done_rules_def)
  show "good X (b\<lparr>gmem := mm\<rparr>) = good X b"
    using a g by (simp add: good_def settled_def rules_known_def gb_inv_def)
qed

lemma magnitudes_spec:
  assumes b: "good X b0" and into: "into \<in> X" and m: "0 < m" and hi: "hi \<le> MAG_MAX"
    and res: "magnitudes into a hi m b0 = (True, b')" and ok: "\<not> gfailed b'"
  shows "added into X (texts a hi m) b0 b'"
proof (cases "a > hi")
  case True
  then have "b' = b0" "texts a hi m = {}" using res by (auto simp: magnitudes_def texts_def)
  then show ?thesis using added_none b ok by simp
next
  case False
  obtain ok1 b1 ok2 b2 where rq: "gb_request b0 = (ok1, b1)" "gb_request b1 = (ok2, b2)" by fastforce
  obtain mm where b2: "b2 = b0\<lparr>gmem := mm\<rparr>" using gb_requestD [OF rq(1)] gb_requestD [OF rq(2)] by auto
  define d where "d = \<lparr>dp_len = 0, dp_lo = replicate (MAG_DIGITS + 1) 0, dp_hi = replicate (MAG_DIGITS + 1) 0,
                   dp_m = m, dp_edge = replicate ((MAG_DIGITS + 1) * 4 * m) NONE,
                   dp_free = replicate ((MAG_DIGITS + 1) * m) NONE\<rparr>"
  have fold: "b' = snd (fold (length_round into a hi) [1..<MAG_DIGITS + 1] (d, b2))"
    using res False rq by (auto simp: magnitudes_def d_def split: if_splits)
  have "done_rules X b2 = done_rules X b0" "alts_of b2 into = alts_of b0 into" "good X b2"
    "grows {into} b0 b2" if "\<not> gfailed b2"
    using b that unfolding b2 by (simp_all add: same_rules_mem grows_def)
  then have start: "added into X {} b0 b2" if "\<not> gfailed b2" using that by (auto simp: added_def)
  define P where "P = (\<lambda>len (d, b). \<not> gfailed b \<longrightarrow>
    added into X (if len = 1 then {} else texts a (min hi (10 ^ (len - 1) - 1)) m) b0 b \<and> dp_fits m X b d)"
  have "P (MAG_DIGITS + 1) (fold (length_round into a hi) [1..<MAG_DIGITS + 1] (d, b2))"
  proof (rule fold_upt_invariant)
    have "dp_fits m X b2 d"
      using slot_less_size by (auto simp: dp_fits_def d_def free_ok_def)
    then show "P 1 (d, b2)" using start by (simp add: P_def)
  next
    fix len and st :: "dp \<times> gbuild"
    assume len: "1 \<le> len" "len < MAG_DIGITS + 1" and P: "P len st"
    obtain d1 b1 where st: "st = (d1, b1)" by force
    show "P (Suc len) (length_round into a hi len st)"
    proof (cases "gfailed (snd (length_round into a hi len st))")
      case True
      then show ?thesis by (simp add: P_def case_prod_beta)
    next
      case False
      then have "\<not> gfailed b1" using fails_length_round st by force
      then have I: "added into X (if len = 1 then {} else texts a (min hi (10 ^ (len - 1) - 1)) m) b0 b1" "dp_fits m X b1 d1"
        using P by (simp_all add: P_def st)
      have n: "into < n_rules b0" using b into by (auto simp: good_def)
      show ?thesis
        using length_round_step [OF _ _ m hi _ into n I] False len \<open>\<not> a > hi\<close>
        unfolding st by (simp add: P_def case_prod_beta)
    qed
  qed (simp add: MAG_DIGITS_def)
  moreover have "min hi (10 ^ MAG_DIGITS - 1) = hi" using hi by (simp add: MAG_MAX_def MAG_DIGITS_def)
  ultimately show ?thesis
    using ok fold by (simp add: P_def case_prod_beta MAG_DIGITS_def)
qed

end
