(* ===== verification/Schema_Range.thy ===== *)
theory Schema_Range
  imports Schema_Int
begin

text \<open>
  \<open>janas_jsg_int_bounded\<close>: the rule it makes has the decimal texts of exactly the integers the
  schema lets through, as long as the doubles of its bounds are exact.
\<close>

section \<open>The two rules of a range of integers\<close>

definition neg_texts :: "nat \<Rightarrow> nat \<Rightarrow> nat \<Rightarrow> gsym list set" where
  "neg_texts a hi m = (#) (Byte 0x2d) ` texts a hi m"

lemma lang_of_added:
  assumes "added q X T b b'" and "alts_of b q = {}"
  shows "lang b' q = T"
proof -
  obtain Q where Q: "alts_of b' q = (\<lambda>q. [ARule q]) ` Q" "(\<Union>p \<in> Q. lang b' p) = T"
    using assms by (auto simp: added_def)
  show ?thesis unfolding lang_alts [of b' q] Q(1) using Q(2) by (auto simp: derives_rule)
qed

lemma added_done:
  assumes "added q (insert q X) T b b'" and "alts_of b q = {}" and "q \<notin> X"
  shows "good X b'" "q \<in> done_rules X b'"
proof -
  have "refs ys \<subseteq> insert q (done_rules (insert q X) b')" if "ys \<in> alts_of b' q" for ys
    using that assms(1,2) by (fastforce simp: added_def)
  with good_finish [of q X b'] assms(1,3) show "good X b'" "q \<in> done_rules X b'" by (auto simp: added_def)
qed

lemma fails_magnitudes: "gfailed b \<Longrightarrow> gfailed (snd (magnitudes into a hi m b))"
proof -
  assume b: "gfailed b"
  have rq: "gfailed b2" if "gb_request b1 = (ok, b2)" "gfailed b1" for b1 ok b2
    using gb_requestD [OF that(1)] that(2) by auto
  have "gfailed (snd (fold (length_round into a hi) ns st))" if "gfailed (snd st)" for ns st
    using that by (intro fold_invariant_list [where P = "\<lambda>st. gfailed (snd st)"] fails_length_round)
  then show ?thesis using b by (auto simp: magnitudes_def simp del: upt_Suc dest!: rq split: prod.split)
qed

text \<open>The second rule, and the alternative with the sign that refers to it.\<close>

lemma negated_rule:
  assumes A: "added q (insert q X) T b1 b2" "q \<notin> X" "alts_of b1 q = {}" and neg: "gb_rule b2 = (neg, b3)"
    and mag: "magnitudes neg a hi m b3 = (True, b4)" "hi \<le> MAG_MAX" "0 < m" and al: "gb_alt q b4 = (x, b5)"
    and ok: "\<not> gfailed b3" "\<not> gfailed b4" "\<not> gfailed b5" "\<not> gfailed (gb_byte x 0x2d b5)"
      "\<not> gfailed (gb_ref x neg (gb_byte x 0x2d b5))"
  shows "good X (gb_ref x neg (gb_byte x 0x2d b5)) \<and> q \<in> done_rules X (gb_ref x neg (gb_byte x 0x2d b5)) \<and>
    lang (gb_ref x neg (gb_byte x 0x2d b5)) q = T \<union> neg_texts a hi m"
proof -
  let ?X = "insert q X" and ?b6 = "gb_byte x 0x2d b5"
  let ?b' = "gb_ref x neg ?b6"
  obtain Q where b2: "good ?X b2" and Q: "Q \<subseteq> done_rules ?X b2" "alts_of b2 q = (\<lambda>q. [ARule q]) ` Q" "(\<Union>p \<in> Q. lang b2 p) = T"
    using A(1,3) by (auto simp: added_def)
  have q: "q < n_rules b2" using b2 by (auto simp: good_def)
  note 3 = good_rule [OF neg b2 ok(1)]
  have M: "added neg (insert neg ?X) (texts a hi m) b3 b4"
    by (rule magnitudes_spec [OF 3(1) insertI1 mag(3,2,1) ok(2)])
  note N = lang_of_added [OF M 3(6)] added_done [OF M 3(6) 3(5)]
  have g4: "grows {} b2 b4"
    by (rule grows_trans [OF 3(2)]) (use M 3(3) in \<open>auto simp: added_def\<close>)
  note 5 = good_alt(1) [OF al N(2) insertI1 ok(3)] good_alt(2) [OF al N(2) insertI1 ok(3), of "{}"]
  note 6 = good_byte [OF ok(4) 5 insertI1]
  note 7 = good_ref [OF ok(5) 6(1,2) insertI1]
  have o: "opened x q [ASet {0x2d}, ARule neg] {} b4 ?b'" using 7(2) by simp
  have g: "grows {q} b4 ?b'" by (rule opened_grows [OF o])
  have g2: "grows {q} b2 ?b'" by (rule grows_trans [OF grows_mono [OF g4] g]) auto
  have "alts_of ?b' q = insert [ASet {0x2d}, ARule neg] (alts_of b4 q)"
    by (rule alts_opened [OF o N(2) 7(1)]) (use q g4 in \<open>auto simp: grows_def\<close>)
  moreover have "alts_of b4 q = alts_of b2 q" by (rule alts_grows [OF g4 b2 N(2) q]) simp
  ultimately have alts: "alts_of ?b' q = insert [ASet {0x2d}, ARule neg] ((\<lambda>q. [ARule q]) ` Q)" using Q(2) by simp
  have lneg: "lang ?b' neg = texts a hi m" "neg \<in> done_rules ?X ?b'"
    using lang_grows [OF g N(2) 7(1) _ N(3)] done_grows [OF g N(3)] N(1) by auto
  have old: "lang ?b' p = lang b2 p" "p \<in> done_rules ?X ?b'" if "p \<in> Q" for p
    using lang_grows [OF g2 b2 7(1)] done_grows [OF g2] that Q(1) by auto
  have "lang ?b' q = T \<union> neg_texts a hi m"
    unfolding lang_alts [of ?b' q] alts neg_texts_def
    using lneg(1) old(1) Q(3) by (auto simp: derives_set_rule derives_rule)
  moreover have "refs ys \<subseteq> insert q (done_rules ?X ?b')" if "ys \<in> alts_of ?b' q" for ys
    using that lneg(2) old(2) unfolding alts by auto
  ultimately show ?thesis using good_finish [of q X ?b'] 7(1) A(2) by auto
qed

lemma int_bounded_lang:
  assumes b: "good X b" and res: "int_bounded fl bd relaxed b = (r, relaxed', b')" and r: "r \<noteq> NONE"
    and ok: "\<not> gfailed b'" and mult: "mult_of fl bd relaxed = (m, relaxed')" "0 < m" and rg: "int_range fl bd = (L, H)"
  shows "good X b' \<and> r \<in> done_rules X b' \<and> lang b' r =
    (if L > H then {}
     else (if H \<ge> 0 then texts (clamp_mag L) (clamp_mag H) m else {}) \<union>
       (if L < 0 then neg_texts (max 1 (clamp_mag (- H))) (clamp_mag (- L)) m else {}))"
proof -
  obtain q b1 where rl: "gb_rule b = (q, b1)" by force
  have top: "clamp_mag x \<le> MAG_MAX" for x :: rat
  proof -
    have "nat \<lfloor>x\<rfloor> \<le> MAG_MAX" if "x < DMAG"
    proof -
      have "\<lfloor>x\<rfloor> < 1000000000000000000" using that unfolding DMAG_def by (simp add: floor_less_iff)
      then show ?thesis unfolding MAG_MAX_def by linarith
    qed
    then show ?thesis by (simp add: clamp_mag_def)
  qed
  have cl0: "clamp_mag x = 0" if "x \<le> 0" for x using that by (simp add: clamp_mag_def)
  have a: "(let a = if H < 0 then clamp_mag (- H) else 1 in if a \<noteq> 0 then a else 1) = max 1 (clamp_mag (- H))"
    using cl0 [of "- H"] by (auto simp: Let_def max_def)
  show ?thesis
  proof (cases "L > H")
    case True
    then have "r = q" "b' = b1" using res rl mult rg by (simp_all add: int_bounded_def)
    with good_rule [OF rl b] ok have "good (insert r X) b'" "alts_of b' r = {}" "r \<notin> X" by auto
    then show ?thesis using True good_finish [of r X b'] by (auto simp: lang_alts)
  next
    case LH: False
    obtain ok1 b2 where 2: "(if H \<ge> 0 then magnitudes q (clamp_mag L) (clamp_mag H) m b1 else (True, b1)) = (ok1, b2)" by force
    let ?T1 = "if H \<ge> 0 then texts (clamp_mag L) (clamp_mag H) m else {}"
    let ?T2 = "neg_texts (max 1 (clamp_mag (- H))) (clamp_mag (- L)) m"
    have stage1: "added q (insert q X) ?T1 b1 b2 \<and> q \<notin> X \<and> alts_of b1 q = {}" if "ok1" "\<not> gfailed b2"
    proof -
      have b1: "\<not> gfailed b1" using 2 that(2) fails_magnitudes [of b1 q "clamp_mag L" "clamp_mag H" m] by (auto split: if_splits)
      note 1 = good_rule [OF rl b b1]
      have "added q (insert q X) ?T1 b1 b2"
        using 2 magnitudes_spec [OF 1(1) insertI1 mult(2) top _ that(2)] added_none [OF 1(1) b1] that(1)
        by (auto split: if_splits)
      then show ?thesis using 1 by simp
    qed
    show ?thesis
    proof (cases "L < 0")
      case False
      have "ok1 \<and> r = q \<and> b' = b2"
        using res LH False 2 rl mult(1) rg r by (auto simp: int_bounded_def split: if_splits)
      with stage1 ok have "added r (insert r X) ?T1 b1 b'" "r \<notin> X" "alts_of b1 r = {}" by auto
      with lang_of_added [OF this(1,3)] added_done [OF this(1,3,2)] False LH show ?thesis by simp
    next
      case True
      obtain neg b3 where neg: "gb_rule b2 = (neg, b3)" by force
      obtain ok2 b4 where 4: "magnitudes neg (max 1 (clamp_mag (- H))) (clamp_mag (- L)) m b3 = (ok2, b4)" by force
      obtain x b5 where al: "gb_alt q b4 = (x, b5)" by force
      have R: "ok1 \<and> ok2 \<and> r = q \<and> b' = gb_ref x neg (gb_byte x 0x2d b5)"
        using res LH True 2 rl mult(1) rg r neg 4 al a by (auto simp: int_bounded_def Let_def split: if_splits)
      then have okr: "\<not> gfailed (gb_ref x neg (gb_byte x 0x2d b5))" using ok by simp
      then have okb: "\<not> gfailed (gb_byte x 0x2d b5)" using fails by blast
      then have ok5: "\<not> gfailed b5" using fails by blast
      then have ok4: "\<not> gfailed b4" using fails_alt [of b4 q] al by auto
      then have ok3: "\<not> gfailed b3" using fails_magnitudes [of b3 neg "max 1 (clamp_mag (- H))" "clamp_mag (- L)" m] 4 by auto
      then have ok2': "\<not> gfailed b2" using fails_rule [of b2] neg by auto
      from stage1 R ok2' have A: "added q (insert q X) ?T1 b1 b2" "q \<notin> X" "alts_of b1 q = {}" by auto
      have "magnitudes neg (max 1 (clamp_mag (- H))) (clamp_mag (- L)) m b3 = (True, b4)" using 4 R by simp
      from negated_rule [OF A neg this top mult(2) al ok3 ok4 ok5 okb okr]
      show ?thesis using R LH True by simp
    qed
  qed
qed

section \<open>The integers inside the bounds\<close>

text \<open>What the keywords ask of an integer.\<close>

definition above_lo :: "bounds \<Rightarrow> int \<Rightarrow> bool" where
  "above_lo bd z \<longleftrightarrow> (has_lo bd \<longrightarrow> (if lo_x bd then b_lo bd < of_int z else b_lo bd \<le> of_int z))"

definition below_hi :: "bounds \<Rightarrow> int \<Rightarrow> bool" where
  "below_hi bd z \<longleftrightarrow> (has_hi bd \<longrightarrow> (if hi_x bd then of_int z < b_hi bd else of_int z \<le> b_hi bd))"

text \<open>A double holds every integer up to \<open>2 ^ 53\<close> exactly.\<close>

definition exact_ints :: "(rat \<Rightarrow> rat) \<Rightarrow> bool" where
  "exact_ints fl \<longleftrightarrow> (\<forall>z. \<bar>z\<bar> \<le> 2 ^ 53 \<longrightarrow> fl (of_int z) = of_int z)"

definition big :: int where "big = 1000000000000000000"

definition bounds_fit :: "bounds \<Rightarrow> bool" where
  "bounds_fit bd \<longleftrightarrow>
     (has_lo bd \<longrightarrow> (if lo_x bd then \<bar>b_lo bd\<bar> < 2 ^ 53 else b_lo bd \<le> DMAG - 1)) \<and>
     (has_hi bd \<longrightarrow> (if hi_x bd then \<bar>b_hi bd\<bar> < 2 ^ 53 else 1 - DMAG \<le> b_hi bd))"

lemma floor_bound: "\<bar>\<lfloor>x\<rfloor> + 1\<bar> \<le> (2 :: int) ^ 53" if "\<bar>x\<bar> < 2 ^ 53" for x :: rat
proof -
  define e :: int where "e = 2 ^ 53"
  have "- of_int e < x" "x < of_int e" using that by (simp_all add: e_def abs_less_iff)
  then have "- e \<le> \<lfloor>x\<rfloor>" "\<lfloor>x\<rfloor> < e" by (simp_all add: le_floor_iff floor_less_iff)
  then show ?thesis unfolding e_def [symmetric] by linarith
qed

lemma ceiling_bound: "\<bar>\<lceil>x\<rceil> - 1\<bar> \<le> (2 :: int) ^ 53" if "\<bar>x\<bar> < 2 ^ 53" for x :: rat
proof -
  have "\<bar>- x\<bar> < 2 ^ 53" using that by simp
  from floor_bound [OF this] have "\<bar>- (\<lfloor>- x\<rfloor> + 1)\<bar> \<le> 2 ^ 53" unfolding abs_minus_cancel .
  moreover have "- (\<lfloor>- x\<rfloor> + 1) = \<lceil>x\<rceil> - 1" by (simp add: ceiling_def)
  ultimately show ?thesis by (simp only:)
qed

lemma int_range_spec:
  assumes "exact_ints fl" and "bounds_fit bd" and "int_range fl bd = (L, H)"
  obtains l h where "L = of_int l" "H = of_int h" "l < big" "- big < h"
    "\<And>z. \<bar>z\<bar> < big \<Longrightarrow> l \<le> z \<longleftrightarrow> above_lo bd z" "\<And>z. \<bar>z\<bar> < big \<Longrightarrow> z \<le> h \<longleftrightarrow> below_hi bd z"
proof -
  have lo: "fl (of_int \<lfloor>b_lo bd\<rfloor> + 1) = of_int (\<lfloor>b_lo bd\<rfloor> + 1)" if "has_lo bd" "lo_x bd"
  proof -
    have "\<bar>b_lo bd\<bar> < 2 ^ 53" using assms(2) that by (simp add: bounds_fit_def)
    then have "\<bar>\<lfloor>b_lo bd\<rfloor> + 1\<bar> \<le> 2 ^ 53" by (rule floor_bound)
    then have "fl (of_int (\<lfloor>b_lo bd\<rfloor> + 1)) = of_int (\<lfloor>b_lo bd\<rfloor> + 1)" using assms(1) unfolding exact_ints_def by blast
    then show ?thesis by simp
  qed
  have hi: "fl (of_int \<lceil>b_hi bd\<rceil> - 1) = of_int (\<lceil>b_hi bd\<rceil> - 1)" if "has_hi bd" "hi_x bd"
  proof -
    have "\<bar>b_hi bd\<bar> < 2 ^ 53" using assms(2) that by (simp add: bounds_fit_def)
    then have "\<bar>\<lceil>b_hi bd\<rceil> - 1\<bar> \<le> 2 ^ 53" by (rule ceiling_bound)
    then have "fl (of_int (\<lceil>b_hi bd\<rceil> - 1)) = of_int (\<lceil>b_hi bd\<rceil> - 1)" using assms(1) unfolding exact_ints_def by blast
    then show ?thesis by simp
  qed
  define l0 where "l0 = (if has_lo bd then if lo_x bd then \<lfloor>b_lo bd\<rfloor> + 1 else \<lceil>b_lo bd\<rceil> else - big)"
  define h0 where "h0 = (if has_hi bd then if hi_x bd then \<lceil>b_hi bd\<rceil> - 1 else \<lfloor>b_hi bd\<rfloor> else big)"
  have D: "DMAG = of_int big" by (simp add: DMAG_def big_def)
  have mx: "(if (of_int x :: rat) < - of_int y then - of_int y else of_int x) = (of_int (max x (- y)) :: rat)" for x y
    by (simp add: max_def)
  have mn: "(if (of_int x :: rat) > of_int y then of_int y else of_int x) = (of_int (min x y) :: rat)" for x y
    by (simp add: min_def)
  have l0: "(if has_lo bd then if lo_x bd then fl (of_int \<lfloor>b_lo bd\<rfloor> + 1) else of_int \<lceil>b_lo bd\<rceil> else - of_int big) = of_int l0"
    using lo by (simp add: l0_def)
  have h0: "(if has_hi bd then if hi_x bd then fl (of_int \<lceil>b_hi bd\<rceil> - 1) else of_int \<lfloor>b_hi bd\<rfloor> else of_int big) = of_int h0"
    using hi by (simp add: h0_def)
  have "int_range fl bd = (of_int (max l0 (- big)), of_int (min h0 big))"
    unfolding int_range_def Let_def D l0 h0 mx mn by (rule refl)
  then have LH: "L = of_int (max l0 (- big))" "H = of_int (min h0 big)" using assms(3) by simp_all
  have dm: "of_int big = DMAG" by (simp add: D)
  have big_53: "(2 :: int) ^ 53 < big" by (simp add: big_def)
  have "l0 < big"
  proof (cases "has_lo bd")
    case True
    show ?thesis
    proof (cases "lo_x bd")
      case x: True
      then have "\<bar>b_lo bd\<bar> < 2 ^ 53" using assms(2) True by (simp add: bounds_fit_def)
      then have "\<bar>\<lfloor>b_lo bd\<rfloor> + 1\<bar> \<le> 2 ^ 53" by (rule floor_bound)
      then have "\<lfloor>b_lo bd\<rfloor> + 1 < big" using big_53 by linarith
      then show ?thesis using True x by (simp add: l0_def)
    next
      case False
      then have "b_lo bd \<le> of_int (big - 1)" using assms(2) True dm by (simp add: bounds_fit_def)
      then have "\<lceil>b_lo bd\<rceil> \<le> big - 1" by (simp only: ceiling_le_iff)
      then show ?thesis using True False by (simp add: l0_def)
    qed
  qed (simp add: l0_def big_def)
  moreover have "- big < h0"
  proof (cases "has_hi bd")
    case True
    show ?thesis
    proof (cases "hi_x bd")
      case x: True
      then have "\<bar>b_hi bd\<bar> < 2 ^ 53" using assms(2) True by (simp add: bounds_fit_def)
      then have "\<bar>\<lceil>b_hi bd\<rceil> - 1\<bar> \<le> 2 ^ 53" by (rule ceiling_bound)
      then have "- big < \<lceil>b_hi bd\<rceil> - 1" using big_53 by linarith
      then show ?thesis using True x by (simp add: h0_def)
    next
      case False
      then have "of_int (1 - big) \<le> b_hi bd" using assms(2) True dm by (simp add: bounds_fit_def)
      then have "1 - big \<le> \<lfloor>b_hi bd\<rfloor>" by (simp only: le_floor_iff)
      then show ?thesis using True False by (simp add: h0_def)
    qed
  qed (simp add: h0_def big_def)
  ultimately have ends: "max l0 (- big) < big" "- big < min h0 big" by (simp_all add: big_def)
  have lo': "max l0 (- big) \<le> z \<longleftrightarrow> above_lo bd z" if "\<bar>z\<bar> < big" for z
  proof -
    have "\<lfloor>b_lo bd\<rfloor> + 1 \<le> z \<longleftrightarrow> b_lo bd < of_int z" unfolding add1_zle_eq by (rule floor_less_iff)
    then show ?thesis using that by (auto simp: l0_def above_lo_def ceiling_le_iff)
  qed
  have hi': "z \<le> min h0 big \<longleftrightarrow> below_hi bd z" if "\<bar>z\<bar> < big" for z
  proof -
    have "z \<le> \<lceil>b_hi bd\<rceil> - 1 \<longleftrightarrow> of_int z < b_hi bd" unfolding zle_diff1_eq by (rule less_ceiling_iff)
    then show ?thesis using that by (auto simp: h0_def below_hi_def le_floor_iff)
  qed
  from that [OF LH ends lo' hi'] show ?thesis .
qed

text \<open>A bound clamped to a magnitude bounds the same magnitudes.\<close>

lemma clamp_of_int: "clamp_mag (of_int k) = (if k \<le> 0 then 0 else if k \<ge> big then MAG_MAX else nat k)"
proof -
  have "DMAG = of_int big" by (simp add: DMAG_def big_def)
  then show ?thesis by (simp add: clamp_mag_def)
qed

lemma clamp_neg: "clamp_mag (- of_int k) = clamp_mag (of_int (- k))"
  by simp

lemma MAG_big: "int MAG_MAX = big - 1"
  by (simp add: MAG_MAX_def big_def)

lemma clamp_range:
  assumes "l < big"
  shows "clamp_mag (of_int l) \<le> n \<and> n \<le> clamp_mag (of_int h) \<and> 0 \<le> h \<longleftrightarrow> l \<le> int n \<and> int n \<le> h \<and> int n < big"
  using assms MAG_big unfolding clamp_of_int by auto

lemma dec_int_nonneg: "0 \<le> z \<Longrightarrow> dec_int z = dec (nat z)"
  and dec_int_neg: "z < 0 \<Longrightarrow> dec_int z = 0x2d # dec (nat (- z))"
  by (simp_all add: dec_int_def)

definition int_texts :: "int \<Rightarrow> int \<Rightarrow> nat \<Rightarrow> gsym list set" where
  "int_texts l h m = {map Byte (dec_int z) | z. l \<le> z \<and> z \<le> h \<and> \<bar>z\<bar> < big \<and> int m dvd z}"

lemma range_texts:
  assumes "l < big" and "- big < h" and "l \<le> h"
  shows "(if 0 \<le> h then texts (clamp_mag (of_int l)) (clamp_mag (of_int h)) m else {}) \<union>
    (if l < 0 then neg_texts (max 1 (clamp_mag (of_int (- h)))) (clamp_mag (of_int (- l))) m else {}) = int_texts l h m"
  (is "?P \<union> ?N = _")
proof -
  have image_nat: "{f z | z. 0 \<le> z \<and> Q z} = {f (int n) | n. Q (int n)}" for f :: "int \<Rightarrow> gsym list" and Q
  proof (intro subset_antisym subsetI)
    fix x assume "x \<in> {f z | z. 0 \<le> z \<and> Q z}"
    then obtain z where "x = f z" "0 \<le> z" "Q z" by blast
    then show "x \<in> {f (int n) | n. Q (int n)}" by (intro CollectI exI [of _ "nat z"]) simp
  next
    fix x assume "x \<in> {f (int n) | n. Q (int n)}"
    then obtain n where "x = f (int n)" "Q (int n)" by blast
    then show "x \<in> {f z | z. 0 \<le> z \<and> Q z}" by (intro CollectI exI [of _ "int n"]) simp
  qed
  have P: "?P = {map Byte (dec_int z) | z. 0 \<le> z \<and> l \<le> z \<and> z \<le> h \<and> \<bar>z\<bar> < big \<and> int m dvd z}"
  proof -
    have "?P = {map Byte (dec n) | n. l \<le> int n \<and> int n \<le> h \<and> int n < big \<and> m dvd n}"
      unfolding texts_def using clamp_range [OF assms(1), of _ h] by auto
    also have "\<dots> = {map Byte (dec_int z) | z. 0 \<le> z \<and> l \<le> z \<and> z \<le> h \<and> \<bar>z\<bar> < big \<and> int m dvd z}"
      unfolding image_nat by (simp add: dec_int_nonneg)
    finally show ?thesis .
  qed
  have N: "?N = {map Byte (dec_int z) | z. z < 0 \<and> l \<le> z \<and> z \<le> h \<and> \<bar>z\<bar> < big \<and> int m dvd z}"
  proof (rule set_eqI)
    fix w
    have "w \<in> ?N \<longleftrightarrow> (\<exists>n. w = map Byte (dec_int (- int n)) \<and> 1 \<le> n \<and> l \<le> - int n \<and> - int n \<le> h \<and> int n < big \<and> m dvd n)"
    proof (cases "l < 0")
      case True
      have ends: "max 1 (clamp_mag (of_int (- h))) \<le> n \<and> n \<le> clamp_mag (of_int (- l)) \<longleftrightarrow>
          1 \<le> n \<and> l \<le> - int n \<and> - int n \<le> h \<and> int n < big" for n
        using clamp_range [of "- h" n "- l"] assms(2) True by auto
      have neg: "dec_int (- int n) = 0x2d # dec n" if "1 \<le> n" for n using that by (simp add: dec_int_neg)
      have "w \<in> ?N \<longleftrightarrow> (\<exists>n. w = map Byte (0x2d # dec n) \<and>
          (max 1 (clamp_mag (of_int (- h))) \<le> n \<and> n \<le> clamp_mag (of_int (- l))) \<and> m dvd n)"
        unfolding neg_texts_def texts_def if_P [OF True] image_def by (simp only: mem_Collect_eq bex_simps list.map) blast
      then show ?thesis unfolding ends by (metis neg)
    qed auto
    also have "\<dots> \<longleftrightarrow> (\<exists>z. w = map Byte (dec_int z) \<and> z < 0 \<and> l \<le> z \<and> z \<le> h \<and> \<bar>z\<bar> < big \<and> int m dvd z)"
    proof
      assume "\<exists>n. w = map Byte (dec_int (- int n)) \<and> 1 \<le> n \<and> l \<le> - int n \<and> - int n \<le> h \<and> int n < big \<and> m dvd n"
      then obtain n where "w = map Byte (dec_int (- int n))" "1 \<le> n" "l \<le> - int n" "- int n \<le> h" "int n < big" "m dvd n" by blast
      then show "\<exists>z. w = map Byte (dec_int z) \<and> z < 0 \<and> l \<le> z \<and> z \<le> h \<and> \<bar>z\<bar> < big \<and> int m dvd z"
        by (intro exI [of _ "- int n"]) simp
    next
      assume "\<exists>z. w = map Byte (dec_int z) \<and> z < 0 \<and> l \<le> z \<and> z \<le> h \<and> \<bar>z\<bar> < big \<and> int m dvd z"
      then obtain z where z: "w = map Byte (dec_int z)" "z < 0" "l \<le> z" "z \<le> h" "\<bar>z\<bar> < big" "int m dvd z" by blast
      then show "\<exists>n. w = map Byte (dec_int (- int n)) \<and> 1 \<le> n \<and> l \<le> - int n \<and> - int n \<le> h \<and> int n < big \<and> m dvd n"
        by (intro exI [of _ "nat (- z)"]) (simp flip: int_dvd_int_iff)
    qed
    finally show "w \<in> ?N \<longleftrightarrow> w \<in> {map Byte (dec_int z) | z. z < 0 \<and> l \<le> z \<and> z \<le> h \<and> \<bar>z\<bar> < big \<and> int m dvd z}" by simp
  qed
  have "z < 0 \<or> 0 \<le> z" for z :: int by linarith
  then show ?thesis unfolding P N int_texts_def by blast
qed

section \<open>When every request is granted\<close>

definition granted :: "nat \<Rightarrow> gbuild \<Rightarrow> bool" where
  "granted k b \<longleftrightarrow> roomy b \<and> k \<le> length (alts b)"

lemma granted_rule: "granted k b \<Longrightarrow> granted k (snd (gb_rule b))"
  by (auto simp: granted_def gb_rule_def roomy_def)

lemma granted_alt: "granted k b \<Longrightarrow> gb_alt r b = (a, b') \<Longrightarrow> granted (Suc a) b' \<and> granted k b'"
  using gb_alt_granted [of b r a b'] by (auto simp: granted_def)

lemma granted_new_alt: "granted k b \<Longrightarrow> granted k (snd (gb_alt r b))"
  using granted_alt [of k b r] by (cases "gb_alt r b") auto

lemma granted_mono: "granted k b \<Longrightarrow> j \<le> k \<Longrightarrow> granted j b"
  by (simp add: granted_def)

lemma granted_ops:
  assumes "granted (Suc a) b"
  shows "granted k b \<Longrightarrow> granted k (gb_set a s b)" "granted k b \<Longrightarrow> granted k (gb_byte a c b)"
    "granted k b \<Longrightarrow> granted k (gb_ref a r b)"
  using assms gb_set_granted [of b a s] gb_byte_granted [of b a c] gb_ref_granted [of b a r]
  by (auto simp: granted_def)

text \<open>One alternative: opened, given a set of bytes and, once its state is made, the reference.\<close>

lemma granted_edge:
  assumes sub: "\<And>j b d. granted j b \<Longrightarrow> granted j (snd (snd (sub (d, b))))"
    and b: "granted k b" and al: "gb_alt rule b = (a, b1)" and st: "sub (d, gb_set a s b1) = (q, d2, b2)"
  shows "granted k (gb_ref a q b2)"
proof -
  have 1: "granted (Suc a) b1" "granted k b1" using granted_alt [OF b al] by auto
  have 2: "granted (Suc a) b2" "granted k b2"
    using sub [OF granted_ops(1) [OF 1(1,1), of s], of d] sub [OF granted_ops(1) [OF 1, of s], of d] st by simp_all
  then show ?thesis by (rule granted_ops(3))
qed

lemma granted_free_digit:
  assumes "\<And>j nr d b. granted j b \<Longrightarrow> granted j (snd (snd (sub nr (d, b))))" and "granted k (snd (snd st))"
  shows "granted k (snd (snd (free_digit m r rule sub dg st)))"
proof -
  obtain taken d b where st: "st = (taken, d, b)" by (cases st)
  obtain a b1 where al: "gb_alt rule b = (a, b1)" by force
  show ?thesis
    using assms(2) granted_edge [where sub = "sub ((r * 10 + dg) mod m)", OF assms(1) _ al] unfolding st
    by (auto simp: free_digit_def Let_def al split: prod.split)
qed

lemma granted_free_state: "granted k b \<Longrightarrow> granted k (snd (snd (free_state left r (d, b))))"
proof (induction left arbitrary: k r d b)
  case 0
  then show ?case using granted_rule [of k b] granted_new_alt
    by (auto simp: Let_def split: prod.split)
next
  case (Suc left)
  have "granted k (snd (snd (fold (free_digit (dp_m d) r rule (free_state left)) ns st)))"
    if "granted k (snd (snd st))" for rule ns st
    using that by (intro fold_invariant_list [where P = "\<lambda>st. granted k (snd (snd st))"] granted_free_digit Suc.IH)
  then show ?case using Suc.prems granted_rule [OF Suc.prems] by (auto simp: Let_def split: prod.split)
qed

lemma granted_state: "granted k b \<Longrightarrow> granted k (snd (snd (state left tlo thi r (d, b))))"
proof (induction left arbitrary: k tlo thi r d b)
  case 0
  then show ?case using granted_rule [of k b] granted_new_alt granted_free_state [OF 0, of 0 r d]
    by (auto simp: Let_def simp del: free_state.simps split: prod.split)
next
  case (Suc left)
  have step: "granted k (snd (edge_run m r rule tight (state left) run st))" if "granted k (snd st)" for m rule tight run st
  proof -
    obtain dg e d b where [simp]: "run = (dg, e)" "st = (d, b)" by (metis surj_pair)
    obtain a b1 where al: "gb_alt rule b = (a, b1)" by force
    show ?thesis
      using granted_edge [where sub = "state left (fst (tight dg)) (snd (tight dg)) ((r * 10 + dg) mod m)", OF Suc.IH _ al] that
      by (auto simp: edge_run_def Let_def al split: prod.split)
  qed
  have "granted k (snd (fold (edge_run m r rule tight (state left)) ns st))" if "granted k (snd st)" for m rule tight ns st
    using that by (intro fold_invariant_list [where P = "\<lambda>st. granted k (snd st)"] step)
  then show ?case
    using Suc.prems granted_rule [OF Suc.prems] granted_free_state [OF Suc.prems, of "Suc left" r d]
    by (auto simp: Let_def simp del: free_state.simps split: prod.split)
qed

lemma granted_length_round:
  assumes "granted k (snd st)" and "0 < len"
  shows "granted k (snd (length_round into a hi len st))"
proof -
  obtain d b where st: "st = (d, b)" by force
  obtain x b1 where al: "gb_alt into b = (x, b1)" by force
  have 1: "granted (Suc x) b1" "granted k b1" using granted_alt [OF _ al, of k] assms(1) st by auto
  have "granted k (gb_ref x q b2)" if "state len True True 0 (d', b1) = (q, d2, b2)" for d' q d2 b2
    using granted_ops(3) [of x b2 k] granted_state [OF 1(1), of len True True 0 d'] granted_state [OF 1(2), of len True True 0 d'] that
    by simp
  then show ?thesis
    using assms unfolding length_round_eq [OF assms(2)] st al Let_def
    by (auto simp del: state.simps split: prod.split)
qed

lemma granted_magnitudes:
  assumes "granted k b"
  shows "\<exists>b'. magnitudes into a hi m b = (True, b') \<and> granted k b'"
proof -
  have rq: "gb_request b = (True, b)" using assms by (simp add: granted_def gb_request_granted)
  have "granted k (snd (fold (length_round into a hi) [1..<MAG_DIGITS + 1] st))" if "granted k (snd st)" for st
    using that by (intro fold_invariant_list [where P = "\<lambda>st. granted k (snd st)"] granted_length_round) auto
  then show ?thesis using assms by (auto simp: magnitudes_def rq simp del: upt_Suc)
qed

lemma int_bounded_granted:
  assumes "roomy b"
  shows "\<exists>relaxed' b'. int_bounded fl bd relaxed b = (n_rules b, relaxed', b') \<and> roomy b'"
proof -
  obtain q b1 where rl: "gb_rule b = (q, b1)" by force
  have q: "q = n_rules b" using rl by (simp add: gb_rule_def)
  have 1: "granted 0 b1" using granted_rule [of 0 b] assms rl by (simp add: granted_def)
  obtain m relaxed' where m: "mult_of fl bd relaxed = (m, relaxed')" by force
  obtain L H where rg: "int_range fl bd = (L, H)" by force
  obtain b2 where 2: "(if H \<ge> 0 then magnitudes q (clamp_mag L) (clamp_mag H) m b1 else (True, b1)) = (True, b2)" "granted 0 b2"
    using granted_magnitudes [OF 1, of q "clamp_mag L" "clamp_mag H" m] 1 by (cases "H \<ge> 0") auto
  obtain neg b3 where neg: "gb_rule b2 = (neg, b3)" by force
  have 3: "granted 0 b3" using granted_rule [OF 2(2)] neg by simp
  define a where "a = (if H < 0 then clamp_mag (- H) else 1)"
  obtain b4 where 4: "magnitudes neg (if a \<noteq> 0 then a else 1) (clamp_mag (- L)) m b3 = (True, b4)" "granted 0 b4"
    using granted_magnitudes [OF 3] by blast
  obtain x b5 where al: "gb_alt q b4 = (x, b5)" by force
  have 5: "granted (Suc x) b5" using granted_alt [OF 4(2) al] by simp
  have 6: "roomy (gb_ref x neg (gb_byte x 0x2d b5))"
    using granted_ops(3) [OF granted_ops(2) [OF 5 5] granted_ops(2) [OF 5 5]] by (simp add: granted_def)
  have rm: "roomy b1" "roomy b2" using 1 2(2) by (simp_all add: granted_def)
  have "int_bounded fl bd relaxed b =
      (if L > H then (q, relaxed', b1) else if L < 0 then (q, relaxed', gb_ref x neg (gb_byte x 0x2d b5)) else (q, relaxed', b2))"
    unfolding int_bounded_def m rg rl Let_def prod.case 2(1) neg a_def [symmetric] 4(1) al by simp
  then show ?thesis using q 6 rm by auto
qed

text \<open>
  C23. For a schema whose bounds a double holds exactly, the rule made by
  \<open>janas_jsg_int_bounded\<close> matches the decimal texts of exactly the integers of at most 18
  digits inside the bounds that are multiples of the modulus: no digit string with a leading
  zero, no \<open>-0\<close>, nothing outside the bounds and nothing missing.
\<close>

theorem int_bounded_texts:
  assumes "good X b" and "exact_ints fl" and "bounds_fit bd"
    and "int_bounded fl bd relaxed b = (r, relaxed', b')" and "r \<noteq> NONE" and "\<not> gfailed b'"
  shows "rule_lang (gprods b') r =
    {map Byte (dec_int z) | z. above_lo bd z \<and> below_hi bd z \<and> \<bar>z\<bar> < 10 ^ 18 \<and> int (fst (mult_of fl bd relaxed)) dvd z}"
proof -
  obtain m relaxed'' where m: "mult_of fl bd relaxed = (m, relaxed'')" by force
  have m0: "0 < m" using m by (auto simp: mult_of_def Let_def split: if_splits)
  obtain L H where rg: "int_range fl bd = (L, H)" by force
  obtain l h where R: "L = of_int l" "H = of_int h" "l < big" "- big < h"
    "\<And>z. \<bar>z\<bar> < big \<Longrightarrow> l \<le> z \<longleftrightarrow> above_lo bd z" "\<And>z. \<bar>z\<bar> < big \<Longrightarrow> z \<le> h \<longleftrightarrow> below_hi bd z"
    by (rule int_range_spec [OF assms(2,3) rg]) blast
  have rel: "relaxed'' = relaxed'" using assms(4) m rg by (auto simp: int_bounded_def Let_def split: if_splits prod.splits)
  have "lang b' r = int_texts l h m"
  proof (cases "l > h")
    case True
    then have "int_texts l h m = {}" by (auto simp: int_texts_def)
    then show ?thesis
      using int_bounded_lang [OF assms(1,4,5,6) m [unfolded rel] m0 rg] True by (simp add: R(1,2))
  next
    case False
    then have le: "l \<le> h" by simp
    have iff: "(0 \<le> (of_int h :: rat)) = (0 \<le> h)" "((of_int l :: rat) < 0) = (l < 0)" "((of_int l :: rat) > of_int h) = False"
      using le by simp_all
    show ?thesis
      using int_bounded_lang [OF assms(1,4,5,6) m [unfolded rel] m0 rg]
      unfolding R(1,2) clamp_neg iff if_False range_texts [OF R(3,4) le] by blast
  qed
  moreover have "(10 :: int) ^ 18 = big" by (simp add: big_def)
  ultimately show ?thesis using R(5,6) m unfolding lang_def int_texts_def by auto
qed

definition demo_bounds :: bounds where
  "demo_bounds = \<lparr>has_lo = True, has_hi = True, lo_x = False, hi_x = True, has_mult = True,
     b_lo = 3, b_hi = 12, b_mult = 4\<rparr>"

definition new_build :: gbuild where
  "new_build = the (gbuild_new [])"

lemma new_build_good: "good {} new_build" "roomy new_build" "n_rules new_build = 0"
proof -
  have b: "gbuild_new [] = Some new_build" by (simp add: new_build_def gbuild_new_def)
  show "roomy new_build" "n_rules new_build = 0" by (simp_all add: new_build_def gbuild_new_def roomy_def)
  show "good {} new_build"
    using gbuild_new_inv [OF b] by (auto simp: good_def settled_def closed_rules_def rules_known_def)
qed

lemma int_bounded_texts_witness:
  "rule_lang (gprods (snd (snd (int_bounded id demo_bounds 0 new_build)))) (fst (int_bounded id demo_bounds 0 new_build))
     = {map Byte (lit ''4''), map Byte (lit ''8'')}"
proof -
  obtain relaxed' b' where res: "int_bounded id demo_bounds 0 new_build = (0, relaxed', b')" and ok: "roomy b'"
    using int_bounded_granted [OF new_build_good(2), of id demo_bounds 0] new_build_good(3) by auto
  have "exact_ints id" "bounds_fit demo_bounds" by (simp_all add: exact_ints_def bounds_fit_def demo_bounds_def DMAG_def)
  from int_bounded_texts [OF new_build_good(1) this res] ok
  have "rule_lang (gprods b') 0 = {map Byte (dec_int z) | z. above_lo demo_bounds z \<and> below_hi demo_bounds z \<and>
      \<bar>z\<bar> < 10 ^ 18 \<and> int (fst (mult_of id demo_bounds 0)) dvd z}"
    by (simp add: roomy_def NONE_def UINT32_MAX_def)
  moreover have "above_lo demo_bounds z \<and> below_hi demo_bounds z \<and> \<bar>z\<bar> < 10 ^ 18 \<and>
      int (fst (mult_of id demo_bounds 0)) dvd z \<longleftrightarrow> z = 4 \<or> z = 8" for z
  proof -
    have m: "fst (mult_of id demo_bounds 0) = 4" by (simp add: mult_of_def demo_bounds_def MULT_MAX_def)
    have "above_lo demo_bounds z \<longleftrightarrow> 3 \<le> z" "below_hi demo_bounds z \<longleftrightarrow> z < 12"
      by (simp_all add: above_lo_def below_hi_def demo_bounds_def)
    then show ?thesis unfolding m by auto
  qed
  moreover have "map Byte (dec_int 4) = map Byte (lit ''4'')" "map Byte (dec_int 8) = map Byte (lit ''8'')"
    by (simp_all add: dec_int_def dec_small of_char_def)
  moreover have "{f z | z. z = 4 \<or> z = 8} = {f 4, f 8}" for f :: "int \<Rightarrow> gsym list" by auto
  ultimately show ?thesis using res by simp
qed

text \<open>
  Past 18 digits a lower bound is clamped to the greatest number written, which is below it.
\<close>

definition top_bounds :: bounds where
  "top_bounds = \<lparr>has_lo = True, has_hi = False, lo_x = False, hi_x = False, has_mult = False,
     b_lo = DMAG, b_hi = 0, b_mult = 0\<rparr>"

lemma minimum_clamped:
  assumes "roomy b" and "good X b" and "n_rules b \<noteq> NONE" and bd: "bd = top_bounds"
    and res: "int_bounded fl bd relaxed b = (r, relaxed', b')"
  shows "map Byte (dec_int (int MAG_MAX)) \<in> rule_lang (gprods b') r \<and> \<not> above_lo bd (int MAG_MAX)"
proof -
  have r: "r \<noteq> NONE" "\<not> gfailed b'"
    using int_bounded_granted [OF assms(1), of fl bd relaxed] res assms(3) by (auto simp: roomy_def)
  have m: "mult_of fl bd relaxed = (1, relaxed)" by (simp add: mult_of_def bd top_bounds_def)
  have rel: "relaxed' = relaxed" using res m by (auto simp: int_bounded_def Let_def split: if_splits prod.splits)
  then have m': "mult_of fl bd relaxed = (1, relaxed')" using m by simp
  have rg: "int_range fl bd = (DMAG, DMAG)" by (simp add: int_range_def bd top_bounds_def DMAG_def)
  have "clamp_mag DMAG = MAG_MAX" "0 \<le> DMAG" by (simp_all add: clamp_mag_def DMAG_def)
  then have "lang b' r = texts MAG_MAX MAG_MAX 1"
    using int_bounded_lang [OF assms(2) res r m' _ rg] by (simp add: DMAG_def)
  then have "map Byte (dec_int (int MAG_MAX)) \<in> rule_lang (gprods b') r" by (auto simp: lang_def texts_def dec_int_def)
  moreover have "\<not> above_lo bd (int MAG_MAX)" by (simp add: above_lo_def bd top_bounds_def DMAG_def MAG_MAX_def)
  ultimately show ?thesis by blast
qed

text \<open>
  C24. Beyond 18 digits the bounds are not kept: with a minimum of \<open>10 ^ 18\<close> and nothing else,
  the rule made in an empty builder lets \<open>999999999999999999\<close> through, which is below it.
\<close>

theorem minimum_beyond_digits:
  "map Byte (dec_int 999999999999999999)
     \<in> rule_lang (gprods (snd (snd (int_bounded fl top_bounds relaxed new_build))))
         (fst (int_bounded fl top_bounds relaxed new_build)) \<and>
   \<not> above_lo top_bounds 999999999999999999"
proof -
  obtain r relaxed' b' where res: "int_bounded fl top_bounds relaxed new_build = (r, relaxed', b')"
    by (cases "int_bounded fl top_bounds relaxed new_build")
  have n: "n_rules new_build \<noteq> NONE" by (simp add: new_build_good NONE_def UINT32_MAX_def)
  have mx: "int MAG_MAX = 999999999999999999" by (simp add: MAG_MAX_def)
  show ?thesis
    using minimum_clamped [OF new_build_good(2,1) n refl res] unfolding res mx by simp
qed

end
