(* ===== verification/Inflate.thy ===== *)
theory Inflate
  imports Prelude "HOL-Library.Monad_Syntax"
begin

text \<open>
  \<open>src/common/inflate.c\<close>: DEFLATE in a zlib wrapping. Every read and write of an array goes
  through \<open>rd\<close> and \<open>wr\<close>, which give \<open>None\<close> outside the array, and every loop whose end depends
  on the data runs on fuel and gives \<open>None\<close> without any: \<open>Inflate_Safe\<close> shows that no input
  leads to \<open>None\<close>. The \<open>-1\<close> of the source is the value \<open>False\<close> (or no symbol) of a run that
  did return. The bits of the current byte and the values read from it are natural numbers, all
  far below the widths of their C types.
\<close>

section \<open>Checked arrays\<close>

definition rd :: "'a list \<Rightarrow> nat \<Rightarrow> 'a option" where
  "rd xs i = (if i < length xs then Some (xs ! i) else None)"

definition wr :: "'a list \<Rightarrow> nat \<Rightarrow> 'a \<Rightarrow> 'a list option" where
  "wr xs i v = (if i < length xs then Some (xs[i := v]) else None)"

fun each :: "('a \<Rightarrow> 's \<Rightarrow> 's option) \<Rightarrow> 'a list \<Rightarrow> 's \<Rightarrow> 's option" where
  "each f [] s = Some s"
| "each f (x # xs) s = do { s \<leftarrow> f x s; each f xs s }"

section \<open>Bits\<close>

record inz =
  in_p :: bytes
  in_pos :: nat
  in_bits :: nat
  in_nbits :: nat
  in_bad :: bool
  in_out :: bytes
  in_len :: nat

definition take_bit_of :: "inz \<Rightarrow> nat \<times> inz" where
  "take_bit_of s = (in_bits s mod 2, s\<lparr>in_bits := in_bits s div 2, in_nbits := in_nbits s - 1\<rparr>)"

definition bit1 :: "inz \<Rightarrow> (nat \<times> inz) option" where
  "bit1 s =
     (if in_nbits s = 0 then
        if in_pos s \<ge> length (in_p s) then Some (0, s\<lparr>in_bad := True\<rparr>)
        else do {
          c \<leftarrow> rd (in_p s) (in_pos s);
          Some (take_bit_of (s\<lparr>in_bits := unat c, in_pos := in_pos s + 1, in_nbits := 8\<rparr>)) }
      else Some (take_bit_of s))"

fun bits_from :: "nat \<Rightarrow> nat \<Rightarrow> nat \<Rightarrow> inz \<Rightarrow> (nat \<times> inz) option" where
  "bits_from i 0 v s = Some (v, s)"
| "bits_from i (Suc k) v s = do { (b, s) \<leftarrow> bit1 s; bits_from (Suc i) k (v + b * 2 ^ i) s }"

definition bitsn :: "nat \<Rightarrow> inz \<Rightarrow> (nat \<times> inz) option" where
  "bitsn n s = bits_from 0 n 0 s"

section \<open>Codes\<close>

record huff =
  h_count :: "nat list"
  h_sym :: "nat list"

definition huff_new :: huff where
  "huff_new = \<lparr>h_count = replicate 16 0, h_sym = replicate 320 0\<rparr>"

text \<open>No length has more codes than are left for it.\<close>

fun left_ok :: "int \<Rightarrow> nat list \<Rightarrow> bool" where
  "left_ok left [] = True"
| "left_ok left (c # cs) =
     (let left = left * 2 - int c in if left < 0 then False else left_ok left cs)"

definition count_len :: "nat \<Rightarrow> nat list \<Rightarrow> nat list option" where
  "count_len l cs = do { c \<leftarrow> rd cs l; wr cs l (c + 1) }"

definition put_sym :: "nat list \<Rightarrow> nat \<Rightarrow> nat list \<times> nat list \<Rightarrow> (nat list \<times> nat list) option" where
  "put_sym lens i st =
     (case st of (offs, syms) \<Rightarrow>
        do {
          l \<leftarrow> rd lens i;
          if l \<noteq> 0 then do {
            pos \<leftarrow> rd offs l;
            syms \<leftarrow> wr syms pos i;
            offs \<leftarrow> wr offs l (pos + 1);
            Some (offs, syms) }
          else Some (offs, syms) })"

definition offset :: "nat list \<Rightarrow> nat \<Rightarrow> nat list \<Rightarrow> nat list option" where
  "offset cs l offs = do { a \<leftarrow> rd offs l; c \<leftarrow> rd cs l; wr offs (l + 1) (a + c) }"

text \<open>\<open>len\<close> of the source is the list, \<open>n\<close> its length; \<open>False\<close> for the \<open>-1\<close>.\<close>

definition build :: "nat list \<Rightarrow> huff \<Rightarrow> (bool \<times> huff) option" where
  "build lens h = do {
     cs \<leftarrow> each count_len lens (replicate 16 0);
     let h = h\<lparr>h_count := cs\<rparr>;
     none \<leftarrow> rd cs 0;
     if none = length lens then Some (True, h)
     else if \<not> left_ok 1 (drop 1 cs) then Some (False, h)
     else do {
       offs \<leftarrow> each (offset cs) [1..<15] (replicate 16 0);
       (offs, syms) \<leftarrow> each (put_sym lens) [0..<length lens] (offs, h_sym h);
       Some (True, h\<lparr>h_sym := syms\<rparr>) } }"

text \<open>The lengths from \<open>l\<close> on, \<open>k\<close> of them; no symbol is the \<open>-1\<close>.\<close>

fun decode_from :: "nat \<Rightarrow> nat \<Rightarrow> nat \<Rightarrow> nat \<Rightarrow> nat \<Rightarrow> huff \<Rightarrow> inz \<Rightarrow> (nat option \<times> inz) option" where
  "decode_from l 0 code first index h s = Some (None, s\<lparr>in_bad := True\<rparr>)"
| "decode_from l (Suc k) code first index h s = do {
     (b, s) \<leftarrow> bit1 s;
     let code = code + b;
     c \<leftarrow> rd (h_count h) l;
     if code < first + c then do { y \<leftarrow> rd (h_sym h) (index + (code - first)); Some (Some y, s) }
     else if in_bad s then Some (None, s)
     else decode_from (l + 1) k (2 * code) (2 * (first + c)) (index + c) h s }"

definition decode :: "huff \<Rightarrow> inz \<Rightarrow> (nat option \<times> inz) option" where
  "decode h s = decode_from 1 15 0 0 0 h s"

section \<open>Blocks\<close>

definition LBASE :: "nat list" where
  "LBASE = [3, 4, 5, 6, 7, 8, 9, 10, 11, 13, 15, 17, 19, 23, 27, 31, 35, 43, 51, 59, 67, 83, 99, 115,
     131, 163, 195, 227, 258]"

definition LEXT :: "nat list" where
  "LEXT = replicate 8 0 @ concat (map (replicate 4) [1..<6]) @ [0]"

definition DBASE :: "nat list" where
  "DBASE = [1, 2, 3, 4, 5, 7, 9, 13, 17, 25, 33, 49, 65, 97, 129, 193, 257, 385, 513, 769, 1025, 1537,
     2049, 3073, 4097, 6145, 8193, 12289, 16385, 24577]"

definition DEXT :: "nat list" where
  "DEXT = replicate 4 0 @ concat (map (replicate 2) [1..<14])"

fun copy :: "nat \<Rightarrow> nat \<Rightarrow> inz \<Rightarrow> inz option" where
  "copy 0 dist s = Some s"
| "copy (Suc k) dist s = do {
     c \<leftarrow> rd (in_out s) (in_len s - dist);
     out \<leftarrow> wr (in_out s) (in_len s) c;
     copy k dist (s\<lparr>in_out := out, in_len := in_len s + 1\<rparr>) }"

text \<open>
  The copy a length symbol asks for, \<open>k\<close> counted from 257; \<open>cap\<close> is the length of the output
  array.
\<close>

definition back_copy :: "huff \<Rightarrow> nat \<Rightarrow> inz \<Rightarrow> (bool \<times> inz) option" where
  "back_copy dc k s =
     (if k \<ge> 29 then Some (False, s)
      else do {
        base \<leftarrow> rd LBASE k;
        ext \<leftarrow> rd LEXT k;
        (v, s) \<leftarrow> bitsn ext s;
        let len = base + v;
        (y, s) \<leftarrow> decode dc s;
        case y of
          None \<Rightarrow> Some (False, s)
        | Some ds \<Rightarrow>
            if in_bad s \<or> ds \<ge> 30 then Some (False, s)
            else do {
              base \<leftarrow> rd DBASE ds;
              ext \<leftarrow> rd DEXT ds;
              (v, s) \<leftarrow> bitsn ext s;
              let dist = base + v;
              if dist > in_len s \<or> len > length (in_out s) - in_len s then Some (False, s)
              else do { s \<leftarrow> copy len dist s; Some (True, s) } } })"

text \<open>One round of the loop per unit of fuel.\<close>

fun codes :: "nat \<Rightarrow> huff \<Rightarrow> huff \<Rightarrow> inz \<Rightarrow> (bool \<times> inz) option" where
  "codes 0 lc dc s = None"
| "codes (Suc fuel) lc dc s = do {
     (y, s) \<leftarrow> decode lc s;
     case y of
       None \<Rightarrow> Some (False, s)
     | Some y \<Rightarrow>
         if in_bad s then Some (False, s)
         else if y < 256 then
           if in_len s \<ge> length (in_out s) then Some (False, s)
           else do {
             out \<leftarrow> wr (in_out s) (in_len s) (of_nat y);
             codes fuel lc dc (s\<lparr>in_out := out, in_len := in_len s + 1\<rparr>) }
         else if y = 256 then Some (True, s)
         else do {
           (rc, s) \<leftarrow> back_copy dc (y - 257) s;
           if rc then codes fuel lc dc s else Some (False, s) } }"

definition stored :: "inz \<Rightarrow> (bool \<times> inz) option" where
  "stored s =
     (let s = s\<lparr>in_nbits := 0\<rparr> in
      if length (in_p s) - in_pos s < 4 then Some (False, s)
      else do {
        a \<leftarrow> rd (in_p s) (in_pos s);
        b \<leftarrow> rd (in_p s) (in_pos s + 1);
        c \<leftarrow> rd (in_p s) (in_pos s + 2);
        d \<leftarrow> rd (in_p s) (in_pos s + 3);
        let len = unat a + 256 * unat b;
        let nlen = unat c + 256 * unat d;
        let s = s\<lparr>in_pos := in_pos s + 4\<rparr>;
        if (len XOR 0xffff) \<noteq> nlen \<or> length (in_p s) - in_pos s < len \<or> length (in_out s) - in_len s < len
        then Some (False, s)
        else do {
          s \<leftarrow> each (\<lambda>i s. do {
                 c \<leftarrow> rd (in_p s) (in_pos s + i);
                 out \<leftarrow> wr (in_out s) (in_len s + i) c;
                 Some (s\<lparr>in_out := out\<rparr>) }) [0..<len] s;
          Some (True, s\<lparr>in_pos := in_pos s + len, in_len := in_len s + len\<rparr>) } })"

definition fixed_make :: "(huff \<times> huff) option" where
  "fixed_make = do {
     (rc, lc) \<leftarrow> build (replicate 144 8 @ replicate 112 9 @ replicate 24 7 @ replicate 8 8) huff_new;
     (rc, dc) \<leftarrow> build (replicate 30 5) huff_new;
     Some (lc, dc) }"

definition fixed :: "nat \<Rightarrow> inz \<Rightarrow> (bool \<times> inz) option" where
  "fixed fuel s = do { (lc, dc) \<leftarrow> fixed_make; codes fuel lc dc s }"

definition ORDER :: "nat list" where
  "ORDER = [16, 17, 18, 0, 8, 7, 9, 6, 10, 5, 11, 4, 12, 3, 13, 2, 14, 1, 15]"

definition code_length :: "nat \<Rightarrow> nat list \<times> inz \<Rightarrow> (nat list \<times> inz) option" where
  "code_length i st =
     (case st of (len, s) \<Rightarrow>
        do { o1 \<leftarrow> rd ORDER i; (v, s) \<leftarrow> bitsn 3 s; len \<leftarrow> wr len o1 v; Some (len, s) })"

text \<open>The lengths of both codes, \<open>total\<close> of them; the result holds whether it went well.\<close>

fun lengths :: "nat \<Rightarrow> huff \<Rightarrow> nat \<Rightarrow> nat \<Rightarrow> nat list \<Rightarrow> inz \<Rightarrow> (bool \<times> nat list \<times> inz) option" where
  "lengths 0 h tot k len s = None"
| "lengths (Suc fuel) h tot k len s =
     (if k \<ge> tot then Some (True, len, s)
      else do {
        (y, s) \<leftarrow> decode h s;
        case y of
          None \<Rightarrow> Some (False, len, s)
        | Some y \<Rightarrow>
            if in_bad s then Some (False, len, s)
            else if y < 16 then do { len \<leftarrow> wr len k y; lengths fuel h tot (k + 1) len s }
            else if y = 16 \<and> k = 0 then Some (False, len, s)
            else do {
              v \<leftarrow> (if y = 16 then rd len (k - 1) else Some 0);
              (x, s) \<leftarrow> bitsn (if y = 16 then 2 else if y = 17 then 3 else 7) s;
              let rep = (if y = 16 \<or> y = 17 then 3 else 11) + x;
              if k + rep > tot then Some (False, len, s)
              else do {
                len \<leftarrow> each (\<lambda>i len. wr len i v) [k..<k + rep] len;
                lengths fuel h tot (k + rep) len s } } })"

definition dynamic :: "nat \<Rightarrow> inz \<Rightarrow> (bool \<times> inz) option" where
  "dynamic fuel s = do {
     (a, s) \<leftarrow> bitsn 5 s; let nlen = a + 257;
     (a, s) \<leftarrow> bitsn 5 s; let ndist = a + 1;
     (a, s) \<leftarrow> bitsn 4 s; let ncode = a + 4;
     if nlen > 286 \<or> ndist > 30 \<or> in_bad s then Some (False, s)
     else do {
       (len, s) \<leftarrow> each code_length [0..<ncode] (replicate 320 0, s);
       (rc, h) \<leftarrow> build (take 19 len) huff_new;
       if \<not> rc then Some (False, s)
       else do {
         (rc, len, s) \<leftarrow> lengths 320 h (nlen + ndist) 0 len s;
         if \<not> rc then Some (False, s)
         else do {
           e \<leftarrow> rd len 256;
           if e = 0 then Some (False, s)
           else do {
             (rc, lc) \<leftarrow> build (take nlen len) huff_new;
             if \<not> rc then Some (False, s)
             else do {
               (rc, dc) \<leftarrow> build (take ndist (drop nlen len)) huff_new;
               if \<not> rc then Some (False, s)
               else codes fuel lc dc s } } } } } }"

section \<open>The whole stream\<close>

fun zblocks :: "nat \<Rightarrow> nat \<Rightarrow> inz \<Rightarrow> (bool \<times> inz) option" where
  "zblocks 0 fuel s = None"
| "zblocks (Suc n) fuel s = do {
     (fin, s) \<leftarrow> bit1 s;
     (ty, s) \<leftarrow> bitsn 2 s;
     (rc, s) \<leftarrow> (if in_bad s then Some (False, s)
                else if ty = 0 then stored s
                else if ty = 1 then fixed fuel s
                else if ty = 2 then dynamic fuel s
                else Some (False, s));
     if \<not> rc \<or> in_bad s then Some (False, s)
     else if fin \<noteq> 0 then Some (True, s)
     else zblocks n fuel s }"

text \<open>What the caller reads in \<open>why\<close>.\<close>

datatype why = Not_Zlib | Broken | Other_Size nat nat

definition zlib_inflate :: "bytes \<Rightarrow> bytes \<Rightarrow> (why + bytes) option" where
  "zlib_inflate p out = do {
     bad \<leftarrow> (if length p < 2 then Some True
            else do {
              a \<leftarrow> rd p 0;
              b \<leftarrow> rd p 1;
              Some (unat a mod 16 \<noteq> 8 \<or> (256 * unat a + unat b) mod 31 \<noteq> 0 \<or> b AND 0x20 \<noteq> 0) });
     if bad then Some (Inl Not_Zlib)
     else do {
       let s = \<lparr>in_p = p, in_pos = 2, in_bits = 0, in_nbits = 0, in_bad = False, in_out = out, in_len = 0\<rparr>;
       (rc, s) \<leftarrow> zblocks (8 * length p) (8 * length p) s;
       if \<not> rc then Some (Inl Broken)
       else if in_len s \<noteq> length out then Some (Inl (Other_Size (in_len s) (length out)))
       else Some (Inr (in_out s)) } }"

end
