(* ===== verification/Inflate_Safe.thy ===== *)
theory Inflate_Safe
  imports Inflate
begin

text \<open>
  No input makes the decoder read or write outside an array or run on: the table of a code is
  well formed, every operation keeps the state well formed, and each round of a loop takes at
  least one bit of the input.
\<close>

section \<open>Checked arrays and loops\<close>

lemma rd_ok: "i < length xs \<Longrightarrow> rd xs i = Some (xs ! i)"
  by (simp add: rd_def)

lemma wr_ok: "i < length xs \<Longrightarrow> wr xs i v = Some (xs[i := v])"
  by (simp add: wr_def)

lemma each_inv:
  assumes "P 0 s" and "\<And>i s. i < length xs \<Longrightarrow> P i s \<Longrightarrow> \<exists>s'. f (xs ! i) s = Some s' \<and> P (Suc i) s'"
  shows "\<exists>s'. each f xs s = Some s' \<and> P (length xs) s'"
  using assms
proof (induction xs arbitrary: s P)
  case Nil
  then show ?case by simp
next
  case (Cons x xs)
  obtain s1 where s1: "f x s = Some s1" "P 1 s1" using Cons.prems(1) Cons.prems(2) [of 0 s] by auto
  have "\<exists>s'. each f xs s1 = Some s' \<and> P (Suc (length xs)) s'"
    by (rule Cons.IH [where P = "\<lambda>i. P (Suc i)"]) (use s1(2) Cons.prems(2) in \<open>force+\<close>)
  then show ?case using s1(1) by simp
qed

section \<open>The table of a code\<close>

definition cnt :: "nat list \<Rightarrow> nat \<Rightarrow> nat \<Rightarrow> nat" where
  "cnt lens l i = length (filter (\<lambda>x. x = l) (take i lens))"

text \<open>Symbols with shorter codes than \<open>l\<close>.\<close>

definition base :: "nat list \<Rightarrow> nat \<Rightarrow> nat" where
  "base lens l = (\<Sum>k = 1..<l. cnt lens k (length lens))"

lemma cnt_Suc: "i < length lens \<Longrightarrow> cnt lens l (Suc i) = cnt lens l i + (if lens ! i = l then 1 else 0)"
  by (simp add: cnt_def take_Suc_conv_app_nth)

lemma cnt_0 [simp]: "cnt lens l 0 = 0"
  by (simp add: cnt_def)

lemma cnt_mono: "i \<le> j \<Longrightarrow> cnt lens l i \<le> cnt lens l j"
proof -
  assume "i \<le> j"
  then have "take j lens = take i lens @ take (j - i) (drop i lens)" by (simp flip: take_add)
  then show ?thesis by (simp add: cnt_def)
qed

lemma cnt_less:
  assumes "j < i" and "i \<le> length lens"
  shows "cnt lens (lens ! j) j < cnt lens (lens ! j) i"
proof -
  have "cnt lens (lens ! j) (Suc j) \<le> cnt lens (lens ! j) i" by (rule cnt_mono) (use assms in simp)
  then show ?thesis using cnt_Suc [of j lens "lens ! j"] assms by simp
qed

lemma base_Suc: "0 < l \<Longrightarrow> base lens (Suc l) = base lens l + cnt lens l (length lens)"
  by (simp add: base_def)

lemma base_mono: "l \<le> k \<Longrightarrow> base lens l \<le> base lens k"
  unfolding base_def by (rule sum_mono2) auto

text \<open>Every symbol is counted at most once.\<close>

lemma counts_le: "(\<Sum>k \<in> K. cnt lens k i) \<le> i" if "finite K"
proof (induction i)
  case 0
  then show ?case by simp
next
  case (Suc i)
  show ?case
  proof (cases "i < length lens")
    case True
    have "(\<Sum>k \<in> K. cnt lens k (Suc i)) = (\<Sum>k \<in> K. cnt lens k i) + (\<Sum>k \<in> K. if lens ! i = k then 1 else 0)"
      by (simp add: cnt_Suc [OF True] sum.distrib)
    also have "(\<Sum>k \<in> K. if lens ! i = k then 1 else (0::nat)) \<le> 1" using that by (simp add: sum.delta')
    finally show ?thesis using Suc by simp
  next
    case False
    then have "cnt lens k (Suc i) = cnt lens k i" for k by (simp add: cnt_def)
    then show ?thesis using Suc by simp
  qed
qed

lemma base_le: "base lens l \<le> length lens"
  unfolding base_def by (rule counts_le) simp

definition lens_ok :: "nat list \<Rightarrow> bool" where
  "lens_ok lens \<longleftrightarrow> length lens \<le> 320 \<and> (\<forall>l \<in> set lens. l < 16)"

text \<open>What \<open>build\<close> leaves: how many codes of each length, the symbols by length and number.\<close>

definition table_ok :: "nat list \<Rightarrow> huff \<Rightarrow> bool" where
  "table_ok lens h \<longleftrightarrow> length (h_count h) = 16 \<and> length (h_sym h) = 320 \<and>
     (\<forall>l < 16. h_count h ! l = cnt lens l (length lens))"

definition table_full :: "nat list \<Rightarrow> huff \<Rightarrow> bool" where
  "table_full lens h \<longleftrightarrow>
     (\<forall>i < length lens. lens ! i \<noteq> 0 \<longrightarrow> h_sym h ! (base lens (lens ! i) + cnt lens (lens ! i) i) = i)"

lemma counts_made:
  assumes "lens_ok lens"
  shows "\<exists>cs. each count_len lens (replicate 16 0) = Some cs \<and> length cs = 16 \<and>
    (\<forall>l < 16. cs ! l = cnt lens l (length lens))"
proof (rule each_inv [where P = "\<lambda>i cs. length cs = 16 \<and> (\<forall>l < 16. cs ! l = cnt lens l i)"])
  fix i cs
  assume i: "i < length lens" and cs: "length cs = 16 \<and> (\<forall>l < 16. cs ! l = cnt lens l i)"
  then have "lens ! i < 16" using assms by (simp add: lens_ok_def)
  then show "\<exists>cs'. count_len (lens ! i) cs = Some cs' \<and> length cs' = 16 \<and> (\<forall>l < 16. cs' ! l = cnt lens l (Suc i))"
    using cs i by (auto simp: count_len_def rd_ok wr_ok cnt_Suc nth_list_update)
qed simp

lemma offsets_made:
  assumes "length cs = 16" and "\<forall>l < 16. cs ! l = cnt lens l (length lens)"
  shows "\<exists>offs. each (offset cs) [1..<15] (replicate 16 0) = Some offs \<and> length offs = 16 \<and>
    (\<forall>l. 1 \<le> l \<and> l < 16 \<longrightarrow> offs ! l = base lens l)"
proof -
  have "\<exists>offs. each (offset cs) [1..<15] (replicate 16 0) = Some offs \<and> length offs = 16 \<and>
    (\<forall>l. 1 \<le> l \<and> l \<le> length [1..<15] + 1 \<longrightarrow> offs ! l = base lens l)"
  proof (rule each_inv [where P = "\<lambda>i offs. length offs = 16 \<and> (\<forall>l. 1 \<le> l \<and> l \<le> i + 1 \<longrightarrow> offs ! l = base lens l)"])
    show "length (replicate 16 (0 :: nat)) = 16 \<and> (\<forall>l. 1 \<le> l \<and> l \<le> 0 + 1 \<longrightarrow> replicate 16 0 ! l = base lens l)"
      by (auto simp: base_def)
  next
    fix i offs
    assume i: "i < length [1..<15]" and offs: "length offs = 16 \<and> (\<forall>l. 1 \<le> l \<and> l \<le> i + 1 \<longrightarrow> offs ! l = base lens l)"
    have x: "[1..<15] ! i = Suc i" using i by simp
    have "offset cs (Suc i) offs = Some (offs[i + 2 := base lens (i + 1) + cnt lens (i + 1) (length lens)])"
      using i offs assms by (simp add: offset_def rd_ok wr_ok)
    then show "\<exists>offs'. offset cs ([1..<15] ! i) offs = Some offs' \<and> length offs' = 16 \<and>
        (\<forall>l. 1 \<le> l \<and> l \<le> Suc i + 1 \<longrightarrow> offs' ! l = base lens l)"
      unfolding x using offs i base_Suc [of "i + 1" lens] by (auto simp: nth_list_update le_Suc_eq)
  qed
  then show ?thesis by auto
qed

lemma syms_made:
  assumes ok: "lens_ok lens" and offs: "length offs = 16" "\<forall>l. 1 \<le> l \<and> l < 16 \<longrightarrow> offs ! l = base lens l"
    and syms: "length syms = 320"
  shows "\<exists>offs' syms'. each (put_sym lens) [0..<length lens] (offs, syms) = Some (offs', syms') \<and> length syms' = 320 \<and>
    (\<forall>i < length lens. lens ! i \<noteq> 0 \<longrightarrow> syms' ! (base lens (lens ! i) + cnt lens (lens ! i) i) = i)"
proof -
  define P where "P = (\<lambda>i (offs, syms). length offs = 16 \<and> length syms = 320 \<and>
    (\<forall>l. 1 \<le> l \<and> l < 16 \<longrightarrow> offs ! l = base lens l + cnt lens l i) \<and>
    (\<forall>j < i. lens ! j \<noteq> 0 \<longrightarrow> syms ! (base lens (lens ! j) + cnt lens (lens ! j) j) = j))"
  have "\<exists>st. each (put_sym lens) [0..<length lens] (offs, syms) = Some st \<and> P (length [0..<length lens]) st"
  proof (rule each_inv)
    show "P 0 (offs, syms)" using assms by (simp add: P_def)
  next
    fix i and st :: "nat list \<times> nat list"
    assume i: "i < length [0..<length lens]" and P: "P i st"
    then have i: "i < length lens" by simp
    obtain offs syms where st: "st = (offs, syms)" by force
    define l where "l = lens ! i"
    have l: "l < 16" using ok i by (simp add: lens_ok_def l_def)
    show "\<exists>st'. put_sym lens ([0..<length lens] ! i) st = Some st' \<and> P (Suc i) st'"
    proof (cases "l = 0")
      case True
      then show ?thesis using i P unfolding st
        by (auto simp: put_sym_def rd_ok P_def cnt_Suc l_def less_Suc_eq)
    next
      case False
      let ?at = "base lens l + cnt lens l i"
      have "cnt lens l i < cnt lens l (length lens)" unfolding l_def by (rule cnt_less) (use i in simp_all)
      then have lt: "?at < base lens (Suc l)" using base_Suc [of l lens] False by simp
      then have at: "?at < 320" using base_le [of lens "Suc l"] ok by (simp add: lens_ok_def)
      have other: "base lens (lens ! j) + cnt lens (lens ! j) j \<noteq> ?at" if j: "j < i" "lens ! j \<noteq> 0" for j
      proof (cases "lens ! j = l")
        case True
        then show ?thesis using cnt_less [of j i lens] j i by simp
      next
        case False
        have "cnt lens (lens ! j) j < cnt lens (lens ! j) (length lens)" by (rule cnt_less) (use i j in simp_all)
        then have j': "base lens (lens ! j) + cnt lens (lens ! j) j < base lens (Suc (lens ! j))"
          using base_Suc [of "lens ! j" lens] j by simp
        show ?thesis
        proof (cases "lens ! j < l")
          case True
          then show ?thesis using j' base_mono [of "Suc (lens ! j)" l lens] by simp
        next
          case F: False
          then show ?thesis using lt base_mono [of "Suc l" "lens ! j" lens] False by simp
        qed
      qed
      have "offs ! l = ?at" "length offs = 16" "length syms = 320" using P l False by (auto simp: P_def st)
      then have "put_sym lens ([0..<length lens] ! i) st = Some (offs[l := ?at + 1], syms[?at := i])"
        using i l at False by (simp add: put_sym_def st rd_ok wr_ok flip: l_def)
      moreover have "P (Suc i) (offs[l := ?at + 1], syms[?at := i])"
      proof -
        have "syms[?at := i] ! (base lens (lens ! j) + cnt lens (lens ! j) j) = j" if "j < Suc i" "lens ! j \<noteq> 0" for j
        proof (cases "j = i")
          case True
          then show ?thesis using at P by (simp add: P_def st flip: l_def)
        next
          case False
          then have "j < i" using that by simp
          then show ?thesis using P other [OF _ that(2)] that(2) by (simp add: P_def st)
        qed
        then show ?thesis
          using P i l at False unfolding P_def st
          by (auto simp: cnt_Suc nth_list_update simp flip: l_def)
      qed
      ultimately show ?thesis by blast
    qed
  qed
  then show ?thesis by (auto simp: P_def)
qed

lemma build_made:
  assumes "lens_ok lens" and "length (h_sym h) = 320"
  shows "\<exists>rc h'. build lens h = Some (rc, h') \<and> table_ok lens h' \<and> (rc \<longrightarrow> table_full lens h') \<and>
    (rc \<longrightarrow> left_ok 1 (map (\<lambda>l. cnt lens l (length lens)) [1..<16]))"
proof -
  obtain cs where cs: "each count_len lens (replicate 16 0) = Some cs" "length cs = 16"
    "\<forall>l < 16. cs ! l = cnt lens l (length lens)" using counts_made [OF assms(1)] by blast
  have drop: "drop 1 cs = map (\<lambda>l. cnt lens l (length lens)) [1..<16]"
    by (rule nth_equalityI) (use cs in auto)
  show ?thesis
  proof (cases "cs ! 0 = length lens")
    case True
    have zero: "cnt lens k (length lens) = 0" if "k \<noteq> 0" for k
      using counts_le [of "{0, k}" lens "length lens"] True cs(3) that by simp
    have "lens ! i = 0" if "i < length lens" for i
      using cnt_less [of i "length lens" lens] zero [of "lens ! i"] that by auto
    moreover have "left_ok x (replicate n 0)" if "0 \<le> x" for x n
      using that by (induction n arbitrary: x) (auto simp: Let_def)
    then have "left_ok 1 (replicate 15 0)" by simp
    moreover have "map (\<lambda>l. cnt lens l (length lens)) [1..<16] = replicate 15 0"
      by (rule nth_equalityI) (auto simp: zero)
    ultimately show ?thesis
      using cs True assms(2) by (auto simp: build_def rd_ok table_ok_def table_full_def)
  next
    case False
    obtain offs where offs: "each (offset cs) [1..<15] (replicate 16 0) = Some offs" "length offs = 16"
      "\<forall>l. 1 \<le> l \<and> l < 16 \<longrightarrow> offs ! l = base lens l" using offsets_made [OF cs(2,3)] by blast
    obtain offs' syms' where syms: "each (put_sym lens) [0..<length lens] (offs, h_sym h) = Some (offs', syms')"
      "length syms' = 320"
      "\<forall>i < length lens. lens ! i \<noteq> 0 \<longrightarrow> syms' ! (base lens (lens ! i) + cnt lens (lens ! i) i) = i"
      using syms_made [OF assms(1) offs(2,3) assms(2)] by blast
    show ?thesis
      using cs False drop offs(1) syms assms(2)
      by (cases "left_ok 1 (drop 1 cs)") (auto simp: build_def rd_ok table_ok_def table_full_def)
  qed
qed

section \<open>Reading bits\<close>

definition in_ok :: "inz \<Rightarrow> bool" where
  "in_ok s \<longleftrightarrow> in_pos s \<le> length (in_p s) \<and> in_len s \<le> length (in_out s)"

text \<open>The bits of the input still to be read.\<close>

definition bits_left :: "inz \<Rightarrow> nat" where
  "bits_left s = 8 * (length (in_p s) - in_pos s) + in_nbits s"

definition reads :: "inz \<Rightarrow> inz \<Rightarrow> bool" where
  "reads s s' \<longleftrightarrow> in_p s' = in_p s \<and> length (in_out s') = length (in_out s) \<and> in_ok s' \<and>
     bits_left s' \<le> bits_left s \<and> (in_bad s \<longrightarrow> in_bad s')"

text \<open>Reads that got at least one bit, unless the input had ended.\<close>

definition advances :: "inz \<Rightarrow> inz \<Rightarrow> bool" where
  "advances s s' \<longleftrightarrow> reads s s' \<and> (in_bad s' \<or> bits_left s' < bits_left s)"

lemma reads_refl [intro]: "in_ok s \<Longrightarrow> reads s s"
  by (simp add: reads_def)

lemma reads_ok: "reads s s' \<Longrightarrow> in_ok s'"
  by (simp add: reads_def)

lemma reads_trans [trans]: "reads s s' \<Longrightarrow> reads s' s'' \<Longrightarrow> reads s s''"
  by (simp add: reads_def)

lemma advances_reads: "advances s s' \<Longrightarrow> reads s s'"
  by (simp add: advances_def)

lemma advances_trans:
  "advances s s' \<Longrightarrow> reads s' s'' \<Longrightarrow> advances s s''" "reads s s' \<Longrightarrow> advances s' s'' \<Longrightarrow> advances s s''"
  by (auto simp: advances_def reads_def)

lemma bit1_ok:
  assumes "in_ok s"
  shows "\<exists>b s'. bit1 s = Some (b, s') \<and> advances s s' \<and> b < 2 \<and> in_out s' = in_out s \<and> in_len s' = in_len s"
proof (cases "in_nbits s = 0")
  case True
  show ?thesis
  proof (cases "in_pos s \<ge> length (in_p s)")
    case T: True
    then show ?thesis using True assms by (auto simp: bit1_def advances_def reads_def in_ok_def bits_left_def)
  next
    case False
    then show ?thesis using True assms
      by (auto simp: bit1_def rd_def take_bit_of_def advances_def reads_def in_ok_def bits_left_def)
  qed
next
  case False
  then show ?thesis using assms
    by (auto simp: bit1_def take_bit_of_def advances_def reads_def in_ok_def bits_left_def)
qed

lemma bits_from_ok:
  "in_ok s \<Longrightarrow> v < 2 ^ i \<Longrightarrow> \<exists>x s'. bits_from i k v s = Some (x, s') \<and> reads s s' \<and> x < 2 ^ (i + k) \<and>
    in_out s' = in_out s \<and> in_len s' = in_len s"
proof (induction k arbitrary: i v s)
  case 0
  then show ?case by auto
next
  case (Suc k)
  obtain b s1 where 1: "bit1 s = Some (b, s1)" "advances s s1" "b < 2" "in_out s1 = in_out s" "in_len s1 = in_len s"
    using bit1_ok [OF Suc.prems(1)] by blast
  have "v + b * 2 ^ i < 2 ^ Suc i" using Suc.prems(2) 1(3) by (cases "b = 0") (auto simp: less_2_cases_iff)
  from Suc.IH [OF reads_ok [OF advances_reads [OF 1(2)]] this] show ?case
    using 1 reads_trans [OF advances_reads [OF 1(2)]] by auto
qed

lemma bitsn_ok:
  "in_ok s \<Longrightarrow> \<exists>x s'. bitsn n s = Some (x, s') \<and> reads s s' \<and> x < 2 ^ n \<and> in_out s' = in_out s \<and> in_len s' = in_len s"
  using bits_from_ok [of s 0 0 n] by (simp add: bitsn_def)

section \<open>Decoding a symbol\<close>

lemma decode_from_ok:
  assumes t: "table_ok lens h" "lens_ok lens" and "l + k = 16" "1 \<le> l" "in_ok s" "first \<le> code"
  shows "\<exists>y s'. decode_from l k code first (base lens l) h s = Some (y, s') \<and> advances s s' \<and>
    in_out s' = in_out s \<and> in_len s' = in_len s"
  using assms(3-)
proof (induction k arbitrary: l code first s)
  case 0
  then show ?case by (auto simp: advances_def reads_def in_ok_def bits_left_def)
next
  case (Suc k)
  obtain b s1 where 1: "bit1 s = Some (b, s1)" "advances s s1" "in_out s1 = in_out s" "in_len s1 = in_len s"
    using bit1_ok [OF Suc.prems(3)] by blast
  define c where "c = h_count h ! l"
  have l: "l < 16" using Suc.prems(1) by simp
  then have c: "rd (h_count h) l = Some c" "c = cnt lens l (length lens)" using t(1) by (simp_all add: table_ok_def rd_ok c_def)
  have b: "base lens (l + 1) = base lens l + c" using base_Suc [of l lens] Suc.prems(2) c(2) by simp
  show ?case
  proof (cases "code + b < first + c")
    case True
    have "base lens l + (code + b - first) < base lens (l + 1)" using True b Suc.prems(4) by linarith
    then have "base lens l + (code + b - first) < length (h_sym h)"
      using base_le [of lens "l + 1"] t by (simp add: lens_ok_def table_ok_def)
    then show ?thesis using 1 c True by (simp add: rd_ok)
  next
    case F: False
    show ?thesis
    proof (cases "in_bad s1")
      case True
      then show ?thesis using 1 c F by simp
    next
      case False
      have "\<exists>y s'. decode_from (l + 1) k (2 * (code + b)) (2 * (first + c)) (base lens (l + 1)) h s1 = Some (y, s') \<and>
          advances s1 s' \<and> in_out s' = in_out s1 \<and> in_len s' = in_len s1"
        using Suc.IH [of "l + 1" s1 "2 * (first + c)" "2 * (code + b)"] Suc.prems 1(2) F
        by (auto simp: advances_def reads_def)
      then show ?thesis using 1 c F False b advances_trans(1) [OF 1(2) advances_reads] by auto
    qed
  qed
qed

lemma decode_ok:
  assumes "table_ok lens h" "lens_ok lens" "in_ok s"
  shows "\<exists>y s'. decode h s = Some (y, s') \<and> advances s s' \<and> in_out s' = in_out s \<and> in_len s' = in_len s"
  using decode_from_ok [OF assms(1,2), of 1 15 s 0 0] assms(3) by (simp add: decode_def base_def)

section \<open>Blocks\<close>

lemma copy_ok:
  "in_ok s \<Longrightarrow> 0 < dist \<Longrightarrow> dist \<le> in_len s \<Longrightarrow> k \<le> length (in_out s) - in_len s \<Longrightarrow>
     \<exists>s'. copy k dist s = Some s' \<and> reads s s' \<and> in_bad s' = in_bad s"
proof (induction k arbitrary: s)
  case 0
  then show ?case by auto
next
  case (Suc k)
  let ?s = "s\<lparr>in_out := (in_out s)[in_len s := in_out s ! (in_len s - dist)], in_len := in_len s + 1\<rparr>"
  have ok: "in_ok ?s" "in_len s < length (in_out s)" using Suc.prems by (auto simp: in_ok_def)
  have "\<exists>s'. copy k dist ?s = Some s' \<and> reads ?s s' \<and> in_bad s' = in_bad ?s"
    by (rule Suc.IH) (use Suc.prems ok in auto)
  then show ?case using Suc.prems ok by (auto simp: rd_ok wr_ok reads_def bits_left_def)
qed

lemma tables_sizes: "length LBASE = 29" "length LEXT = 29" "length DBASE = 30" "length DEXT = 30"
  by (simp_all add: LBASE_def LEXT_def DBASE_def DEXT_def upt_rec)

lemma DBASE_pos: "i < 30 \<Longrightarrow> 0 < DBASE ! i"
proof -
  assume "i < 30"
  then have "DBASE ! i \<in> set DBASE" by (simp add: tables_sizes)
  moreover have "\<forall>x \<in> set DBASE. 0 < x" by (simp add: DBASE_def)
  ultimately show ?thesis by blast
qed

lemma back_copy_ok:
  assumes "table_ok dens dc" "lens_ok dens" "in_ok s"
  shows "\<exists>rc s'. back_copy dc k s = Some (rc, s') \<and> reads s s'"
proof (cases "k < 29")
  case False
  then show ?thesis using assms(3) by (auto simp: back_copy_def)
next
  case k: True
  then have rdL: "rd LBASE k = Some (LBASE ! k)" "rd LEXT k = Some (LEXT ! k)" by (simp_all add: rd_ok tables_sizes)
  obtain v s2 where 2: "bitsn (LEXT ! k) s = Some (v, s2)" "reads s s2" using bitsn_ok [OF assms(3)] by blast
  obtain y s3 where 3: "decode dc s2 = Some (y, s3)" "advances s2 s3"
    using decode_ok [OF assms(1,2) reads_ok [OF 2(2)]] by blast
  have r3: "reads s s3" by (rule reads_trans [OF 2(2) advances_reads [OF 3(2)]])
  show ?thesis
  proof (cases "\<exists>ds < 30. y = Some ds \<and> \<not> in_bad s3")
    case False
    then show ?thesis using k rdL 2 3 r3 by (cases y) (auto simp: back_copy_def Let_def)
  next
    case True
    then obtain ds where ds: "y = Some ds" "ds < 30" "\<not> in_bad s3" by auto
    then have rdD: "rd DBASE ds = Some (DBASE ! ds)" "rd DEXT ds = Some (DEXT ! ds)" by (simp_all add: rd_ok tables_sizes)
    obtain w s4 where 4: "bitsn (DEXT ! ds) s3 = Some (w, s4)" "reads s3 s4" using bitsn_ok [OF reads_ok [OF r3]] by blast
    have r4: "reads s s4" by (rule reads_trans [OF r3 4(2)])
    let ?len = "LBASE ! k + v" and ?dist = "DBASE ! ds + w"
    show ?thesis
    proof (cases "?dist > in_len s4 \<or> ?len > length (in_out s4) - in_len s4")
      case True
      then show ?thesis using k rdL 2 3 ds rdD 4 r4 by (auto simp: back_copy_def)
    next
      case False
      then obtain s5 where "copy ?len ?dist s4 = Some s5" "reads s4 s5"
        using copy_ok [OF reads_ok [OF r4], of ?dist ?len] DBASE_pos [OF ds(2)] by auto
      then show ?thesis using False k rdL 2 3 ds rdD 4 reads_trans [OF r4] by (auto simp: back_copy_def)
    qed
  qed
qed

lemma codes_ok:
  assumes "table_ok lens lc" "lens_ok lens" "table_ok dens dc" "lens_ok dens"
  shows "in_ok s \<Longrightarrow> bits_left s < fuel \<Longrightarrow> \<exists>rc s'. codes fuel lc dc s = Some (rc, s') \<and> reads s s'"
proof (induction fuel arbitrary: s)
  case 0
  then show ?case by simp
next
  case (Suc fuel)
  obtain y s1 where 1: "decode lc s = Some (y, s1)" "advances s s1"
    using decode_ok [OF assms(1,2) Suc.prems(1)] by blast
  have r1: "reads s s1" "in_ok s1" using 1(2) by (auto simp: advances_def reads_def)
  show ?case
  proof (cases "\<exists>x. y = Some x \<and> \<not> in_bad s1")
    case False
    then show ?thesis using 1 r1 by (auto split: option.split)
  next
    case True
    then obtain x where x: "y = Some x" "\<not> in_bad s1" by blast
    have left: "bits_left s1 < fuel" using 1(2) x(2) Suc.prems(2) by (auto simp: advances_def)
    consider "x < 256" "in_len s1 < length (in_out s1)" | "x < 256" "in_len s1 \<ge> length (in_out s1)" | "x = 256" | "x > 256"
      by linarith
    then show ?thesis
    proof cases
      case lit: 1
      let ?s = "s1\<lparr>in_out := (in_out s1)[in_len s1 := of_nat x], in_len := in_len s1 + 1\<rparr>"
      have "in_ok ?s" "bits_left ?s < fuel" using r1(2) lit left by (auto simp: in_ok_def bits_left_def)
      then have "\<exists>rc s'. codes fuel lc dc ?s = Some (rc, s') \<and> reads ?s s'" by (rule Suc.IH)
      then show ?thesis using 1 x lit r1 by (auto simp: wr_ok reads_def bits_left_def)
    next
      case 4
      obtain rc s2 where 2: "back_copy dc (x - 257) s1 = Some (rc, s2)" "reads s1 s2"
        using back_copy_ok [OF assms(3,4) r1(2)] by blast
      have "in_ok s2" "bits_left s2 < fuel" using 2(2) left by (auto simp: reads_def)
      from Suc.IH [OF this] show ?thesis
        using 1 x 4 2 reads_trans [OF r1(1) 2(2)] reads_trans by (cases rc) auto
    qed (use 1 x r1 in auto)
  qed
qed

lemma stored_ok:
  assumes "in_ok s"
  shows "\<exists>rc s'. stored s = Some (rc, s') \<and> reads s s'"
proof -
  let ?s = "s\<lparr>in_nbits := 0\<rparr>"
  show ?thesis
  proof (cases "length (in_p s) - in_pos s < 4")
    case True
    then show ?thesis using assms by (auto simp: stored_def reads_def in_ok_def bits_left_def)
  next
    case False
    let ?p = "in_p s" and ?i = "in_pos s"
    have rds: "rd ?p ?i = Some (?p ! ?i)" "rd ?p (?i + 1) = Some (?p ! (?i + 1))" "rd ?p (?i + 2) = Some (?p ! (?i + 2))"
      "rd ?p (?i + 3) = Some (?p ! (?i + 3))" using False by (auto intro!: rd_ok)
    define len where "len = unat (?p ! ?i) + 256 * unat (?p ! Suc ?i)"
    define nlen where "nlen = unat (?p ! Suc (Suc ?i)) + 256 * unat (?p ! (?i + 3))"
    let ?s4 = "s\<lparr>in_nbits := 0, in_pos := ?i + 4\<rparr>"
    show ?thesis
    proof (cases "(len XOR 0xffff) \<noteq> nlen \<or> length ?p - (?i + 4) < len \<or> length (in_out s) - in_len s < len")
      case True
      then have "stored s = Some (False, ?s4)" using False rds by (simp add: stored_def Let_def len_def nlen_def)
      then show ?thesis using False assms by (auto simp: reads_def in_ok_def bits_left_def)
    next
      case F: False
      define f :: "nat \<Rightarrow> inz \<Rightarrow> inz option" where "f = (\<lambda>i s. do { c \<leftarrow> rd (in_p s) (in_pos s + i); out \<leftarrow> wr (in_out s) (in_len s + i) c;
        Some (s\<lparr>in_out := out\<rparr>) })"
      have "\<exists>s'. each f [0..<len] ?s4 = Some s' \<and> (\<exists>out. s' = ?s4\<lparr>in_out := out\<rparr> \<and> length out = length (in_out s))"
      proof (rule each_inv [where P = "\<lambda>_ s'. \<exists>out. s' = ?s4\<lparr>in_out := out\<rparr> \<and> length out = length (in_out s)"])
        show "\<exists>out. ?s4 = ?s4\<lparr>in_out := out\<rparr> \<and> length out = length (in_out s)" by (rule exI [of _ "in_out s"]) simp
      next
        fix i s' assume i: "i < length [0..<len]" and "\<exists>out. s' = ?s4\<lparr>in_out := out\<rparr> \<and> length out = length (in_out s)"
        then obtain out where s': "s' = ?s4\<lparr>in_out := out\<rparr>" "length out = length (in_out s)" by blast
        have "f i s' = Some (?s4\<lparr>in_out := out[in_len s + i := ?p ! (?i + 4 + i)]\<rparr>)"
        proof -
          have "?i + 4 + i < length ?p" "in_len s + i < length out" using F i s'(2) by auto
          then show ?thesis by (simp add: f_def s'(1) rd_ok wr_ok)
        qed
        moreover have "length (out[in_len s + i := ?p ! (?i + 4 + i)]) = length (in_out s)" using s'(2) by simp
        ultimately show "\<exists>s''. f ([0..<len] ! i) s' = Some s'' \<and> (\<exists>out. s'' = ?s4\<lparr>in_out := out\<rparr> \<and> length out = length (in_out s))"
          using i by auto
      qed
      then obtain out where "each f [0..<len] ?s4 = Some (?s4\<lparr>in_out := out\<rparr>)" "length out = length (in_out s)" by blast
      then have "stored s = Some (True, ?s4\<lparr>in_out := out, in_pos := ?i + 4 + len, in_len := in_len s + len\<rparr>)"
        "length out = length (in_out s)"
        using False F rds by (simp_all add: stored_def Let_def f_def flip: len_def nlen_def)
      then show ?thesis using assms F False by (auto simp: reads_def in_ok_def bits_left_def)
    qed
  qed
qed

lemma fixed_made:
  "\<exists>lens lc dens dc. fixed_make = Some (lc, dc) \<and> table_ok lens lc \<and> lens_ok lens \<and> table_ok dens dc \<and> lens_ok dens"
proof -
  let ?l = "replicate 144 (8::nat) @ replicate 112 9 @ replicate 24 7 @ replicate 8 8" and ?d = "replicate 30 (5::nat)"
  have ok: "lens_ok ?l" "lens_ok ?d" "length (h_sym huff_new) = 320" by (auto simp: lens_ok_def huff_new_def)
  obtain rc1 lc where "build ?l huff_new = Some (rc1, lc)" "table_ok ?l lc" using build_made [OF ok(1,3)] by blast
  moreover obtain rc2 dc where "build ?d huff_new = Some (rc2, dc)" "table_ok ?d dc" using build_made [OF ok(2,3)] by blast
  ultimately have "fixed_make = Some (lc, dc)" "table_ok ?l lc" "table_ok ?d dc" unfolding fixed_make_def by auto
  then show ?thesis using ok(1,2) by blast
qed

lemma fixed_ok:
  assumes "in_ok s" "bits_left s < fuel"
  shows "\<exists>rc s'. fixed fuel s = Some (rc, s') \<and> reads s s'"
proof -
  obtain lens lc dens dc where f: "fixed_make = Some (lc, dc)"
    and t: "table_ok lens lc" "lens_ok lens" "table_ok dens dc" "lens_ok dens" using fixed_made by blast
  show ?thesis using codes_ok [OF t assms] by (simp add: fixed_def f)
qed

definition code_lens :: "nat list \<Rightarrow> bool" where
  "code_lens len \<longleftrightarrow> length len = 320 \<and> (\<forall>l \<in> set len. l < 16)"

lemma code_lens_update: "code_lens len \<Longrightarrow> v < 16 \<Longrightarrow> code_lens (len[i := v])"
  using set_update_subset_insert [of len i v] by (auto simp: code_lens_def)

lemma code_lens_part: "code_lens len \<Longrightarrow> lens_ok (take n len)" "code_lens len \<Longrightarrow> lens_ok (take n (drop m len))"
  by (auto simp: code_lens_def lens_ok_def dest!: in_set_takeD in_set_dropD)

lemma ORDER_ok: "length ORDER = 19" "i < 19 \<Longrightarrow> ORDER ! i < 19"
proof -
  show "length ORDER = 19" by (simp add: ORDER_def)
  assume "i < 19"
  then have "ORDER ! i \<in> set ORDER" using \<open>length ORDER = 19\<close> by (intro nth_mem) simp
  moreover have "\<forall>x \<in> set ORDER. x < 19" by (simp add: ORDER_def)
  ultimately show "ORDER ! i < 19" by blast
qed

lemma code_lengths_ok:
  assumes "in_ok s" "n \<le> 19"
  shows "\<exists>len s'. each code_length [0..<n] (replicate 320 0, s) = Some (len, s') \<and> code_lens len \<and> reads s s'"
proof -
  have "\<exists>st. each code_length [0..<n] (replicate 320 0, s) = Some st \<and> code_lens (fst st) \<and> reads s (snd st)"
  proof (rule each_inv [where P = "\<lambda>_ st. code_lens (fst st) \<and> reads s (snd st)"])
    show "code_lens (fst (replicate 320 0, s)) \<and> reads s (snd (replicate 320 0, s))"
      using assms(1) by (auto simp: code_lens_def)
  next
    fix i and st :: "nat list \<times> inz"
    assume i: "i < length [0..<n]" and P: "code_lens (fst st) \<and> reads s (snd st)"
    obtain len s1 where st: "st = (len, s1)" by force
    have i19: "i < 19" using i assms(2) by simp
    obtain v s2 where 2: "bitsn 3 s1 = Some (v, s2)" "reads s1 s2" "v < 2 ^ 3"
      using bitsn_ok [of s1 3] P reads_ok by (auto simp: st)
    have "code_length i st = Some (len[ORDER ! i := v], s2)"
    proof -
      have "length len = 320" using P by (simp add: st code_lens_def)
      moreover have "ORDER ! i < 320" using ORDER_ok(2) [OF i19] by simp
      ultimately show ?thesis using i19 2(1) by (simp add: code_length_def st rd_ok wr_ok ORDER_ok(1))
    qed
    moreover have "code_lens (len[ORDER ! i := v])" by (rule code_lens_update) (use P 2(3) in \<open>auto simp: st\<close>)
    moreover have "reads s s2" using P 2(2) reads_trans by (auto simp: st)
    ultimately show "\<exists>st'. code_length ([0..<n] ! i) st = Some st' \<and> code_lens (fst st') \<and> reads s (snd st')"
      using i by auto
  qed
  then show ?thesis by force
qed

lemma repeat_ok:
  assumes "code_lens len" "v < 16" "k + rep \<le> 320"
  shows "\<exists>len'. each (\<lambda>i len. wr len i v) [k..<k + rep] len = Some len' \<and> code_lens len'"
proof (rule each_inv [where P = "\<lambda>_. code_lens"])
  fix i len' assume i: "i < length [k..<k + rep]" and len: "code_lens len'"
  have "wr len' (k + i) v = Some (len'[k + i := v])" using len i assms(3) by (simp add: wr_ok code_lens_def)
  then show "\<exists>l. wr len' ([k..<k + rep] ! i) v = Some l \<and> code_lens l"
    using code_lens_update [OF len assms(2)] i by simp
qed (rule assms(1))

lemma lengths_ok:
  assumes "table_ok hl h" "lens_ok hl" "tot \<le> 320"
  shows "in_ok s \<Longrightarrow> code_lens len \<Longrightarrow> tot - k < fuel \<Longrightarrow>
    \<exists>rc len' s'. lengths fuel h tot k len s = Some (rc, len', s') \<and> code_lens len' \<and> reads s s'"
proof (induction fuel arbitrary: k len s)
  case 0
  then show ?case by simp
next
  case (Suc fuel)
  obtain y s1 where 1: "decode h s = Some (y, s1)" "advances s s1"
    using decode_ok [OF assms(1,2) Suc.prems(1)] by blast
  have r1: "reads s s1" "in_ok s1" using 1(2) by (auto simp: advances_def reads_def)
  show ?case
  proof (cases "k < tot \<and> (\<exists>x. y = Some x \<and> \<not> in_bad s1 \<and> \<not> (x = 16 \<and> k = 0))")
    case False
    then show ?thesis using 1 r1 Suc.prems by (cases y) auto
  next
    case True
    then obtain x where x: "y = Some x" "\<not> in_bad s1" "\<not> (x = 16 \<and> k = 0)" and k: "k < tot" by blast
    have len: "length len = 320" "code_lens len" using Suc.prems(2) by (auto simp: code_lens_def)
    show ?thesis
    proof (cases "x < 16")
      case True
      have "\<exists>rc len' s'. lengths fuel h tot (k + 1) (len[k := x]) s1 = Some (rc, len', s') \<and> code_lens len' \<and> reads s1 s'"
        by (rule Suc.IH [OF r1(2) code_lens_update [OF len(2) True]]) (use Suc.prems(3) k in simp)
      then show ?thesis using 1 x True k len assms(3) reads_trans [OF r1(1)] by (auto simp: wr_ok)
    next
      case False
      obtain v where v: "(if x = 16 then rd len (k - 1) else Some 0) = Some v" "v < 16"
      proof (cases "x = 16")
        case True
        have "len ! (k - 1) \<in> set len" using k len assms(3) by simp
        then show ?thesis using that [of "len ! (k - 1)"] True k len assms(3) by (simp add: rd_ok code_lens_def)
      qed (use that [of 0] in simp)
      let ?n = "if x = 16 then 2 else if x = 17 then 3 else 7 :: nat"
      obtain w s2 where 2: "bitsn ?n s1 = Some (w, s2)" "reads s1 s2" using bitsn_ok [OF r1(2)] by blast
      let ?rep = "(if x = 16 \<or> x = 17 then 3 else 11) + w"
      have r2: "reads s s2" by (rule reads_trans [OF r1(1) 2(2)])
      show ?thesis
      proof (cases "k + ?rep > tot")
        case True
        then show ?thesis using 1 x False k v 2 r2 len by (auto simp: Let_def)
      next
        case F: False
        obtain len' where len': "each (\<lambda>i len. wr len i v) [k..<k + ?rep] len = Some len'" "code_lens len'"
          using repeat_ok [OF len(2) v(2), of k ?rep] F assms(3) by auto
        have "\<exists>rc l s'. lengths fuel h tot (k + ?rep) len' s2 = Some (rc, l, s') \<and> code_lens l \<and> reads s2 s'"
          by (rule Suc.IH [OF reads_ok [OF r2] len'(2)]) (use Suc.prems(3) k in auto)
        then obtain rc l s' where "lengths fuel h tot (k + ?rep) len' s2 = Some (rc, l, s')" "code_lens l" "reads s2 s'" by blast
        moreover have "lengths (Suc fuel) h tot k len s = lengths fuel h tot (k + ?rep) len' s2"
          using 1 x False k v(1) 2(1) F len'(1) by (cases "x = 16") (simp_all add: Let_def)
        ultimately show ?thesis using reads_trans [OF r2] by auto
      qed
    qed
  qed
qed

lemma dynamic_ok:
  assumes "in_ok s" "bits_left s < fuel"
  shows "\<exists>rc s'. dynamic fuel s = Some (rc, s') \<and> reads s s'"
proof -
  obtain a s1 where 1: "bitsn 5 s = Some (a, s1)" "reads s s1" using bitsn_ok [OF assms(1)] by blast
  obtain b s2 where 2: "bitsn 5 s1 = Some (b, s2)" "reads s1 s2" using bitsn_ok [OF reads_ok [OF 1(2)]] by blast
  obtain c s3 where 3: "bitsn 4 s2 = Some (c, s3)" "reads s2 s3" "c < 2 ^ 4" using bitsn_ok [OF reads_ok [OF 2(2)]] by blast
  have r3: "reads s s3" using 1(2) 2(2) 3(2) reads_trans by blast
  show ?thesis
  proof (cases "a + 257 > 286 \<or> b + 1 > 30 \<or> in_bad s3")
    case True
    then show ?thesis using 1 2 3 r3 by (auto simp: dynamic_def Let_def)
  next
    case F: False
    have c: "c + 4 \<le> 19" using 3(3) by simp
    obtain len s4 where 4: "each code_length [0..<c + 4] (replicate 320 0, s3) = Some (len, s4)" "code_lens len" "reads s3 s4"
      using code_lengths_ok [OF reads_ok [OF 3(2)] c] by blast
    have new: "length (h_sym huff_new) = 320" by (simp add: huff_new_def)
    obtain rc h where h: "build (take 19 len) huff_new = Some (rc, h)" "table_ok (take 19 len) h"
      using build_made [OF code_lens_part(1) [OF 4(2)] new] by blast
    have r4: "reads s s4" by (rule reads_trans [OF r3 4(3)])
    obtain rc2 len2 s5 where 5: "lengths 320 h (a + 257 + (b + 1)) 0 len s4 = Some (rc2, len2, s5)" "code_lens len2" "reads s4 s5"
      using lengths_ok [OF h(2) code_lens_part(1) [OF 4(2)], of "a + 257 + (b + 1)" s4 len 0 320] 4(2) reads_ok [OF 4(3)] F by auto
    have r5: "reads s s5" "bits_left s5 < fuel" using reads_trans [OF r4 5(3)] assms(2) by (auto simp: reads_def)
    have e: "rd len2 256 = Some (len2 ! 256)" using 5(2) by (simp add: rd_ok code_lens_def)
    obtain rc3 lc where lc: "build (take (a + 257) len2) huff_new = Some (rc3, lc)" "table_ok (take (a + 257) len2) lc"
      using build_made [OF code_lens_part(1) [OF 5(2)] new] by blast
    obtain rc4 dc where dc: "build (take (b + 1) (drop (a + 257) len2)) huff_new = Some (rc4, dc)"
      "table_ok (take (b + 1) (drop (a + 257) len2)) dc"
      using build_made [OF code_lens_part(2) [OF 5(2)] new] by blast
    obtain rc5 s6 where 6: "codes fuel lc dc s5 = Some (rc5, s6)" "reads s5 s6"
      using codes_ok [OF lc(2) code_lens_part(1) [OF 5(2)] dc(2) code_lens_part(2) [OF 5(2)] reads_ok [OF r5(1)] r5(2)] by blast
    have "dynamic fuel s = (if \<not> rc then Some (False, s4) else if \<not> rc2 then Some (False, s5) else if len2 ! 256 = 0 then Some (False, s5)
        else if \<not> rc3 then Some (False, s5) else if \<not> rc4 then Some (False, s5) else Some (rc5, s6))"
      using F by (simp only: dynamic_def Let_def Option.bind.simps prod.case 1(1) 2(1) 3(1) 4(1) h(1) 5(1) e lc(1) dc(1) 6(1) if_False)
    then show ?thesis using r4 r5(1) reads_trans [OF r5(1) 6(2)] by auto
  qed
qed

section \<open>The whole stream\<close>

lemma zblocks_ok:
  "in_ok s \<Longrightarrow> bits_left s < n \<Longrightarrow> bits_left s < fuel \<Longrightarrow> \<exists>rc s'. zblocks n fuel s = Some (rc, s') \<and> reads s s'"
proof (induction n arbitrary: s)
  case 0
  then show ?case by simp
next
  case (Suc n)
  obtain b s1 where 1: "bit1 s = Some (b, s1)" "advances s s1" using bit1_ok [OF Suc.prems(1)] by blast
  obtain ty s2 where 2: "bitsn 2 s1 = Some (ty, s2)" "reads s1 s2"
    using bitsn_ok [OF reads_ok [OF advances_reads [OF 1(2)]]] by blast
  have r2: "reads s s2" "in_ok s2" "bits_left s2 < fuel"
    using 1(2) 2(2) Suc.prems(3) by (auto simp: advances_def reads_def)
  have "\<exists>rc s3. (if in_bad s2 then Some (False, s2) else if ty = 0 then stored s2 else if ty = 1 then fixed fuel s2
      else if ty = 2 then dynamic fuel s2 else Some (False, s2)) = Some (rc, s3) \<and> reads s2 s3"
    using stored_ok [OF r2(2)] fixed_ok [OF r2(2,3)] dynamic_ok [OF r2(2,3)] r2(2) by auto
  then obtain rc s3 where 3: "(if in_bad s2 then Some (False, s2) else if ty = 0 then stored s2 else if ty = 1 then fixed fuel s2
      else if ty = 2 then dynamic fuel s2 else Some (False, s2)) = Some (rc, s3)" "reads s2 s3" by blast
  have r3: "reads s s3" by (rule reads_trans [OF r2(1) 3(2)])
  have step: "zblocks (Suc n) fuel s = (if \<not> rc \<or> in_bad s3 then Some (False, s3) else if b \<noteq> 0 then Some (True, s3) else zblocks n fuel s3)"
    by (simp only: zblocks.simps 1(1) 2(1) 3(1) Option.bind.simps prod.case)
  show ?case
  proof (cases "\<not> rc \<or> in_bad s3 \<or> b \<noteq> 0")
    case True
    then show ?thesis using step r3 by auto
  next
    case False
    then have "\<not> in_bad s1" using 2(2) 3(2) by (auto simp: reads_def)
    then have "bits_left s3 < n" "bits_left s3 < fuel"
      using 1(2) 2(2) 3(2) Suc.prems(2,3) by (auto simp: advances_def reads_def)
    from Suc.IH [OF reads_ok [OF r3] this] step False show ?thesis using reads_trans [OF r3] by auto
  qed
qed

section \<open>What the output held before\<close>

text \<open>Two states that differ only in what the output holds past what has been written.\<close>

definition same :: "inz \<Rightarrow> inz \<Rightarrow> bool" where
  "same s t \<longleftrightarrow> in_p t = in_p s \<and> in_pos t = in_pos s \<and> in_bits t = in_bits s \<and> in_nbits t = in_nbits s \<and>
     in_bad t = in_bad s \<and> in_len t = in_len s \<and> length (in_out t) = length (in_out s) \<and>
     take (in_len s) (in_out t) = take (in_len s) (in_out s)"

abbreviation alike :: "('a \<times> inz) option \<Rightarrow> ('a \<times> inz) option \<Rightarrow> bool" where
  "alike \<equiv> rel_option (rel_prod (=) same)"

lemma alike_bind:
  assumes "alike x y" "\<And>a s t. same s t \<Longrightarrow> rel_option R (f (a, s)) (g (a, t))"
  shows "rel_option R (Option.bind x f) (Option.bind y g)"
  using assms by (cases x; cases y) auto

lemma pure_bind: "(\<And>a. rel_option R (f a) (g a)) \<Longrightarrow> rel_option R (Option.bind x f) (Option.bind x g)"
  by (cases x) auto

lemma same_fields:
  assumes "same s t"
  shows "in_p t = in_p s" "in_pos t = in_pos s" "in_bits t = in_bits s" "in_nbits t = in_nbits s" "in_bad t = in_bad s"
    "in_len t = in_len s" "length (in_out t) = length (in_out s)"
    "take (in_len s) (in_out t) = take (in_len s) (in_out s)"
  using assms by (simp_all add: same_def)

lemma same_nth: "same s t \<Longrightarrow> i < in_len s \<Longrightarrow> i < length (in_out s) \<Longrightarrow> in_out t ! i = in_out s ! i"
  using same_fields(8) [of s t] nth_take [of i "in_len s" "in_out t"] nth_take [of i "in_len s" "in_out s"] by metis

lemma same_put:
  assumes "same s t" "in_len s < length (in_out s)"
  shows "same (s\<lparr>in_out := (in_out s)[in_len s := c], in_len := in_len s + 1\<rparr>)
    (t\<lparr>in_out := (in_out t)[in_len s := c], in_len := in_len s + 1\<rparr>)"
  using assms by (simp add: same_def take_Suc_conv_app_nth)

lemma bit1_alike: "same s t \<Longrightarrow> alike (bit1 s) (bit1 t)"
  by (auto simp: bit1_def take_bit_of_def same_def rd_def)

lemma bits_from_alike: "same s t \<Longrightarrow> alike (bits_from i k v s) (bits_from i k v t)"
  by (induction k arbitrary: i v s t) (auto intro!: alike_bind bit1_alike)

lemma bitsn_alike: "same s t \<Longrightarrow> alike (bitsn n s) (bitsn n t)"
  by (simp add: bitsn_def bits_from_alike)

lemma decode_from_alike: "same s t \<Longrightarrow> alike (decode_from l k code first index h s) (decode_from l k code first index h t)"
proof (induction k arbitrary: l code first index s t)
  case 0
  then show ?case by (simp add: same_def)
next
  case (Suc k)
  show ?case unfolding decode_from.simps Let_def
    by (intro alike_bind [OF bit1_alike [OF Suc.prems]]; simp only: prod.case; intro pure_bind)
       (auto intro!: pure_bind Suc.IH simp: same_fields(5))
qed

lemma decode_alike: "same s t \<Longrightarrow> alike (decode h s) (decode h t)"
  by (simp add: decode_def decode_from_alike)

lemma copy_alike:
  "same s t \<Longrightarrow> 0 < dist \<Longrightarrow> dist \<le> in_len s \<Longrightarrow> k \<le> length (in_out s) - in_len s \<Longrightarrow>
     rel_option same (copy k dist s) (copy k dist t)"
proof (induction k arbitrary: s t)
  case (Suc k)
  have lt: "in_len s < length (in_out s)" "in_len s - dist < in_len s" using Suc.prems by simp_all
  let ?c = "in_out s ! (in_len s - dist)"
  have "in_out t ! (in_len t - dist) = ?c" using same_nth [OF Suc.prems(1) lt(2)] lt same_fields(6) [OF Suc.prems(1)] by simp
  moreover have "rel_option same (copy k dist (s\<lparr>in_out := (in_out s)[in_len s := ?c], in_len := in_len s + 1\<rparr>))
      (copy k dist (t\<lparr>in_out := (in_out t)[in_len s := ?c], in_len := in_len s + 1\<rparr>))"
    by (rule Suc.IH [OF same_put [OF Suc.prems(1) lt(1)]]) (use Suc.prems lt in auto)
  ultimately show ?case using lt same_fields(6,7) [OF Suc.prems(1)] by (simp add: rd_ok wr_ok)
qed simp


lemma back_copy_alike:
  assumes "same s t"
  shows "alike (back_copy dc k s) (back_copy dc k t)"
proof -
  have step: "alike (if dist > in_len s \<or> len > length (in_out s) - in_len s then Some (False, s)
        else do { s \<leftarrow> copy len dist s; Some (True, s) })
      (if dist > in_len t \<or> len > length (in_out t) - in_len t then Some (False, t)
        else do { s \<leftarrow> copy len dist t; Some (True, s) })"
    if "same s t" "0 < dist" for s t :: inz and len dist
  proof (cases "dist > in_len s \<or> len > length (in_out s) - in_len s")
    case True
    then show ?thesis using that(1) by (simp add: same_fields(6,7) [OF that(1)])
  next
    case False
    then have "rel_option same (copy len dist s) (copy len dist t)" by (intro copy_alike that) simp_all
    then show ?thesis using False same_fields(6,7) [OF that(1)]
      by (cases "copy len dist s"; cases "copy len dist t") simp_all
  qed
  have far: "alike (do { base \<leftarrow> rd DBASE ds; ext \<leftarrow> rd DEXT ds; (v, s) \<leftarrow> bitsn ext s; let dist = base + v;
        if dist > in_len s \<or> len > length (in_out s) - in_len s then Some (False, s)
        else do { s \<leftarrow> copy len dist s; Some (True, s) } })
      (do { base \<leftarrow> rd DBASE ds; ext \<leftarrow> rd DEXT ds; (v, s) \<leftarrow> bitsn ext t; let dist = base + v;
        if dist > in_len s \<or> len > length (in_out s) - in_len s then Some (False, s)
        else do { s \<leftarrow> copy len dist s; Some (True, s) } })"
    if "same s t" "ds < 30" for s t :: inz and len ds
  proof -
    have "rd DBASE ds = Some (DBASE ! ds)" using that(2) by (simp add: rd_ok tables_sizes)
    then show ?thesis using DBASE_pos [OF that(2)]
      by (simp add: Let_def) (intro pure_bind alike_bind [OF bitsn_alike [OF that(1)]]; simp only: prod.case; intro step; simp)
  qed
  show ?thesis
  proof (cases "k \<ge> 29")
    case True
    then show ?thesis using assms by (simp add: back_copy_def)
  next
    case False
    show ?thesis unfolding back_copy_def Let_def if_not_P [OF False]
    proof (intro pure_bind alike_bind [OF bitsn_alike [OF assms]], unfold prod.case,
        rule alike_bind [OF decode_alike], assumption, unfold prod.case)
      fix base v y and s t :: inz assume st: "same s t"
      let ?f = "\<lambda>s. (case y of None \<Rightarrow> Some (False, s)
        | Some ds \<Rightarrow> if in_bad s \<or> ds \<ge> 30 then Some (False, s) else do {
            base' \<leftarrow> rd DBASE ds; ext \<leftarrow> rd DEXT ds; (v', s) \<leftarrow> bitsn ext s;
            if base' + v' > in_len s \<or> base + v > length (in_out s) - in_len s then Some (False, s)
            else do { s \<leftarrow> copy (base + v) (base' + v') s; Some (True, s) } })"
      show "alike (?f s) (?f t)"
      proof (cases y)
        case (Some ds)
        then show ?thesis using st far [OF st, of ds "base + v"] by (auto simp: Let_def same_fields(5) [OF st])
      qed (use st in simp)
    qed
  qed
qed

lemma codes_alike: "same s t \<Longrightarrow> alike (codes fuel lc dc s) (codes fuel lc dc t)"
proof (induction fuel arbitrary: s t)
  case (Suc fuel)
  show ?case unfolding codes.simps
  proof (rule alike_bind [OF decode_alike [OF Suc.prems]], unfold prod.case)
    fix y and s t :: inz assume st: "same s t"
    note e = same_fields [OF st]
    let ?f = "\<lambda>s. case y of None \<Rightarrow> Some (False, s)
      | Some y \<Rightarrow> if in_bad s then Some (False, s)
          else if y < 256 then
            if in_len s \<ge> length (in_out s) then Some (False, s)
            else do { out \<leftarrow> wr (in_out s) (in_len s) (of_nat y);
              codes fuel lc dc (s\<lparr>in_out := out, in_len := in_len s + 1\<rparr>) }
          else if y = 256 then Some (True, s)
          else do { (rc, s) \<leftarrow> back_copy dc (y - 257) s; if rc then codes fuel lc dc s else Some (False, s) }"
    show "alike (?f s) (?f t)"
    proof (cases y)
      case (Some y')
      have lit: "alike (codes fuel lc dc (s\<lparr>in_out := (in_out s)[in_len s := of_nat y'], in_len := in_len s + 1\<rparr>))
          (codes fuel lc dc (t\<lparr>in_out := (in_out t)[in_len s := of_nat y'], in_len := in_len s + 1\<rparr>))"
        if "in_len s < length (in_out s)" using Suc.IH [OF same_put [OF st that]] .
      have cp: "alike (do { (rc, s) \<leftarrow> back_copy dc (y' - 257) s; if rc then codes fuel lc dc s else Some (False, s) })
          (do { (rc, s) \<leftarrow> back_copy dc (y' - 257) t; if rc then codes fuel lc dc s else Some (False, s) })"
        by (rule alike_bind [OF back_copy_alike [OF st]]) (auto intro: Suc.IH)
      show ?thesis using st lit cp Some by (simp add: e(5,6,7) wr_ok)
    qed (use st in simp)
  qed
qed simp

lemma stored_alike:
  assumes "same s t"
  shows "alike (stored s) (stored t)"
proof -
  note e = same_fields [OF assms]
  let ?step = "\<lambda>i s. do { c \<leftarrow> rd (in_p s) (in_pos s + i); out \<leftarrow> wr (in_out s) (in_len s + i) c; Some (s\<lparr>in_out := out\<rparr>) }"
  have copied: "\<exists>o'. each ?step [0..<n] s = Some (s\<lparr>in_out := o'\<rparr>) \<and> length o' = length (in_out s) \<and>
        take (in_len s + n) o' = take (in_len s) (in_out s) @ take n (drop (in_pos s) (in_p s))"
    if "in_pos s + n \<le> length (in_p s)" "n = 0 \<or> in_len s + n \<le> length (in_out s)" for s :: inz and n
    using that
  proof (induction n)
    case (Suc n)
    then obtain o' where o': "each ?step [0..<n] s = Some (s\<lparr>in_out := o'\<rparr>)" "length o' = length (in_out s)"
        "take (in_len s + n) o' = take (in_len s) (in_out s) @ take n (drop (in_pos s) (in_p s))" by auto
    have each_snoc: "each f (xs @ [x]) s = do { s \<leftarrow> each f xs s; f x s }" for f :: "nat \<Rightarrow> inz \<Rightarrow> inz option" and xs x s
      by (induction xs arbitrary: s) (auto split: bind_split)
    have "take (in_len s + Suc n) (o'[in_len s + n := in_p s ! (in_pos s + n)]) =
        take (in_len s + n) o' @ [in_p s ! (in_pos s + n)]"
      using Suc.prems o'(2) by (simp add: take_Suc_conv_app_nth)
    also have "\<dots> = take (in_len s) (in_out s) @ take (Suc n) (drop (in_pos s) (in_p s))"
      using o'(3) Suc.prems by (simp add: take_Suc_conv_app_nth)
    finally have "take (Suc (in_len s + n)) (o'[in_len s + n := in_p s ! (in_pos s + n)]) =
        take (in_len s) (in_out s) @ take (Suc n) (drop (in_pos s) (in_p s))" by simp
    then show ?case using o' Suc.prems
      by (simp add: each_snoc rd_ok wr_ok) (rule exI [of _ "o'[in_len s + n := in_p s ! (in_pos s + n)]"], simp)
  qed (auto intro: exI [of _ "in_out s"])
  have run: "alike (do { s \<leftarrow> each ?step [0..<n] s; Some (True, s\<lparr>in_pos := in_pos s + n, in_len := in_len s + n\<rparr>) })
      (do { s \<leftarrow> each ?step [0..<n] t; Some (True, s\<lparr>in_pos := in_pos s + n, in_len := in_len s + n\<rparr>) })"
    if "same s t" "in_pos s + n \<le> length (in_p s)" "n = 0 \<or> in_len s + n \<le> length (in_out s)" for s t :: inz and n
  proof -
    note e = same_fields [OF that(1)]
    have t: "in_pos t + n \<le> length (in_p t)" "n = 0 \<or> in_len t + n \<le> length (in_out t)" using that(2,3) e by simp_all
    from copied [OF that(2,3)] copied [OF t] show ?thesis
      using e by (auto simp: same_def)
  qed
  let ?n = "unat (in_p s ! in_pos s) + 256 * unat (in_p s ! (in_pos s + 1))"
  let ?s = "s\<lparr>in_nbits := 0, in_pos := in_pos s + 4\<rparr>" and ?t = "t\<lparr>in_nbits := 0, in_pos := in_pos t + 4\<rparr>"
  have st: "same ?s ?t" using assms by (simp add: same_def)
  show ?thesis
  proof (cases "length (in_p s) - in_pos s < 4 \<or> length (in_p s) - (in_pos s + 4) < ?n \<or> length (in_out s) - in_len s < ?n")
    case True
    then show ?thesis using assms st by (auto simp: stored_def Let_def e rd_def same_def)
  next
    case False
    then have "in_pos ?s + ?n \<le> length (in_p ?s)" "?n = 0 \<or> in_len ?s + ?n \<le> length (in_out ?s)" by auto
    note r = run [OF st this]
    have rds: "rd (in_p s) (in_pos s) = Some (in_p s ! in_pos s)" "rd (in_p s) (in_pos s + 1) = Some (in_p s ! (in_pos s + 1))"
      "rd (in_p s) (in_pos s + 2) = Some (in_p s ! (in_pos s + 2))" "rd (in_p s) (in_pos s + 3) = Some (in_p s ! (in_pos s + 3))"
      using False by (auto intro!: rd_ok)
    show ?thesis using False r st rds by (auto simp: stored_def Let_def e)
  qed
qed

lemma fixed_alike: "same s t \<Longrightarrow> alike (fixed fuel s) (fixed fuel t)"
  unfolding fixed_def by (rule pure_bind) (auto intro: codes_alike)

lemma code_lengths_alike: "same s t \<Longrightarrow> alike (each code_length is (len, s)) (each code_length is (len, t))"
proof (induction "is" arbitrary: len s t)
  case (Cons i "is")
  have "alike (code_length i (len, s)) (code_length i (len, t))"
    unfolding code_length_def prod.case
    by (intro pure_bind alike_bind [OF bitsn_alike [OF Cons.prems]]; simp only: prod.case; intro pure_bind; simp)
  then show ?case unfolding each.simps by (rule alike_bind) (rule Cons.IH)
qed simp

lemma lengths_alike:
  "same s t \<Longrightarrow> rel_option (rel_prod (=) (rel_prod (=) same)) (lengths f h tot k len s) (lengths f h tot k len t)"
proof (induction f arbitrary: k len s t)
  case (Suc f)
  show ?case
  proof (cases "k \<ge> tot")
    case False
    show ?thesis unfolding lengths.simps if_not_P [OF False]
    proof (rule alike_bind [OF decode_alike [OF Suc.prems]], unfold prod.case)
      fix y and s t :: inz assume st: "same s t"
      let ?f = "\<lambda>s. case y of None \<Rightarrow> Some (False, len, s)
        | Some y \<Rightarrow> if in_bad s then Some (False, len, s)
            else if y < 16 then do { len \<leftarrow> wr len k y; lengths f h tot (k + 1) len s }
            else if y = 16 \<and> k = 0 then Some (False, len, s)
            else do {
              v \<leftarrow> (if y = 16 then rd len (k - 1) else Some 0);
              (x, s) \<leftarrow> bitsn (if y = 16 then 2 else if y = 17 then 3 else 7) s;
              let rep = (if y = 16 \<or> y = 17 then 3 else 11) + x;
              if k + rep > tot then Some (False, len, s)
              else do { len \<leftarrow> each (\<lambda>i len. wr len i v) [k..<k + rep] len; lengths f h tot (k + rep) len s } }"
      show "rel_option (rel_prod (=) (rel_prod (=) same)) (?f s) (?f t)"
      proof (cases y)
        case (Some y')
        have rep: "rel_option (rel_prod (=) (rel_prod (=) same))
          (do { v \<leftarrow> V; (x, s) \<leftarrow> bitsn n s; if k + (r + x) > tot then Some (False, len, s)
              else do { len \<leftarrow> each (\<lambda>i len. wr len i v) [k..<k + (r + x)] len; lengths f h tot (k + (r + x)) len s } })
          (do { v \<leftarrow> V; (x, s) \<leftarrow> bitsn n t; if k + (r + x) > tot then Some (False, len, s)
              else do { len \<leftarrow> each (\<lambda>i len. wr len i v) [k..<k + (r + x)] len; lengths f h tot (k + (r + x)) len s } })"
          for V :: "nat option" and n r
          by (rule pure_bind, rule alike_bind [OF bitsn_alike [OF st]], unfold prod.case) (auto intro!: pure_bind Suc.IH)
        have one: "rel_option (rel_prod (=) (rel_prod (=) same)) (do { len \<leftarrow> wr len k y'; lengths f h tot (k + 1) len s })
            (do { len \<leftarrow> wr len k y'; lengths f h tot (k + 1) len t })"
          by (rule pure_bind) (rule Suc.IH [OF st])
        show ?thesis unfolding Some option.case same_fields(5) [OF st] Let_def
          using st one rep by simp
      qed (use st in simp)
    qed
  qed (use Suc.prems in simp)
qed simp

text \<open>One step of a relational proof: both sides branch alike.\<close>

lemma alike_if: "c = d \<Longrightarrow> rel_option R x y \<Longrightarrow> rel_option R u v \<Longrightarrow> rel_option R (if c then x else u) (if d then y else v)"
  by simp

lemma alike3_bind:
  assumes "rel_option (rel_prod (=) (rel_prod (=) same)) x y"
    "\<And>a b s t. same s t \<Longrightarrow> rel_option R (f (a, b, s)) (g (a, b, t))"
  shows "rel_option R (Option.bind x f) (Option.bind y g)"
  using assms by (cases x; cases y) auto

lemma alike_some: "same s t \<Longrightarrow> alike (Some (a, s)) (Some (a, t))"
  by simp

lemma bad_alike: "same s t \<Longrightarrow> (P \<or> in_bad s) = (P \<or> in_bad t)" "same s t \<Longrightarrow> in_bad s = in_bad t"
  by (simp_all add: same_def)

lemma dynamic_alike:
  assumes "same s t"
  shows "alike (dynamic fuel s) (dynamic fuel t)"
proof -
  have b2: "(P \<or> Q \<or> in_bad s) = (P \<or> Q \<or> in_bad t)" if "same s t" for P Q s t using that by (simp add: same_def)
  have pb: "rel_option R (Option.bind x f) (Option.bind x g)" if "\<And>a b. rel_option R (f (a, b)) (g (a, b))"
    for R and x :: "('c \<times> 'd) option" and f g
    using that by (cases x) auto
  show ?thesis
    unfolding dynamic_def Let_def
    by (rule alike_bind [OF bitsn_alike [OF assms]], unfold prod.case,
        rule alike_bind [OF bitsn_alike], assumption, unfold prod.case,
        rule alike_bind [OF bitsn_alike], assumption, unfold prod.case,
        rule alike_if, erule b2, erule alike_some,
        rule alike_bind [OF code_lengths_alike], assumption, unfold prod.case,
        rule pb, unfold prod.case, rule alike_if, rule refl, erule alike_some,
        rule alike3_bind [OF lengths_alike], assumption, unfold prod.case, rule alike_if, rule refl, erule alike_some,
        rule pure_bind, rule alike_if, rule refl, erule alike_some,
        rule pb, unfold prod.case, rule alike_if, rule refl, erule alike_some,
        rule pb, unfold prod.case, rule alike_if, rule refl, erule alike_some, erule codes_alike)
qed

lemma zblocks_alike: "same s t \<Longrightarrow> alike (zblocks n fuel s) (zblocks n fuel t)"
proof (induction n arbitrary: s t)
  case (Suc n)
  have kind: "alike (if in_bad s then Some (False, s) else if ty = 0 then stored s else if ty = 1 then fixed fuel s
        else if ty = 2 then dynamic fuel s else Some (False, s))
      (if in_bad t then Some (False, t) else if ty = 0 then stored t else if ty = 1 then fixed fuel t
        else if ty = 2 then dynamic fuel t else Some (False, t))" if "same s t" for ty :: nat and s t
    using that stored_alike [OF that] fixed_alike [OF that] dynamic_alike [OF that] bad_alike(2) [OF that] by simp
  show ?case unfolding zblocks.simps
    by (rule alike_bind [OF bit1_alike [OF Suc.prems]], unfold prod.case,
        rule alike_bind [OF bitsn_alike], assumption, unfold prod.case,
        rule alike_bind [OF kind], assumption, unfold prod.case,
        rule alike_if, erule bad_alike(1), erule alike_some, rule alike_if, rule refl, erule alike_some, erule Suc.IH)
qed simp

lemma inflate_alike:
  assumes "length out' = length out"
  shows "zlib_inflate p out' = zlib_inflate p out"
proof (cases "length p < 2")
  case True
  then show ?thesis by (simp add: zlib_inflate_def)
next
  case False
  let ?s = "\<lambda>out. \<lparr>in_p = p, in_pos = 2, in_bits = 0, in_nbits = 0, in_bad = False, in_out = out, in_len = 0\<rparr>"
  let ?z = "\<lambda>out. zblocks (8 * length p) (8 * length p) (?s out)"
  let ?f = "\<lambda>x. do { (rc, s) \<leftarrow> x; if \<not> rc then Some (Inl Broken)
       else if in_len s \<noteq> length out then Some (Inl (Other_Size (in_len s) (length out))) else Some (Inr (in_out s)) }"
  have "in_ok (?s out)" "bits_left (?s out) < 8 * length p" using False by (simp_all add: in_ok_def bits_left_def)
  then obtain rc s where s: "?z out = Some (rc, s)" "reads (?s out) s" using zblocks_ok by blast
  have "same (?s out) (?s out')" using assms by (simp add: same_def)
  from zblocks_alike [OF this, of "8 * length p" "8 * length p"] s(1)
  obtain t where t: "?z out' = Some (rc, t)" "same s t" by (cases "?z out'") auto
  have "length (in_out s) = length out" using s(2) by (simp add: reads_def)
  then have "in_out t = in_out s" if "in_len s = length out"
    using same_fields(7,8) [OF t(2)] that by (metis order_refl take_all)
  then have z: "?f (?z out') = ?f (?z out)" using s(1) t same_fields(6) [OF t(2)] by simp
  show ?thesis unfolding zlib_inflate_def Let_def assms z ..
qed

section \<open>Bounds\<close>

text \<open>
  C25. Whatever the input and the size of the output, \<open>janas_zlib_inflate\<close> ends, reads and
  writes only inside its arrays, and either reports one of its three errors or fills the whole
  output: the answer does not depend on what the output held before, so it has written every byte.
\<close>

theorem inflate_in_bounds:
  "(case zlib_inflate p out of
     None \<Rightarrow> False
   | Some (Inl (Other_Size k cap)) \<Rightarrow> cap = length out \<and> k < cap
   | Some (Inl _) \<Rightarrow> True
   | Some (Inr out') \<Rightarrow> length out' = length out) \<and>
   zlib_inflate p (replicate (length out) c) = zlib_inflate p out"
proof -
  define bad where "bad \<longleftrightarrow> length p < 2 \<or> unat (p ! 0) mod 16 \<noteq> 8 \<or> (256 * unat (p ! 0) + unat (p ! 1)) mod 31 \<noteq> 0 \<or> p ! 1 AND 0x20 \<noteq> 0"
  have hd: "(if length p < 2 then Some True else do { a \<leftarrow> rd p 0; b \<leftarrow> rd p 1;
      Some (unat a mod 16 \<noteq> 8 \<or> (256 * unat a + unat b) mod 31 \<noteq> 0 \<or> b AND 0x20 \<noteq> 0) }) = Some bad"
  proof (cases "length p < 2")
    case False
    then have "rd p 0 = Some (p ! 0)" "rd p 1 = Some (p ! 1)" by (auto intro!: rd_ok)
    then show ?thesis using False by (simp add: bad_def)
  qed (simp add: bad_def)
  have "zlib_inflate p (replicate (length out) c) = zlib_inflate p out" by (rule inflate_alike) simp
  moreover have "case zlib_inflate p out of
     None \<Rightarrow> False
   | Some (Inl (Other_Size k cap)) \<Rightarrow> cap = length out \<and> k < cap
   | Some (Inl _) \<Rightarrow> True
   | Some (Inr out') \<Rightarrow> length out' = length out"
  proof (cases bad)
    case True
    then show ?thesis unfolding zlib_inflate_def hd by simp
  next
    case False
    let ?s = "\<lparr>in_p = p, in_pos = 2, in_bits = 0, in_nbits = 0, in_bad = False, in_out = out, in_len = 0\<rparr>"
    have "2 \<le> length p" using False by (simp add: bad_def)
    then have "in_ok ?s" "bits_left ?s < 8 * length p" by (simp_all add: in_ok_def bits_left_def)
    then obtain rc s where s: "zblocks (8 * length p) (8 * length p) ?s = Some (rc, s)" "reads ?s s"
      using zblocks_ok by blast
    then have "in_len s \<le> length out" "length (in_out s) = length out" by (auto simp: reads_def in_ok_def)
    then show ?thesis
      unfolding zlib_inflate_def hd using False s(1) by (auto simp: Let_def)
  qed
  ultimately show ?thesis by simp
qed

end
