(* ===== verification/Inflate_Code.thy ===== *)
theory Inflate_Code
  imports Inflate_Safe
begin

text \<open>
  What the decoder reads: the input as a stream of bits, the canonical code of the lengths
  (RFC 1951, section 3.2.2), and the stored blocks.
\<close>

section \<open>The stream of bits\<close>

fun low_bits :: "nat \<Rightarrow> nat \<Rightarrow> nat list" where
  "low_bits 0 x = []"
| "low_bits (Suc n) x = x mod 2 # low_bits n (x div 2)"

definition stream :: "inz \<Rightarrow> nat list" where
  "stream s = low_bits (in_nbits s) (in_bits s) @ concat (map (\<lambda>c. low_bits 8 (unat c)) (drop (in_pos s) (in_p s)))"

lemma bit1_stream:
  assumes "stream s = b # bs"
  shows "\<exists>s'. bit1 s = Some (b, s') \<and> stream s' = bs \<and> in_bad s' = in_bad s"
proof (cases "in_nbits s")
  case (Suc n)
  then show ?thesis using assms by (auto simp: bit1_def take_bit_of_def stream_def)
next
  case 0
  show ?thesis
  proof (cases "in_pos s \<ge> length (in_p s)")
    case True
    then show ?thesis using assms 0 by (simp add: stream_def)
  next
    case False
    then have "drop (in_pos s) (in_p s) = in_p s ! in_pos s # drop (Suc (in_pos s)) (in_p s)"
      by (simp add: Cons_nth_drop_Suc)
    then show ?thesis using assms 0 False
      by (auto simp: bit1_def take_bit_of_def stream_def rd_ok numeral_eq_Suc)
  qed
qed

section \<open>The canonical code\<close>

text \<open>
  The codes of one length are consecutive numbers in the order of the symbols; the first of a
  length follows the last of the length before it, with a zero put at the end.
\<close>

fun first_code :: "nat list \<Rightarrow> nat \<Rightarrow> nat" where
  "first_code lens 0 = 0"
| "first_code lens (Suc l) = (if l = 0 then 0 else 2 * (first_code lens l + cnt lens l (length lens)))"

definition code_of :: "nat list \<Rightarrow> nat \<Rightarrow> nat" where
  "code_of lens i = first_code lens (lens ! i) + cnt lens (lens ! i) i"

text \<open>A code is packed from its most significant bit.\<close>

definition code_bits :: "nat \<Rightarrow> nat \<Rightarrow> nat list" where
  "code_bits l v = rev (low_bits l v)"

lemma length_low_bits [simp]: "length (low_bits n x) = n"
  by (induction n arbitrary: x) auto

lemma low_bits_Suc: "x < 2 ^ Suc n \<Longrightarrow> low_bits (Suc n) x = low_bits n (x mod 2 ^ n) @ [x div 2 ^ n]"
proof (induction n arbitrary: x)
  case 0
  then show ?case by simp
next
  case (Suc n)
  have "x div 2 < 2 ^ Suc n" using Suc.prems by simp
  from Suc.IH [OF this] have "low_bits (Suc (Suc n)) x = x mod 2 # low_bits n (x div 2 mod 2 ^ n) @ [x div 2 div 2 ^ n]"
    by simp
  moreover have "x mod 2 ^ Suc n mod 2 = x mod 2" "x mod 2 ^ Suc n div 2 = x div 2 mod 2 ^ n"
    by (simp_all add: mod_mult2_eq mod_mod_cancel)
  ultimately show ?case by (simp add: div_mult2_eq)
qed

lemma code_bits_Suc: "v < 2 ^ Suc k \<Longrightarrow> code_bits (Suc k) v = v div 2 ^ k # code_bits k (v mod 2 ^ k)"
  unfolding code_bits_def by (simp add: low_bits_Suc del: low_bits.simps)

text \<open>When no length has too many codes, the codes of a length fit it.\<close>

lemma codes_fit:
  assumes "left_ok 1 (map (\<lambda>l. cnt lens l (length lens)) [1..<16])" and "1 \<le> l" "l < 16"
  shows "first_code lens l + cnt lens l (length lens) \<le> 2 ^ l"
proof -
  have "left_ok x (map (\<lambda>l. cnt lens l (length lens)) [k..<16]) \<Longrightarrow> 1 \<le> k \<Longrightarrow> k \<le> l \<Longrightarrow>
      2 * x = 2 ^ k - int (first_code lens k) \<Longrightarrow> first_code lens l + cnt lens l (length lens) \<le> 2 ^ l" for x k
  proof (induction "l - k" arbitrary: k x)
    case 0
    then have "[k..<16] = l # [Suc l..<16]" using assms(3) by (simp add: upt_rec)
    then have "0 \<le> 2 ^ l - int (first_code lens l) - int (cnt lens l (length lens))"
      using 0 by (simp add: Let_def mult.commute split: if_splits)
    then have "int (first_code lens l + cnt lens l (length lens)) \<le> int (2 ^ l)" by simp
    then show ?case unfolding of_nat_le_iff .
  next
    case (Suc n)
    then have k: "k < l" "[k..<16] = k # [Suc k..<16]" using assms(3) by (auto simp: upt_rec)
    define y where "y = x * 2 - int (cnt lens k (length lens))"
    have "left_ok y (map (\<lambda>l. cnt lens l (length lens)) [Suc k..<16])"
      using Suc.prems(1) k(2) by (simp add: Let_def y_def split: if_splits)
    moreover have "2 * y = 2 ^ Suc k - int (first_code lens (Suc k))"
      using Suc.prems(2,4) by (simp add: y_def algebra_simps)
    ultimately show ?case using Suc.hyps(1) [of "Suc k" y] Suc.hyps(2) k(1) by simp
  qed
  from this [of 1 1] show ?thesis using assms by simp
qed

lemma first_code_grows:
  assumes "1 \<le> l" "l < k"
  shows "2 ^ (k - l) * (first_code lens l + cnt lens l (length lens)) \<le> first_code lens k"
  using assms(2)
proof (induction "k - l" arbitrary: k)
  case 0
  then show ?case by simp
next
  case (Suc n)
  then obtain j where k: "k = Suc j" by (cases k) auto
  show ?case
  proof (cases "j = l")
    case True
    then show ?thesis using k assms(1) by simp
  next
    case False
    then have j: "l < j" using k Suc.prems by simp
    then have "2 ^ (j - l) * (first_code lens l + cnt lens l (length lens)) \<le> first_code lens j"
      using Suc.hyps k by simp
    moreover have "2 ^ (k - l) = 2 * (2 ^ (j - l) :: nat)" using j k by (simp add: Suc_diff_le)
    ultimately show ?thesis using k j assms(1) by simp
  qed
qed

lemma next_bit: "v mod 2 ^ Suc k div 2 ^ k = v div 2 ^ k mod 2" for v :: nat
  unfolding power_Suc2 mod_mult2_eq by simp

lemma decode_from_code:
  assumes h: "table_ok lens h" "table_full lens h" "lens_ok lens" and i: "i < length lens" "lens ! i \<noteq> 0"
    and v: "v = code_of lens i" "v < 2 ^ (lens ! i)"
  shows "1 \<le> l \<Longrightarrow> l \<le> lens ! i \<Longrightarrow> stream s = code_bits (Suc (lens ! i - l)) (v mod 2 ^ Suc (lens ! i - l)) @ rest \<Longrightarrow>
    \<not> in_bad s \<Longrightarrow>
    \<exists>s'. decode_from l (16 - l) (2 * (v div 2 ^ Suc (lens ! i - l))) (first_code lens l) (base lens l) h s = Some (Some i, s') \<and>
      stream s' = rest \<and> \<not> in_bad s'"
proof (induction "lens ! i - l" arbitrary: l s)
  let ?L = "lens ! i"
  have L: "?L < 16" using h(3) i(1) by (simp add: lens_ok_def)
  {
    fix l and s :: inz
    assume l: "1 \<le> l" "l \<le> ?L" and s: "stream s = code_bits (Suc (?L - l)) (v mod 2 ^ Suc (?L - l)) @ rest" "\<not> in_bad s"
    let ?b = "v mod 2 ^ Suc (?L - l) div 2 ^ (?L - l)"
    have "stream s = ?b # code_bits (?L - l) (v mod 2 ^ (?L - l)) @ rest"
      using s(1) by (simp add: code_bits_Suc mod_mod_cancel le_imp_power_dvd)
    then have "\<exists>s1. bit1 s = Some (?b, s1) \<and> stream s1 = code_bits (?L - l) (v mod 2 ^ (?L - l)) @ rest \<and> \<not> in_bad s1"
      using bit1_stream [of s] s(2) by fastforce
    moreover have "2 * (v div 2 ^ Suc (?L - l)) + ?b = v div 2 ^ (?L - l)"
    proof -
      have "v div 2 ^ (?L - l) = 2 * (v div 2 ^ (?L - l) div 2) + v div 2 ^ (?L - l) mod 2" by simp
      moreover have "v div 2 ^ (?L - l) div 2 = v div 2 ^ Suc (?L - l)" unfolding power_Suc2 div_mult2_eq ..
      moreover have "v div 2 ^ (?L - l) mod 2 = ?b" by (rule next_bit [symmetric])
      ultimately show ?thesis by simp
    qed
    moreover have "rd (h_count h) l = Some (cnt lens l (length lens))" using h(1) l L by (simp add: table_ok_def rd_ok)
    ultimately have "\<exists>s1. bit1 s = Some (?b, s1) \<and> stream s1 = code_bits (?L - l) (v mod 2 ^ (?L - l)) @ rest \<and> \<not> in_bad s1 \<and>
        2 * (v div 2 ^ Suc (?L - l)) + ?b = v div 2 ^ (?L - l) \<and> rd (h_count h) l = Some (cnt lens l (length lens))" by blast
  } note step = this
  {
    case 0
    then have l: "l = ?L" by simp
    obtain s1 where 1: "bit1 s = Some (v mod 2 ^ Suc (?L - l) div 2 ^ (?L - l), s1)" "stream s1 = rest" "\<not> in_bad s1"
      "2 * (v div 2 ^ Suc (?L - l)) + v mod 2 ^ Suc (?L - l) div 2 ^ (?L - l) = v"
      "rd (h_count h) l = Some (cnt lens l (length lens))"
      using step [OF 0(2-5)] 0(1) by (auto simp: code_bits_def)
    have lt: "cnt lens ?L i < cnt lens ?L (length lens)" by (rule cnt_less) (use i in simp_all)
    have "base lens ?L + cnt lens ?L i < base lens (Suc ?L)" using base_Suc [of ?L lens] lt i(2) by simp
    then have "base lens ?L + cnt lens ?L i < length (h_sym h)"
      using base_le [of lens "Suc ?L"] h(1,3) by (simp add: table_ok_def lens_ok_def)
    then have "rd (h_sym h) (base lens ?L + (v - first_code lens ?L)) = Some i"
      using h(2) i v(1) by (simp add: rd_ok table_full_def code_of_def)
    moreover have "v < first_code lens ?L + cnt lens ?L (length lens)" using lt v(1) by (simp add: code_of_def)
    moreover have "16 - l = Suc (15 - l)" using l L by simp
    ultimately show ?case using 1 l by (simp add: Let_def)
  next
    case (Suc n)
    then have l: "l < ?L" by simp
    obtain s1 where 1: "bit1 s = Some (v mod 2 ^ Suc (?L - l) div 2 ^ (?L - l), s1)"
      "stream s1 = code_bits (?L - l) (v mod 2 ^ (?L - l)) @ rest" "\<not> in_bad s1"
      "2 * (v div 2 ^ Suc (?L - l)) + v mod 2 ^ Suc (?L - l) div 2 ^ (?L - l) = v div 2 ^ (?L - l)"
      "rd (h_count h) l = Some (cnt lens l (length lens))"
      using step [OF Suc(3-6)] by blast
    let ?c = "cnt lens l (length lens)"
    have "2 ^ (?L - l) * (first_code lens l + ?c) \<le> v"
      using first_code_grows [OF Suc.prems(1) l, of lens] v(1) by (simp add: code_of_def)
    then have ge: "\<not> v div 2 ^ (?L - l) < first_code lens l + ?c"
      by (simp add: not_less less_eq_div_iff_mult_less_eq mult.commute)
    have d: "?L - l = Suc (?L - Suc l)" "16 - l = Suc (16 - Suc l)" using l L by simp_all
    have "\<exists>s'. decode_from (Suc l) (16 - Suc l) (2 * (v div 2 ^ Suc (?L - Suc l))) (first_code lens (Suc l)) (base lens (Suc l)) h s1 = Some (Some i, s') \<and>
        stream s' = rest \<and> \<not> in_bad s'"
      by (rule Suc.hyps(1)) (use Suc.hyps(2) Suc.prems(1) l 1(2,3) d(1) in simp_all)
    moreover have "first_code lens (Suc l) = 2 * (first_code lens l + ?c)" "base lens (Suc l) = base lens l + ?c"
      using Suc.prems(1) base_Suc [of l lens] by simp_all
    ultimately show ?case using 1 ge d by (simp add: Let_def)
  }
qed

text \<open>
  C26. A code that \<open>build\<close> accepts is decoded as RFC 1951 defines it: the bits of symbol
  \<open>i\<close>'s canonical code, most significant first, read as \<open>i\<close>, and no bit after them is taken.
\<close>

theorem decode_canonical:
  assumes "lens_ok lens" and "build lens huff_new = Some (True, h)" and i: "i < length lens" "lens ! i \<noteq> 0"
    and "stream s = code_bits (lens ! i) (code_of lens i) @ rest" and "\<not> in_bad s"
  shows "\<exists>s'. decode h s = Some (Some i, s') \<and> stream s' = rest \<and> \<not> in_bad s'"
proof -
  let ?L = "lens ! i" and ?v = "code_of lens i"
  have "length (h_sym huff_new) = 320" by (simp add: huff_new_def)
  with build_made [OF assms(1) this] assms(2)
  have t: "table_ok lens h" "table_full lens h" "left_ok 1 (map (\<lambda>l. cnt lens l (length lens)) [1..<16])" by auto
  have L: "1 \<le> ?L" "?L < 16" using i assms(1) by (auto simp: lens_ok_def)
  have "cnt lens ?L i < cnt lens ?L (length lens)" by (rule cnt_less) (use i in simp_all)
  then have v: "?v < 2 ^ ?L" using codes_fit [OF t(3) L] by (simp add: code_of_def)
  obtain k where k: "?L = Suc k" using L(1) by (cases ?L) auto
  have "\<exists>s'. decode_from 1 (16 - 1) (2 * (?v div 2 ^ Suc (?L - 1))) (first_code lens 1) (base lens 1) h s = Some (Some i, s') \<and>
      stream s' = rest \<and> \<not> in_bad s'"
    by (rule decode_from_code [OF t(1,2) assms(1) i refl v]) (use L assms(5,6) v k in simp_all)
  then show ?thesis using v k by (simp add: decode_def base_def)
qed

definition demo_lens :: "nat list" where
  "demo_lens = [2, 1, 3, 3]"

definition demo_in :: inz where
  "demo_in = \<lparr>in_p = [0x03], in_pos = 0, in_bits = 0, in_nbits = 0, in_bad = False, in_out = [], in_len = 0\<rparr>"

lemma decode_canonical_witness:
  "\<exists>h s'. build demo_lens huff_new = Some (True, h) \<and> decode h demo_in = Some (Some 2, s') \<and> stream s' = [0, 0, 0, 0, 0]"
proof -
  have ok: "lens_ok demo_lens" by (simp add: lens_ok_def demo_lens_def)
  have "\<exists>h. build demo_lens huff_new = Some (True, h)"
  proof -
    have "fst (the (build demo_lens huff_new))" "build demo_lens huff_new \<noteq> None" by code_simp+
    then show ?thesis by (cases "build demo_lens huff_new") auto
  qed
  then obtain h where h: "build demo_lens huff_new = Some (True, h)" by blast
  have i: "2 < length demo_lens" "demo_lens ! 2 \<noteq> 0" by (simp_all add: demo_lens_def)
  have s: "stream demo_in = code_bits (demo_lens ! 2) (code_of demo_lens 2) @ [0, 0, 0, 0, 0]" by code_simp
  have "\<not> in_bad demo_in" by (simp add: demo_in_def)
  from decode_canonical [OF ok h i s this] h show ?thesis by blast
qed

section \<open>Stored blocks\<close>

definition zlib_stored :: "bytes \<Rightarrow> bytes \<Rightarrow> bytes" where
  "zlib_stored d tail =
     (let n = length d; c = n XOR 0xffff in
      [0x78, 0x01, 0x01, of_nat (n mod 256), of_nat (n div 256), of_nat (c mod 256), of_nat (c div 256)] @ d @ tail)"

lemma each_append: "each f (xs @ ys) s = each f xs s \<bind> each f ys"
  by (induction xs arbitrary: s) (auto split: bind_splits)

lemma copied:
  fixes s :: inz
  assumes "i \<le> length d" "length (in_out s) = length d" "in_p s = h @ d @ tail" "in_pos s = length h" "in_len s = 0"
  shows "each (\<lambda>i s. do { c \<leftarrow> rd (in_p s) (in_pos s + i); out \<leftarrow> wr (in_out s) (in_len s + i) c;
      Some (s\<lparr>in_out := out\<rparr>) }) [0..<i] s = Some (s\<lparr>in_out := take i d @ drop i (in_out s)\<rparr>)"
  using assms(1)
proof (induction i)
  case 0
  then show ?case by simp
next
  case (Suc i)
  have out: "(take i d @ drop i (in_out s))[i := d ! i] = take (Suc i) d @ drop (Suc i) (in_out s)"
    using Suc.prems assms(2) by (simp add: list_update_append take_Suc_conv_app_nth Cons_nth_drop_Suc [symmetric])
  have "rd (in_p s) (in_pos s + i) = Some (d ! i)" using Suc.prems assms by (simp add: rd_def nth_append)
  moreover have "wr (take i d @ drop i (in_out s)) (in_len s + i) (d ! i) = Some (take (Suc i) d @ drop (Suc i) (in_out s))"
    using Suc.prems assms(2,5) out by (simp add: wr_def)
  ultimately show ?case
    using Suc by (simp add: each_append)
qed

lemma xor_small: "n XOR 0xffff < (65536 :: nat)" if "n < 65536" for n :: nat
proof -
  have "int n XOR 0xffff < 2 ^ 16" by (rule XOR_upper) (use that in simp_all)
  then have "int (n XOR 0xffff) < 2 ^ 16" by (simp add: of_nat_xor_eq)
  then show ?thesis by simp
qed

lemma two_bytes: "n < 65536 \<Longrightarrow> unat (of_nat (n mod 256) :: u8) + 256 * unat (of_nat (n div 256) :: u8) = n" for n :: nat
  by (simp add: unat_of_nat)

text \<open>
  C27. Data of less than 64 KiB stored in one block comes back as it was, whatever follows the
  block (the checksum is not read).
\<close>

theorem stored_round_trip:
  assumes "length d < 65536" and "length out = length d"
  shows "zlib_inflate (zlib_stored d tail) out = Some (Inr d)"
proof -
  define n where "n = length d"
  define c where "c = n XOR 0xffff"
  let ?h = "[0x78, 0x01, 0x01, of_nat (n mod 256), of_nat (n div 256), of_nat (c mod 256), of_nat (c div 256)] :: bytes"
  define p where "p = ?h @ d @ tail"
  have p: "zlib_stored d tail = p" by (simp add: zlib_stored_def p_def n_def c_def Let_def)
  have nc: "n < 65536" "c < 65536" using assms(1) xor_small [of n] by (simp_all add: n_def c_def)
  let ?s = "\<lparr>in_p = p, in_pos = 3, in_bits = 0, in_nbits = 5, in_bad = False, in_out = out, in_len = 0\<rparr>"
  have bits: "bit1 \<lparr>in_p = p, in_pos = 2, in_bits = 0, in_nbits = 0, in_bad = False, in_out = out, in_len = 0\<rparr> =
      Some (1, \<lparr>in_p = p, in_pos = 3, in_bits = 0, in_nbits = 7, in_bad = False, in_out = out, in_len = 0\<rparr>)"
    "bitsn 2 \<lparr>in_p = p, in_pos = 3, in_bits = 0, in_nbits = 7, in_bad = False, in_out = out, in_len = 0\<rparr> = Some (0, ?s)"
    by (simp_all add: bit1_def take_bit_of_def rd_def p_def bitsn_def numeral_2_eq_2)
  let ?s7 = "\<lparr>in_p = p, in_pos = 7, in_bits = 0, in_nbits = 0, in_bad = False, in_out = out, in_len = 0\<rparr> :: inz"
  have "each (\<lambda>i s. do { c \<leftarrow> rd (in_p s) (in_pos s + i); out \<leftarrow> wr (in_out s) (in_len s + i) c;
      Some (s\<lparr>in_out := out\<rparr>) }) [0..<n] ?s7 = Some (?s7\<lparr>in_out := take n d @ drop n (in_out ?s7)\<rparr>)"
    by (rule copied [where h = ?h and tail = tail]) (use assms(2) in \<open>simp_all add: n_def p_def\<close>)
  then have copy: "each (\<lambda>i s. do { c \<leftarrow> rd (in_p s) (in_pos s + i); out \<leftarrow> wr (in_out s) (in_len s + i) c;
      Some (s\<lparr>in_out := out\<rparr>) }) [0..<n] ?s7 = Some (?s7\<lparr>in_out := d\<rparr>)"
    using assms(2) by (simp add: n_def)
  have "stored ?s = Some (True, \<lparr>in_p = p, in_pos = 7 + n, in_bits = 0, in_nbits = 0, in_bad = False, in_out = d, in_len = n\<rparr>)"
  proof -
    have rds: "rd p 3 = Some (of_nat (n mod 256))" "rd p 4 = Some (of_nat (n div 256))"
      "rd p 5 = Some (of_nat (c mod 256))" "rd p 6 = Some (of_nat (c div 256))"
      by (simp_all add: rd_def p_def)
    have len: "length p = 7 + n + length tail" by (simp add: p_def n_def)
    have "length out = n" using assms(2) by (simp add: n_def)
    then show ?thesis
      using copy rds len two_bytes [OF nc(1)] two_bytes [OF nc(2)] by (simp add: stored_def Let_def flip: c_def)
  qed
  then have "zblocks (8 * length p) (8 * length p)
      \<lparr>in_p = p, in_pos = 2, in_bits = 0, in_nbits = 0, in_bad = False, in_out = out, in_len = 0\<rparr> =
    Some (True, \<lparr>in_p = p, in_pos = 7 + n, in_bits = 0, in_nbits = 0, in_bad = False, in_out = d, in_len = n\<rparr>)"
  proof -
    obtain k where "8 * length p = Suc k" by (cases "8 * length p") (auto simp: p_def)
    moreover assume "stored ?s = Some (True, \<lparr>in_p = p, in_pos = 7 + n, in_bits = 0, in_nbits = 0, in_bad = False, in_out = d, in_len = n\<rparr>)"
    ultimately show ?thesis using bits by simp
  qed
  then show ?thesis
    unfolding p by (simp add: zlib_inflate_def rd_def p_def n_def assms(2))
qed

lemma stored_round_trip_witness:
  "zlib_inflate (zlib_stored [0x41, 0x42, 0x43] [0x07]) [0, 0, 0] = Some (Inr [0x41, 0x42, 0x43])"
  by (rule stored_round_trip) simp_all



end
