(* ===== verification/Tok_Text.thy ===== *)
theory Tok_Text
  imports Prelude
begin

text \<open>
  \<open>src/llm/tokenizer.c\<close>, the text: UTF-8, the classes of code points and the ends of
  pre-tokens. A pointer with the count of bytes left is the list of those bytes. The tables of
  \<open>unicode_data.h\<close>, generated from the Unicode database, are an argument.
\<close>

section \<open>UTF-8\<close>

definition put_cp :: "u32 \<Rightarrow> bytes" where
  "put_cp cp =
     (if cp < 0x80 then [ucast cp]
      else if cp < 0x800 then
        [ucast (0xC0 OR drop_bit 6 cp), ucast (0x80 OR (cp AND 0x3F))]
      else if cp < 0x10000 then
        [ucast (0xE0 OR drop_bit 12 cp), ucast (0x80 OR (drop_bit 6 cp AND 0x3F)), ucast (0x80 OR (cp AND 0x3F))]
      else
        [ucast (0xF0 OR drop_bit 18 cp), ucast (0x80 OR (drop_bit 12 cp AND 0x3F)),
         ucast (0x80 OR (drop_bit 6 cp AND 0x3F)), ucast (0x80 OR (cp AND 0x3F))])"

definition lead_len :: "u8 \<Rightarrow> nat \<Rightarrow> nat" where
  "lead_len c n =
     (let k = (if c < 0xC0 then 1 else if c < 0xE0 then 2 else if c < 0xF0 then 3 else 4)
      in if k < n then k else n)"

text \<open>The bytes that go on a sequence, from place \<open>i\<close>; \<open>None\<close> when one is not of that form.\<close>

fun more_bytes :: "bytes \<Rightarrow> u32 \<Rightarrow> u32 option" where
  "more_bytes [] cp = Some cp"
| "more_bytes (b # bs) cp =
     (if b AND 0xC0 \<noteq> 0x80 then None
      else more_bytes bs (push_bit 6 cp OR ucast (b AND 0x3F)))"

definition get_cp :: "bytes \<Rightarrow> u32 \<times> nat" where
  "get_cp s =
     (let c = ucast (s ! 0) :: u32;
          k = (if c < 0x80 then 1 else if drop_bit 5 c = 6 then 2 else if drop_bit 4 c = 14 then 3
               else if drop_bit 3 c = 30 then 4 else 0)
      in if k = 0 \<or> k > length s then (0xFFFD, 1)
         else
           let cp = (if k = 1 then c else c AND drop_bit k 0x7F)
           in case more_bytes (take (k - 1) (drop 1 s)) cp of
                None \<Rightarrow> (0xFFFD, 1)
              | Some cp \<Rightarrow> (cp, k))"

section \<open>Classes of code points\<close>

function search :: "(u32 \<times> u32) list \<Rightarrow> u32 \<Rightarrow> nat \<Rightarrow> nat \<Rightarrow> bool" where
  "search r cp lo hi =
     (if lo < hi then
        let mid = (lo + hi) div 2 in
        if cp < fst (r ! mid) then search r cp lo mid
        else if cp > snd (r ! mid) then search r cp (mid + 1) hi
        else True
      else False)"
  by pat_completeness auto
termination
  by (relation "measure (\<lambda>(r, cp, lo, hi). hi - lo)") auto

declare search.simps [simp del]

definition in_ranges :: "(u32 \<times> u32) list \<Rightarrow> u32 \<Rightarrow> bool" where
  "in_ranges r cp = search r cp 0 (length r)"

record unidata =
  uni_letter :: "(u32 \<times> u32) list"
  uni_number :: "(u32 \<times> u32) list"
  uni_mark :: "(u32 \<times> u32) list"
  uni_space :: "(u32 \<times> u32) list"

definition is_letter :: "unidata \<Rightarrow> u32 \<Rightarrow> bool" where
  "is_letter d c = in_ranges (uni_letter d) c"

definition is_number :: "unidata \<Rightarrow> u32 \<Rightarrow> bool" where
  "is_number d c = in_ranges (uni_number d) c"

definition is_mark :: "unidata \<Rightarrow> u32 \<Rightarrow> bool" where
  "is_mark d c = in_ranges (uni_mark d) c"

definition is_space :: "unidata \<Rightarrow> u32 \<Rightarrow> bool" where
  "is_space d c = in_ranges (uni_space d) c"

definition is_newline :: "u32 \<Rightarrow> bool" where
  "is_newline c \<longleftrightarrow> c = 0x0D \<or> c = 0x0A"

section \<open>Pre-tokens\<close>

text \<open>\<open>while (k < n && p(cp[k])) k++\<close>\<close>

definition run :: "(u32 \<Rightarrow> bool) \<Rightarrow> u32 list \<Rightarrow> nat \<Rightarrow> nat" where
  "run p cp k = k + length (takeWhile p (drop k cp))"

text \<open>The white space from \<open>i\<close>: to its last newline, else all but a last space before more text.\<close>

definition space_end :: "unidata \<Rightarrow> u32 list \<Rightarrow> nat \<Rightarrow> nat" where
  "space_end d cp i =
     (let e = run (is_space d) cp i;
          last_nl = fold (\<lambda>k nl. if is_newline (cp ! k) then k + 1 else nl) [i..<e] 0
      in if last_nl \<noteq> 0 then last_nl
         else if e = length cp then e
         else if e - i \<ge> 2 then e - 1
         else e)"

definition word_cp :: "unidata \<Rightarrow> bool \<Rightarrow> u32 \<Rightarrow> bool" where
  "word_cp d marks c \<longleftrightarrow> is_letter d c \<or> marks \<and> is_mark d c"

text \<open>The contraction at \<open>i\<close>, whose code point is an apostrophe.\<close>

definition contraction :: "u32 list \<Rightarrow> nat \<Rightarrow> nat option" where
  "contraction cp i =
     (let a = cp ! (i + 1) OR 0x20;
          b = (if i + 2 < length cp then cp ! (i + 2) OR 0x20 else 0)
      in if cp ! (i + 1) < 0x80 then
           if a = 0x73 \<or> a = 0x74 then Some (i + 2)
           else if a = 0x72 \<and> b = 0x65 \<or> a = 0x76 \<and> b = 0x65 then Some (i + 3)
           else if a = 0x6D then Some (i + 2)
           else if a = 0x6C \<and> b = 0x6C then Some (i + 3)
           else if a = 0x64 then Some (i + 2)
           else None
         else None)"

definition pretoken_end :: "unidata \<Rightarrow> u32 list \<Rightarrow> nat \<Rightarrow> bool \<Rightarrow> nat \<Rightarrow> nat" where
  "pretoken_end d cp i marks digits =
     (let n = length cp; c = cp ! i;
          other = (\<lambda>c. \<not> is_space d c \<and> \<not> word_cp d marks c \<and> \<not> is_number d c)
      in case (if c = 0x27 \<and> i + 1 < n then contraction cp i else None) of
           Some e \<Rightarrow> e
         | None \<Rightarrow>
             let k = (if \<not> is_letter d c \<and> \<not> is_newline c \<and> \<not> is_number d c \<and> i + 1 < n
                         \<and> word_cp d marks (cp ! (i + 1))
                      then i + 1 else i)
             in if word_cp d marks (cp ! k) then run (word_cp d marks) cp k
                else if is_number d c
                then i + 1 + length (takeWhile (is_number d) (take (digits - 1) (drop (i + 1) cp)))
                else
                  let k = (if c = 0x20 then i + 1 else i)
                  in if k < n \<and> other (cp ! k) then run is_newline cp (run other cp k)
                     else if is_space d c then space_end d cp i
                     else i + 1)"

definition gpt2_end :: "unidata \<Rightarrow> u32 list \<Rightarrow> nat \<Rightarrow> nat" where
  "gpt2_end d cp i =
     (let n = length cp; c = cp ! i;
          a = cp ! (i + 1); b = (if i + 2 < n then cp ! (i + 2) else 0);
          other = (\<lambda>c. \<not> is_space d c \<and> \<not> is_letter d c \<and> \<not> is_number d c)
      in if c = 0x27 \<and> i + 1 < n \<and> (a = 0x73 \<or> a = 0x74 \<or> a = 0x6D \<or> a = 0x64) then i + 2
         else if c = 0x27 \<and> i + 1 < n \<and> (a = 0x72 \<and> b = 0x65 \<or> a = 0x76 \<and> b = 0x65 \<or> a = 0x6C \<and> b = 0x6C)
         then i + 3
         else
           let k = (if c = 0x20 \<and> i + 1 < n \<and> \<not> is_space d (cp ! (i + 1)) then i + 1 else i)
           in if k < n \<and> is_letter d (cp ! k) then run (is_letter d) cp k
              else if k < n \<and> is_number d (cp ! k) then run (is_number d) cp k
              else if k < n \<and> \<not> is_space d (cp ! k) then run other cp k
              else
                let e = run (is_space d) cp i
                in if e < n \<and> e - i \<ge> 2 then e - 1 else e)"

definition LM :: "unidata \<Rightarrow> u32 \<Rightarrow> bool" where
  "LM d c \<longleftrightarrow> is_letter d c \<or> is_mark d c"

definition UP :: "unidata \<Rightarrow> u32 \<Rightarrow> bool" where
  "UP d c \<longleftrightarrow> LM d c \<and> \<not> (0x61 \<le> c \<and> c \<le> 0x7A)"

definition LO :: "unidata \<Rightarrow> u32 \<Rightarrow> bool" where
  "LO d c \<longleftrightarrow> LM d c \<and> \<not> (0x41 \<le> c \<and> c \<le> 0x5A)"

text \<open>The place of the last small letter before \<open>p\<close>, not before \<open>k\<close>.\<close>

fun give_back :: "unidata \<Rightarrow> u32 list \<Rightarrow> nat \<Rightarrow> nat \<Rightarrow> nat option" where
  "give_back d cp k 0 = None"
| "give_back d cp k (Suc p) =
     (if Suc p > k then if LO d (cp ! p) then Some p else give_back d cp k p else None)"

definition tekken_end :: "unidata \<Rightarrow> u32 list \<Rightarrow> nat \<Rightarrow> nat" where
  "tekken_end d cp i =
     (let n = length cp; c = cp ! i;
          other = (\<lambda>c. \<not> is_space d c \<and> \<not> is_letter d c \<and> \<not> is_number d c);
          k = (if \<not> is_newline c \<and> \<not> is_letter d c \<and> \<not> is_number d c \<and> i + 1 < n \<and> LM d (cp ! (i + 1))
               then i + 1 else i);
          u = run (UP d) cp k
      in case (if k < n \<and> LM d (cp ! k) then
                 if u < n \<and> LO d (cp ! u) then Some (run (LO d) cp u)
                 else case give_back d cp k u of
                        Some p \<Rightarrow> Some (run (LO d) cp p)
                      | None \<Rightarrow> if u > k then Some u else None
               else None) of
           Some e \<Rightarrow> e
         | None \<Rightarrow>
             if is_number d c then i + 1
             else
               let k = (if c = 0x20 then i + 1 else i)
               in if k < n \<and> other (cp ! k)
                  then run (\<lambda>c. is_newline c \<or> c = 0x2F) cp (run other cp k)
                  else if is_space d c then space_end d cp i
                  else i + 1)"

section \<open>Every pre-token has at least one code point\<close>

lemma run_le: "k \<le> length cp \<Longrightarrow> k \<le> run p cp k \<and> run p cp k \<le> length cp"
  using length_takeWhile_le [of p "drop k cp"] by (simp add: run_def)

lemma run_more: "k < length cp \<Longrightarrow> p (cp ! k) \<Longrightarrow> k < run p cp k \<and> run p cp k \<le> length cp"
  using run_le [of k cp p] by (simp add: run_def flip: Cons_nth_drop_Suc)

lemma space_end_ok:
  assumes "i < length cp" and "is_space d (cp ! i)"
  shows "i < space_end d cp i \<and> space_end d cp i \<le> length cp"
proof -
  define e where "e = run (is_space d) cp i"
  have e: "i < e" "e \<le> length cp" using run_more [OF assms(1), of "is_space d"] assms(2) by (simp_all add: e_def)
  have "fold (\<lambda>k nl. if is_newline (cp ! k) then k + 1 else nl) [i..<e] 0 \<in> {0} \<union> {i<..e}"
    by (rule fold_invariant_list) auto
  then show ?thesis using e by (auto simp: space_end_def Let_def simp flip: e_def)
qed

lemma contraction_ok: "contraction cp i = Some e \<Longrightarrow> i + 1 < length cp \<Longrightarrow> i < e \<and> e \<le> length cp"
  by (auto simp: contraction_def Let_def split: if_splits)

lemma pretoken_progress:
  assumes "i < length cp"
  shows "i < pretoken_end d cp i marks digits \<and> pretoken_end d cp i marks digits \<le> length cp"
proof -
  let ?n = "length cp" and ?c = "cp ! i" and ?w = "word_cp d marks"
  let ?o = "\<lambda>c. \<not> is_space d c \<and> \<not> ?w c \<and> \<not> is_number d c"
  define k where "k = (if \<not> is_letter d ?c \<and> \<not> is_newline ?c \<and> \<not> is_number d ?c \<and> i + 1 < ?n \<and> ?w (cp ! (i + 1))
    then i + 1 else i)"
  have k: "i \<le> k" "k < ?n" using assms by (auto simp: k_def)
  define k2 where "k2 = (if ?c = 0x20 then i + 1 else i)"
  have k2: "i \<le> k2" by (simp add: k2_def)
  have num: "i < i + 1 + length (takeWhile (is_number d) (take (digits - 1) (drop (i + 1) cp))) \<and>
      i + 1 + length (takeWhile (is_number d) (take (digits - 1) (drop (i + 1) cp))) \<le> ?n"
    using length_takeWhile_le [of "is_number d" "take (digits - 1) (drop (i + 1) cp)"] assms by auto
  have other: "i < run is_newline cp (run ?o cp k2) \<and> run is_newline cp (run ?o cp k2) \<le> ?n" if "k2 < ?n" "?o (cp ! k2)"
    using run_more [of k2 cp ?o, OF that] run_le [of "run ?o cp k2" cp is_newline] k2 by simp
  show ?thesis
  proof (cases "if ?c = 0x27 \<and> i + 1 < ?n then contraction cp i else None")
    case (Some e)
    then show ?thesis using contraction_ok [of cp i e] by (auto simp: pretoken_end_def Let_def split: if_splits)
  next
    case None
    then have "pretoken_end d cp i marks digits =
      (if ?w (cp ! k) then run ?w cp k
       else if is_number d ?c then i + 1 + length (takeWhile (is_number d) (take (digits - 1) (drop (i + 1) cp)))
       else if k2 < ?n \<and> ?o (cp ! k2) then run is_newline cp (run ?o cp k2)
       else if is_space d ?c then space_end d cp i else i + 1)"
      by (simp only: pretoken_end_def Let_def k_def k2_def option.case)
    then show ?thesis
      using run_more [OF k(2), of ?w] k(1) num other space_end_ok [OF assms] assms by auto
  qed
qed

lemma gpt2_progress:
  assumes "i < length cp"
  shows "i < gpt2_end d cp i \<and> gpt2_end d cp i \<le> length cp"
proof -
  let ?n = "length cp" and ?c = "cp ! i"
  let ?o = "\<lambda>c. \<not> is_space d c \<and> \<not> is_letter d c \<and> \<not> is_number d c"
  define a where "a = cp ! (i + 1)"
  define b where "b = (if i + 2 < ?n then cp ! (i + 2) else 0)"
  define k where "k = (if ?c = 0x20 \<and> i + 1 < ?n \<and> \<not> is_space d (cp ! (i + 1)) then i + 1 else i)"
  have k: "i \<le> k" "k < ?n" using assms by (auto simp: k_def)
  define e where "e = run (is_space d) cp i"
  have e: "is_space d ?c \<Longrightarrow> i < e" "e \<le> ?n"
    using run_more [OF assms, of "is_space d"] run_le [of i cp "is_space d"] assms by (simp_all add: e_def)
  have c: "is_space d ?c" if "is_space d (cp ! k)" using that by (auto simp: k_def split: if_splits)
  define A where "A \<longleftrightarrow> ?c = 0x27 \<and> i + 1 < ?n \<and> (a = 0x73 \<or> a = 0x74 \<or> a = 0x6D \<or> a = 0x64)"
  define B where "B \<longleftrightarrow> ?c = 0x27 \<and> i + 1 < ?n \<and> (a = 0x72 \<and> b = 0x65 \<or> a = 0x76 \<and> b = 0x65 \<or> a = 0x6C \<and> b = 0x6C)"
  have "b \<noteq> 0 \<Longrightarrow> i + 3 \<le> ?n" by (auto simp: b_def split: if_splits)
  then have AB: "A \<Longrightarrow> i + 2 \<le> ?n" "B \<Longrightarrow> i + 3 \<le> ?n" by (auto simp: A_def B_def)
  have "gpt2_end d cp i =
      (if A then i + 2
       else if B then i + 3
       else if k < ?n \<and> is_letter d (cp ! k) then run (is_letter d) cp k
       else if k < ?n \<and> is_number d (cp ! k) then run (is_number d) cp k
       else if k < ?n \<and> \<not> is_space d (cp ! k) then run ?o cp k
       else if e < ?n \<and> e - i \<ge> 2 then e - 1 else e)"
    by (simp only: gpt2_end_def Let_def A_def B_def k_def a_def b_def e_def)
  then show ?thesis
    using AB run_more [OF k(2), of "is_letter d"] run_more [OF k(2), of "is_number d"] run_more [OF k(2), of ?o] k e c by auto
qed

lemma give_back_ok: "give_back d cp k u = Some p \<Longrightarrow> k \<le> p \<and> p < u \<and> LO d (cp ! p)"
  by (induction u) (auto split: if_splits)

lemma tekken_progress:
  assumes "i < length cp"
  shows "i < tekken_end d cp i \<and> tekken_end d cp i \<le> length cp"
proof -
  let ?n = "length cp" and ?c = "cp ! i"
  let ?o = "\<lambda>c. \<not> is_space d c \<and> \<not> is_letter d c \<and> \<not> is_number d c" and ?nl = "\<lambda>c. is_newline c \<or> c = 0x2F"
  define k where "k = (if \<not> is_newline ?c \<and> \<not> is_letter d ?c \<and> \<not> is_number d ?c \<and> i + 1 < ?n \<and> LM d (cp ! (i + 1))
    then i + 1 else i)"
  have k: "i \<le> k" "k < ?n" using assms by (auto simp: k_def)
  define u where "u = run (UP d) cp k"
  have u: "k \<le> u" "u \<le> ?n" using run_le [of k cp "UP d"] k by (simp_all add: u_def)
  define w where "w = (if k < ?n \<and> LM d (cp ! k) then
      if u < ?n \<and> LO d (cp ! u) then Some (run (LO d) cp u)
      else case give_back d cp k u of Some p \<Rightarrow> Some (run (LO d) cp p) | None \<Rightarrow> if u > k then Some u else None
    else None)"
  define k2 where "k2 = (if ?c = 0x20 then i + 1 else i)"
  have word: "i < e \<and> e \<le> ?n" if some: "w = Some e" for e
  proof -
    consider "u < ?n" "LO d (cp ! u)" "e = run (LO d) cp u" | p where "give_back d cp k u = Some p" "e = run (LO d) cp p"
      | "u > k" "e = u"
      using some by (auto simp: w_def split: if_splits option.splits)
    then show ?thesis
    proof cases
      case 1
      then show ?thesis using run_more [of u cp "LO d"] u k by simp
    next
      case 2
      then show ?thesis using run_more [of p cp "LO d"] give_back_ok [OF 2(1)] u k by simp
    next
      case 3
      then show ?thesis using u k by simp
    qed
  qed
  have other: "i < run ?nl cp (run ?o cp k2) \<and> run ?nl cp (run ?o cp k2) \<le> ?n" if "k2 < ?n" "?o (cp ! k2)"
    using run_more [of k2 cp ?o, OF that] run_le [of "run ?o cp k2" cp ?nl] by (simp add: k2_def split: if_splits)
  have "tekken_end d cp i = (case w of Some e \<Rightarrow> e | None \<Rightarrow>
      if is_number d ?c then i + 1
      else if k2 < ?n \<and> ?o (cp ! k2) then run ?nl cp (run ?o cp k2)
      else if is_space d ?c then space_end d cp i else i + 1)"
    by (simp only: tekken_end_def Let_def k_def u_def w_def k2_def)
  then show ?thesis
    using word other space_end_ok [OF assms] assms by (cases w) auto
qed

section \<open>Binary search\<close>

text \<open>Ranges in order and apart, as the generator writes them.\<close>

fun ranges_ok :: "(u32 \<times> u32) list \<Rightarrow> bool" where
  "ranges_ok [] = True"
| "ranges_ok [(a, b)] = (a \<le> b)"
| "ranges_ok ((a, b) # (c, d) # r) = (a \<le> b \<and> b < c \<and> ranges_ok ((c, d) # r))"

lemma ranges_ok_nth:
  assumes "ranges_ok r" and "i < j" and "j < length r"
  shows "snd (r ! i) < fst (r ! j)"
  using assms
proof (induction r arbitrary: i j rule: ranges_ok.induct)
  case (3 a b c d r)
  show ?case
  proof (cases i)
    case 0
    have bc: "b < c" "c \<le> d" using 3(2) by (cases r; auto)+
    show ?thesis
    proof (cases "j = 1")
      case True
      then show ?thesis using 0 bc by simp
    next
      case False
      then have "snd (((c, d) # r) ! 0) < fst (((c, d) # r) ! (j - 1))" using 3 0 by (intro "3.IH") auto
      then show ?thesis using 0 bc False 3(3) by (cases j) auto
    qed
  next
    case (Suc i')
    then show ?thesis using "3.IH" [of i' "j - 1"] 3(2-) by (cases j) auto
  qed
qed auto

lemma ranges_ok_range: "ranges_ok r \<Longrightarrow> i < length r \<Longrightarrow> fst (r ! i) \<le> snd (r ! i)"
proof (induction r arbitrary: i rule: ranges_ok.induct)
  case (3 a b c d r)
  then show ?case by (cases i) auto
qed auto

lemma search_iff:
  assumes ok: "ranges_ok r" and "hi \<le> length r"
  shows "search r cp lo hi \<longleftrightarrow> (\<exists>i. lo \<le> i \<and> i < hi \<and> fst (r ! i) \<le> cp \<and> cp \<le> snd (r ! i))"
  using assms(2)
proof (induction "hi - lo" arbitrary: lo hi rule: less_induct)
  case less
  show ?case
  proof (cases "lo < hi")
    case False
    then show ?thesis by (auto simp: search.simps [of r cp lo hi])
  next
    case True
    define mid where "mid = (lo + hi) div 2"
    have mid: "lo \<le> mid" "mid < hi" "mid < length r" using True less.prems by (auto simp: mid_def)
    have eq: "search r cp lo hi = (if cp < fst (r ! mid) then search r cp lo mid
        else if cp > snd (r ! mid) then search r cp (mid + 1) hi else True)"
      using True by (simp add: search.simps [of r cp lo hi] Let_def mid_def)
    consider "cp < fst (r ! mid)" | "cp > snd (r ! mid)" "\<not> cp < fst (r ! mid)" | "fst (r ! mid) \<le> cp" "cp \<le> snd (r ! mid)"
      by force
    then show ?thesis
    proof cases
      case 1
      have "\<not> fst (r ! i) \<le> cp" if "mid \<le> i" "i < hi" for i
      proof (cases "i = mid")
        case False
        then have "snd (r ! mid) < fst (r ! i)" using ranges_ok_nth [OF ok, of mid i] that less.prems by simp
        then show ?thesis using 1 ranges_ok_range [OF ok mid(3)] by simp
      qed (use 1 in simp)
      then have "(\<exists>i. lo \<le> i \<and> i < hi \<and> fst (r ! i) \<le> cp \<and> cp \<le> snd (r ! i)) \<longleftrightarrow>
          (\<exists>i. lo \<le> i \<and> i < mid \<and> fst (r ! i) \<le> cp \<and> cp \<le> snd (r ! i))"
        using mid(2) by (intro iff_exI) (auto simp: not_le [symmetric])
      then show ?thesis using eq 1 less.hyps [of mid lo] mid less.prems by simp
    next
      case 2
      have "\<not> cp \<le> snd (r ! i)" if "i \<le> mid" for i
      proof (cases "i = mid")
        case False
        then have "snd (r ! i) < fst (r ! mid)" using ranges_ok_nth [OF ok, of i mid] that mid by simp
        then show ?thesis using 2 ranges_ok_range [OF ok mid(3)] by simp
      qed (use 2 in simp)
      then have "(\<exists>i. lo \<le> i \<and> i < hi \<and> fst (r ! i) \<le> cp \<and> cp \<le> snd (r ! i)) \<longleftrightarrow>
          (\<exists>i. mid + 1 \<le> i \<and> i < hi \<and> fst (r ! i) \<le> cp \<and> cp \<le> snd (r ! i))"
        using mid(1) by (intro iff_exI) (auto simp: less_eq_Suc_le [symmetric] not_le [symmetric])
      then show ?thesis using eq 2 less.hyps [of hi "mid + 1"] mid less.prems by simp
    next
      case 3
      then show ?thesis using eq mid by auto
    qed
  qed
qed

lemma in_ranges_iff: "ranges_ok r \<Longrightarrow> in_ranges r cp \<longleftrightarrow> (\<exists>(a, b) \<in> set r. a \<le> cp \<and> cp \<le> b)"
  using search_iff [of r "length r" cp 0] by (force simp: in_ranges_def in_set_conv_nth)

section \<open>UTF-8 there and back\<close>

lemma get_cp_ok: "s \<noteq> [] \<Longrightarrow> 0 < snd (get_cp s) \<and> snd (get_cp s) \<le> length s"
  by (cases s) (auto simp: get_cp_def Let_def Suc_le_eq split: if_splits option.splits)

lemma or_plus: "x AND y = 0 \<Longrightarrow> x OR y = x + y" for x y :: "'a::len word"
  using word_plus_and_or [of x y] by simp

end
