(* ===== verification/Tok_Utf8.thy ===== *)
theory Tok_Utf8
  imports Tok_Text
begin

text \<open>
  UTF-8 as the tokenizer writes and reads it: what is written for a code point reads back.
\<close>

section \<open>Words and their numbers\<close>

lemma unat_drop: "unat (drop_bit k w) = unat w div 2 ^ k" for w :: "'a::len word"
  by (simp only: unsigned_drop_bit_eq take_bit_nat_eq_self [OF unsigned_less] drop_bit_eq_div [where 'a = nat])

lemma unat_take: "unat (take_bit k w) = unat w mod 2 ^ k" for w :: "'a::len word"
  by (simp only: unsigned_take_bit_eq take_bit_eq_mod [where 'a = nat])

lemma quot_rest: "h < n \<Longrightarrow> (n * q + h) div n = q \<and> (n * q + h) mod n = h" for h n q :: nat
  by simp

lemma low_bit: "unat y < 2 ^ k \<Longrightarrow> bit y n \<Longrightarrow> n < k" for y :: "'a::len word"
proof -
  assume y: "unat y < 2 ^ k" "bit y n"
  have "take_bit k (unat y) = unat y" using y(1) by (simp add: take_bit_eq_mod)
  then have "take_bit k y = y" by (metis unsigned_take_bit_eq word_unat_eq_iff)
  then show "n < k" using y(2) by (metis bit_take_bit_iff)
qed

lemma shift_or: "unat y < 2 ^ k \<Longrightarrow> push_bit k z OR y = push_bit k z + y" for y z :: "'a::len word"
proof -
  assume y: "unat y < 2 ^ k"
  have "push_bit k z AND y = 0"
    by (rule bit_eqI) (auto simp: bit_simps dest: low_bit [OF y])
  then show ?thesis by (rule or_plus)
qed

lemma lead_or:
  "unat y < 32 \<Longrightarrow> 0xC0 OR y = 0xC0 + y" "unat y < 16 \<Longrightarrow> 0xE0 OR y = 0xE0 + y" "unat y < 8 \<Longrightarrow> 0xF0 OR y = 0xF0 + y"
  "unat y < 64 \<Longrightarrow> 0x80 OR y = 0x80 + y" for y :: u32
  using shift_or [of y 6 3] shift_or [of y 5 7] shift_or [of y 4 15] shift_or [of y 6 2] by (simp_all add: push_bit_eq_mult)

lemma top_two: "b AND 0xC0 = 0x80 \<longleftrightarrow> unat b div 64 = 2" for b :: u8
proof -
  have "b AND 0xC0 = push_bit 6 (drop_bit 6 b)"
  proof (rule bit_eqI)
    fix n assume n: "possible_bit TYPE(u8) n"
    have c0: "(0xC0 :: u8) = NOT (mask 6)" by (simp add: mask_eq_exp_minus_1)
    show "bit (b AND 0xC0) n \<longleftrightarrow> bit (push_bit 6 (drop_bit 6 b)) n" unfolding c0 using n by (auto simp: bit_simps)
  qed
  moreover have "unat (push_bit 6 (drop_bit 6 b)) = unat b div 64 * 64"
  proof -
    have "unat (drop_bit 6 b) = unat b div 64" unfolding unat_drop by simp
    moreover have "unat b div 64 * 64 < 256" using unat_u8_less [of b] by linarith
    ultimately show ?thesis by (simp add: push_bit_eq_mult unat_word_ariths)
  qed
  moreover have "b AND 0xC0 = 0x80 \<longleftrightarrow> unat (b AND 0xC0) = 128" by (simp add: word_unat_eq_iff)
  ultimately show ?thesis by auto
qed

text \<open>A byte that goes on a sequence adds its six bits.\<close>

lemma more_step:
  assumes "unat cp < 2 ^ 26" and "l < 64"
  shows "\<exists>w. more_bytes (ucast (0x80 + of_nat l :: u32) # bs) cp = more_bytes bs w \<and> unat w = unat cp * 64 + l"
proof -
  let ?b = "ucast (0x80 + of_nat l :: u32) :: u8"
  have b: "unat ?b = 128 + l" using assms(2) by (simp add: unsigned_ucast_eq take_bit_eq_mod unat_word_ariths unat_of_nat)
  have low: "?b AND 0x3F = of_nat l"
  proof (rule word_unat_eq_iff [THEN iffD2])
    have "?b AND 0x3F = take_bit 6 ?b" by (simp add: take_bit_eq_mask mask_eq_exp_minus_1)
    then have "unat (?b AND 0x3F) = unat ?b mod 64" by (simp only: unat_take) simp
    moreover have "(128 + l) mod 64 = l" using quot_rest [OF assms(2), of 2] by simp
    ultimately have "unat (?b AND 0x3F) = l" using b by simp
    then show "unat (?b AND 0x3F) = unat (of_nat l :: u8)" using assms(2) by (simp add: unat_of_nat)
  qed
  let ?w = "push_bit 6 cp OR ucast (?b AND 0x3F)"
  have l: "unat (ucast (of_nat l :: u8) :: u32) = l" using assms(2) by (simp add: unsigned_ucast_eq take_bit_eq_mod unat_of_nat)
  have "?w = push_bit 6 cp + ucast (of_nat l :: u8)" unfolding low by (rule shift_or) (use l assms(2) in simp)
  then have "unat ?w = unat cp * 64 + l"
    using assms l by (simp add: unat_word_ariths push_bit_eq_mult)
  moreover have "?b AND 0xC0 = 0x80" using b assms(2) by (simp add: top_two)
  ultimately show ?thesis by (intro exI [of _ ?w]) simp
qed

lemma get_cp_lead:
  assumes "unat b = lead + h"
  shows "lead = 192 \<Longrightarrow> h < 32 \<Longrightarrow> 1 \<le> length bs \<Longrightarrow> get_cp (b # bs) =
      (case more_bytes (take 1 bs) (of_nat h) of None \<Rightarrow> (0xFFFD, 1) | Some cp \<Rightarrow> (cp, 2))"
    "lead = 224 \<Longrightarrow> h < 16 \<Longrightarrow> 2 \<le> length bs \<Longrightarrow> get_cp (b # bs) =
      (case more_bytes (take 2 bs) (of_nat h) of None \<Rightarrow> (0xFFFD, 1) | Some cp \<Rightarrow> (cp, 3))"
    "lead = 240 \<Longrightarrow> h < 8 \<Longrightarrow> 3 \<le> length bs \<Longrightarrow> get_cp (b # bs) =
      (case more_bytes (take 3 bs) (of_nat h) of None \<Rightarrow> (0xFFFD, 1) | Some cp \<Rightarrow> (cp, 4))"
proof -
  let ?c = "ucast b :: u32"
  have c: "unat ?c = lead + h" using assms unat_u8_less [of b] by (simp add: unsigned_ucast_eq take_bit_eq_mod)
  have d: "drop_bit k ?c = v \<longleftrightarrow> (lead + h) div 2 ^ k = unat v" for k and v :: u32
    by (simp only: word_unat_eq_iff unat_drop c)
  have small: "?c < 0x80 \<longleftrightarrow> lead + h < 128" unfolding word_less_nat_alt c by simp
  have m: "?c AND mask k = of_nat ((lead + h) mod 2 ^ k)" for k
  proof (rule word_unat_eq_iff [THEN iffD2])
    have "unat (?c AND mask k) = (lead + h) mod 2 ^ k"
    proof -
      have "unat (?c AND mask k) = take_bit k (unat ?c)" by (simp add: unsigned_take_bit_eq flip: take_bit_eq_mask)
      then show ?thesis by (simp only: take_bit_eq_mod c)
    qed
    moreover have "(lead + h) mod 2 ^ k \<le> lead + h" "lead + h < 256"
      using assms unat_u8_less [of b] by (simp_all only: mod_less_eq_dividend)
    then have "(lead + h) mod 2 ^ k < 4294967296" by linarith
    ultimately show "unat (?c AND mask k) = unat (of_nat ((lead + h) mod 2 ^ k) :: u32)" by (simp add: unat_of_nat)
  qed
  have masks: "(0x1F :: u32) = mask 5" "(0xF :: u32) = mask 4" "(7 :: u32) = mask 3" by (simp_all add: mask_eq_exp_minus_1)
  show "get_cp (b # bs) =
      (case more_bytes (take 1 bs) (of_nat h) of None \<Rightarrow> (0xFFFD, 1) | Some cp \<Rightarrow> (cp, 2))"
    if "lead = 192" "h < 32" "1 \<le> length bs"
  proof -
    have "(192 + h) div 32 = 6" "(192 + h) mod 32 = h" using quot_rest [OF that(2), of 6] by simp_all
    then show ?thesis using that m [of 5] by (auto simp: get_cp_def Let_def small d masks)
  qed
  show "get_cp (b # bs) =
      (case more_bytes (take 2 bs) (of_nat h) of None \<Rightarrow> (0xFFFD, 1) | Some cp \<Rightarrow> (cp, 3))"
    if "lead = 224" "h < 16" "2 \<le> length bs"
  proof -
    have "(224 + h) div 16 = 14" "(224 + h) mod 16 = h" "(224 + h) div 32 = 7"
      using quot_rest [OF that(2), of 14] quot_rest [of h 32 7] that(2) by simp_all
    then show ?thesis using that m [of 4] by (auto simp: get_cp_def Let_def small d masks)
  qed
  show "get_cp (b # bs) =
      (case more_bytes (take 3 bs) (of_nat h) of None \<Rightarrow> (0xFFFD, 1) | Some cp \<Rightarrow> (cp, 4))"
    if "lead = 240" "h < 8" "3 \<le> length bs"
  proof -
    have "(240 + h) div 8 = 30" "(240 + h) mod 8 = h" "(240 + h) div 32 = 7" "(240 + h) div 16 = 15"
      using quot_rest [OF that(2), of 30] quot_rest [of "16 + h" 32 7] quot_rest [of h 16 15] that(2) by simp_all
    then show ?thesis using that m [of 3] by (auto simp: get_cp_def Let_def small d masks)
  qed
qed

text \<open>
  C29. What \<open>put_utf8\<close> writes for a code point below \<open>2 ^ 21\<close> is read back by \<open>get_utf8\<close> as that
  code point, with its length, whatever bytes follow.
\<close>

theorem utf8_round_trip:
  assumes "cp < 0x200000"
  shows "get_cp (put_cp cp @ rest) = (cp, length (put_cp cp))"
proof -
  define x where "x = unat cp"
  have x: "x < 2097152" using assms by (simp add: x_def word_less_nat_alt)
  have part: "drop_bit k cp AND 0x3F = of_nat (x div 2 ^ k mod 64)" for k
  proof (rule word_unat_eq_iff [THEN iffD2])
    have "drop_bit k cp AND 0x3F = take_bit 6 (drop_bit k cp)" by (simp add: take_bit_eq_mask mask_eq_exp_minus_1)
    then have "unat (drop_bit k cp AND 0x3F) = x div 2 ^ k mod 64" by (simp only: unat_take unat_drop x_def) simp
    then show "unat (drop_bit k cp AND 0x3F) = unat (of_nat (x div 2 ^ k mod 64) :: u32)" by (simp add: unat_of_nat)
  qed
  have top: "drop_bit k cp = of_nat (x div 2 ^ k)" for k
  proof (rule word_unat_eq_iff [THEN iffD2])
    have "unat (drop_bit k cp) = x div 2 ^ k" by (simp only: unat_drop x_def)
    moreover have "x div 2 ^ k < 2 ^ 32" using x by (intro le_less_trans [OF div_le_dividend]) simp
    ultimately show "unat (drop_bit k cp) = unat (of_nat (x div 2 ^ k) :: u32)" by (simp add: unat_of_nat)
  qed
  have tail: "0x80 OR (cp AND 0x3F) = 0x80 + of_nat (x mod 64)" "0x80 OR (drop_bit 6 cp AND 0x3F) = 0x80 + of_nat (x div 64 mod 64)"
    "0x80 OR (drop_bit 12 cp AND 0x3F) = 0x80 + of_nat (x div 4096 mod 64)"
    using part [of 0] part [of 6] part [of 12] lead_or(4) [of "of_nat (x div 2 ^ 0 mod 64)"]
      lead_or(4) [of "of_nat (x div 2 ^ 6 mod 64)"] lead_or(4) [of "of_nat (x div 2 ^ 12 mod 64)"]
    by (simp_all add: unat_of_nat)
  have split: "x = x div 64 * 64 + x mod 64" "x div 64 = x div 4096 * 64 + x div 64 mod 64"
    "x div 4096 = x div 262144 * 64 + x div 4096 mod 64"
    using div_mult_mod_eq [of "x div 64" 64] div_mult_mod_eq [of "x div 4096" 64] by (simp_all flip: div_mult2_eq)
  have same: "w = cp" if "unat w = x" for w using that by (simp add: x_def word_unat_eq_iff)
  have below: "cp < of_nat k \<longleftrightarrow> x < k" if "k < 2 ^ 32" for k using that by (simp add: x_def word_less_nat_alt unat_of_nat)
  consider "x < 0x80" | "0x80 \<le> x" "x < 0x800" | "0x800 \<le> x" "x < 0x10000" | "0x10000 \<le> x" by linarith
  then show ?thesis
  proof cases
    case 1
    then have "put_cp cp = [ucast cp]" "cp < 0x80" using below [of "0x80"] by (simp_all add: put_cp_def)
    moreover have "ucast (ucast cp :: u8) = cp" using 1 by (intro same) (simp add: unsigned_ucast_eq unat_take flip: x_def)
    ultimately show ?thesis by (simp add: get_cp_def)
  next
    case 2
    let ?h = "x div 64"
    have h: "?h < 32" using 2 by simp
    have put: "put_cp cp = [ucast (0xC0 OR drop_bit 6 cp), ucast (0x80 + of_nat (x mod 64) :: u32)]"
      using 2 below [of "0x80"] below [of "0x800"] tail by (simp add: put_cp_def)
    have b: "unat (ucast (0xC0 OR drop_bit 6 cp) :: u8) = 192 + ?h"
      using h top [of 6] lead_or(1) [of "of_nat ?h"] by (simp add: unsigned_ucast_eq take_bit_eq_mod unat_word_ariths unat_of_nat)
    obtain w where w: "more_bytes [ucast (0x80 + of_nat (x mod 64) :: u32)] (of_nat ?h) = Some w" "unat w = ?h * 64 + x mod 64"
      using more_step [of "of_nat ?h" "x mod 64" "[]"] h by (auto simp: unat_of_nat)
    have "w = cp" by (rule same) (simp add: w(2))
    then show ?thesis unfolding put using get_cp_lead(1) [OF b refl h] w(1) by simp
  next
    case 3
    let ?h = "x div 4096"
    have h: "?h < 16" using 3 by simp
    have put: "put_cp cp = [ucast (0xE0 OR drop_bit 12 cp), ucast (0x80 + of_nat (x div 64 mod 64) :: u32), ucast (0x80 + of_nat (x mod 64) :: u32)]"
      using 3 below [of "0x80"] below [of "0x800"] below [of "0x10000"] tail by (simp add: put_cp_def)
    have b: "unat (ucast (0xE0 OR drop_bit 12 cp) :: u8) = 224 + ?h"
      using h top [of 12] lead_or(2) [of "of_nat ?h"] by (simp add: unsigned_ucast_eq take_bit_eq_mod unat_word_ariths unat_of_nat)
    obtain v where v: "more_bytes [ucast (0x80 + of_nat (x div 64 mod 64) :: u32), ucast (0x80 + of_nat (x mod 64) :: u32)] (of_nat ?h) =
        more_bytes [ucast (0x80 + of_nat (x mod 64) :: u32)] v" "unat v = ?h * 64 + x div 64 mod 64"
      using more_step [of "of_nat ?h" "x div 64 mod 64"] h by (auto simp: unat_of_nat simp del: more_bytes.simps)
    have bound: "unat v < 2 ^ 26" using v(2) h mod_less_divisor [of 64 "x div 64"] by simp
    obtain w where w: "more_bytes [ucast (0x80 + of_nat (x mod 64) :: u32)] v = Some w" "unat w = unat v * 64 + x mod 64"
      using more_step [of v "x mod 64" "[]"] bound by auto
    have "w = cp" by (rule same) (use w(2) v(2) split in simp)
    then show ?thesis unfolding put using get_cp_lead(2) [OF b refl h] v(1) w(1) by simp
  next
    case 4
    let ?h = "x div 262144"
    have h: "?h < 8" using x by simp
    have put: "put_cp cp = [ucast (0xF0 OR drop_bit 18 cp), ucast (0x80 + of_nat (x div 4096 mod 64) :: u32),
        ucast (0x80 + of_nat (x div 64 mod 64) :: u32), ucast (0x80 + of_nat (x mod 64) :: u32)]"
      using 4 below [of "0x80"] below [of "0x800"] below [of "0x10000"] tail by (simp add: put_cp_def)
    have b: "unat (ucast (0xF0 OR drop_bit 18 cp) :: u8) = 240 + ?h"
      using h top [of 18] lead_or(3) [of "of_nat ?h"] by (simp add: unsigned_ucast_eq take_bit_eq_mod unat_word_ariths unat_of_nat)
    let ?b3 = "ucast (0x80 + of_nat (x mod 64) :: u32) :: u8" and ?b2 = "ucast (0x80 + of_nat (x div 64 mod 64) :: u32) :: u8"
    obtain u where u: "more_bytes [ucast (0x80 + of_nat (x div 4096 mod 64) :: u32), ?b2, ?b3] (of_nat ?h) = more_bytes [?b2, ?b3] u"
        "unat u = ?h * 64 + x div 4096 mod 64"
      using more_step [of "of_nat ?h" "x div 4096 mod 64"] h by (auto simp: unat_of_nat simp del: more_bytes.simps)
    have bu: "unat u < 2 ^ 18" using u(2) h mod_less_divisor [of 64 "x div 4096"] by simp
    obtain v where v: "more_bytes [?b2, ?b3] u = more_bytes [?b3] v" "unat v = unat u * 64 + x div 64 mod 64"
      using more_step [of u "x div 64 mod 64"] bu by (auto simp del: more_bytes.simps)
    have bv: "unat v < 2 ^ 26" using v(2) bu mod_less_divisor [of 64 "x div 64"] by simp
    obtain w where w: "more_bytes [?b3] v = Some w" "unat w = unat v * 64 + x mod 64"
      using more_step [of v "x mod 64" "[]"] bv by auto
    have "w = cp" by (rule same) (use w(2) v(2) u(2) split in simp)
    then show ?thesis unfolding put using get_cp_lead(3) [OF b refl h] u(1) v(1) w(1) by simp
  qed
qed

lemma utf8_round_trip_witness: "get_cp (put_cp 0x20AC @ [0x21]) = (0x20AC, 3)"
proof -
  have "get_cp (put_cp 0x20AC @ [0x21]) = (0x20AC, length (put_cp 0x20AC))" by (rule utf8_round_trip) simp
  then show ?thesis by (simp add: put_cp_def)
qed

text \<open>
  By each of the three expressions a pre-token has at least one code point and ends within
  the text, so cutting a text into pre-tokens ends and reads inside it.
\<close>

theorem pretokens_advance:
  assumes "i < length cp"
  shows "i < pretoken_end d cp i marks digits \<and> pretoken_end d cp i marks digits \<le> length cp \<and>
    i < gpt2_end d cp i \<and> gpt2_end d cp i \<le> length cp \<and> i < tekken_end d cp i \<and> tekken_end d cp i \<le> length cp"
  using pretoken_progress [OF assms] gpt2_progress [OF assms] tekken_progress [OF assms] by blast

definition no_data :: unidata where
  "no_data = \<lparr>uni_letter = [(0x41, 0x5A), (0x61, 0x7A)], uni_number = [(0x30, 0x39)], uni_mark = [], uni_space = [(0x20, 0x20)]\<rparr>"

lemma pretokens_advance_witness:
  "1 < pretoken_end no_data [0x61, 0x20, 0x62] 1 True 3 \<and> pretoken_end no_data [0x61, 0x20, 0x62] 1 True 3 \<le> 3 \<and>
   1 < gpt2_end no_data [0x61, 0x20, 0x62] 1 \<and> gpt2_end no_data [0x61, 0x20, 0x62] 1 \<le> 3 \<and>
   1 < tekken_end no_data [0x61, 0x20, 0x62] 1 \<and> tekken_end no_data [0x61, 0x20, 0x62] 1 \<le> 3"
  using pretokens_advance [of 1 "[0x61, 0x20, 0x62]" no_data True 3] by simp

text \<open>
  C31. On tables whose ranges are in order and apart, the binary search for a code point's class
  finds it exactly when one of the ranges holds it.
\<close>

theorem class_search:
  assumes "ranges_ok r"
  shows "in_ranges r cp \<longleftrightarrow> (\<exists>(a, b) \<in> set r. a \<le> cp \<and> cp \<le> b)"
  by (rule in_ranges_iff [OF assms])

lemma class_search_witness: "in_ranges (uni_letter no_data) 0x42 \<and> \<not> in_ranges (uni_letter no_data) 0x60"
proof -
  have ok: "ranges_ok (uni_letter no_data)" by (simp add: no_data_def)
  show ?thesis unfolding class_search [OF ok] by (simp add: no_data_def)
qed

end
