(* ===== verification/Tok_Table.thy ===== *)
theory Tok_Table
  imports Tok_Text
begin

text \<open>
  \<open>src/llm/tokenizer.c\<close>, the tables: the vocabulary and the merges by hash, and
  \<open>janas_tokenizer_create\<close> that fills them. The model file's metadata (\<open>jns.c\<close>) is an
  argument, its arrays of strings already taken apart. The capacities are powers of two, so
  \<open>& (cap - 1)\<close> is the remainder. A search that goes on runs on fuel, one unit per home_slot.
\<close>

section \<open>The tokenizer\<close>

record merge =
  mg_pair :: u64
  mg_rank :: nat
  mg_result :: nat

record tok =
  tk_n :: nat
  tk_pool :: bytes
  tk_off :: "nat list"
  tk_vmap :: "nat list"
  tk_mmap :: "merge list"
  tk_byte_id :: "int list"
  tk_cp_byte :: bytes
  tk_special :: "nat list"
  tk_marks :: bool
  tk_digits :: nat
  tk_spm :: bool
  tk_tekken :: bool
  tk_gpt2 :: bool

definition hash_bytes :: "bytes \<Rightarrow> u64" where
  "hash_bytes s = fold (\<lambda>c h. (h XOR ucast c) * 0x100000001b3) s 0xcbf29ce484222325"

definition hash_u64 :: "u64 \<Rightarrow> u64" where
  "hash_u64 x = (let x = x XOR drop_bit 33 x; x = x * 0xff51afd7ed558ccd in x XOR drop_bit 33 x)"

definition text_of :: "tok \<Rightarrow> nat \<Rightarrow> bytes" where
  "text_of t k = take (tk_off t ! (k + 1) - tk_off t ! k) (drop (tk_off t ! k) (tk_pool t))"

text \<open>The first home_slot from \<open>i\<close> on, round the table, where the search stops.\<close>

fun probe :: "(nat \<Rightarrow> bool) \<Rightarrow> nat \<Rightarrow> nat \<Rightarrow> nat \<Rightarrow> nat option" where
  "probe stop cap 0 i = None"
| "probe stop cap (Suc fuel) i = (if stop i then Some i else probe stop cap fuel ((i + 1) AND (cap - 1)))"

definition home_slot :: "u64 \<Rightarrow> nat \<Rightarrow> nat" where
  "home_slot h cap = unat (h AND of_nat (cap - 1))"

text \<open>
  Where a search of the vocabulary stops: at the token or at an empty slot. \<open>None\<close> says that it
  found neither in the whole table and the source goes round for ever; \<open>Tok_Merge\<close> shows that this
  does not come to pass in the tables \<open>tokenizer_create\<close> makes, nor while it makes them.
\<close>

definition vocab_slot :: "tok \<Rightarrow> bytes \<Rightarrow> nat option" where
  "vocab_slot t s =
     (let cap = length (tk_vmap t) in
      probe (\<lambda>i. tk_vmap t ! i = 0 \<or> text_of t (tk_vmap t ! i - 1) = s) cap cap (home_slot (hash_bytes s) cap))"

definition lookup :: "tok \<Rightarrow> bytes \<Rightarrow> int" where
  "lookup t s =
     (case vocab_slot t s of
        None \<Rightarrow> -1
      | Some i \<Rightarrow> if tk_vmap t ! i = 0 then -1 else int (tk_vmap t ! i - 1))"

definition pair_key :: "int \<Rightarrow> int \<Rightarrow> u64" where
  "pair_key a b = push_bit 32 (ucast (of_int a :: u32) + 1) OR ucast (of_int b :: u32)"

definition merge_slot :: "tok \<Rightarrow> int \<Rightarrow> int \<Rightarrow> nat option" where
  "merge_slot t a b =
     (let cap = length (tk_mmap t); key = pair_key a b in
      probe (\<lambda>i. mg_pair (tk_mmap t ! i) = key \<or> mg_pair (tk_mmap t ! i) = 0) cap cap (home_slot (hash_u64 key) cap))"

definition find_merge :: "tok \<Rightarrow> int \<Rightarrow> int \<Rightarrow> merge option" where
  "find_merge t a b =
     (case merge_slot t a b of
        None \<Rightarrow> None
      | Some i \<Rightarrow> if mg_pair (tk_mmap t ! i) = pair_key a b then Some (tk_mmap t ! i) else None)"

function pow2_from :: "nat \<Rightarrow> nat \<Rightarrow> nat" where
  "pow2_from c n = (if 0 < c \<and> c < 2 * n then pow2_from (2 * c) n else c)"
  by pat_completeness auto
termination
  by (relation "measure (\<lambda>(c, n). 2 * n - c)") auto

declare pow2_from.simps [simp del]

definition pow2_above :: "nat \<Rightarrow> nat" where
  "pow2_above n = pow2_from 16 n"

section \<open>Making one\<close>

record meta =
  m_tokens :: "bytes list option"
  m_merges :: "bytes list option"
  m_types :: "int list option"
  m_pre :: bytes
  m_model :: bytes

datatype tok_error = No_Tokenizer | No_Memory | No_Byte nat

definition tok_empty :: "meta \<Rightarrow> bytes list \<Rightarrow> bytes list \<Rightarrow> tok" where
  "tok_empty j toks merges =
     \<lparr>tk_n = length toks, tk_pool = concat toks,
      tk_off = map (\<lambda>i. length (concat (take i toks))) [0..<length toks + 1],
      tk_vmap = replicate (pow2_above (length toks)) 0,
      tk_mmap = replicate (pow2_above (length merges)) \<lparr>mg_pair = 0, mg_rank = 0, mg_result = 0\<rparr>,
      tk_byte_id = replicate 256 0, tk_cp_byte = replicate 512 0, tk_special = [],
      tk_marks = (m_pre j = lit ''qwen35''), tk_digits = (if m_pre j = lit ''llama-bpe'' then 3 else 1),
      tk_spm = (m_model j = lit ''gemma4''),
      tk_tekken = (m_pre j = lit ''pixtral'' \<or> m_pre j = lit ''tekken''),
      tk_gpt2 = (m_pre j = lit ''whisper'' \<or> m_pre j = lit ''gpt-2'')\<rparr>"

definition empty_slot :: "tok \<Rightarrow> bytes \<Rightarrow> nat option" where
  "empty_slot t s =
     (let cap = length (tk_vmap t) in probe (\<lambda>k. tk_vmap t ! k = 0) cap cap (home_slot (hash_bytes s) cap))"

definition add_token :: "int list \<Rightarrow> nat \<Rightarrow> tok \<Rightarrow> tok" where
  "add_token types i t =
     (let s = text_of t i in
      if lookup t s \<ge> 0 then t
      else case empty_slot t s of
        None \<Rightarrow> t
      | Some k \<Rightarrow>
          let t = t\<lparr>tk_vmap := (tk_vmap t)[k := i + 1]\<rparr> in
          if types ! i \<noteq> 1 \<and> types ! i \<noteq> 6 then t\<lparr>tk_special := tk_special t @ [i]\<rparr> else t)"

text \<open>The inner loop of the sort: the token at place \<open>b\<close> goes up past the shorter ones.\<close>

fun move_up :: "(nat \<Rightarrow> nat) \<Rightarrow> nat \<Rightarrow> nat list \<Rightarrow> nat list" where
  "move_up len 0 xs = xs"
| "move_up len (Suc b) xs =
     (let x = xs ! b; y = xs ! Suc b in
      if len x \<ge> len y then xs else move_up len b (xs[b := y, Suc b := x]))"

definition longest_first :: "tok \<Rightarrow> tok" where
  "longest_first t =
     t\<lparr>tk_special := fold (move_up (\<lambda>k. tk_off t ! (k + 1) - tk_off t ! k)) [1..<length (tk_special t)] (tk_special t)\<rparr>"

definition add_merge :: "nat \<times> bytes \<Rightarrow> tok \<Rightarrow> tok" where
  "add_merge m t =
     (case m of (r, s) \<Rightarrow>
        let la = length (takeWhile (\<lambda>c. c \<noteq> 0x20) s) in
        if la = length s then t
        else
          let sa = take la s; sb = drop (la + 1) s; a = lookup t sa; b = lookup t sb in
          if a < 0 \<or> b < 0 \<or> length sa + length sb > 512 then t
          else
            let res = lookup t (sa @ sb) in
            if res < 0 then t
            else
              case merge_slot t a b of
                None \<Rightarrow> t
              | Some k \<Rightarrow>
                  if mg_pair (tk_mmap t ! k) \<noteq> 0 then t
                  else t\<lparr>tk_mmap := (tk_mmap t)[k := \<lparr>mg_pair = pair_key a b, mg_rank = r, mg_result = nat res\<rparr>]\<rparr>)"

definition hex_upper :: "nat \<Rightarrow> u8" where
  "hex_upper d = (if d < 10 then 0x30 + of_nat d else 0x41 + of_nat (d - 10))"

text \<open>\<open><0x%02X>\<close>\<close>

definition byte_name :: "nat \<Rightarrow> bytes" where
  "byte_name b = lit ''<0x'' @ [hex_upper (b div 16), hex_upper (b mod 16)] @ lit ''>''"

definition set_byte_id :: "nat \<Rightarrow> bytes \<Rightarrow> tok \<Rightarrow> tok_error + tok" where
  "set_byte_id b u t =
     (let k = lookup t u; t = t\<lparr>tk_byte_id := (tk_byte_id t)[b := k]\<rparr>
      in if k < 0 then Inl (No_Byte b) else Inr t)"

fun spm_bytes :: "nat list \<Rightarrow> tok \<Rightarrow> tok_error + tok" where
  "spm_bytes [] t = Inr t"
| "spm_bytes (b # bs) t =
     (case set_byte_id b (byte_name b) t of Inl e \<Rightarrow> Inl e | Inr t \<Rightarrow> spm_bytes bs t)"

definition printable :: "nat \<Rightarrow> bool" where
  "printable b \<longleftrightarrow> b \<ge> 33 \<and> b \<le> 126 \<or> b \<ge> 161 \<and> b \<le> 172 \<or> b \<ge> 174 \<and> b \<le> 255"

fun level_bytes :: "nat list \<Rightarrow> nat \<Rightarrow> tok \<Rightarrow> tok_error + tok" where
  "level_bytes [] nxt t = Inr t"
| "level_bytes (b # bs) nxt t =
     (let cp = (if printable b then b else 256 + nxt);
          nxt = (if printable b then nxt else nxt + 1)
      in case set_byte_id b (put_cp (of_nat cp)) (t\<lparr>tk_cp_byte := (tk_cp_byte t)[cp := of_nat b]\<rparr>) of
           Inl e \<Rightarrow> Inl e
         | Inr t \<Rightarrow> level_bytes bs nxt t)"

text \<open>The outcomes of the memory requests are \<open>mem\<close>: one for the structure, then five at once.\<close>

definition tokenizer_create :: "meta \<Rightarrow> mem \<Rightarrow> tok_error + tok" where
  "tokenizer_create j mem =
     (case (m_tokens j, m_merges j, m_types j) of
        (Some toks, Some merges, Some types) \<Rightarrow>
          if length types \<noteq> length toks \<or> length toks = 0 \<or> length toks > 2 ^ 24 then Inl No_Tokenizer
          else if \<not> fst (malloc mem) then Inl No_Memory
          else if False \<in> set (take 5 (snd (malloc mem))) then Inl No_Memory
          else
            let t = fold (add_token types) [0..<length toks] (tok_empty j toks merges);
                t = longest_first t;
                t = fold add_merge (zip [0..<length merges] merges) t
            in if tk_spm t then spm_bytes [0..<256] t else level_bytes [0..<256] 0 t
      | _ \<Rightarrow> Inl No_Tokenizer)"

definition n_vocab :: "tok \<Rightarrow> nat" where
  "n_vocab t = tk_n t"

definition specials :: "tok \<Rightarrow> nat list" where
  "specials t = tk_special t"

definition tokenizer_find :: "tok \<Rightarrow> bytes \<Rightarrow> int" where
  "tokenizer_find t s = lookup t s"

end
