(* ===== verification/Tok_Bpe.thy ===== *)
theory Tok_Bpe
  imports Tok_Table C_Strings
begin

text \<open>
  \<open>src/llm/tokenizer.c\<close>, encoding and decoding: the heap of candidate pairs, the merging of one
  pre-token, and \<open>janas_tokenizer_encode\<close> and \<open>janas_tokenizer_decode\<close> over it. The arrays
  \<open>sym\<close>, \<open>prev\<close>, \<open>next\<close> and \<open>at\<close> of \<open>bpe\<close> and its heap are a record; a place or a token is an
  integer, negative as in the source. The tokens written are those the output has room for, all
  are counted. \<open>Tok_Heap\<close> shows what the heap keeps.
\<close>

section \<open>The heap of candidates\<close>

record cand =
  cd_rank :: nat
  cd_pos :: nat

definition cand_less :: "cand \<Rightarrow> cand \<Rightarrow> bool" where
  "cand_less a b \<longleftrightarrow> cd_rank a < cd_rank b \<or> cd_rank a = cd_rank b \<and> cd_pos a < cd_pos b"

text \<open>The array's first \<open>n\<close> elements are the heap: here the list itself.\<close>

fun rise :: "cand \<Rightarrow> nat \<Rightarrow> cand list \<Rightarrow> cand list" where
  "rise c i h =
     (if i > 0 \<and> cand_less c (h ! ((i - 1) div 2))
      then rise c ((i - 1) div 2) (h[i := h ! ((i - 1) div 2)])
      else h[i := c])"

declare rise.simps [simp del]

definition heap_push :: "cand \<Rightarrow> cand list \<Rightarrow> cand list" where
  "heap_push c h = rise c (length h) (h @ [c])"

function sink :: "cand \<Rightarrow> nat \<Rightarrow> cand list \<Rightarrow> cand list" where
  "sink x i h =
     (let c = 2 * i + 1 in
      if c \<ge> length h then h[i := x]
      else
        let c = (if c + 1 < length h \<and> cand_less (h ! (c + 1)) (h ! c) then c + 1 else c) in
        if \<not> cand_less (h ! c) x then h[i := x]
        else sink x c (h[i := h ! c]))"
  by pat_completeness auto
termination
  by (relation "measure (\<lambda>(x, i, h). length h - i)") (auto split: if_splits)

declare sink.simps [simp del]

definition heap_pop :: "cand list \<Rightarrow> cand \<times> cand list" where
  "heap_pop h = (h ! 0, if length h = 1 then [] else sink (last h) 0 (butlast h))"

section \<open>Merging one pre-token\<close>

record links =
  lk_sym :: "int list"
  lk_prev :: "int list"
  lk_next :: "int list"
  lk_at :: "nat list"
  lk_heap :: "cand list"

definition push_pair :: "tok \<Rightarrow> int \<Rightarrow> int \<Rightarrow> links \<Rightarrow> links" where
  "push_pair t left right k =
     (if left < 0 \<or> right < 0 \<or> lk_sym k ! nat left < 0 \<or> lk_sym k ! nat right < 0 then k
      else case find_merge t (lk_sym k ! nat left) (lk_sym k ! nat right) of
        None \<Rightarrow> k
      | Some m \<Rightarrow> k\<lparr>lk_heap := heap_push \<lparr>cd_rank = mg_rank m, cd_pos = nat left\<rparr> (lk_heap k)\<rparr>)"

text \<open>The symbols of the bytes from place \<open>b\<close> on, with their places.\<close>

function symbols :: "tok \<Rightarrow> bytes \<Rightarrow> nat \<Rightarrow> (int \<times> nat) list" where
  "symbols t s b =
     (if b < length s then
        let l = (if tk_spm t then lead_len (s ! b) (length s - b) else 1);
            y = (if tk_spm t then lookup t (take l (drop b s)) else tk_byte_id t ! unat (s ! b))
        in (if y < 0 then -2 else y, b) # symbols t s (b + l)
      else [])"
  by pat_completeness auto
termination
  by (relation "measure (\<lambda>(t, s, b). length s - b)") (auto simp: lead_len_def Let_def)

declare symbols.simps [simp del]

definition start_links :: "tok \<Rightarrow> bytes \<Rightarrow> links" where
  "start_links t s =
     (let ys = symbols t s 0; ns = length ys;
          k = \<lparr>lk_sym = map fst ys, lk_prev = map (\<lambda>i. int i - 1) [0..<ns],
               lk_next = map (\<lambda>i. if i + 1 < ns then int i + 1 else -1) [0..<ns],
               lk_at = map snd ys, lk_heap = []\<rparr>
      in fold (\<lambda>i. push_pair t (int i) (int i + 1)) [0..<ns - 1] k)"

text \<open>One round of the loop that takes the best pair off the heap.\<close>

definition merge_step :: "tok \<Rightarrow> links \<Rightarrow> links" where
  "merge_step t k =
     (let (c, h) = heap_pop (lk_heap k); k = k\<lparr>lk_heap := h\<rparr>;
          l = cd_pos c; r = lk_next k ! l
      in if lk_sym k ! l < 0 \<or> r < 0 then k
         else case find_merge t (lk_sym k ! l) (lk_sym k ! nat r) of
           None \<Rightarrow> k
         | Some m \<Rightarrow>
             if mg_rank m \<noteq> cd_rank c then k
             else
               let rr = lk_next k ! nat r;
                   k = k\<lparr>lk_sym := (lk_sym k)[l := int (mg_result m), nat r := -1],
                         lk_next := (lk_next k)[l := rr],
                         lk_prev := (if rr \<ge> 0 then (lk_prev k)[nat rr := int l] else lk_prev k)\<rparr>;
                   k = push_pair t (lk_prev k ! l) (int l) k
               in push_pair t (int l) (lk_next k ! l) k)"

text \<open>The loop, on fuel: no more rounds than candidates are ever pushed (\<open>Tok_Merge\<close>).\<close>

fun merge_all :: "tok \<Rightarrow> nat \<Rightarrow> links \<Rightarrow> links option" where
  "merge_all t 0 k = (if lk_heap k = [] then Some k else None)"
| "merge_all t (Suc fuel) k = (if lk_heap k = [] then Some k else merge_all t fuel (merge_step t k))"

text \<open>What is written: the array of \<open>max\<close> tokens and the count, and the outcomes of requests.\<close>

record emit =
  em_out :: "int list"
  em_count :: nat
  em_mem :: mem

definition emit1 :: "int \<Rightarrow> emit \<Rightarrow> emit" where
  "emit1 y e =
     e\<lparr>em_out := (if em_count e < length (em_out e) then (em_out e)[em_count e := y] else em_out e),
       em_count := em_count e + 1\<rparr>"

text \<open>The list of symbols from place \<open>i\<close> on, each written out; fuel for the links.\<close>

fun write_out :: "tok \<Rightarrow> bytes \<Rightarrow> links \<Rightarrow> nat \<Rightarrow> int \<Rightarrow> emit \<Rightarrow> emit option" where
  "write_out t s k 0 i e = (if i < 0 then Some e else None)"
| "write_out t s k (Suc fuel) i e =
     (if i < 0 then Some e
      else
        let y = lk_sym k ! nat i; b = lk_at k ! nat i;
            e = (if y = -2
                 then fold (\<lambda>c. emit1 (tk_byte_id t ! unat c)) (take (lead_len (s ! b) (length s - b)) (drop b s)) e
                 else emit1 y e)
        in write_out t s k fuel (lk_next k ! nat i) e)"

definition request2 :: "emit \<Rightarrow> bool \<times> emit" where
  "request2 e =
     (case malloc (em_mem e) of (a, m) \<Rightarrow> case malloc m of (b, m) \<Rightarrow> (a \<and> b, e\<lparr>em_mem := m\<rparr>))"

text \<open>A refused request for a long pre-token ends the function with nothing written.\<close>

definition bpe :: "tok \<Rightarrow> bytes \<Rightarrow> emit \<Rightarrow> emit option" where
  "bpe t s e =
     (case (if length s > 128 then request2 e else (True, e)) of (ok, e) \<Rightarrow>
        if \<not> ok then Some e
        else
          let k = start_links t s; ns = length (lk_sym k) in
          case merge_all t (3 * ns) k of
            None \<Rightarrow> None
          | Some k \<Rightarrow> write_out t s k ns (if ns \<noteq> 0 then 0 else -1) e)"

section \<open>A text\<close>

definition spm_text :: "bytes \<Rightarrow> bytes" where
  "spm_text text = concat (map (\<lambda>c. if c = 0x20 then [0xE2, 0x96, 0x81] else [c]) text)"

function spm_pieces :: "tok \<Rightarrow> bytes \<Rightarrow> emit \<Rightarrow> emit option" where
  "spm_pieces t s e =
     (case s of
        [] \<Rightarrow> Some e
      | c # _ \<Rightarrow>
          let nl = (c = 0x0A); p = takeWhile (\<lambda>x. (x = 0x0A) = nl) s;
              y = (if nl then lookup t p else -1)
          in case (if y \<ge> 0 then Some (emit1 y e) else bpe t p e) of
               None \<Rightarrow> None
             | Some e \<Rightarrow> spm_pieces t (drop (length p) s) e)"
  by pat_completeness auto
termination
  by (relation "measure (\<lambda>(t, s, e). length s)") (auto simp: Let_def)

declare spm_pieces.simps [simp del]

text \<open>The result holds whether the memory was granted.\<close>

definition encode_spm :: "tok \<Rightarrow> bytes \<Rightarrow> emit \<Rightarrow> (bool \<times> emit) option" where
  "encode_spm t text e =
     (case malloc (em_mem e) of (ok, m) \<Rightarrow>
        let e = e\<lparr>em_mem := m\<rparr> in
        if \<not> ok then Some (False, e)
        else map_option (Pair True) (spm_pieces t (spm_text text) e))"

text \<open>The bytes of a pre-token as characters of the byte-level alphabet, at most 256 of them.\<close>

fun level_text :: "tok \<Rightarrow> bytes \<Rightarrow> bytes \<Rightarrow> bytes option" where
  "level_text t [] w = Some w"
| "level_text t (c # cs) w =
     (let y = tk_byte_id t ! unat c in
      if y < 0 then None
      else
        let u = text_of t (nat y) in
        if length w + length u > 256 then None else level_text t cs (w @ u))"

definition whole :: "tok \<Rightarrow> bytes \<Rightarrow> emit \<Rightarrow> emit option" where
  "whole t s e =
     (case level_text t s [] of
        None \<Rightarrow> None
      | Some w \<Rightarrow> (let y = lookup t w in if y < 0 then None else Some (emit1 y e)))"

lemma get_cp_advances: "(cp, l) = get_cp (drop b s) \<Longrightarrow> b < length s \<Longrightarrow> 0 < l"
  using get_cp_ok [of "drop b s"] by (metis drop_eq_Nil2 not_le snd_conv)

function code_points :: "bytes \<Rightarrow> nat \<Rightarrow> (u32 \<times> nat) list" where
  "code_points s b =
     (if b < length s then
        let (cp, l) = get_cp (drop b s) in (cp, b) # code_points s (b + l)
      else [])"
  by pat_completeness auto
termination
  by (relation "measure (\<lambda>(s, b). length s - b)") (auto dest: get_cp_advances)

declare code_points.simps [simp del]

definition piece_end :: "unidata \<Rightarrow> tok \<Rightarrow> u32 list \<Rightarrow> nat \<Rightarrow> nat" where
  "piece_end d t cp i =
     (if tk_tekken t then tekken_end d cp i
      else if tk_gpt2 t then gpt2_end d cp i
      else pretoken_end d cp i (tk_marks t) (tk_digits t))"

fun pieces :: "unidata \<Rightarrow> tok \<Rightarrow> bytes \<Rightarrow> u32 list \<Rightarrow> nat list \<Rightarrow> nat \<Rightarrow> nat \<Rightarrow> emit \<Rightarrow> emit option" where
  "pieces d t text cp offs 0 i e = (if i < length cp then None else Some e)"
| "pieces d t text cp offs (Suc fuel) i e =
     (if i < length cp then
        let k = piece_end d t cp i; s = take (offs ! k - offs ! i) (drop (offs ! i) text) in
        case (if tk_tekken t then whole t s e else None) of
          Some e \<Rightarrow> pieces d t text cp offs fuel k e
        | None \<Rightarrow> (case bpe t s e of None \<Rightarrow> None | Some e \<Rightarrow> pieces d t text cp offs fuel k e)
      else Some e)"

definition encode_plain :: "unidata \<Rightarrow> tok \<Rightarrow> bytes \<Rightarrow> emit \<Rightarrow> (bool \<times> emit) option" where
  "encode_plain d t text e =
     (if tk_spm t then encode_spm t text e
      else case request2 e of (ok, e) \<Rightarrow>
        if \<not> ok then Some (False, e)
        else
          let cs = code_points text 0 in
          map_option (Pair True)
            (pieces d t text (map fst cs) (map snd cs @ [length text]) (length cs) 0 e))"

text \<open>The first special token, in the order of the list, written at \<open>i\<close>.\<close>

definition special_at :: "tok \<Rightarrow> bytes \<Rightarrow> nat \<Rightarrow> nat option" where
  "special_at t text i =
     find (\<lambda>k. text_of t k \<noteq> [] \<and> length (text_of t k) \<le> length text - i
              \<and> take (length (text_of t k)) (drop i text) = text_of t k) (tk_special t)"

fun encode_from :: "unidata \<Rightarrow> tok \<Rightarrow> bytes \<Rightarrow> nat \<Rightarrow> nat \<Rightarrow> nat \<Rightarrow> emit \<Rightarrow> (bool \<times> nat \<times> emit) option" where
  "encode_from d t text 0 i start e = (if i < length text then None else Some (True, start, e))"
| "encode_from d t text (Suc fuel) i start e =
     (if i < length text then
        case special_at t text i of
          None \<Rightarrow> encode_from d t text fuel (i + 1) start e
        | Some k \<Rightarrow>
            (case encode_plain d t (take (i - start) (drop start text)) e of
               None \<Rightarrow> None
             | Some (ok, e) \<Rightarrow>
                 if \<not> ok then Some (False, start, e)
                 else
                   let j = i + length (text_of t k)
                   in encode_from d t text fuel j j (emit1 (int k) e))
      else Some (True, start, e))"

text \<open>The count of the tokens, or \<open>-1\<close>, and what was written.\<close>

definition tokenizer_encode :: "unidata \<Rightarrow> tok \<Rightarrow> bytes \<Rightarrow> bool \<Rightarrow> int list \<Rightarrow> mem \<Rightarrow> (int \<times> emit) option" where
  "tokenizer_encode d t text special out mem =
     (let e = \<lparr>em_out = out, em_count = 0, em_mem = mem\<rparr> in
      case (if special then encode_from d t text (length text) 0 0 e else Some (True, 0, e)) of
        None \<Rightarrow> None
      | Some (ok, start, e) \<Rightarrow>
          if \<not> ok then Some (-1, e)
          else case encode_plain d t (drop start text) e of
            None \<Rightarrow> None
          | Some (ok, e) \<Rightarrow> Some (if ok then int (em_count e) else -1, e))"

section \<open>The bytes of a token\<close>

function spm_spaces :: "bytes \<Rightarrow> bytes" where
  "spm_spaces s =
     (if s = [] then []
      else if take 3 s = [0xE2, 0x96, 0x81] then 0x20 # spm_spaces (drop 3 s)
      else hd s # spm_spaces (tl s))"
  by pat_completeness auto
termination
  by (relation "measure length") auto

declare spm_spaces.simps [simp del]

definition hex_val :: "u8 \<Rightarrow> nat" where
  "hex_val c =
     (if 0x30 \<le> c \<and> c \<le> 0x39 then unat (c - 0x30)
      else if 0x41 \<le> c \<and> c \<le> 0x46 then unat (c - 0x37)
      else if 0x61 \<le> c \<and> c \<le> 0x66 then unat (c - 0x57)
      else 16)"

text \<open>
  \<open>(int)strtol(s, NULL, 16)\<close>: space, a sign and \<open>0x\<close> may come first; the value is held within
  64 bits and its low 32 are taken.
\<close>

definition strtol16 :: "bytes \<Rightarrow> int" where
  "strtol16 s =
     (let s = dropWhile isspace s;
          neg = (s \<noteq> [] \<and> hd s = 0x2D);
          s = (if s \<noteq> [] \<and> (hd s = 0x2D \<or> hd s = 0x2B) then tl s else s);
          s = (if length s \<ge> 3 \<and> s ! 0 = 0x30 \<and> (s ! 1 = 0x78 \<or> s ! 1 = 0x58) \<and> hex_val (s ! 2) < 16
               then drop 2 s else s);
          v = foldl (\<lambda>a c. 16 * a + int (hex_val c)) 0 (takeWhile (\<lambda>c. hex_val c < 16) s);
          v = (if neg then max (- v) (- (2 ^ 63)) else min v (2 ^ 63 - 1))
      in sint (of_int v :: u32))"

function level_decode :: "tok \<Rightarrow> bytes \<Rightarrow> nat \<Rightarrow> bytes" where
  "level_decode t s i =
     (if i < length s then
        let (cp, l) = get_cp (drop i s)
        in (if cp < 512 then tk_cp_byte t ! unat cp else 0x3F) # level_decode t s (i + l)
      else [])"
  by pat_completeness auto
termination
  by (relation "measure (\<lambda>(t, s, i). length s - i)") (auto dest: get_cp_advances)

declare level_decode.simps [simp del]

text \<open>
  All the bytes; the caller's buffer takes the first \<open>max\<close> of them and the result is how many
  there are.
\<close>

definition token_bytes :: "tok \<Rightarrow> int \<Rightarrow> bytes" where
  "token_bytes t k =
     (if k < 0 \<or> nat k \<ge> tk_n t then []
      else
        let s = text_of t (nat k) in
        if nat k \<in> set (tk_special t) then s
        else if tk_spm t then
          (let b = strtol16 (drop (tk_off t ! nat k + 3) (tk_pool t)) in
           if length s = 6 \<and> take 3 s = lit ''<0x'' \<and> b \<ge> 0 \<and> b < 256 \<and> tk_byte_id t ! nat b = k
           then [of_int b]
           else spm_spaces s)
        else level_decode t s 0)"

definition tokenizer_decode :: "tok \<Rightarrow> int \<Rightarrow> bytes \<Rightarrow> nat \<times> bytes" where
  "tokenizer_decode t k out =
     (let w = token_bytes t k
      in (length w, take (length out) w @ drop (length w) out))"

end
