(* ===== verification/Tok_Heap.thy ===== *)
theory Tok_Heap
  imports Tok_Bpe "HOL-Library.Multiset"
begin

text \<open>
  The heap of candidate pairs: what the merging relies on as the locale \<open>pair_queue\<close>, and that
  \<open>heap_push\<close> and \<open>heap_pop\<close> provide it.
\<close>

section \<open>The order of candidates\<close>

lemma cand_less_irrefl [simp]: "\<not> cand_less a a"
  by (simp add: cand_less_def)

lemma cand_less_asym: "cand_less a b \<Longrightarrow> \<not> cand_less b a"
  by (auto simp: cand_less_def)

lemma cand_less_trans: "cand_less a b \<Longrightarrow> cand_less b c \<Longrightarrow> cand_less a c"
  by (auto simp: cand_less_def)

lemma not_less_trans: "\<not> cand_less b a \<Longrightarrow> \<not> cand_less c b \<Longrightarrow> \<not> cand_less c a"
  by (auto simp: cand_less_def)

lemma cand_less_total: "\<not> cand_less a b \<Longrightarrow> \<not> cand_less b a \<Longrightarrow> a = b" for a b :: cand
  by (cases a; cases b) (auto simp: cand_less_def)

section \<open>What the merging relies on\<close>

locale pair_queue =
  fixes ok :: "'q \<Rightarrow> bool" and items :: "'q \<Rightarrow> cand multiset"
    and put_in :: "cand \<Rightarrow> 'q \<Rightarrow> 'q" and take_out :: "'q \<Rightarrow> cand \<times> 'q"
  assumes put_ok: "ok q \<Longrightarrow> ok (put_in c q)"
    and put_items: "ok q \<Longrightarrow> items (put_in c q) = add_mset c (items q)"
    and take_ok: "ok q \<Longrightarrow> items q \<noteq> {#} \<Longrightarrow> take_out q = (c, q') \<Longrightarrow> ok q'"
    and take_items: "ok q \<Longrightarrow> items q \<noteq> {#} \<Longrightarrow> take_out q = (c, q') \<Longrightarrow> items q = add_mset c (items q')"
    and take_least: "ok q \<Longrightarrow> items q \<noteq> {#} \<Longrightarrow> take_out q = (c, q') \<Longrightarrow> d \<in># items q \<Longrightarrow> \<not> cand_less d c"
begin

fun drain :: "nat \<Rightarrow> 'q \<Rightarrow> cand list" where
  "drain 0 q = []"
| "drain (Suc n) q = (case take_out q of (c, q') \<Rightarrow> c # drain n q')"

lemma drain_sorted:
  assumes "ok q" and "size (items q) = n"
  shows "mset (drain n q) = items q \<and> sorted_wrt (\<lambda>a b. \<not> cand_less b a) (drain n q)"
  using assms
proof (induction n arbitrary: q)
  case 0
  then show ?case by simp
next
  case (Suc n)
  obtain c q' where t: "take_out q = (c, q')" by force
  have ne: "items q \<noteq> {#}" using Suc.prems(2) by auto
  have i: "items q = add_mset c (items q')" by (rule take_items [OF Suc.prems(1) ne t])
  then have "mset (drain n q') = items q' \<and> sorted_wrt (\<lambda>a b. \<not> cand_less b a) (drain n q')"
    using Suc.prems by (intro Suc.IH take_ok [OF Suc.prems(1) ne t]) simp
  moreover from this have "set (drain n q') = set_mset (items q')" by (metis set_mset_mset)
  ultimately show ?case
    using t i take_least [OF Suc.prems(1) ne t] by simp
qed

end

section \<open>The heap in an array\<close>

definition par :: "nat \<Rightarrow> nat" where
  "par i = (i - 1) div 2"

definition heap_ok :: "cand list \<Rightarrow> bool" where
  "heap_ok h \<longleftrightarrow> (\<forall>i. 0 < i \<and> i < length h \<longrightarrow> \<not> cand_less (h ! i) (h ! par i))"

text \<open>In order but for the element at \<open>i\<close> and the one above it, or those below it.\<close>

definition past :: "nat \<Rightarrow> cand list \<Rightarrow> bool" where
  "past i g \<longleftrightarrow> (\<forall>j. 0 < j \<and> j < length g \<and> par j = i \<and> 0 < i \<longrightarrow> \<not> cand_less (g ! j) (g ! par i))"

definition rising :: "nat \<Rightarrow> cand list \<Rightarrow> bool" where
  "rising i g \<longleftrightarrow> past i g \<and> (\<forall>j. 0 < j \<and> j < length g \<and> j \<noteq> i \<longrightarrow> \<not> cand_less (g ! j) (g ! par j))"

definition sinking :: "nat \<Rightarrow> cand list \<Rightarrow> bool" where
  "sinking i g \<longleftrightarrow> past i g \<and> (\<forall>j. 0 < j \<and> j < length g \<and> par j \<noteq> i \<longrightarrow> \<not> cand_less (g ! j) (g ! par j))"

lemma par_less: "0 < i \<Longrightarrow> par i < i"
  by (auto simp: par_def)

lemma par_eq: "0 < j \<Longrightarrow> par j = i \<longleftrightarrow> j = 2 * i + 1 \<or> j = 2 * i + 2"
  by (auto simp: par_def)

lemma swap_mset: "i < length g \<Longrightarrow> j < length g \<Longrightarrow> mset (g[i := g ! j, j := g ! i]) = mset g"
  by (rule mset_swap)

lemma rise_heap:
  "i < length h \<Longrightarrow> rising i (h[i := c]) \<Longrightarrow> heap_ok (rise c i h) \<and> mset (rise c i h) = mset (h[i := c])"
proof (induction c i h rule: rise.induct)
  case (1 c i h)
  let ?g = "h[i := c]" and ?p = "par i"
  have gi: "?g ! i = c" using 1(2) by simp
  show ?case
  proof (cases "0 < i \<and> cand_less c (h ! ?p)")
    case False
    then have "rise c i h = ?g" by (subst rise.simps) (auto simp: par_def)
    moreover have "\<not> cand_less (?g ! j) (?g ! par j)" if "0 < j" "j < length ?g" for j
    proof (cases "j = i")
      case True
      then show ?thesis using False that(1) gi par_less [OF that(1)] by simp
    next
      case False
      then show ?thesis using 1(3) that unfolding rising_def by blast
    qed
    then have "heap_ok ?g" unfolding heap_ok_def by blast
    ultimately show ?thesis by simp
  next
    case True
    then have p: "?p < i" "?p < length h" "?g ! ?p = h ! ?p" using par_less [of i] 1(2) by auto
    let ?h = "h[i := h ! ?p]"
    let ?g2 = "?h[?p := c]"
    have g2: "?g2 = ?g[i := ?g ! ?p, ?p := ?g ! i]" using gi p by simp
    have nth: "?g2 ! j = (if j = ?p then c else if j = i then h ! ?p else h ! j)" if "j < length h" for j
      using that p by (simp add: nth_list_update)
    have old: "\<not> cand_less (h ! j) (h ! par j)" if "0 < j" "j < length h" "j \<noteq> i" "par j \<noteq> i" for j
    proof -
      have "\<not> cand_less (?g ! j) (?g ! par j)" using 1(3) that unfolding rising_def length_list_update by blast
      then show ?thesis using that by simp
    qed
    have kids: "\<not> cand_less (h ! j) (h ! ?p)" if "0 < j" "j < length h" "par j = i" for j
    proof -
      have "\<not> cand_less (?g ! j) (?g ! ?p)" using 1(3) that True by (simp add: rising_def past_def)
      moreover have "j \<noteq> i" using par_less [OF that(1)] that(3) by auto
      ultimately show ?thesis using p by simp
    qed
    have "rising ?p ?g2"
      unfolding rising_def past_def
    proof (intro conjI allI impI)
      fix j assume j: "0 < j \<and> j < length ?g2 \<and> par j = ?p \<and> 0 < ?p"
      have up: "\<not> cand_less (h ! ?p) (h ! par ?p)" using old [of ?p] p j par_less [of ?p] by simp
      have pp: "par ?p < ?p" "par ?p < length h" using par_less [of ?p] j p by auto
      show "\<not> cand_less (?g2 ! j) (?g2 ! par ?p)"
      proof (cases "j = i")
        case True
        then show ?thesis using up nth [of i] nth [of "par ?p"] 1(2) p pp by simp
      next
        case False
        then have "\<not> cand_less (h ! j) (h ! ?p)" using old [of j] j p by simp
        then show ?thesis using not_less_trans [OF up] nth [of j] nth [of "par ?p"] j False p pp par_less [of j] by simp
      qed
    next
      fix j assume j: "0 < j \<and> j < length ?g2 \<and> j \<noteq> ?p"
      have pj: "par j < j" "par j < length h" using par_less [of j] j by auto
      consider "j = i" | "par j = i" | "par j = ?p" "j \<noteq> i" | "par j \<noteq> i" "par j \<noteq> ?p" "j \<noteq> i" by blast
      then show "\<not> cand_less (?g2 ! j) (?g2 ! par j)"
      proof cases
        case 1
        then show ?thesis using True nth [of j] nth [of ?p] p j cand_less_asym by simp
      next
        case 2
        then show ?thesis using kids [of j] nth [of j] nth [of i] j pj p 1(2) by simp
      next
        case 3
        then have "\<not> cand_less (h ! j) (h ! ?p)" using old [of j] j p by simp
        then have "\<not> cand_less (h ! j) c" using True cand_less_trans by blast
        then show ?thesis using 3 nth [of j] nth [of ?p] j p by simp
      next
        case 4
        then show ?thesis using old [of j] nth [of j] nth [of "par j"] j pj by simp
      qed
    qed
    then have "heap_ok (rise c ?p ?h) \<and> mset (rise c ?p ?h) = mset ?g2"
      using 1(1) True p 1(2) by (simp add: par_def)
    moreover have "rise c i h = rise c ?p ?h" using True by (subst rise.simps) (simp add: par_def)
    moreover have "mset ?g2 = mset ?g" unfolding g2 by (rule swap_mset) (use p 1(2) in simp_all)
    ultimately show ?thesis by simp
  qed
qed

lemma heap_push_ok:
  assumes "heap_ok h"
  shows "heap_ok (heap_push c h)" "mset (heap_push c h) = add_mset c (mset h)"
proof -
  have "par j \<noteq> length h" if "0 < j" "j < Suc (length h)" for j using par_less [OF that(1)] that(2) by simp
  moreover have "\<not> cand_less (h ! j) (h ! par j)" "par j < length h" if "0 < j" "j < length h" for j
    using assms that par_less [OF that(1)] by (simp_all add: heap_ok_def)
  ultimately have "rising (length h) ((h @ [c])[length h := c])"
    unfolding rising_def past_def by (auto simp: nth_append less_Suc_eq)
  then have "heap_ok (heap_push c h) \<and> mset (heap_push c h) = mset ((h @ [c])[length h := c])"
    unfolding heap_push_def by (intro rise_heap) simp_all
  then show "heap_ok (heap_push c h)" "mset (heap_push c h) = add_mset c (mset h)" by simp_all
qed


definition least_kid :: "nat \<Rightarrow> cand list \<Rightarrow> nat" where
  "least_kid i h =
     (if 2 * i + 2 < length h \<and> cand_less (h ! (2 * i + 2)) (h ! (2 * i + 1)) then 2 * i + 2 else 2 * i + 1)"

lemma sink_step:
  "sink x i h =
     (if 2 * i + 1 < length h \<and> cand_less (h ! least_kid i h) x
      then sink x (least_kid i h) (h[i := h ! least_kid i h]) else h[i := x])"
  by (subst sink.simps) (simp add: least_kid_def Let_def)

lemma least_kid:
  assumes "2 * i + 1 < length h"
  shows "i < least_kid i h" "least_kid i h < length h" "par (least_kid i h) = i"
    "\<And>j. 0 < j \<Longrightarrow> j < length h \<Longrightarrow> par j = i \<Longrightarrow> \<not> cand_less (h ! j) (h ! least_kid i h)"
proof -
  show "i < least_kid i h" "least_kid i h < length h" "par (least_kid i h) = i"
    using assms by (auto simp: least_kid_def par_def)
  show "\<not> cand_less (h ! j) (h ! least_kid i h)" if "0 < j" "j < length h" "par j = i" for j
    using that assms cand_less_asym by (auto simp: least_kid_def par_eq)
qed

lemma sink_heap:
  "i < length h \<Longrightarrow> sinking i (h[i := x]) \<Longrightarrow> heap_ok (sink x i h) \<and> mset (sink x i h) = mset (h[i := x])"
proof (induction "length h - i" arbitrary: i h rule: less_induct)
  case less
  let ?g = "h[i := x]" and ?c = "least_kid i h"
  have gi: "?g ! i = x" using less.prems(1) by simp
  show ?case
  proof (cases "2 * i + 1 < length h \<and> cand_less (h ! ?c) x")
    case False
    have "\<not> cand_less (?g ! j) (?g ! par j)" if j: "0 < j" "j < length h" for j
    proof (cases "par j = i")
      case True
      have k: "2 * i + 1 < length h" "j \<noteq> i" using True j par_less [of j] by (auto simp: par_eq)
      then have "\<not> cand_less (h ! j) (h ! ?c)" "\<not> cand_less (h ! ?c) x" using least_kid(4) True j False by auto
      then have "\<not> cand_less (h ! j) x" using not_less_trans by blast
      then show ?thesis using True k gi by simp
    next
      case False
      then show ?thesis using less.prems(2) j by (simp add: sinking_def)
    qed
    then have "heap_ok ?g" by (simp add: heap_ok_def)
    moreover have "sink x i h = ?g" using False by (subst sink_step) auto
    ultimately show ?thesis by simp
  next
    case True
    note c = least_kid [OF conjunct1 [OF True]]
    let ?h = "h[i := h ! ?c]"
    let ?g2 = "?h[?c := x]"
    have g2: "?g2 = ?g[i := ?g ! ?c, ?c := ?g ! i]" using gi c(1) by simp
    have nth: "?g2 ! j = (if j = ?c then x else if j = i then h ! ?c else h ! j)" if "j < length h" for j
      using that c by (simp add: nth_list_update)
    have old: "\<not> cand_less (h ! j) (h ! par j)" if "0 < j" "j < length h" "j \<noteq> i" "par j \<noteq> i" for j
    proof -
      have "\<not> cand_less (?g ! j) (?g ! par j)" using less.prems(2) that(1,2,4) unfolding sinking_def length_list_update by blast
      then show ?thesis using that by simp
    qed
    have up: "\<not> cand_less (h ! j) (h ! par i)" if "0 < j" "j < length h" "par j = i" "0 < i" for j
    proof -
      have "\<not> cand_less (?g ! j) (?g ! par i)" using less.prems(2) that by (simp add: sinking_def past_def)
      moreover have "j \<noteq> i" "par i \<noteq> i" using par_less [of j] par_less [of i] that by auto
      ultimately show ?thesis by simp
    qed
    have "sinking ?c ?g2"
      unfolding sinking_def past_def
    proof (intro conjI allI impI)
      fix j assume j: "0 < j \<and> j < length ?g2 \<and> par j = ?c \<and> 0 < ?c"
      then have "j \<noteq> i" "j \<noteq> ?c" using par_less [of j] c(1) by auto
      moreover have "\<not> cand_less (h ! j) (h ! ?c)" using old [of j] j c(1) \<open>j \<noteq> i\<close> by auto
      ultimately show "\<not> cand_less (?g2 ! j) (?g2 ! par ?c)"
        using nth [of j] nth [of i] j c less.prems(1) by simp
    next
      fix j assume j: "0 < j \<and> j < length ?g2 \<and> par j \<noteq> ?c"
      have pj: "par j < j" "par j < length h" using par_less [of j] j by auto
      consider "j = ?c" | "par j = i" "j \<noteq> ?c" | "j = i" | "par j \<noteq> i" "j \<noteq> ?c" "j \<noteq> i" by blast
      then show "\<not> cand_less (?g2 ! j) (?g2 ! par j)"
      proof cases
        case 1
        then show ?thesis using True nth [of j] nth [of i] j c less.prems(1) cand_less_asym by simp
      next
        case 2
        then have "\<not> cand_less (h ! j) (h ! ?c)" using c(4) j by simp
        then show ?thesis using 2 nth [of j] nth [of i] j c less.prems(1) pj by simp
      next
        case 3
        then have "\<not> cand_less (h ! ?c) (h ! par i)" using up [of ?c] c j by simp
        then show ?thesis using 3 nth [of i] nth [of "par i"] j c pj less.prems(1) by simp
      next
        case 4
        then show ?thesis using old [of j] nth [of j] nth [of "par j"] j pj by simp
      qed
    qed
    then have "heap_ok (sink x ?c ?h) \<and> mset (sink x ?c ?h) = mset ?g2"
      using c less.prems(1) by (intro less.hyps) auto
    moreover have "sink x i h = sink x ?c ?h" using True by (subst sink_step) simp
    moreover have "mset ?g2 = mset ?g" unfolding g2 by (rule swap_mset) (use c less.prems(1) in simp_all)
    ultimately show ?thesis by simp
  qed
qed

lemma heap_root: "heap_ok h \<Longrightarrow> i < length h \<Longrightarrow> \<not> cand_less (h ! i) (h ! 0)"
proof (induction i rule: less_induct)
  case (less i)
  show ?case
  proof (cases "i = 0")
    case False
    then have "\<not> cand_less (h ! i) (h ! par i)" "\<not> cand_less (h ! par i) (h ! 0)"
      using less par_less [of i] by (auto simp: heap_ok_def)
    then show ?thesis using not_less_trans by blast
  qed simp
qed

lemma heap_pop_ok:
  assumes "heap_ok h" "h \<noteq> []" and p: "heap_pop h = (c, h')"
  shows "heap_ok h'" "mset h = add_mset c (mset h')" "d \<in># mset h \<Longrightarrow> \<not> cand_less d c"
proof -
  have c: "c = h ! 0" using p by (simp add: heap_pop_def)
  then show "\<not> cand_less d c" if "d \<in># mset h" using that heap_root [OF assms(1)] by (auto simp: in_set_conv_nth)
  have "heap_ok h' \<and> mset h = add_mset c (mset h')"
  proof (cases "length h = 1")
    case True
    then obtain a where "h = [a]" by (cases h) auto
    then show ?thesis using p by (auto simp: heap_pop_def heap_ok_def)
  next
    case False
    then obtain a t where h: "h = a # t" "t \<noteq> []" using assms(2) by (cases h) auto
    have h': "h' = sink (last h) 0 (butlast h)" using p False by (simp add: heap_pop_def)
    have nth: "(butlast h)[0 := last h] ! j = h ! j" if "j \<noteq> 0" "j < length t" for j
      using that h by (simp add: nth_butlast)
    have "\<not> cand_less ((butlast h)[0 := last h] ! j) ((butlast h)[0 := last h] ! par j)"
      if "0 < j" "j < length t" "par j \<noteq> 0" for j
    proof -
      have "(butlast h)[0 := last h] ! j = h ! j" "(butlast h)[0 := last h] ! par j = h ! par j"
        using nth that par_less [of j] by simp_all
      moreover have "\<not> cand_less (h ! j) (h ! par j)"
        using assms(1) that(1,2) arg_cong [OF h(1), of length] unfolding heap_ok_def by simp
      ultimately show ?thesis by simp
    qed
    moreover have "length ((butlast h)[0 := last h]) = length t" using h(1) by simp
    ultimately have "sinking 0 ((butlast h)[0 := last h])"
      unfolding sinking_def past_def by fastforce
    then have "heap_ok h' \<and> mset h' = mset ((butlast h)[0 := last h])"
      unfolding h' using h by (intro sink_heap) simp_all
    moreover have "(butlast h)[0 := last h] = last t # butlast t" using h by simp
    moreover have "mset (last t # butlast t) = mset t"
      using arg_cong [OF append_butlast_last_id [OF h(2)], of mset] by simp
    ultimately show ?thesis using h c by simp
  qed
  then show "heap_ok h'" "mset h = add_mset c (mset h')" by simp_all
qed

interpretation pq: pair_queue heap_ok mset heap_push heap_pop
proof unfold_locales
  fix h c h' d
  show "heap_ok (heap_push c h)" "mset (heap_push c h) = add_mset c (mset h)" if "heap_ok h"
    using that by (rule heap_push_ok)+
  show "heap_ok h'" "mset h = add_mset c (mset h')" if "heap_ok h" "mset h \<noteq> {#}" "heap_pop h = (c, h')"
    using heap_pop_ok(1,2) [OF that(1) _ that(3)] that(2) by auto
  show "\<not> cand_less d c" if "heap_ok h" "mset h \<noteq> {#}" "heap_pop h = (c, h')" "d \<in># mset h"
    using heap_pop_ok(3) [OF that(1) _ that(3,4)] that(2) by auto
qed

fun pop_all :: "nat \<Rightarrow> cand list \<Rightarrow> cand list" where
  "pop_all 0 h = []"
| "pop_all (Suc n) h = (case heap_pop h of (c, h') \<Rightarrow> c # pop_all n h')"

lemma push_all: "heap_ok (fold heap_push cs h) \<and> mset (fold heap_push cs h) = mset cs + mset h" if "heap_ok h" for h
  using that by (induction cs arbitrary: h) (simp_all add: heap_push_ok)

text \<open>
  C32. The order in which the merging meets the candidates: pairs put into an empty heap in any
  order come off it, one \<open>heap_pop\<close> after another, sorted by rank and then by place, each as often
  as it was put in and none lost.
\<close>

theorem heap_sorts:
  "mset (pop_all (length cs) (fold heap_push cs [])) = mset cs \<and>
   sorted_wrt (\<lambda>a b. cd_rank a < cd_rank b \<or> cd_rank a = cd_rank b \<and> cd_pos a \<le> cd_pos b)
     (pop_all (length cs) (fold heap_push cs []))"
proof -
  have "pop_all n h = pq.drain n h" for n h
    by (induction n arbitrary: h) (simp_all split: prod.splits)
  moreover have "heap_ok (fold heap_push cs [])" "mset (fold heap_push cs []) = mset cs"
    using push_all [of "[]" cs] by (simp_all add: heap_ok_def)
  ultimately show ?thesis
    using pq.drain_sorted [of "fold heap_push cs []" "length cs"]
    by (auto simp: cand_less_def elim!: sorted_wrt_mono_rel [rotated])
qed

end
