(* ===== verification/Tok_Merge.thy ===== *)
theory Tok_Merge
  imports Tok_Heap
begin

text \<open>
  The merging of a pre-token: the links stay in order, the heap never holds more than three
  candidates for each byte, which is the room it has, and the loops end on the fuel of \<open>Tok_Bpe\<close>,
  so that encoding always returns.
\<close>

section \<open>The links\<close>

abbreviation live :: "links \<Rightarrow> nat \<Rightarrow> bool" where
  "live k i \<equiv> i < length (lk_sym k) \<and> lk_sym k ! i \<noteq> -1"

definition lives :: "links \<Rightarrow> nat set" where
  "lives k = {i. live k i}"

text \<open>A symbol still there is linked to later ones, each of which links back.\<close>

definition next_ok :: "links \<Rightarrow> nat \<Rightarrow> bool" where
  "next_ok k i \<longleftrightarrow> lk_next k ! i = -1 \<or>
     (\<exists>j. lk_next k ! i = int j \<and> i < j \<and> live k j \<and> lk_prev k ! j = int i)"

definition links_ok :: "links \<Rightarrow> bool" where
  "links_ok k \<longleftrightarrow>
     length (lk_prev k) = length (lk_sym k) \<and> length (lk_next k) = length (lk_sym k) \<and>
     length (lk_at k) = length (lk_sym k) \<and>
     heap_ok (lk_heap k) \<and> (\<forall>c \<in> set (lk_heap k). cd_pos c < length (lk_sym k)) \<and>
     (\<forall>i < length (lk_sym k). lk_prev k ! i < int (length (lk_sym k))) \<and>
     (\<forall>i. live k i \<longrightarrow> next_ok k i) \<and> (lk_sym k \<noteq> [] \<longrightarrow> lk_sym k ! 0 \<noteq> -1)"

definition weight :: "links \<Rightarrow> nat" where
  "weight k = length (lk_heap k) + 2 * card (lives k)"

lemma finite_lives [simp]: "finite (lives k)"
  by (rule finite_subset [of _ "{..<length (lk_sym k)}"]) (auto simp: lives_def)

lemma heap_push_set: "heap_ok h \<Longrightarrow> set (heap_push c h) = insert c (set h)"
  using heap_push_ok(2) [of h c] by (metis set_mset_mset set_mset_add_mset_insert)

lemma heap_push_length: "heap_ok h \<Longrightarrow> length (heap_push c h) = Suc (length h)"
  using heap_push_ok(2) [of h c] by (metis size_mset size_add_mset)

text \<open>What a push changes: the heap, by one candidate at most.\<close>

lemma push_pair_same [simp]:
  "lk_sym (push_pair t l r k) = lk_sym k" "lk_prev (push_pair t l r k) = lk_prev k"
  "lk_next (push_pair t l r k) = lk_next k" "lk_at (push_pair t l r k) = lk_at k"
  by (auto simp: push_pair_def split: option.splits)

lemma push_pair_ok:
  assumes "links_ok k" and "l < int (length (lk_sym k))"
  shows "links_ok (push_pair t l r k)" "length (lk_heap (push_pair t l r k)) \<le> Suc (length (lk_heap k))"
    "lives (push_pair t l r k) = lives k"
proof -
  have h: "heap_ok (lk_heap k)" using assms(1) by (simp add: links_ok_def)
  have new: "lk_heap (push_pair t l r k) = lk_heap k \<or>
      (\<exists>c. cd_pos c < length (lk_sym k) \<and> lk_heap (push_pair t l r k) = heap_push c (lk_heap k))"
  proof (cases "l < 0 \<or> r < 0 \<or> lk_sym k ! nat l < 0 \<or> lk_sym k ! nat r < 0")
    case False
    then have "nat l < length (lk_sym k)" using assms(2) by (simp add: nat_less_iff)
    then show ?thesis using False
      by (auto simp: push_pair_def split: option.splits intro!: exI [of _ "\<lparr>cd_rank = _, cd_pos = nat l\<rparr>"])
  qed (simp add: push_pair_def)
  then show "length (lk_heap (push_pair t l r k)) \<le> Suc (length (lk_heap k))"
    using heap_push_length [OF h] by auto
  show "lives (push_pair t l r k) = lives k" by (simp add: lives_def)
  have "heap_ok (lk_heap (push_pair t l r k))"
    "\<forall>c \<in> set (lk_heap (push_pair t l r k)). cd_pos c < length (lk_sym k)"
    using new h heap_push_ok(1) [OF h] heap_push_set [OF h] assms(1) by (auto simp: links_ok_def)
  then show "links_ok (push_pair t l r k)" using assms(1) by (simp add: links_ok_def next_ok_def)
qed

section \<open>One merge\<close>

definition joined :: "nat \<Rightarrow> nat \<Rightarrow> int \<Rightarrow> links \<Rightarrow> links" where
  "joined l r m k =
     (let rr = lk_next k ! r in
      k\<lparr>lk_sym := (lk_sym k)[l := m, r := -1], lk_next := (lk_next k)[l := rr],
        lk_prev := (if rr \<ge> 0 then (lk_prev k)[nat rr := int l] else lk_prev k)\<rparr>)"

lemma joined_ok:
  assumes "links_ok k" "live k l" "lk_next k ! l = int r" "m \<ge> 0"
  shows "links_ok (joined l r m k)" "lives (joined l r m k) = lives k - {r}" "r \<in> lives k"
    "lk_heap (joined l r m k) = lk_heap k" "length (lk_sym (joined l r m k)) = length (lk_sym k)"
proof -
  let ?n = "length (lk_sym k)" and ?j = "joined l r m k" and ?rr = "lk_next k ! r"
  have len: "length (lk_prev k) = ?n" "length (lk_next k) = ?n" "length (lk_at k) = ?n"
    and nx: "\<And>i. live k i \<Longrightarrow> next_ok k i" using assms(1) by (auto simp: links_ok_def)
  have r: "l < r" "live k r" "lk_prev k ! r = int l" using nx [OF assms(2)] assms(3) by (auto simp: next_ok_def)
  then show "r \<in> lives k" by (simp add: lives_def)
  show "lk_heap ?j = lk_heap k" "length (lk_sym ?j) = ?n" by (simp_all add: joined_def Let_def)
  have sym: "lk_sym ?j = (lk_sym k)[l := m, r := -1]" and nextl: "lk_next ?j = (lk_next k)[l := ?rr]"
    and prev: "lk_prev ?j = (if ?rr \<ge> 0 then (lk_prev k)[nat ?rr := int l] else lk_prev k)"
    by (simp_all add: joined_def Let_def)
  have lv: "live ?j i \<longleftrightarrow> live k i \<and> i \<noteq> r" for i
    using r assms(2,4) by (auto simp: sym nth_list_update)
  then show "lives ?j = lives k - {r}" by (auto simp: lives_def)
  have rr: "?rr = -1 \<or> (\<exists>q. ?rr = int q \<and> r < q \<and> live k q \<and> lk_prev k ! q = int r)"
    using nx [OF r(2)] by (simp add: next_ok_def)
  have "next_ok ?j i" if i: "live ?j i" for i
  proof (cases "i = l")
    case True
    have to: "lk_next ?j ! i = ?rr" using True assms(2) len by (simp add: nextl)
    have here: "live ?j q \<and> lk_prev ?j ! q = int l" if "?rr = int q" "r < q" "live k q" for q
      using that lv [of q] len by (simp add: prev)
    show ?thesis
    proof (cases "?rr = -1")
      case no: False
      then obtain q where q: "?rr = int q" "r < q" "live k q" using rr by blast
      with to have "lk_next ?j ! i = int q" "i < q" using r(1) True by simp_all
      moreover have "live ?j q" "lk_prev ?j ! q = int i" using here [OF q] True by blast+
      ultimately show ?thesis unfolding next_ok_def by blast
    qed (simp add: next_ok_def to)
  next
    case False
    have ik: "live k i" "i \<noteq> r" using i lv by auto
    have nxt: "lk_next ?j ! i = lk_next k ! i" using False by (simp add: nextl)
    show ?thesis
    proof (cases "lk_next k ! i = -1")
      case True
      then show ?thesis using nxt by (simp add: next_ok_def)
    next
      case no: False
      then obtain j where j: "lk_next k ! i = int j" "i < j" "live k j" "lk_prev k ! j = int i"
        using nx [OF ik(1)] by (auto simp: next_ok_def)
      have "j \<noteq> r" using j(4) r(3) False by auto
      moreover have "\<not> (?rr \<ge> 0 \<and> nat ?rr = j)" using rr j(4) ik(2) by auto
      then have "lk_prev ?j ! j = int i" using j(4) by (auto simp: prev)
      ultimately show ?thesis using j nxt lv [of j] unfolding next_ok_def by auto
    qed
  qed
  moreover have "lk_prev ?j ! i < int ?n" if "i < ?n" for i
  proof -
    have "?rr \<ge> 0 \<longrightarrow> nat ?rr < ?n" using rr by auto
    then show ?thesis using that assms(1,2) len by (auto simp: prev nth_list_update links_ok_def)
  qed
  moreover have "lk_sym ?j \<noteq> [] \<longrightarrow> lk_sym ?j ! 0 \<noteq> -1"
    using assms(1,2,4) r(1) by (auto simp: sym nth_list_update links_ok_def)
  ultimately show "links_ok ?j" using assms(1) len
    by (auto simp: links_ok_def joined_def Let_def)
qed

lemma merge_step_ok:
  assumes "links_ok k" "lk_heap k \<noteq> []"
  shows "links_ok (merge_step t k)" "weight (merge_step t k) < weight k"
    "length (lk_sym (merge_step t k)) = length (lk_sym k)"
proof -
  obtain c h where p: "heap_pop (lk_heap k) = (c, h)" by force
  note hp = heap_pop_ok(1,2) [OF _ assms(2) p]
  have hk: "heap_ok (lk_heap k)" using assms(1) by (simp add: links_ok_def)
  let ?k1 = "k\<lparr>lk_heap := h\<rparr>" and ?l = "cd_pos c"
  let ?r = "lk_next k ! ?l"
  have m: "mset (lk_heap k) = add_mset c (mset h)" by (rule hp(2) [OF hk])
  then have set: "set (lk_heap k) = insert c (set h)" by (metis set_mset_mset set_mset_add_mset_insert)
  have size: "length (lk_heap k) = Suc (length h)" using m by (metis size_mset size_add_mset)
  have l: "?l < length (lk_sym k)" using assms(1) set by (simp add: links_ok_def)
  have 1: "links_ok ?k1" using assms(1) hp(1) [OF hk] set by (auto simp: links_ok_def next_ok_def)
  have lives1: "lives ?k1 = lives k" by (simp add: lives_def)
  have w1: "weight ?k1 < weight k" using size by (simp add: weight_def lives1)
  have "(links_ok (merge_step t k) \<and> weight (merge_step t k) < weight k) \<and>
    length (lk_sym (merge_step t k)) = length (lk_sym k)"
  proof (cases "lk_sym k ! ?l < 0 \<or> ?r < 0 \<or> find_merge t (lk_sym k ! ?l) (lk_sym k ! nat ?r) = None \<or>
      mg_rank (the (find_merge t (lk_sym k ! ?l) (lk_sym k ! nat ?r))) \<noteq> cd_rank c")
    case True
    then have "merge_step t k = ?k1" using p by (auto simp: merge_step_def Let_def split: option.splits)
    then show ?thesis using 1 w1 by simp
  next
    case False
    then obtain g where g: "find_merge t (lk_sym k ! ?l) (lk_sym k ! nat ?r) = Some g" "mg_rank g = cd_rank c" by auto
    let ?m = "int (mg_result g)" and ?q = "nat ?r"
    let ?j = "joined ?l ?q ?m ?k1"
    let ?a = "push_pair t (lk_prev ?j ! ?l) (int ?l) ?j"
    have q: "lk_next ?k1 ! ?l = int ?q" "live ?k1 ?l" using False l by auto
    note j = joined_ok [OF 1 q(2,1), of ?m]
    have step: "merge_step t k = push_pair t (int ?l) (lk_next ?a ! ?l) ?a"
      using False g p by (simp add: merge_step_def joined_def Let_def)
    have "lk_prev ?j ! ?l < int (length (lk_sym ?j))" using j(1,5) l by (simp add: links_ok_def)
    note a = push_pair_ok [OF j(1) this, of t "int ?l"]
    have "int ?l < int (length (lk_sym ?a))" using l j(5) by simp
    note b = push_pair_ok [OF a(1) this, of t "lk_next ?a ! ?l"]
    have "card (lives k) = Suc (card (lives k - {?q}))"
      using card_Suc_Diff1 [OF finite_lives j(3)] by (simp only: lives1)
    moreover have "lives (merge_step t k) = lives k - {?q}" using a(3) b(3) j(2) lives1 unfolding step by simp
    moreover have "length (lk_heap (merge_step t k)) \<le> length h + 2" using a(2) b(2) j(4) unfolding step by simp
    ultimately have "weight (merge_step t k) < weight k" using size by (simp add: weight_def)
    then show ?thesis using b(1) step j(5) by simp
  qed
  then show "links_ok (merge_step t k)" "weight (merge_step t k) < weight k"
    "length (lk_sym (merge_step t k)) = length (lk_sym k)" by simp_all
qed


section \<open>The loops\<close>

lemma symbols_known: "(y, i) \<in> set (symbols t s b) \<Longrightarrow> y \<noteq> -1"
proof (induction t s b rule: symbols.induct)
  case (1 t s b)
  show ?case
  proof (cases "b < length s")
    case True
    let ?l = "if tk_spm t then lead_len (s ! b) (length s - b) else 1"
    let ?y = "if tk_spm t then lookup t (take ?l (drop b s)) else tk_byte_id t ! unat (s ! b)"
    have "symbols t s b = (if ?y < 0 then -2 else ?y, b) # symbols t s (b + ?l)"
      using True by (subst symbols.simps) (simp add: Let_def)
    then have "(y, i) = (if ?y < 0 then -2 else ?y, b) \<or> (y, i) \<in> set (symbols t s (b + ?l))" using 1(2) by simp
    then show ?thesis using 1(1) [OF True refl refl] by (auto split: if_splits)
  next
    case False
    then show ?thesis using 1(2) by (simp add: symbols.simps [of t s b])
  qed
qed

lemma symbols_length: "length (symbols t s b) \<le> length s - b"
proof (induction t s b rule: symbols.induct)
  case (1 t s b)
  show ?case
  proof (cases "b < length s")
    case True
    let ?l = "if tk_spm t then lead_len (s ! b) (length s - b) else 1"
    let ?y = "if tk_spm t then lookup t (take ?l (drop b s)) else tk_byte_id t ! unat (s ! b)"
    have "0 < ?l" using True by (simp add: lead_len_def Let_def)
    moreover have "symbols t s b = (if ?y < 0 then -2 else ?y, b) # symbols t s (b + ?l)"
      using True by (subst symbols.simps) (simp add: Let_def)
    ultimately show ?thesis using 1(1) [OF True refl refl] True by simp
  qed (simp add: symbols.simps [of t s b])
qed

text \<open>The links before any candidate is pushed.\<close>

definition raw_links :: "tok \<Rightarrow> bytes \<Rightarrow> links" where
  "raw_links t s =
     (let ys = symbols t s 0; ns = length ys in
      \<lparr>lk_sym = map fst ys, lk_prev = map (\<lambda>i. int i - 1) [0..<ns],
       lk_next = map (\<lambda>i. if i + 1 < ns then int i + 1 else -1) [0..<ns], lk_at = map snd ys, lk_heap = []\<rparr>)"

lemma start_links_raw:
  "start_links t s = fold (\<lambda>i. push_pair t (int i) (int i + 1)) [0..<length (symbols t s 0) - 1] (raw_links t s)"
  by (simp add: start_links_def raw_links_def Let_def)

lemma raw_links_ok:
  "links_ok (raw_links t s)" "lives (raw_links t s) = {..<length (symbols t s 0)}"
  "length (lk_sym (raw_links t s)) = length (symbols t s 0)" "lk_heap (raw_links t s) = []"
proof -
  let ?ys = "symbols t s 0" and ?k = "raw_links t s"
  let ?n = "length ?ys"
  note k = raw_links_def [of t s, unfolded Let_def]
  have known: "fst (?ys ! i) \<noteq> -1" if "i < ?n" for i
    using symbols_known [of "fst (?ys ! i)" "snd (?ys ! i)" t s 0] that by simp
  have lv: "live ?k i \<longleftrightarrow> i < ?n" for i using known by (auto simp: k)
  have "next_ok ?k i" if "i < ?n" for i
  proof (cases "i + 1 < ?n")
    case True
    then have "lk_next ?k ! i = int (i + 1)" "live ?k (i + 1)" "lk_prev ?k ! (i + 1) = int i"
      using lv [of "i + 1"] by (simp_all add: k)
    then show ?thesis unfolding next_ok_def by (intro disjI2 exI [of _ "i + 1"]) simp
  next
    case False
    then show ?thesis using that by (simp add: k next_ok_def)
  qed
  then show "links_ok ?k" using known [of 0] lv by (auto simp: links_ok_def k heap_ok_def)
  show "lives ?k = {..<?n}" using lv by (auto simp: lives_def)
  show "length (lk_sym ?k) = ?n" "lk_heap ?k = []" by (simp_all add: k)
qed

lemma start_links_ok:
  "links_ok (start_links t s)" "length (lk_sym (start_links t s)) \<le> length s"
  "weight (start_links t s) \<le> 3 * length (lk_sym (start_links t s))"
proof -
  let ?n = "length (symbols t s 0)" and ?k = "raw_links t s"
  define f where "f = (\<lambda>i. push_pair t (int i) (int i + 1))"
  have "links_ok (fold f [0..<m] ?k) \<and> lives (fold f [0..<m] ?k) = lives ?k \<and>
      length (lk_heap (fold f [0..<m] ?k)) \<le> m \<and> length (lk_sym (fold f [0..<m] ?k)) = ?n" if "m \<le> ?n - 1" for m
    using that
  proof (induction m)
    case 0
    then show ?case using raw_links_ok [of t s] by simp
  next
    case (Suc m)
    then have ih: "links_ok (fold f [0..<m] ?k)" "lives (fold f [0..<m] ?k) = lives ?k"
      "length (lk_heap (fold f [0..<m] ?k)) \<le> m" "length (lk_sym (fold f [0..<m] ?k)) = ?n" by auto
    have "int m < int (length (lk_sym (fold f [0..<m] ?k)))" using Suc.prems ih(4) by simp
    from push_pair_ok [OF ih(1) this, of t "int m + 1"] ih show ?case by (simp add: f_def)
  qed
  from this [of "?n - 1"]
  have r: "links_ok (start_links t s) \<and> lives (start_links t s) = lives ?k \<and>
      length (lk_heap (start_links t s)) \<le> ?n - 1 \<and> length (lk_sym (start_links t s)) = ?n"
    by (simp add: start_links_raw f_def)
  then show "links_ok (start_links t s)" "length (lk_sym (start_links t s)) \<le> length s"
    "weight (start_links t s) \<le> 3 * length (lk_sym (start_links t s))"
    using symbols_length [of t s 0] by (auto simp: weight_def raw_links_ok intro: le_trans)
qed

lemma merge_all_ends:
  "links_ok k \<Longrightarrow> weight k \<le> f \<Longrightarrow> \<exists>k'. merge_all t f k = Some k' \<and> links_ok k' \<and> length (lk_sym k') = length (lk_sym k)"
proof (induction f arbitrary: k)
  case 0
  then show ?case by (simp add: weight_def)
next
  case (Suc f)
  show ?case
  proof (cases "lk_heap k = []")
    case False
    note m = merge_step_ok [OF Suc.prems(1) False, of t]
    then have "weight (merge_step t k) \<le> f" using Suc.prems(2) by linarith
    from Suc.IH [OF m(1) this] show ?thesis using False m(3) by simp
  qed (use Suc.prems in simp)
qed

lemma write_out_ends:
  "links_ok k \<Longrightarrow> live k i \<Longrightarrow> length (lk_sym k) - i \<le> f \<Longrightarrow> \<exists>e'. write_out t s k f (int i) e = Some e'"
proof (induction f arbitrary: i e)
  case 0
  then show ?case by simp
next
  case (Suc f)
  have nx: "next_ok k i" using Suc.prems(1,2) by (simp add: links_ok_def)
  have "\<exists>e'. write_out t s k f (lk_next k ! i) e2 = Some e'" for e2
  proof (cases "lk_next k ! i = -1")
    case True
    then show ?thesis by (cases f) simp_all
  next
    case False
    then obtain j where j: "lk_next k ! i = int j" "i < j" "live k j" using nx by (auto simp: next_ok_def)
    then have "length (lk_sym k) - j \<le> f" using Suc.prems(3) by linarith
    from Suc.IH [OF Suc.prems(1) j(3) this] show ?thesis using j(1) by simp
  qed
  then show ?case by (simp add: Let_def)
qed

lemma bpe_ends: "\<exists>e'. bpe t s e = Some e'"
proof -
  obtain ok e1 where g: "(if length s > 128 then request2 e else (True, e)) = (ok, e1)" by force
  let ?k = "start_links t s"
  let ?n = "length (lk_sym ?k)"
  obtain k where k: "merge_all t (3 * ?n) ?k = Some k" "links_ok k" "length (lk_sym k) = ?n"
    using merge_all_ends [OF start_links_ok(1) start_links_ok(3)] by blast
  have "\<exists>e'. write_out t s k ?n (if ?n \<noteq> 0 then 0 else -1) e1 = Some e'"
  proof (cases "?n = 0")
    case False
    then have "live k 0" using k(2,3) by (auto simp: links_ok_def)
    from write_out_ends [OF k(2) this, of ?n t s e1] k(3) show ?thesis using False by simp
  qed simp
  then show ?thesis using g k(1) by (auto simp: bpe_def Let_def)
qed


lemma spm_pieces_ends: "\<exists>e'. spm_pieces t s e = Some e'"
proof (induction t s e rule: spm_pieces.induct)
  case (1 t s e)
  show ?case
  proof (cases s)
    case Nil
    then show ?thesis by (subst spm_pieces.simps) simp
  next
    case (Cons c cs)
    let ?p = "takeWhile (\<lambda>x. (x = 0x0A) = (c = 0x0A)) s"
    let ?y = "if c = 0x0A then lookup t ?p else -1"
    obtain e1 where e1: "(if ?y \<ge> 0 then Some (emit1 ?y e) else bpe t ?p e) = Some e1"
      using bpe_ends [of t ?p e] by (cases "?y \<ge> 0") auto
    have "spm_pieces t s e = (case (if ?y \<ge> 0 then Some (emit1 ?y e) else bpe t ?p e) of
        None \<Rightarrow> None | Some e \<Rightarrow> spm_pieces t (drop (length ?p) s) e)"
      by (subst spm_pieces.simps) (simp only: Cons list.case Let_def)
    then have "spm_pieces t s e = spm_pieces t (drop (length ?p) s) e1"
      unfolding e1 by (simp only: option.case)
    then show ?thesis using 1 [OF Cons refl refl refl e1] by simp
  qed
qed

lemma piece_end_more: "i < length cp \<Longrightarrow> i < piece_end d t cp i"
  using pretoken_progress [of i cp d] gpt2_progress [of i cp d] tekken_progress [of i cp d]
  by (simp add: piece_end_def)

lemma pieces_ends: "length cp - i \<le> f \<Longrightarrow> \<exists>e'. pieces d t text cp offs f i e = Some e'"
proof (induction f arbitrary: i e)
  case 0
  then show ?case by simp
next
  case (Suc f)
  show ?case
  proof (cases "i < length cp")
    case True
    let ?k = "piece_end d t cp i"
    have "length cp - ?k \<le> f" using piece_end_more [OF True, of d t] Suc.prems by linarith
    then have ih: "\<exists>e'. pieces d t text cp offs f ?k e2 = Some e'" for e2 by (rule Suc.IH)
    let ?s = "take (offs ! ?k - offs ! i) (drop (offs ! i) text)"
    obtain e2 where e2: "bpe t ?s e = Some e2" using bpe_ends by blast
    show ?thesis using True ih e2 by (simp add: Let_def split: option.split)
  qed simp
qed

lemma encode_plain_ends: "\<exists>ok e'. encode_plain d t text e = Some (ok, e')"
proof -
  have "\<exists>ok e'. encode_spm t text e = Some (ok, e')"
    using spm_pieces_ends by (fastforce simp: encode_spm_def Let_def split: prod.splits)
  moreover have "\<exists>e'. pieces d t text cp offs (length cp) 0 e2 = Some e'" for cp offs e2
    by (rule pieces_ends) simp
  then have "\<exists>e'. pieces d t text (map fst cs) offs (length cs) 0 e2 = Some e'" for cs :: "(u32 \<times> nat) list" and offs e2
    by (metis length_map)
  ultimately show ?thesis by (fastforce simp: encode_plain_def Let_def split: prod.splits)
qed

lemma encode_from_ends: "length text - i \<le> f \<Longrightarrow> \<exists>r. encode_from d t text f i start e = Some r"
proof (induction f arbitrary: i start e)
  case 0
  then show ?case by auto
next
  case (Suc f)
  show ?case
  proof (cases "i < length text")
    case True
    have ih: "\<exists>r. encode_from d t text f j st e2 = Some r" if "i < j" for j st e2
      by (rule Suc.IH) (use that Suc.prems in linarith)
    show ?thesis
    proof (cases "special_at t text i")
      case None
      then show ?thesis using True ih by simp
    next
      case (Some k)
      then have "text_of t k \<noteq> []" by (auto simp: special_at_def find_Some_iff)
      then have "i < i + length (text_of t k)" by simp
      moreover obtain ok e2 where "encode_plain d t (take (i - start) (drop start text)) e = Some (ok, e2)"
        using encode_plain_ends by blast
      ultimately show ?thesis using True Some ih by (cases ok) (auto simp: Let_def)
    qed
  qed auto
qed

lemma encode_ends: "\<exists>n e. tokenizer_encode d t text special out mem = Some (n, e)"
proof -
  define e0 where "e0 = \<lparr>em_out = out, em_count = 0, em_mem = mem\<rparr>"
  obtain ok start e where f: "(if special then encode_from d t text (length text) 0 0 e0 else Some (True, 0, e0)) = Some (ok, start, e)"
    using encode_from_ends [of "text" 0 "length text" d t 0 e0] by (cases special) auto
  obtain ok2 e2 where "encode_plain d t (drop start text) e = Some (ok2, e2)" using encode_plain_ends by blast
  then show ?thesis using f by (cases ok) (simp_all add: tokenizer_encode_def e0_def [symmetric] Let_def)
qed

section \<open>Searches in the tables\<close>

text \<open>Every search of the tables of \<open>t\<close> stops.\<close>

definition searchable :: "tok \<Rightarrow> bool" where
  "searchable t \<longleftrightarrow> (\<forall>s. vocab_slot t s \<noteq> None) \<and> (\<forall>s. empty_slot t s \<noteq> None) \<and> (\<forall>a b. merge_slot t a b \<noteq> None)"

lemma pow2_from_spec: "c = 2 ^ m \<Longrightarrow> (\<exists>k. pow2_from c n = 2 ^ k) \<and> 2 * n \<le> pow2_from c n \<and> c \<le> pow2_from c n"
proof (induction c n arbitrary: m rule: pow2_from.induct)
  case (1 c n)
  show ?case
  proof (cases "0 < c \<and> c < 2 * n")
    case True
    moreover have "2 * c = 2 ^ Suc m" using "1.prems" by simp
    ultimately show ?thesis using "1.IH" [of "Suc m"] by (subst (1 2 3) pow2_from.simps) auto
  next
    case False
    then show ?thesis using "1.prems" by (subst (1 2 3) pow2_from.simps) auto
  qed
qed

lemma pow2_above_spec: "\<exists>k. pow2_above n = 2 ^ k" "n < pow2_above n"
proof -
  note p = pow2_from_spec [of 16 4 n]
  show "\<exists>k. pow2_above n = 2 ^ k" using p by (simp add: pow2_above_def)
  show "n < pow2_above n" using p by (simp add: pow2_above_def)
qed

lemma probe_None: "probe stop (2 ^ k) fuel i = None \<Longrightarrow> d < fuel \<Longrightarrow> i < 2 ^ k \<Longrightarrow> \<not> stop ((i + d) mod 2 ^ k)"
proof (induction fuel arbitrary: i d)
  case (Suc fuel)
  have nx: "(i + 1) AND (2 ^ k - 1) = (i + 1) mod 2 ^ k"
    by (metis mask_eq_exp_minus_1 take_bit_eq_mask take_bit_eq_mod)
  have "\<not> stop i" "probe stop (2 ^ k) fuel ((i + 1) mod 2 ^ k) = None"
    using Suc.prems(1) nx by (auto split: if_splits)
  then show ?case
    using Suc.IH [of "(i + 1) mod 2 ^ k" "d - 1"] Suc.prems(2,3) by (cases d) (simp_all add: mod_simps)
qed simp

lemma probe_stops:
  assumes "j < 2 ^ k" "stop j" "i < 2 ^ k"
  shows "probe stop (2 ^ k) (2 ^ k) i \<noteq> None"
proof
  assume n: "probe stop (2 ^ k) (2 ^ k) i = None"
  let ?d = "(j + 2 ^ k - i) mod 2 ^ k"
  have "(i + ?d) mod 2 ^ k = (i + (j + 2 ^ k - i)) mod 2 ^ k" by (simp add: mod_add_right_eq)
  also have "\<dots> = j" using assms(1,3) by simp
  finally have e: "(i + ?d) mod 2 ^ k = j" .
  have "?d < 2 ^ k" by simp
  from probe_None [OF n this assms(3)] show False using assms(2) e by simp
qed

lemma home_slot_less: "0 < cap \<Longrightarrow> home_slot h cap < cap"
proof -
  assume "0 < cap"
  have "unat (h AND of_nat (cap - 1)) \<le> unat (of_nat (cap - 1) :: u64)" by (simp add: word_and_le1 word_le_nat_alt [symmetric])
  also have "\<dots> \<le> cap - 1" by (simp add: unat_of_nat)
  finally show ?thesis using \<open>0 < cap\<close> by (simp add: home_slot_def)
qed

text \<open>As many slots taken as there were tokens or merges, at most; the tables are larger.\<close>

definition taken :: "('a \<Rightarrow> bool) \<Rightarrow> 'a list \<Rightarrow> nat" where
  "taken P xs = length (filter P xs)"

lemma taken_update: "taken P (xs[i := x]) \<le> Suc (taken P xs)"
proof (induction xs arbitrary: i)
  case (Cons y xs)
  then show ?case by (cases i) (auto simp: taken_def le_SucI)
qed (simp add: taken_def)

lemma taken_bound: "Suc (taken P xs + n) < c \<Longrightarrow> taken P (xs[i := x]) + n < c"
  using taken_update [of P xs i x] by linarith

lemma taken_free: "taken P xs < length xs \<Longrightarrow> \<exists>i < length xs. \<not> P (xs ! i)"
  unfolding taken_def by (metis filter_id_conv in_set_conv_nth less_irrefl)

definition rooms :: "nat \<Rightarrow> nat \<Rightarrow> tok \<Rightarrow> bool" where
  "rooms n m t \<longleftrightarrow>
     (\<exists>k. length (tk_vmap t) = 2 ^ k) \<and> (\<exists>k. length (tk_mmap t) = 2 ^ k) \<and>
     taken (\<lambda>v. v \<noteq> 0) (tk_vmap t) + n < length (tk_vmap t) \<and>
     taken (\<lambda>g. mg_pair g \<noteq> 0) (tk_mmap t) + m < length (tk_mmap t)"

lemma rooms_searchable:
  assumes "rooms n m t"
  shows "searchable t"
proof -
  obtain k l where k: "length (tk_vmap t) = 2 ^ k" "length (tk_mmap t) = 2 ^ l" using assms by (auto simp: rooms_def)
  obtain i where i: "i < 2 ^ k" "tk_vmap t ! i = 0"
    using assms taken_free [of "\<lambda>v. v \<noteq> 0" "tk_vmap t"] k(1) by (auto simp: rooms_def)
  obtain j where j: "j < 2 ^ l" "mg_pair (tk_mmap t ! j) = 0"
    using assms taken_free [of "\<lambda>g. mg_pair g \<noteq> 0" "tk_mmap t"] k(2) by (auto simp: rooms_def)
  have home: "home_slot h (2 ^ q) < 2 ^ q" for h q by (rule home_slot_less) simp
  have "probe P (2 ^ k) (2 ^ k) (home_slot h (2 ^ k)) \<noteq> None" if "P i" for P h
    by (rule probe_stops [where stop = P and j = i]) (use i(1) that home in simp_all)
  moreover have "probe P (2 ^ l) (2 ^ l) (home_slot h (2 ^ l)) \<noteq> None" if "P j" for P h
    by (rule probe_stops [where stop = P and j = j]) (use j(1) that home in simp_all)
  ultimately show ?thesis
    using i(2) j(2) by (simp add: searchable_def vocab_slot_def empty_slot_def merge_slot_def Let_def k)
qed

lemma rooms_mono: "rooms n m t \<Longrightarrow> n' \<le> n \<Longrightarrow> m' \<le> m \<Longrightarrow> rooms n' m' t"
  by (auto simp: rooms_def)

lemma rooms_add_token: "rooms (Suc n) m t \<Longrightarrow> rooms n m (add_token types i t)"
  by (auto simp: rooms_def add_token_def Let_def intro: taken_bound split: option.split)

lemma rooms_add_merge: "rooms n (Suc m) t \<Longrightarrow> rooms n m (add_merge g t)"
  by (auto simp: rooms_def add_merge_def Let_def intro: taken_bound split: option.split prod.split)

lemma rooms_tokens: "rooms (n + length is) m t \<Longrightarrow> rooms n m (fold (add_token types) is t)"
  by (induction "is" arbitrary: t) (simp_all add: rooms_add_token)

lemma rooms_merges: "rooms n (m + length gs) t \<Longrightarrow> rooms n m (fold add_merge gs t)"
  by (induction gs arbitrary: t) (simp_all add: rooms_add_merge)

lemma rooms_longest: "rooms n m (longest_first t) = rooms n m t"
  by (simp add: rooms_def longest_first_def)

lemma rooms_empty: "rooms (length toks) (length merges) (tok_empty j toks merges)"
  using pow2_above_spec [of "length toks"] pow2_above_spec [of "length merges"]
  by (simp add: rooms_def tok_empty_def taken_def)

lemma set_byte_rooms: "set_byte_id b u t = Inr t' \<Longrightarrow> rooms n m t' = rooms n m t"
  by (auto simp: set_byte_id_def Let_def rooms_def split: if_splits)

lemma spm_bytes_rooms: "spm_bytes bs t = Inr t' \<Longrightarrow> rooms n m t' = rooms n m t"
  by (induction bs arbitrary: t) (auto split: sum.splits dest: set_byte_rooms)

lemma level_bytes_rooms: "level_bytes bs nxt t = Inr t' \<Longrightarrow> rooms n m t' = rooms n m t"
proof (induction bs arbitrary: nxt t)
  case (Cons b bs)
  have "rooms n m (t\<lparr>tk_cp_byte := c\<rparr>) = rooms n m t" for c by (simp add: rooms_def)
  then show ?case using Cons by (auto simp: Let_def split: sum.splits if_splits dest!: set_byte_rooms)
qed simp

text \<open>
  C37. Encoding always returns with a tokenizer that \<open>tokenizer_create\<close> made, whatever requests
  are refused: every search in its tables comes to an end, the merging of every pre-token ends, and
  so does the writing of its symbols and the cutting of the text. The searches end too while the
  tables are filled, after any number of tokens and merges.
\<close>

theorem encode_returns:
  "searchable (fold (add_token types) (take i [0..<length toks]) (tok_empty j toks merges)) \<and>
   searchable (fold add_merge (take i (zip [0..<length merges] merges))
     (longest_first (fold (add_token types) [0..<length toks] (tok_empty j toks merges)))) \<and>
   (case tokenizer_create j mem of
      Inl _ \<Rightarrow> True
    | Inr t \<Rightarrow> searchable t \<and> (\<exists>n e. tokenizer_encode d t text special out mem' = Some (n, e)))"
proof (intro conjI)
  have tok: "rooms (n - i) m (fold (add_token types) (take i [0..<n]) t)" if "rooms n m t" for n m t i types
    by (rule rooms_tokens) (rule rooms_mono [OF that], simp_all)
  have filled: "rooms 0 (length merges) (longest_first (fold (add_token types) [0..<length toks] (tok_empty j toks merges)))"
    for toks types and merges :: "bytes list"
    unfolding rooms_longest by (rule rooms_tokens) (simp add: rooms_empty)
  have mer: "rooms 0 (length merges - i) (fold add_merge (take i (zip [0..<length merges] merges)) t)"
    if "rooms 0 (length merges) t" for t i and merges :: "bytes list"
    by (rule rooms_merges) (rule rooms_mono [OF that], simp_all)
  show "searchable (fold (add_token types) (take i [0..<length toks]) (tok_empty j toks merges))"
    by (rule rooms_searchable [OF tok [OF rooms_empty]])
  show "searchable (fold add_merge (take i (zip [0..<length merges] merges))
     (longest_first (fold (add_token types) [0..<length toks] (tok_empty j toks merges))))"
    by (rule rooms_searchable [OF mer [OF filled]])
  show "case tokenizer_create j mem of Inl _ \<Rightarrow> True
    | Inr t \<Rightarrow> searchable t \<and> (\<exists>n e. tokenizer_encode d t text special out mem' = Some (n, e))"
  proof (cases "tokenizer_create j mem")
    case (Inr t)
    obtain toks' merges' types' where ts: "m_tokens j = Some toks'" "m_merges j = Some merges'" "m_types j = Some types'"
      using Inr by (auto simp: tokenizer_create_def split: option.splits)
    let ?t = "fold add_merge (zip [0..<length merges'] merges')
      (longest_first (fold (add_token types') [0..<length toks'] (tok_empty j toks' merges')))"
    have "rooms 0 (length merges' - length merges') (fold add_merge (take (length merges') (zip [0..<length merges'] merges'))
        (longest_first (fold (add_token types') [0..<length toks'] (tok_empty j toks' merges'))))"
      by (rule mer [OF filled])
    then have "rooms 0 0 ?t" by simp
    moreover have "(if tk_spm ?t then spm_bytes [0..<256] ?t else level_bytes [0..<256] 0 ?t) = Inr t"
      using Inr ts by (simp add: tokenizer_create_def Let_def split: if_splits)
    ultimately have "rooms 0 0 t" by (auto split: if_splits dest: spm_bytes_rooms level_bytes_rooms)
    then show ?thesis using Inr rooms_searchable encode_ends by simp
  qed simp
qed

section \<open>The room of the heap\<close>

text \<open>The states of the merging of a pre-token.\<close>

inductive merging :: "tok \<Rightarrow> bytes \<Rightarrow> links \<Rightarrow> bool" for t s where
  start: "merging t s (start_links t s)"
| merge: "merging t s k \<Longrightarrow> lk_heap k \<noteq> [] \<Longrightarrow> merging t s (merge_step t k)"

lemma merging_ok:
  "merging t s k \<Longrightarrow> links_ok k \<and> weight k \<le> 3 * length s \<and> length (lk_sym k) \<le> length s"
proof (induction rule: merging.induct)
  case start
  then show ?case using start_links_ok [of t s] by auto
next
  case (merge k)
  then show ?case using merge_step_ok [of k t] by auto
qed

text \<open>
  C38. While a pre-token is merged, its heap holds at most three candidates for each of its
  bytes, the room that the array has, and every candidate and every link names a symbol of the
  arrays.
\<close>

theorem merging_in_bounds:
  assumes "merging t s k"
  shows "length (lk_heap k) \<le> 3 * length s \<and> length (lk_sym k) \<le> length s \<and>
    (\<forall>c \<in> set (lk_heap k). cd_pos c < length (lk_sym k)) \<and>
    (\<forall>i < length (lk_sym k). lk_prev k ! i < int (length (lk_sym k))) \<and>
    (\<forall>i < length (lk_sym k). lk_sym k ! i \<noteq> -1 \<longrightarrow>
       lk_next k ! i = -1 \<or> int i < lk_next k ! i \<and> lk_next k ! i < int (length (lk_sym k)))"
proof -
  note m = merging_ok [OF assms]
  then have "next_ok k i" if "live k i" for i using that by (simp add: links_ok_def)
  then have "lk_next k ! i = -1 \<or> int i < lk_next k ! i \<and> lk_next k ! i < int (length (lk_sym k))" if "live k i" for i
    using that by (fastforce simp: next_ok_def)
  then show ?thesis using m by (auto simp: weight_def links_ok_def)
qed

definition empty_tok :: tok where
  "empty_tok = (tok_empty \<lparr>m_tokens = None, m_merges = None, m_types = None, m_pre = [], m_model = []\<rparr> [] [])"

lemma merging_in_bounds_witness:
  "length (lk_heap (start_links empty_tok [0x61, 0x62])) \<le> 6"
  using merging_in_bounds [OF merging.start [of empty_tok "[0x61, 0x62]"]] by simp

end
