(* ===== verification/Tok_Naive.thy ===== *)
theory Tok_Naive
  imports Tok_Merge
begin

text \<open>
  What byte-pair encoding promises, apart from links and heap: of the neighbours that have a merge
  the ones of least rank, the leftmost of these, become their result, until no neighbours have
  one. \<open>bpe\<close> writes exactly what that gives.
\<close>

section \<open>The rule\<close>

definition pair_at :: "tok \<Rightarrow> int list \<Rightarrow> nat \<Rightarrow> merge option" where
  "pair_at t ys n = (if n + 1 < length ys then find_merge t (ys ! n) (ys ! (n + 1)) else None)"

definition least_pair :: "tok \<Rightarrow> int list \<Rightarrow> nat \<Rightarrow> merge \<Rightarrow> bool" where
  "least_pair t ys n g \<longleftrightarrow> pair_at t ys n = Some g \<and>
     (\<forall>m g'. pair_at t ys m = Some g' \<longrightarrow> mg_rank g < mg_rank g' \<or> mg_rank g = mg_rank g' \<and> n \<le> m)"

inductive naive :: "tok \<Rightarrow> int list \<Rightarrow> int list \<Rightarrow> bool" for t where
  finished: "(\<And>n. pair_at t ys n = None) \<Longrightarrow> naive t ys ys"
| merged: "least_pair t ys n g \<Longrightarrow> naive t (take n ys @ int (mg_result g) # drop (n + 2) ys) zs \<Longrightarrow> naive t ys zs"

inductive_cases naiveE: "naive t ys zs"

lemma least_pair_unique: "least_pair t ys n g \<Longrightarrow> least_pair t ys n' g' \<Longrightarrow> n = n' \<and> g = g'"
  unfolding least_pair_def by (metis le_antisym less_asym less_irrefl option.inject)

lemma naive_unique: "naive t ys zs \<Longrightarrow> naive t ys zs' \<Longrightarrow> zs = zs'"
proof (induction arbitrary: zs' rule: naive.induct)
  case (finished ys)
  from finished(2) show ?case by (rule naiveE) (simp_all add: least_pair_def finished(1))
next
  case (merged ys n g zs)
  from merged.prems show ?case
  proof (cases rule: naive.cases)
    case finished
    then show ?thesis using merged.hyps(1) by (simp add: least_pair_def)
  next
    case (merged n' g')
    then show ?thesis using least_pair_unique [OF merged(1) merged.hyps(1)] merged.IH by simp
  qed
qed

section \<open>The symbols still there\<close>

text \<open>The places \<open>xs\<close> are linked, from \<open>p\<close> before them to \<open>q\<close> after.\<close>

fun chain :: "links \<Rightarrow> int \<Rightarrow> nat list \<Rightarrow> int \<Rightarrow> bool" where
  "chain k p [] q = True"
| "chain k p (i # js) q =
     (lk_prev k ! i = p \<and> lk_next k ! i = (case js of [] \<Rightarrow> q | j # _ \<Rightarrow> int j) \<and> chain k (int i) js q)"

definition end_of :: "int \<Rightarrow> nat list \<Rightarrow> int" where
  "end_of p xs = (if xs = [] then p else int (last xs))"

lemma chain_append:
  "chain k p (xs @ i # js) q \<longleftrightarrow> chain k p xs (int i) \<and> chain k (end_of p xs) (i # js) q"
  by (induction xs arbitrary: p) (auto simp: end_of_def split: list.splits)

lemma chain_cong:
  "(\<And>i. i \<in> set xs \<Longrightarrow> lk_prev k' ! i = lk_prev k ! i \<and> lk_next k' ! i = lk_next k ! i) \<Longrightarrow>
     chain k' p xs q = chain k p xs q"
  by (induction xs arbitrary: p) simp_all

definition adj :: "nat list \<Rightarrow> (nat \<times> nat) set" where
  "adj xs = set (zip xs (tl xs))"

lemma adj_simps [simp]: "adj [] = {}" "adj [i] = {}" "adj (i # j # xs) = insert (i, j) (adj (j # xs))"
  by (auto simp: adj_def)

lemma adj_append: "adj (xs @ i # js) = adj (xs @ [i]) \<union> adj (i # js)"
proof (induction xs)
  case (Cons x xs)
  then show ?case by (cases xs) auto
qed simp

lemma adj_nth: "(i, j) \<in> adj xs \<longleftrightarrow> (\<exists>n. n + 1 < length xs \<and> i = xs ! n \<and> j = xs ! (n + 1))"
  by (fastforce simp: adj_def in_set_zip nth_tl less_diff_conv)

lemma adj_mem: "(i, j) \<in> adj xs \<Longrightarrow> i \<in> set xs \<and> j \<in> set xs"
  by (auto simp: adj_nth)

definition all_queued :: "tok \<Rightarrow> links \<Rightarrow> nat list \<Rightarrow> bool" where
  "all_queued t k xs \<longleftrightarrow> (\<forall>(i, j) \<in> adj xs. \<forall>g. find_merge t (lk_sym k ! i) (lk_sym k ! j) = Some g \<longrightarrow>
     \<lparr>cd_rank = mg_rank g, cd_pos = i\<rparr> \<in> set (lk_heap k))"

definition stands :: "links \<Rightarrow> nat list \<Rightarrow> bool" where
  "stands k xs \<longleftrightarrow> links_ok k \<and> sorted_wrt (<) xs \<and> set xs = lives k \<and> chain k (-1) xs (-1) \<and>
     (\<forall>i \<in> set xs. 0 \<le> lk_sym k ! i)"

abbreviation syms :: "links \<Rightarrow> nat list \<Rightarrow> int list" where
  "syms k xs \<equiv> map (\<lambda>i. lk_sym k ! i) xs"

lemma pair_at_syms:
  "pair_at t (syms k xs) n = Some g \<longleftrightarrow>
     n + 1 < length xs \<and> find_merge t (lk_sym k ! (xs ! n)) (lk_sym k ! (xs ! (n + 1))) = Some g"
  by (auto simp: pair_at_def)

lemma sorted_at: "sorted_wrt (<) xs \<Longrightarrow> n < length xs \<Longrightarrow> m < length xs \<Longrightarrow> xs ! n \<le> xs ! m \<Longrightarrow> n \<le> m" for xs :: "nat list"
  by (metis leD leI sorted_wrt_iff_nth_less)

section \<open>One merge is one step of the rule\<close>

lemma chain_joined:
  assumes "chain k (-1) (A @ l # r # B) (-1)" "distinct (A @ l # r # B)" "\<forall>i \<in> set (A @ l # r # B). i < length (lk_sym k)"
    "length (lk_prev k) = length (lk_sym k)" "length (lk_next k) = length (lk_sym k)"
  shows "chain (joined l r m k) (-1) (A @ l # B) (-1)"
proof -
  let ?j = "joined l r m k"
  have c: "chain k (-1) A (int l)" "lk_prev k ! l = end_of (-1) A" "lk_next k ! r = (case B of [] \<Rightarrow> -1 | b # _ \<Rightarrow> int b)"
    "chain k (int r) B (-1)"
    using assms(1) by (auto simp: chain_append)
  have hd: "lk_next k ! r \<ge> 0 \<Longrightarrow> \<exists>b B'. B = b # B' \<and> nat (lk_next k ! r) = b" using c(3) by (auto split: list.splits)
  have nx: "lk_next ?j ! i = (if i = l then lk_next k ! r else lk_next k ! i)" if "i < length (lk_sym k)" for i
    using that assms(5) by (simp add: joined_def Let_def nth_list_update)
  have pv: "lk_prev ?j ! i = (if B \<noteq> [] \<and> i = hd B then int l else lk_prev k ! i)" if "i < length (lk_sym k)" for i
    using that assms(4) c(3) by (cases B) (auto simp: joined_def Let_def nth_list_update)
  have "chain ?j (-1) A (int l) = chain k (-1) A (int l)"
    by (rule chain_cong) (use assms(2,3) nx pv in \<open>cases B; auto\<close>)
  moreover have "chain ?j (int l) B (-1)"
  proof (cases B)
    case (Cons b B')
    have "chain ?j (int b) B' (-1) = chain k (int b) B' (-1)"
      by (rule chain_cong) (use assms(2,3) nx pv Cons in auto)
    moreover have "lk_prev ?j ! b = int l" "lk_next ?j ! b = lk_next k ! b" using nx [of b] pv [of b] Cons assms(2,3) by auto
    ultimately show ?thesis using c(4) Cons by simp
  qed simp
  moreover have "lk_prev ?j ! l = end_of (-1) A" "lk_next ?j ! l = (case B of [] \<Rightarrow> -1 | b # _ \<Rightarrow> int b)"
    using nx [of l] pv [of l] c(2,3) assms(2,3) by (cases B; auto)+
  ultimately show ?thesis using c(1) by (simp add: chain_append)
qed

lemma stands_joined:
  assumes "stands k (A @ l # r # B)" "m \<ge> 0"
  shows "stands (joined l r m k) (A @ l # B)"
    "syms (joined l r m k) (A @ l # B) = syms k A @ m # syms k B"
    "\<And>i. i \<in> set (A @ B) \<Longrightarrow> lk_sym (joined l r m k) ! i = lk_sym k ! i" "lk_sym (joined l r m k) ! l = m"
proof -
  let ?j = "joined l r m k"
  have s: "links_ok k" "sorted_wrt (<) (A @ l # r # B)" "set (A @ l # r # B) = lives k" "chain k (-1) (A @ l # r # B) (-1)"
    "\<forall>i \<in> set (A @ l # r # B). 0 \<le> lk_sym k ! i" using assms(1) by (auto simp: stands_def)
  have d: "distinct (A @ l # r # B)" using s(2) strict_sorted_iff by blast
  have lv: "\<And>i. i \<in> set (A @ l # r # B) \<Longrightarrow> live k i" using s(3) by (auto simp: lives_def)
  have len: "length (lk_prev k) = length (lk_sym k)" "length (lk_next k) = length (lk_sym k)" using s(1) by (auto simp: links_ok_def)
  have nx: "lk_next k ! l = int r" using s(4) by (simp add: chain_append)
  note j = joined_ok [OF s(1) lv [of l] nx assms(2)]
  have sym: "lk_sym ?j = (lk_sym k)[l := m, r := -1]" by (simp add: joined_def Let_def)
  show l: "lk_sym ?j ! l = m" using d lv [of l] by (auto simp: sym)
  show keep: "lk_sym ?j ! i = lk_sym k ! i" if "i \<in> set (A @ B)" for i using that d by (cases "i = l"; cases "i = r") (auto simp: sym)
  show "syms ?j (A @ l # B) = syms k A @ m # syms k B" using keep l by simp
  have "chain ?j (-1) (A @ l # B) (-1)" by (rule chain_joined [OF s(4) d _ len]) (use lv in blast)
  moreover have "sorted_wrt (<) (A @ l # B)" using s(2) by (auto simp: sorted_wrt_append)
  moreover have "set (A @ l # B) = lives ?j" using j(2) s(3) d by auto
  moreover have "\<forall>i \<in> set (A @ l # B). 0 \<le> lk_sym ?j ! i" using keep l assms(2) s(5) by auto
  ultimately show "stands ?j (A @ l # B)" using j(1) by (simp add: stands_def)
qed


lemma pushed:
  assumes "links_ok k" "l < length (lk_sym k)" "0 \<le> lk_sym k ! l" "0 \<le> lk_sym k ! r" "find_merge t (lk_sym k ! l) (lk_sym k ! r) = Some g"
  shows "\<lparr>cd_rank = mg_rank g, cd_pos = l\<rparr> \<in> set (lk_heap (push_pair t (int l) (int r) k))"
  using assms heap_push_set [of "lk_heap k"] by (simp add: push_pair_def links_ok_def)

lemma push_keeps: "links_ok k \<Longrightarrow> set (lk_heap k) \<subseteq> set (lk_heap (push_pair t l r k))"
  using heap_push_set [of "lk_heap k"] by (auto simp: push_pair_def links_ok_def split: option.splits)

lemma stands_push:
  assumes "stands k xs" "l < int (length (lk_sym k))"
  shows "stands (push_pair t l r k) xs"
proof -
  have "chain (push_pair t l r k) (-1) xs (-1) = chain k (-1) xs (-1)" by (rule chain_cong) simp
  then show ?thesis using push_pair_ok [OF _ assms(2), of t r] assms(1) by (simp add: stands_def)
qed

text \<open>A candidate that is not that of two neighbours is dropped.\<close>

lemma stands_pop:
  assumes "stands k xs" "heap_pop (lk_heap k) = (c, h)" "lk_heap k \<noteq> []"
  shows "stands (k\<lparr>lk_heap := h\<rparr>) xs" "set (lk_heap k) = insert c (set h)"
proof -
  let ?k = "k\<lparr>lk_heap := h\<rparr>"
  have ok: "links_ok k" "heap_ok (lk_heap k)" using assms(1) by (auto simp: stands_def links_ok_def)
  note hp = heap_pop_ok [OF ok(2) assms(3,2)]
  show set: "set (lk_heap k) = insert c (set h)" using hp(2) by (metis set_mset_mset set_mset_add_mset_insert)
  have "links_ok ?k" using ok(1) hp(1) set by (auto simp: links_ok_def next_ok_def)
  moreover have "chain ?k (-1) xs (-1) = chain k (-1) xs (-1)" by (rule chain_cong) simp
  moreover have "lives ?k = lives k" by (simp add: lives_def)
  ultimately show "stands ?k xs" using assms(1) by (simp add: stands_def)
qed

lemma stale_step:
  assumes "stands k xs" "all_queued t k xs" "heap_pop (lk_heap k) = (c, h)" "lk_heap k \<noteq> []"
    and "\<And>j g. (cd_pos c, j) \<in> adj xs \<Longrightarrow> find_merge t (lk_sym k ! cd_pos c) (lk_sym k ! j) = Some g \<Longrightarrow> mg_rank g \<noteq> cd_rank c"
  shows "all_queued t (k\<lparr>lk_heap := h\<rparr>) xs"
  unfolding all_queued_def
proof (clarify)
  fix i j g assume a: "(i, j) \<in> adj xs"
    "find_merge t (lk_sym (k\<lparr>lk_heap := h\<rparr>) ! i) (lk_sym (k\<lparr>lk_heap := h\<rparr>) ! j) = Some g"
  then have "\<lparr>cd_rank = mg_rank g, cd_pos = i\<rparr> \<in> insert c (set h)"
    using assms(2) stands_pop(2) [OF assms(1,3,4)] unfolding all_queued_def by fastforce
  moreover have "c \<noteq> \<lparr>cd_rank = mg_rank g, cd_pos = i\<rparr>" using assms(5) [of j g] a by (cases c) auto
  ultimately show "\<lparr>cd_rank = mg_rank g, cd_pos = i\<rparr> \<in> set (lk_heap (k\<lparr>lk_heap := h\<rparr>))" by auto
qed

lemma least_of_heap:
  assumes "stands k xs" "all_queued t k xs" "heap_pop (lk_heap k) = (c, h)" "lk_heap k \<noteq> []"
    and "xs = A @ l # r # B" "find_merge t (lk_sym k ! l) (lk_sym k ! r) = Some g" "c = \<lparr>cd_rank = mg_rank g, cd_pos = l\<rparr>"
  shows "least_pair t (syms k xs) (length A) g"
  unfolding least_pair_def
proof (intro conjI allI impI)
  show "pair_at t (syms k xs) (length A) = Some g" using assms(6) by (simp add: assms(5) pair_at_def nth_append)
  fix m g' assume "pair_at t (syms k xs) m = Some g'"
  then have m: "m + 1 < length xs" "find_merge t (lk_sym k ! (xs ! m)) (lk_sym k ! (xs ! (m + 1))) = Some g'"
    by (auto simp: pair_at_syms)
  then have "(xs ! m, xs ! (m + 1)) \<in> adj xs" by (auto simp: adj_nth)
  then have "\<lparr>cd_rank = mg_rank g', cd_pos = xs ! m\<rparr> \<in># mset (lk_heap k)"
    using assms(2) m(2) unfolding all_queued_def by fastforce
  moreover have "heap_ok (lk_heap k)" using assms(1) by (simp add: stands_def links_ok_def)
  ultimately have "\<not> cand_less \<lparr>cd_rank = mg_rank g', cd_pos = xs ! m\<rparr> c"
    using heap_pop_ok(3) [OF _ assms(4,3)] by blast
  then have "mg_rank g < mg_rank g' \<or> mg_rank g = mg_rank g' \<and> l \<le> xs ! m" by (auto simp: cand_less_def assms(7))
  moreover have "length A \<le> m" if "l \<le> xs ! m"
    by (rule sorted_at [of xs]) (use assms(1,5) m(1) that in \<open>auto simp: stands_def nth_append\<close>)
  ultimately show "mg_rank g < mg_rank g' \<or> mg_rank g = mg_rank g' \<and> length A \<le> m" by blast
qed

text \<open>Both new neighbours are pushed; the other ones are as they were.\<close>

lemma queued_joined:
  assumes "stands k (A @ l # r # B)" "all_queued t k (A @ l # r # B)" "heap_pop (lk_heap k) = (c, h)" "lk_heap k \<noteq> []"
    and "cd_pos c = l" "m \<ge> 0" "k1 = joined l r m (k\<lparr>lk_heap := h\<rparr>)" "k2 = push_pair t (lk_prev k1 ! l) (int l) k1"
    "k3 = push_pair t (int l) (lk_next k2 ! l) k2"
  shows "stands k3 (A @ l # B)" "all_queued t k3 (A @ l # B)" "syms k3 (A @ l # B) = syms k A @ m # syms k B"
proof -
  let ?k0 = "k\<lparr>lk_heap := h\<rparr>"
  note p = stands_pop [OF assms(1,3,4)]
  note j = stands_joined [OF p(1) assms(6), folded assms(7)]
  have live: "live k1 l" and lk1: "links_ok k1" using j(1) by (auto simp: stands_def lives_def)
  then have b1: "lk_prev k1 ! l < int (length (lk_sym k1))" by (simp add: links_ok_def)
  have s2: "stands k2 (A @ l # B)" unfolding assms(8) by (rule stands_push [OF j(1) b1])
  have b2: "int l < int (length (lk_sym k2))" using live by (simp add: assms(8))
  show "stands k3 (A @ l # B)" unfolding assms(9) by (rule stands_push [OF s2 b2])
  show "syms k3 (A @ l # B) = syms k A @ m # syms k B" using j(2) by (simp add: assms(8,9))
  have lk2: "links_ok k2" using s2 by (simp add: stands_def)
  have sub: "set h \<subseteq> set (lk_heap k2)" "set (lk_heap k2) \<subseteq> set (lk_heap k3)"
    using push_keeps [OF lk1] push_keeps [OF lk2] unfolding assms(8,9) by (auto simp: assms(7) joined_def Let_def)
  have pos: "0 \<le> lk_sym k1 ! i \<and> i < length (lk_sym k1)" if "i \<in> set (A @ l # B)" for i
    using j(1) that unfolding stands_def lives_def by blast
  have old: "\<lparr>cd_rank = mg_rank g, cd_pos = i\<rparr> \<in> set (lk_heap k3)"
    if "(i, i') \<in> adj (A @ l # r # B)" "i \<in> set (A @ B)" "i' \<in> set (A @ B)" "find_merge t (lk_sym k1 ! i) (lk_sym k1 ! i') = Some g" for i i' g
  proof -
    have "\<lparr>cd_rank = mg_rank g, cd_pos = i\<rparr> \<in> insert c (set h)"
      using assms(2) that j(3) [of i] j(3) [of i'] p(2) unfolding all_queued_def by fastforce
    moreover have "distinct (A @ l # r # B)" using assms(1) unfolding stands_def strict_sorted_iff by blast
    then have "i \<noteq> l" using that(2) by auto
    then have "c \<noteq> \<lparr>cd_rank = mg_rank g, cd_pos = i\<rparr>" using assms(5) by auto
    ultimately show ?thesis using sub by auto
  qed
  show "all_queued t k3 (A @ l # B)"
    unfolding all_queued_def
  proof (clarify)
    fix i i' g assume a: "(i, i') \<in> adj (A @ l # B)" "find_merge t (lk_sym k3 ! i) (lk_sym k3 ! i') = Some g"
    then have fm: "find_merge t (lk_sym k1 ! i) (lk_sym k1 ! i') = Some g" by (simp add: assms(8,9))
    have mem: "i \<in> set (A @ l # B)" "i' \<in> set (A @ l # B)" using adj_mem [OF a(1)] by auto
    have ch: "chain k1 (-1) (A @ l # B) (-1)" using j(1) by (simp add: stands_def)
    from a(1) consider "(i, i') \<in> adj (A @ [l])" | "(i, i') \<in> adj (l # B)" unfolding adj_append [of A l B] by blast
    then show "\<lparr>cd_rank = mg_rank g, cd_pos = i\<rparr> \<in> set (lk_heap k3)"
    proof cases
      case 1
      then obtain A' x where A: "A = A' @ [x]" by (cases A rule: rev_cases) auto
      then have "(i, i') \<in> adj (A' @ [x]) \<or> i = x \<and> i' = l" using 1 adj_append [of A' x "[l]"] by auto
      then show ?thesis
      proof
        assume in_A: "(i, i') \<in> adj (A' @ [x])"
        have "(i, i') \<in> adj (A @ l # r # B)" using in_A adj_append [of A' x "l # r # B"] A by simp
        then show ?thesis using old fm adj_mem [OF in_A] A by auto
      next
        assume x: "i = x \<and> i' = l"
        have "lk_prev k1 ! l = int x" using ch A by (simp add: chain_append end_of_def)
        then have "\<lparr>cd_rank = mg_rank g, cd_pos = x\<rparr> \<in> set (lk_heap k2)"
          using pushed [OF lk1, of x l t g] pos [of x] pos [of l] fm x A by (simp add: assms(8))
        then show ?thesis using sub(2) x by auto
      qed
    next
      case 2
      then obtain b B' where B: "B = b # B'" by (cases B) auto
      then have "(i, i') \<in> adj (b # B') \<or> i = l \<and> i' = b" using 2 by auto
      then show ?thesis
      proof
        assume in_B: "(i, i') \<in> adj (b # B')"
        have "(i, i') \<in> adj (A @ l # r # B)" using in_B adj_append [of A l "r # B"] B by simp
        then show ?thesis using old fm adj_mem [OF in_B] B by auto
      next
        assume x: "i = l \<and> i' = b"
        have "lk_next k2 ! l = int b" using ch B by (simp add: chain_append assms(8))
        then show ?thesis
          using pushed [OF lk2, of l b t g] pos [of l] pos [of b] fm x B by (simp add: assms(8,9))
      qed
    qed
  qed
qed


lemma adj_next: "chain k p xs q \<Longrightarrow> (i, j) \<in> adj xs \<Longrightarrow> lk_next k ! i = int j"
proof (induction xs arbitrary: p)
  case (Cons x xs)
  then show ?case by (cases xs) auto
qed simp

lemma none_queued:
  assumes "all_queued t k xs" "lk_heap k = []"
  shows "naive t (syms k xs) (syms k xs)"
proof (rule naive.finished, rule ccontr)
  fix n assume "pair_at t (syms k xs) n \<noteq> None"
  then obtain g where "n + 1 < length xs" "find_merge t (lk_sym k ! (xs ! n)) (lk_sym k ! (xs ! (n + 1))) = Some g"
    by (auto simp: pair_at_syms)
  moreover from this have "(xs ! n, xs ! (n + 1)) \<in> adj xs" by (auto simp: adj_nth)
  ultimately show False using assms unfolding all_queued_def by fastforce
qed

lemma merge_all_naive:
  "stands k xs \<Longrightarrow> all_queued t k xs \<Longrightarrow> merge_all t f k = Some k' \<Longrightarrow>
     \<exists>xs'. stands k' xs' \<and> naive t (syms k xs) (syms k' xs')"
proof (induction f arbitrary: k xs)
  case 0
  then have "lk_heap k = []" "k' = k" by (simp_all split: if_splits)
  then show ?case using 0 none_queued by blast
next
  case (Suc f)
  show ?case
  proof (cases "lk_heap k = []")
    case True
    then have "k' = k" using Suc.prems(3) by simp
    then show ?thesis using True Suc.prems(1,2) none_queued by blast
  next
    case False
    obtain c h where p: "heap_pop (lk_heap k) = (c, h)" by force
    let ?l = "cd_pos c"
    let ?r = "lk_next k ! ?l"
    have go: "merge_all t f (merge_step t k) = Some k'" using Suc.prems(3) False by simp
    have st: "links_ok k" "set xs = lives k" "chain k (-1) xs (-1)" "\<forall>i \<in> set xs. 0 \<le> lk_sym k ! i"
      using Suc.prems(1) by (auto simp: stands_def)
    show ?thesis
    proof (cases "lk_sym k ! ?l < 0 \<or> ?r < 0 \<or> find_merge t (lk_sym k ! ?l) (lk_sym k ! nat ?r) = None \<or>
        mg_rank (the (find_merge t (lk_sym k ! ?l) (lk_sym k ! nat ?r))) \<noteq> cd_rank c")
      case True
      then have step: "merge_step t k = k\<lparr>lk_heap := h\<rparr>"
        using p by (auto simp: merge_step_def Let_def split: option.splits)
      have "mg_rank g \<noteq> cd_rank c" if "(?l, j) \<in> adj xs" "find_merge t (lk_sym k ! ?l) (lk_sym k ! j) = Some g" for j g
        using True that adj_next [OF st(3) that(1)] adj_mem [OF that(1)] st(4) by auto
      then have "all_queued t (merge_step t k) xs"
        unfolding step by (rule stale_step [OF Suc.prems(1,2) p False])
      moreover have "stands (merge_step t k) xs" unfolding step by (rule stands_pop(1) [OF Suc.prems(1) p False])
      moreover have same: "syms (merge_step t k) xs = syms k xs" by (simp add: step)
      ultimately show ?thesis using Suc.IH [OF _ _ go, of xs] unfolding same by blast
    next
      case valid: False
      then obtain g where g: "find_merge t (lk_sym k ! ?l) (lk_sym k ! nat ?r) = Some g" "mg_rank g = cd_rank c" by auto
      have "?l \<in> set xs"
        using st(1,2) stands_pop(2) [OF Suc.prems(1) p False] valid by (auto simp: lives_def links_ok_def)
      then obtain A C where "xs = A @ ?l # C" by (meson split_list)
      moreover from this have "?r = (case C of [] \<Rightarrow> -1 | j # _ \<Rightarrow> int j)" using st(3) by (simp add: chain_append)
      ultimately obtain B where xs: "xs = A @ ?l # nat ?r # B" using valid by (cases C) auto
      have c: "c = \<lparr>cd_rank = mg_rank g, cd_pos = ?l\<rparr>" using g(2) by (cases c) simp
      let ?m = "int (mg_result g)"
      define k1 where "k1 = joined ?l (nat ?r) ?m (k\<lparr>lk_heap := h\<rparr>)"
      define k2 where "k2 = push_pair t (lk_prev k1 ! ?l) (int ?l) k1"
      define k3 where "k3 = push_pair t (int ?l) (lk_next k2 ! ?l) k2"
      have step: "merge_step t k = k3"
        using valid g p by (simp add: merge_step_def joined_def k1_def k2_def k3_def Let_def)
      note q = queued_joined [OF Suc.prems(1,2) [unfolded xs] p False refl _ k1_def k2_def k3_def]
      have q': "stands k3 (A @ ?l # B)" "all_queued t k3 (A @ ?l # B)" "syms k3 (A @ ?l # B) = syms k A @ ?m # syms k B"
        using q by simp_all
      obtain xs' where fin: "stands k' xs'" "naive t (syms k3 (A @ ?l # B)) (syms k' xs')"
        using Suc.IH [OF q'(1,2)] go step by blast
      have "least_pair t (syms k xs) (length A) g"
        by (rule least_of_heap [OF Suc.prems(1,2) p False xs g(1) c])
      moreover have "take (length A) (syms k xs) @ ?m # drop (length A + 2) (syms k xs) = syms k3 (A @ ?l # B)"
        unfolding q'(3) by (subst (1 2) xs) simp
      ultimately have "naive t (syms k xs) (syms k' xs')" using fin(2) naive.merged by metis
      then show ?thesis using fin(1) by blast
    qed
  qed
qed


section \<open>A pre-token\<close>

lemma all_queued_start:
  assumes "\<And>i. i < length (lk_sym k) \<Longrightarrow> 0 \<le> lk_sym k ! i" "links_ok k" "m < length (lk_sym k)"
  shows "links_ok (fold (\<lambda>i. push_pair t (int i) (int i + 1)) [0..<m] k) \<and>
    lk_sym (fold (\<lambda>i. push_pair t (int i) (int i + 1)) [0..<m] k) = lk_sym k \<and>
    lk_prev (fold (\<lambda>i. push_pair t (int i) (int i + 1)) [0..<m] k) = lk_prev k \<and>
    lk_next (fold (\<lambda>i. push_pair t (int i) (int i + 1)) [0..<m] k) = lk_next k \<and>
    (\<forall>i < m. \<forall>g. find_merge t (lk_sym k ! i) (lk_sym k ! (i + 1)) = Some g \<longrightarrow>
       \<lparr>cd_rank = mg_rank g, cd_pos = i\<rparr> \<in> set (lk_heap (fold (\<lambda>i. push_pair t (int i) (int i + 1)) [0..<m] k)))"
  using assms(3)
proof (induction m)
  case 0
  then show ?case using assms(2) by simp
next
  case (Suc m)
  let ?f = "fold (\<lambda>i. push_pair t (int i) (int i + 1)) [0..<m] k"
  have ih: "links_ok ?f" "lk_sym ?f = lk_sym k" "lk_prev ?f = lk_prev k" "lk_next ?f = lk_next k"
    "\<And>i g. i < m \<Longrightarrow> find_merge t (lk_sym k ! i) (lk_sym k ! (i + 1)) = Some g \<Longrightarrow> \<lparr>cd_rank = mg_rank g, cd_pos = i\<rparr> \<in> set (lk_heap ?f)"
    using Suc by auto
  have eq: "fold (\<lambda>i. push_pair t (int i) (int i + 1)) [0..<Suc m] k = push_pair t (int m) (int (m + 1)) ?f" by (simp add: add.commute)
  have "links_ok (push_pair t (int m) (int (m + 1)) ?f)"
    using push_pair_ok(1) [OF ih(1), of "int m"] Suc.prems ih(2) by simp
  moreover have "\<lparr>cd_rank = mg_rank g, cd_pos = i\<rparr> \<in> set (lk_heap (push_pair t (int m) (int (m + 1)) ?f))"
    if "i < Suc m" "find_merge t (lk_sym k ! i) (lk_sym k ! (i + 1)) = Some g" for i g
  proof (cases "i = m")
    case True
    then show ?thesis using pushed [OF ih(1), of m "m + 1" t g] assms(1) that Suc.prems ih(2) by simp
  next
    case False
    then show ?thesis using ih(5) [of i g] that push_keeps [OF ih(1)] by (auto simp: less_Suc_eq)
  qed
  ultimately show ?case unfolding eq using ih(2-4) by simp
qed

lemma chain_upt:
  "(\<And>i. a \<le> i \<Longrightarrow> i < n \<Longrightarrow> lk_prev k ! i = int i - 1 \<and> lk_next k ! i = (if i + 1 < n then int i + 1 else -1)) \<Longrightarrow>
     chain k (int a - 1) [a..<n] (-1)"
proof (induction "n - a" arbitrary: a)
  case (Suc d)
  then have "chain k (int (Suc a) - 1) [Suc a..<n] (-1)" by (intro Suc.hyps(1)) auto
  moreover have "[a..<n] = a # [Suc a..<n]" using Suc.hyps(2) by (simp add: upt_conv_Cons)
  moreover have "(case [Suc a..<n] of [] \<Rightarrow> -1 | j # _ \<Rightarrow> int j) = lk_next k ! a"
    using Suc.prems [of a] Suc.hyps(2) by (cases "Suc a < n") (simp_all add: upt_conv_Cons)
  ultimately show ?case using Suc.prems [of a] Suc.hyps(2) by simp
qed simp

lemma start_stands:
  assumes "\<And>y i. (y, i) \<in> set (symbols t s 0) \<Longrightarrow> 0 \<le> y"
  shows "stands (start_links t s) [0..<length (symbols t s 0)]" "all_queued t (start_links t s) [0..<length (symbols t s 0)]"
    "lk_sym (start_links t s) = map fst (symbols t s 0)"
proof -
  let ?ys = "symbols t s 0"
  let ?n = "length ?ys"
  define k where "k = raw_links t s"
  note k_def' = k_def [unfolded raw_links_def Let_def]
  have st: "start_links t s = fold (\<lambda>i. push_pair t (int i) (int i + 1)) [0..<?n - 1] k"
    by (simp add: start_links_raw k_def)
  have pos: "0 \<le> lk_sym k ! i" if "i < length (lk_sym k)" for i
    using assms [of "fst (?ys ! i)" "snd (?ys ! i)"] that by (simp add: k_def')
  have base: "links_ok k" using raw_links_ok(1) by (simp add: k_def)
  have f: "lk_sym (start_links t s) = lk_sym k" "lk_prev (start_links t s) = lk_prev k" "lk_next (start_links t s) = lk_next k"
    "\<And>i g. i < ?n - 1 \<Longrightarrow> find_merge t (lk_sym k ! i) (lk_sym k ! (i + 1)) = Some g \<Longrightarrow>
       \<lparr>cd_rank = mg_rank g, cd_pos = i\<rparr> \<in> set (lk_heap (start_links t s))"
    using all_queued_start [OF pos base, of "?n - 1" t] st by (cases "?n = 0"; simp add: k_def')+
  show "lk_sym (start_links t s) = map fst ?ys" using f(1) by (simp add: k_def')
  have lv: "lives (start_links t s) = {..<?n}"
  proof -
    have "lk_sym k ! i \<noteq> -1" if "i < ?n" for i using pos [of i] that by (auto simp: k_def')
    then show ?thesis unfolding lives_def f(1) by (auto simp: k_def')
  qed
  have "chain (start_links t s) (int 0 - 1) [0..<?n] (-1)"
    by (rule chain_upt) (simp add: f(2,3) k_def')
  then show "stands (start_links t s) [0..<?n]"
    unfolding stands_def lv using start_links_ok(1) [of t s] pos f(1) by (auto simp: k_def' sorted_wrt_upt)
  show "all_queued t (start_links t s) [0..<?n]"
    unfolding all_queued_def f(1) using f(4) by (auto simp: adj_nth)
qed

lemma write_out_chain:
  "chain k p js (-1) \<Longrightarrow> (\<And>i. i \<in> set js \<Longrightarrow> 0 \<le> lk_sym k ! i) \<Longrightarrow> length js \<le> f \<Longrightarrow>
     write_out t s k f (case js of [] \<Rightarrow> -1 | j # _ \<Rightarrow> int j) e = Some (fold emit1 (syms k js) e)"
proof (induction js arbitrary: p f e)
  case Nil
  then show ?case by (cases f) simp_all
next
  case (Cons j js)
  then obtain f' where f: "f = Suc f'" by (cases f) auto
  have "lk_sym k ! j \<noteq> -2" using Cons.prems(2) [of j] by auto
  moreover have "write_out t s k f' (lk_next k ! j) (emit1 (lk_sym k ! j) e) = Some (fold emit1 (syms k js) (emit1 (lk_sym k ! j) e))"
    using Cons.IH [of "int j" f' "emit1 (lk_sym k ! j) e"] Cons.prems f by simp
  ultimately show ?case using f by (simp add: Let_def)
qed

text \<open>
  C39. A pre-token all of whose symbols are tokens is encoded as the rule of byte-pair encoding
  says: of the neighbours that have a merge those of least rank, the leftmost of them first, are
  replaced by their result until none has one, and what is left is written, in order.
\<close>

theorem bpe_is_naive:
  assumes "\<forall>(y, i) \<in> set (symbols t s 0). 0 \<le> y" and "length s \<le> 128 \<or> em_mem e = []"
  shows "\<exists>zs. naive t (map fst (symbols t s 0)) zs \<and> bpe t s e = Some (fold emit1 zs e)"
proof -
  let ?n = "length (symbols t s 0)"
  have pos: "\<And>y i. (y, i) \<in> set (symbols t s 0) \<Longrightarrow> 0 \<le> y" using assms(1) by auto
  have st: "stands (start_links t s) [0..<?n]" "all_queued t (start_links t s) [0..<?n]"
    "lk_sym (start_links t s) = map fst (symbols t s 0)" using start_stands [of t s] pos by blast+
  have len: "length (lk_sym (start_links t s)) = ?n" using st(3) by simp
  obtain k where k: "merge_all t (3 * ?n) (start_links t s) = Some k" "length (lk_sym k) = ?n"
    using merge_all_ends [OF start_links_ok(1) [of t s] start_links_ok(3) [of t s], of t] len by auto
  obtain xs where xs: "stands k xs" "naive t (syms (start_links t s) [0..<?n]) (syms k xs)"
    using merge_all_naive [OF st(1,2) k(1)] by blast
  have s0: "syms (start_links t s) [0..<?n] = map fst (symbols t s 0)"
    using st(3) map_nth [of "map fst (symbols t s 0)"] by simp
  have x: "chain k (-1) xs (-1)" "\<And>i. i \<in> set xs \<Longrightarrow> 0 \<le> lk_sym k ! i" "set xs = lives k" "sorted_wrt (<) xs" "links_ok k"
    using xs(1) by (auto simp: stands_def)
  have "distinct xs" using x(4) by (simp add: strict_sorted_iff)
  moreover have "set xs \<subseteq> {..<?n}" unfolding x(3) using k(2) by (auto simp: lives_def)
  ultimately have "length xs \<le> ?n" using card_mono [OF finite_lessThan, of "set xs" ?n] by (simp add: distinct_card)
  note w = write_out_chain [OF x(1,2) this]
  have "(case xs of [] \<Rightarrow> -1 | j # _ \<Rightarrow> int j) = (if ?n \<noteq> 0 then 0 else -1)"
  proof (cases "?n = 0")
    case True
    then show ?thesis using x(3) k(2) by (auto simp: lives_def)
  next
    case False
    then have "0 \<in> set xs" using x(3,5) k(2) by (auto simp: lives_def links_ok_def)
    then show ?thesis using x(4) False by (cases xs) auto
  qed
  then have "write_out t s k ?n (if ?n \<noteq> 0 then 0 else -1) e = Some (fold emit1 (syms k xs) e)" using w [where t = t and s = s and e = e] by simp
  moreover have "(if length s > 128 then request2 e else (True, e)) = (True, e)"
    using assms(2) by (cases e) (auto simp: request2_def)
  ultimately have "bpe t s e = Some (fold emit1 (syms k xs) e)"
    using k(1) by (simp add: bpe_def Let_def len)
  then show ?thesis using xs(2) s0 by auto
qed


text \<open>A table with one merge, of the tokens of two letters.\<close>

definition ab_tok :: tok where
  "ab_tok = empty_tok\<lparr>tk_byte_id := (replicate 256 0)[0x61 := 1, 0x62 := 2],
     tk_mmap := [\<lparr>mg_pair = pair_key 1 2, mg_rank = 0, mg_result = 3\<rparr>], tk_spm := False\<rparr>"

lemma bpe_is_naive_witness:
  "bpe ab_tok [0x61, 0x62] \<lparr>em_out = [0, 0], em_count = 0, em_mem = []\<rparr> =
     Some \<lparr>em_out = [3, 0], em_count = 1, em_mem = []\<rparr>"
proof -
  define e where "e = \<lparr>em_out = [0, 0 :: int], em_count = 0, em_mem = []\<rparr>"
  have id: "tk_byte_id ab_tok ! 0x61 = 1" "tk_byte_id ab_tok ! 0x62 = 2" "tk_spm ab_tok = False" by (simp_all add: ab_tok_def)
  have "symbols ab_tok [0x61, 0x62] 2 = []" by (subst symbols.simps) simp
  then have "symbols ab_tok [0x61, 0x62] 1 = [(2, 1)]" by (subst symbols.simps) (simp add: Let_def id flip: numeral_2_eq_2)
  then have y: "symbols ab_tok [0x61, 0x62] 0 = [(1, 0), (2, 1)]" by (subst symbols.simps) (simp add: Let_def id)
  have g: "find_merge ab_tok 1 2 = Some \<lparr>mg_pair = pair_key 1 2, mg_rank = 0, mg_result = 3\<rparr>"
    by (simp add: find_merge_def merge_slot_def ab_tok_def home_slot_def)
  then have "least_pair ab_tok [1, 2] 0 \<lparr>mg_pair = pair_key 1 2, mg_rank = 0, mg_result = 3\<rparr>"
    by (auto simp: least_pair_def pair_at_def split: if_splits)
  moreover have "naive ab_tok [3] [3]" by (rule naive.finished) (simp add: pair_at_def)
  ultimately have "naive ab_tok [1, 2] [3]" using naive.merged [of ab_tok "[1, 2]" 0 _ "[3]"] by fastforce
  moreover obtain zs where "naive ab_tok [1, 2] zs" "bpe ab_tok [0x61, 0x62] e = Some (fold emit1 zs e)"
    using bpe_is_naive [of ab_tok "[0x61, 0x62]" e] y by auto
  ultimately have "bpe ab_tok [0x61, 0x62] e = Some (emit1 3 e)" using naive_unique by fastforce
  then show ?thesis by (simp add: e_def emit1_def)
qed

end
