(* ===== verification/Schema_Json.thy ===== *)
theory Schema_Json
  imports Schema_Num
begin

text \<open>
  The first half of \<open>src/llm/schema.c\<close>: JSON itself as grammar rules. \<open>struct janas_jsg\<close> holds the
  builder and the rules made so far, \<open>NONE\<close> for the others, so that each is made once. A run of
  calls that put elements into one alternative is the list of what they put (\<open>gb_parts\<close>). The
  table of the rules of a string or an array is a list, its allocation a request of the builder's
  memory. \<open>depth\<close> is not a field: \<open>Schema_Comp\<close> counts the levels left.
\<close>

section \<open>The state\<close>

text \<open>A node of a document: the document it is in and the children to go to from its root.\<close>

type_synonym node = "nat \<times> nat list"

record jsg =
  jg_b :: gbuild
  jg_ws :: nat
  jg_value :: nat
  jg_object :: nat
  jg_array :: nat
  jg_string :: nat
  jg_number :: nat
  jg_integer :: nat
  jg_digits :: nat
  jg_esc :: nat
  jg_memo :: "(node \<times> nat) list"
  jg_cap_memo :: nat
  jg_relaxed :: nat

definition WS_MAX :: nat where "WS_MAX = 20"
definition DIGITS_MAX :: nat where "DIGITS_MAX = 20"

definition jsg_new :: "gbuild \<Rightarrow> jsg option" where
  "jsg_new b =
     (case gb_request b of (ok, b) \<Rightarrow>
        if \<not> ok then None
        else Some \<lparr>jg_b = b, jg_ws = NONE, jg_value = NONE, jg_object = NONE, jg_array = NONE,
                   jg_string = NONE, jg_number = NONE, jg_integer = NONE, jg_digits = NONE,
                   jg_esc = NONE, jg_memo = [], jg_cap_memo = 0, jg_relaxed = 0\<rparr>)"

definition jsg_relaxed :: "jsg \<Rightarrow> nat" where
  "jsg_relaxed j = jg_relaxed j"

text \<open>A step of the builder that gives a rule.\<close>

definition in_build :: "(gbuild \<Rightarrow> nat \<times> gbuild) \<Rightarrow> jsg \<Rightarrow> nat \<times> jsg" where
  "in_build f j = (case f (jg_b j) of (x, b) \<Rightarrow> (x, j\<lparr>jg_b := b\<rparr>))"

section \<open>Alternatives\<close>

datatype part = PByte u8 | PSet bset | PRef nat | PLit bytes

fun gb_part :: "nat \<Rightarrow> part \<Rightarrow> gbuild \<Rightarrow> gbuild" where
  "gb_part a (PByte c) b = gb_byte a c b"
| "gb_part a (PSet s) b = gb_set a s b"
| "gb_part a (PRef r) b = gb_ref a r b"
| "gb_part a (PLit s) b = gb_lit a s b"

definition gb_parts :: "nat \<Rightarrow> part list \<Rightarrow> gbuild \<Rightarrow> gbuild" where
  "gb_parts a ps b = fold (gb_part a) ps b"

text \<open>A new alternative of a rule, and a new rule with the alternatives given.\<close>

definition gb_with :: "nat \<Rightarrow> part list \<Rightarrow> gbuild \<Rightarrow> gbuild" where
  "gb_with r ps b = (case gb_alt r b of (a, b) \<Rightarrow> gb_parts a ps b)"

definition gb_alts :: "nat \<Rightarrow> part list list \<Rightarrow> gbuild \<Rightarrow> gbuild" where
  "gb_alts r pss b = fold (gb_with r) pss b"

definition gb_new :: "part list list \<Rightarrow> gbuild \<Rightarrow> nat \<times> gbuild" where
  "gb_new pss b = (case gb_rule b of (r, b) \<Rightarrow> (r, gb_alts r pss b))"

definition lit_rule :: "bytes \<Rightarrow> gbuild \<Rightarrow> nat \<times> gbuild" where
  "lit_rule s b = gb_new [[PLit s]] b"

definition never :: "gbuild \<Rightarrow> nat \<times> gbuild" where
  "never b = gb_rule b"

section \<open>White space and digits\<close>

text \<open>Nothing, or a byte of the set and what \<open>following\<close> matches.\<close>

definition optional :: "bset \<Rightarrow> nat \<times> gbuild \<Rightarrow> nat \<times> gbuild" where
  "optional s st = (case st of (following, b) \<Rightarrow> gb_new [[], [PSet s, PRef following]] b)"

definition up_to :: "bset \<Rightarrow> nat \<Rightarrow> gbuild \<Rightarrow> nat \<times> gbuild" where
  "up_to s n b = fold (\<lambda>i. optional s) [0..<n] (gb_empty b)"

definition space_set :: bset where
  "space_set = set_add (set_add (set_add set_clear 0x20 0x20) 0x09 0x0a) 0x0d 0x0d"

definition jsg_ws :: "jsg \<Rightarrow> nat \<times> jsg" where
  "jsg_ws j =
     (if jg_ws j \<noteq> NONE then (jg_ws j, j)
      else case up_to space_set WS_MAX (jg_b j) of (x, b) \<Rightarrow> (x, j\<lparr>jg_b := b, jg_ws := x\<rparr>))"

definition digit_set :: bset where
  "digit_set = set_add set_clear 0x30 0x39"

definition digits :: "nat \<Rightarrow> gbuild \<Rightarrow> nat \<times> gbuild" where
  "digits n b = up_to digit_set n b"

section \<open>Numbers\<close>

definition real_parts :: "nat \<Rightarrow> nat \<Rightarrow> nat \<Rightarrow> gbuild \<Rightarrow> nat \<times> gbuild" where
  "real_parts dg sign int_part b =
     (let (fr, b) = gb_new [[], [PByte 0x2e, PSet digit_set, PRef dg]] b;
          (ex, b) = gb_rule b;
          (es, b) = gb_new [[], [PByte 0x2b], [PByte 0x2d]] b;
          b = gb_with ex [] b;
          (a, b) = gb_alt ex b;
          b = gb_parts a [PSet (set_add (set_add set_clear 0x65 0x65) 0x45 0x45), PRef es, PSet digit_set] b;
          (d, b) = digits 3 b;
          b = gb_ref a d b
      in gb_new [[PRef sign, PRef int_part, PRef fr, PRef ex]] b)"

definition number_rule :: "bool \<Rightarrow> jsg \<Rightarrow> nat \<times> jsg" where
  "number_rule real_too j =
     (let j = (if jg_digits j = NONE
               then case digits (DIGITS_MAX - 1) (jg_b j) of (d, b) \<Rightarrow> j\<lparr>jg_b := b, jg_digits := d\<rparr>
               else j);
          dg = jg_digits j
      in in_build (\<lambda>b.
           let (int_part, b) = gb_new [[PByte 0x30], [PSet (set_add set_clear 0x31 0x39), PRef dg]] b;
               (sign, b) = gb_new [[], [PByte 0x2d]] b;
               (r, b) = gb_new [[PRef sign, PRef int_part]] b
           in if \<not> real_too then (r, b) else real_parts dg sign int_part b) j)"

section \<open>Strings\<close>

definition simple_set :: bset where
  "simple_set = fold (\<lambda>c s. set_add s (unat c) (unat c)) [0x22, 0x5c, 0x2f, 0x62, 0x66, 0x6e, 0x72, 0x74 :: u8] set_clear"

definition hex_set :: bset where
  "hex_set = set_add (set_add (set_add set_clear 0x30 0x39) 0x61 0x66) 0x41 0x46"

definition escape_rule :: "jsg \<Rightarrow> nat \<times> jsg" where
  "escape_rule j =
     (if jg_esc j \<noteq> NONE then (jg_esc j, j)
      else case gb_new [[PSet simple_set], [PByte 0x75, PSet hex_set, PSet hex_set, PSet hex_set, PSet hex_set]] (jg_b j)
        of (r, b) \<Rightarrow> (r, j\<lparr>jg_b := b, jg_esc := r\<rparr>))"

definition plain_set :: bset where
  "plain_set =
     (let s = set_add set_clear 0x20 0xff;
          s = s[4 := s ! 4 AND NOT (push_bit 2 1)]
      in s[11 := s ! 11 AND NOT (push_bit 4 1)])"

fun rule_list :: "nat \<Rightarrow> gbuild \<Rightarrow> nat list \<times> gbuild" where
  "rule_list 0 b = ([], b)"
| "rule_list (Suc n) b = (case gb_rule b of (r, b) \<Rightarrow> case rule_list n b of (rs, b) \<Rightarrow> (r # rs, b))"

text \<open>The rule after the one for \<open>k\<close> of \<open>n\<close>: itself at the end when there is no limit.\<close>

definition next_state :: "nat list \<Rightarrow> nat \<Rightarrow> bool \<Rightarrow> nat \<Rightarrow> nat" where
  "next_state st n open_end k = (if k < n then st ! Suc k else if open_end then st ! k else NONE)"

definition string_state :: "nat \<Rightarrow> nat \<Rightarrow> nat \<Rightarrow> bool \<Rightarrow> nat list \<Rightarrow> nat \<Rightarrow> gbuild \<Rightarrow> gbuild" where
  "string_state esc lo n open_end st k b =
     (let b = (if k \<ge> lo then gb_with (st ! k) [PByte 0x22] b else b);
          nx = next_state st n open_end k
      in if nx = NONE then b
         else gb_alts (st ! k) [[PSet plain_set, PRef nx], [PByte 0x5c, PRef esc, PRef nx]] b)"

text \<open>A bound below zero is \<open>None\<close>.\<close>

definition string_rule :: "nat \<Rightarrow> nat option \<Rightarrow> jsg \<Rightarrow> nat \<times> jsg" where
  "string_rule lo hi j =
     (let (esc, j) = escape_rule j;
          n = (case hi of Some h \<Rightarrow> h | None \<Rightarrow> lo)
      in in_build (\<lambda>b.
           case gb_request b of (ok, b) \<Rightarrow>
             if \<not> ok then never b
             else
               let (st, b) = rule_list (Suc n) b;
                   b = fold (string_state esc lo n (hi = None) st) [0..<Suc n] b
               in gb_new [[PByte 0x22, PRef (st ! 0)]] b) j)"

section \<open>Arrays and maps\<close>

text \<open>\<open>c ! k\<close> is \<open>c[k + 1]\<close> of the source, the rule after \<open>k + 1\<close> items.\<close>

definition array_state :: "nat \<Rightarrow> nat \<Rightarrow> nat \<Rightarrow> nat \<Rightarrow> bool \<Rightarrow> nat list \<Rightarrow> nat \<Rightarrow> gbuild \<Rightarrow> gbuild" where
  "array_state ws item lo n open_end c k b =
     (let b = (if Suc k \<ge> lo then gb_with (c ! k) [PByte 0x5d] b else b);
          nx = next_state c (n - 1) open_end k
      in if nx = NONE then b
         else gb_with (c ! k) [PByte 0x2c, PRef ws, PRef item, PRef ws, PRef nx] b)"

definition array_rule :: "nat \<Rightarrow> nat \<Rightarrow> nat option \<Rightarrow> jsg \<Rightarrow> nat \<times> jsg" where
  "array_rule item lo hi j =
     (let (ws, j) = jsg_ws j;
          n = (case hi of Some h \<Rightarrow> h | None \<Rightarrow> if lo > 1 then lo else 1)
      in in_build (\<lambda>b.
           case gb_request b of (ok, b) \<Rightarrow>
             if \<not> ok then never b
             else
               let (c, b) = rule_list n b;
                   b = fold (array_state ws item lo n (hi = None) c) [0..<n] b
               in gb_new ((if lo = 0 then [[PByte 0x5b, PRef ws, PByte 0x5d]] else []) @
                    (if hi \<noteq> Some 0 then [[PByte 0x5b, PRef ws, PRef item, PRef ws, PRef (c ! 0)]] else [])) b) j)"

definition map_rule :: "nat \<Rightarrow> jsg \<Rightarrow> nat \<times> jsg" where
  "map_rule val j =
     (let (ws, j) = jsg_ws j;
          (key, j) = string_rule 0 None j
      in in_build (\<lambda>b.
           let (mem, b) = gb_rule b;
               (rest, b) = gb_rule b;
               b = gb_with mem [PRef key, PRef ws, PByte 0x3a, PRef ws, PRef val, PRef ws] b;
               b = gb_alts rest [[PByte 0x7d], [PByte 0x2c, PRef ws, PRef mem, PRef rest]] b
           in gb_new [[PByte 0x7b, PRef ws, PByte 0x7d], [PByte 0x7b, PRef ws, PRef mem, PRef rest]] b) j)"

section \<open>Any value\<close>

definition jsg_any :: "jsg \<Rightarrow> nat \<times> jsg" where
  "jsg_any j =
     (if jg_value j \<noteq> NONE then (jg_value j, j)
      else
        let (v, b) = gb_rule (jg_b j);
            j = j\<lparr>jg_b := b, jg_value := v\<rparr>;
            j = (if jg_string j = NONE then case string_rule 0 None j of (x, j) \<Rightarrow> j\<lparr>jg_string := x\<rparr> else j);
            j = (if jg_number j = NONE then case number_rule True j of (x, j) \<Rightarrow> j\<lparr>jg_number := x\<rparr> else j);
            j = (case map_rule v j of (x, j) \<Rightarrow> j\<lparr>jg_object := x\<rparr>);
            j = (case array_rule v 0 None j of (x, j) \<Rightarrow> j\<lparr>jg_array := x\<rparr>);
            b = gb_alts v [[PRef (jg_object j)], [PRef (jg_array j)], [PRef (jg_string j)], [PRef (jg_number j)],
                           [PLit (lit ''true'')], [PLit (lit ''false'')], [PLit (lit ''null'')]] (jg_b j)
        in (jg_value j, j\<lparr>jg_b := b\<rparr>))"

definition jsg_object :: "jsg \<Rightarrow> nat \<times> jsg" where
  "jsg_object j = (case jsg_any j of (_, j) \<Rightarrow> (jg_object j, j))"

end
