(* ===== verification/Schema_Re.thy ===== *)
theory Schema_Re
  imports Gram_Grow C_Strings "HOL-Library.Monad_Syntax"
begin

text \<open>
  \<open>src/llm/schema_re.c\<close>: a regular expression read into a tree and the tree made into grammar
  rules. The tree is a datatype with the source's kinds. The parser's state is the text left and
  the outcomes of memory requests; \<open>None\<close> stands for the null pointer, which \<open>ps->bad\<close> always
  goes with and which ends the reading, so the flag is not kept. The parser's functions call each
  other on fuel, and the outer \<open>None\<close> is that of the fuel alone (\<open>Schema_Re_Parse\<close> shows how much
  is enough). Where the source makes an alternative and the rule it refers to in the arguments of
  one call, in an order C leaves open, the model makes the alternative first.
\<close>

section \<open>Sets of bytes\<close>

definition set_and :: "bset \<Rightarrow> bset \<Rightarrow> bset" where
  "set_and a b = map2 (AND) a b"

definition set_or :: "bset \<Rightarrow> bset \<Rightarrow> bset" where
  "set_or a b = map2 (OR) a b"

definition drop_bit_of :: "nat \<Rightarrow> bset \<Rightarrow> bset" where
  "drop_bit_of k s = s[k div 8 := s ! (k div 8) AND NOT (push_bit (k mod 8) 1)]"

definition json_plain :: "bset \<Rightarrow> bset" where
  "json_plain s =
     (let keep = set_add set_clear 0x20 0xff;
          keep = drop_bit_of 0x22 keep;
          keep = drop_bit_of 0x5c keep
      in set_and s keep)"

definition set_empty :: "bset \<Rightarrow> bool" where
  "set_empty s = list_all (\<lambda>c. c = 0) s"

definition low_hex :: "u8 \<Rightarrow> u8" where
  "low_hex d = lit ''0123456789abcdef'' ! unat d"

definition escape_of :: "u8 \<Rightarrow> bytes" where
  "escape_of c =
     (if c = 0x22 then [0x5c, 0x22]
      else if c = 0x5c then [0x5c, 0x5c]
      else if c = 0x0a then [0x5c, 0x6e]
      else if c = 0x09 then [0x5c, 0x74]
      else if c = 0x0d then [0x5c, 0x72]
      else if c = 0x08 then [0x5c, 0x62]
      else if c = 0x0c then [0x5c, 0x66]
      else [0x5c, 0x75, 0x30, 0x30, low_hex (drop_bit 4 c), low_hex (c AND 15)])"

definition alnum :: "u8 \<Rightarrow> bool" where
  "alnum c \<longleftrightarrow> 0x61 \<le> c \<and> c \<le> 0x7a \<or> 0x41 \<le> c \<and> c \<le> 0x5a \<or> 0x30 \<le> c \<and> c \<le> 0x39"

text \<open>The classes \<open>d\<close>, \<open>w\<close> and \<open>s\<close>.\<close>

definition lower_class :: "u8 \<Rightarrow> bset \<Rightarrow> bset" where
  "lower_class c s =
     (if c = 0x64 then set_add s 0x30 0x39
      else if c = 0x77 then set_add (set_add (set_add (set_add s 0x30 0x39) 0x61 0x7a) 0x41 0x5a) 0x5f 0x5f
      else set_add (set_add s 0x20 0x20) 0x09 0x0d)"

text \<open>The set, and whether \<open>*ok\<close> is left as it was.\<close>

definition class_escape :: "u8 \<Rightarrow> bset \<Rightarrow> bset \<times> bool" where
  "class_escape c s =
     (if c \<in> {0x64, 0x77, 0x73} then (lower_class c s, True)
      else if c \<in> {0x44, 0x57, 0x53} then (set_or s (set_invert (lower_class (c + 32) set_clear)), True)
      else if c = 0x6e then (set_add s 0x0a 0x0a, True)
      else if c = 0x74 then (set_add s 0x09 0x09, True)
      else if c = 0x72 then (set_add s 0x0d 0x0d, True)
      else if alnum c then (s, False)
      else (set_add s (unat c) (unat c), True))"

section \<open>The tree and its reader\<close>

datatype re = RE_SET bset | RE_SEQ "re list" | RE_ALT "re list" | RE_REP nat int re

definition REP_MAX :: nat where "REP_MAX = 256"
definition NO_REF :: nat where "NO_REF = UINT32_MAX"

record parser =
  ps_p :: bytes
  ps_mem :: mem

definition re_request :: "parser \<Rightarrow> bool \<times> parser" where
  "re_request s = (case malloc (ps_mem s) of (ok, m) \<Rightarrow> (ok, s\<lparr>ps_mem := m\<rparr>))"

text \<open>\<open>strchr\<close> finds the terminator of its list too.\<close>

definition among :: "u8 \<Rightarrow> string \<Rightarrow> bool" where
  "among c s \<longleftrightarrow> c \<in> set (lit s) \<or> c = 0"

text \<open>One member of a class: its first byte, whether that can be read, and the text after it.\<close>

definition class_byte :: "u8 \<Rightarrow> u8 \<times> bool" where
  "class_byte e =
     (if e = 0x6e then (0x0a, True) else if e = 0x74 then (0x09, True) else if e = 0x72 then (0x0d, True)
      else (e, \<not> alnum e))"

definition class_range :: "u8 \<Rightarrow> bool \<Rightarrow> bset \<Rightarrow> bytes \<Rightarrow> bool \<times> bset \<times> bytes" where
  "class_range c ok st s =
     (let (hi, s) =
        (if length s \<ge> 2 \<and> s ! 0 = 0x2d \<and> s ! 1 \<noteq> 0x5d then
           let hi = s ! 1; s = drop 2 s
           in if hi = 0x5c \<and> s \<noteq> [] then (hd s, tl s) else (hi, s)
         else (c, s));
        ok = (ok \<and> c \<le> hi)
      in (ok, if ok then set_add st (unat c) (unat hi) else st, s))"

lemma class_range_length: "length (snd (snd (class_range c ok st s))) \<le> length s"
  by (auto simp: class_range_def Let_def)

lemma class_range_tl: "class_range c ok st s = (ok', st', s') \<Longrightarrow> length s' \<le> length s"
  using class_range_length [of c ok st s] by simp

text \<open>The members up to the closing bracket, which is left.\<close>

function class_members :: "bool \<Rightarrow> bool \<Rightarrow> bset \<Rightarrow> bytes \<Rightarrow> bool \<times> bset \<times> bytes" where
  "class_members first ok st s =
     (case s of
        [] \<Rightarrow> (ok, st, [])
      | c # s \<Rightarrow>
          if c = 0x5d \<and> \<not> first then (ok, st, c # s)
          else if c = 0x5c \<and> s \<noteq> [] then
            let e = hd s; s = tl s in
            if among e ''dwsDWS'' then
              let (st, fine) = class_escape e st in class_members False (ok \<and> fine) st s
            else
              let (c, fine) = class_byte e; (ok, st, s) = class_range c (ok \<and> fine) st s
              in class_members False ok st s
          else
            let (ok, st, s) = class_range c ok st s in class_members False ok st s)"
  by pat_completeness auto
termination
proof (relation "measure (\<lambda>(first, ok, st, s). length s)", goal_cases)
  case 3
  then show ?case by (auto split: prod.splits dest!: class_range_tl)
next
  case 4
  then show ?case by (auto split: prod.splits dest!: class_range_tl)
qed auto

declare class_members.simps [simp del]

definition parse_class :: "parser \<Rightarrow> re option \<times> parser" where
  "parse_class ps =
     (case re_request ps of (granted, ps) \<Rightarrow>
        if \<not> granted then (None, ps)
        else
          let neg = (ps_p ps \<noteq> [] \<and> hd (ps_p ps) = 0x5e);
              s = (if neg then tl (ps_p ps) else ps_p ps);
              (ok, st, s) = class_members True True set_clear s;
              ok = (ok \<and> s \<noteq> []);
              ps = ps\<lparr>ps_p := tl s\<rparr>
          in if \<not> ok then (None, ps)
             else
               let st = (if neg then set_invert st else st)
               in if set_empty st then (None, ps) else (Some (RE_SET st), ps))"

text \<open>A number: digits while the value is below 100000.\<close>

fun digits_from :: "nat \<Rightarrow> bytes \<Rightarrow> nat \<times> bytes" where
  "digits_from x [] = (x, [])"
| "digits_from x (c # s) =
     (if isdigit c \<and> x < 100000 then digits_from (x * 10 + digit_val c) s else (x, c # s))"

definition number :: "bytes \<Rightarrow> (nat \<times> bytes) option" where
  "number s = (if s = [] \<or> \<not> isdigit (hd s) then None else Some (digits_from 0 s))"

lemma digits_from_length: "length (snd (digits_from x s)) \<le> length s"
  by (induction x s rule: digits_from.induct) auto

lemma number_length: "number s = Some (x, s') \<Longrightarrow> length s' \<le> length s"
  using digits_from_length [of 0 s] by (auto simp: number_def split: if_splits)

text \<open>What stands in braces, the opening one taken; the bounds and the text after the closing one.\<close>

definition braces :: "bytes \<Rightarrow> (nat \<times> int \<times> bytes) option" where
  "braces s =
     (case number s of
        None \<Rightarrow> None
      | Some (lo, s) \<Rightarrow>
          let (hi, s) =
            (if s \<noteq> [] \<and> hd s = 0x2c then
               let s = tl s in
               if s \<noteq> [] \<and> hd s \<noteq> 0x7d then
                 (case number s of None \<Rightarrow> (-2, s) | Some (h, s) \<Rightarrow> (int h, s))
               else (-1, s)
             else (int lo, s))
          in if s = [] \<or> hd s \<noteq> 0x7d \<or> hi = -2 \<or> hi \<ge> 0 \<and> hi < int lo \<or> lo > REP_MAX \<or> hi > int REP_MAX
             then None
             else Some (lo, hi, tl s))"

lemma braces_length: "braces s = Some (lo, hi, s') \<Longrightarrow> length s' \<le> length s"
  by (auto simp: braces_def Let_def split: option.splits if_splits dest!: number_length) linarith+

text \<open>The bounds of the operator \<open>q\<close>, already taken.\<close>

definition operator_bounds :: "u8 \<Rightarrow> bytes \<Rightarrow> (nat \<times> int \<times> bytes) option" where
  "operator_bounds q s =
     (if q = 0x2a then Some (0, -1, s)
      else if q = 0x2b then Some (1, -1, s)
      else if q = 0x3f then Some (0, 1, s)
      else braces s)"

lemma operator_bounds_length: "operator_bounds q s = Some (lo, hi, s') \<Longrightarrow> length s' \<le> length s"
  by (auto simp: operator_bounds_def braces_length split: if_splits)

lemma re_request_p: "(ok, ps') = re_request ps \<Longrightarrow> ps_p ps' = ps_p ps"
  by (auto simp: re_request_def split: prod.splits)

function repeats :: "re \<Rightarrow> parser \<Rightarrow> re option \<times> parser" where
  "repeats a ps =
     (case ps_p ps of
        [] \<Rightarrow> (Some a, ps)
      | q # s \<Rightarrow>
          if \<not> among q ''*+?{'' then (Some a, ps)
          else case operator_bounds q s of
            None \<Rightarrow> (None, ps\<lparr>ps_p := s\<rparr>)
          | Some (lo, hi, s) \<Rightarrow>
              let s = (if s \<noteq> [] \<and> hd s = 0x3f then tl s else s);
                  (ok1, ps) = re_request (ps\<lparr>ps_p := s\<rparr>)
              in if \<not> ok1 then (None, ps)
                 else case re_request ps of (ok2, ps) \<Rightarrow>
                   if \<not> ok2 then (None, ps) else repeats (RE_REP lo hi a) ps)"
  by pat_completeness auto
termination
  by (relation "measure (\<lambda>(a, ps). length (ps_p ps))")
     (auto dest!: operator_bounds_length simp: re_request_p split: if_splits simp: less_Suc_eq_le)

declare repeats.simps [simp del]

text \<open>An atom that is neither a group nor a class of its own, its first byte \<open>c\<close> taken.\<close>

definition single :: "u8 \<Rightarrow> parser \<Rightarrow> re option \<times> parser" where
  "single c ps =
     (case re_request ps of (granted, ps) \<Rightarrow>
        if \<not> granted then (None, ps)
        else if c = 0x2e then (Some (RE_SET (set_add set_clear 0x20 0xff)), ps)
        else if c = 0x5c \<and> ps_p ps \<noteq> [] then
          let (st, ok) = class_escape (hd (ps_p ps)) set_clear; ps = ps\<lparr>ps_p := tl (ps_p ps)\<rparr>
          in (if ok then Some (RE_SET st) else None, ps)
        else if among c '')|*+?{}^$'' then (None, ps)
        else (Some (RE_SET (set_add set_clear (unat c) (unat c))), ps))"

text \<open>\<open>add_kid\<close>: the children with one more.\<close>

definition add_kid :: "re list \<Rightarrow> re option \<times> parser \<Rightarrow> re list option \<times> parser" where
  "add_kid kids kp =
     (case kp of
        (None, ps) \<Rightarrow> (None, ps)
      | (Some k, ps) \<Rightarrow> (case re_request ps of (ok, ps) \<Rightarrow> (if ok then Some (kids @ [k]) else None, ps)))"

text \<open>The inside of a group, past the mark of one that is not captured.\<close>

definition group_text :: "bytes \<Rightarrow> bytes" where
  "group_text s = (if length s \<ge> 2 \<and> s ! 0 = 0x3f \<and> s ! 1 = 0x3a then drop 2 s else s)"

fun parse_atom :: "nat \<Rightarrow> parser \<Rightarrow> (re option \<times> parser) option"
  and parse_rep :: "nat \<Rightarrow> parser \<Rightarrow> (re option \<times> parser) option"
  and seq_kids :: "nat \<Rightarrow> re list \<Rightarrow> parser \<Rightarrow> (re option \<times> parser) option"
  and parse_seq :: "nat \<Rightarrow> parser \<Rightarrow> (re option \<times> parser) option"
  and alt_kids :: "nat \<Rightarrow> re list \<Rightarrow> parser \<Rightarrow> (re option \<times> parser) option"
  and parse_alt :: "nat \<Rightarrow> parser \<Rightarrow> (re option \<times> parser) option" where
  "parse_atom 0 ps = None"
| "parse_atom (Suc f) ps =
     (let c = hd (ps_p ps); ps = ps\<lparr>ps_p := tl (ps_p ps)\<rparr> in
      if c = 0x28 then
        do { (r, ps) \<leftarrow> parse_alt f (ps\<lparr>ps_p := group_text (ps_p ps)\<rparr>);
             Some (if r = None \<or> ps_p ps = [] \<or> hd (ps_p ps) \<noteq> 0x29 then (None, ps)
                   else (r, ps\<lparr>ps_p := tl (ps_p ps)\<rparr>)) }
      else if c = 0x5b then Some (parse_class ps)
      else Some (single c ps))"
| "parse_rep 0 ps = None"
| "parse_rep (Suc f) ps =
     do { (a, ps) \<leftarrow> parse_atom f ps;
          Some (case a of None \<Rightarrow> (None, ps) | Some a \<Rightarrow> repeats a ps) }"
| "seq_kids 0 kids ps = None"
| "seq_kids (Suc f) kids ps =
     (if ps_p ps \<noteq> [] \<and> hd (ps_p ps) \<noteq> 0x7c \<and> hd (ps_p ps) \<noteq> 0x29 then
        do { kp \<leftarrow> parse_rep f ps;
             case add_kid kids kp of
               (None, ps) \<Rightarrow> Some (None, ps)
             | (Some kids, ps) \<Rightarrow> seq_kids f kids ps }
      else Some (Some (RE_SEQ kids), ps))"
| "parse_seq 0 ps = None"
| "parse_seq (Suc f) ps =
     (case re_request ps of (ok, ps) \<Rightarrow> if \<not> ok then Some (None, ps) else seq_kids f [] ps)"
| "alt_kids 0 kids ps = None"
| "alt_kids (Suc f) kids ps =
     do { kp \<leftarrow> parse_seq f ps;
          case add_kid kids kp of
            (None, ps) \<Rightarrow> Some (None, ps)
          | (Some kids, ps) \<Rightarrow>
              if ps_p ps \<noteq> [] \<and> hd (ps_p ps) = 0x7c then alt_kids f kids (ps\<lparr>ps_p := tl (ps_p ps)\<rparr>)
              else Some (Some (RE_ALT kids), ps) }"
| "parse_alt 0 ps = None"
| "parse_alt (Suc f) ps =
     (case re_request ps of (ok, ps) \<Rightarrow> if \<not> ok then Some (None, ps) else alt_kids f [] ps)"

section \<open>The rules of a tree\<close>

fun nullable :: "re \<Rightarrow> bool" where
  "nullable (RE_SET s) = False"
| "nullable (RE_SEQ kids) = list_all nullable kids"
| "nullable (RE_ALT kids) = list_ex nullable kids"
| "nullable (RE_REP lo hi r) = (lo = 0 \<or> nullable r)"

fun loops_empty :: "re \<Rightarrow> bool" where
  "loops_empty (RE_SET s) = False"
| "loops_empty (RE_SEQ kids) = list_ex loops_empty kids"
| "loops_empty (RE_ALT kids) = list_ex loops_empty kids"
| "loops_empty (RE_REP lo hi r) = (hi < 0 \<and> nullable r \<or> loops_empty r)"

text \<open>One escaped byte: an alternative of \<open>x\<close> of its own.\<close>

definition escaped_byte :: "bset \<Rightarrow> bset \<Rightarrow> nat \<Rightarrow> nat \<Rightarrow> nat \<Rightarrow> gbuild \<Rightarrow> gbuild" where
  "escaped_byte s plain x k c b =
     (if bits_has s c \<and> \<not> bits_has plain c then
        let (a, b) = gb_alt x b; b = gb_lit a (escape_of (of_nat c)) b in gb_ref a k b
      else b)"

definition make_set :: "bset \<Rightarrow> nat \<Rightarrow> gbuild \<Rightarrow> nat \<times> gbuild" where
  "make_set s k b =
     (let (x, b) = gb_rule b;
          plain = json_plain s;
          b = (if \<not> set_empty plain then
                 let (a, b) = gb_alt x b; b = gb_set a plain b in gb_ref a k b
               else b)
      in (x, fold (escaped_byte s plain x k) [0..<256] b))"

text \<open>An alternative of \<open>x\<close> that goes on with the rule \<open>sub\<close> makes.\<close>

definition ref_alt :: "nat \<Rightarrow> (gbuild \<Rightarrow> nat \<times> gbuild) \<Rightarrow> gbuild \<Rightarrow> gbuild" where
  "ref_alt x sub b = (let (a, b) = gb_alt x b; (y, b) = sub b in gb_ref a y b)"

fun make :: "re \<Rightarrow> nat \<Rightarrow> gbuild \<Rightarrow> nat \<times> gbuild"
  and make_seq :: "re list \<Rightarrow> nat \<Rightarrow> gbuild \<Rightarrow> nat \<times> gbuild"
  and make_alts :: "re list \<Rightarrow> nat \<Rightarrow> nat \<Rightarrow> gbuild \<Rightarrow> gbuild" where
  "make (RE_SET s) k b = make_set s k b"
| "make (RE_SEQ kids) k b = make_seq kids k b"
| "make (RE_ALT kids) k b =
     (case kids of
        [r] \<Rightarrow> make r k b
      | _ \<Rightarrow> (case gb_rule b of (x, b) \<Rightarrow> (x, make_alts kids x k b)))"
| "make (RE_REP lo hi r) k b =
     (let (c, b) =
        (if hi < 0 then
           let (c, b) = gb_rule b; b = ref_alt c (make r c) b in (c, ref_alt c (Pair k) b)
         else
           fold (\<lambda>i (c, b). let (o', b) = gb_rule b; b = ref_alt o' (make r c) b in (o', ref_alt o' (Pair k) b))
             [lo..<nat hi] (k, b))
      in fold (\<lambda>i (c, b). make r c b) [0..<lo] (c, b))"
| "make_seq [] k b = (k, b)"
| "make_seq (r # rs) k b = (case make_seq rs k b of (k, b) \<Rightarrow> make r k b)"
| "make_alts [] x k b = b"
| "make_alts (r # rs) x k b = make_alts rs x k (ref_alt x (make r k) b)"

text \<open>The reader takes its memory from the same requests as the builder.\<close>

definition parse_text :: "bytes \<Rightarrow> mem \<Rightarrow> (re option \<times> parser) option" where
  "parse_text s m = parse_alt (6 * length s + 6) \<lparr>ps_p = s, ps_mem = m\<rparr>"

definition jsg_regex :: "bytes \<Rightarrow> nat \<Rightarrow> gbuild \<Rightarrow> (nat \<times> gbuild) option" where
  "jsg_regex expr k b =
     do { (r, ps) \<leftarrow> parse_text expr (gmem b);
          let b = b\<lparr>gmem := ps_mem ps\<rparr> in
          Some (case r of
                  None \<Rightarrow> (NO_REF, b)
                | Some r \<Rightarrow> if ps_p ps \<noteq> [] \<or> loops_empty r then (NO_REF, b) else make r k b) }"

definition any_then :: "nat \<Rightarrow> gbuild \<Rightarrow> nat \<times> gbuild" where
  "any_then k b =
     (let any = json_plain (set_add set_clear 0x20 0xff);
          (r, b) = gb_rule b;
          (a, b) = gb_alt r b;
          b = gb_set a any b;
          b = gb_ref a r b
      in (r, ref_alt r (Pair k) b))"

definition pattern_text :: "bytes \<Rightarrow> bytes \<times> bool" where
  "pattern_text s =
     (let s = (if s \<noteq> [] \<and> hd s = 0x5e then tl s else s);
          bs = length (takeWhile (\<lambda>c. c = 0x5c) (tl (rev s)));
          whole = (s \<noteq> [] \<and> last s = 0x24 \<and> even bs)
      in (if whole then butlast s else s, whole))"

definition jsg_pattern :: "bytes \<Rightarrow> nat \<Rightarrow> gbuild \<Rightarrow> (nat \<times> gbuild) option" where
  "jsg_pattern expr k b =
     (let (s, whole) = pattern_text expr;
          (tail, b) = (if whole then (k, b) else any_then k b)
      in jsg_regex s tail b)"

end
