(* ===== verification/Schema_Re_Lang.thy ===== *)
theory Schema_Re_Lang
  imports Schema_Re
begin

text \<open>
  The language of a tree of \<open>Schema_Re\<close>, and that the rule made of it with a rule to go on with
  matches a text of that language and then what the other rule matches. A rule made while another
  is still open refers to it (an open repetition loops on its own rule), so the statement is about
  every set of productions that has the alternatives of the new rules and no other ones.
\<close>

section \<open>The language\<close>

definition plain_char :: "u8 \<Rightarrow> bool" where
  "plain_char c \<longleftrightarrow> 0x20 \<le> c \<and> c \<noteq> 0x22 \<and> c \<noteq> 0x5c"

text \<open>A byte as it stands in a JSON string.\<close>

definition in_json :: "u8 \<Rightarrow> bytes" where
  "in_json c = (if plain_char c then [c] else escape_of c)"

definition conc :: "bytes set \<Rightarrow> bytes set \<Rightarrow> bytes set" where
  "conc A B = {u @ v | u v. u \<in> A \<and> v \<in> B}"

fun lpow :: "nat \<Rightarrow> bytes set \<Rightarrow> bytes set" where
  "lpow 0 A = {[]}"
| "lpow (Suc n) A = conc A (lpow n A)"

fun re_lang :: "re \<Rightarrow> bytes set"
  and seq_lang :: "re list \<Rightarrow> bytes set"
  and alts_lang :: "re list \<Rightarrow> bytes set" where
  "re_lang (RE_SET s) = in_json ` bset_of s"
| "re_lang (RE_SEQ kids) = seq_lang kids"
| "re_lang (RE_ALT kids) = alts_lang kids"
| "re_lang (RE_REP lo hi r) = (\<Union>n \<in> {n. lo \<le> n \<and> (hi < 0 \<or> int n \<le> hi)}. lpow n (re_lang r))"
| "seq_lang [] = {[]}"
| "seq_lang (r # rs) = conc (re_lang r) (seq_lang rs)"
| "alts_lang [] = {}"
| "alts_lang (r # rs) = re_lang r \<union> alts_lang rs"

fun wf_re :: "re \<Rightarrow> bool" where
  "wf_re (RE_SET s) = (length s = 32)"
| "wf_re (RE_SEQ kids) = list_all wf_re kids"
| "wf_re (RE_ALT kids) = list_all wf_re kids"
| "wf_re (RE_REP lo hi r) = ((hi < 0 \<or> int lo \<le> hi) \<and> wf_re r)"

text \<open>A text of \<open>L\<close> and then a word of \<open>V\<close>.\<close>

definition after :: "bytes set \<Rightarrow> gsym list set \<Rightarrow> gsym list set" where
  "after L V = {map Byte u @ v | u v. u \<in> L \<and> v \<in> V}"

lemma after_conc: "after (conc A B) V = after A (after B V)"
  unfolding after_def conc_def by (auto, metis append_assoc map_append) (metis append_assoc map_append)

lemma after_single: "after {[c] | c. c \<in> S} V = {Byte c # v | c v. c \<in> S \<and> v \<in> V}"
proof -
  have "map Byte [c] @ v \<in> after {[c] | c. c \<in> S} V" if "c \<in> S" "v \<in> V" for c v
    unfolding after_def using that by blast
  then show ?thesis by (auto simp: after_def)
qed

lemma after_union: "after (A \<union> B) V = after A V \<union> after B V"
  by (auto simp: after_def)

lemma after_UNION: "after (\<Union>n \<in> N. A n) V = (\<Union>n \<in> N. after (A n) V)"
  by (auto simp: after_def)

lemma after_empty [simp]: "after {} V = {}"
  by (simp add: after_def)

lemma after_one [simp]: "after {[]} V = V"
  by (simp add: after_def)

lemma after_mono: "V \<subseteq> W \<Longrightarrow> after L V \<subseteq> after L W"
  unfolding after_def by blast

lemma conc_one [simp]: "conc A {[]} = A" "conc {[]} A = A"
  by (auto simp: conc_def)

lemma conc_assoc: "conc (conc A B) C = conc A (conc B C)"
  unfolding conc_def by (auto, metis append_assoc) (metis append_assoc)

lemma lpow_add: "lpow (m + n) A = conc (lpow m A) (lpow n A)"
  by (induction m) (simp_all add: conc_assoc)

lemma lpow_Suc2: "lpow (Suc n) A = conc (lpow n A) A"
  using lpow_add [of n 1 A] by simp

lemma conc_UNION: "conc (\<Union>n \<in> N. A n) B = (\<Union>n \<in> N. conc (A n) B)" "conc B (\<Union>n \<in> N. A n) = (\<Union>n \<in> N. conc B (A n))"
  by (auto simp: conc_def)

lemma nil_conc: "[] \<in> conc A B \<longleftrightarrow> [] \<in> A \<and> [] \<in> B"
  by (auto simp: conc_def)

lemma nil_lpow: "[] \<in> lpow n A \<longleftrightarrow> n = 0 \<or> [] \<in> A"
  by (induction n) (auto simp: nil_conc)

lemma in_json_nonempty: "in_json c \<noteq> []"
  by (simp add: in_json_def escape_of_def)

lemma nullable_lang:
  "wf_re r \<Longrightarrow> [] \<in> re_lang r \<longleftrightarrow> nullable r"
  "list_all wf_re rs \<Longrightarrow> [] \<in> seq_lang rs \<longleftrightarrow> list_all nullable rs"
  "list_all wf_re rs \<Longrightarrow> [] \<in> alts_lang rs \<longleftrightarrow> list_ex nullable rs"
proof (induction r and rs and rs rule: re_lang_seq_lang_alts_lang.induct)
  case (1 s)
  then show ?case by (auto simp: image_iff) (metis in_json_nonempty)
next
  case (4 lo hi r)
  then have "lo \<in> {n. lo \<le> n \<and> (hi < 0 \<or> int n \<le> hi)}" by auto
  then show ?case using 4 by (auto simp: nil_lpow)
qed (simp_all add: nil_conc)

text \<open>An equation for a loop has one solution when what it repeats takes a symbol.\<close>

lemma loop_unique:
  assumes "W = after L W \<union> V" and "[] \<notin> L"
  shows "W = (\<Union>n. after (lpow n L) V)"
proof (rule set_eqI, rule iffI)
  fix w assume "w \<in> W"
  then show "w \<in> (\<Union>n. after (lpow n L) V)"
  proof (induction "length w" arbitrary: w rule: less_induct)
    case less
    then have "w \<in> after L W \<union> V" using assms(1) by blast
    then consider "w \<in> V" | u v where "w = map Byte u @ v" "u \<in> L" "v \<in> W"
      unfolding after_def by blast
    then show ?case
    proof cases
      case 1
      then show ?thesis by (intro UN_I [of 0]) simp_all
    next
      case 2
      then have "u \<noteq> []" using assms(2) by auto
      then obtain n where "v \<in> after (lpow n L) V" using less.hyps [of v] 2 by auto
      then have "w \<in> after (lpow (Suc n) L) V" using 2 by (auto simp: after_conc) (auto simp: after_def)
      then show ?thesis by blast
    qed
  qed
next
  fix w assume "w \<in> (\<Union>n. after (lpow n L) V)"
  then obtain n where "w \<in> after (lpow n L) V" by blast
  moreover have "after (lpow n L) V \<subseteq> W" for n
  proof (induction n)
    case 0
    then show ?case using assms(1) by auto
  next
    case (Suc n)
    have "after L (after (lpow n L) V) \<subseteq> after L W" by (rule after_mono [OF Suc])
    moreover have "after L W \<subseteq> W" using assms(1) by blast
    ultimately have "after L (after (lpow n L) V) \<subseteq> W" by (rule subset_trans)
    then show ?case by (simp add: after_conc)
  qed
  ultimately show "w \<in> W" by blast
qed

section \<open>New rules\<close>

definition frees :: "gbuild \<Rightarrow> bool" where
  "frees b \<longleftrightarrow> good {..<n_rules b} b"

text \<open>Productions in which the rules made from \<open>b\<close> to \<open>b'\<close> are what they are in \<open>b'\<close>.\<close>

definition fixed_in :: "gbuild \<Rightarrow> gbuild \<Rightarrow> prods \<Rightarrow> bool" where
  "fixed_in b b' Q \<longleftrightarrow> (\<forall>r. n_rules b \<le> r \<and> r < n_rules b' \<longrightarrow> {ys. (r, ys) \<in> Q} = alts_of b' r)"

definition made :: "gbuild \<Rightarrow> gbuild \<Rightarrow> nat \<Rightarrow> ((nat \<Rightarrow> gsym list set) \<Rightarrow> gsym list set) \<Rightarrow> bool" where
  "made b b' x F \<longleftrightarrow> frees b' \<and> grows {} b b' \<and> (\<forall>Q. fixed_in b b' Q \<longrightarrow> rule_lang Q x = F (rule_lang Q))"

text \<open>The same for alternatives added to the open rule \<open>x\<close>.\<close>

definition branched :: "gbuild \<Rightarrow> gbuild \<Rightarrow> nat \<Rightarrow> ((nat \<Rightarrow> gsym list set) \<Rightarrow> gsym list set) \<Rightarrow> bool" where
  "branched b b' x F \<longleftrightarrow> frees b' \<and> grows {x} b b' \<and>
     (\<exists>Y. alts_of b' x = alts_of b x \<union> Y \<and>
       (\<forall>Q. fixed_in b b' Q \<longrightarrow> {w. \<exists>ys \<in> Y. derives Q ys w} = F (rule_lang Q)))"

lemma grows_n: "grows I b b' \<Longrightarrow> n_rules b \<le> n_rules b'"
  by (simp add: grows_def)

lemma grows_alts: "grows I b b' \<Longrightarrow> frees b \<Longrightarrow> frees b' \<Longrightarrow> r < n_rules b \<Longrightarrow> r \<notin> I \<Longrightarrow> alts_of b' r = alts_of b r"
  unfolding frees_def by (rule alts_grows)

lemma fixed_before:
  assumes "fixed_in b b2 Q" "grows I b1 b2" "frees b1" "frees b2" "\<And>i. i \<in> I \<Longrightarrow> i < n_rules b"
  shows "fixed_in b b1 Q"
  unfolding fixed_in_def
proof (intro allI impI)
  fix r assume r: "n_rules b \<le> r \<and> r < n_rules b1"
  then have "{ys. (r, ys) \<in> Q} = alts_of b2 r" using assms(1) grows_n [OF assms(2)] by (simp add: fixed_in_def)
  moreover have "r \<notin> I" using assms(5) [of r] r by auto
  ultimately show "{ys. (r, ys) \<in> Q} = alts_of b1 r" using grows_alts [OF assms(2-4)] r by simp
qed

lemma fixed_behind:
  assumes "fixed_in b b2 Q" "n_rules b \<le> n_rules b1"
  shows "fixed_in b1 b2 Q"
  using assms unfolding fixed_in_def by auto

lemma made_trans:
  assumes "made b b1 y (\<lambda>V. after A (V k))" "made b1 b2 x (\<lambda>V. after B (V y))"
  shows "made b b2 x (\<lambda>V. after (conc B A) (V k))"
proof -
  note d = assms [unfolded made_def]
  have g: "grows {} b b2" using d by (auto intro: grows_trans)
  have "rule_lang Q x = after (conc B A) (rule_lang Q k)" if "fixed_in b b2 Q" for Q
    using d fixed_before [OF that, of "{}" b1] fixed_behind [OF that, of b1] grows_n [of "{}" b b1]
    by (simp add: after_conc)
  then show ?thesis using d g by (simp add: made_def)
qed

lemma made_refl: "frees b \<Longrightarrow> \<not> gfailed b \<Longrightarrow> made b b k (\<lambda>V. after {[]} (V k))"
  by (simp add: made_def grows_refl)

lemma branched_refl: "frees b \<Longrightarrow> \<not> gfailed b \<Longrightarrow> branched b b x (\<lambda>V. {})"
  by (auto simp: branched_def grows_refl)

lemma branched_trans:
  assumes "branched b b1 x F" "branched b1 b2 x G" "x < n_rules b"
  shows "branched b b2 x (\<lambda>V. F V \<union> G V)"
proof -
  obtain Y where Y: "frees b1" "grows {x} b b1" "alts_of b1 x = alts_of b x \<union> Y"
    "\<And>Q. fixed_in b b1 Q \<Longrightarrow> {w. \<exists>ys \<in> Y. derives Q ys w} = F (rule_lang Q)"
    using assms(1) unfolding branched_def by blast
  obtain Z where Z: "frees b2" "grows {x} b1 b2" "alts_of b2 x = alts_of b1 x \<union> Z"
    "\<And>Q. fixed_in b1 b2 Q \<Longrightarrow> {w. \<exists>ys \<in> Z. derives Q ys w} = G (rule_lang Q)"
    using assms(2) unfolding branched_def by blast
  have g: "grows {x} b b2" using Y(2) Z(2) by (auto intro: grows_trans)
  have "{w. \<exists>ys \<in> Y \<union> Z. derives Q ys w} = F (rule_lang Q) \<union> G (rule_lang Q)" if "fixed_in b b2 Q" for Q
  proof -
    have "fixed_in b b1 Q" by (rule fixed_before [OF that Z(2) Y(1) Z(1)]) (use assms(3) in simp)
    moreover have "fixed_in b1 b2 Q" by (rule fixed_behind [OF that grows_n [OF Y(2)]])
    moreover have "{w. \<exists>ys \<in> Y \<union> Z. derives Q ys w} =
        {w. \<exists>ys \<in> Y. derives Q ys w} \<union> {w. \<exists>ys \<in> Z. derives Q ys w}" by auto
    ultimately show ?thesis using Y(4) Z(4) by simp
  qed
  moreover have "alts_of b2 x = alts_of b x \<union> (Y \<union> Z)" using Y(3) Z(3) by (simp add: Un_assoc)
  ultimately show ?thesis using Z(1) g unfolding branched_def by blast
qed

text \<open>A rule that is made of the alternatives added.\<close>

lemma branched_rule:
  assumes "gb_rule b = (x, b1)" "frees b" "branched b1 b2 x F"
  shows "made b b2 x F" "x = n_rules b" "frees b1" "x < n_rules b1"
proof -
  have nf: "\<not> gfailed b1" using assms(3) by (auto simp: branched_def grows_def)
  note r = good_rule [OF assms(1) assms(2) [unfolded frees_def] nf]
  show x: "x = n_rules b" by (rule r(3))
  have ins: "insert x {..<n_rules b} = {..<n_rules b1}" using r(3,4) by auto
  show f1: "frees b1" using r(1) unfolding frees_def ins .
  show x1: "x < n_rules b1" using r(4) by simp
  obtain Y where Y: "frees b2" "grows {x} b1 b2" "alts_of b2 x = Y"
    "\<And>Q. fixed_in b1 b2 Q \<Longrightarrow> {w. \<exists>ys \<in> Y. derives Q ys w} = F (rule_lang Q)"
    using assms(3) r(6) unfolding branched_def by auto
  have g: "grows {} b b2" by (rule grows_trans [OF r(2) Y(2)]) (use x in auto)
  have "rule_lang Q x = F (rule_lang Q)" if "fixed_in b b2 Q" for Q
  proof -
    have "{ys. (x, ys) \<in> Q} = Y" using that x r(4) grows_n [OF Y(2)] Y(3) by (auto simp: fixed_in_def)
    then have "rule_lang Q x = {w. \<exists>ys \<in> Y. derives Q ys w}" by (auto simp: rule_lang_def)
    then show ?thesis using Y(4) [OF fixed_behind [OF that]] r(4) x by simp
  qed
  then show "made b b2 x F" using Y(1) g by (simp add: made_def)
qed

text \<open>An alternative of bytes and then a rule, and one that refers to a rule made for it.\<close>

lemma branched_appended:
  assumes "gb_alt x b = (a, b1)" "frees b" "x < n_rules b" "appended a xs b1 b2"
    and "\<And>Q w. derives Q xs w \<longleftrightarrow> w \<in> F (rule_lang Q)"
  shows "branched b b2 x F"
proof -
  have inv: "gb_inv b" using assms(2) by (simp add: frees_def good_def)
  note ap = alt_appended [OF assms(1,4) inv]
  have g: "grows {x} b b2" using ap(1-3) by (auto simp: grows_def)
  have "good {..<n_rules b} b2"
    by (rule good_same_rules [OF assms(2) [unfolded frees_def] ap(4,3), of x]) (use ap(2) assms(3) in auto)
  then have f: "frees b2" using ap(3) by (simp add: frees_def)
  have "alts_of b2 x = alts_of b x \<union> {xs}"
    using ap(2,3) assms(3) by (auto simp: alts_of_def gprods_def)
  then show ?thesis using g f assms(5) unfolding branched_def by (intro conjI exI [of _ "{xs}"]) auto
qed

lemma branched_ref:
  assumes "ref_alt x sub b = b3" "frees b" "x < n_rules b" "\<not> gfailed b3"
    and "\<And>b. gfailed b \<Longrightarrow> gfailed (snd (sub b))"
    and "\<And>b1 y b2. frees b1 \<Longrightarrow> sub b1 = (y, b2) \<Longrightarrow> \<not> gfailed b2 \<Longrightarrow> made b1 b2 y F"
  shows "branched b b3 x F"
proof -
  obtain a b1 where al: "gb_alt x b = (a, b1)" by force
  obtain y b2 where sb: "sub b1 = (y, b2)" by force
  have b3: "b3 = gb_ref a y b2" using assms(1) al sb by (simp add: ref_alt_def)
  have nf2: "\<not> gfailed b2" using assms(4) b3 fails_ref by blast
  then have nf1: "\<not> gfailed b1" using assms(5) [of b1] sb by auto
  let ?X = "{..<n_rules b}"
  note a = good_alt [OF al assms(2) [unfolded frees_def] _ nf1]
  have x: "x \<in> ?X" using assms(3) by simp
  have f1: "frees b1" using a(1) [OF x] a(3) [OF x] by (simp add: frees_def)
  from assms(6) [OF f1 sb nf2]
  have m: "frees b2" "grows {} b1 b2" "\<And>Q. fixed_in b1 b2 Q \<Longrightarrow> rule_lang Q y = F (rule_lang Q)"
    by (auto simp: made_def)
  have o2: "opened a x [] {} b b2" by (rule opened_then_grows [OF a(2) [OF x, of "{}"] m(2)]) simp
  have x2: "x \<in> {..<n_rules b2}" using grows_n [OF opened_grows [OF o2]] assms(3) by simp
  note rf = good_ref [OF assms(4) [unfolded b3] m(1) [unfolded frees_def] o2 x2, folded b3]
  have f3: "frees b3" using rf(1,4) by (simp add: frees_def)
  have g: "grows {x} b b3" using opened_grows [OF rf(2)] by simp
  have "appended a [ARule y] b2 b3"
    using gb_ref_appended [of a y b2] assms(4) m(1) b3 by (simp add: frees_def good_def)
  note ot = appended_others [OF this m(1) [unfolded frees_def] o2 x2]
  have al3: "alts_of b3 x = alts_of b x \<union> {[ARule y]}"
    using alts_opened [OF rf(2) assms(2) [unfolded frees_def] f3 [unfolded frees_def] assms(3)] by simp
  have "{w. \<exists>ys \<in> {[ARule y]}. derives Q ys w} = F (rule_lang Q)" if "fixed_in b b3 Q" for Q
  proof -
    have "fixed_in b1 b2 Q"
      using that a(3) [OF x] rf(4) ot(1) assms(3) unfolding fixed_in_def by (metis not_le)
    then show ?thesis using m(3) by (simp add: derives_Rule_single)
  qed
  then show ?thesis unfolding branched_def using f3 g al3 by blast
qed


section \<open>The rules of a tree\<close>

lemma fails_lit: "gfailed b \<Longrightarrow> gfailed (gb_lit a s b)"
  unfolding gb_lit_def by (rule fold_invariant_list) (use gfailed_gb_byte in auto)

lemma fails_ref_alt:
  assumes "\<And>b. gfailed b \<Longrightarrow> gfailed (snd (sub b))" and "gfailed b"
  shows "gfailed (ref_alt x sub b)"
proof -
  obtain a b1 where al: "gb_alt x b = (a, b1)" by force
  obtain y b2 where sb: "sub b1 = (y, b2)" by force
  have "gfailed b1" using fails_alt [OF assms(2), of x] al by simp
  then have "gfailed b2" using assms(1) [of b1] sb by simp
  then show ?thesis using al sb by (simp add: ref_alt_def fails_ref)
qed

lemma fails_escaped: "gfailed b \<Longrightarrow> gfailed (escaped_byte s plain x k c b)"
  using fails_alt [of b x] by (auto simp: escaped_byte_def fails_ref fails_lit split: prod.splits)

lemma fails_make_set: "gfailed b \<Longrightarrow> gfailed (snd (make_set s k b))"
proof -
  assume b: "gfailed b"
  obtain x b1 where r: "gb_rule b = (x, b1)" by force
  obtain a b2 where al: "gb_alt x b1 = (a, b2)" by force
  have 1: "gfailed b1" using b r fails_rule [of b] by simp
  then have 2: "gfailed b2" using al fails_alt [of b1 x] by simp
  have "gfailed (fold (escaped_byte s (json_plain s) x k) [0..<256] b')" if "gfailed b'" for b'
    by (rule fold_invariant_list) (use that fails_escaped in auto)
  then show ?thesis using r al 1 fails_ref [OF fails_set [OF 2]] by (simp add: make_set_def Let_def del: upt_Suc)
qed

lemma fails_make: "gfailed b \<Longrightarrow> gfailed (snd (make r k b))"
proof (induction r arbitrary: k b)
  case (RE_SET s)
  then show ?case by (simp add: fails_make_set)
next
  case (RE_SEQ kids)
  then show ?case by (induction kids arbitrary: k b) (auto split: prod.splits, metis snd_conv)
next
  case (RE_ALT kids)
  have "gfailed (make_alts rs x k b)" if "set rs \<subseteq> set kids" "gfailed b" for rs x b
    using that by (induction rs arbitrary: b) (simp_all add: RE_ALT.IH fails_ref_alt)
  then show ?case using RE_ALT by (auto simp: gb_rule_def simp del: make_alts.simps split: list.splits)
next
  case (RE_REP lo hi r)
  let ?bad = "\<lambda>cb. gfailed (snd cb)"
  have opt: "?bad (fold (\<lambda>i (c, b). let (o', b) = gb_rule b; b = ref_alt o' (make r c) b in (o', ref_alt o' (Pair k) b)) js (k, b))" for js
    by (rule fold_invariant_list) (auto simp: RE_REP gb_rule_def Let_def intro!: fails_ref_alt)
  have must: "?bad (fold (\<lambda>i (c, b). make r c b) js cb)" if "?bad cb" for js cb
    by (rule fold_invariant_list) (use that RE_REP in auto)
  have "?bad (let (c, b) = gb_rule b; b = ref_alt c (make r c) b in (c, ref_alt c (Pair k) b))"
    by (auto simp: RE_REP gb_rule_def Let_def intro!: fails_ref_alt)
  then show ?case using opt by (auto intro!: must simp: Let_def split: prod.splits)
qed

lemma escaped_branches:
  assumes "frees b" "x < n_rules b" "\<not> gfailed (fold (escaped_byte s plain x k) cs b)"
  shows "branched b (fold (escaped_byte s plain x k) cs b) x
    (\<lambda>V. after {escape_of (of_nat c) | c. c \<in> set cs \<and> bits_has s c \<and> \<not> bits_has plain c} (V k))"
  using assms
proof (induction cs arbitrary: b)
  case Nil
  then show ?case by (simp add: branched_refl)
next
  case (Cons c cs)
  let ?b1 = "escaped_byte s plain x k c b"
  let ?L = "\<lambda>cs. {escape_of (of_nat c) | c. c \<in> set cs \<and> bits_has s c \<and> \<not> bits_has plain c}"
  have nf1: "\<not> gfailed ?b1"
  proof
    assume "gfailed ?b1"
    then have "gfailed (fold (escaped_byte s plain x k) cs ?b1)"
      by (rule fold_invariant_list) (rule fails_escaped)
    then show False using Cons.prems(3) by simp
  qed
  have 1: "branched b ?b1 x (\<lambda>V. after (?L [c]) (V k))"
  proof (cases "bits_has s c \<and> \<not> bits_has plain c")
    case True
    obtain a b1 where al: "gb_alt x b = (a, b1)" by force
    let ?b2 = "gb_lit a (escape_of (of_nat c)) b1"
    have eq: "?b1 = gb_ref a k ?b2" using True al by (simp add: escaped_byte_def)
    have nf: "\<not> gfailed ?b2" using nf1 eq fails_ref by metis
    then have "\<not> gfailed b1" using fails_lit by blast
    then have inv: "gb_inv b1" using gb_alt_refines(5) [OF al] Cons.prems(1) by (simp add: frees_def good_def)
    note lit = gb_lit_appended [OF nf inv]
    then have "gb_inv ?b2" by (simp add: appended_def)
    note ap = appended_trans [OF lit gb_ref_appended [OF nf1 [unfolded eq] this], folded eq]
    have "derives Q (map (\<lambda>c. ASet {c}) u @ [ARule k]) w \<longleftrightarrow> w \<in> after {u} (rule_lang Q k)" for Q u w
      by (induction u arbitrary: w) (auto simp: derives_Rule_single after_def)
    moreover have "?L [c] = {escape_of (of_nat c)}" using True by auto
    ultimately show ?thesis using branched_appended [OF al Cons.prems(1,2) ap] by simp
  next
    case False
    then have eq: "?b1 = b" "?L [c] = {}" by (auto simp: escaped_byte_def)
    then show ?thesis using nf1 unfolding eq after_empty by (intro branched_refl Cons.prems(1)) simp
  qed
  have x1: "x < n_rules ?b1" using 1 grows_n Cons.prems(2) unfolding branched_def by (meson less_le_trans)
  have "frees ?b1" using 1 by (simp add: branched_def)
  from Cons.IH [OF this x1] Cons.prems(3) have "branched ?b1 (fold (escaped_byte s plain x k) (c # cs) b) x (\<lambda>V. after (?L cs) (V k))"
    by simp
  from branched_trans [OF 1 this Cons.prems(2)]
  have "branched b (fold (escaped_byte s plain x k) (c # cs) b) x (\<lambda>V. after (?L [c] \<union> ?L cs) (V k))"
    by (simp add: after_union)
  moreover have "?L [c] \<union> ?L cs = ?L (c # cs)" by auto
  ultimately show ?case by simp
qed


section \<open>A set of bytes\<close>

lemma gset_and: "length a = 32 \<Longrightarrow> length b = 32 \<Longrightarrow> gset_has (set_and a b) c \<longleftrightarrow> gset_has a c \<and> gset_has b c"
  using u8_div8_less [of c] by (simp add: gset_has_def bits_has_def set_and_def bit_and_iff)

lemma gset_drop:
  assumes "length s = 32" "k < 256"
  shows "gset_has (drop_bit_of k s) c \<longleftrightarrow> gset_has s c \<and> unat c \<noteq> k"
proof -
  have k: "k div 8 < length s" using assms by auto
  have b: "bit (push_bit (k mod 8) (1 :: u8)) (unat c mod 8) \<longleftrightarrow> unat c mod 8 = k mod 8"
    using mod_less_divisor [of 8 "unat c"]
    by (auto simp: bit_push_bit_iff bit_1_iff simp del: push_bit_of_1)
  show ?thesis
  proof (cases "unat c div 8 = k div 8")
    case True
    then have "unat c mod 8 = k mod 8 \<longleftrightarrow> unat c = k" by (metis div_mult_mod_eq)
    then show ?thesis using True k b mod_less_divisor [of 8 "unat c"]
      by (simp add: gset_has_def bits_has_def drop_bit_of_def bit_and_iff bit_not_iff del: push_bit_of_1)
  next
    case False
    then show ?thesis by (auto simp: gset_has_def bits_has_def drop_bit_of_def)
  qed
qed

lemma json_plain_set:
  assumes "length s = 32"
  shows "bset_of (json_plain s) = {c \<in> bset_of s. plain_char c}" "length (json_plain s) = 32"
proof -
  have len: "length (drop_bit_of k t) = length t" for k t by (simp add: drop_bit_of_def)
  have "plain_char c \<longleftrightarrow> 0x20 \<le> unat c \<and> unat c \<noteq> 0x22 \<and> unat c \<noteq> 0x5c" for c
    by (simp add: plain_char_def u8_eq_iff word_le_nat_alt)
  then show "bset_of (json_plain s) = {c \<in> bset_of s. plain_char c}"
    using assms by (auto simp: bset_of_def json_plain_def Let_def gset_and len gset_drop gset_has_add)
  show "length (json_plain s) = 32" using assms by (simp add: json_plain_def Let_def set_and_def len)
qed

lemma set_empty_iff:
  assumes "length s = 32"
  shows "set_empty s \<longleftrightarrow> bset_of s = {}"
proof
  assume "set_empty s"
  then have "s ! (unat c div 8) = 0" for c :: u8
    using assms u8_div8_less [of c] by (simp add: set_empty_def list_all_length)
  then show "bset_of s = {}" by (simp add: bset_of_def gset_has_def bits_has_def)
next
  assume e: "bset_of s = {}"
  have "s ! i = 0" if "i < 32" for i
  proof (rule bit_word_eqI)
    fix n assume n: "n < LENGTH(8)"
    have "8 * i + n < 256" using that n by simp
    then have "unat (of_nat (8 * i + n) :: u8) = 8 * i + n" by (rule unat_of_nat_u8)
    moreover have "\<not> gset_has s (of_nat (8 * i + n))" using e by (auto simp: bset_of_def)
    ultimately show "bit (s ! i) n \<longleftrightarrow> bit (0 :: u8) n" using n by (simp add: gset_has_def bits_has_def)
  qed
  then show "set_empty s" using assms by (simp add: set_empty_def list_all_length)
qed

lemma make_set_made:
  assumes "make_set s k b = (x, b')" "frees b" "\<not> gfailed b'" "length s = 32"
  shows "made b b' x (\<lambda>V. after (in_json ` bset_of s) (V k))"
proof -
  obtain b1 where r: "gb_rule b = (x, b1)" using assms(1) by (auto simp: make_set_def Let_def split: prod.splits)
  let ?p = "json_plain s"
  let ?fold = "fold (escaped_byte s ?p x k) [0..<256]"
  obtain a b2 where al: "gb_alt x b1 = (a, b2)" by force
  define b3 where "b3 = (if \<not> set_empty ?p then gb_ref a k (gb_set a ?p b2) else b1)"
  have b': "b' = ?fold b3" using assms(1) r al
    by (cases "set_empty ?p") (simp_all add: make_set_def Let_def b3_def del: upt_Suc)
  have nf3: "\<not> gfailed b3"
  proof
    assume "gfailed b3"
    then have "gfailed b'" unfolding b' by (rule fold_invariant_list) (rule fails_escaped)
    then show False using assms(3) by simp
  qed
  have nf1: "\<not> gfailed b1"
    using nf3 fails_alt [of b1 x] fails_set [of b2 a ?p] fails_ref [of "gb_set a ?p b2" a k] al
    by (auto simp: b3_def split: if_splits)
  note g = good_rule [OF r assms(2) [unfolded frees_def] nf1]
  have f1: "frees b1" using g(1,3,4) by (simp add: frees_def lessThan_Suc)
  have x1: "x < n_rules b1" using g(4) by simp
  have 1: "branched b1 b3 x (\<lambda>V. after {[c] | c. c \<in> bset_of ?p} (V k))"
  proof (cases "set_empty ?p")
    case True
    then have "bset_of ?p = {}" using set_empty_iff json_plain_set(2) [OF assms(4)] by blast
    then show ?thesis using True f1 nf1 by (simp add: b3_def branched_refl)
  next
    case False
    then have b3: "b3 = gb_ref a k (gb_set a ?p b2)" by (simp add: b3_def)
    have nf: "\<not> gfailed (gb_set a ?p b2)" using nf3 b3 fails_ref by metis
    then have "\<not> gfailed b2" using fails_set by blast
    then have inv: "gb_inv b2" using gb_alt_refines(5) [OF al] f1 by (simp add: frees_def good_def)
    note st = gb_set_appended [OF nf inv]
    then have "gb_inv (gb_set a ?p b2)" by (simp add: appended_def)
    note ap = appended_trans [OF st gb_ref_appended [OF nf3 [unfolded b3] this], folded b3]
    show ?thesis
      by (rule branched_appended [OF al f1 x1 ap]) (auto simp: derives_Rule_single after_single)
  qed
  then have f3: "frees b3" "x < n_rules b3" using x1 grows_n unfolding branched_def by (auto intro: less_le_trans)
  have two: "branched b3 b' x (\<lambda>V. after {escape_of (of_nat c) | c. c \<in> set [0..<256] \<and> bits_has s c \<and> \<not> bits_has ?p c} (V k))"
    unfolding b' by (rule escaped_branches [OF f3]) (use assms(3) b' in simp)
  let ?L1 = "{[c] | c. c \<in> bset_of ?p}"
  let ?L2 = "{escape_of (of_nat c) | c. c \<in> set [0..<256] \<and> bits_has s c \<and> \<not> bits_has ?p c}"
  from branched_trans [OF 1 two x1]
  have "branched b1 b' x (\<lambda>V. after (?L1 \<union> ?L2) (V k))" by (simp only: after_union)
  note mk = branched_rule(1) [OF r assms(2) this]
  have nat: "c = unat (of_nat c :: u8)" if "c < 256" for c using unat_of_nat_u8 [OF that] by simp
  have L2: "?L2 = {escape_of c | c. c \<in> bset_of s \<and> c \<notin> bset_of ?p}"
  proof -
    have "bits_has t c \<longleftrightarrow> of_nat c \<in> bset_of t" if "c < 256" for c t
      using unat_of_nat_u8 [OF that] by (simp add: bset_of_def gset_has_def)
    moreover have "\<exists>n < 256. c = of_nat n" for c :: u8 by (rule exI [of _ "unat c"]) simp
    ultimately show ?thesis by (auto simp del: upt_Suc) metis
  qed
  have "?L1 \<union> ?L2 = in_json ` bset_of s"
    unfolding L2 json_plain_set(1) [OF assms(4)] by (auto simp: in_json_def)
  then show ?thesis using mk by simp
qed


section \<open>A tree\<close>

lemma made_ok: "made b b' x F \<Longrightarrow> frees b' \<and> \<not> gfailed b \<and> n_rules b \<le> n_rules b'"
  by (auto simp: made_def grows_def)

lemma branched_ok: "branched b b' x F \<Longrightarrow> frees b' \<and> \<not> gfailed b \<and> n_rules b \<le> n_rules b'"
  by (auto simp: branched_def grows_def)

text \<open>The rule of a repetition: going on once more or with another rule.\<close>

definition rep_rule :: "(gbuild \<Rightarrow> nat \<times> gbuild) \<Rightarrow> nat \<Rightarrow> nat \<Rightarrow> gbuild \<Rightarrow> gbuild" where
  "rep_rule sub x k b = ref_alt x (Pair k) (ref_alt x sub b)"

lemma rep_rule_made:
  assumes "gb_rule b = (x, b1)" "frees b" "b' = rep_rule sub x k b1" "\<not> gfailed b'"
    and fails: "\<And>b. gfailed b \<Longrightarrow> gfailed (snd (sub b))"
    and sub: "\<And>b1 y b2. frees b1 \<Longrightarrow> sub b1 = (y, b2) \<Longrightarrow> \<not> gfailed b2 \<Longrightarrow> made b1 b2 y F"
  shows "made b b' x (\<lambda>V. F V \<union> V k)"
proof -
  let ?b2 = "ref_alt x sub b1"
  have nf2: "\<not> gfailed ?b2" using assms(3,4) fails_ref_alt [of "Pair k" ?b2 x] by (auto simp: rep_rule_def)
  then have nf1: "\<not> gfailed b1" using fails_ref_alt [of sub b1 x] fails by blast
  note g = good_rule [OF assms(1) assms(2) [unfolded frees_def] nf1]
  have f1: "frees b1" using g(1,3,4) by (simp add: frees_def lessThan_Suc)
  have x1: "x < n_rules b1" "n_rules b < n_rules b1" using g(3,4) by simp_all
  have 1: "branched b1 ?b2 x F" by (rule branched_ref [OF refl f1 x1(1) nf2 fails sub])
  then have x2: "x < n_rules ?b2" "frees ?b2" using branched_ok [OF 1] x1 by auto
  have 2: "branched ?b2 b' x (\<lambda>V. V k)"
  proof (rule branched_ref [of x "Pair k"])
    fix c1 y c2 assume c: "frees c1" "(k, c1) = (y, c2)" "\<not> gfailed c2"
    then show "made c1 c2 y (\<lambda>V. V k)" using made_refl [of c1 k] by simp
  qed (use assms(3,4) x2 in \<open>simp_all add: rep_rule_def\<close>)
  from branched_rule(1) [OF assms(1,2) branched_trans [OF 1 2 x1(1)]] show ?thesis .
qed

definition makes :: "re \<Rightarrow> bool" where
  "makes r \<longleftrightarrow> (\<forall>k b x b'. frees b \<longrightarrow> make r k b = (x, b') \<longrightarrow> \<not> gfailed b' \<longrightarrow> made b b' x (\<lambda>V. after (re_lang r) (V k)))"

lemma make_seq_made:
  "(\<And>r. r \<in> set rs \<Longrightarrow> makes r) \<Longrightarrow> frees b \<Longrightarrow> make_seq rs k b = (x, b') \<Longrightarrow> \<not> gfailed b' \<Longrightarrow>
     made b b' x (\<lambda>V. after (seq_lang rs) (V k))"
proof (induction rs arbitrary: x b')
  case Nil
  then show ?case using made_refl [of b k] by simp
next
  case (Cons r rs)
  obtain y b1 where s: "make_seq rs k b = (y, b1)" by force
  have m: "make r y b1 = (x, b')" using Cons.prems(3) s by simp
  have "\<not> gfailed b1" using fails_make [of b1 r y] m Cons.prems(4) by auto
  then have 1: "made b b1 y (\<lambda>V. after (seq_lang rs) (V k))" using Cons s by simp
  have "made b1 b' x (\<lambda>V. after (re_lang r) (V y))"
    using Cons.prems(1) [of r] m Cons.prems(4) made_ok [OF 1] unfolding makes_def by simp
  from made_trans [OF 1 this] show ?case by simp
qed

lemma fails_make_alts: "gfailed b \<Longrightarrow> gfailed (make_alts rs x k b)"
  by (induction rs arbitrary: b) (simp_all add: fails_ref_alt fails_make)

lemma new_rule: "gb_rule b = (x, b1) \<Longrightarrow> frees b \<Longrightarrow> \<not> gfailed b1 \<Longrightarrow> frees b1 \<and> x < n_rules b1"
  using good_rule [of b x b1 "{..<n_rules b}"] by (simp add: frees_def lessThan_Suc)

lemma make_alts_made:
  "(\<And>r. r \<in> set rs \<Longrightarrow> makes r) \<Longrightarrow> frees b \<Longrightarrow> x < n_rules b \<Longrightarrow> \<not> gfailed (make_alts rs x k b) \<Longrightarrow>
     branched b (make_alts rs x k b) x (\<lambda>V. after (alts_lang rs) (V k))"
proof (induction rs arbitrary: b)
  case Nil
  then show ?case using branched_refl [of b x] by simp
next
  case (Cons r rs)
  let ?b1 = "ref_alt x (make r k) b"
  have nf: "\<not> gfailed ?b1" using Cons.prems(4) fails_make_alts [of ?b1] by auto
  have 1: "branched b ?b1 x (\<lambda>V. after (re_lang r) (V k))"
    by (rule branched_ref [OF refl Cons.prems(2,3) nf])
       (use Cons.prems(1) [of r] fails_make in \<open>auto simp: makes_def\<close>)
  have "branched ?b1 (make_alts rs x k ?b1) x (\<lambda>V. after (alts_lang rs) (V k))"
    using Cons branched_ok [OF 1] by simp
  from branched_trans [OF 1 this Cons.prems(3)] show ?case by (simp add: after_union)
qed

lemma made_cong: "made b b' x F \<Longrightarrow> (\<And>Q. F (rule_lang Q) = G (rule_lang Q)) \<Longrightarrow> made b b' x G"
  by (simp add: made_def)

lemma open_rep_made:
  assumes "gb_rule b = (c, b1)" "frees b" "b' = rep_rule (make r c) c k b1" "\<not> gfailed b'" "makes r" "[] \<notin> re_lang r"
  shows "made b b' c (\<lambda>V. after (\<Union>n. lpow n (re_lang r)) (V k))"
proof -
  have "made b b' c (\<lambda>V. after (re_lang r) (V c) \<union> V k)"
    by (rule rep_rule_made [OF assms(1-4) fails_make]) (use assms(5) in \<open>auto simp: makes_def\<close>)
  then have m: "frees b'" "grows {} b b'"
    "\<And>Q. fixed_in b b' Q \<Longrightarrow> rule_lang Q c = after (re_lang r) (rule_lang Q c) \<union> rule_lang Q k"
    by (auto simp: made_def)
  have "rule_lang Q c = after (\<Union>n. lpow n (re_lang r)) (rule_lang Q k)" if "fixed_in b b' Q" for Q
    unfolding after_UNION by (rule loop_unique [OF m(3) [OF that] assms(6)])
  then show ?thesis using m(1,2) by (simp add: made_def)
qed


lemma after_insert_nil: "after (insert [] A) V = V \<union> after A V"
  using after_union [of "{[]}" A V] by simp

text \<open>The optional repetitions: up to \<open>n\<close> of them.\<close>

lemma opt_reps_made:
  assumes "makes r" "frees b" "fold (\<lambda>i (c, b). let (o', b) = gb_rule b; b = ref_alt o' (make r c) b in (o', ref_alt o' (Pair k) b)) js (k, b) = (c, b')"
    "\<not> gfailed b'"
  shows "made b b' c (\<lambda>V. after (\<Union>n \<in> {..length js}. lpow n (re_lang r)) (V k))"
  using assms(3,4)
proof (induction js arbitrary: c b' rule: rev_induct)
  case Nil
  then show ?case using made_refl [OF assms(2), of k] by simp
next
  case (snoc j js)
  let ?L = "\<Union>n \<in> {..length js}. lpow n (re_lang r)"
  obtain c1 b1 where f: "fold (\<lambda>i (c, b). let (o', b) = gb_rule b; b = ref_alt o' (make r c) b in (o', ref_alt o' (Pair k) b)) js (k, b) = (c1, b1)"
    by force
  obtain b2 where r: "gb_rule b1 = (c, b2)" "b' = rep_rule (make r c1) c k b2"
    using snoc.prems(1) f by (auto simp: rep_rule_def Let_def split: prod.splits)
  have nf2: "\<not> gfailed b2"
    using snoc.prems(2) r(2) fails_ref_alt [of "Pair k" "ref_alt c (make r c1) b2" c] fails_ref_alt [of "make r c1" b2 c] fails_make
    by (auto simp: rep_rule_def)
  then have "\<not> gfailed b1" using fails_rule [of b1] r(1) by auto
  then have 1: "made b b1 c1 (\<lambda>V. after ?L (V k))" using snoc.IH f by simp
  have 2: "made b1 b' c (\<lambda>V. after (re_lang r) (V c1) \<union> V k)"
    by (rule rep_rule_made [OF r(1) _ r(2) snoc.prems(2) fails_make])
       (use made_ok [OF 1] assms(1) in \<open>auto simp: makes_def\<close>)
  have "rule_lang Q c = after (\<Union>n \<in> {..length (js @ [j])}. lpow n (re_lang r)) (rule_lang Q k)" if q: "fixed_in b b' Q" for Q
  proof -
    have g: "grows {} b1 b'" "frees b'" using 2 by (auto simp: made_def)
    have "fixed_in b b1 Q" by (rule fixed_before [OF q g(1) _ g(2)]) (use made_ok [OF 1] in simp_all)
    moreover have "fixed_in b1 b' Q" by (rule fixed_behind [OF q]) (use made_ok [OF 1] in simp)
    ultimately have "rule_lang Q c = after (conc (re_lang r) ?L \<union> {[]}) (rule_lang Q k)"
      using 1 2 by (simp add: made_def after_insert_nil after_conc Un_commute)
    moreover have "conc (re_lang r) ?L \<union> {[]} = (\<Union>n \<in> {..length (js @ [j])}. lpow n (re_lang r))"
      by (simp add: conc_UNION atMost_Suc_eq_insert_0 image_Un)
    ultimately show ?thesis by simp
  qed
  moreover have "grows {} b b'" using 1 2 by (auto simp: made_def intro: grows_trans)
  ultimately show ?case using 2 by (simp add: made_def)
qed

lemma must_reps_made:
  assumes "makes r" "frees b" "fold (\<lambda>i (c, b). make r c b) js (c, b) = (x, b')" "\<not> gfailed b'"
  shows "made b b' x (\<lambda>V. after (lpow (length js) (re_lang r)) (V c))"
  using assms(3,4)
proof (induction js arbitrary: x b' rule: rev_induct)
  case Nil
  then show ?case using made_refl [OF assms(2), of c] by simp
next
  case (snoc j js)
  obtain c1 b1 where f: "fold (\<lambda>i (c, b). make r c b) js (c, b) = (c1, b1)" by force
  have m: "make r c1 b1 = (x, b')" using snoc.prems(1) f by simp
  have "\<not> gfailed b1" using fails_make [of b1 r c1] m snoc.prems(2) by auto
  then have 1: "made b b1 c1 (\<lambda>V. after (lpow (length js) (re_lang r)) (V c))" using snoc.IH f by simp
  have "made b1 b' x (\<lambda>V. after (re_lang r) (V c1))"
    using assms(1) m snoc.prems(2) made_ok [OF 1] unfolding makes_def by simp
  from made_trans [OF 1 this] show ?case by simp
qed

lemma reps_union:
  "conc (lpow lo A) (\<Union>n. lpow n A) = (\<Union>n \<in> {n. lo \<le> n}. lpow n A)"
  "lo \<le> hi \<Longrightarrow> conc (lpow lo A) (\<Union>n \<in> {..hi - lo}. lpow n A) = (\<Union>n \<in> {n. lo \<le> n \<and> n \<le> hi}. lpow n A)"
proof -
  have "(\<Union>n. lpow (lo + n) A) = (\<Union>n \<in> {n. lo \<le> n}. lpow n A)"
    by (auto simp: le_iff_add)
  then show "conc (lpow lo A) (\<Union>n. lpow n A) = (\<Union>n \<in> {n. lo \<le> n}. lpow n A)"
    by (simp add: conc_UNION lpow_add)
  assume "lo \<le> hi"
  then have "(\<lambda>n. lo + n) ` {..hi - lo} = {n. lo \<le> n \<and> n \<le> hi}"
    by (auto simp: image_iff le_iff_add)
  then have "(\<Union>n \<in> {n. lo \<le> n \<and> n \<le> hi}. lpow n A) = (\<Union>n \<in> (\<lambda>n. lo + n) ` {..hi - lo}. lpow n A)"
    by simp
  then have "(\<Union>n \<in> {n. lo \<le> n \<and> n \<le> hi}. lpow n A) = (\<Union>n \<in> {..hi - lo}. lpow (lo + n) A)"
    unfolding image_image .
  then show "conc (lpow lo A) (\<Union>n \<in> {..hi - lo}. lpow n A) = (\<Union>n \<in> {n. lo \<le> n \<and> n \<le> hi}. lpow n A)"
    by (simp add: conc_UNION lpow_add)
qed

lemma make_made: "wf_re r \<Longrightarrow> \<not> loops_empty r \<Longrightarrow> makes r"
proof (induction r)
  case (RE_SET s)
  then show ?case unfolding makes_def by (auto intro: make_set_made)
next
  case (RE_SEQ kids)
  then have "makes r" if "r \<in> set kids" for r using that by (auto simp: list_all_iff list_ex_iff)
  then show ?case unfolding makes_def [of "RE_SEQ kids"] by (auto intro: make_seq_made)
next
  case (RE_ALT kids)
  then have kids: "makes r" if "r \<in> set kids" for r using that by (auto simp: list_all_iff list_ex_iff)
  show ?case
  proof (cases "\<exists>r. kids = [r]")
    case True
    then show ?thesis using kids by (auto simp: makes_def)
  next
    case False
    show ?thesis unfolding makes_def
    proof (intro allI impI)
      fix k b x b' assume b: "frees b" "make (RE_ALT kids) k b = (x, b')" "\<not> gfailed b'"
      obtain b1 where r: "gb_rule b = (x, b1)" "b' = make_alts kids x k b1"
        using b(2) False by (auto simp del: make_alts.simps split: list.splits prod.splits)
      have "\<not> gfailed b1" using b(3) r(2) fails_make_alts by blast
      then have "branched b1 b' x (\<lambda>V. after (alts_lang kids) (V k))"
        using make_alts_made [OF kids] new_rule [OF r(1) b(1)] b(3) unfolding r(2) by blast
      from branched_rule(1) [OF r(1) b(1) this] show "made b b' x (\<lambda>V. after (re_lang (RE_ALT kids)) (V k))" by simp
    qed
  qed
next
  case (RE_REP lo hi r)
  then have mk: "makes r" and wf: "wf_re r" "hi < 0 \<or> int lo \<le> hi" by auto
  show ?case unfolding makes_def
  proof (intro allI impI)
    fix k b x b' assume b: "frees b" "make (RE_REP lo hi r) k b = (x, b')" "\<not> gfailed b'"
    let ?must = "fold (\<lambda>i (c, b). make r c b) [0..<lo]"
    have must: "made b b' x (\<lambda>V. after (conc (lpow lo (re_lang r)) L) (V k))"
      if "?must (c, b1) = (x, b')" "frees b \<Longrightarrow> \<not> gfailed b1 \<Longrightarrow> made b b1 c (\<lambda>V. after L (V k))" for c b1 L
    proof -
      have "gfailed (snd (?must (c, b1)))" if "gfailed b1"
        by (rule fold_invariant_list) (use that fails_make in auto)
      then have 1: "made b b1 c (\<lambda>V. after L (V k))" using that b(1,3) by auto
      from made_trans [OF 1 must_reps_made [OF mk _ that(1) b(3)]] show ?thesis using made_ok [OF 1] by simp
    qed
    show "made b b' x (\<lambda>V. after (re_lang (RE_REP lo hi r)) (V k))"
    proof (cases "hi < 0")
      case True
      obtain c b1 where r: "gb_rule b = (c, b1)" by force
      have "made b b' x (\<lambda>V. after (conc (lpow lo (re_lang r)) (\<Union>n. lpow n (re_lang r))) (V k))"
      proof (rule must)
        show "?must (c, rep_rule (make r c) c k b1) = (x, b')"
          using b(2) True r by (simp add: rep_rule_def Let_def)
        assume "\<not> gfailed (rep_rule (make r c) c k b1)"
        then show "made b (rep_rule (make r c) c k b1) c (\<lambda>V. after (\<Union>n. lpow n (re_lang r)) (V k))"
          using RE_REP.prems True wf(1) by (intro open_rep_made [OF r b(1) refl _ mk]) (auto simp: nullable_lang)
      qed
      then show ?thesis using True by (simp add: reps_union)
    next
      case False
      then have hi: "lo \<le> nat hi" "{n. lo \<le> n \<and> n \<le> nat hi} = {n. lo \<le> n \<and> (hi < 0 \<or> int n \<le> hi)}"
        using wf by auto
      let ?opt = "fold (\<lambda>i (c, b). let (o', b) = gb_rule b; b = ref_alt o' (make r c) b in (o', ref_alt o' (Pair k) b)) [lo..<nat hi] (k, b)"
      obtain c b1 where f: "?opt = (c, b1)" by force
      have "made b b' x (\<lambda>V. after (conc (lpow lo (re_lang r)) (\<Union>n \<in> {..nat hi - lo}. lpow n (re_lang r))) (V k))"
      proof (rule must)
        show "?must (c, b1) = (x, b')" using b(2) False f by (simp add: Let_def)
        assume "\<not> gfailed b1"
        from opt_reps_made [OF mk b(1) f this]
        show "made b b1 c (\<lambda>V. after (\<Union>n \<in> {..nat hi - lo}. lpow n (re_lang r)) (V k))" by simp
      qed
      then show ?thesis unfolding reps_union(2) [OF hi(1)] hi(2) by simp
    qed
  qed
qed

end
