(* ===== verification/Schema_Re_Parse.thy ===== *)
theory Schema_Re_Parse
  imports Schema_Re_Lang
begin

text \<open>
  The reader of \<open>Schema_Re\<close>: it ends, on fuel of six times the length of the text and six more,
  and what it gives is a tree whose sets have 32 bytes and whose bounds are in order, so the rule
  that \<open>janas_jsg_regex\<close> makes matches the tree's language.
\<close>

section \<open>Parts of the text\<close>

lemma class_escape_length: "class_escape c s = (s', ok) \<Longrightarrow> length s = 32 \<Longrightarrow> length s' = 32"
proof -
  have inv: "length (set_invert t) = 32" if "length t = 32" for t using set_invert_nth [OF that] by simp
  have low: "length (lower_class c t) = length t" for c t by (simp add: lower_class_def)
  show "class_escape c s = (s', ok) \<Longrightarrow> length s = 32 \<Longrightarrow> length s' = 32"
    by (auto simp: class_escape_def set_or_def inv low split: if_splits)
qed

lemma class_range_set: "class_range c ok st s = (ok', st', s') \<Longrightarrow> length st' = length st"
  by (auto simp: class_range_def Let_def split: if_splits prod.splits)

lemma members_Cons:
  "class_members first ok st (c # cs) =
     (if c = 0x5d \<and> \<not> first then (ok, st, c # cs)
      else if c = 0x5c \<and> cs \<noteq> [] then
        if among (hd cs) ''dwsDWS'' then
          let (st, fine) = class_escape (hd cs) st in class_members False (ok \<and> fine) st (tl cs)
        else
          let (c, fine) = class_byte (hd cs); (ok, st, s) = class_range c (ok \<and> fine) st (tl cs)
          in class_members False ok st s
      else let (ok, st, s) = class_range c ok st cs in class_members False ok st s)"
  by (subst class_members.simps) (simp add: Let_def)

lemma class_members_ok:
  "class_members first ok st s = (ok', st', s') \<Longrightarrow> length st = 32 \<Longrightarrow> length st' = 32 \<and> length s' \<le> length s"
proof (induction first ok st s arbitrary: ok' st' s' rule: class_members.induct)
  case (1 first ok st s)
  show ?case
  proof (cases s)
    case Nil
    then show ?thesis using "1.prems" by (simp add: class_members.simps [of first ok st "[]"])
  next
    case (Cons c cs)
    consider "c = 0x5d \<and> \<not> first"
      | "\<not> (c = 0x5d \<and> \<not> first)" "c = 0x5c \<and> cs \<noteq> []" "among (hd cs) ''dwsDWS''"
      | "\<not> (c = 0x5d \<and> \<not> first)" "c = 0x5c \<and> cs \<noteq> []" "\<not> among (hd cs) ''dwsDWS''"
      | "\<not> (c = 0x5d \<and> \<not> first)" "\<not> (c = 0x5c \<and> cs \<noteq> [])" by blast
    then show ?thesis
    proof cases
      case 1
      then have "class_members first ok st (c # cs) = (ok, st, c # cs)" by (simp add: members_Cons)
      then show ?thesis using "1.prems" Cons by simp
    next
      case 2
      obtain st1 fine where e: "class_escape (hd cs) st = (st1, fine)" by force
      have "class_members False (ok \<and> fine) st1 (tl cs) = (ok', st', s')"
        using "1.prems"(1) Cons 2 e by (simp add: members_Cons Let_def)
      then have "length st' = 32 \<and> length s' \<le> length (tl cs)"
        using "1.IH"(1) [OF Cons 2(1,2) refl refl 2(3) e [symmetric] refl] class_escape_length [OF e "1.prems"(2)] by auto
      then show ?thesis using Cons by auto
    next
      case 3
      obtain c1 fine where e: "class_byte (hd cs) = (c1, fine)" by force
      obtain ok1 st1 s1 where r: "class_range c1 (ok \<and> fine) st (tl cs) = (ok1, st1, s1)" by (metis prod_cases3)
      have "class_members False ok1 st1 s1 = (ok', st', s')"
        using "1.prems"(1) Cons 3 e r by (simp add: members_Cons Let_def)
      then have "length st' = 32 \<and> length s' \<le> length s1"
        using "1.IH"(2) [OF Cons 3(1,2) refl refl 3(3) e [symmetric] refl r [symmetric] refl refl] class_range_set [OF r] "1.prems"(2) by auto
      then show ?thesis using Cons class_range_tl [OF r] by auto
    next
      case 4
      obtain ok1 st1 s1 where r: "class_range c ok st cs = (ok1, st1, s1)" by (metis prod_cases3)
      have "class_members False ok1 st1 s1 = (ok', st', s')"
        using "1.prems"(1) Cons 4 r by (simp add: members_Cons Let_def)
      then have "length st' = 32 \<and> length s' \<le> length s1"
        using "1.IH"(3) [OF Cons 4(1,2) r [symmetric] refl refl] class_range_set [OF r] "1.prems"(2) by auto
      then show ?thesis using Cons class_range_tl [OF r] by auto
    qed
  qed
qed

text \<open>What a reading gives: no more text than \<open>n\<close> bytes left, and a tree that is well formed.\<close>

definition reads :: "nat \<Rightarrow> re option \<times> parser \<Rightarrow> bool" where
  "reads n rp \<longleftrightarrow> length (ps_p (snd rp)) \<le> n \<and> (\<forall>t. fst rp = Some t \<longrightarrow> wf_re t)"

lemma reads_None [simp]: "reads n (None, ps) \<longleftrightarrow> length (ps_p ps) \<le> n"
  by (simp add: reads_def)

lemma reads_Some [simp]: "reads n (Some t, ps) \<longleftrightarrow> length (ps_p ps) \<le> n \<and> wf_re t"
  by (simp add: reads_def)

lemma re_request_text: "re_request ps = (ok, ps') \<Longrightarrow> ps_p ps' = ps_p ps"
  by (auto simp: re_request_def split: prod.splits)

lemma parse_class_reads: "reads (length (ps_p ps)) (parse_class ps)"
proof -
  obtain g ps1 where r: "re_request ps = (g, ps1)" by force
  let ?s = "if ps_p ps1 \<noteq> [] \<and> hd (ps_p ps1) = 0x5e then tl (ps_p ps1) else ps_p ps1"
  obtain ok st s where m: "class_members True True set_clear ?s = (ok, st, s)" by (metis prod_cases3)
  have p: "ps_p ps1 = ps_p ps" by (rule re_request_text [OF r])
  have "length st = 32" "length s \<le> length ?s" using class_members_ok [OF m] by simp_all
  moreover have "length ?s \<le> length (ps_p ps)" using p by auto
  moreover have "length (set_invert st) = 32" using set_invert_nth [OF calculation(1)] by simp
  ultimately show ?thesis using r m p by (auto simp: parse_class_def Let_def split: if_splits)
qed

lemma single_reads: "reads (length (ps_p ps)) (single c ps)"
proof -
  obtain g ps1 where r: "re_request ps = (g, ps1)" by force
  obtain st ok where e: "class_escape (hd (ps_p ps1)) set_clear = (st, ok)" by force
  have "length st = 32" by (rule class_escape_length [OF e]) simp
  then show ?thesis using r e re_request_text [OF r] by (auto simp: single_def Let_def)
qed

lemma braces_bounds: "braces s = Some (lo, hi, s') \<Longrightarrow> hi < 0 \<or> int lo \<le> hi"
  by (auto simp: braces_def Let_def split: option.splits if_splits)

lemma operator_bounds_ok: "operator_bounds q s = Some (lo, hi, s') \<Longrightarrow> hi < 0 \<or> int lo \<le> hi"
  by (auto simp: operator_bounds_def dest: braces_bounds split: if_splits)

lemma repeats_reads: "wf_re a \<Longrightarrow> length (ps_p ps) \<le> n \<Longrightarrow> reads n (repeats a ps)"
proof (induction a ps rule: repeats.induct)
  case (1 a ps)
  show ?case
  proof (cases "ps_p ps")
    case Nil
    then show ?thesis using 1 by (simp add: repeats.simps [of a ps])
  next
    case (Cons q s)
    show ?thesis
    proof (cases "\<not> among q ''*+?{'' \<or> operator_bounds q s = None")
      case True
      then show ?thesis using "1.prems" Cons by (auto simp: repeats.simps [of a ps])
    next
      case False
      then obtain lo hi s1 where o: "among q ''*+?{''" "operator_bounds q s = Some (lo, hi, s1)" by auto
      let ?s = "if s1 \<noteq> [] \<and> hd s1 = 0x3f then tl s1 else s1"
      obtain g1 ps1 where r1: "re_request (ps\<lparr>ps_p := ?s\<rparr>) = (g1, ps1)" by force
      obtain g2 ps2 where r2: "re_request ps1 = (g2, ps2)" by force
      have len: "length ?s \<le> length s" using operator_bounds_length [OF o(2)] by auto
      have p: "ps_p ps2 = ?s" "ps_p ps1 = ?s" using re_request_text [OF r1] re_request_text [OF r2] by simp_all
      have eq: "repeats a ps = (if g1 \<and> g2 then repeats (RE_REP lo hi a) ps2 else (None, if g1 then ps2 else ps1))"
        using Cons o r1 r2 by (simp add: repeats.simps [of a ps] Let_def)
      show ?thesis
      proof (cases "g1 \<and> g2")
        case True
        have "reads n (repeats (RE_REP lo hi a) ps2)"
          using 1(1) [OF Cons _ o(2) refl refl refl refl r1 [symmetric] _ r2 [symmetric]] o(1) True "1.prems" Cons len p
            operator_bounds_ok [OF o(2)] by simp
        then show ?thesis using eq True by simp
      next
        case False
        then show ?thesis using eq p len "1.prems" Cons by auto
      qed
    qed
  qed
qed


section \<open>The fuel is enough\<close>

definition ends :: "nat \<Rightarrow> (re option \<times> parser) option \<Rightarrow> bool" where
  "ends n res \<longleftrightarrow> (\<exists>rp. res = Some rp \<and> reads n rp)"

lemma ends_Some [simp]: "ends n (Some rp) \<longleftrightarrow> reads n rp"
  by (simp add: ends_def)

lemma reads_mono: "reads m rp \<Longrightarrow> m \<le> n \<Longrightarrow> reads n rp"
  by (auto simp: reads_def)

lemma add_kid_ok:
  assumes "reads n kp" "list_all wf_re kids" "add_kid kids kp = (ks, ps)"
  shows "length (ps_p ps) \<le> n" "\<And>kids'. ks = Some kids' \<Longrightarrow> list_all wf_re kids'"
  using assms by (auto simp: add_kid_def dest!: re_request_text split: prod.splits option.splits if_splits)

lemma parse_enough:
  "(\<forall>ps. ps_p ps \<noteq> [] \<and> 6 * length (ps_p ps) \<le> f \<longrightarrow> ends (length (ps_p ps) - 1) (parse_atom f ps)) \<and>
   (\<forall>ps. ps_p ps \<noteq> [] \<and> 6 * length (ps_p ps) + 1 \<le> f \<longrightarrow> ends (length (ps_p ps) - 1) (parse_rep f ps)) \<and>
   (\<forall>ps kids. list_all wf_re kids \<and> 6 * length (ps_p ps) + 2 \<le> f \<longrightarrow> ends (length (ps_p ps)) (seq_kids f kids ps)) \<and>
   (\<forall>ps. 6 * length (ps_p ps) + 3 \<le> f \<longrightarrow> ends (length (ps_p ps)) (parse_seq f ps)) \<and>
   (\<forall>ps kids. list_all wf_re kids \<and> 6 * length (ps_p ps) + 4 \<le> f \<longrightarrow> ends (length (ps_p ps)) (alt_kids f kids ps)) \<and>
   (\<forall>ps. 6 * length (ps_p ps) + 5 \<le> f \<longrightarrow> ends (length (ps_p ps)) (parse_alt f ps))"
proof (induction f)
  case 0
  then show ?case by auto
next
  case (Suc f)
  have atom: "ends (length (ps_p ps) - 1) (parse_atom f ps)" if "ps_p ps \<noteq> []" "6 * length (ps_p ps) \<le> f" for ps
    using Suc that by blast
  have rep: "ends (length (ps_p ps) - 1) (parse_rep f ps)" if "ps_p ps \<noteq> []" "6 * length (ps_p ps) + 1 \<le> f" for ps
    using Suc that by blast
  have sk: "ends (length (ps_p ps)) (seq_kids f kids ps)" if "list_all wf_re kids" "6 * length (ps_p ps) + 2 \<le> f" for ps kids
    using Suc that by blast
  have sq: "ends (length (ps_p ps)) (parse_seq f ps)" if "6 * length (ps_p ps) + 3 \<le> f" for ps
    using Suc that by blast
  have ak: "ends (length (ps_p ps)) (alt_kids f kids ps)" if "list_all wf_re kids" "6 * length (ps_p ps) + 4 \<le> f" for ps kids
    using Suc that by blast
  have al: "ends (length (ps_p ps)) (parse_alt f ps)" if "6 * length (ps_p ps) + 5 \<le> f" for ps
    using Suc that by blast
  show ?case
  proof (intro conjI allI impI)
    fix ps :: parser assume p: "ps_p ps \<noteq> [] \<and> 6 * length (ps_p ps) \<le> Suc f"
    let ?s = "tl (ps_p ps)"
    have n: "length ?s = length (ps_p ps) - 1" "0 < length (ps_p ps)" using p by auto
    let ?ps = "ps\<lparr>ps_p := group_text ?s\<rparr>"
    have le: "length (ps_p ?ps) \<le> length ?s" by (auto simp: group_text_def)
    have "ends (length (ps_p ?ps)) (parse_alt f ?ps)" by (rule al) (use le n p in linarith)
    then obtain r ps1 where r: "parse_alt f ?ps = Some (r, ps1)" "reads (length (ps_p ?ps)) (r, ps1)" by (auto simp: ends_def)
    let ?ret = "if r = None \<or> ps_p ps1 = [] \<or> hd (ps_p ps1) \<noteq> 0x29 then (None, ps1) else (r, ps1\<lparr>ps_p := tl (ps_p ps1)\<rparr>)"
    have "reads (length ?s) ?ret" using r(2) le by (auto simp: reads_def)
    moreover have "reads (length ?s) (parse_class (ps\<lparr>ps_p := ?s\<rparr>))" "reads (length ?s) (single c (ps\<lparr>ps_p := ?s\<rparr>))" for c
      using parse_class_reads [of "ps\<lparr>ps_p := ?s\<rparr>"] single_reads [of "ps\<lparr>ps_p := ?s\<rparr>" c] by simp_all
    moreover have "parse_atom (Suc f) ps =
        Some (if hd (ps_p ps) = 0x28 then ?ret else if hd (ps_p ps) = 0x5b then parse_class (ps\<lparr>ps_p := ?s\<rparr>)
              else single (hd (ps_p ps)) (ps\<lparr>ps_p := ?s\<rparr>))"
      using r(1) by (simp add: Let_def)
    ultimately show "ends (length (ps_p ps) - 1) (parse_atom (Suc f) ps)" using n by (simp only: ends_Some split: if_split) simp
  next
    fix ps :: parser assume p: "ps_p ps \<noteq> [] \<and> 6 * length (ps_p ps) + 1 \<le> Suc f"
    then obtain a ps1 where a: "parse_atom f ps = Some (a, ps1)" "reads (length (ps_p ps) - 1) (a, ps1)"
      using atom [of ps] by (auto simp: ends_def)
    then show "ends (length (ps_p ps) - 1) (parse_rep (Suc f) ps)"
      by (cases a) (simp_all add: repeats_reads)
  next
    fix ps :: parser and kids assume p: "list_all wf_re kids \<and> 6 * length (ps_p ps) + 2 \<le> Suc f"
    show "ends (length (ps_p ps)) (seq_kids (Suc f) kids ps)"
    proof (cases "ps_p ps \<noteq> [] \<and> hd (ps_p ps) \<noteq> 0x7c \<and> hd (ps_p ps) \<noteq> 0x29")
      case True
      then have n: "0 < length (ps_p ps)" by simp
      obtain kp where k: "parse_rep f ps = Some kp" "reads (length (ps_p ps) - 1) kp"
        using rep [of ps] True p by (auto simp: ends_def)
      obtain ks ps1 where a: "add_kid kids kp = (ks, ps1)" by force
      note ok = add_kid_ok [OF k(2) conjunct1 [OF p] a]
      have "ends (length (ps_p ps)) (seq_kids f kids' ps1)" if "ks = Some kids'" for kids'
      proof -
        have "ends (length (ps_p ps1)) (seq_kids f kids' ps1)"
          by (rule sk [OF ok(2) [OF that]]) (use ok(1) n p in linarith)
        then show ?thesis using ok(1) n reads_mono by (auto simp: ends_def)
      qed
      then show ?thesis using True k a ok(1) n by (auto split: option.splits)
    qed (use p in auto)
  next
    fix ps :: parser assume p: "6 * length (ps_p ps) + 3 \<le> Suc f"
    obtain g ps1 where r: "re_request ps = (g, ps1)" by force
    then show "ends (length (ps_p ps)) (parse_seq (Suc f) ps)"
      using sk [of "[]" ps1] p re_request_text [OF r] by simp
  next
    fix ps :: parser and kids assume p: "list_all wf_re kids \<and> 6 * length (ps_p ps) + 4 \<le> Suc f"
    obtain kp where k: "parse_seq f ps = Some kp" "reads (length (ps_p ps)) kp"
      using sq [of ps] p by (auto simp: ends_def)
    obtain ks ps1 where a: "add_kid kids kp = (ks, ps1)" by force
    note ok = add_kid_ok [OF k(2) conjunct1 [OF p] a]
    have "ends (length (ps_p ps)) (alt_kids f kids' (ps1\<lparr>ps_p := tl (ps_p ps1)\<rparr>))" if "ks = Some kids'" "ps_p ps1 \<noteq> []" for kids'
    proof -
      have n: "length (tl (ps_p ps1)) < length (ps_p ps1)" using that(2) by simp
      have "ends (length (tl (ps_p ps1))) (alt_kids f kids' (ps1\<lparr>ps_p := tl (ps_p ps1)\<rparr>))"
        using ak [OF ok(2) [OF that(1)], of "ps1\<lparr>ps_p := tl (ps_p ps1)\<rparr>"] ok(1) n p by simp
      then show ?thesis using ok(1) n reads_mono by (fastforce simp: ends_def)
    qed
    then show "ends (length (ps_p ps)) (alt_kids (Suc f) kids ps)"
      using k a ok by (auto split: option.splits)
  next
    fix ps :: parser assume p: "6 * length (ps_p ps) + 5 \<le> Suc f"
    obtain g ps1 where r: "re_request ps = (g, ps1)" by force
    then show "ends (length (ps_p ps)) (parse_alt (Suc f) ps)"
      using ak [of "[]" ps1] p re_request_text [OF r] by simp
  qed
qed

lemma parse_text_ends: "ends (length s) (parse_text s m)"
proof -
  have "\<forall>ps. 6 * length (ps_p ps) + 5 \<le> 6 * length s + 6 \<longrightarrow> ends (length (ps_p ps)) (parse_alt (6 * length s + 6) ps)"
    using parse_enough [of "6 * length s + 6"] by blast
  from spec [OF this, of "\<lparr>ps_p = s, ps_mem = m\<rparr>"] show ?thesis by (simp add: parse_text_def del: parse_alt.simps)
qed


section \<open>The rule of an expression\<close>

lemma known_frees: "gb_inv b \<Longrightarrow> rules_known b \<Longrightarrow> frees b"
  by (simp add: frees_def good_def settled_def closed_rules_def)

lemma frees_mem: "frees (b\<lparr>gmem := m\<rparr>) = frees b" "gfailed (b\<lparr>gmem := m\<rparr>) = gfailed b"
  "made (b\<lparr>gmem := m\<rparr>) b' x F = made b b' x F"
  by (simp_all add: frees_def good_def gb_inv_def rules_known_def settled_def aprods_def gprods_def
      made_def grows_def fixed_in_def)

lemma regex_made:
  assumes "frees b" and "jsg_regex expr k b = Some (x, b')" and "x \<noteq> NO_REF" and "\<not> gfailed b'"
  obtains t ps where "parse_text expr (gmem b) = Some (Some t, ps)" "ps_p ps = []" "wf_re t" "\<not> loops_empty t"
    "made b b' x (\<lambda>V. after (re_lang t) (V k))"
proof -
  obtain r ps where p: "parse_text expr (gmem b) = Some (r, ps)" "reads (length expr) (r, ps)"
    using parse_text_ends [of expr "gmem b"] by (auto simp: ends_def)
  obtain t where t: "r = Some t" "ps_p ps = []" "\<not> loops_empty t" "make t k (b\<lparr>gmem := ps_mem ps\<rparr>) = (x, b')"
    using assms(2,3) p(1) by (cases r) (auto simp: jsg_regex_def Let_def split: if_splits)
  have wf: "wf_re t" using p(2) t(1) by simp
  have "made b b' x (\<lambda>V. after (re_lang t) (V k))"
    using make_made [OF wf t(3)] assms(1,4) t(4) unfolding makes_def by (metis frees_mem(1,3))
  then show thesis using that p(1) t wf by blast
qed

lemma fails_regex: "jsg_regex expr k b = Some (x, b') \<Longrightarrow> gfailed b \<Longrightarrow> gfailed b'"
  using fails_make [of "b\<lparr>gmem := m\<rparr>" for m]
  by (auto simp: jsg_regex_def Let_def bind_eq_Some_conv split: option.splits if_splits) (metis frees_mem(2) snd_conv)

section \<open>When every request is granted\<close>

definition keeps :: "gbuild \<Rightarrow> gbuild \<Rightarrow> bool" where
  "keeps b b' \<longleftrightarrow> roomy b' \<and> length (alts b) \<le> length (alts b')"

lemma keeps_trans: "keeps b b1 \<Longrightarrow> keeps b1 b2 \<Longrightarrow> keeps b b2"
  by (auto simp: keeps_def)

lemma keeps_rule: "roomy b \<Longrightarrow> keeps b (snd (gb_rule b))"
  by (simp add: keeps_def gb_rule_def roomy_def)

lemma keeps_lit: "roomy b \<Longrightarrow> a < length (alts b) \<Longrightarrow> keeps b (gb_lit a s b)"
  unfolding gb_lit_def
proof (induction s arbitrary: b)
  case (Cons c s)
  note g = gb_byte_granted [OF Cons.prems, of c]
  have "keeps (gb_byte a c b) (fold (gb_byte a) s (gb_byte a c b))" using Cons.IH g Cons.prems by simp
  then show ?case using g by (simp add: keeps_def)
qed (simp add: keeps_def)

lemma keeps_ref_alt:
  assumes "roomy b" and "\<And>b. roomy b \<Longrightarrow> keeps b (snd (sub b))"
  shows "keeps b (ref_alt x sub b)"
proof -
  obtain a b1 where al: "gb_alt x b = (a, b1)" by force
  obtain y b2 where sb: "sub b1 = (y, b2)" by force
  note g = gb_alt_granted [OF assms(1) al]
  have k: "keeps b1 b2" using assms(2) [of b1] g sb by simp
  then have "roomy b2" "a < length (alts b2)" using g by (auto simp: keeps_def)
  from gb_ref_granted [OF this, of y] show ?thesis using al sb g k by (simp add: ref_alt_def keeps_def)
qed

lemma keeps_fold: "roomy b \<Longrightarrow> (\<And>x b. roomy b \<Longrightarrow> keeps b (f x b)) \<Longrightarrow> keeps b (fold f xs b)"
proof (induction xs arbitrary: b)
  case (Cons x xs)
  have "keeps b (f x b)" "roomy (f x b)" using Cons.prems by (auto simp: keeps_def)
  then show ?case using Cons.IH [of "f x b"] Cons.prems(2) keeps_trans by simp
qed (simp add: keeps_def)

lemma keeps_fold2:
  "roomy (snd st) \<Longrightarrow> (\<And>x c b. roomy b \<Longrightarrow> keeps b (snd (f x (c, b)))) \<Longrightarrow> keeps (snd st) (snd (fold f xs st))"
proof (induction xs arbitrary: st)
  case (Cons x xs)
  have "keeps (snd st) (snd (f x st))" using Cons.prems(2) [OF Cons.prems(1), of x "fst st"] by simp
  then show ?case using Cons.IH [of "f x st"] Cons.prems(2) keeps_trans by (simp add: keeps_def)
qed (simp add: keeps_def)

lemma keeps_escaped: "roomy b \<Longrightarrow> keeps b (escaped_byte s plain x k c b)"
proof -
  assume b: "roomy b"
  obtain a b1 where al: "gb_alt x b = (a, b1)" by force
  note g = gb_alt_granted [OF b al]
  have l: "keeps b1 (gb_lit a (escape_of (of_nat c)) b1)" using g by (intro keeps_lit) simp_all
  then have "keeps b1 (gb_ref a k (gb_lit a (escape_of (of_nat c)) b1))"
    using gb_ref_granted [of "gb_lit a (escape_of (of_nat c)) b1" a k] g by (simp add: keeps_def)
  then show ?thesis using b al g by (auto simp: escaped_byte_def keeps_def)
qed

lemma keeps_make_set: "roomy b \<Longrightarrow> keeps b (snd (make_set s k b))"
proof -
  assume b: "roomy b"
  obtain x b1 where r: "gb_rule b = (x, b1)" by force
  obtain a b2 where al: "gb_alt x b1 = (a, b2)" by force
  have 1: "keeps b b1" using keeps_rule [OF b] r by simp
  then have b1: "roomy b1" by (simp add: keeps_def)
  note g = gb_alt_granted [OF b1 al]
  note st = gb_set_granted [of b2 a "json_plain s"]
  have "keeps b1 (gb_ref a k (gb_set a (json_plain s) b2))"
    using gb_ref_granted [of "gb_set a (json_plain s) b2" a k] g st by (simp add: keeps_def)
  then have "keeps b1 (if \<not> set_empty (json_plain s) then gb_ref a k (gb_set a (json_plain s) b2) else b1)"
    using b1 by (simp add: keeps_def)
  moreover have "roomy b3 \<Longrightarrow> keeps b3 (fold (escaped_byte s (json_plain s) x k) [0..<256] b3)" for b3
    by (rule keeps_fold) (auto intro: keeps_escaped)
  ultimately have "keeps b1 (fold (escaped_byte s (json_plain s) x k) [0..<256]
      (if \<not> set_empty (json_plain s) then gb_ref a k (gb_set a (json_plain s) b2) else b1))"
    using keeps_trans unfolding keeps_def by (meson le_trans)
  then have "keeps b1 (snd (make_set s k b))"
    using r al by (cases "set_empty (json_plain s)") (simp_all add: make_set_def Let_def del: upt_Suc)
  with 1 show ?thesis by (rule keeps_trans)
qed

lemma keeps_make: "roomy b \<Longrightarrow> keeps b (snd (make r k b))"
proof (induction r arbitrary: k b)
  case (RE_SET s)
  then show ?case by (simp add: keeps_make_set)
next
  case (RE_SEQ kids)
  then show ?case
  proof (induction kids arbitrary: k b)
    case (Cons r rs)
    obtain y b1 where s: "make_seq rs k b = (y, b1)" by force
    have 1: "keeps b b1" using Cons.IH [of b k] Cons.prems s by simp
    then have "keeps b1 (snd (make r y b1))" using Cons.prems(1) [of r] by (simp add: keeps_def)
    with 1 have "keeps b (snd (make r y b1))" by (rule keeps_trans)
    then show ?case using s by simp
  qed (simp add: keeps_def)
next
  case (RE_ALT kids)
  have alts: "keeps b (make_alts rs x k b)" if "set rs \<subseteq> set kids" "roomy b" for rs x b
    using that
  proof (induction rs arbitrary: b)
    case (Cons r rs)
    have 1: "keeps b (ref_alt x (make r k) b)" using Cons.prems RE_ALT.IH by (intro keeps_ref_alt) auto
    then have "keeps (ref_alt x (make r k) b) (make_alts rs x k (ref_alt x (make r k) b))"
      using Cons by (simp add: keeps_def)
    then show ?case using keeps_trans [OF 1] by simp
  qed (simp add: keeps_def)
  have "keeps b (make_alts kids (n_rules b) k (snd (gb_rule b)))"
    using keeps_trans [OF keeps_rule [OF RE_ALT.prems] alts] keeps_rule [OF RE_ALT.prems] by (simp add: keeps_def)
  then show ?case using RE_ALT by (auto simp: gb_rule_def simp del: make_alts.simps split: list.splits)
next
  case (RE_REP lo hi r)
  have rep: "keeps b (rep_rule (make r c) x k b)" if b: "roomy b" for c x b
  proof -
    have 1: "keeps b (ref_alt x (make r c) b)" by (rule keeps_ref_alt [OF b RE_REP.IH])
    then have "keeps (ref_alt x (make r c) b) (rep_rule (make r c) x k b)"
      unfolding rep_rule_def by (intro keeps_ref_alt) (simp_all add: keeps_def)
    with 1 show ?thesis by (rule keeps_trans)
  qed
  have new: "keeps b (rep_rule (make r c) (fst (gb_rule b)) k (snd (gb_rule b)))" if b: "roomy b" for c b
    using keeps_trans [OF keeps_rule [OF b] rep] keeps_rule [OF b] by (simp add: keeps_def)
  define st where "st = (if hi < 0 then (let (c, b) = gb_rule b; b = ref_alt c (make r c) b in (c, ref_alt c (Pair k) b))
    else fold (\<lambda>i (c, b). let (o', b) = gb_rule b; b = ref_alt o' (make r c) b in (o', ref_alt o' (Pair k) b)) [lo..<nat hi] (k, b))"
  have opt: "keeps b (snd (fold (\<lambda>i (c, b). let (o', b) = gb_rule b; b = ref_alt o' (make r c) b in (o', ref_alt o' (Pair k) b)) [lo..<nat hi] (k, b)))"
    using keeps_fold2 [where st = "(k, b)" and f = "\<lambda>i (c, b). let (o', b) = gb_rule b; b = ref_alt o' (make r c) b in (o', ref_alt o' (Pair k) b)"]
      RE_REP.prems new by (simp add: rep_rule_def Let_def split_beta)
  have 1: "keeps b (snd st)"
    using opt new [OF RE_REP.prems] by (simp add: st_def rep_rule_def Let_def split_beta)
  then have "keeps (snd st) (snd (fold (\<lambda>i (c, b). make r c b) [0..<lo] st))"
    using RE_REP.IH by (intro keeps_fold2) (auto simp: keeps_def)
  with 1 have "keeps b (snd (fold (\<lambda>i (c, b). make r c b) [0..<lo] st))" by (rule keeps_trans)
  moreover have "make (RE_REP lo hi r) k b = fold (\<lambda>i (c, b). make r c b) [0..<lo] st"
    by (cases st) (simp add: st_def Let_def)
  ultimately show ?case by simp
qed

lemma fixed_self: "fixed_in b b' (gprods b')"
  by (simp add: fixed_in_def alts_of_def)

text \<open>
  C34. The reader of expressions always ends, whatever the text and whatever requests are
  refused, and so do \<open>janas_jsg_regex\<close> and \<open>janas_jsg_pattern\<close>, with a rule or with none.
\<close>

theorem regex_ends: "(\<exists>x b'. jsg_regex expr k b = Some (x, b')) \<and> (\<exists>x b'. jsg_pattern expr k b = Some (x, b'))"
proof -
  have "\<exists>x b'. jsg_regex e k b = Some (x, b')" for e k b
    using parse_text_ends [of e "gmem b"] by (auto simp: jsg_regex_def ends_def Let_def)
  then show ?thesis by (auto simp: jsg_pattern_def split: prod.splits)
qed


section \<open>Two expressions\<close>

definition demo_build :: gbuild where
  "demo_build = snd (gb_empty (the (gbuild_new [])))"

lemma demo_build:
  "gb_inv demo_build" "rules_known demo_build" "roomy demo_build" "n_rules demo_build = 1" "gmem demo_build = []"
  "aprods demo_build = [(0, [])]"
proof -
  have eq: "demo_build = \<lparr>alts = [\<lparr>bt_rule = 0, bt_el = [], bt_cap = 0\<rparr>], cap_alts = 64, n_rules = 1, sets = [],
      cap_sets = 0, byte_set = replicate 256 0, gfailed = False, gmem = []\<rparr>"
    by (simp add: demo_build_def gbuild_new_def gb_empty_def gb_rule_def gb_alt_def gb_request_def Let_def)
  show "gb_inv demo_build" "rules_known demo_build" "roomy demo_build" "n_rules demo_build = 1" "gmem demo_build = []"
    "aprods demo_build = [(0, [])]"
    by (simp_all add: eq gb_inv_def rules_known_def roomy_def aprods_def)
qed

lemma bind_cong: "x = y \<Longrightarrow> Option.bind x f = Option.bind y f"
  by simp

lemmas reading = re_request_def single_def among_def add_kid_def parse_class_def members_Cons class_range_def
  repeats.simps operator_bounds_def Let_def

text \<open>A set of bytes alone, with the empty rule to go on with.\<close>

lemma demo_rule:
  assumes "parse_text expr [] = Some (Some (RE_ALT [RE_SEQ [RE_SET s]]), \<lparr>ps_p = [], ps_mem = []\<rparr>)" "length s = 32"
  obtains b' where "jsg_regex expr 0 demo_build = Some (1, b')" "\<not> gfailed b'" "rule_lang (gprods b') 0 = {[]}"
proof -
  obtain x b' where m: "make (RE_ALT [RE_SEQ [RE_SET s]]) 0 demo_build = (x, b')" by force
  have x: "x = 1" using m demo_build(4) by (auto simp: make_set_def gb_rule_def Let_def)
  have mem: "demo_build\<lparr>gmem := []\<rparr> = demo_build" using demo_build(5) by simp
  have j: "jsg_regex expr 0 demo_build = Some (1, b')"
    using assms(1) m x by (simp add: jsg_regex_def demo_build(5) mem Let_def)
  have b': "\<not> gfailed b'" using keeps_make [OF demo_build(3), of "RE_ALT [RE_SEQ [RE_SET s]]" 0] m by (simp add: keeps_def roomy_def)
  have f: "frees demo_build" using known_frees demo_build(1,2) by blast
  have "made demo_build b' 1 (\<lambda>V. after (in_json ` bset_of s) (V 0))"
    by (rule make_set_made [OF _ f b' assms(2)]) (use m x in simp)
  then have g: "grows {} demo_build b'" "frees b'" by (auto simp: made_def)
  have "alts_of b' 0 = {[]}"
    using grows_alts [OF g(1) f g(2), of 0] demo_build(4,6) by (simp add: alts_of_def gprods_def)
  then have "rule_lang (gprods b') 0 = {[]}" using lang_alts [of b' 0] by (simp add: lang_def)
  then show thesis using that j b' by blast
qed

lemma after_end: "after L {[]} = map Byte ` L"
  by (auto simp: after_def image_iff)

lemma demo_bytes: "bset_of (set_add (set_add set_clear 0x61 0x61) 0x22 0x22) = {0x61, 0x22}"
  by (auto simp: bset_of_add u8_eq_iff)

lemma demo_nonempty: "\<not> set_empty (set_add (set_add set_clear 0x61 0x61) 0x22 0x22)"
  using set_empty_iff [of "set_add (set_add set_clear 0x61 0x61) 0x22 0x22"] by (simp add: demo_bytes)

lemma read_class: "parse_text [0x5b, 0x61, 0x22, 0x5d] [] =
    Some (Some (RE_ALT [RE_SEQ [RE_SET (set_add (set_add set_clear 0x61 0x61) 0x22 0x22)]]), \<lparr>ps_p = [], ps_mem = []\<rparr>)"
proof -
  have f: "Suc (Suc (Suc (Suc (Suc (Suc (Suc (Suc (Suc (Suc (Suc (Suc (Suc (Suc (Suc (Suc (Suc (Suc (Suc (Suc (Suc (Suc (Suc (Suc (Suc (Suc (Suc (Suc (Suc (Suc (0)))))))))))))))))))))))))))))) = (30 :: nat)" by simp
  have "parse_alt (Suc (Suc (Suc (Suc (Suc (Suc (Suc (Suc (Suc (Suc (Suc (Suc (Suc (Suc (Suc (Suc (Suc (Suc (Suc (Suc (Suc (Suc (Suc (Suc (Suc (Suc (Suc (Suc (Suc (Suc (0))))))))))))))))))))))))))))))) \<lparr>ps_p = [0x5b, 0x61, 0x22, 0x5d], ps_mem = []\<rparr> =
      Some (Some (RE_ALT [RE_SEQ [RE_SET (set_add (set_add set_clear 0x61 0x61) 0x22 0x22)]]), \<lparr>ps_p = [], ps_mem = []\<rparr>)"
    by (simp add: reading demo_nonempty cong: bind_cong)
  then show ?thesis unfolding f by (simp add: parse_text_def)
qed

lemma read_letter: "parse_text [0x61] [] =
    Some (Some (RE_ALT [RE_SEQ [RE_SET (set_add set_clear 0x61 0x61)]]), \<lparr>ps_p = [], ps_mem = []\<rparr>)"
proof -
  have f: "Suc (Suc (Suc (Suc (Suc (Suc (Suc (Suc (Suc (Suc (Suc (Suc (0)))))))))))) = (12 :: nat)" by simp
  have "parse_alt (Suc (Suc (Suc (Suc (Suc (Suc (Suc (Suc (Suc (Suc (Suc (Suc (0))))))))))))) \<lparr>ps_p = [0x61], ps_mem = []\<rparr> =
      Some (Some (RE_ALT [RE_SEQ [RE_SET (set_add set_clear 0x61 0x61)]]), \<lparr>ps_p = [], ps_mem = []\<rparr>)"
    by (simp add: reading cong: bind_cong)
  then show ?thesis unfolding f by (simp add: parse_text_def)
qed


section \<open>A pattern\<close>

definition plain_texts :: "bytes set" where
  "plain_texts = {u. list_all plain_char u}"

lemma lpow_singles: "(\<Union>n. lpow n {[c] | c. P c}) = {u. list_all P u}"
proof -
  have "lpow n {[c] | c. P c} = {u. length u = n \<and> list_all P u}" for n
  proof (induction n)
    case 0
    then show ?case by auto
  next
    case (Suc n)
    have "conc {[c] | c. P c} B = {c # v | c v. P c \<and> v \<in> B}" for B
    proof -
      have "[c] @ v \<in> conc {[c] | c. P c} B" if "P c" "v \<in> B" for c v
        unfolding conc_def using that by blast
      then show ?thesis by (auto simp: conc_def)
    qed
    moreover have "{c # v | c v. P c \<and> v \<in> {u. length u = n \<and> list_all P u}} = {u. length u = Suc n \<and> list_all P u}"
      by (auto simp: length_Suc_conv)
    ultimately show ?case by (simp add: Suc)
  qed
  then show ?thesis by auto
qed

lemma any_then_made:
  assumes "any_then k b = (x, b')" "frees b" "\<not> gfailed b'"
  shows "made b b' x (\<lambda>V. after plain_texts (V k))"
proof -
  let ?any = "json_plain (set_add set_clear 0x20 0xff)"
  obtain b1 where r: "gb_rule b = (x, b1)" using assms(1) by (auto simp: any_then_def Let_def split: prod.splits)
  obtain a b2 where al: "gb_alt x b1 = (a, b2)" by force
  let ?b4 = "gb_ref a x (gb_set a ?any b2)"
  have b': "b' = ref_alt x (Pair k) ?b4" using assms(1) r al by (simp add: any_then_def Let_def)
  have nf4: "\<not> gfailed ?b4" using assms(3) b' fails_ref_alt [of "Pair k" ?b4 x] by auto
  have nf3: "\<not> gfailed (gb_set a ?any b2)" using nf4 fails_ref by blast
  then have nf2: "\<not> gfailed b2" using fails_set by blast
  then have nf1: "\<not> gfailed b1" using fails_alt [of b1 x] al by auto
  have f1: "frees b1" "x < n_rules b1" using new_rule [OF r assms(2) nf1] by auto
  have any: "bset_of ?any = {c. plain_char c}"
  proof -
    have "plain_char c \<Longrightarrow> 0x20 \<le> unat c" for c by (simp add: plain_char_def word_le_nat_alt)
    then show ?thesis using json_plain_set(1) [of "set_add set_clear 0x20 0xff"] by (auto simp: bset_of_add)
  qed
  have inv: "gb_inv b2" using gb_alt_refines(5) [OF al nf2] f1 by (simp add: frees_def good_def)
  note st = gb_set_appended [OF nf3 inv]
  then have "gb_inv (gb_set a ?any b2)" by (simp add: appended_def)
  note ap = appended_trans [OF st gb_ref_appended [OF nf4 this]]
  have 1: "branched b1 ?b4 x (\<lambda>V. after {[c] | c. plain_char c} (V x))"
    by (rule branched_appended [OF al f1 ap]) (auto simp: any derives_Rule_single after_single [where S = "Collect plain_char", simplified])
  have 2: "branched ?b4 b' x (\<lambda>V. V k)"
  proof (rule branched_ref [of x "Pair k"])
    fix c1 y c2 assume c: "frees c1" "(k, c1) = (y, c2)" "\<not> gfailed c2"
    then show "made c1 c2 y (\<lambda>V. V k)" using made_refl [of c1 k] by simp
  qed (use assms(3) b' branched_ok [OF 1] f1 in simp_all)
  have "made b b' x (\<lambda>V. after {[c] | c. plain_char c} (V x) \<union> V k)"
    by (rule branched_rule(1) [OF r assms(2) branched_trans [OF 1 2 f1(2)]])
  then have m: "frees b'" "grows {} b b'"
    "\<And>Q. fixed_in b b' Q \<Longrightarrow> rule_lang Q x = after {[c] | c. plain_char c} (rule_lang Q x) \<union> rule_lang Q k"
    by (auto simp: made_def)
  have "rule_lang Q x = after plain_texts (rule_lang Q k)" if "fixed_in b b' Q" for Q
    using loop_unique [OF m(3) [OF that]] by (simp add: plain_texts_def after_UNION flip: lpow_singles)
  then show ?thesis using m(1,2) by (simp add: made_def)
qed



text \<open>
  The list of operators that \<open>strchr\<close> searches ends with a NUL, which it finds too: a NUL
  byte in an expression opens a repetition like a brace.
\<close>

theorem nul_is_brace: "repeats a (ps\<lparr>ps_p := 0x00 # s\<rparr>) = repeats a (ps\<lparr>ps_p := 0x7b # s\<rparr>)"
proof -
  have "among 0x00 ''*+?{''" "among 0x7b ''*+?{''" by (simp_all add: among_def)
  moreover have "operator_bounds 0x00 s = operator_bounds 0x7b s" by (simp add: operator_bounds_def)
  ultimately show ?thesis
    by (subst (1 2) repeats.simps) (simp split: option.split)
qed

end
