(* ===== verification/Schema_Words.thy ===== *)
theory Schema_Words
  imports Schema_Json Schema_Re_Parse
begin

text \<open>
  How the rules of \<open>Schema_Json\<close> are followed: the alternatives of each rule as a function of the
  rule, the equations a set of languages must solve, and what is known of every solution after a
  run of calls. No step here depends on which rules are still open.
\<close>

section \<open>Words of symbols\<close>

definition cat :: "'a list set \<Rightarrow> 'a list set \<Rightarrow> 'a list set" where
  "cat A B = {u @ v | u v. u \<in> A \<and> v \<in> B}"

definition spell :: "bytes set \<Rightarrow> gsym list set" where
  "spell A = map Byte ` A"

type_synonym langs = "nat \<Rightarrow> gsym list set"

fun sym_lang :: "langs \<Rightarrow> asym \<Rightarrow> gsym list set" where
  "sym_lang L (ASet S) = spell {[c] | c. c \<in> S}"
| "sym_lang L (ATok t) = {[Tok t]}"
| "sym_lang L (ARule r) = L r"

fun words :: "langs \<Rightarrow> asym list \<Rightarrow> gsym list set" where
  "words L [] = spell {[]}"
| "words L (x # xs) = cat (sym_lang L x) (words L xs)"

lemma catI: "u \<in> A \<Longrightarrow> v \<in> B \<Longrightarrow> u @ v \<in> cat A B"
  by (auto simp: cat_def)

lemma catE [elim]:
  assumes "w \<in> cat A B"
  obtains u v where "w = u @ v" "u \<in> A" "v \<in> B"
  using assms by (auto simp: cat_def)

lemma cat_spell [simp]: "cat (spell A) (spell B) = spell (conc A B)"
proof -
  have "map Byte u @ map Byte v \<in> spell (conc A B)" if "u \<in> A" "v \<in> B" for u v
    unfolding spell_def conc_def using that by (auto simp flip: map_append intro!: image_eqI [of _ _ "u @ v"])
  moreover have "map Byte (u @ v) \<in> cat (spell A) (spell B)" if "u \<in> A" "v \<in> B" for u v
    unfolding map_append by (rule catI) (use that in \<open>auto simp: spell_def\<close>)
  ultimately show ?thesis by (auto simp: cat_def spell_def conc_def)
qed

lemma cat_one [simp]: "cat (spell {[]}) B = B" "cat B (spell {[]}) = B"
  by (auto simp: cat_def spell_def)

lemma cat_assoc: "cat (cat A B) C = cat A (cat B C)"
  unfolding cat_def by (auto, metis append_assoc) (metis append_assoc)

lemma cat_after: "cat (spell A) B = after A B"
  by (auto simp: cat_def after_def spell_def)

lemma spell_union: "spell A \<union> spell B = spell (A \<union> B)"
  by (auto simp: spell_def)

lemma spell_single: "spell {[c] | c. c = x} = spell {[x]}"
  by simp

lemma derives_words: "derives Q xs w \<longleftrightarrow> w \<in> words (rule_lang Q) xs"
proof (induction xs arbitrary: w)
  case Nil
  then show ?case by (simp add: spell_def)
next
  case (Cons x xs)
  have one: "spell {[c] | c. c \<in> S} = {[Byte c] | c. c \<in> S}" for S by (simp add: spell_def setcompr_eq_image image_image)
  show ?case
  proof (cases x)
    case (ASet S)
    have "w \<in> cat {[Byte c] | c. c \<in> S} B \<longleftrightarrow> (\<exists>c v. c \<in> S \<and> w = Byte c # v \<and> v \<in> B)" for B
      unfolding cat_def by (auto, metis append_Cons append_Nil)
    then show ?thesis using Cons by (simp add: ASet one)
  next
    case (ATok t)
    then show ?thesis using Cons by (auto simp: cat_def)
  next
    case (ARule r)
    then show ?thesis using Cons by (auto simp: derives_Rule_iff cat_def)
  qed
qed

section \<open>Parts\<close>

fun part_syms :: "part \<Rightarrow> asym list" where
  "part_syms (PByte c) = [ASet {c}]"
| "part_syms (PSet s) = [ASet (bset_of s)]"
| "part_syms (PRef r) = [ARule r]"
| "part_syms (PLit s) = map (\<lambda>c. ASet {c}) s"

definition parts_syms :: "part list \<Rightarrow> asym list" where
  "parts_syms ps = concat (map part_syms ps)"

definition parts_words :: "langs \<Rightarrow> part list \<Rightarrow> gsym list set" where
  "parts_words L ps = words L (parts_syms ps)"

lemma words_append: "words L (xs @ ys) = cat (words L xs) (words L ys)"
  by (induction xs) (simp_all add: cat_assoc)

lemma words_lit: "words L (map (\<lambda>c. ASet {c}) s) = spell {s}"
proof (induction s)
  case (Cons c s)
  have "conc {[c]} {s} = {c # s}" by (auto simp: conc_def)
  then show ?case using Cons by simp
qed simp

lemma parts_words_simps [simp]:
  "parts_words L [] = spell {[]}"
  "parts_words L (PByte c # ps) = cat (spell {[c]}) (parts_words L ps)"
  "parts_words L (PSet s # ps) = cat (spell {[c] | c. c \<in> bset_of s}) (parts_words L ps)"
  "parts_words L (PRef r # ps) = cat (L r) (parts_words L ps)"
  "parts_words L (PLit t # ps) = cat (spell {t}) (parts_words L ps)"
  by (simp_all add: parts_words_def parts_syms_def words_append words_lit)

section \<open>Steps that fail or add rules\<close>

text \<open>Once failed a builder stays failed, and rules are only added.\<close>

definition forth :: "gbuild \<Rightarrow> gbuild \<Rightarrow> bool" where
  "forth b b' \<longleftrightarrow> (gfailed b \<longrightarrow> gfailed b') \<and> n_rules b \<le> n_rules b'"

definition fine :: "gbuild \<Rightarrow> bool" where
  "fine b \<longleftrightarrow> \<not> gfailed b \<and> n_rules b \<le> NONE"

lemma forth_refl [simp]: "forth b b"
  by (simp add: forth_def)

lemma forth_trans: "forth b b1 \<Longrightarrow> forth b1 b2 \<Longrightarrow> forth b b2"
  by (auto simp: forth_def)

lemma fine_back: "fine b' \<Longrightarrow> forth b b' \<Longrightarrow> fine b"
  by (auto simp: fine_def forth_def)

lemma n_rules_push [simp]: "n_rules (push a e b) = n_rules b"
  by (auto simp: push_def gb_request_def Let_def split: prod.splits)

lemma n_rules_add_set: "add_set s b = (i, b') \<Longrightarrow> n_rules b' = n_rules b"
  by (auto simp: add_set_def gb_request_def Let_def split: prod.splits if_splits)

lemma n_rules_parts [simp]:
  "n_rules (gb_set a s b) = n_rules b" "n_rules (gb_byte a c b) = n_rules b" "n_rules (gb_ref a r b) = n_rules b"
  by (auto simp: gb_set_def gb_byte_def gb_ref_def Let_def split: prod.splits dest: n_rules_add_set)

lemma n_rules_lit [simp]: "n_rules (gb_lit a t b) = n_rules b"
  by (induction t arbitrary: b) (simp_all add: gb_lit_def)

lemma n_rules_alt: "gb_alt r b = (a, b') \<Longrightarrow> n_rules b' = n_rules b"
  by (auto simp: gb_alt_def gb_request_def Let_def split: prod.splits if_splits)

lemma forth_part: "forth b (gb_part a p b)"
  by (cases p) (simp_all add: forth_def fails fails_lit)

lemma forth_fold: "(\<And>x b. forth b (f x b)) \<Longrightarrow> forth b (fold f xs b)"
  by (induction xs arbitrary: b) (auto intro: forth_trans)

lemma forth_parts: "forth b (gb_parts a ps b)"
  unfolding gb_parts_def by (rule forth_fold) (rule forth_part)

lemma forth_alt: "gb_alt r b = (a, b') \<Longrightarrow> forth b b'"
  using fails_alt [of b r] n_rules_alt [of r b a b'] by (auto simp: forth_def)

lemma forth_rule: "gb_rule b = (r, b') \<Longrightarrow> forth b b'"
  by (auto simp: forth_def gb_rule_def)

lemma forth_with: "forth b (gb_with r ps b)"
  by (auto simp: gb_with_def split: prod.split intro: forth_trans forth_alt forth_parts)

lemma forth_alts: "forth b (gb_alts r pss b)"
  unfolding gb_alts_def by (rule forth_fold) (rule forth_with)

lemma forth_new: "gb_new pss b = (x, b') \<Longrightarrow> forth b b'"
  by (auto simp: gb_new_def split: prod.splits intro: forth_trans forth_rule forth_alts)

lemma forth_request: "gb_request b = (ok, b') \<Longrightarrow> forth b b'"
  by (auto simp: gb_request_def forth_def split: prod.splits)

lemma forth_rules: "rule_list n b = (rs, b') \<Longrightarrow> forth b b'"
  by (induction n arbitrary: b rs) (force split: prod.splits intro: forth_trans forth_rule)+

section \<open>The alternatives of a rule\<close>

lemma gb_part_appended:
  "\<not> gfailed (gb_part a p b) \<Longrightarrow> gb_inv b \<Longrightarrow> appended a (part_syms p) b (gb_part a p b)"
  by (cases p) (simp_all add: gb_byte_appended gb_set_appended gb_ref_appended gb_lit_appended)

lemma gb_parts_appended:
  "\<not> gfailed (gb_parts a ps b) \<Longrightarrow> gb_inv b \<Longrightarrow> appended a (parts_syms ps) b (gb_parts a ps b)"
proof (induction ps arbitrary: b)
  case Nil
  then show ?case by (simp add: gb_parts_def parts_syms_def appended_def)
next
  case (Cons p ps)
  have eq: "gb_parts a (p # ps) b = gb_parts a ps (gb_part a p b)" by (simp add: gb_parts_def)
  have "\<not> gfailed (gb_part a p b)"
    using Cons.prems(1) forth_parts [of "gb_part a p b" a ps] by (auto simp: eq forth_def)
  then have 1: "appended a (part_syms p) b (gb_part a p b)" using Cons.prems(2) by (rule gb_part_appended)
  then have "gb_inv (gb_part a p b)" by (simp add: appended_def)
  then have "appended a (parts_syms ps) (gb_part a p b) (gb_parts a (p # ps) b)"
    using Cons unfolding eq by simp
  from appended_trans [OF 1 this] show ?case by (simp add: parts_syms_def)
qed

lemma frees_iff: "frees b \<longleftrightarrow> gb_inv b \<and> rules_known b"
  using known_frees by (auto simp: frees_def good_def)

lemma alts_eq: "frees b \<Longrightarrow> alts_of b r = {ys. (r, ys) \<in> set (aprods b)}"
  by (simp add: frees_iff alts_of_def gprods_eq)

text \<open>An alternative closed at once.\<close>

lemma closed_alt:
  assumes "gb_alt x b = (a, b1)" "appended a xs b1 b2" "frees b" "x < n_rules b"
  shows "frees b2" "n_rules b2 = n_rules b" "aprods b2 = aprods b @ [(x, xs)]"
proof -
  have inv: "gb_inv b" using assms(3) by (simp add: frees_iff)
  note ap = alt_appended [OF assms(1,2) inv]
  show "frees b2" using ap assms(3,4) by (auto simp: frees_iff rules_known_def)
  show "n_rules b2 = n_rules b" "aprods b2 = aprods b @ [(x, xs)]" by (rule ap)+
qed

lemma with_alts:
  assumes "frees b" "x < n_rules b" "\<not> gfailed (gb_with x ps b)"
  shows "frees (gb_with x ps b)" "n_rules (gb_with x ps b) = n_rules b"
    "aprods (gb_with x ps b) = aprods b @ [(x, parts_syms ps)]"
proof -
  obtain a b1 where al: "gb_alt x b = (a, b1)" by force
  then have w: "gb_with x ps b = gb_parts a ps b1" by (simp add: gb_with_def)
  have "\<not> gfailed b1" using assms(3) forth_parts [of b1 a ps] by (auto simp: w forth_def)
  then have "gb_inv b1" using gb_alt_refines(5) [OF al] assms(1) by (simp add: frees_iff)
  then have "appended a (parts_syms ps) b1 (gb_with x ps b)"
    using gb_parts_appended assms(3) unfolding w by simp
  from closed_alt [OF al this assms(1,2)]
  show "frees (gb_with x ps b)" "n_rules (gb_with x ps b) = n_rules b"
    "aprods (gb_with x ps b) = aprods b @ [(x, parts_syms ps)]" .
qed

lemma alts_alts:
  assumes "frees b" "x < n_rules b" "\<not> gfailed (gb_alts x pss b)"
  shows "frees (gb_alts x pss b) \<and> n_rules (gb_alts x pss b) = n_rules b \<and>
    aprods (gb_alts x pss b) = aprods b @ map (\<lambda>ps. (x, parts_syms ps)) pss"
  using assms
proof (induction pss arbitrary: b)
  case Nil
  then show ?case by (simp add: gb_alts_def)
next
  case (Cons ps pss)
  have eq: "gb_alts x (ps # pss) b = gb_alts x pss (gb_with x ps b)" by (simp add: gb_alts_def)
  have "\<not> gfailed (gb_with x ps b)"
    using Cons.prems(3) forth_alts [of "gb_with x ps b" x pss] by (auto simp: eq forth_def)
  note w = with_alts [OF Cons.prems(1,2) this]
  have "x < n_rules (gb_with x ps b)" using w(2) Cons.prems(2) by simp
  from Cons.IH [OF w(1) this] show ?case using Cons.prems(3) w(2,3) by (simp add: eq)
qed

section \<open>Languages that solve the alternatives\<close>

definition solves :: "gbuild \<Rightarrow> gbuild \<Rightarrow> langs \<Rightarrow> bool" where
  "solves b b' L \<longleftrightarrow> (\<forall>r. n_rules b \<le> r \<and> r < n_rules b' \<longrightarrow> L r = (\<Union>ys \<in> alts_of b' r. words L ys))"

definition adds :: "gbuild \<Rightarrow> gbuild \<Rightarrow> bool" where
  "adds b b' \<longleftrightarrow> frees b' \<and> n_rules b \<le> n_rules b' \<and>
     (\<exists>ps. aprods b' = aprods b @ ps \<and> (\<forall>p \<in> set ps. n_rules b \<le> fst p))"

text \<open>What is known of the languages after the step, if \<open>K\<close> was known before.\<close>

definition knows :: "(langs \<Rightarrow> bool) \<Rightarrow> gbuild \<Rightarrow> gbuild \<Rightarrow> (langs \<Rightarrow> bool) \<Rightarrow> bool" where
  "knows K b b' E \<longleftrightarrow> adds b b' \<and> (\<forall>L. solves b b' L \<longrightarrow> K L \<longrightarrow> E L)"

lemma solves_self: "solves b b' (lang b')"
proof -
  have L: "rule_lang (gprods b') = lang b'" by (simp add: lang_def fun_eq_iff)
  have "lang b' r = (\<Union>ys \<in> alts_of b' r. words (lang b') ys)" for r
    by (subst lang_alts) (auto simp: derives_words L)
  then show ?thesis by (simp add: solves_def)
qed

lemma adds_alts: "adds b b' \<Longrightarrow> frees b \<Longrightarrow> r < n_rules b \<Longrightarrow> alts_of b' r = alts_of b r"
  by (fastforce simp: adds_def alts_eq)

lemma adds_more:
  assumes "adds b b1" "frees b2" "n_rules b1 \<le> n_rules b2" "aprods b2 = aprods b1 @ qs" "\<forall>q \<in> set qs. n_rules b \<le> fst q"
  shows "adds b b2"
proof -
  obtain ps where "aprods b1 = aprods b @ ps" "\<forall>p \<in> set ps. n_rules b \<le> fst p" "n_rules b \<le> n_rules b1"
    using assms(1) by (auto simp: adds_def)
  with assms(2-5) have "aprods b2 = aprods b @ (ps @ qs)" "\<forall>p \<in> set (ps @ qs). n_rules b \<le> fst p" by auto
  with assms(2,3) \<open>n_rules b \<le> n_rules b1\<close> show ?thesis unfolding adds_def by (meson le_trans)
qed

lemma adds_trans: "adds b b1 \<Longrightarrow> adds b1 b2 \<Longrightarrow> adds b b2"
proof -
  assume 1: "adds b b1" and 2: "adds b1 b2"
  obtain qs where "aprods b2 = aprods b1 @ qs" "\<forall>q \<in> set qs. n_rules b1 \<le> fst q" "frees b2" "n_rules b1 \<le> n_rules b2"
    using 2 by (auto simp: adds_def)
  moreover have "n_rules b \<le> n_rules b1" using 1 by (simp add: adds_def)
  ultimately show ?thesis using 1 by (intro adds_more [of b b1 b2 qs]) auto
qed

lemma adds_frees: "adds b b' \<Longrightarrow> frees b'"
  by (simp add: adds_def)

lemma solves_split:
  assumes "solves b b2 L" "adds b b1" "adds b1 b2"
  shows "solves b b1 L" "solves b1 b2 L"
proof -
  have n: "n_rules b \<le> n_rules b1" "n_rules b1 \<le> n_rules b2" using assms(2,3) by (auto simp: adds_def)
  then show "solves b1 b2 L" using assms(1) by (simp add: solves_def)
  show "solves b b1 L"
    using assms(1) n adds_alts [OF assms(3) adds_frees [OF assms(2)]] by (simp add: solves_def)
qed

lemma knows_trans: "knows K b b1 E \<Longrightarrow> knows E b1 b2 G \<Longrightarrow> knows K b b2 G"
  unfolding knows_def using adds_trans solves_split by blast

lemma knows_weaken: "knows K b b' E \<Longrightarrow> (\<And>L. E L \<Longrightarrow> G L) \<Longrightarrow> knows K b b' G"
  by (auto simp: knows_def)

lemma knows_refl: "frees b \<Longrightarrow> (\<And>L. K L \<Longrightarrow> E L) \<Longrightarrow> knows K b b E"
  by (auto simp: knows_def adds_def)

lemma knows_frees: "knows K b b' E \<Longrightarrow> frees b' \<and> n_rules b \<le> n_rules b'"
  by (simp add: knows_def adds_def)

lemma solves_at: "solves b b' L \<Longrightarrow> n_rules b \<le> r \<Longrightarrow> r < n_rules b' \<Longrightarrow> L r = (\<Union>ys \<in> alts_of b' r. words L ys)"
  by (simp add: solves_def)

lemma no_alts: "n_rules b \<le> r \<Longrightarrow> alts_of b r = {}"
  by (auto simp: alts_of_def gprods_def)

lemma rule_adds:
  assumes "gb_rule b = (x, b')" "frees b"
  shows "adds b b'" "x = n_rules b" "n_rules b' = Suc x" "aprods b' = aprods b" "frees b'"
proof -
  note r = gb_rule_refines [OF assms(1)]
  show "x = n_rules b" "n_rules b' = Suc x" "aprods b' = aprods b" using r by simp_all
  show "frees b'" using r assms(2) by (auto simp: frees_iff rules_known_def)
  then show "adds b b'" using r(2,3) by (simp add: adds_def)
qed

lemma new_adds:
  assumes "gb_new pss b = (x, b')" "frees b" "\<not> gfailed b'"
  shows "adds b b'" "x = n_rules b" "n_rules b' = Suc x" "alts_of b' x = parts_syms ` set pss"
proof -
  obtain b1 where r: "gb_rule b = (x, b1)" and b': "b' = gb_alts x pss b1"
    using assms(1) by (auto simp: gb_new_def split: prod.splits)
  note r = rule_adds [OF r assms(2)]
  note a = alts_alts [OF r(5), of x pss, folded b', OF _ assms(3)]
  have x: "x < n_rules b1" using r(3) by simp
  show "x = n_rules b" by (rule r(2))
  show "n_rules b' = Suc x" using a [OF x] r(3) by simp
  show "adds b b'" by (rule adds_more [OF r(1)]) (use a [OF x] r(2) in auto)
  have "(x, ys) \<notin> set (aprods b)" for ys using assms(2) r(2) by (auto simp: frees_iff rules_known_def)
  then show "alts_of b' x = parts_syms ` set pss" using a [OF x] r(4) by (auto simp: alts_eq)
qed

lemma new_knows:
  assumes "gb_new pss b = (x, b')" "frees b" "fine b'"
  shows "knows K b b' (\<lambda>L. K L \<and> L x = (\<Union>ps \<in> set pss. parts_words L ps))"
proof -
  have nf: "\<not> gfailed b'" using assms(3) by (simp add: fine_def)
  note n = new_adds [OF assms(1,2) nf]
  have "L x = (\<Union>ps \<in> set pss. parts_words L ps)" if "solves b b' L" for L
    using solves_at [OF that, of x] n by (simp add: parts_words_def)
  then show ?thesis using n(1) by (simp add: knows_def)
qed

lemma new_finite: "gb_new pss b = (x, b') \<Longrightarrow> frees b \<Longrightarrow> fine b' \<Longrightarrow> x < NONE"
  using new_adds(3) [of pss b x b'] by (auto simp: fine_def)

text \<open>An alternative left open while other rules are made.\<close>

lemma open_alt:
  assumes "gb_alt x b = (a, b1)" "appended a xs b1 b2" "frees b" "x < n_rules b" "adds b2 b3" "appended a ys b3 b4"
  shows "frees b4" "n_rules b4 = n_rules b3" "\<exists>ps. aprods b3 = aprods b @ (x, xs) # ps \<and>
    aprods b4 = aprods b @ (x, xs @ ys) # ps \<and> (\<forall>p \<in> set ps. n_rules b \<le> fst p)"
proof -
  note c = closed_alt [OF assms(1-4)]
  obtain ps where ps: "aprods b3 = aprods b2 @ ps" "\<forall>p \<in> set ps. n_rules b2 \<le> fst p" "frees b3" "n_rules b2 \<le> n_rules b3"
    using assms(5) by (auto simp: adds_def)
  have "\<not> gfailed b1" using assms(2) by (simp add: appended_def)
  then have a: "a = length (aprods b)" using gb_alt_refines(2) [OF assms(1)] by simp
  have eq: "aprods b4 = aprods b @ (x, xs @ ys) # ps"
    using assms(6) ps(1) c(3) a by (simp add: appended_def list_update_append del: length_aprods)
  show n: "n_rules b4 = n_rules b3" using assms(6) by (simp add: appended_def)
  have "gb_inv b4" using assms(6) by (simp add: appended_def)
  moreover have "rules_known b4"
    using ps(1,3) c(3) n by (auto simp: frees_iff rules_known_def eq)
  ultimately show "frees b4" by (simp add: frees_iff)
  show "\<exists>ps. aprods b3 = aprods b @ (x, xs) # ps \<and> aprods b4 = aprods b @ (x, xs @ ys) # ps \<and> (\<forall>p \<in> set ps. n_rules b \<le> fst p)"
    using ps(1,2) c(2,3) eq by auto
qed

lemma request_knows: "gb_request b = (ok, b') \<Longrightarrow> frees b \<Longrightarrow> knows K b b' K"
  by (auto simp: gb_request_def knows_def adds_def frees_iff gb_inv_def rules_known_def aprods_def alts_of_def
      gprods_def split: prod.splits)

end
