(* ===== verification/Schema_Json_Lang.thy ===== *)
theory Schema_Json_Lang
  imports Schema_Words Json_Round
begin

text \<open>
  The texts of JSON as its own grammar has them, with the limits the rules of \<open>Schema_Json\<close> set (at
  most 20 bytes of white space in a row and at most 20 digits in a part of a number), and that
  \<open>janas_jsg_any\<close> makes the rules of exactly these texts.
\<close>

section \<open>The texts\<close>

definition singles :: "(u8 \<Rightarrow> bool) \<Rightarrow> bytes set" where
  "singles P = {[c] | c. P c}"

definition at_most :: "nat \<Rightarrow> (u8 \<Rightarrow> bool) \<Rightarrow> bytes set" where
  "at_most n P = (\<Union>i \<in> {..n}. lpow i (singles P))"

definition ws_texts :: "bytes set" where
  "ws_texts = at_most 20 is_ws"

definition int_texts :: "bytes set" where
  "int_texts = insert [0x30] (conc (singles (\<lambda>c. is_digit c \<and> c \<noteq> 0x30)) (at_most 19 is_digit))"

definition frac_texts :: "bytes set" where
  "frac_texts = insert [] (conc {[0x2e]} (conc (singles is_digit) (at_most 19 is_digit)))"

definition exp_texts :: "bytes set" where
  "exp_texts =
     insert [] (conc (singles (\<lambda>c. c = 0x65 \<or> c = 0x45))
       (conc {[], [0x2b], [0x2d]} (conc (singles is_digit) (at_most 3 is_digit))))"

definition number_texts :: "bytes set" where
  "number_texts = conc {[], [0x2d]} (conc int_texts (conc frac_texts exp_texts))"

definition integer_texts :: "bytes set" where
  "integer_texts = conc {[], [0x2d]} int_texts"

definition is_hex :: "u8 \<Rightarrow> bool" where
  "is_hex c \<longleftrightarrow> is_digit c \<or> 0x61 \<le> c \<and> c \<le> 0x66 \<or> 0x41 \<le> c \<and> c \<le> 0x46"

definition escape_texts :: "bytes set" where
  "escape_texts =
     singles (\<lambda>c. c \<in> {0x22, 0x5c, 0x2f, 0x62, 0x66, 0x6e, 0x72, 0x74}) \<union> conc {[0x75]} (lpow 4 (singles is_hex))"

definition char_texts :: "bytes set" where
  "char_texts = singles plain_char \<union> conc {[0x5c]} escape_texts"

definition string_texts :: "bytes set" where
  "string_texts = conc {[0x22]} (conc (\<Union>n. lpow n char_texts) {[0x22]})"

text \<open>
  A value, the rest of an array from an item on, the members of an object from a name on, and the
  rest after a member.
\<close>

inductive json_value :: "bytes \<Rightarrow> bool"
  and more_items :: "bytes \<Rightarrow> bool"
  and member :: "bytes \<Rightarrow> bool"
  and more_members :: "bytes \<Rightarrow> bool" where
  v_string: "u \<in> string_texts \<Longrightarrow> json_value u"
| v_number: "u \<in> number_texts \<Longrightarrow> json_value u"
| v_word: "u \<in> {lit ''true'', lit ''false'', lit ''null''} \<Longrightarrow> json_value u"
| v_empty_array: "w \<in> ws_texts \<Longrightarrow> json_value ([0x5b] @ w @ [0x5d])"
| v_array: "w \<in> ws_texts \<Longrightarrow> json_value v \<Longrightarrow> w' \<in> ws_texts \<Longrightarrow> more_items t \<Longrightarrow>
    json_value ([0x5b] @ w @ v @ w' @ t)"
| i_end: "more_items [0x5d]"
| i_item: "w \<in> ws_texts \<Longrightarrow> json_value v \<Longrightarrow> w' \<in> ws_texts \<Longrightarrow> more_items t \<Longrightarrow>
    more_items ([0x2c] @ w @ v @ w' @ t)"
| v_empty_object: "w \<in> ws_texts \<Longrightarrow> json_value ([0x7b] @ w @ [0x7d])"
| v_object: "w \<in> ws_texts \<Longrightarrow> member m \<Longrightarrow> more_members t \<Longrightarrow> json_value ([0x7b] @ w @ m @ t)"
| m_member: "k \<in> string_texts \<Longrightarrow> w \<in> ws_texts \<Longrightarrow> w' \<in> ws_texts \<Longrightarrow> json_value v \<Longrightarrow> w'' \<in> ws_texts \<Longrightarrow>
    member (k @ w @ [0x3a] @ w' @ v @ w'')"
| r_end: "more_members [0x7d]"
| r_member: "w \<in> ws_texts \<Longrightarrow> member m \<Longrightarrow> more_members t \<Longrightarrow> more_members ([0x2c] @ w @ m @ t)"

section \<open>The sets of bytes\<close>

lemma length_space_set [simp]: "length space_set = 32" "length digit_set = 32" "length hex_set = 32"
  by (simp_all add: space_set_def digit_set_def hex_set_def)

lemma set_texts:
  "{[c] | c. c \<in> bset_of space_set} = singles is_ws"
  "{[c] | c. c \<in> bset_of digit_set} = singles is_digit"
  "{[c] | c. c \<in> bset_of (set_add set_clear 0x31 0x39)} = singles (\<lambda>c. is_digit c \<and> c \<noteq> 0x30)"
  "{[c] | c. c \<in> bset_of (set_add (set_add set_clear 0x65 0x65) 0x45 0x45)} = singles (\<lambda>c. c = 0x65 \<or> c = 0x45)"
  "{[c] | c. c \<in> bset_of hex_set} = singles is_hex"
proof -
  have "c \<in> bset_of space_set \<longleftrightarrow> is_ws c" for c
    by (auto simp: space_set_def bset_of_add is_ws_def u8_eq_iff)
  then show "{[c] | c. c \<in> bset_of space_set} = singles is_ws" by (simp add: singles_def)
  have "c \<in> bset_of digit_set \<longleftrightarrow> is_digit c" for c
    by (auto simp: digit_set_def bset_of_add is_digit_def word_le_nat_alt)
  then show "{[c] | c. c \<in> bset_of digit_set} = singles is_digit" by (simp add: singles_def)
  have "c \<in> bset_of (set_add set_clear 0x31 0x39) \<longleftrightarrow> is_digit c \<and> c \<noteq> 0x30" for c
    by (auto simp: bset_of_add is_digit_def word_le_nat_alt u8_eq_iff)
  then show "{[c] | c. c \<in> bset_of (set_add set_clear 0x31 0x39)} = singles (\<lambda>c. is_digit c \<and> c \<noteq> 0x30)"
    by (simp add: singles_def)
  have "c \<in> bset_of (set_add (set_add set_clear 0x65 0x65) 0x45 0x45) \<longleftrightarrow> c = 0x65 \<or> c = 0x45" for c
    by (auto simp: bset_of_add u8_eq_iff)
  then show "{[c] | c. c \<in> bset_of (set_add (set_add set_clear 0x65 0x65) 0x45 0x45)} = singles (\<lambda>c. c = 0x65 \<or> c = 0x45)"
    by (simp add: singles_def)
  have "c \<in> bset_of hex_set \<longleftrightarrow> is_hex c" for c
    by (auto simp: hex_set_def bset_of_add is_hex_def is_digit_def word_le_nat_alt)
  then show "{[c] | c. c \<in> bset_of hex_set} = singles is_hex" by (simp add: singles_def)
qed

lemma bset_of_list:
  "length s = 32 \<Longrightarrow> bset_of (fold (\<lambda>c s. set_add s (unat c) (unat c)) cs s) = set cs \<union> bset_of s"
proof (induction cs arbitrary: s)
  case (Cons c cs)
  have "{d. unat c \<le> unat d \<and> unat d \<le> unat c} = {c}" by (auto simp: u8_eq_iff)
  then show ?case using Cons by (auto simp: bset_of_add unat_u8_less)
qed simp

lemma simple_texts: "{[c] | c. c \<in> bset_of simple_set} = singles (\<lambda>c. c \<in> {0x22, 0x5c, 0x2f, 0x62, 0x66, 0x6e, 0x72, 0x74})"
proof -
  have "c \<in> bset_of simple_set \<longleftrightarrow> c \<in> {0x22, 0x5c, 0x2f, 0x62, 0x66, 0x6e, 0x72, 0x74}" for c
    unfolding simple_set_def by (subst bset_of_list) auto
  then show ?thesis by (simp add: singles_def)
qed

lemma plain_texts_set: "{[c] | c. c \<in> bset_of plain_set} = singles plain_char"
proof -
  have eq: "plain_set = drop_bit_of 0x5c (drop_bit_of 0x22 (set_add set_clear 0x20 0xff))"
    by (simp add: plain_set_def drop_bit_of_def Let_def del: push_bit_of_1)
  have len: "length (drop_bit_of k t) = length t" for k t by (simp add: drop_bit_of_def)
  have "c \<in> bset_of plain_set \<longleftrightarrow> plain_char c" for c
    using unat_u8_less [of c]
    by (auto simp: eq bset_of_def gset_drop len gset_has_add plain_char_def u8_eq_iff word_le_nat_alt)
  then show ?thesis by (simp add: singles_def)
qed

section \<open>What is granted and how many rules are made\<close>

definition grants :: "nat \<Rightarrow> gbuild \<Rightarrow> gbuild \<Rightarrow> bool" where
  "grants k b b' \<longleftrightarrow> roomy b' \<and> length (alts b) \<le> length (alts b') \<and> n_rules b \<le> n_rules b' \<and> n_rules b' \<le> n_rules b + k"

lemma grants_refl: "roomy b \<Longrightarrow> grants 0 b b"
  by (simp add: grants_def)

lemma grants_trans: "grants k b b1 \<Longrightarrow> grants m b1 b2 \<Longrightarrow> grants (k + m) b b2"
  by (auto simp: grants_def)

lemma grants_mono: "grants k b b' \<Longrightarrow> k \<le> m \<Longrightarrow> grants m b b'"
  by (auto simp: grants_def)

lemma grants_roomy: "grants k b b' \<Longrightarrow> roomy b'"
  by (simp add: grants_def)

lemma grants_part: "roomy b \<Longrightarrow> a < length (alts b) \<Longrightarrow> grants 0 b (gb_part a p b)"
proof (cases p)
  case (PLit t)
  assume "roomy b" "a < length (alts b)"
  then show ?thesis using keeps_lit [of b a t] PLit by (simp add: grants_def keeps_def)
qed (use gb_byte_granted gb_set_granted gb_ref_granted in \<open>auto simp: grants_def\<close>)

lemma grants_parts: "roomy b \<Longrightarrow> a < length (alts b) \<Longrightarrow> grants 0 b (gb_parts a ps b)"
proof (induction ps arbitrary: b)
  case (Cons p ps)
  have eq: "gb_parts a (p # ps) b = gb_parts a ps (gb_part a p b)" by (simp add: gb_parts_def)
  have 1: "grants 0 b (gb_part a p b)" using Cons.prems by (rule grants_part)
  then have "grants 0 (gb_part a p b) (gb_parts a (p # ps) b)"
    using Cons unfolding eq by (auto simp: grants_def)
  from grants_trans [OF 1 this] show ?case by simp
qed (simp add: gb_parts_def grants_refl)

lemma grants_alt: "gb_alt r b = (a, b') \<Longrightarrow> roomy b \<Longrightarrow> grants 0 b b' \<and> a < length (alts b')"
  using gb_alt_granted [of b r a b'] n_rules_alt [of r b a b'] by (simp add: grants_def)

lemma grants_rule: "gb_rule b = (r, b') \<Longrightarrow> roomy b \<Longrightarrow> grants 1 b b'"
  by (auto simp: grants_def gb_rule_def roomy_def)

lemma grants_with: "roomy b \<Longrightarrow> grants 0 b (gb_with r ps b)"
proof -
  assume b: "roomy b"
  obtain a b1 where al: "gb_alt r b = (a, b1)" by force
  note g = grants_alt [OF al b]
  then have "grants 0 b1 (gb_parts a ps b1)" by (auto intro: grants_parts grants_roomy)
  with g have "grants (0 + 0) b (gb_parts a ps b1)" using grants_trans by blast
  then show ?thesis using al by (simp add: gb_with_def)
qed

lemma grants_alts: "roomy b \<Longrightarrow> grants 0 b (gb_alts r pss b)"
proof (induction pss arbitrary: b)
  case (Cons ps pss)
  have 1: "grants 0 b (gb_with r ps b)" using Cons.prems by (rule grants_with)
  then have "grants 0 (gb_with r ps b) (gb_alts r pss (gb_with r ps b))" using Cons.IH grants_roomy by blast
  from grants_trans [OF 1 this] show ?case by (simp add: gb_alts_def)
qed (simp add: gb_alts_def grants_refl)

lemma grants_new: "gb_new pss b = (x, b') \<Longrightarrow> roomy b \<Longrightarrow> grants 1 b b'"
proof -
  assume b: "gb_new pss b = (x, b')" "roomy b"
  obtain b1 where r: "gb_rule b = (x, b1)" "b' = gb_alts x pss b1"
    using b(1) by (auto simp: gb_new_def split: prod.splits)
  note g = grants_rule [OF r(1) b(2)]
  from grants_trans [OF g grants_alts [OF grants_roomy [OF g], of x pss]] show ?thesis by (simp add: r(2))
qed

lemma gb_empty_new: "gb_empty b = gb_new [[]] b"
  by (simp add: gb_empty_def gb_new_def gb_alts_def gb_with_def gb_parts_def split: prod.splits)

section \<open>White space, digits and escapes\<close>

text \<open>A step from a builder that is followed and has room for \<open>k\<close> more rules.\<close>

definition ready :: "nat \<Rightarrow> gbuild \<Rightarrow> bool" where
  "ready k b \<longleftrightarrow> frees b \<and> roomy b \<and> n_rules b + k \<le> NONE"

definition step :: "nat \<Rightarrow> (langs \<Rightarrow> bool) \<Rightarrow> gbuild \<Rightarrow> gbuild \<Rightarrow> (langs \<Rightarrow> bool) \<Rightarrow> bool" where
  "step k K b b' E \<longleftrightarrow> grants k b b' \<and> knows K b b' E"

lemma step_ready: "step k K b b' E \<Longrightarrow> ready (k + m) b \<Longrightarrow> ready m b'"
  by (auto simp: step_def ready_def grants_def knows_def adds_def)

lemma step_trans: "step k K b b1 E \<Longrightarrow> step m E b1 b2 G \<Longrightarrow> step (k + m) K b b2 G"
  unfolding step_def using grants_trans knows_trans by blast

lemma step_frame: "step k K b b' E \<Longrightarrow> step k (\<lambda>L. K L \<and> R L) b b' (\<lambda>L. E L \<and> R L)"
  by (auto simp: step_def knows_def)

lemma step_weaken: "step k K b b' E \<Longrightarrow> (\<And>L. K' L \<Longrightarrow> K L) \<Longrightarrow> (\<And>L. E L \<Longrightarrow> G L) \<Longrightarrow> k \<le> m \<Longrightarrow> step m K' b b' G"
  by (auto simp: step_def knows_def intro: grants_mono)

lemma step_refl: "ready k b \<Longrightarrow> (\<And>L. K L \<Longrightarrow> E L) \<Longrightarrow> step 0 K b b E"
  by (simp add: step_def ready_def grants_refl knows_refl)

lemma ready_mono: "ready k b \<Longrightarrow> m \<le> k \<Longrightarrow> ready m b"
  by (simp add: ready_def)

lemma step_new:
  assumes "gb_new pss b = (x, b')" "ready (Suc k) b"
  shows "step 1 K b b' (\<lambda>L. K L \<and> L x = (\<Union>ps \<in> set pss. parts_words L ps))" "x < NONE"
proof -
  have b: "frees b" "roomy b" "n_rules b + 1 \<le> NONE" using assms(2) by (auto simp: ready_def)
  note g = grants_new [OF assms(1) b(2)]
  then have f: "fine b'" using b(3) by (auto simp: fine_def grants_def roomy_def)
  then show "step 1 K b b' (\<lambda>L. K L \<and> L x = (\<Union>ps \<in> set pss. parts_words L ps))"
    using g new_knows [OF assms(1) b(1)] by (simp add: step_def)
  show "x < NONE" by (rule new_finite [OF assms(1) b(1) f])
qed

lemma at_most_0: "at_most 0 P = {[]}"
  by (simp add: at_most_def)

lemma at_most_Suc: "at_most (Suc n) P = insert [] (conc (singles P) (at_most n P))"
  by (simp add: at_most_def conc_UNION atMost_Suc_eq_insert_0 image_Un)

lemma up_to_step:
  assumes "up_to s n b = (x, b')" "ready (Suc n + k) b" "{[c] | c. c \<in> bset_of s} = singles P"
  shows "step (Suc n) K b b' (\<lambda>L. K L \<and> L x = spell (at_most n P))" "x < NONE"
proof -
  have "step (Suc n) K b b' (\<lambda>L. K L \<and> L x = spell (at_most n P)) \<and> x < NONE"
    using assms(1,2)
  proof (induction n arbitrary: x b' k)
    case 0
    then have "gb_new [[]] b = (x, b')" by (simp add: up_to_def gb_empty_new)
    from step_new(1) [OF this, of k K] step_new(2) [OF this, of k] show ?case using 0(2) by (simp add: at_most_0)
  next
    case (Suc n)
    obtain y b1 where u: "up_to s n b = (y, b1)" by force
    have n: "gb_new [[], [PSet s, PRef y]] b1 = (x, b')"
      using Suc.prems(1) u by (simp add: up_to_def optional_def)
    have 1: "step (Suc n) K b b1 (\<lambda>L. K L \<and> L y = spell (at_most n P))"
      using Suc.IH [OF u, of "Suc k"] Suc.prems(2) by simp
    have "ready (Suc k) b1" by (rule step_ready [OF 1]) (use Suc.prems(2) in simp)
    note 2 = step_new(1) [OF n this, of "\<lambda>L. K L \<and> L y = spell (at_most n P)"] step_new(2) [OF n this]
    have "step (Suc n + 1) K b b' (\<lambda>L. K L \<and> L x = spell (at_most (Suc n) P))"
      by (rule step_weaken [OF step_trans [OF 1 2(1)]])
         (auto simp: assms(3) at_most_Suc spell_union)
    then show ?case using 2(2) by simp
  qed
  then show "step (Suc n) K b b' (\<lambda>L. K L \<and> L x = spell (at_most n P))" "x < NONE" by simp_all
qed

section \<open>The rules made once\<close>

definition cached :: "jsg \<Rightarrow> langs \<Rightarrow> bool" where
  "cached j L \<longleftrightarrow>
     (jg_ws j \<noteq> NONE \<longrightarrow> L (jg_ws j) = spell ws_texts) \<and>
     (jg_digits j \<noteq> NONE \<longrightarrow> L (jg_digits j) = spell (at_most 19 is_digit)) \<and>
     (jg_esc j \<noteq> NONE \<longrightarrow> L (jg_esc j) = spell escape_texts) \<and>
     (jg_string j \<noteq> NONE \<longrightarrow> L (jg_string j) = spell string_texts) \<and>
     (jg_number j \<noteq> NONE \<longrightarrow> L (jg_number j) = spell number_texts) \<and>
     (jg_integer j \<noteq> NONE \<longrightarrow> L (jg_integer j) = spell integer_texts)"

text \<open>The fields the makers of rules leave to their callers.\<close>

definition same_kept :: "jsg \<Rightarrow> jsg \<Rightarrow> bool" where
  "same_kept j j' \<longleftrightarrow> jg_value j' = jg_value j \<and> jg_object j' = jg_object j \<and> jg_array j' = jg_array j \<and>
     jg_string j' = jg_string j \<and> jg_number j' = jg_number j \<and> jg_integer j' = jg_integer j"

lemma cached_build [simp]: "cached (j\<lparr>jg_b := b\<rparr>) = cached j"
  by (simp add: cached_def fun_eq_iff)

lemma same_kept_build [simp]: "same_kept j (j\<lparr>jg_b := b\<rparr>)"
  by (simp add: same_kept_def)

lemma same_kept_trans: "same_kept j j1 \<Longrightarrow> same_kept j1 j2 \<Longrightarrow> same_kept j j2"
  by (simp add: same_kept_def)

lemma ws_step:
  assumes "jsg_ws j = (x, j')" "ready (21 + m) (jg_b j)"
  shows "step 21 (cached j) (jg_b j) (jg_b j') (\<lambda>L. cached j' L \<and> L x = spell ws_texts)" "same_kept j j'"
proof -
  show "same_kept j j'" using assms(1) by (auto simp: jsg_ws_def same_kept_def split: if_splits prod.splits)
  show "step 21 (cached j) (jg_b j) (jg_b j') (\<lambda>L. cached j' L \<and> L x = spell ws_texts)"
  proof (cases "jg_ws j \<noteq> NONE")
    case True
    then have x: "x = jg_ws j" "j' = j" using assms(1) by (auto simp: jsg_ws_def)
    show ?thesis unfolding x(2)
      by (rule step_weaken [OF step_refl [OF assms(2), of "cached j" "cached j"]])
         (use True x(1) in \<open>auto simp: cached_def\<close>)
  next
    case False
    obtain b where u: "up_to space_set 20 (jg_b j) = (x, b)" and j': "j' = j\<lparr>jg_b := b, jg_ws := x\<rparr>"
      using assms(1) False by (auto simp: jsg_ws_def WS_MAX_def split: prod.splits)
    have "ready (Suc 20 + m) (jg_b j)" using assms(2) by simp
    note up = up_to_step(1) [OF u this set_texts(1), of "cached j"]
    have b: "jg_b j' = b" by (simp add: j')
    show ?thesis unfolding b by (rule step_weaken [OF up]) (auto simp: j' cached_def ws_texts_def)
  qed
qed

lemma escape_step:
  assumes "escape_rule j = (x, j')" "ready (2 + m) (jg_b j)"
  shows "step 1 (cached j) (jg_b j) (jg_b j') (\<lambda>L. cached j' L \<and> L x = spell escape_texts)" "same_kept j j'"
proof -
  show "same_kept j j'" using assms(1) by (auto simp: escape_rule_def same_kept_def split: if_splits prod.splits)
  show "step 1 (cached j) (jg_b j) (jg_b j') (\<lambda>L. cached j' L \<and> L x = spell escape_texts)"
  proof (cases "jg_esc j \<noteq> NONE")
    case True
    then have x: "x = jg_esc j" "j' = j" using assms(1) by (auto simp: escape_rule_def)
    show ?thesis unfolding x(2)
      by (rule step_weaken [OF step_refl [OF assms(2), of "cached j" "cached j"]])
         (use True x(1) in \<open>auto simp: cached_def\<close>)
  next
    case False
    let ?pss = "[[PSet simple_set], [PByte 0x75, PSet hex_set, PSet hex_set, PSet hex_set, PSet hex_set]]"
    obtain b where u: "gb_new ?pss (jg_b j) = (x, b)" and j': "j' = j\<lparr>jg_b := b, jg_esc := x\<rparr>"
      using assms(1) False by (auto simp: escape_rule_def split: prod.splits)
    have "ready (Suc 0) (jg_b j)" using assms(2) by (rule ready_mono) simp
    note n = step_new(1) [OF u this, of "cached j"]
    have four: "lpow 4 A = conc A (conc A (conc A A))" for A by (simp add: numeral_eq_Suc)
    have esc: "(\<Union>ps \<in> set ?pss. parts_words L ps) = spell escape_texts" for L
      by (simp add: simple_texts set_texts spell_union escape_texts_def four)
    have b: "jg_b j' = b" by (simp add: j')
    show ?thesis unfolding b by (rule step_weaken [OF n [unfolded esc]]) (auto simp: j' cached_def)
  qed
qed

section \<open>Numbers\<close>

lemma solves_inner:
  assumes "solves b b' L" "n_rules b \<le> n_rules c" "n_rules c' \<le> n_rules b'"
    and "\<And>r. n_rules c \<le> r \<Longrightarrow> r < n_rules c' \<Longrightarrow> alts_of b' r = alts_of c' r"
  shows "solves c c' L"
  using assms by (simp add: solves_def)

definition exponent :: "gbuild \<Rightarrow> nat \<times> gbuild" where
  "exponent b =
     (let (ex, b) = gb_rule b;
          (es, b) = gb_new [[], [PByte 0x2b], [PByte 0x2d]] b;
          b = gb_with ex [] b;
          (a, b) = gb_alt ex b;
          b = gb_parts a [PSet (set_add (set_add set_clear 0x65 0x65) 0x45 0x45), PRef es, PSet digit_set] b;
          (d, b) = digits 3 b
      in (ex, gb_ref a d b))"

lemma exponent_step:
  assumes "exponent b = (x, b')" "ready (7 + m) b"
  shows "step 6 K b b' (\<lambda>L. K L \<and> L x = spell exp_texts)"
proof -
  let ?e = "set_add (set_add set_clear 0x65 0x65) 0x45 0x45"
  obtain b1 where r: "gb_rule b = (x, b1)" using assms(1) by (auto simp: exponent_def Let_def split: prod.splits)
  obtain es b2 where n: "gb_new [[], [PByte 0x2b], [PByte 0x2d]] b1 = (es, b2)" by force
  let ?b3 = "gb_with x [] b2"
  obtain a b4 where al: "gb_alt x ?b3 = (a, b4)" by force
  let ?ps = "[PSet ?e, PRef es, PSet digit_set]"
  let ?b5 = "gb_parts a ?ps b4"
  obtain d b6 where dg: "digits 3 ?b5 = (d, b6)" by force
  have b': "b' = gb_ref a d b6" using assms(1) r n al dg by (simp add: exponent_def Let_def)
  have b: "frees b" "roomy b" "n_rules b + 7 \<le> NONE" using assms(2) by (auto simp: ready_def)
  note ra = rule_adds [OF r b(1)]
  have rdy1: "ready (Suc 4) b1" using ra grants_rule [OF r b(2)] b(3) by (auto simp: ready_def grants_def)
  note sn = step_new(1) [OF n rdy1, of "\<lambda>L. True"]
  have g2: "frees b2" "roomy b2" "adds b1 b2" "n_rules b2 = n_rules b + 2"
    using sn new_adds [OF n ra(5)] ra(2,3) by (auto simp: step_def knows_def grants_def adds_def roomy_def)
  have x2: "x < n_rules b2" using g2(4) ra(2) by simp
  have g3: "roomy ?b3" using grants_with [OF g2(2)] grants_roomy by blast
  note w = with_alts [OF g2(1) x2, of "[]"]
  have w: "frees ?b3" "n_rules ?b3 = n_rules b2" "aprods ?b3 = aprods b2 @ [(x, [])]"
    using w g3 by (simp_all add: roomy_def parts_syms_def)
  have g4: "roomy b4" "a < length (alts b4)" "n_rules b4 = n_rules b2"
    using grants_alt [OF al g3] n_rules_alt [OF al] w(2) by (auto simp: grants_def)
  have g5: "roomy ?b5" "a < length (alts ?b5)" "n_rules ?b5 = n_rules b2"
    using grants_parts [OF g4(1,2), of ?ps] g4 by (auto simp: grants_def)
  have "gb_inv b4" using gb_alt_refines(5) [OF al] g4(1) w(1) by (simp add: roomy_def frees_iff)
  then have ap: "appended a (parts_syms ?ps) b4 ?b5" using g5(1) by (intro gb_parts_appended) (simp_all add: roomy_def)
  have x3: "x < n_rules ?b3" using x2 w(2) by simp
  note c = closed_alt [OF al ap w(1) x3]
  have rdy5: "ready (Suc 3 + 1) ?b5" using c(1) g5 g2(4) b(3) by (simp add: ready_def)
  note dgs = up_to_step(1) [OF dg [unfolded digits_def] rdy5 set_texts(2), of "\<lambda>L. True"]
  then have g6: "grants 4 ?b5 b6" "adds ?b5 b6" by (auto simp: step_def knows_def)
  have g7: "roomy b'" "n_rules b' = n_rules b6"
    using gb_ref_granted [of b6 a d] g6(1) g5(2) by (auto simp: b' grants_def)
  have "appended a [ARule d] b6 b'"
    unfolding b' using g7(1) adds_frees [OF g6(2)] by (intro gb_ref_appended) (auto simp: b' roomy_def frees_iff)
  note o' = open_alt [OF al ap w(1) x3 g6(2) this]
  obtain qs where qs: "aprods b6 = aprods ?b3 @ (x, parts_syms ?ps) # qs"
    "aprods b' = aprods ?b3 @ (x, parts_syms ?ps @ [ARule d]) # qs" "\<forall>p \<in> set qs. n_rules ?b3 \<le> fst p"
    using o'(3) by blast
  have n6: "n_rules b2 \<le> n_rules b6" "n_rules b6 \<le> n_rules b2 + 4" using g6(1) g5(3) by (auto simp: grants_def)
  have qn: "\<forall>p \<in> set qs. n_rules b \<le> fst p" using qs(3) w(2) g2(4) by fastforce
  have ad: "adds b b'"
    by (rule adds_more [OF adds_trans [OF ra(1) g2(3)] o'(1), where qs = "(x, []) # (x, parts_syms ?ps @ [ARule d]) # qs"])
       (use qn qs(2) w(2,3) ra(2) o'(2) n6 g2(4) in auto)
  have at_x: "alts_of b' x = {[], parts_syms ?ps @ [ARule d]}"
  proof -
    have old: "(x, ys) \<notin> set (aprods b)" for ys using b(1) ra(2) by (auto simp: frees_iff rules_known_def)
    obtain ps where ps: "aprods b2 = aprods b1 @ ps" "\<forall>p \<in> set ps. n_rules b1 \<le> fst p"
      using g2(3) by (auto simp: adds_def)
    have new: "(x, ys) \<notin> set ps \<union> set qs" for ys using ps(2) qs(3) w(2) x2 ra(3) by fastforce
    have "(x, ys) \<in> set (aprods b') \<longleftrightarrow> ys = [] \<or> ys = parts_syms ?ps @ [ARule d]" for ys
      using old [of ys] new [of ys] by (auto simp: qs(2) w(3) ps(1) ra(4))
    then show ?thesis by (auto simp: alts_eq [OF o'(1)])
  qed
  have others: "alts_of b' r = alts_of b2 r" if "r < n_rules b2" "r \<noteq> x" for r
    using that qs(2,3) w(2,3) by (fastforce simp: alts_eq [OF o'(1)] alts_eq [OF g2(1)])
  have others6: "alts_of b' r = alts_of b6 r" if "r \<noteq> x" for r
    using that qs(1,2) by (auto simp: alts_eq [OF o'(1)] alts_eq [OF adds_frees [OF g6(2)]])
  have "L x = spell exp_texts" if L: "solves b b' L" for L
  proof -
    have "solves b1 b2 L"
      by (rule solves_inner [OF L]) (use ra(2,3) o'(2) n6 others in auto)
    then have es: "L es = spell {[], [0x2b], [0x2d]}"
      using sn by (simp add: step_def knows_def spell_union insert_commute)
    have "solves ?b5 b6 L"
      by (rule solves_inner [OF L]) (use g5(3) g2(4) o'(2) others6 x2 in auto)
    then have dl: "L d = spell (at_most 3 is_digit)" using dgs by (simp add: step_def knows_def)
    have "n_rules b \<le> x" "x < n_rules b'" using ra(2) o'(2) n6 x2 by simp_all
    from solves_at [OF L this]
    have "L x = spell {[]} \<union> cat (parts_words L ?ps) (cat (L d) (spell {[]}))"
      by (simp add: at_x words_append parts_words_def)
    also have "\<dots> = spell exp_texts"
      unfolding exp_texts_def by (simp add: es dl set_texts spell_union conc_assoc)
    finally show ?thesis .
  qed
  moreover have "grants 6 b b'"
    using g7 n6 g2(4) g5(2) g6(1) grants_rule [OF r b(2)] sn grants_with [OF g2(2), of x "[]"] grants_alt [OF al g3]
      grants_parts [OF g4(1,2), of ?ps] gb_ref_granted [of b6 a d]
    by (auto simp: grants_def b' step_def)
  ultimately show ?thesis using ad by (simp add: step_def knows_def)
qed

lemma number_step:
  assumes "number_rule r j = (x, j')" "ready (32 + m) (jg_b j)"
  shows "step 31 (cached j) (jg_b j) (jg_b j') (\<lambda>L. cached j' L \<and> L x = spell (if r then number_texts else integer_texts))"
    "same_kept j j'" "x < NONE"
proof -
  define j1 where "j1 = (if jg_digits j = NONE
      then case digits (DIGITS_MAX - 1) (jg_b j) of (d, b) \<Rightarrow> j\<lparr>jg_b := b, jg_digits := d\<rparr> else j)"
  have k1: "same_kept j j1" by (auto simp: j1_def same_kept_def split: prod.split)
  have s1: "step 20 (cached j) (jg_b j) (jg_b j1) (\<lambda>L. cached j1 L \<and> L (jg_digits j1) = spell (at_most 19 is_digit))"
  proof (cases "jg_digits j = NONE")
    case True
    obtain d b where u: "up_to digit_set 19 (jg_b j) = (d, b)" by force
    have j1: "j1 = j\<lparr>jg_b := b, jg_digits := d\<rparr>" using True u by (simp add: j1_def digits_def DIGITS_MAX_def)
    have "ready (Suc 19 + 12) (jg_b j)" using assms(2) by (rule ready_mono) simp
    note up = up_to_step(1) [OF u this set_texts(2), of "cached j"]
    have b: "jg_b j1 = b" by (simp add: j1)
    show ?thesis unfolding b by (rule step_weaken [OF up]) (auto simp: j1 cached_def)
  next
    case False
    then have j1: "j1 = j" by (simp add: j1_def)
    show ?thesis unfolding j1
      by (rule step_weaken [OF step_refl [OF assms(2), of "cached j" "cached j"]])
         (use False in \<open>auto simp: cached_def\<close>)
  qed
  let ?dg = "jg_digits j1" and ?b1 = "jg_b j1"
  obtain i b2 where n2: "gb_new [[PByte 0x30], [PSet (set_add set_clear 0x31 0x39), PRef ?dg]] ?b1 = (i, b2)" by force
  obtain sg b3 where n3: "gb_new [[], [PByte 0x2d]] b2 = (sg, b3)" by force
  obtain q b4 where n4: "gb_new [[PRef sg, PRef i]] b3 = (q, b4)" by force
  let ?res = "if \<not> r then (q, b4) else real_parts ?dg sg i b4"
  have res: "(x, j') = (fst ?res, j1\<lparr>jg_b := snd ?res\<rparr>)"
    using assms(1) n2 n3 n4 unfolding number_rule_def Let_def j1_def [symmetric]
    by (auto simp: in_build_def split: prod.splits if_splits)
  then have j': "j' = j1\<lparr>jg_b := snd ?res\<rparr>" and x: "x = fst ?res" by simp_all
  have k2: "same_kept j1 j'" by (simp add: j')
  show "same_kept j j'" by (rule same_kept_trans [OF k1 k2])
  have r1: "ready (Suc 11) ?b1" by (rule step_ready [OF s1]) (use assms(2) ready_mono in auto)
  let ?K1 = "\<lambda>L. cached j1 L \<and> L ?dg = spell (at_most 19 is_digit)"
  note s2 = step_new(1) [OF n2 r1, of ?K1]
  have r2: "ready (Suc 10) b2" by (rule step_ready [OF s2]) (use r1 in simp)
  let ?K2 = "\<lambda>L. ?K1 L \<and> L i = spell int_texts"
  have s2: "step 1 ?K1 ?b1 b2 ?K2"
    by (rule step_weaken [OF s2]) (auto simp: int_texts_def set_texts spell_union)
  note s3 = step_new(1) [OF n3 r2, of ?K2]
  have r3: "ready (Suc 9) b3" by (rule step_ready [OF s3]) (use r2 in simp)
  let ?K3 = "\<lambda>L. ?K2 L \<and> L sg = spell {[], [0x2d]}"
  have s3: "step 1 ?K2 b2 b3 ?K3" by (rule step_weaken [OF s3]) (auto simp: spell_union insert_commute)
  note s4 = step_new(1) [OF n4 r3, of ?K3]
  have r4: "ready (Suc 8) b4" by (rule step_ready [OF s4]) (use r3 in simp)
  let ?K4 = "\<lambda>L. ?K3 L \<and> L q = spell integer_texts"
  have s4: "step 1 ?K3 b3 b4 ?K4" by (rule step_weaken [OF s4]) (auto simp: integer_texts_def)
  have upto4: "step 23 (cached j) (jg_b j) b4 ?K4"
    by (rule step_weaken [OF step_trans [OF step_trans [OF step_trans [OF s1 s2] s3] s4]]) auto
  have "step 31 (cached j) (jg_b j) (jg_b j') (\<lambda>L. cached j' L \<and> L x = spell (if r then number_texts else integer_texts)) \<and> x < NONE"
  proof (cases r)
    case False
    then have "x = q" "jg_b j' = b4" "cached j' = cached j1" using x j' by simp_all
    then show ?thesis using step_weaken [OF upto4] step_new(2) [OF n4 r3] False by simp
  next
    case True
    obtain fr b5 where n5: "gb_new [[], [PByte 0x2e, PSet digit_set, PRef ?dg]] b4 = (fr, b5)" by force
    obtain ex b6 where n6: "exponent b5 = (ex, b6)" by force
    obtain y b7 where n7: "gb_new [[PRef sg, PRef i, PRef fr, PRef ex]] b6 = (y, b7)" by force
    have rp: "real_parts ?dg sg i b4 = (y, b7)"
      using n5 n6 n7 by (auto simp: real_parts_def exponent_def Let_def split: prod.splits)
    have xy: "x = y" "jg_b j' = b7" "cached j' = cached j1" using True x j' rp by simp_all
    note s5 = step_new(1) [OF n5 r4, of ?K4]
    have r5: "ready (7 + 1) b5" by (rule step_ready [OF s5]) (use r4 in simp)
    let ?K5 = "\<lambda>L. ?K4 L \<and> L fr = spell frac_texts"
    have s5: "step 1 ?K4 b4 b5 ?K5"
      by (rule step_weaken [OF s5]) (auto simp: frac_texts_def set_texts spell_union)
    note s6 = exponent_step [OF n6 r5, of ?K5]
    have r6: "ready (Suc 0) b6" by (rule step_ready [OF s6]) (use r5 ready_mono in simp)
    note s7 = step_new(1) [OF n7 r6, of "\<lambda>L. ?K5 L \<and> L ex = spell exp_texts"]
    have "step 31 (cached j) (jg_b j) b7 (\<lambda>L. cached j1 L \<and> L y = spell number_texts)"
      by (rule step_weaken [OF step_trans [OF step_trans [OF step_trans [OF upto4 s5] s6] s7]])
         (auto simp: number_texts_def)
    then show ?thesis using step_new(2) [OF n7 r6] True xy by simp
  qed
  then show "step 31 (cached j) (jg_b j) (jg_b j') (\<lambda>L. cached j' L \<and> L x = spell (if r then number_texts else integer_texts))"
    "x < NONE" by simp_all
qed

section \<open>Strings\<close>

lemma alts_Cons: "gb_alts r (ps # pss) b = gb_alts r pss (gb_with r ps b)"
  by (simp add: gb_alts_def)

lemma rule_eq: "gb_rule b = (n_rules b, b\<lparr>n_rules := Suc (n_rules b)\<rparr>)"
  by (simp add: gb_rule_def)

lemma request_roomy: "roomy b \<Longrightarrow> gb_request b = (True, b)"
  by (rule gb_request_granted)

lemma nil_singles: "[] \<notin> singles P"
  by (simp add: singles_def)

lemma nil_char: "[] \<notin> char_texts"
  by (simp add: char_texts_def nil_singles nil_conc)

lemma spell_after: "(\<Union>n. after (lpow n A) (spell B)) = spell (conc (\<Union>n. lpow n A) B)"
  unfolding cat_spell [symmetric] cat_after by (simp add: after_UNION)

lemma string_step:
  assumes "string_rule 0 None j = (x, j')" "ready (4 + m) (jg_b j)"
  shows "step 3 (cached j) (jg_b j) (jg_b j') (\<lambda>L. cached j' L \<and> L x = spell string_texts)"
    "same_kept j j'" "x < NONE"
proof -
  obtain esc j1 where e: "escape_rule j = (esc, j1)" by force
  let ?b1 = "jg_b j1"
  have "ready (2 + 2) (jg_b j)" using assms(2) by (rule ready_mono) simp
  note es = escape_step [OF e this]
  have r1: "ready (Suc 2) ?b1" by (rule step_ready [OF es(1)]) (use assms(2) ready_mono in simp)
  have b1: "roomy ?b1" "n_rules ?b1 < NONE" using r1 by (auto simp: ready_def)
  let ?c = "n_rules ?b1"
  let ?pss = "[[PByte 0x22], [PSet plain_set, PRef ?c], [PByte 0x5c, PRef esc, PRef ?c]]"
  obtain b2 where n2: "gb_new ?pss ?b1 = (?c, b2)" by (simp add: gb_new_def rule_eq)
  obtain b3 where n3: "gb_new [[PByte 0x22, PRef ?c]] b2 = (x, b3)" and j': "j' = j1\<lparr>jg_b := b3\<rparr>"
    using assms(1) e b1 n2
    by (auto simp: string_rule_def Let_def in_build_def request_roomy rule_eq string_state_def next_state_def
        gb_new_def alts_Cons split: prod.splits)
  note s2 = step_new(1) [OF n2 r1, of "\<lambda>L. cached j1 L \<and> L esc = spell escape_texts"]
  have r2: "ready (Suc 1) b2" by (rule step_ready [OF s2]) (use r1 in \<open>simp add: numeral_eq_Suc\<close>)
  let ?body = "conc (\<Union>n. lpow n char_texts) {[0x22]}"
  have body: "L ?c = spell ?body"
    if "L ?c = (\<Union>ps \<in> set ?pss. parts_words L ps)" "L esc = spell escape_texts" for L
  proof -
    have "L ?c = after char_texts (L ?c) \<union> spell {[0x22]}"
      by (subst that(1))
         (simp add: plain_texts_set that(2) char_texts_def after_union after_conc Un_commute cat_after flip: cat_assoc)
    from loop_unique [OF this nil_char] show ?thesis by (simp add: spell_after)
  qed
  have s2: "step 1 (\<lambda>L. cached j1 L \<and> L esc = spell escape_texts) ?b1 b2 (\<lambda>L. cached j1 L \<and> L ?c = spell ?body)"
    by (rule step_weaken [OF s2]) (use body in auto)
  note s3 = step_new(1) [OF n3 r2, of "\<lambda>L. cached j1 L \<and> L ?c = spell ?body"]
  have "step 3 (cached j) (jg_b j) b3 (\<lambda>L. cached j1 L \<and> L x = spell string_texts)"
    by (rule step_weaken [OF step_trans [OF step_trans [OF es(1) s2] s3]]) (auto simp: string_texts_def)
  then show "step 3 (cached j) (jg_b j) (jg_b j') (\<lambda>L. cached j' L \<and> L x = spell string_texts)" by (simp add: j')
  show "same_kept j j'" by (rule same_kept_trans [OF es(2)]) (simp add: j')
  show "x < NONE" by (rule step_new(2) [OF n3 r2])
qed

section \<open>Arrays\<close>

definition array_words :: "langs \<Rightarrow> nat \<Rightarrow> nat \<Rightarrow> bool" where
  "array_words L item x \<longleftrightarrow>
     (\<exists>c. L x = cat (spell (conc {[0x5b]} (conc ws_texts {[0x5d]}))) (spell {[]}) \<union>
            cat (spell (conc {[0x5b]} ws_texts)) (cat (L item) (cat (spell ws_texts) (L c))) \<and>
          L c = spell {[0x5d]} \<union>
            cat (spell (conc {[0x2c]} ws_texts)) (cat (L item) (cat (spell ws_texts) (L c))))"

lemma array_step:
  assumes "array_rule item 0 None j = (x, j')" "ready (24 + m) (jg_b j)"
  shows "step 23 (cached j) (jg_b j) (jg_b j') (\<lambda>L. cached j' L \<and> array_words L item x)" "same_kept j j'" "x < NONE"
proof -
  obtain w j1 where e: "jsg_ws j = (w, j1)" by force
  let ?b1 = "jg_b j1"
  have "ready (21 + (3 + m)) (jg_b j)" using assms(2) by simp
  note ws = ws_step [OF e this]
  have r1: "ready (Suc 2) ?b1" by (rule step_ready [OF ws(1)]) (use assms(2) ready_mono in simp)
  have b1: "roomy ?b1" "n_rules ?b1 < NONE" using r1 by (auto simp: ready_def)
  let ?c = "n_rules ?b1"
  let ?pss = "[[PByte 0x5d], [PByte 0x2c, PRef w, PRef item, PRef w, PRef ?c]]"
  let ?qss = "[[PByte 0x5b, PRef w, PByte 0x5d], [PByte 0x5b, PRef w, PRef item, PRef w, PRef ?c]]"
  obtain b2 where n2: "gb_new ?pss ?b1 = (?c, b2)" by (simp add: gb_new_def rule_eq)
  obtain b3 where n3: "gb_new ?qss b2 = (x, b3)" and j': "j' = j1\<lparr>jg_b := b3\<rparr>"
    using assms(1) e b1 n2
    by (auto simp: array_rule_def Let_def in_build_def request_roomy rule_eq array_state_def next_state_def
        gb_new_def alts_Cons gb_alts_def [of _ "[]"] split: prod.splits)
  note s2 = step_new(1) [OF n2 r1, of "\<lambda>L. cached j1 L \<and> L w = spell ws_texts"]
  have r2: "ready (Suc 1) b2" by (rule step_ready [OF s2]) (use r1 in \<open>simp add: numeral_eq_Suc\<close>)
  note s3 = step_new(1) [OF n3 r2, of "\<lambda>L. (cached j1 L \<and> L w = spell ws_texts) \<and> L ?c = (\<Union>ps \<in> set ?pss. parts_words L ps)"]
  have fin: "array_words L item x"
    if "L w = spell ws_texts" "L ?c = (\<Union>ps \<in> set ?pss. parts_words L ps)" "L x = (\<Union>ps \<in> set ?qss. parts_words L ps)" for L
    unfolding array_words_def
  proof (intro exI [of _ ?c] conjI)
    show "L x = cat (spell (conc {[0x5b]} (conc ws_texts {[0x5d]}))) (spell {[]}) \<union>
            cat (spell (conc {[0x5b]} ws_texts)) (cat (L item) (cat (spell ws_texts) (L ?c)))"
      by (subst that(3)) (simp add: that(1) cat_assoc flip: cat_spell)
    show "L ?c = spell {[0x5d]} \<union> cat (spell (conc {[0x2c]} ws_texts)) (cat (L item) (cat (spell ws_texts) (L ?c)))"
      by (subst that(2)) (simp add: that(1) cat_assoc flip: cat_spell)
  qed
  have "step 23 (cached j) (jg_b j) b3 (\<lambda>L. cached j1 L \<and> array_words L item x)"
    by (rule step_weaken [OF step_trans [OF step_trans [OF ws(1) s2] s3]]) (use fin in auto)
  then show "step 23 (cached j) (jg_b j) (jg_b j') (\<lambda>L. cached j' L \<and> array_words L item x)" by (simp add: j')
  show "same_kept j j'" by (rule same_kept_trans [OF ws(2)]) (simp add: j')
  show "x < NONE" by (rule step_new(2) [OF n3 r2])
qed

section \<open>Maps\<close>

text \<open>Two rules made before the alternatives of either.\<close>

lemma two_rules:
  assumes "gb_rule b = (x, b1)" "gb_rule b1 = (y, b2)" "b3 = gb_with x ps b2" "b4 = gb_alts y qss b3" "ready (2 + m) b"
  shows "step 2 K b b4 (\<lambda>L. K L \<and> L x = parts_words L ps \<and> L y = (\<Union>qs \<in> set qss. parts_words L qs))"
proof -
  have b: "frees b" "roomy b" using assms(5) by (auto simp: ready_def)
  note r1 = rule_adds [OF assms(1) b(1)]
  note r2 = rule_adds [OF assms(2) r1(5)]
  have g2: "grants 2 b b2"
    using grants_trans [OF grants_rule [OF assms(1) b(2)] grants_rule [OF assms(2) grants_roomy [OF grants_rule [OF assms(1) b(2)]]]]
    by (simp add: numeral_2_eq_2)
  have g3: "grants 0 b2 b3" unfolding assms(3) by (rule grants_with [OF grants_roomy [OF g2]])
  have g4: "grants 0 b3 b4" unfolding assms(4) by (rule grants_alts [OF grants_roomy [OF g3]])
  have g: "grants 2 b b4" using grants_trans [OF grants_trans [OF g2 g3] g4] by simp
  have n: "x = n_rules b" "y = Suc x" "n_rules b2 = Suc y" using r1(2,3) r2(2,3) by simp_all
  have x2: "x < n_rules b2" using n by simp
  have nf: "\<not> gfailed b3" "\<not> gfailed b4" using g3 g4 by (auto simp: grants_def roomy_def)
  note w = with_alts [OF r2(5) x2 nf(1) [unfolded assms(3)], folded assms(3)]
  have y3: "y < n_rules b3" using n w(2) by simp
  note a = alts_alts [OF w(1) y3 nf(2) [unfolded assms(4)], folded assms(4)]
  have ap: "aprods b4 = aprods b @ (x, parts_syms ps) # map (\<lambda>qs. (y, parts_syms qs)) qss"
    using a w(3) r1(4) r2(4) by simp
  have ad: "adds b b4"
    unfolding adds_def using a w(2) n ap
    by (intro conjI exI [of _ "(x, parts_syms ps) # map (\<lambda>qs. (y, parts_syms qs)) qss"]) auto
  have old: "(r, ys) \<notin> set (aprods b)" if "n_rules b \<le> r" for r ys
    using b(1) that by (auto simp: frees_iff rules_known_def)
  have at: "alts_of b4 x = {parts_syms ps}" "alts_of b4 y = parts_syms ` set qss"
    using old n by (auto simp: alts_eq [OF conjunct1 [OF a]] ap)
  have "L x = parts_words L ps \<and> L y = (\<Union>qs \<in> set qss. parts_words L qs)" if "solves b b4 L" for L
  proof
    have "n_rules b \<le> x" "x < n_rules b4" "n_rules b \<le> y" "y < n_rules b4" using n w(2) a by simp_all
    note eq = solves_at [OF that this(1,2)] solves_at [OF that this(3,4)]
    show "L x = parts_words L ps" using eq(1) by (simp add: at parts_words_def)
    show "L y = (\<Union>qs \<in> set qss. parts_words L qs)" using eq(2) by (simp add: at parts_words_def)
  qed
  then show ?thesis using g ad by (simp add: step_def knows_def)
qed

definition member_words :: "langs \<Rightarrow> nat \<Rightarrow> gsym list set" where
  "member_words L val =
     cat (spell (conc string_texts (conc ws_texts (conc {[0x3a]} ws_texts)))) (cat (L val) (spell ws_texts))"

definition map_words :: "langs \<Rightarrow> nat \<Rightarrow> nat \<Rightarrow> bool" where
  "map_words L val x \<longleftrightarrow>
     (\<exists>r. L x = cat (spell (conc {[0x7b]} (conc ws_texts {[0x7d]}))) (spell {[]}) \<union>
            cat (spell (conc {[0x7b]} ws_texts)) (cat (member_words L val) (L r)) \<and>
          L r = spell {[0x7d]} \<union> cat (spell (conc {[0x2c]} ws_texts)) (cat (member_words L val) (L r)))"

lemma map_step:
  assumes "map_rule val j = (x, j')" "ready (28 + m) (jg_b j)"
  shows "step 27 (cached j) (jg_b j) (jg_b j') (\<lambda>L. cached j' L \<and> map_words L val x)" "same_kept j j'" "x < NONE"
proof -
  obtain w j1 where e: "jsg_ws j = (w, j1)" by force
  have "ready (21 + (7 + m)) (jg_b j)" using assms(2) by simp
  note ws = ws_step [OF e this]
  obtain k j2 where e2: "string_rule 0 None j1 = (k, j2)" by force
  have rj: "ready (4 + 3) (jg_b j1)" by (rule step_ready [OF ws(1)]) (use assms(2) ready_mono in simp)
  note st = string_step [OF e2 rj]
  have r2: "ready (2 + 2) (jg_b j2)" by (rule step_ready [OF st(1)]) (use rj in simp)
  obtain mb b3 where n3: "gb_rule (jg_b j2) = (mb, b3)" by force
  obtain r b4 where n4: "gb_rule b3 = (r, b4)" by force
  let ?ps = "[PRef k, PRef w, PByte 0x3a, PRef w, PRef val, PRef w]"
  let ?qss = "[[PByte 0x7d], [PByte 0x2c, PRef w, PRef mb, PRef r]]"
  let ?b6 = "gb_alts r ?qss (gb_with mb ?ps b4)"
  let ?tss = "[[PByte 0x7b, PRef w, PByte 0x7d], [PByte 0x7b, PRef w, PRef mb, PRef r]]"
  obtain b7 where n7: "gb_new ?tss ?b6 = (x, b7)" and j': "j' = j2\<lparr>jg_b := b7\<rparr>"
    using assms(1) e e2 n3 n4 by (auto simp: map_rule_def Let_def in_build_def split: prod.splits)
  let ?K = "\<lambda>L. (cached j2 L \<and> L k = spell string_texts) \<and> L w = spell ws_texts"
  note tw = two_rules [where K = ?K and ps = ?ps and qss = ?qss, OF n3 n4 refl refl r2]
  let ?E = "\<lambda>L. ?K L \<and> L mb = parts_words L ?ps \<and> L r = (\<Union>qs \<in> set ?qss. parts_words L qs)"
  have r6: "ready (Suc 1) ?b6" by (rule step_ready [OF tw]) (use r2 in simp)
  note s7 = step_new(1) [OF n7 r6, of ?E]
  have fin: "map_words L val x" if E: "?E L" and x: "L x = (\<Union>ps \<in> set ?tss. parts_words L ps)" for L
  proof -
    have L: "L k = spell string_texts" "L w = spell ws_texts" "L mb = parts_words L ?ps"
      "L r = (\<Union>qs \<in> set ?qss. parts_words L qs)" using E by blast+
    have mw: "L mb = member_words L val"
      unfolding member_words_def by (subst L(3)) (simp add: L(1,2) cat_assoc flip: cat_spell)
    show ?thesis unfolding map_words_def
    proof (intro exI [of _ r] conjI)
      show "L x = cat (spell (conc {[0x7b]} (conc ws_texts {[0x7d]}))) (spell {[]}) \<union>
            cat (spell (conc {[0x7b]} ws_texts)) (cat (member_words L val) (L r))"
        by (subst x) (simp add: L(2) mw cat_assoc flip: cat_spell)
      show "L r = spell {[0x7d]} \<union> cat (spell (conc {[0x2c]} ws_texts)) (cat (member_words L val) (L r))"
        by (subst L(4)) (simp add: L(2) mw cat_assoc flip: cat_spell)
    qed
  qed
  have "step 3 (\<lambda>L. cached j1 L \<and> L w = spell ws_texts) (jg_b j1) (jg_b j2) ?K"
    by (rule step_frame [OF st(1)])
  from step_trans [OF step_trans [OF step_trans [OF ws(1) this] tw] s7]
  have "step 27 (cached j) (jg_b j) b7 (\<lambda>L. cached j2 L \<and> map_words L val x)"
    by (rule step_weaken) (use fin in auto)
  then show "step 27 (cached j) (jg_b j) (jg_b j') (\<lambda>L. cached j' L \<and> map_words L val x)" by (simp add: j')
  show "same_kept j j'" by (rule same_kept_trans [OF same_kept_trans [OF ws(2) st(2)]]) (simp add: j')
  show "x < NONE" by (rule step_new(2) [OF n7 r6])
qed

section \<open>Any value\<close>

lemma alts_at:
  assumes "frees b" "x < n_rules b" "\<not> gfailed (gb_alts x pss b)" "\<And>ys. (x, ys) \<notin> set (aprods b)"
  shows "alts_of (gb_alts x pss b) x = parts_syms ` set pss" "q \<noteq> x \<Longrightarrow> alts_of (gb_alts x pss b) q = alts_of b q"
proof -
  note a = alts_alts [OF assms(1-3)]
  show "alts_of (gb_alts x pss b) x = parts_syms ` set pss"
    using a assms(4) by (auto simp: alts_eq)
  show "q \<noteq> x \<Longrightarrow> alts_of (gb_alts x pss b) q = alts_of b q"
    using a assms(1) by (auto simp: alts_eq)
qed

definition value_words :: "langs \<Rightarrow> nat \<Rightarrow> nat \<Rightarrow> nat \<Rightarrow> bool" where
  "value_words L v ob ar \<longleftrightarrow> map_words L v ob \<and> array_words L v ar \<and>
     L v = L ob \<union> L ar \<union> spell (string_texts \<union> number_texts \<union> {lit ''true'', lit ''false'', lit ''null''})"

definition string_once :: "jsg \<Rightarrow> jsg" where
  "string_once j = (if jg_string j = NONE then case string_rule 0 None j of (x, j) \<Rightarrow> j\<lparr>jg_string := x\<rparr> else j)"

definition number_once :: "jsg \<Rightarrow> jsg" where
  "number_once j = (if jg_number j = NONE then case number_rule True j of (x, j) \<Rightarrow> j\<lparr>jg_number := x\<rparr> else j)"

lemma string_once_step:
  assumes "ready (4 + m) (jg_b j)"
  shows "step 3 (cached j) (jg_b j) (jg_b (string_once j)) (cached (string_once j))" "jg_string (string_once j) \<noteq> NONE"
    "jg_value (string_once j) = jg_value j"
proof -
  obtain x j1 where r: "string_rule 0 None j = (x, j1)" by force
  note s = string_step [OF r assms]
  show "jg_string (string_once j) \<noteq> NONE" "jg_value (string_once j) = jg_value j"
    using s(2,3) r by (auto simp: string_once_def same_kept_def)
  show "step 3 (cached j) (jg_b j) (jg_b (string_once j)) (cached (string_once j))"
  proof (cases "jg_string j = NONE")
    case True
    then have eq: "string_once j = j1\<lparr>jg_string := x\<rparr>" using r by (simp add: string_once_def)
    have b: "jg_b (string_once j) = jg_b j1" by (simp add: eq)
    show ?thesis unfolding b by (rule step_weaken [OF s(1)]) (auto simp: eq cached_def)
  next
    case False
    then have eq: "string_once j = j" by (simp add: string_once_def)
    show ?thesis unfolding eq by (rule step_weaken [OF step_refl [OF assms, of "cached j" "cached j"]]) auto
  qed
qed

lemma number_once_step:
  assumes "ready (32 + m) (jg_b j)"
  shows "step 31 (cached j) (jg_b j) (jg_b (number_once j)) (cached (number_once j))" "jg_number (number_once j) \<noteq> NONE"
    "jg_value (number_once j) = jg_value j" "jg_string (number_once j) = jg_string j"
proof -
  obtain x j1 where r: "number_rule True j = (x, j1)" by force
  note s = number_step [OF r assms]
  show "jg_number (number_once j) \<noteq> NONE" "jg_value (number_once j) = jg_value j" "jg_string (number_once j) = jg_string j"
    using s(2,3) r by (auto simp: number_once_def same_kept_def)
  show "step 31 (cached j) (jg_b j) (jg_b (number_once j)) (cached (number_once j))"
  proof (cases "jg_number j = NONE")
    case True
    then have eq: "number_once j = j1\<lparr>jg_number := x\<rparr>" using r by (simp add: number_once_def)
    have b: "jg_b (number_once j) = jg_b j1" by (simp add: eq)
    show ?thesis unfolding b by (rule step_weaken [OF s(1)]) (auto simp: eq cached_def)
  next
    case False
    then have eq: "number_once j = j" by (simp add: number_once_def)
    show ?thesis unfolding eq by (rule step_weaken [OF step_refl [OF assms, of "cached j" "cached j"]]) auto
  qed
qed

lemma any_words:
  assumes "jsg_any j = (x, j')" "jg_value j = NONE" "ready 88 (jg_b j)"
  shows "step 85 (cached j) (jg_b j) (jg_b j') (\<lambda>L. value_words L x (jg_object j') (jg_array j'))" "jg_value j' = x"
proof -
  let ?b = "jg_b j"
  obtain v b1 where r: "gb_rule ?b = (v, b1)" by force
  let ?j1 = "j\<lparr>jg_b := b1, jg_value := v\<rparr>"
  let ?j2 = "string_once ?j1" let ?j3 = "number_once ?j2"
  obtain ob j4 where e4: "map_rule v ?j3 = (ob, j4)" by force
  let ?j4 = "j4\<lparr>jg_object := ob\<rparr>"
  obtain ar j5 where e5: "array_rule v 0 None ?j4 = (ar, j5)" by force
  let ?j5 = "j5\<lparr>jg_array := ar\<rparr>"
  let ?pss = "[[PRef (jg_object ?j5)], [PRef ar], [PRef (jg_string ?j5)], [PRef (jg_number ?j5)],
               [PLit (lit ''true'')], [PLit (lit ''false'')], [PLit (lit ''null'')]]"
  let ?b6 = "gb_alts v ?pss (jg_b j5)"
  have b: "frees ?b" "roomy ?b" "n_rules ?b + 88 \<le> NONE" using assms(3) by (auto simp: ready_def)
  note ra = rule_adds [OF r b(1)] grants_rule [OF r b(2)]
  have r1: "ready (4 + 83) (jg_b ?j1)" using ra b(3) by (auto simp: ready_def grants_def)
  note s2 = string_once_step [OF r1]
  have r2: "ready (32 + 52) (jg_b ?j2)" by (rule step_ready [OF s2(1)]) (use r1 in simp)
  note s3 = number_once_step [OF r2]
  have r3: "ready (28 + 25) (jg_b ?j3)" by (rule step_ready [OF s3(1)]) (use r2 in simp)
  note s4 = map_step [OF e4 r3]
  have r4: "ready (24 + 2) (jg_b ?j4)" by (rule step_ready [of 27, OF _]) (use s4(1) r3 in simp_all)
  note s5 = array_step [OF e5 r4]
  have c1: "cached ?j1 = cached j" by (simp add: cached_def fun_eq_iff)
  have c4: "cached ?j4 = cached j4" by (simp add: cached_def fun_eq_iff)
  have k: "jg_value j5 = v" "jg_object ?j5 = ob" "jg_string ?j5 = jg_string ?j3" "jg_number ?j5 = jg_number ?j3"
    using s2(3) s3(3,4) s4(2) s5(2) by (auto simp: same_kept_def)
  have any: "(x, j') = (v, ?j5\<lparr>jg_b := ?b6\<rparr>)"
    using assms(1,2) r e4 e5 k(1,2)
    by (auto simp: jsg_any_def Let_def simp flip: string_once_def number_once_def)
  then have x: "x = v" and j': "jg_b j' = ?b6" "jg_object j' = ob" "jg_array j' = ar" "jg_value j' = v"
    using k by simp_all
  show "jg_value j' = x" by (simp add: x j')
  have "step 27 (cached ?j3) (jg_b ?j3) (jg_b ?j4) (\<lambda>L. cached ?j4 L \<and> map_words L v ob)"
    using s4(1) by (simp add: c4)
  from step_trans [OF step_trans [OF step_trans [OF s2(1) s3(1)] this] step_frame [OF s5(1)]]
  have s15: "step 84 (cached j) b1 (jg_b j5) (\<lambda>L. (cached j5 L \<and> array_words L v ar) \<and> map_words L v ob)"
    by (simp add: c1)
  then have g5: "frees (jg_b j5)" "roomy (jg_b j5)" "adds b1 (jg_b j5)" "n_rules b1 \<le> n_rules (jg_b j5)" "grants 84 b1 (jg_b j5)"
    by (auto simp: step_def knows_def adds_def grants_def)
  have g6: "grants 0 (jg_b j5) ?b6" by (rule grants_alts [OF g5(2)])
  have v5: "v < n_rules (jg_b j5)" using ra(2,3) g5(4) by simp
  have nf6: "\<not> gfailed ?b6" using g6 by (auto simp: grants_def roomy_def)
  note a = alts_alts [OF g5(1) v5 nf6]
  have ad: "adds ?b ?b6"
    by (rule adds_more [OF adds_trans [OF ra(1) g5(3)], where qs = "map (\<lambda>ps. (v, parts_syms ps)) ?pss"])
       (use a ra(2) in auto)
  have new: "(v, ys) \<notin> set (aprods (jg_b j5))" for ys
  proof -
    obtain ps where ps: "aprods (jg_b j5) = aprods b1 @ ps" "\<forall>p \<in> set ps. n_rules b1 \<le> fst p"
      using g5(3) by (auto simp: adds_def)
    have "(v, ys) \<notin> set ps" using ps(2) ra(2,3) by fastforce
    moreover have "(v, ys) \<notin> set (aprods ?b)" using b(1) ra(2) by (auto simp: frees_iff rules_known_def)
    ultimately show ?thesis using ps(1) ra(4) by simp
  qed
  note at_v = alts_at(1) [OF g5(1) v5 nf6 new] and others = alts_at(2) [OF g5(1) v5 nf6 new]
  have "value_words L v ob ar" if L: "solves ?b ?b6 L" and K: "cached j L" for L
  proof -
    have "solves b1 (jg_b j5) L"
      by (rule solves_inner [OF L]) (use ra(2,3) a others in auto)
    then have E: "cached j5 L" "array_words L v ar" "map_words L v ob"
      using s15 K by (auto simp: step_def knows_def)
    have sn: "L (jg_string ?j5) = spell string_texts" "L (jg_number ?j5) = spell number_texts"
      using E(1) s2(2) s3(2,4) k(3,4) by (simp_all add: cached_def)
    have "n_rules ?b \<le> v" "v < n_rules ?b6" using ra(2) v5 a by simp_all
    from solves_at [OF L this, unfolded at_v] have "L v = (\<Union>ps \<in> set ?pss. parts_words L ps)"
      by (simp add: parts_words_def)
    also have "\<dots> = L ob \<union> L ar \<union> spell (string_texts \<union> number_texts \<union> {lit ''true'', lit ''false'', lit ''null''})"
      using sn k(2) by simp (auto simp: spell_def)
    finally show ?thesis using E(2,3) by (simp add: value_words_def)
  qed
  moreover have "grants 85 ?b ?b6" using grants_trans [OF grants_trans [OF ra(6) g5(5)] g6] by simp
  ultimately show "step 85 (cached j) ?b (jg_b j') (\<lambda>L. value_words L x (jg_object j') (jg_array j'))"
    using ad by (simp add: step_def knows_def x j')
qed

end
