(* ===== verification/Schema_Json_Text.thy ===== *)
theory Schema_Json_Text
  imports Schema_Json_Lang
begin

text \<open>
  The equations of \<open>Schema_Json_Lang\<close> have one solution, the texts of JSON, because every item of
  an array and every member of an object comes after a byte of its own. So \<open>janas_jsg_any\<close> makes a
  rule of exactly these texts.
\<close>

section \<open>The only solution\<close>

definition pair_words :: "gsym list set \<Rightarrow> gsym list set" where
  "pair_words V =
     cat (spell (conc string_texts (conc ws_texts (conc {[0x3a]} ws_texts)))) (cat V (spell ws_texts))"

definition item_words :: "u8 \<Rightarrow> gsym list set \<Rightarrow> gsym list set \<Rightarrow> gsym list set" where
  "item_words x V C = cat (spell (conc {[x]} ws_texts)) (cat V (cat (spell ws_texts) C))"

definition next_words :: "u8 \<Rightarrow> gsym list set \<Rightarrow> gsym list set \<Rightarrow> gsym list set" where
  "next_words x M R = cat (spell (conc {[x]} ws_texts)) (cat M R)"

text \<open>The values, what follows an item, and what follows a member.\<close>

definition json_system :: "gsym list set \<Rightarrow> gsym list set \<Rightarrow> gsym list set \<Rightarrow> bool" where
  "json_system V C R \<longleftrightarrow>
     V = spell (conc {[0x7b]} (conc ws_texts {[0x7d]})) \<union> next_words 0x7b (pair_words V) R \<union>
         spell (conc {[0x5b]} (conc ws_texts {[0x5d]})) \<union> item_words 0x5b V C \<union>
         spell (string_texts \<union> number_texts \<union> {lit ''true'', lit ''false'', lit ''null''}) \<and>
     C = spell {[0x5d]} \<union> item_words 0x2c V C \<and>
     R = spell {[0x7d]} \<union> next_words 0x2c (pair_words V) R"

lemma in_cat: "w \<in> cat A B \<longleftrightarrow> (\<exists>u v. w = u @ v \<and> u \<in> A \<and> v \<in> B)"
  by (auto simp: cat_def)

lemma in_spell: "w \<in> spell A \<longleftrightarrow> (\<exists>u. w = map Byte u \<and> u \<in> A)"
  by (auto simp: spell_def)

lemma in_conc: "w \<in> conc A B \<longleftrightarrow> (\<exists>u v. w = u @ v \<and> u \<in> A \<and> v \<in> B)"
  by (auto simp: conc_def)

lemma spell_cat:
  assumes "w \<in> cat (spell A) B"
  obtains u v where "w = map Byte u @ v" "u \<in> A" "v \<in> B"
  using assms unfolding in_cat in_spell by blast

lemma item_split:
  assumes "w \<in> item_words x V C"
  obtains s a b t where "w = Byte x # map Byte s @ a @ map Byte b @ t" "s \<in> ws_texts" "a \<in> V" "b \<in> ws_texts" "t \<in> C"
proof -
  obtain q y1 where 1: "w = map Byte q @ y1" "q \<in> conc {[x]} ws_texts" "y1 \<in> cat V (cat (spell ws_texts) C)"
    using assms unfolding item_words_def by (rule spell_cat)
  obtain s where s: "q = x # s" "s \<in> ws_texts" using 1(2) by (auto simp: in_conc)
  obtain a y2 where 2: "y1 = a @ y2" "a \<in> V" "y2 \<in> cat (spell ws_texts) C" using 1(3) by (rule catE)
  obtain b t where 3: "y2 = map Byte b @ t" "b \<in> ws_texts" "t \<in> C" using 2(3) by (rule spell_cat)
  show thesis by (rule that [of s a b t]) (use 1 s 2 3 in simp_all)
qed

lemma next_split:
  assumes "w \<in> next_words x M R"
  obtains s a t where "w = Byte x # map Byte s @ a @ t" "s \<in> ws_texts" "a \<in> M" "t \<in> R"
proof -
  obtain q y1 where 1: "w = map Byte q @ y1" "q \<in> conc {[x]} ws_texts" "y1 \<in> cat M R"
    using assms unfolding next_words_def by (rule spell_cat)
  obtain s where s: "q = x # s" "s \<in> ws_texts" using 1(2) by (auto simp: in_conc)
  obtain a t where 2: "y1 = a @ t" "a \<in> M" "t \<in> R" using 1(3) by (rule catE)
  show thesis by (rule that [of s a t]) (use 1 s 2 in simp_all)
qed

lemma pair_split:
  assumes "w \<in> pair_words V"
  obtains k s s' a b where "w = map Byte (k @ s @ 0x3a # s') @ a @ map Byte b"
    "k \<in> string_texts" "s \<in> ws_texts" "s' \<in> ws_texts" "a \<in> V" "b \<in> ws_texts"
proof -
  obtain q y1 where 1: "w = map Byte q @ y1" "q \<in> conc string_texts (conc ws_texts (conc {[0x3a]} ws_texts))"
      "y1 \<in> cat V (spell ws_texts)"
    using assms unfolding pair_words_def by (rule spell_cat)
  obtain k s s' where k: "q = k @ s @ 0x3a # s'" "k \<in> string_texts" "s \<in> ws_texts" "s' \<in> ws_texts"
    using 1(2) by (auto simp: in_conc)
  obtain a y2 where 2: "y1 = a @ y2" "a \<in> V" "y2 \<in> spell ws_texts" using 1(3) by (rule catE)
  obtain b where "y2 = map Byte b" "b \<in> ws_texts" using 2(3) by (auto simp: in_spell)
  then show thesis by (intro that [of k s s' a b]) (use 1 k 2 in simp_all)
qed

text \<open>Values, members and what follows them, shorter than \<open>n\<close>.\<close>

definition sound_below :: "nat \<Rightarrow> gsym list set \<Rightarrow> gsym list set \<Rightarrow> gsym list set \<Rightarrow> bool" where
  "sound_below n V C R \<longleftrightarrow> (\<forall>w. length w < n \<longrightarrow>
     (w \<in> V \<longrightarrow> w \<in> spell {u. json_value u}) \<and> (w \<in> C \<longrightarrow> w \<in> spell {u. more_items u}) \<and>
     (w \<in> R \<longrightarrow> w \<in> spell {u. more_members u}))"

lemma sound_belowD:
  assumes "sound_below n V C R" "length w < n"
  shows "w \<in> V \<Longrightarrow> \<exists>u. w = map Byte u \<and> json_value u" "w \<in> C \<Longrightarrow> \<exists>u. w = map Byte u \<and> more_items u"
    "w \<in> R \<Longrightarrow> \<exists>u. w = map Byte u \<and> more_members u"
  using assms by (auto simp: sound_below_def in_spell)

lemma pair_sound:
  assumes "sound_below n V C R" "w \<in> pair_words V" "length w \<le> n"
  shows "\<exists>u. w = map Byte u \<and> member u"
proof -
  obtain k s s' a b where w: "w = map Byte (k @ s @ 0x3a # s') @ a @ map Byte b"
    "k \<in> string_texts" "s \<in> ws_texts" "s' \<in> ws_texts" "a \<in> V" "b \<in> ws_texts"
    using assms(2) by (rule pair_split)
  have "length a < n" using w(1) assms(3) by simp
  then obtain u where u: "a = map Byte u" "json_value u" using assms(1) w(5) by (auto simp: sound_below_def in_spell)
  then have "w = map Byte (k @ s @ [0x3a] @ s' @ u @ b)" using w(1) by simp
  then show ?thesis using m_member [OF w(2-4) u(2) w(6)] by blast
qed

lemma item_sound:
  assumes "sound_below (length w) V C R" "w \<in> item_words x V C"
  shows "\<exists>s a b t. w = map Byte ([x] @ s @ a @ b @ t) \<and> s \<in> ws_texts \<and> json_value a \<and> b \<in> ws_texts \<and> more_items t"
proof -
  obtain s a b t where w: "w = Byte x # map Byte s @ a @ map Byte b @ t" "s \<in> ws_texts" "a \<in> V" "b \<in> ws_texts" "t \<in> C"
    using assms(2) by (rule item_split)
  have len: "length a < length w" "length t < length w" using w(1) by simp_all
  obtain a' where a: "a = map Byte a'" "json_value a'" using sound_belowD(1) [OF assms(1) len(1) w(3)] by blast
  obtain t' where t: "t = map Byte t'" "more_items t'" using sound_belowD(2) [OF assms(1) len(2) w(5)] by blast
  show ?thesis
    by (intro exI [of _ s] exI [of _ a'] exI [of _ b] exI [of _ t'] conjI w(2,4) a(2) t(2)) (simp add: w(1) a(1) t(1))
qed

lemma next_sound:
  assumes "sound_below (length w) V C R" "w \<in> next_words x (pair_words V) R"
  shows "\<exists>s a t. w = map Byte ([x] @ s @ a @ t) \<and> s \<in> ws_texts \<and> member a \<and> more_members t"
proof -
  obtain s a t where w: "w = Byte x # map Byte s @ a @ t" "s \<in> ws_texts" "a \<in> pair_words V" "t \<in> R"
    using assms(2) by (rule next_split)
  have len: "length a \<le> length w" "length t < length w" using w(1) by simp_all
  obtain a' where a: "a = map Byte a'" "member a'" using pair_sound [OF assms(1) w(3) len(1)] by blast
  obtain t' where t: "t = map Byte t'" "more_members t'" using sound_belowD(3) [OF assms(1) len(2) w(4)] by blast
  show ?thesis
    by (intro exI [of _ s] exI [of _ a'] exI [of _ t'] conjI w(2) a(2) t(2)) (simp add: w(1) a(1) t(1))
qed

lemma json_sound:
  assumes "json_system V C R"
  shows "sound_below n V C R"
proof (induction n)
  case 0
  show ?case by (simp add: sound_below_def)
next
  case (Suc n)
  show ?case unfolding sound_below_def
  proof (intro allI impI)
    fix w :: "gsym list" assume "length w < Suc n"
    then have b: "sound_below (length w) V C R" using Suc by (simp add: sound_below_def)
    have "w \<in> spell {u. json_value u}" if "w \<in> V"
    proof -
      from subsetD [OF equalityD1 [OF conjunct1 [OF assms [unfolded json_system_def]]] that]
      consider "w \<in> spell (conc {[0x7b]} (conc ws_texts {[0x7d]}))" | "w \<in> next_words 0x7b (pair_words V) R"
        | "w \<in> spell (conc {[0x5b]} (conc ws_texts {[0x5d]}))" | "w \<in> item_words 0x5b V C"
        | "w \<in> spell (string_texts \<union> number_texts \<union> {lit ''true'', lit ''false'', lit ''null''})"
        unfolding Un_iff by blast
      then show ?thesis
      proof cases
        case 1
        then show ?thesis using v_empty_object by (fastforce simp: in_spell in_conc)
      next
        case 2
        from next_sound [OF b this] show ?thesis unfolding in_spell using v_object by blast
      next
        case 3
        then show ?thesis using v_empty_array by (fastforce simp: in_spell in_conc)
      next
        case 4
        from item_sound [OF b this] show ?thesis unfolding in_spell using v_array by blast
      next
        case 5
        then show ?thesis unfolding in_spell using v_string v_number v_word by blast
      qed
    qed
    moreover have "w \<in> spell {u. more_items u}" if "w \<in> C"
    proof -
      have "w \<in> spell {[0x5d]} \<or> w \<in> item_words 0x2c V C" using that assms unfolding json_system_def by blast
      then show ?thesis unfolding in_spell using item_sound [OF b] i_item i_end by blast
    qed
    moreover have "w \<in> spell {u. more_members u}" if "w \<in> R"
    proof -
      have "w \<in> spell {[0x7d]} \<or> w \<in> next_words 0x2c (pair_words V) R" using that assms unfolding json_system_def by blast
      then show ?thesis unfolding in_spell using next_sound [OF b] r_member r_end by blast
    qed
    ultimately show "(w \<in> V \<longrightarrow> w \<in> spell {u. json_value u}) \<and> (w \<in> C \<longrightarrow> w \<in> spell {u. more_items u}) \<and>
        (w \<in> R \<longrightarrow> w \<in> spell {u. more_members u})" by blast
  qed
qed

lemma spellI: "u \<in> A \<Longrightarrow> map Byte u \<in> spell A"
  by (simp add: spell_def)

lemma concI: "u \<in> A \<Longrightarrow> v \<in> B \<Longrightarrow> u @ v \<in> conc A B"
  by (auto simp: conc_def)

lemma item_in:
  assumes "w \<in> ws_texts" "map Byte v \<in> V" "w' \<in> ws_texts" "map Byte t \<in> C"
  shows "map Byte ([x] @ w @ v @ w' @ t) \<in> item_words x V C"
proof -
  have "map Byte ([x] @ w) @ map Byte v @ map Byte w' @ map Byte t \<in> item_words x V C"
    unfolding item_words_def by (intro catI spellI concI assms) simp
  then show ?thesis by simp
qed

lemma next_in:
  assumes "w \<in> ws_texts" "map Byte m \<in> M" "map Byte t \<in> R"
  shows "map Byte ([x] @ w @ m @ t) \<in> next_words x M R"
proof -
  have "map Byte ([x] @ w) @ map Byte m @ map Byte t \<in> next_words x M R"
    unfolding next_words_def by (intro catI spellI concI assms) simp
  then show ?thesis by simp
qed

lemma json_complete:
  assumes "json_system V C R"
  shows "json_value u1 \<Longrightarrow> map Byte u1 \<in> V" "more_items u2 \<Longrightarrow> map Byte u2 \<in> C"
    "member u3 \<Longrightarrow> map Byte u3 \<in> pair_words V" "more_members u4 \<Longrightarrow> map Byte u4 \<in> R"
proof (induction u1 and u2 and u3 and u4 rule: json_value_more_items_member_more_members.inducts)
  case (v_string u)
  then have "map Byte u \<in> spell (string_texts \<union> number_texts \<union> {lit ''true'', lit ''false'', lit ''null''})"
    by (intro spellI) blast
  then show ?case using assms unfolding json_system_def by blast
next
  case (v_number u)
  then have "map Byte u \<in> spell (string_texts \<union> number_texts \<union> {lit ''true'', lit ''false'', lit ''null''})"
    by (intro spellI) blast
  then show ?case using assms unfolding json_system_def by blast
next
  case (v_word u)
  then have "map Byte u \<in> spell (string_texts \<union> number_texts \<union> {lit ''true'', lit ''false'', lit ''null''})"
    by (intro spellI) blast
  then show ?case using assms unfolding json_system_def by blast
next
  case (v_empty_array w)
  then have "map Byte ([0x5b] @ w @ [0x5d]) \<in> spell (conc {[0x5b]} (conc ws_texts {[0x5d]}))"
    by (intro spellI concI) simp_all
  then show ?case using assms unfolding json_system_def by blast
next
  case (v_array w x w' t)
  then have "map Byte ([0x5b] @ w @ x @ w' @ t) \<in> item_words 0x5b V C" by (intro item_in)
  then show ?case using assms unfolding json_system_def by blast
next
  case i_end
  have "map Byte [0x5d] \<in> spell {[0x5d]}" by (intro spellI) simp
  then show ?case using assms unfolding json_system_def by blast
next
  case (i_item w x w' t)
  then have "map Byte ([0x2c] @ w @ x @ w' @ t) \<in> item_words 0x2c V C" by (intro item_in)
  then show ?case using assms unfolding json_system_def by blast
next
  case (v_empty_object w)
  then have "map Byte ([0x7b] @ w @ [0x7d]) \<in> spell (conc {[0x7b]} (conc ws_texts {[0x7d]}))"
    by (intro spellI concI) simp_all
  then show ?case using assms unfolding json_system_def by blast
next
  case (v_object w m t)
  then have "map Byte ([0x7b] @ w @ m @ t) \<in> next_words 0x7b (pair_words V) R" by (intro next_in)
  then show ?case using assms unfolding json_system_def by blast
next
  case (m_member k w w' x w'')
  then have "map Byte (k @ w @ [0x3a] @ w') @ map Byte x @ map Byte w'' \<in> pair_words V"
    unfolding pair_words_def by (intro catI spellI concI) simp_all
  then show ?case by simp
next
  case r_end
  have "map Byte [0x7d] \<in> spell {[0x7d]}" by (intro spellI) simp
  then show ?case using assms unfolding json_system_def by blast
next
  case (r_member w m t)
  then have "map Byte ([0x2c] @ w @ m @ t) \<in> next_words 0x2c (pair_words V) R" by (intro next_in)
  then show ?case using assms unfolding json_system_def by blast
qed

lemma json_unique: "json_system V C R \<Longrightarrow> V = spell {u. json_value u}"
proof (rule set_eqI, rule iffI)
  fix w assume "json_system V C R" "w \<in> V"
  then show "w \<in> spell {u. json_value u}"
    using json_sound [of V C R "Suc (length w)"] by (simp add: sound_below_def)
next
  fix w assume "json_system V C R" "w \<in> spell {u. json_value u}"
  then show "w \<in> V" using json_complete(1) by (auto simp: in_spell)
qed

lemma value_words_json:
  assumes "value_words L v ob ar"
  shows "L v = spell {u. json_value u}"
proof -
  obtain r where r: "L ob = cat (spell (conc {[0x7b]} (conc ws_texts {[0x7d]}))) (spell {[]}) \<union>
        cat (spell (conc {[0x7b]} ws_texts)) (cat (member_words L v) (L r))"
      "L r = spell {[0x7d]} \<union> cat (spell (conc {[0x2c]} ws_texts)) (cat (member_words L v) (L r))"
    using assms unfolding value_words_def map_words_def by blast
  obtain c where c: "L ar = cat (spell (conc {[0x5b]} (conc ws_texts {[0x5d]}))) (spell {[]}) \<union>
        cat (spell (conc {[0x5b]} ws_texts)) (cat (L v) (cat (spell ws_texts) (L c)))"
      "L c = spell {[0x5d]} \<union> cat (spell (conc {[0x2c]} ws_texts)) (cat (L v) (cat (spell ws_texts) (L c)))"
    using assms unfolding value_words_def array_words_def by blast
  have v: "L v = L ob \<union> L ar \<union> spell (string_texts \<union> number_texts \<union> {lit ''true'', lit ''false'', lit ''null''})"
    using assms unfolding value_words_def by blast
  have m: "member_words L v = pair_words (L v)" by (simp only: member_words_def pair_words_def)
  have "L v = spell (conc {[0x7b]} (conc ws_texts {[0x7d]})) \<union> next_words 0x7b (pair_words (L v)) (L r) \<union>
         spell (conc {[0x5b]} (conc ws_texts {[0x5d]})) \<union> item_words 0x5b (L v) (L c) \<union>
         spell (string_texts \<union> number_texts \<union> {lit ''true'', lit ''false'', lit ''null''})"
    using v r(1) c(1) unfolding m next_words_def item_words_def cat_one by blast
  moreover have "L r = spell {[0x7d]} \<union> next_words 0x2c (pair_words (L v)) (L r)"
    using r(2) unfolding m next_words_def .
  moreover have "L c = spell {[0x5d]} \<union> item_words 0x2c (L v) (L c)" using c(2) unfolding item_words_def .
  ultimately have "json_system (L v) (L c) (L r)" unfolding json_system_def by blast
  then show ?thesis by (rule json_unique)
qed

section \<open>The rule of any value\<close>

lemma any_rule_language:
  assumes "jsg_any j = (x, j')" "jg_value j = NONE" "ready 88 (jg_b j)" "\<And>L. cached j L"
  shows "rule_lang (gprods (jg_b j')) x = spell {u. json_value u}"
proof -
  have "value_words (lang (jg_b j')) x (jg_object j') (jg_array j')"
    using any_words(1) [OF assms(1-3)] solves_self assms(4) by (simp add: step_def knows_def)
  from value_words_json [OF this] show ?thesis by (simp add: lang_def)
qed

text \<open>
  C40. When every request for memory is granted, the rule that \<open>janas_jsg_any\<close> makes matches the
  texts of JSON and nothing else, with at most 20 bytes of white space between two tokens and at
  most 20 digits in a part of a number (4 in an exponent); the builder has not failed.
\<close>

theorem any_language:
  assumes "gb_inv b" and "rules_known b" and "roomy b" and "n_rules b + 88 \<le> NONE"
    and "jsg_new b = Some j" and "jsg_any j = (x, j')"
  shows "\<not> gfailed (jg_b j') \<and> rule_lang (gprods (jg_b j')) x = map Byte ` {u. json_value u}"
proof -
  have j: "jg_b j = b" "jg_value j = NONE" "\<And>L. cached j L"
    using assms(5) request_roomy [OF assms(3)] by (auto simp: jsg_new_def cached_def)
  have "ready 88 (jg_b j)" using assms(1-4) known_frees j(1) by (simp add: ready_def)
  note any_rule_language [OF assms(6) j(2) this j(3)] any_words(1) [OF assms(6) j(2) this]
  then show ?thesis by (simp add: step_def grants_def roomy_def spell_def)
qed

lemma nil_ws: "[] \<in> ws_texts"
  by (auto simp: ws_texts_def at_most_def intro!: bexI [of _ 0])

theorem any_language_witness:
  "\<exists>j x j'. jsg_new demo_build = Some j \<and> jsg_any j = (x, j') \<and> \<not> gfailed (jg_b j') \<and>
     map Byte (lit ''[]'') \<in> rule_lang (gprods (jg_b j')) x"
proof -
  obtain j where j: "jsg_new demo_build = Some j"
    using request_roomy [OF demo_build(3)] by (auto simp: jsg_new_def)
  obtain x j' where a: "jsg_any j = (x, j')" by force
  have "json_value ([0x5b] @ [] @ [0x5d])" by (rule v_empty_array [OF nil_ws])
  then have "json_value (lit ''[]'')" by simp
  moreover have "n_rules demo_build + 88 \<le> NONE" by (simp add: demo_build(4) NONE_def UINT32_MAX_def)
  ultimately show ?thesis using any_language [OF demo_build(1-3) _ j a] j a
    by (auto intro!: image_eqI [of _ _ "[0x5b, 0x5d]"])
qed

end
