(* ===== verification/Schema_Json_Read.thy ===== *)
theory Schema_Json_Read
  imports Schema_Json_Text
begin

text \<open>
  The reader of \<open>Json\<close> on the texts of the grammar: numbers end where the grammar ends them, and
  every string is found, its escapes included, and decoded.
\<close>

section \<open>Runs of bytes\<close>

lemma lpow_singles_all: "u \<in> lpow n (singles P) \<Longrightarrow> list_all P u \<and> length u = n"
proof (induction n arbitrary: u)
  case (Suc n)
  then obtain a v where "u = a @ v" "a \<in> singles P" "v \<in> lpow n (singles P)" by (auto simp: conc_def)
  then show ?case using Suc.IH [of v] by (auto simp: singles_def)
qed simp

lemma at_most_all: "u \<in> at_most n P \<Longrightarrow> list_all P u"
  using lpow_singles_all by (auto simp: at_most_def)

lemma span_run:
  "drop i s = w @ rest \<Longrightarrow> list_all p w \<Longrightarrow> (rest = [] \<or> \<not> p (hd rest)) \<Longrightarrow> span p s i = i + length w"
proof (induction w arbitrary: i)
  case Nil
  have "\<not> (i < length s \<and> p (s ! i))"
  proof
    assume a: "i < length s \<and> p (s ! i)"
    then have "rest = s ! i # drop (Suc i) s" using Nil(1) Cons_nth_drop_Suc [of i s] by simp
    then show False using Nil(3) a by simp
  qed
  then show ?case by (simp add: span_stop)
next
  case (Cons c w)
  note d = drop_ConsD [of i s c "w @ rest"]
  have "i < length s" "p (s ! i)" "drop (Suc i) s = w @ rest" using d Cons.prems by simp_all
  then show ?case using Cons.IH [of "Suc i"] Cons.prems span_step [of i s p] by simp
qed

lemma ws_run: "w \<in> ws_texts \<Longrightarrow> list_all is_ws w"
  unfolding ws_texts_def by (rule at_most_all)

lemma skip_run:
  assumes "drop i s = w @ c # xs" "w \<in> ws_texts" "\<not> is_ws c"
  shows "span is_ws s i = i + length w" "drop (span is_ws s i) s = c # xs"
proof -
  show "span is_ws s i = i + length w" by (rule span_run [OF assms(1)]) (use ws_run [OF assms(2)] assms(3) in auto)
  then show "drop (span is_ws s i) s = c # xs" using drop_append_next [OF assms(1)] by simp
qed

text \<open>What may follow a value: nothing, white space, a comma or a closing bracket or brace.\<close>

definition follows :: "bytes \<Rightarrow> bool" where
  "follows rest \<longleftrightarrow> rest = [] \<or> is_ws (hd rest) \<or> hd rest \<in> {0x2c, 0x5d, 0x7d}"

lemma follows_not:
  assumes "follows rest" "rest \<noteq> []"
  shows "\<not> is_digit (hd rest)" "hd rest \<noteq> 0x2e" "hd rest \<noteq> 0x65" "hd rest \<noteq> 0x45"
  using assms by (auto simp: follows_def is_ws_def is_digit_def)

section \<open>Numbers\<close>

lemma digits_run:
  assumes "drop i s = ds @ rest" "ds \<noteq> []" "list_all is_digit ds" "rest = [] \<or> \<not> is_digit (hd rest)"
  shows "at_digit s i" "span is_digit s i = i + length ds"
proof -
  show "span is_digit s i = i + length ds" by (rule span_run [OF assms(1,3,4)])
  show "at_digit s i"
    using assms(1-3) drop_ConsD [of i s "hd ds" "tl ds @ rest"] by (cases ds) (auto simp: at_digit_def)
qed

lemma digit_run_texts:
  assumes "u \<in> conc (singles P) (at_most n is_digit)" "\<And>c. P c \<Longrightarrow> is_digit c"
  shows "u \<noteq> []" "list_all is_digit u"
proof -
  obtain a v where "u = a @ v" "a \<in> singles P" "v \<in> at_most n is_digit" using assms(1) by (auto simp: in_conc)
  then show "u \<noteq> []" "list_all is_digit u" using assms(2) at_most_all by (auto simp: singles_def)
qed

lemma num_int_text:
  assumes "drop k s = m @ i @ rest" "m \<in> {[], [0x2d]}" "i \<in> int_texts" "rest = [] \<or> \<not> is_digit (hd rest)"
  shows "num_int s k = Some (k + length (m @ i))"
proof -
  have i: "i = [0x30] \<or> i \<noteq> [] \<and> list_all is_digit i \<and> hd i \<noteq> 0x30"
  proof -
    have "hd i \<noteq> 0x30" if "i \<in> conc (singles (\<lambda>c. is_digit c \<and> c \<noteq> 0x30)) (at_most 19 is_digit)"
      using that by (auto simp: in_conc singles_def)
    then show ?thesis using assms(3) digit_run_texts [of i "\<lambda>c. is_digit c \<and> c \<noteq> 0x30" 19] by (auto simp: int_texts_def)
  qed
  have dg: "hd i \<noteq> 0x2d" "i \<noteq> []" using i by (cases i; auto simp: is_digit_def)+
  let ?k = "if at_char s k 0x2d then k + 1 else k"
  have k: "?k = k + length m"
    using assms(1,2) dg by (cases i) (auto simp: at_char_drop [OF assms(1)])
  have d: "drop ?k s = i @ rest" unfolding k using drop_append_next [OF assms(1)] .
  show ?thesis
  proof (cases "i = [0x30]")
    case True
    have "at_char s ?k 0x30" using at_char_drop [OF d] True by simp
    then show ?thesis using k True by (simp add: num_int_def Let_def del: if_split_asm split del: if_split)
  next
    case False
    then have "\<not> at_char s ?k 0x30" using at_char_drop [OF d] i by (cases i) auto
    moreover have "at_digit s ?k" "span is_digit s ?k = ?k + length i"
      using digits_run [OF d] False i assms(4) by auto
    ultimately show ?thesis using k by (simp add: num_int_def Let_def split del: if_split)
  qed
qed

lemma num_frac_text:
  assumes "drop k s = f @ rest" "f \<in> frac_texts" "rest = [] \<or> \<not> is_digit (hd rest) \<and> hd rest \<noteq> 0x2e"
  shows "num_frac s k = Some (k + length f)"
proof (cases "f = []")
  case True
  then show ?thesis using assms at_char_drop [OF assms(1), of "0x2e"] by (auto simp: num_frac_def)
next
  case False
  then obtain ds where f: "f = 0x2e # ds" "ds \<in> conc (singles is_digit) (at_most 19 is_digit)"
    using assms(2) by (auto simp: frac_texts_def in_conc [of _ "{[0x2e]}"])
  have d: "drop (k + 1) s = ds @ rest" using drop_append_next [of k s "[0x2e]"] assms(1) f(1) by simp
  have "at_char s k 0x2e" using at_char_drop [OF assms(1)] f(1) by simp
  then show ?thesis
    using digits_run [OF d digit_run_texts [OF f(2)]] assms(3) f(1) by (auto simp: num_frac_def)
qed

lemma num_exp_text:
  assumes "drop k s = e @ rest" "e \<in> exp_texts" "rest = [] \<or> \<not> is_digit (hd rest) \<and> hd rest \<noteq> 0x65 \<and> hd rest \<noteq> 0x45"
  shows "num_exp s k = Some (k + length e)"
proof (cases "e = []")
  case True
  then show ?thesis using assms at_char_drop [OF assms(1)] by (auto simp: num_exp_def)
next
  case False
  then have "e \<in> conc (singles (\<lambda>c. c = 0x65 \<or> c = 0x45))
      (conc {[], [0x2b], [0x2d]} (conc (singles is_digit) (at_most 3 is_digit)))"
    using assms(2) unfolding exp_texts_def by blast
  then obtain a sg ds where e': "e = a @ sg @ ds" "a \<in> singles (\<lambda>c. c = 0x65 \<or> c = 0x45)" "sg \<in> {[], [0x2b], [0x2d]}"
      "ds \<in> conc (singles is_digit) (at_most 3 is_digit)"
    unfolding in_conc [of e] in_conc [of _ "{[], [0x2b], [0x2d]}"] by blast
  then obtain c where e: "e = c # sg @ ds" "c = 0x65 \<or> c = 0x45" by (auto simp: singles_def)
  note e = e e'(3,4)
  note dt = digit_run_texts [OF e(4)]
  have d1: "drop (k + 1) s = sg @ ds @ rest" using drop_append_next [of k s "[c]"] assms(1) e(1) by simp
  let ?k = "if at_char s (k + 1) 0x2b \<or> at_char s (k + 1) 0x2d then k + 1 + 1 else k + 1"
  obtain x xs where x: "ds = x # xs" "is_digit x" using dt by (cases ds) auto
  then have nx: "x \<noteq> 0x2b" "x \<noteq> 0x2d" by (auto simp: is_digit_def)
  note at = at_char_drop [OF d1, of "0x2b"] at_char_drop [OF d1, of "0x2d"]
  consider "sg = []" | "sg = [0x2b]" | "sg = [0x2d]" using e(3) by blast
  then have k: "?k = k + 1 + length sg" by cases (use at x nx in simp_all)
  have d: "drop ?k s = ds @ rest" unfolding k using drop_append_next [OF d1] .
  have c: "at_char s k 0x65 \<or> at_char s k 0x45" using at_char_drop [OF assms(1)] e(1,2) by auto
  have "at_digit s ?k" "span is_digit s ?k = ?k + length ds" using digits_run [OF d dt] assms(3) by auto
  moreover have "num_exp s k = (if at_digit s ?k then Some (span is_digit s ?k) else None)"
    by (simp only: num_exp_def Let_def c if_True)
  ultimately have "num_exp s k = Some (?k + length ds)" by simp
  then show ?thesis unfolding k using e(1) by simp
qed

lemma hd_frac: "f \<in> frac_texts \<Longrightarrow> f = [] \<or> hd f = 0x2e"
  by (auto simp: frac_texts_def in_conc)

lemma hd_exp: "e \<in> exp_texts \<Longrightarrow> e = [] \<or> hd e = 0x65 \<or> hd e = 0x45"
  by (auto simp: exp_texts_def in_conc singles_def)

lemma number_end_text:
  assumes "drop k s = u @ rest" "u \<in> number_texts" "follows rest"
  shows "number_end s k = Some (k + length u)"
proof -
  obtain m i f e where u: "u = m @ i @ f @ e" "m \<in> {[], [0x2d]}" "i \<in> int_texts" "f \<in> frac_texts" "e \<in> exp_texts"
    using assms(2) unfolding number_texts_def in_conc by blast
  have fr: "e @ rest = [] \<or> \<not> is_digit (hd (e @ rest)) \<and> hd (e @ rest) \<noteq> 0x2e"
    using hd_exp [OF u(5)] follows_not [OF assms(3)] by (cases e) (auto simp: is_digit_def)
  have ir: "f @ e @ rest = [] \<or> \<not> is_digit (hd (f @ e @ rest))"
    using hd_frac [OF u(4)] fr by (cases f) (auto simp: is_digit_def)
  have d1: "drop k s = m @ i @ (f @ e @ rest)" using assms(1) u(1) by simp
  have d2: "drop (k + length (m @ i)) s = f @ (e @ rest)" using drop_append_next [of k s "m @ i"] d1 by simp
  have d3: "drop (k + length (m @ i) + length f) s = e @ rest" using drop_append_next [OF d2] .
  have er: "rest = [] \<or> \<not> is_digit (hd rest) \<and> hd rest \<noteq> 0x65 \<and> hd rest \<noteq> 0x45"
    using follows_not [OF assms(3)] by blast
  show ?thesis
    using num_int_text [OF d1 u(2,3) ir] num_frac_text [OF d2 u(4) fr] num_exp_text [OF d3 u(5) er] u(1)
    by (simp add: number_end_def add.assoc)
qed

section \<open>Strings\<close>

lemma lpow_pieces: "w \<in> lpow n A \<Longrightarrow> \<exists>ps. w = concat ps \<and> set ps \<subseteq> A"
proof (induction n arbitrary: w)
  case 0
  then show ?case by (intro exI [of _ "[]"]) simp
next
  case (Suc n)
  then obtain a v where av: "w = a @ v" "a \<in> A" "v \<in> lpow n A" by (auto simp: conc_def)
  then obtain ps where "v = concat ps" "set ps \<subseteq> A" using Suc.IH by blast
  then show ?case using av by (intro exI [of _ "a # ps"]) simp
qed

lemma four_pieces:
  assumes "u \<in> lpow 4 (singles P)"
  obtains a b c d where "u = [a, b, c, d]" "P a" "P b" "P c" "P d"
  using lpow_singles_all [OF assms] by (auto simp: length_Suc_conv eval_nat_numeral)

text \<open>The three kinds of pieces of a string.\<close>

lemma char_cases:
  assumes "p \<in> char_texts"
  obtains c where "p = [c]" "plain_char c"
    | x where "p = [0x5c, x]" "x \<noteq> 0x75" "\<exists>c. simple_escape x = Some c"
    | a b c d where "p = [0x5c, 0x75, a, b, c, d]" "is_hex a" "is_hex b" "is_hex c" "is_hex d"
proof -
  consider "p \<in> singles plain_char" | y where "p = 0x5c # y" "y \<in> escape_texts"
    using assms by (auto simp: char_texts_def in_conc)
  then show thesis
  proof cases
    case 1
    then show thesis using that(1) by (auto simp: singles_def)
  next
    case 2
    then consider x where "y = [x]" "x \<in> {0x22, 0x5c, 0x2f, 0x62, 0x66, 0x6e, 0x72, 0x74}"
      | h where "y = 0x75 # h" "h \<in> lpow 4 (singles is_hex)"
      unfolding escape_texts_def by (auto simp: in_conc singles_def)
    then show thesis
    proof cases
      case (1 x)
      have "x \<noteq> 0x75" "\<exists>c. simple_escape x = Some c" using 1(2) by (auto simp: simple_escape_def)
      then show thesis using that(2) 1(1) 2(1) by blast
    next
      case h: (2 h)
      obtain a b c d where "h = [a, b, c, d]" "is_hex a" "is_hex b" "is_hex c" "is_hex d"
        using h(2) by (rule four_pieces)
      then show thesis using that(3) h(1) 2(1) by blast
    qed
  qed
qed

lemma hex_plain: "is_hex c \<Longrightarrow> plain_char c"
proof -
  assume "is_hex c"
  then have "0x30 \<le> c" "c \<noteq> 0x5c" by (auto simp: is_hex_def is_digit_def word_le_nat_alt)
  then show "plain_char c" by (auto simp: plain_char_def word_le_nat_alt)
qed

lemma hex_value: "is_hex c \<Longrightarrow> hex_digit c \<noteq> 16"
proof -
  have d: "(ucast (c - k) :: u32) + n \<noteq> 16" if "k \<le> c" "unat c - unat k + unat n < 16" for k and n :: u32
  proof
    assume "(ucast (c - k) :: u32) + n = 16"
    then have "unat ((ucast (c - k) :: u32) + n) = 16" by simp
    moreover have "unat (c - k) = unat c - unat k" using that(1) by (simp add: unat_sub)
    ultimately show False using that(2) unat_u8_less [of "c - k"] by (simp add: unat_word_ariths)
  qed
  assume "is_hex c"
  then consider "48 \<le> unat c" "unat c \<le> 57" | "97 \<le> unat c" "unat c \<le> 102" | "65 \<le> unat c" "unat c \<le> 70"
    by (auto simp: is_hex_def is_digit_def word_le_nat_alt)
  then show ?thesis
  proof cases
    case 1
    then have "unat c - 48 < 16" by linarith
    then show ?thesis using d [of "0x30" 0] 1 by (simp add: hex_digit_def word_le_nat_alt)
  next
    case 2
    then have "unat c - 97 + 10 < 16" by linarith
    then show ?thesis using d [of "0x61" 10] 2 by (simp add: hex_digit_def word_le_nat_alt del: add_2_eq_Suc')
  next
    case 3
    then have "unat c - 65 + 10 < 16" by linarith
    then show ?thesis using d [of "0x41" 10] 3 by (simp add: hex_digit_def word_le_nat_alt)
  qed
qed

lemma str_end_plain:
  assumes "drop i s = c # xs" "plain_char c"
  shows "str_end s i = str_end s (Suc i)"
  using drop_ConsD [OF assms(1)] assms(2) by (simp add: str_end.simps [of s i] plain_char_def not_less [symmetric])

lemma str_end_pieces:
  "drop i s = concat ps @ 0x22 # rest \<Longrightarrow> set ps \<subseteq> char_texts \<Longrightarrow> str_end s i = Inr (i + length (concat ps))"
proof (induction ps arbitrary: i)
  case Nil
  then show ?case by (auto simp: str_end.simps [of s i] dest: drop_ConsD)
next
  case (Cons p ps)
  have esc: "str_end s i = str_end s (i + 2)" if "drop i s = 0x5c # xs" for i xs
    using drop_ConsD [OF that] by (simp add: str_end.simps [of s i])
  have nx: "str_end s (i + length p) = Inr (i + length p + length (concat ps))"
    using Cons.IH [of "i + length p"] Cons.prems drop_append_next [of i s p "concat ps @ 0x22 # rest"] by simp
  have p: "p \<in> char_texts" using Cons.prems(2) by simp
  from p show ?case
  proof (cases rule: char_cases)
    case (1 c)
    then show ?thesis using nx str_end_plain [of i s c "concat ps @ 0x22 # rest"] Cons.prems(1) by simp
  next
    case (2 x)
    then show ?thesis using nx esc [of i "x # concat ps @ 0x22 # rest"] Cons.prems(1) by simp
  next
    case (3 a b c d)
    let ?t = "concat ps @ 0x22 # rest"
    have d0: "drop i s = 0x5c # 0x75 # a # b # c # d # ?t" using Cons.prems(1) 3(1) by simp
    have d2: "drop (i + 2) s = a # b # c # d # ?t" using drop_append_next [of i s "[0x5c, 0x75]"] d0 by simp
    note d3 = drop_ConsD [OF d2, THEN conjunct2, THEN conjunct2]
    note d4 = drop_ConsD [OF d3, THEN conjunct2, THEN conjunct2]
    note d5 = drop_ConsD [OF d4, THEN conjunct2, THEN conjunct2]
    have "str_end s i = str_end s (Suc (Suc (Suc (Suc (i + 2)))))"
      using esc [OF d0] str_end_plain [OF d2 hex_plain [OF 3(2)]] str_end_plain [OF d3 hex_plain [OF 3(3)]]
        str_end_plain [OF d4 hex_plain [OF 3(4)]] str_end_plain [OF d5 hex_plain [OF 3(5)]] by simp
    then show ?thesis using nx 3(1) by simp
  qed
qed

lemma hex4_pieces:
  assumes "drop i s = a # b # c # d # rest" "is_hex a" "is_hex b" "is_hex c" "is_hex d"
  shows "\<exists>v. hex4 s i 4 0 = Some v"
proof -
  note d1 = drop_ConsD [OF assms(1)]
  note d2 = drop_ConsD [OF d1 [THEN conjunct2, THEN conjunct2]]
  note d3 = drop_ConsD [OF d2 [THEN conjunct2, THEN conjunct2]]
  note d4 = drop_ConsD [OF d3 [THEN conjunct2, THEN conjunct2]]
  have four: "(4 :: nat) = Suc (Suc (Suc (Suc 0)))" by simp
  show ?thesis unfolding four using d1 d2 d3 d4 hex_value [OF assms(2)] hex_value [OF assms(3)]
      hex_value [OF assms(4)] hex_value [OF assms(5)] by simp
qed

lemma u_escape_pieces:
  assumes "drop i s = a # b # c # d # rest" "is_hex a" "is_hex b" "is_hex c" "is_hex d" "i + 4 \<le> e"
  obtains cp where "u_escape s e i = Some (cp, i + 4)"
    | cp where "u_escape s e i = Some (cp, i + 10)" "i + 10 \<le> e" "s ! (i + 4) = 0x5c" "s ! (i + 5) = 0x75"
proof -
  obtain v where v: "hex4 s i 4 0 = Some v" using hex4_pieces [OF assms(1-5)] by blast
  have "\<exists>cp. u_escape s e i = Some (cp, i + 4) \<or>
      u_escape s e i = Some (cp, i + 10) \<and> i + 10 \<le> e \<and> s ! (i + 4) = 0x5c \<and> s ! (i + 5) = 0x75"
    using v assms(6) by (auto simp: u_escape_def Let_def add.commute split: option.splits if_splits)
  then show thesis using that by blast
qed

lemma str_decode_pieces:
  "drop i s = concat ps @ rest \<Longrightarrow> set ps \<subseteq> char_texts \<Longrightarrow> e = i + length (concat ps) \<Longrightarrow>
     \<exists>w. str_decode s e i acc = Inr w"
proof (induction "length ps" arbitrary: ps i acc rule: less_induct)
  case less
  show ?case
  proof (cases ps)
    case Nil
    then show ?thesis using less.prems(3) by (subst str_decode.simps) simp
  next
    case (Cons p qs)
    have IH: "\<exists>w. str_decode s e k acc' = Inr w"
      if "drop k s = concat rs @ rest" "set rs \<subseteq> char_texts" "e = k + length (concat rs)" "length rs < length ps" for k rs acc'
      using less.hyps [OF that(4) that(1-3)] .
    have p: "p \<in> char_texts" and qs: "set qs \<subseteq> char_texts" using less.prems(2) Cons by auto
    have dn: "drop (i + length p) s = concat qs @ rest" and en: "e = i + length p + length (concat qs)"
      using less.prems(1,3) Cons drop_append_next [of i s p "concat qs @ rest"] by simp_all
    have nx: "\<exists>w. str_decode s e (i + length p) acc' = Inr w" for acc' using IH [OF dn qs en] Cons by simp
    from p show ?thesis
    proof (cases rule: char_cases)
      case (1 c)
      have d: "drop i s = c # concat qs @ rest" using less.prems(1) Cons 1(1) by simp
      have "str_decode s e i acc = str_decode s e (i + 1) (acc @ [s ! i])"
        by (rule str_decode_steps(1)) (use drop_ConsD [OF d] en 1 in \<open>auto simp: plain_char_def\<close>)
      then show ?thesis using nx 1(1) by simp
    next
      case (2 x)
      obtain c where c: "simple_escape x = Some c" using 2(3) by blast
      have d: "drop i s = 0x5c # x # concat qs @ rest" using less.prems(1) Cons 2(1) by simp
      have x: "s ! (i + 1) = x" using drop_ConsD [OF d] drop_ConsD [of "Suc i" s x] by simp
      have "str_decode s e i acc = str_decode s e (i + 2) (acc @ [c])"
        by (rule str_decode_steps(2)) (use drop_ConsD [OF d] en 2(1) x c in auto)
      then show ?thesis using nx 2(1) by simp
    next
      case (3 a b c d)
      have d0: "drop i s = 0x5c # 0x75 # a # b # c # d # concat qs @ rest" using less.prems(1) Cons 3(1) by simp
      have u: "s ! (i + 1) = 0x75" using drop_ConsD [OF d0] drop_ConsD [of "Suc i" s "0x75"] by simp
      have d2: "drop (i + 2) s = a # b # c # d # concat qs @ rest"
        using drop_append_next [of i s "[0x5c, 0x75]"] d0 by simp
      have i: "i < e" "s ! i = 0x5c" "simple_escape (s ! (i + 1)) = None" "i + 2 + 4 \<le> e"
        using drop_ConsD [OF d0] en 3(1) u by (auto simp: simple_escape_def)
      have l: "i + length p = i + 2 + 4" using 3(1) by simp
      show ?thesis
      proof (rule u_escape_pieces [OF d2 3(2-5) i(4)])
        fix cp assume "u_escape s e (i + 2) = Some (cp, i + 2 + 4)"
        from str_decode_steps(3) [OF i(1-3) u this] show ?thesis using nx l by simp
      next
        fix cp assume k: "u_escape s e (i + 2) = Some (cp, i + 2 + 10)" "i + 2 + 10 \<le> e"
          "s ! (i + 2 + 4) = 0x5c" "s ! (i + 2 + 5) = 0x75"
        have "qs \<noteq> []" using en k(2) l by auto
        then obtain q rs where q: "qs = q # rs" "q \<in> char_texts" "set rs \<subseteq> char_texts" using qs by (cases qs) auto
        have dq: "drop (i + length p) s = q @ concat rs @ rest" using dn q(1) by simp
        have at: "s ! (i + length p) = 0x5c" "s ! Suc (i + length p) = 0x75"
          using k(3,4) unfolding l by (simp_all add: numeral_eq_Suc)
        have six: "length q = 6"
          using q(2)
        proof (cases rule: char_cases)
          case (1 c)
          then show ?thesis using drop_ConsD [of "i + length p" s c] dq at(1) by (auto simp: plain_char_def)
        next
          case (2 x)
          have "s ! Suc (i + length p) = x"
            using drop_ConsD [of "i + length p" s "0x5c" "x # concat rs @ rest"]
              drop_ConsD [of "Suc (i + length p)" s x "concat rs @ rest"] dq 2(1) by simp
          then show ?thesis using 2(2) at(2) by simp
        next
          case (3 a b c d)
          then show ?thesis by simp
        qed
        have "drop (i + 2 + 10) s = concat rs @ rest" "e = i + 2 + 10 + length (concat rs)"
          using drop_append_next [OF dq] en six l q(1) by (simp_all add: add.assoc)
        then have "\<exists>w. str_decode s e (i + 2 + 10) (acc @ put_utf8 cp) = Inr w"
          by (rule IH [OF _ q(3)]) (use Cons q(1) in simp)
        then show ?thesis using str_decode_steps(3) [OF i(1-3) u k(1), of acc] by simp
      qed
    qed
  qed
qed

lemma read_string_text:
  assumes "drop (r_i r) s = u @ rest" "u \<in> string_texts" "r_mem r = []"
  shows "\<exists>w r'. read_string s r = Inr (w, r') \<and> drop (r_i r') s = rest \<and> r_mem r' = []"
proof -
  obtain b where "u = 0x22 # b @ [0x22]" "b \<in> (\<Union>n. lpow n char_texts)"
    using assms(2) by (auto simp: string_texts_def in_conc)
  then obtain ps where u: "u = 0x22 # concat ps @ [0x22]" "set ps \<subseteq> char_texts" using lpow_pieces by blast
  let ?i = "r_i r + 1" and ?e = "r_i r + 1 + length (concat ps)"
  have d: "drop ?i s = concat ps @ 0x22 # rest" using drop_ConsD [of "r_i r" s] assms(1) u(1) by simp
  have e: "str_end s ?i = Inr ?e" using str_end_pieces [OF d u(2)] .
  have d2: "drop ?e s = 0x22 # rest" using drop_append_next [OF d] by simp
  obtain r2 where a: "arena_alloc (?e - ?i + 1) (r\<lparr>r_i := ?i\<rparr>) = (True, r2)" "r_i r2 = ?i" "r_mem r2 = []"
    using arena_granted [of "r\<lparr>r_i := ?i\<rparr>" "?e - ?i + 1"] assms(3) by auto
  obtain w where "str_decode s ?e ?i [] = Inr w" using str_decode_pieces [OF d u(2) refl] by blast
  then show ?thesis using e a drop_ConsD [OF d2] by (simp add: read_string_def Let_def)
qed

end
