(* ===== verification/Schema_Json_Agree.thy ===== *)
theory Schema_Json_Agree
  imports Schema_Json_Read
begin

text \<open>
  The grammar and the reader agree: every text the rule of \<open>janas_jsg_any\<close> matches is one that
  \<open>janas_json_parse\<close> reads, unless it is nested more deeply than the reader follows.
\<close>

section \<open>Values\<close>

text \<open>
  The reading goes on at \<open>rest\<close>, or the nesting is too deep, which it is not when \<open>b\<close> holds. The
  loop over items counts down; that it ends by the count is allowed here and excluded at the end.
\<close>

definition reads_to :: "bool \<Rightarrow> bytes \<Rightarrow> bytes \<Rightarrow> 'a jresult \<Rightarrow> bool" where
  "reads_to b s rest x \<longleftrightarrow>
     (case x of Inr (v, r) \<Rightarrow> drop (r_i r) s = rest \<and> r_mem r = []
              | Inl e \<Rightarrow> \<not> b \<and> (\<exists>k. e = JBad Nested_too_deeply k) \<or> e = JLoop)"

lemma reads_to_Inr [simp]: "reads_to b s rest (Inr (v, r)) \<longleftrightarrow> drop (r_i r) s = rest \<and> r_mem r = []"
  by (simp add: reads_to_def)

lemma reads_to_mono: "reads_to b s rest x \<Longrightarrow> (b' \<Longrightarrow> b) \<Longrightarrow> reads_to b' s rest x"
  by (auto simp: reads_to_def split: sum.splits)

text \<open>The opening brackets and braces of a text, those inside strings too.\<close>

definition opens :: "bytes \<Rightarrow> nat" where
  "opens u = length (filter (\<lambda>c. c = 0x5b \<or> c = 0x7b) u)"

lemma opens_simps [simp]:
  "opens [] = 0" "opens (c # u) = (if c = 0x5b \<or> c = 0x7b then Suc (opens u) else opens u)"
  "opens (u @ v) = opens u + opens v"
  by (simp_all add: opens_def)

definition value_read :: "bytes \<Rightarrow> bool" where
  "value_read u \<longleftrightarrow> (\<exists>c xs. u = c # xs \<and> \<not> is_ws c \<and> c \<noteq> 0x5d \<and> c \<noteq> 0x7d) \<and>
     (\<forall>s left r rest. drop (span is_ws s (r_i r)) s = u @ rest \<longrightarrow> follows rest \<longrightarrow> r_mem r = [] \<longrightarrow>
        reads_to (opens u < left) s rest (read_value s left r))"

text \<open>After an item: a comma and more, or the end.\<close>

definition read_tail :: "bytes \<Rightarrow> nat \<Rightarrow> bool \<Rightarrow> nat \<Rightarrow> (bytes \<times> json) list \<Rightarrow> reader \<Rightarrow> json jresult" where
  "read_tail s left object k its r =
     (if at_char s (r_i r) 0x2c then read_rest s left object k its (r\<lparr>r_i := r_i r + 1\<rparr>)
      else if at_char s (r_i r) (if object then 0x7d else 0x5d)
      then Inr (items_of object its, r\<lparr>r_i := r_i r + 1\<rparr>)
      else bad (if object then Expected_comma_or_brace else Expected_comma_or_bracket) r)"

definition tail_read :: "bool \<Rightarrow> bytes \<Rightarrow> bool" where
  "tail_read object t \<longleftrightarrow> (\<exists>xs. t = 0x2c # xs \<or> t = (if object then 0x7d else 0x5d) # xs) \<and>
     (\<forall>s left k its r rest. drop (r_i r) s = t @ rest \<longrightarrow> r_mem r = [] \<longrightarrow>
        reads_to (opens t < left) s rest (read_tail s left object k its r))"

text \<open>A member up to the comma or brace after it; an item of an array likewise.\<close>

definition item_read :: "bool \<Rightarrow> bytes \<Rightarrow> bool" where
  "item_read object m \<longleftrightarrow> (\<exists>c xs. m = c # xs \<and> \<not> is_ws c \<and> c \<noteq> 0x5d \<and> c \<noteq> 0x7d) \<and>
     (\<forall>s left r y. drop (span is_ws s (r_i r)) s = m @ y \<longrightarrow> y \<noteq> [] \<longrightarrow> hd y \<in> {0x2c, 0x5d, 0x7d} \<longrightarrow> r_mem r = [] \<longrightarrow>
        (\<exists>key r2. read_key s object (skip_ws s r) = Inr (key, r2) \<and>
           reads_to (opens m < left) s y (case read_value s left r2 of Inl e \<Rightarrow> Inl e | Inr (v, r3) \<Rightarrow> Inr (v, skip_ws s r3))))"

lemma read_rest_tail:
  assumes "r_mem r = []" "read_key s object (skip_ws s r1) = Inr (key, r2)" "arena_alloc NODE_SIZE r = (True, r1)"
  shows "read_rest s left object (Suc k) its r =
    (case read_value s left r2 of Inl e \<Rightarrow> Inl e
     | Inr (v, r3) \<Rightarrow> read_tail s left object k (its @ [(key, v)]) (skip_ws s r3))"
  using assms by (auto simp: Let_def read_tail_def split: sum.split prod.split simp del: read_value.simps)

lemma item_then_tail:
  assumes "item_read object m" "tail_read object t" "drop (span is_ws s (r_i r)) s = m @ t @ rest" "r_mem r = []"
  shows "reads_to (opens m < left \<and> opens t < left) s rest (read_rest s left object k its r)"
proof (cases k)
  case 0
  then show ?thesis by (simp add: reads_to_def)
next
  case (Suc k')
  obtain r1 where a: "arena_alloc NODE_SIZE r = (True, r1)" "r_i r1 = r_i r" "r_mem r1 = []"
    using arena_granted [OF assms(4)] by blast
  have t: "t @ rest \<noteq> []" "hd (t @ rest) \<in> {0x2c, 0x5d, 0x7d}" using assms(2) by (auto simp: tail_read_def split: if_splits)
  have d: "drop (span is_ws s (r_i r1)) s = m @ t @ rest" using assms(3) a(2) by simp
  obtain key r2 where k: "read_key s object (skip_ws s r1) = Inr (key, r2)"
      "reads_to (opens m < left) s (t @ rest) (case read_value s left r2 of Inl e \<Rightarrow> Inl e | Inr (v, r3) \<Rightarrow> Inr (v, skip_ws s r3))"
    using assms(1) d t a(3) unfolding item_read_def by blast
  note eq = read_rest_tail [OF assms(4) k(1) a(1)]
  show ?thesis
  proof (cases "read_value s left r2")
    case (Inl e)
    then show ?thesis unfolding Suc eq using k(2) by (auto simp: reads_to_def)
  next
    case (Inr p)
    obtain v r3 where p: "p = (v, r3)" by force
    have "drop (r_i (skip_ws s r3)) s = t @ rest" "r_mem (skip_ws s r3) = []" using k(2) Inr p by simp_all
    then have "reads_to (opens t < left) s rest (read_tail s left object k' (its @ [(key, v)]) (skip_ws s r3))"
      using assms(2) unfolding tail_read_def by blast
    then show ?thesis using eq Suc Inr p by (auto elim: reads_to_mono)
  qed
qed

lemma tail_end: "tail_read object [if object then 0x7d else 0x5d]"
  unfolding tail_read_def
proof (intro conjI allI impI)
  fix s rest :: bytes and left k its and r :: reader
  assume d: "drop (r_i r) s = [if object then 0x7d else 0x5d] @ rest" and r: "r_mem r = []"
  have "drop (r_i r + 1) s = rest" using drop_append_next [OF d] by simp
  then show "reads_to (opens [if object then 0x7d else 0x5d] < left) s rest (read_tail s left object k its r)"
    using r at_char_drop [OF d] by (simp add: read_tail_def)
qed simp

lemma tail_more:
  assumes "w \<in> ws_texts" "item_read object m" "tail_read object t"
  shows "tail_read object ([0x2c] @ w @ m @ t)"
  unfolding tail_read_def
proof (intro conjI allI impI)
  fix s rest :: bytes and left k its and r :: reader
  assume d: "drop (r_i r) s = ([0x2c] @ w @ m @ t) @ rest" and r: "r_mem r = []"
  obtain c xs where m: "m = c # xs" "\<not> is_ws c" using assms(2) by (auto simp: item_read_def)
  let ?r = "r\<lparr>r_i := r_i r + 1\<rparr>"
  have d1: "drop (r_i ?r) s = w @ c # (xs @ t @ rest)" using drop_append_next [of "r_i r" s "[0x2c]"] d m(1) by simp
  have dm: "drop (span is_ws s (r_i ?r)) s = m @ t @ rest" using skip_run(2) [OF d1 assms(1) m(2)] m(1) by simp
  have "reads_to (opens m < left \<and> opens t < left) s rest (read_rest s left object k its ?r)"
    by (rule item_then_tail [OF assms(2,3) dm]) (use r in simp)
  then have "reads_to (opens ([0x2c] @ w @ m @ t) < left) s rest (read_rest s left object k its ?r)"
    by (rule reads_to_mono) simp
  then show "reads_to (opens ([0x2c] @ w @ m @ t) < left) s rest (read_tail s left object k its r)"
    using at_char_drop [OF d] by (simp add: read_tail_def)
qed simp

text \<open>An item of an array is a value and white space.\<close>

lemma value_ws:
  assumes "value_read v" "w \<in> ws_texts" "drop (span is_ws s (r_i r)) s = v @ w @ y" "y \<noteq> []" "hd y \<in> {0x2c, 0x5d, 0x7d}" "r_mem r = []"
  shows "reads_to (opens v < left) s y (case read_value s left r of Inl e \<Rightarrow> Inl e | Inr (v, r3) \<Rightarrow> Inr (v, skip_ws s r3))"
proof -
  have "follows (w @ y)" using assms(4,5) ws_run [OF assms(2)] by (cases w) (auto simp: follows_def)
  then have o': "reads_to (opens v < left) s (w @ y) (read_value s left r)" using assms(1,3,6) unfolding value_read_def by blast
  obtain c xs where y: "y = c # xs" using assms(4) by (cases y) auto
  have c: "\<not> is_ws c" using assms(5) y by (auto simp: is_ws_def)
  show ?thesis
  proof (cases "read_value s left r")
    case (Inl e)
    then show ?thesis using o' by (simp add: reads_to_def)
  next
    case (Inr p)
    obtain v r3 where p: "p = (v, r3)" by force
    have "drop (r_i r3) s = w @ c # xs" "r_mem r3 = []" using o' Inr p y by simp_all
    then show ?thesis using skip_run(2) [OF _ assms(2) c, of "r_i r3" s xs] Inr p y by simp
  qed
qed

lemma array_item: "value_read v \<Longrightarrow> w \<in> ws_texts \<Longrightarrow> item_read False (v @ w)"
proof -
  assume v: "value_read v" "w \<in> ws_texts"
  have key: "\<exists>r2. read_key s False (skip_ws s r) = Inr ([], r2) \<and> r2 = skip_ws s r" for s r
    by (simp add: read_key_def)
  show ?thesis unfolding item_read_def
  proof (intro conjI allI impI)
    show "\<exists>c xs. v @ w = c # xs \<and> \<not> is_ws c \<and> c \<noteq> 0x5d \<and> c \<noteq> 0x7d" using v(1) by (auto simp: value_read_def)
    fix s left y and r :: reader
    assume a: "drop (span is_ws s (r_i r)) s = (v @ w) @ y" "y \<noteq> []" "hd y \<in> {0x2c, 0x5d, 0x7d}" "r_mem r = []"
    have "drop (span is_ws s (r_i (skip_ws s r))) s = v @ w @ y" using a(1) by simp
    from reads_to_mono [OF value_ws [OF v this a(2,3)], of "opens (v @ w) < left" left] a(4)
    show "\<exists>key r2. read_key s False (skip_ws s r) = Inr (key, r2) \<and>
        reads_to (opens (v @ w) < left) s y (case read_value s left r2 of Inl e \<Rightarrow> Inl e | Inr (v, r3) \<Rightarrow> Inr (v, skip_ws s r3))"
      by (simp add: read_key_def)
  qed
qed

lemma string_start: "k \<in> string_texts \<Longrightarrow> \<exists>xs. k = 0x22 # xs"
  by (auto simp: string_texts_def in_conc)

lemma object_member:
  assumes "k \<in> string_texts" "w \<in> ws_texts" "w' \<in> ws_texts" "value_read v" "w'' \<in> ws_texts"
  shows "item_read True (k @ w @ [0x3a] @ w' @ v @ w'')"
  unfolding item_read_def
proof (intro conjI allI impI)
  show "\<exists>c xs. k @ w @ [0x3a] @ w' @ v @ w'' = c # xs \<and> \<not> is_ws c \<and> c \<noteq> 0x5d \<and> c \<noteq> 0x7d"
    using string_start [OF assms(1)] by (auto simp: is_ws_def)
  fix s left y and r :: reader
  assume a: "drop (span is_ws s (r_i r)) s = (k @ w @ [0x3a] @ w' @ v @ w'') @ y" "y \<noteq> []" "hd y \<in> {0x2c, 0x5d, 0x7d}" "r_mem r = []"
  have d: "drop (r_i (skip_ws s r)) s = k @ (w @ 0x3a # w' @ v @ w'' @ y)" using a(1) by simp
  obtain name r1 where r1: "read_string s (skip_ws s r) = Inr (name, r1)" "drop (r_i r1) s = w @ 0x3a # w' @ v @ w'' @ y" "r_mem r1 = []"
    using read_string_text [OF d assms(1)] a(4) unfolding skip_ws_simps by blast
  obtain ys where ys: "k = 0x22 # ys" using string_start [OF assms(1)] by blast
  have at: "at_char s (r_i (skip_ws s r)) 0x22" unfolding at_char_drop [OF d] by (simp add: ys)
  have colon: "\<not> is_ws 0x3a" by (simp add: is_ws_def)
  have sk: "drop (r_i (skip_ws s r1)) s = 0x3a # w' @ v @ w'' @ y"
    using skip_run(2) [OF r1(2) assms(2) colon] by simp
  let ?r2 = "(skip_ws s r1)\<lparr>r_i := r_i (skip_ws s r1) + 1\<rparr>"
  have key: "read_key s True (skip_ws s r) = Inr (name, ?r2)"
    using at r1(1) at_char_drop [OF sk] by (simp add: read_key_def Let_def)
  obtain c xs where v: "v = c # xs" "\<not> is_ws c" using assms(4) by (auto simp: value_read_def)
  have d2: "drop (r_i ?r2) s = w' @ c # (xs @ w'' @ y)" using drop_append_next [of _ s "[0x3a]"] sk v(1) by simp
  have "drop (span is_ws s (r_i ?r2)) s = v @ w'' @ y" using skip_run(2) [OF d2 assms(3) v(2)] v(1) by simp
  from reads_to_mono [OF value_ws [OF assms(4,5) this a(2,3)],
      of "opens (k @ w @ [0x3a] @ w' @ v @ w'') < left" left] r1(3) key
  show "\<exists>key r2. read_key s True (skip_ws s r) = Inr (key, r2) \<and>
      reads_to (opens (k @ w @ [0x3a] @ w' @ v @ w'') < left) s y (case read_value s left r2 of Inl e \<Rightarrow> Inl e | Inr (v, r3) \<Rightarrow> Inr (v, skip_ws s r3))"
    by (intro exI conjI) (auto simp del: read_value.simps)
qed

text \<open>An opening bracket or brace and the rest.\<close>

lemma items_none:
  assumes "drop (r_i r) s = c # w @ (if object then 0x7d else 0x5d) # rest" "w \<in> ws_texts" "r_mem r = []"
  shows "reads_to b s rest (read_items s left object r)"
proof -
  let ?close = "if object then 0x7d else 0x5d :: u8"
  let ?r = "skip_ws s (r\<lparr>r_i := r_i r + 1\<rparr>)"
  have d: "drop (r_i r + 1) s = w @ ?close # rest" using drop_append_next [of "r_i r" s "[c]"] assms(1) by simp
  have d1: "drop (r_i ?r) s = ?close # rest" using skip_run(2) [OF d assms(2)] by (simp add: is_ws_def)
  have "drop (r_i ?r + 1) s = rest" using drop_append_next [of "r_i ?r" s "[?close]"] d1 by simp
  then show ?thesis using at_char_drop [OF d1] assms(3) by (simp add: Let_def)
qed

lemma items_some:
  assumes "drop (r_i r) s = c # w @ m @ t @ rest" "w \<in> ws_texts" "item_read object m" "tail_read object t" "r_mem r = []"
  shows "reads_to (opens (w @ m @ t) < left) s rest (read_items s left object r)"
proof -
  let ?r = "skip_ws s (r\<lparr>r_i := r_i r + 1\<rparr>)"
  obtain x xs where m: "m = x # xs" "\<not> is_ws x" "x \<noteq> 0x5d" "x \<noteq> 0x7d" using assms(3) by (auto simp: item_read_def)
  have d: "drop (r_i r + 1) s = w @ x # (xs @ t @ rest)" using drop_append_next [of "r_i r" s "[c]"] assms(1) m(1) by simp
  have d1: "drop (r_i ?r) s = m @ t @ rest" using skip_run(2) [OF d assms(2) m(2)] m(1) by simp
  then have "drop (span is_ws s (r_i ?r)) s = m @ t @ rest" by simp
  note it = item_then_tail [OF assms(3,4) this, of left "length s" "[]"]
  have "\<not> at_char s (r_i ?r) (if object then 0x7d else 0x5d)" using at_char_drop [OF d1] m by simp
  then show ?thesis using it assms(5) by (auto simp: Let_def elim: reads_to_mono)
qed

lemma value_readI:
  assumes "u = c # xs" "\<not> is_ws c" "c \<noteq> 0x5d" "c \<noteq> 0x7d"
    and "\<And>s n r rest. drop (r_i r) s = u @ rest \<Longrightarrow> follows rest \<Longrightarrow> r_mem r = [] \<Longrightarrow>
      drop (span is_ws s (r_i r)) s = u @ rest \<Longrightarrow>
      reads_to (opens u < Suc n) s rest
        (if c = 0x7b then read_items s n True r
         else if c = 0x5b then read_items s n False r
         else if c = 0x22 then (case read_string s r of Inl e \<Rightarrow> Inl e | Inr (w, r') \<Rightarrow> Inr (JString w, r'))
         else if c = 0x74 then literal s (lit ''true'') JTrue r
         else if c = 0x66 then literal s (lit ''false'') JFalse r
         else if c = 0x6e then literal s (lit ''null'') JNull r
         else read_number s r)"
  shows "value_read u"
  unfolding value_read_def
proof (intro conjI allI impI)
  show "\<exists>c xs. u = c # xs \<and> \<not> is_ws c \<and> c \<noteq> 0x5d \<and> c \<noteq> 0x7d" using assms(1-4) by blast
  fix s left rest and r :: reader
  assume a: "drop (span is_ws s (r_i r)) s = u @ rest" "follows rest" "r_mem r = []"
  show "reads_to (opens u < left) s rest (read_value s left r)"
  proof (cases left)
    case 0
    then show ?thesis by (simp add: reads_to_def bad_def)
  next
    case (Suc n)
    have d: "drop (span is_ws s (r_i r)) s = c # (xs @ rest)" using a(1) assms(1) by simp
    have "drop (r_i (skip_ws s r)) s = u @ rest" "drop (span is_ws s (r_i (skip_ws s r))) s = u @ rest"
      "r_mem (skip_ws s r) = []" using a(1,3) by simp_all
    from assms(5) [OF this(1) a(2) this(3,2), of n]
    show ?thesis unfolding Suc read_value_dispatch [OF d] .
  qed
qed

lemma string_read: "u \<in> string_texts \<Longrightarrow> value_read u"
proof -
  assume u: "u \<in> string_texts"
  obtain xs where x: "u = 0x22 # xs" using string_start [OF u] by blast
  show ?thesis
  proof (rule value_readI [OF x])
    fix s rest :: bytes and r :: reader and n :: nat
    assume a: "drop (r_i r) s = u @ rest" "r_mem r = []"
    show "reads_to (opens u < Suc n) s rest
        (if 0x22 = (0x7b :: u8) then read_items s n True r
         else if 0x22 = (0x5b :: u8) then read_items s n False r
         else if 0x22 = (0x22 :: u8) then (case read_string s r of Inl e \<Rightarrow> Inl e | Inr (w, r') \<Rightarrow> Inr (JString w, r'))
         else if 0x22 = (0x74 :: u8) then literal s (lit ''true'') JTrue r
         else if 0x22 = (0x66 :: u8) then literal s (lit ''false'') JFalse r
         else if 0x22 = (0x6e :: u8) then literal s (lit ''null'') JNull r
         else read_number s r)"
      using read_string_text [OF a(1) u a(2)] by auto
  qed (simp_all add: is_ws_def)
qed

lemma number_start: "u \<in> number_texts \<Longrightarrow> \<exists>c xs. u = c # xs \<and> (c = 0x2d \<or> is_digit c)"
proof -
  assume "u \<in> number_texts"
  then obtain m i y where u: "u = m @ i @ y" "m \<in> {[], [0x2d]}" "i \<in> int_texts"
    unfolding number_texts_def in_conc by blast
  have "i \<noteq> [] \<and> is_digit (hd i)"
    using u(3) by (auto simp: int_texts_def is_digit_def in_conc singles_def)
  then show ?thesis using u by (cases m; cases i) auto
qed

lemma number_read: "u \<in> number_texts \<Longrightarrow> value_read u"
proof -
  assume u: "u \<in> number_texts"
  obtain c xs where c: "u = c # xs" "c = 0x2d \<or> is_digit c" using number_start [OF u] by blast
  have n: "\<not> is_ws c" "c \<notin> {0x5d, 0x7d, 0x7b, 0x5b, 0x22, 0x74, 0x66, 0x6e}"
    using c(2) by (auto simp: is_ws_def is_digit_def)
  show ?thesis
  proof (rule value_readI [OF c(1) n(1)])
    fix s rest :: bytes and r :: reader and k :: nat
    assume a: "drop (r_i r) s = u @ rest" "follows rest" "r_mem r = []"
    have e: "number_end s (r_i r) = Some (r_i r + length u)" by (rule number_end_text [OF a(1) u a(2)])
    obtain r1 where "arena_alloc (r_i r + length u - r_i r + 1) r = (True, r1)" "r_mem r1 = []"
      using arena_granted [OF a(3)] by blast
    then have "reads_to b s rest (read_number s r)" for b using e drop_append_next [OF a(1)] by (simp add: read_number_def)
    then show "reads_to (opens u < Suc k) s rest
        (if c = 0x7b then read_items s k True r
         else if c = 0x5b then read_items s k False r
         else if c = 0x22 then (case read_string s r of Inl e \<Rightarrow> Inl e | Inr (w, r') \<Rightarrow> Inr (JString w, r'))
         else if c = 0x74 then literal s (lit ''true'') JTrue r
         else if c = 0x66 then literal s (lit ''false'') JFalse r
         else if c = 0x6e then literal s (lit ''null'') JNull r
         else read_number s r)" using n(2) by simp
  qed (use n(2) in simp_all)
qed

lemma word_read: "u \<in> {lit ''true'', lit ''false'', lit ''null''} \<Longrightarrow> value_read u"
proof -
  have lt: "reads_to b s rest (literal s w v r)" if "drop (r_i r) s = w @ rest" "r_mem r = []" for b s rest w v r
    using literal_back [OF that, of v] by auto
  assume "u \<in> {lit ''true'', lit ''false'', lit ''null''}"
  then consider "u = lit ''true''" | "u = lit ''false''" | "u = lit ''null''" by blast
  then show ?thesis
  proof cases
    case 1
    show ?thesis
    proof (rule value_readI [of u "0x74" "lit ''rue''"])
      fix s rest :: bytes and r :: reader and n :: nat
      assume "drop (r_i r) s = u @ rest" "r_mem r = []"
      from lt [OF this, of _ JTrue] show "reads_to (opens u < Suc n) s rest
          (if 0x74 = (0x7b :: u8) then read_items s n True r
           else if 0x74 = (0x5b :: u8) then read_items s n False r
           else if 0x74 = (0x22 :: u8) then (case read_string s r of Inl e \<Rightarrow> Inl e | Inr (w, r') \<Rightarrow> Inr (JString w, r'))
           else if 0x74 = (0x74 :: u8) then literal s (lit ''true'') JTrue r
           else if 0x74 = (0x66 :: u8) then literal s (lit ''false'') JFalse r
           else if 0x74 = (0x6e :: u8) then literal s (lit ''null'') JNull r
           else read_number s r)" by (simp add: 1)
    qed (simp_all add: 1 is_ws_def)
  next
    case 2
    show ?thesis
    proof (rule value_readI [of u "0x66" "lit ''alse''"])
      fix s rest :: bytes and r :: reader and n :: nat
      assume "drop (r_i r) s = u @ rest" "r_mem r = []"
      from lt [OF this, of _ JFalse] show "reads_to (opens u < Suc n) s rest
          (if 0x66 = (0x7b :: u8) then read_items s n True r
           else if 0x66 = (0x5b :: u8) then read_items s n False r
           else if 0x66 = (0x22 :: u8) then (case read_string s r of Inl e \<Rightarrow> Inl e | Inr (w, r') \<Rightarrow> Inr (JString w, r'))
           else if 0x66 = (0x74 :: u8) then literal s (lit ''true'') JTrue r
           else if 0x66 = (0x66 :: u8) then literal s (lit ''false'') JFalse r
           else if 0x66 = (0x6e :: u8) then literal s (lit ''null'') JNull r
           else read_number s r)" by (simp add: 2)
    qed (simp_all add: 2 is_ws_def)
  next
    case 3
    show ?thesis
    proof (rule value_readI [of u "0x6e" "lit ''ull''"])
      fix s rest :: bytes and r :: reader and n :: nat
      assume "drop (r_i r) s = u @ rest" "r_mem r = []"
      from lt [OF this, of _ JNull] show "reads_to (opens u < Suc n) s rest
          (if 0x6e = (0x7b :: u8) then read_items s n True r
           else if 0x6e = (0x5b :: u8) then read_items s n False r
           else if 0x6e = (0x22 :: u8) then (case read_string s r of Inl e \<Rightarrow> Inl e | Inr (w, r') \<Rightarrow> Inr (JString w, r'))
           else if 0x6e = (0x74 :: u8) then literal s (lit ''true'') JTrue r
           else if 0x6e = (0x66 :: u8) then literal s (lit ''false'') JFalse r
           else if 0x6e = (0x6e :: u8) then literal s (lit ''null'') JNull r
           else read_number s r)" by (simp add: 3)
    qed (simp_all add: 3 is_ws_def)
  qed
qed

lemma json_read:
  "json_value u1 \<Longrightarrow> value_read u1" "more_items u2 \<Longrightarrow> tail_read False u2"
  "member u3 \<Longrightarrow> item_read True u3" "more_members u4 \<Longrightarrow> tail_read True u4"
proof (induction u1 and u2 and u3 and u4 rule: json_value_more_items_member_more_members.inducts)
  case (v_empty_array w)
  show ?case
    by (rule value_readI [of _ "0x5b" "w @ [0x5d]"])
       (use items_none [of _ _ "0x5b" w False] v_empty_array in \<open>auto simp: is_ws_def simp del: read_items.simps\<close>)
next
  case (v_array w v w' t)
  show ?case
    by (rule value_readI [of _ "0x5b" "w @ v @ w' @ t"])
       (use items_some [of _ _ "0x5b" w "v @ w'" t _ False] array_item [of v w'] v_array
        in \<open>auto simp: is_ws_def simp del: read_items.simps elim!: reads_to_mono\<close>)
next
  case i_end
  show ?case using tail_end [of False] by simp
next
  case (i_item w v w' t)
  then have "item_read False (v @ w')" by (intro array_item)
  then show ?case using tail_more [OF i_item(1), of False "v @ w'" t] i_item by simp
next
  case (v_empty_object w)
  show ?case
    by (rule value_readI [of _ "0x7b" "w @ [0x7d]"])
       (use items_none [of _ _ "0x7b" w True] v_empty_object in \<open>auto simp: is_ws_def simp del: read_items.simps\<close>)
next
  case (v_object w m t)
  show ?case
    by (rule value_readI [of _ "0x7b" "w @ m @ t"])
       (use items_some [of _ _ "0x7b" w m t _ True] v_object in \<open>auto simp: is_ws_def simp del: read_items.simps elim!: reads_to_mono\<close>)
next
  case (m_member k w w' v w'')
  then show ?case by (intro object_member)
next
  case r_end
  show ?case using tail_end [of True] by simp
next
  case (r_member w m t)
  then show ?case using tail_more by blast
qed (simp_all add: string_read number_read word_read)

section \<open>The grammar and the reader\<close>

lemma json_parse_text:
  assumes "json_value u"
  shows "(\<exists>v. json_parse [] u = Inr v) \<or> MAX_DEPTH \<le> opens u \<and> (\<exists>k. json_parse [] u = Inl (JBad Nested_too_deeply k))"
proof -
  obtain r where a: "arena_alloc NODE_SIZE \<lparr>r_i = 0, r_blocks = [], r_mem = []\<rparr> = (True, r)"
      "r_i r = 0" "r_mem r = []"
    using arena_granted [of "\<lparr>r_i = 0, r_blocks = [], r_mem = []\<rparr>"] by auto
  have v: "value_read u" using json_read(1) [OF assms] .
  then obtain c xs where c: "u = c # xs" "\<not> is_ws c" unfolding value_read_def by blast
  then have "span is_ws u 0 = 0" by (intro span_stop) auto
  then have d: "drop (span is_ws u (r_i r)) u = u @ []" using a(2) by simp
  have rd: "reads_to (opens u < MAX_DEPTH) u [] (read_value u MAX_DEPTH r)"
    using v d a(3) unfolding value_read_def follows_def by blast
  have tot: "reads_on u 0 (read_value u MAX_DEPTH r)" using read_value_total(1) [of r u MAX_DEPTH] a(2) by simp
  show ?thesis
  proof (cases "read_value u MAX_DEPTH r")
    case (Inl e)
    then have "e \<noteq> JLoop" using tot by (auto simp: within_def)
    then show ?thesis using rd Inl a(1) by (auto simp: reads_to_def json_parse_def Let_def)
  next
    case (Inr p)
    obtain v r' where p: "p = (v, r')" by force
    have "r_i r' = length u" using rd tot Inr p by simp
    then show ?thesis using a Inr p by (simp add: json_parse_def Let_def span_stop)
  qed
qed

text \<open>
  C30. What the grammar of JSON lets through, the reader reads: a text that the rule of
  \<open>janas_jsg_any\<close> matches is read without an error when it has fewer than 128 opening brackets and
  braces, and else the only error is that of the nesting.
\<close>

theorem grammar_is_read:
  assumes "gb_inv b" and "rules_known b" and "roomy b" and "n_rules b + 88 \<le> NONE"
    and "jsg_new b = Some j" and "jsg_any j = (x, j')" and "w \<in> rule_lang (gprods (jg_b j')) x"
  shows "\<exists>u. w = map Byte u \<and>
    ((\<exists>v. json_parse [] u = Inr v) \<or> MAX_DEPTH \<le> opens u \<and> (\<exists>k. json_parse [] u = Inl (JBad Nested_too_deeply k)))"
proof -
  have j: "jg_b j = b" "jg_value j = NONE" "\<And>L. cached j L"
    using assms(5) request_roomy [OF assms(3)] by (auto simp: jsg_new_def cached_def)
  have "ready 88 (jg_b j)" using assms(1-4) known_frees j(1) by (simp add: ready_def)
  note lg = any_rule_language [OF assms(6) j(2) this j(3)]
  then obtain u where "w = map Byte u" "json_value u" using assms(7) by (auto simp: spell_def)
  then show ?thesis using json_parse_text by blast
qed

theorem grammar_is_read_witness:
  "\<exists>j x j' v. jsg_new demo_build = Some j \<and> jsg_any j = (x, j') \<and>
     map Byte (lit ''[]'') \<in> rule_lang (gprods (jg_b j')) x \<and> json_parse [] (lit ''[]'') = Inr v"
proof -
  obtain j where j: "jsg_new demo_build = Some j"
    using request_roomy [OF demo_build(3)] by (auto simp: jsg_new_def)
  obtain x j' where a: "jsg_any j = (x, j')" by force
  have v: "json_value ([0x5b] @ [] @ [0x5d])" by (rule v_empty_array [OF nil_ws])
  have n: "n_rules demo_build + 88 \<le> NONE" by (simp add: demo_build(4) NONE_def UINT32_MAX_def)
  have b: "jg_b j = demo_build" "jg_value j = NONE" "\<And>L. cached j L"
    using j request_roomy [OF demo_build(3)] by (auto simp: jsg_new_def cached_def)
  have "ready 88 (jg_b j)" using demo_build(1-3) known_frees n b(1) by (simp add: ready_def)
  note lg = any_rule_language [OF a b(2) this b(3)]
  have w: "map Byte (lit ''[]'') \<in> rule_lang (gprods (jg_b j')) x"
    unfolding lg by (rule spellI) (use v in simp)
  obtain u where u: "map Byte (lit ''[]'') = map Byte u"
      "(\<exists>v. json_parse [] u = Inr v) \<or> MAX_DEPTH \<le> opens u \<and> (\<exists>k. json_parse [] u = Inl (JBad Nested_too_deeply k))"
    using grammar_is_read [OF demo_build(1-3) n j a w] by blast
  have "inj Byte" by (simp add: inj_def)
  then have "u = lit ''[]''" using u(1) by (metis inj_map_eq_map)
  moreover have "\<not> MAX_DEPTH \<le> opens (lit ''[]'')" by (simp add: MAX_DEPTH_def)
  ultimately show ?thesis using u(2) j a w by blast
qed

end
