(* ===== verification/Schema_Comp.thy ===== *)
theory Schema_Comp
  imports Schema_Json Schema_Re Json
begin

text \<open>
  The second half of \<open>src/llm/schema.c\<close>: a JSON Schema as grammar rules. A pointer into the
  document is a path with the value there, so that the memory of the schemas met (\<open>jg_memo\<close>)
  compares paths where the source compares pointers. The functions that compile a part of a schema
  take the compiler of the schemas inside as an argument, and \<open>compile\<close> closes the circle by
  recursion on the levels left, \<open>DEPTH_MAX - depth\<close>. \<open>strtod\<close> is the rounding \<open>fl\<close> of the number
  a text says. The C strings of a document end at its first NUL. Alternatives are made before the
  rules they refer to, where the source leaves the order open.
\<close>

section \<open>Looking into a schema\<close>

type_synonym place = "nat list \<times> json"

definition kids :: "place \<Rightarrow> place list" where
  "kids s =
     (case s of (p, v) \<Rightarrow>
        case v of
          JArray vs \<Rightarrow> map (\<lambda>i. (p @ [i], vs ! i)) [0..<length vs]
        | JObject ms \<Rightarrow> map (\<lambda>i. (p @ [i], snd (ms ! i))) [0..<length ms]
        | _ \<Rightarrow> [])"

definition keys :: "place \<Rightarrow> bytes list" where
  "keys s = (case snd s of JObject ms \<Rightarrow> map fst ms | _ \<Rightarrow> [])"

definition get :: "bytes \<Rightarrow> place \<Rightarrow> place option" where
  "get key s = map_option snd (find (\<lambda>(k, _). k = key) (zip (keys s) (kids s)))"

definition has_key :: "string \<Rightarrow> place \<Rightarrow> bool" where
  "has_key key s \<longleftrightarrow> get (lit key) s \<noteq> None"

definition c_str :: "bytes \<Rightarrow> bytes" where
  "c_str s = takeWhile (\<lambda>c. c \<noteq> 0) s"

definition text_of :: "string \<Rightarrow> place \<Rightarrow> bytes option" where
  "text_of key s = (case get (lit key) s of Some (_, JString t) \<Rightarrow> Some t | _ \<Rightarrow> None)"

section \<open>References\<close>

definition strtol :: "bytes \<Rightarrow> int" where
  "strtol s =
     (let s = dropWhile isspace s;
          neg = (s \<noteq> [] \<and> hd s = 0x2d);
          s = (if s \<noteq> [] \<and> (hd s = 0x2d \<or> hd s = 0x2b) then tl s else s);
          x = int (dec_val (takeWhile isdigit s))
      in if neg then - x else x)"

text \<open>A part of the reference, at most 255 bytes, and the text after it.\<close>

function ref_part :: "bytes \<Rightarrow> bytes \<Rightarrow> bytes \<times> bytes" where
  "ref_part part p =
     (case p of
        [] \<Rightarrow> (part, [])
      | c # q \<Rightarrow>
          if c = 0x2f \<or> length part \<ge> 255 then (part, p)
          else if c = 0x7e \<and> q \<noteq> [] \<and> (hd q = 0x30 \<or> hd q = 0x31)
          then ref_part (part @ [if hd q = 0x30 then 0x7e else 0x2f]) (tl q)
          else ref_part (part @ [c]) q)"
  by pat_completeness auto
termination
  by (relation "measure (\<lambda>(part, p). length p)") auto

declare ref_part.simps [simp del]

lemma ref_part_length: "ref_part part p = (part', p') \<Longrightarrow> length p' \<le> length p"
proof (induction part p rule: ref_part.induct)
  case (1 part p)
  show ?case
  proof (cases p)
    case Nil
    then show ?thesis using 1(3) by (simp add: ref_part.simps)
  next
    case (Cons c q)
    then show ?thesis using 1 by (subst (asm) (3) ref_part.simps) (force split: if_splits)
  qed
qed

definition child_named :: "bytes \<Rightarrow> place \<Rightarrow> place option" where
  "child_named part v =
     (case snd v of
        JObject _ \<Rightarrow> get part v
      | JArray _ \<Rightarrow> let i = nat (strtol part) in if i < length (kids v) then Some (kids v ! i) else None
      | _ \<Rightarrow> None)"

function follow :: "place \<Rightarrow> bytes \<Rightarrow> place option" where
  "follow v p =
     (case p of
        [] \<Rightarrow> Some v
      | c # q \<Rightarrow>
          if c \<noteq> 0x2f then None
          else case ref_part [] q of (part, rest) \<Rightarrow>
            (case child_named part v of None \<Rightarrow> None | Some w \<Rightarrow> follow w rest))"
  by pat_completeness auto
termination
  by (relation "measure (\<lambda>(v, p). length p)") (auto dest: ref_part_length [OF sym] simp: le_imp_less_Suc)

declare follow.simps [simp del]

definition resolve_ref :: "json \<Rightarrow> bytes \<Rightarrow> place option" where
  "resolve_ref doc ref =
     (let ref = c_str ref in if ref = [] \<or> hd ref \<noteq> 0x23 then None else follow ([], doc) (tl ref))"

section \<open>Values as literals\<close>

definition on_build :: "(gbuild \<Rightarrow> gbuild) \<Rightarrow> jsg \<Rightarrow> jsg" where
  "on_build f j = j\<lparr>jg_b := f (jg_b j)\<rparr>"

definition relax :: "bool \<Rightarrow> jsg \<Rightarrow> jsg" where
  "relax c j = (if c then j\<lparr>jg_relaxed := Suc (jg_relaxed j)\<rparr> else j)"

text \<open>What a writer puts into an empty buffer, with the memory of the builder.\<close>

definition written :: "(buf \<Rightarrow> buf) \<Rightarrow> gbuild \<Rightarrow> bytes \<times> bool \<times> gbuild" where
  "written w b =
     (let t = w \<lparr>b_p = [], b_cap = 0, b_oom = False, b_mem = gmem b\<rparr>
      in (b_p t, b_oom t, b\<lparr>gmem := b_mem t\<rparr>))"

definition written_literal :: "(buf \<Rightarrow> buf) \<Rightarrow> nat \<Rightarrow> gbuild \<Rightarrow> gbuild" where
  "written_literal w a b =
     (case written w b of (t, oom, b) \<Rightarrow> if \<not> oom then gb_lit a t b else b)"

fun value_literal :: "json \<Rightarrow> nat \<Rightarrow> jsg \<Rightarrow> jsg"
  and literal_items :: "nat \<Rightarrow> bool \<Rightarrow> json list \<Rightarrow> nat \<Rightarrow> jsg \<Rightarrow> jsg"
  and literal_members :: "nat \<Rightarrow> bool \<Rightarrow> (bytes \<times> json) list \<Rightarrow> nat \<Rightarrow> jsg \<Rightarrow> jsg" where
  "value_literal v a j =
     (case v of
        JArray vs \<Rightarrow>
          (case jsg_ws j of (ws, j) \<Rightarrow>
             on_build (gb_byte a 0x5d) (literal_items ws True vs a (on_build (gb_parts a [PByte 0x5b, PRef ws]) j)))
      | JObject ms \<Rightarrow>
          (case jsg_ws j of (ws, j) \<Rightarrow>
             on_build (gb_byte a 0x7d) (literal_members ws True ms a (on_build (gb_parts a [PByte 0x7b, PRef ws]) j)))
      | _ \<Rightarrow> on_build (written_literal (json_write v) a) j)"
| "literal_items ws first [] a j = j"
| "literal_items ws first (v # vs) a j =
     (let j = (if first then j else on_build (gb_parts a [PByte 0x2c, PRef ws]) j)
      in literal_items ws False vs a (on_build (gb_ref a ws) (value_literal v a j)))"
| "literal_members ws first [] a j = j"
| "literal_members ws first ((k, v) # ms) a j =
     (let j = (if first then j else on_build (gb_parts a [PByte 0x2c, PRef ws]) j);
          j = on_build (written_literal (json_write_str k) a) j;
          j = on_build (gb_parts a [PRef ws, PByte 0x3a, PRef ws]) j
      in literal_members ws False ms a (on_build (gb_ref a ws) (value_literal v a j)))"

definition alt_in :: "nat \<Rightarrow> jsg \<Rightarrow> nat \<times> jsg" where
  "alt_in r j = in_build (gb_alt r) j"

definition add_literal :: "nat \<Rightarrow> json \<Rightarrow> jsg \<Rightarrow> jsg" where
  "add_literal r v j = (case alt_in r j of (a, j) \<Rightarrow> value_literal v a j)"

section \<open>Bounds\<close>

definition LEN_MAX :: int where "LEN_MAX = 4096"
definition ITEMS_MAX :: int where "ITEMS_MAX = 32"
definition DEPTH_MAX :: nat where "DEPTH_MAX = 64"

definition power_ten :: "int \<Rightarrow> rat" where
  "power_ten e = (if e \<ge> 0 then 10 ^ nat e else 1 / 10 ^ nat (- e))"

text \<open>The number a JSON number says, and \<open>strtod\<close> of it.\<close>

definition number_value :: "bytes \<Rightarrow> rat" where
  "number_value t =
     (let neg = (t \<noteq> [] \<and> hd t = 0x2d);
          t = (if neg then tl t else t);
          ip = takeWhile isdigit t;
          t = dropWhile isdigit t;
          (fp, t) = (if t \<noteq> [] \<and> hd t = 0x2e
                     then (takeWhile isdigit (tl t), dropWhile isdigit (tl t)) else ([], t));
          e = (if t \<noteq> [] \<and> (hd t = 0x65 \<or> hd t = 0x45) then strtol (tl t) else 0);
          x = of_nat (dec_val (ip @ fp)) * power_ten (e - int (length fp))
      in if neg then - x else x)"

definition number_at :: "(rat \<Rightarrow> rat) \<Rightarrow> string \<Rightarrow> place \<Rightarrow> rat option" where
  "number_at fl key s =
     (case get (lit key) s of Some (_, JNumber t) \<Rightarrow> Some (fl (number_value t)) | _ \<Rightarrow> None)"

definition bound :: "(rat \<Rightarrow> rat) \<Rightarrow> place \<Rightarrow> string \<Rightarrow> int \<Rightarrow> int \<Rightarrow> int" where
  "bound fl s key most otherwise =
     (case number_at fl key s of
        None \<Rightarrow> otherwise
      | Some x \<Rightarrow> if x < 0 then otherwise else if x > of_int most then - 2 else \<lfloor>x\<rfloor>)"

definition is_true :: "string \<Rightarrow> place \<Rightarrow> bool" where
  "is_true key s \<longleftrightarrow> (case get (lit key) s of Some (_, JTrue) \<Rightarrow> True | _ \<Rightarrow> False)"

definition number_bounds :: "(rat \<Rightarrow> rat) \<Rightarrow> place \<Rightarrow> bounds" where
  "number_bounds fl s =
     (let bd = \<lparr>has_lo = False, has_hi = False, lo_x = False, hi_x = False, has_mult = False,
                b_lo = 0, b_hi = 0, b_mult = 0\<rparr>;
          bd = (case number_at fl ''minimum'' s of Some x \<Rightarrow> bd\<lparr>has_lo := True, b_lo := x\<rparr> | None \<Rightarrow> bd);
          bd = (case number_at fl ''maximum'' s of Some x \<Rightarrow> bd\<lparr>has_hi := True, b_hi := x\<rparr> | None \<Rightarrow> bd);
          bd = (case number_at fl ''exclusiveMinimum'' s of
                  Some x \<Rightarrow> if \<not> has_lo bd \<or> x \<ge> b_lo bd then bd\<lparr>has_lo := True, b_lo := x, lo_x := True\<rparr> else bd
                | None \<Rightarrow> if is_true ''exclusiveMinimum'' s \<and> has_lo bd then bd\<lparr>lo_x := True\<rparr> else bd);
          bd = (case number_at fl ''exclusiveMaximum'' s of
                  Some x \<Rightarrow> if \<not> has_hi bd \<or> x \<le> b_hi bd then bd\<lparr>has_hi := True, b_hi := x, hi_x := True\<rparr> else bd
                | None \<Rightarrow> if is_true ''exclusiveMaximum'' s \<and> has_hi bd then bd\<lparr>hi_x := True\<rparr> else bd)
      in case number_at fl ''multipleOf'' s of
           Some x \<Rightarrow> if x > 0 then bd\<lparr>has_mult := True, b_mult := x\<rparr> else bd
         | None \<Rightarrow> bd)"

definition any_bounds :: "bounds \<Rightarrow> bool" where
  "any_bounds bd \<longleftrightarrow> has_lo bd \<or> has_hi bd \<or> has_mult bd"

section \<open>Objects\<close>

definition required :: "place \<Rightarrow> bytes \<Rightarrow> bool" where
  "required s key =
     (case get (lit ''required'') s of
        Some (_, JArray vs) \<Rightarrow> list_ex (\<lambda>v. v = JString key) vs
      | _ \<Rightarrow> False)"

text \<open>The alternatives of property \<open>i\<close> after some or no members; \<open>rr ! (2 * i + x)\<close> is \<open>rr[i][x]\<close>.\<close>

definition property_rules :: "nat \<Rightarrow> nat list \<Rightarrow> nat \<Rightarrow> bytes \<Rightarrow> bool \<Rightarrow> nat \<Rightarrow> nat \<Rightarrow> gbuild \<Rightarrow> gbuild" where
  "property_rules ws rr i key req val x b =
     (let r = rr ! (2 * i + x);
          b = (if \<not> req then gb_with r [PRef (rr ! (2 * Suc i + x))] b else b)
      in gb_with r ((if x = 1 then [PByte 0x2c, PRef ws] else []) @
           [PLit key, PRef ws, PByte 0x3a, PRef ws, PRef val, PRef ws, PRef (rr ! (2 * Suc i + 1))]) b)"

definition object_property :: "(place \<Rightarrow> jsg \<Rightarrow> nat \<times> jsg) \<Rightarrow> place \<Rightarrow> place \<Rightarrow> nat \<Rightarrow> nat list \<Rightarrow> nat \<Rightarrow> jsg \<Rightarrow> jsg" where
  "object_property inner s props ws rr i j =
     (let (val, j) = inner (kids props ! i) j;
          name = keys props ! i;
          (key, _, b) = written (json_write_str name) (jg_b j);
          req = required s name
      in j\<lparr>jg_b := property_rules ws rr i key req val 1 (property_rules ws rr i key req val 0 b)\<rparr>)"

definition is_object :: "place option \<Rightarrow> bool" where
  "is_object v \<longleftrightarrow> (case v of Some (_, JObject _) \<Rightarrow> True | _ \<Rightarrow> False)"

definition object_rule :: "(place \<Rightarrow> jsg \<Rightarrow> nat \<times> jsg) \<Rightarrow> place \<Rightarrow> jsg \<Rightarrow> nat \<times> jsg" where
  "object_rule inner s j =
     (let props = get (lit ''properties'') s;
          extra = get (lit ''additionalProperties'') s
      in if \<not> is_object props \<or> kids (the props) = [] then
           if is_object extra then case inner (the extra) j of (val, j) \<Rightarrow> map_rule val j
           else jsg_object j
         else
           let j = relax (extra = None \<or> snd (the extra) \<noteq> JFalse) j;
               (ws, j) = jsg_ws j;
               n = length (kids (the props));
               (ok, b) = gb_request (jg_b j);
               j = j\<lparr>jg_b := b\<rparr>
           in if \<not> ok then in_build never j
              else
                let (rr, b) = rule_list (2 * Suc n) (jg_b j);
                    b = gb_with (rr ! (2 * n + 1)) [] (gb_with (rr ! (2 * n)) [] b);
                    j = fold (object_property inner s (the props) ws rr) [0..<n] (j\<lparr>jg_b := b\<rparr>)
                in in_build (gb_new [[PByte 0x7b, PRef ws, PRef (rr ! 0), PByte 0x7d]]) j)"

section \<open>Formats\<close>

definition re_date :: bytes where
  "re_date = lit ''[0-9]{4}-(0[1-9]|1[0-2])-(0[1-9]|[12][0-9]|3[01])''"

definition re_time :: bytes where
  "re_time = lit ''([01][0-9]|2[0-3]):[0-5][0-9]:([0-5][0-9]|60)('' @ [0x5c] @ lit ''.[0-9]{1,9})?'' @
     lit ''(Z|[+-]([01][0-9]|2[0-3]):[0-5][0-9])''"

definition re_octet :: bytes where
  "re_octet = lit ''(25[0-5]|2[0-4][0-9]|1[0-9][0-9]|[1-9]?[0-9])''"

definition re_label :: bytes where
  "re_label = lit ''[A-Za-z0-9]([A-Za-z0-9-]{0,61}[A-Za-z0-9])?''"

definition re_atom :: bytes where
  "re_atom = lit ''[A-Za-z0-9!#$%&'' @ [0x27] @ lit ''*+/=?^_'' @ [0x60] @ lit ''{|}~-]+''"

definition FORMATS :: "(bytes \<times> bytes) list" where
  "FORMATS =
     [(lit ''date'', re_date),
      (lit ''time'', re_time),
      (lit ''date-time'', re_date @ lit ''T'' @ re_time),
      (lit ''uuid'', lit ''[0-9a-fA-F]{8}-[0-9a-fA-F]{4}-[0-9a-fA-F]{4}-[0-9a-fA-F]{4}-'' @ lit ''[0-9a-fA-F]{12}''),
      (lit ''email'', re_atom @ lit ''('' @ [0x5c] @ lit ''.'' @ re_atom @ lit '')*@'' @ re_label @
         lit ''('' @ [0x5c] @ lit ''.'' @ re_label @ lit '')+''),
      (lit ''ipv4'', re_octet @ lit ''('' @ [0x5c] @ lit ''.'' @ re_octet @ lit ''){3}'')]"

text \<open>The reading of an expression always ends (\<open>Schema_Re_Parse\<close>), so \<open>None\<close> does not arise.\<close>

definition quoted :: "(nat \<Rightarrow> gbuild \<Rightarrow> (nat \<times> gbuild) option) \<Rightarrow> gbuild \<Rightarrow> nat \<times> gbuild" where
  "quoted re b =
     (case lit_rule [0x22] b of (close, b) \<Rightarrow>
        case re close b of
          None \<Rightarrow> (NONE, b)
        | Some (inside, b) \<Rightarrow> if inside = NO_REF then (NONE, b) else gb_new [[PByte 0x22, PRef inside]] b)"

definition format_rule :: "bytes \<Rightarrow> gbuild \<Rightarrow> nat \<times> gbuild" where
  "format_rule f b =
     (case map_of FORMATS (c_str f) of None \<Rightarrow> (NONE, b) | Some re \<Rightarrow> quoted (jsg_regex re) b)"

section \<open>A type\<close>

text \<open>The bounds, those too large for a grammar left out.\<close>

definition clip :: "int \<Rightarrow> int \<Rightarrow> nat \<times> nat option" where
  "clip lo hi =
     (let (lo, hi) = (if lo = - 2 \<or> hi = - 2 then (if lo = - 2 then 0 else lo, - 1) else (lo, hi))
      in (nat lo, if hi < 0 then None else Some (nat (if hi < lo then lo else hi))))"

definition plain_string :: "(rat \<Rightarrow> rat) \<Rightarrow> place \<Rightarrow> jsg \<Rightarrow> nat \<times> jsg" where
  "plain_string fl s j =
     (let lo = bound fl s ''minLength'' LEN_MAX 0;
          hi = bound fl s ''maxLength'' LEN_MAX (- 1);
          j = relax (has_key ''pattern'' s \<or> has_key ''format'' s) j;
          j = relax (lo = - 2 \<or> hi = - 2) j;
          (lo, hi) = clip lo hi
      in if lo = 0 \<and> hi = None then
           let j = (if jg_string j = NONE then case string_rule 0 None j of (x, j) \<Rightarrow> j\<lparr>jg_string := x\<rparr> else j)
           in (jg_string j, j)
         else string_rule lo hi j)"

definition pattern_string :: "(rat \<Rightarrow> rat) \<Rightarrow> place \<Rightarrow> jsg \<Rightarrow> nat \<times> jsg" where
  "pattern_string fl s j =
     (case text_of ''pattern'' s of
        None \<Rightarrow> plain_string fl s j
      | Some pat \<Rightarrow>
          (case in_build (quoted (jsg_pattern pat)) j of (r, j) \<Rightarrow>
             if r \<noteq> NONE
             then (r, relax (has_key ''format'' s \<or> has_key ''minLength'' s \<or> has_key ''maxLength'' s) j)
             else plain_string fl s j))"

definition string_type :: "(rat \<Rightarrow> rat) \<Rightarrow> place \<Rightarrow> jsg \<Rightarrow> nat \<times> jsg" where
  "string_type fl s j =
     (case text_of ''format'' s of
        None \<Rightarrow> pattern_string fl s j
      | Some f \<Rightarrow>
          (case in_build (format_rule f) j of (r, j) \<Rightarrow>
             if r \<noteq> NONE
             then (r, relax (has_key ''minLength'' s \<or> has_key ''maxLength'' s \<or> has_key ''pattern'' s) j)
             else pattern_string fl s j))"

definition plain_number :: "bool \<Rightarrow> jsg \<Rightarrow> nat \<times> jsg" where
  "plain_number whole j =
     (if whole then
        let j = (if jg_integer j = NONE then case number_rule False j of (x, j) \<Rightarrow> j\<lparr>jg_integer := x\<rparr> else j)
        in (jg_integer j, j)
      else
        let j = (if jg_number j = NONE then case number_rule True j of (x, j) \<Rightarrow> j\<lparr>jg_number := x\<rparr> else j)
        in (jg_number j, j))"

definition number_type :: "(rat \<Rightarrow> rat) \<Rightarrow> bool \<Rightarrow> place \<Rightarrow> jsg \<Rightarrow> nat \<times> jsg" where
  "number_type fl whole s j =
     (let bd = number_bounds fl s in
      if any_bounds bd then
        case (if whole then int_bounded else real_bounded) fl bd (jg_relaxed j) (jg_b j) of
          (r, relaxed, b) \<Rightarrow>
            let j = j\<lparr>jg_b := b, jg_relaxed := relaxed\<rparr>
            in if r \<noteq> NONE then (r, j) else plain_number whole (relax True j)
      else plain_number whole j)"

definition array_type :: "(rat \<Rightarrow> rat) \<Rightarrow> (place \<Rightarrow> jsg \<Rightarrow> nat \<times> jsg) \<Rightarrow> place \<Rightarrow> jsg \<Rightarrow> nat \<times> jsg" where
  "array_type fl inner s j =
     (let items = get (lit ''items'') s;
          j = relax (has_key ''prefixItems'' s) j;
          (item, j) = (if is_object items \<or> is_true ''items'' s then inner (the items) j else jsg_any j);
          lo = bound fl s ''minItems'' ITEMS_MAX 0;
          hi = bound fl s ''maxItems'' ITEMS_MAX (- 1);
          j = relax (lo = - 2 \<or> hi = - 2) j;
          (lo, hi) = clip lo hi
      in array_rule item lo hi j)"

definition typed :: "(rat \<Rightarrow> rat) \<Rightarrow> (place \<Rightarrow> jsg \<Rightarrow> nat \<times> jsg) \<Rightarrow> place \<Rightarrow> bytes \<Rightarrow> jsg \<Rightarrow> nat \<times> jsg" where
  "typed fl inner s t j =
     (let t = c_str t in
      if t = lit ''string'' then string_type fl s j
      else if t = lit ''integer'' \<or> t = lit ''number'' then number_type fl (t ! 1 = 0x6e) s j
      else if t = lit ''boolean'' then in_build (gb_new [[PLit (lit ''true'')], [PLit (lit ''false'')]]) j
      else if t = lit ''null'' then in_build (lit_rule (lit ''null'')) j
      else if t = lit ''object'' then object_rule inner s j
      else if t = lit ''array'' then array_type fl inner s j
      else jsg_any (relax True j))"

section \<open>A schema\<close>

text \<open>An alternative of \<open>r\<close> that is the rule the step gives.\<close>

definition alternative :: "nat \<Rightarrow> (jsg \<Rightarrow> nat \<times> jsg) \<Rightarrow> jsg \<Rightarrow> jsg" where
  "alternative r sub j =
     (case alt_in r j of (a, j) \<Rightarrow> case sub j of (x, j) \<Rightarrow> on_build (gb_ref a x) j)"

definition items_of_array :: "place option \<Rightarrow> place list option" where
  "items_of_array v = (case v of Some (p, JArray vs) \<Rightarrow> Some (kids (p, JArray vs)) | _ \<Rightarrow> None)"

definition either :: "place option \<Rightarrow> place option \<Rightarrow> place option" where
  "either a b = (case a of None \<Rightarrow> b | Some x \<Rightarrow> Some x)"

definition by_type :: "(rat \<Rightarrow> rat) \<Rightarrow> (place \<Rightarrow> jsg \<Rightarrow> nat \<times> jsg) \<Rightarrow> place \<Rightarrow> nat \<Rightarrow> jsg \<Rightarrow> jsg" where
  "by_type fl inner s r j =
     (let j = (if is_true ''nullable'' s then on_build (gb_with r [PLit (lit ''null'')]) j else j) in
      case get (lit ''type'') s of
        Some (_, JString t) \<Rightarrow> alternative r (typed fl inner s t) j
      | Some (_, JArray vs) \<Rightarrow>
          fold (\<lambda>v j. case v of JString t \<Rightarrow> alternative r (typed fl inner s t) j | _ \<Rightarrow> j) vs j
      | _ \<Rightarrow>
          if has_key ''properties'' s then alternative r (typed fl inner s (lit ''object'')) j
          else if has_key ''items'' s then alternative r (typed fl inner s (lit ''array'')) j
          else alternative r jsg_any j)"

definition compile_body :: "(rat \<Rightarrow> rat) \<Rightarrow> (place \<Rightarrow> jsg \<Rightarrow> nat \<times> jsg) \<Rightarrow> json \<Rightarrow> place \<Rightarrow> nat \<Rightarrow> jsg \<Rightarrow> jsg" where
  "compile_body fl inner doc s r j =
     (case text_of ''$ref'' s of
        Some ref \<Rightarrow>
          (case resolve_ref doc ref of
             None \<Rightarrow> alternative r jsg_any (relax True j)
           | Some t \<Rightarrow> alternative r (inner t) j)
      | None \<Rightarrow>
          (case get (lit ''const'') s of
             Some (_, v) \<Rightarrow> add_literal r v j
           | None \<Rightarrow>
               (case items_of_array (get (lit ''enum'') s) of
                  Some vs \<Rightarrow> fold (\<lambda>(_, v). add_literal r v) vs j
                | None \<Rightarrow>
                    (case items_of_array (either (get (lit ''anyOf'') s) (get (lit ''oneOf'') s)) of
                       Some vs \<Rightarrow> fold (\<lambda>e. alternative r (inner e)) vs j
                     | None \<Rightarrow>
                         (case items_of_array (get (lit ''allOf'') s) of
                            Some (v # vs) \<Rightarrow> alternative r (inner v) (relax (vs \<noteq> []) j)
                          | _ \<Rightarrow> by_type fl inner s r j)))))"

text \<open>Room for one more schema in the memory.\<close>

definition memo_room :: "jsg \<Rightarrow> bool \<times> jsg" where
  "memo_room j =
     (if length (jg_memo j) = jg_cap_memo j then
        case gb_request (jg_b j) of (ok, b) \<Rightarrow>
          (ok, j\<lparr>jg_b := b,
                 jg_cap_memo := (if \<not> ok then jg_cap_memo j
                                 else if jg_cap_memo j \<noteq> 0 then 2 * jg_cap_memo j else 32)\<rparr>)
      else (True, j))"

definition remember :: "node \<Rightarrow> nat \<Rightarrow> jsg \<Rightarrow> jsg" where
  "remember s r j = j\<lparr>jg_memo := jg_memo j @ [(s, r)]\<rparr>"

definition not_an_object :: "json \<Rightarrow> jsg \<Rightarrow> nat \<times> jsg" where
  "not_an_object v j =
     (if v = JTrue then jsg_any j
      else if v = JFalse then in_build never j
      else jsg_any (relax True j))"

definition compile_new :: "(jsg \<Rightarrow> nat \<Rightarrow> jsg) \<Rightarrow> node \<Rightarrow> jsg \<Rightarrow> nat \<times> jsg" where
  "compile_new body s j =
     (case in_build gb_rule j of (r, j) \<Rightarrow>
        case memo_room j of (ok, j) \<Rightarrow>
          if \<not> ok then in_build never j
          else (r, body (remember s r j) r))"

fun compile :: "(rat \<Rightarrow> rat) \<Rightarrow> nat \<times> json \<Rightarrow> nat \<Rightarrow> place \<Rightarrow> jsg \<Rightarrow> nat \<times> jsg" where
  "compile fl doc 0 s j =
     (if \<not> is_object (Some s) then not_an_object (snd s) j
      else case map_of (jg_memo j) (fst doc, fst s) of
        Some r \<Rightarrow> (r, j)
      | None \<Rightarrow> jsg_any (relax True j))"
| "compile fl doc (Suc left) s j =
     (if \<not> is_object (Some s) then not_an_object (snd s) j
      else case map_of (jg_memo j) (fst doc, fst s) of
        Some r \<Rightarrow> (r, j)
      | None \<Rightarrow>
          compile_new (\<lambda>j r. compile_body fl (compile fl doc left) (snd doc) s r j) (fst doc, fst s) j)"

text \<open>The schema is at the place \<open>s\<close> of the document \<open>doc\<close>; \<open>None\<close> is a null pointer.\<close>

definition jsg_schema :: "(rat \<Rightarrow> rat) \<Rightarrow> nat \<times> json \<Rightarrow> place option \<Rightarrow> jsg \<Rightarrow> nat \<times> jsg" where
  "jsg_schema fl doc s j =
     (case s of None \<Rightarrow> jsg_any j | Some s \<Rightarrow> compile fl doc DEPTH_MAX s j)"

section \<open>An object that says it is closed\<close>

text \<open>
  With no properties, \<open>additionalProperties: false\<close> is not looked at: the rule is that of any
  object, though only the empty one is valid, and the keyword is not counted as relaxed.
\<close>

lemma same_relaxed:
  "jg_relaxed (snd (jsg_ws j)) = jg_relaxed j" "jg_relaxed (snd (escape_rule j)) = jg_relaxed j"
  "jg_relaxed (snd (in_build f j)) = jg_relaxed j"
  by (auto simp: jsg_ws_def escape_rule_def in_build_def split: prod.split)

lemma same_relaxed_rules:
  "jg_relaxed (snd (string_rule lo hi j)) = jg_relaxed j" "jg_relaxed (snd (number_rule r j)) = jg_relaxed j"
  "jg_relaxed (snd (map_rule v j)) = jg_relaxed j" "jg_relaxed (snd (array_rule v lo hi j)) = jg_relaxed j"
proof -
  show st: "jg_relaxed (snd (string_rule lo hi j)) = jg_relaxed j" for lo hi j
    using same_relaxed(2) [of j]
    by (cases "escape_rule j") (simp add: string_rule_def Let_def same_relaxed)
  show "jg_relaxed (snd (number_rule r j)) = jg_relaxed j"
    by (auto simp: number_rule_def Let_def same_relaxed split: prod.splits)
  show "jg_relaxed (snd (array_rule v lo hi j)) = jg_relaxed j"
    using same_relaxed(1) [of j] by (cases "jsg_ws j") (simp add: array_rule_def Let_def same_relaxed)
  show "jg_relaxed (snd (map_rule v j)) = jg_relaxed j"
    using same_relaxed(1) [of j] st [of 0 None "snd (jsg_ws j)"]
    by (cases "jsg_ws j"; cases "string_rule 0 None (snd (jsg_ws j))") (simp add: map_rule_def Let_def same_relaxed)
qed

text \<open>A step of \<open>jsg_any\<close>: a rule made and kept in a field.\<close>

lemma kept_relaxed:
  assumes "\<And>j. jg_relaxed (snd (f j)) = jg_relaxed j" "\<And>x j. jg_relaxed (upd x j) = jg_relaxed j"
  shows "jg_relaxed (case f j of (x, j) \<Rightarrow> upd x j) = jg_relaxed j"
  using assms(1) [of j] assms(2) by (simp split: prod.split) (metis snd_conv)

lemma any_relaxed: "jg_relaxed (snd (jsg_any j)) = jg_relaxed j"
  by (simp add: jsg_any_def Let_def kept_relaxed same_relaxed_rules split: prod.split)

lemma closed_object_open:
  "object_rule inner (p, JObject [(lit ''additionalProperties'', JFalse)]) j = jsg_object j"
  "jg_relaxed (snd (jsg_object j)) = jg_relaxed j"
proof -
  show "object_rule inner (p, JObject [(lit ''additionalProperties'', JFalse)]) j = jsg_object j"
    by (simp add: object_rule_def get_def keys_def kids_def is_object_def)
  show "jg_relaxed (snd (jsg_object j)) = jg_relaxed j"
    using any_relaxed [of j] by (cases "jsg_any j") (simp add: jsg_object_def)
qed

end
