(* ===== verification/Schema_Strings.thy ===== *)
theory Schema_Strings
  imports Schema_Json_Text Schema_Comp
begin

text \<open>
  The strings of a schema with \<open>minLength\<close> and \<open>maxLength\<close>: the chain of rules that
  \<open>string_rule\<close> makes, one a character, matches the strings of as many characters as allowed, a
  character being a byte as it is or an escape.
\<close>

section \<open>A family of rules\<close>

lemma alts_append: "gb_alts r (pss @ qss) b = gb_alts r qss (gb_alts r pss b)"
  by (simp add: gb_alts_def)

lemma rule_list_adds:
  assumes "rule_list m b = (rs, b')" "frees b" "roomy b"
  shows "rs = [n_rules b..<n_rules b + m] \<and> n_rules b' = n_rules b + m \<and> aprods b' = aprods b \<and> frees b' \<and>
    roomy b' \<and> length (alts b') = length (alts b)"
  using assms
proof (induction m arbitrary: b rs)
  case (Suc m)
  obtain b1 ss where r: "gb_rule b = (n_rules b, b1)" "rule_list m b1 = (ss, b')" "rs = n_rules b # ss"
    using Suc.prems(1) by (auto simp: rule_eq split: prod.splits)
  note ra = rule_adds [OF r(1) Suc.prems(2)]
  have "roomy b1" "length (alts b1) = length (alts b)" using r(1) Suc.prems(3) by (auto simp: rule_eq roomy_def)
  then show ?case using Suc.IH [OF r(2) ra(5)] ra(3,4) r(3) by (simp add: upt_conv_Cons del: upt_Suc)
qed simp

definition family_prods :: "(nat \<Rightarrow> nat) \<Rightarrow> (nat \<Rightarrow> part list list) \<Rightarrow> nat list \<Rightarrow> (nat \<times> asym list) list" where
  "family_prods x pss ks = concat (map (\<lambda>k. map (\<lambda>ps. (x k, parts_syms ps)) (pss k)) ks)"

lemma family_alts:
  assumes "frees b" "roomy b" "\<And>k. k \<in> set ks \<Longrightarrow> x k < n_rules b" "b' = fold (\<lambda>k. gb_alts (x k) (pss k)) ks b"
  shows "frees b' \<and> roomy b' \<and> n_rules b' = n_rules b \<and> length (alts b) \<le> length (alts b') \<and>
    aprods b' = aprods b @ family_prods x pss ks"
  using assms
proof (induction ks arbitrary: b)
  case Nil
  then show ?case by (simp add: family_prods_def)
next
  case (Cons k ks)
  let ?b1 = "gb_alts (x k) (pss k) b"
  have g: "grants 0 b ?b1" by (rule grants_alts [OF Cons.prems(2)])
  then have "\<not> gfailed ?b1" by (simp add: grants_def roomy_def)
  note a = alts_alts [OF Cons.prems(1) Cons.prems(3) [of k] this]
  have "frees b' \<and> roomy b' \<and> n_rules b' = n_rules ?b1 \<and> length (alts ?b1) \<le> length (alts b') \<and>
      aprods b' = aprods ?b1 @ family_prods x pss ks"
    by (rule Cons.IH) (use a g Cons.prems in \<open>auto simp: grants_def\<close>)
  then show ?case using a g by (auto simp: grants_def family_prods_def)
qed

lemma family_step:
  assumes "rule_list m b = (rs, b1)" "b' = fold (\<lambda>k. gb_alts (rs ! k) (pss k)) [0..<m] b1" "ready m b"
  shows "step m K b b' (\<lambda>L. K L \<and> (\<forall>k < m. L (rs ! k) = (\<Union>ps \<in> set (pss k). parts_words L ps)))"
proof -
  have b: "frees b" "roomy b" using assms(3) by (auto simp: ready_def)
  have r: "rs = [n_rules b..<n_rules b + m]" "n_rules b1 = n_rules b + m" "aprods b1 = aprods b" "frees b1"
    "roomy b1" "length (alts b1) = length (alts b)"
    using rule_list_adds [OF assms(1) b] by simp_all
  have nth: "rs ! k = n_rules b + k" if "k < m" for k using that r(1) by simp
  have f: "frees b' \<and> roomy b' \<and> n_rules b' = n_rules b1 \<and> length (alts b1) \<le> length (alts b') \<and>
      aprods b' = aprods b1 @ family_prods ((!) rs) pss [0..<m]"
    by (rule family_alts [OF r(4,5) _ assms(2)]) (use nth r(2) in auto)
  have g: "grants m b b'" using f r by (simp add: grants_def)
  have ad: "adds b b'"
    unfolding adds_def using f r nth by (intro conjI exI [of _ "family_prods ((!) rs) pss [0..<m]"]) (auto simp: family_prods_def)
  have al: "alts_of b' (rs ! k) = parts_syms ` set (pss k)" if k: "k < m" for k
  proof -
    have "(rs ! k, ys) \<notin> set (aprods b)" for ys using b(1) nth [OF k] by (auto simp: frees_iff rules_known_def)
    moreover have "(rs ! k, ys) \<in> set (family_prods ((!) rs) pss [0..<m]) \<longleftrightarrow> ys \<in> parts_syms ` set (pss k)" for ys
      using k nth by (auto simp: family_prods_def image_iff)
    ultimately show ?thesis using f r(3) by (auto simp: alts_eq)
  qed
  have "L (rs ! k) = (\<Union>ps \<in> set (pss k). parts_words L ps)" if L: "solves b b' L" and k: "k < m" for L k
  proof -
    have "n_rules b \<le> rs ! k" "rs ! k < n_rules b'" using nth [OF k] k f r(2) by simp_all
    from solves_at [OF L this, unfolded al [OF k]] show ?thesis by (simp add: parts_words_def)
  qed
  then show ?thesis using g ad by (simp add: step_def knows_def)
qed

section \<open>Strings of so many characters\<close>

text \<open>The numbers of characters still allowed after \<open>k\<close>.\<close>

definition rest_lengths :: "nat \<Rightarrow> nat option \<Rightarrow> nat \<Rightarrow> nat set" where
  "rest_lengths lo hi k = {i. lo \<le> k + i \<and> (\<forall>h. hi = Some h \<longrightarrow> k + i \<le> h)}"

definition strings_of :: "nat \<Rightarrow> nat option \<Rightarrow> bytes set" where
  "strings_of lo hi = conc {[0x22]} (conc (\<Union>i \<in> rest_lengths lo hi 0. lpow i char_texts) {[0x22]})"

definition string_alts :: "nat \<Rightarrow> nat \<Rightarrow> nat \<Rightarrow> bool \<Rightarrow> nat list \<Rightarrow> nat \<Rightarrow> part list list" where
  "string_alts esc lo n open_end st k =
     (if lo \<le> k then [[PByte 0x22]] else []) @
     (let nx = next_state st n open_end k in
      if nx = NONE then [] else [[PSet plain_set, PRef nx], [PByte 0x5c, PRef esc, PRef nx]])"

lemma string_state_alts:
  "string_state esc lo n open_end st = (\<lambda>k. gb_alts (st ! k) (string_alts esc lo n open_end st k))"
  by (auto simp: fun_eq_iff string_state_def string_alts_def Let_def alts_append gb_alts_def)

lemma lengths_step:
  "(\<Union>i \<in> rest_lengths lo hi k. lpow i A) =
     (if 0 \<in> rest_lengths lo hi k then {[]} else {}) \<union> conc A (\<Union>i \<in> rest_lengths lo hi (Suc k). lpow i A)"
proof -
  have s: "rest_lengths lo hi k = (if 0 \<in> rest_lengths lo hi k then {0} else {}) \<union> Suc ` rest_lengths lo hi (Suc k)"
  proof (rule set_eqI)
    fix i
    show "i \<in> rest_lengths lo hi k \<longleftrightarrow>
      i \<in> (if 0 \<in> rest_lengths lo hi k then {0} else {}) \<union> Suc ` rest_lengths lo hi (Suc k)"
      by (cases i) (auto simp: rest_lengths_def)
  qed
  have "(\<Union>i \<in> Suc ` I. lpow i A) = conc A (\<Union>i \<in> I. lpow i A)" for I by (simp add: conc_UNION)
  then show ?thesis by (subst s) (simp add: UN_Un)
qed

lemma char_words:
  assumes "L esc = spell escape_texts"
  shows "parts_words L [PSet plain_set, PRef q] \<union> parts_words L [PByte 0x5c, PRef esc, PRef q] = after char_texts (L q)"
  by (simp add: assms plain_texts_set char_texts_def after_union cat_after after_conc flip: cat_assoc)

lemma conc_union: "conc (A \<union> B) C = conc A C \<union> conc B C" "conc {} C = {}"
  by (auto simp: conc_def)

lemma after_spell: "after A (spell B) = spell (conc A B)"
  by (simp flip: cat_after)

lemma string_alts_words:
  fixes L :: langs
  assumes "L esc = spell escape_texts" "next_state st n open_end k = NONE \<or> next_state st n open_end k = q"
    "q \<noteq> NONE"
  shows "(\<Union>ps \<in> set (string_alts esc lo n open_end st k). parts_words L ps) =
    (if lo \<le> k then spell {[0x22]} else {}) \<union>
    (if next_state st n open_end k = NONE then {} else after char_texts (L q))"
  unfolding char_words [of L esc q, OF assms(1), symmetric] string_alts_def Let_def using assms(2,3)
  by (auto split: if_splits simp del: parts_words_simps simp: parts_words_simps(1,2))

lemma chain_words:
  assumes eqs: "\<And>k. k \<le> n \<Longrightarrow> L (st ! k) = (\<Union>ps \<in> set (string_alts esc lo n (hi = None) st k). parts_words L ps)"
    and esc: "L esc = spell escape_texts" and nx: "\<And>k. k \<le> n \<Longrightarrow> st ! k \<noteq> NONE"
    and n: "n = (case hi of Some h \<Rightarrow> h | None \<Rightarrow> lo)" "\<And>h. hi = Some h \<Longrightarrow> lo \<le> h" and k: "k \<le> n"
  shows "L (st ! k) = spell (conc (\<Union>i \<in> rest_lengths lo hi k. lpow i char_texts) {[0x22]})"
proof -
  have sw: "(\<Union>ps \<in> set (string_alts esc lo n (hi = None) st k). parts_words L ps) =
      (if lo \<le> k then spell {[0x22]} else {}) \<union>
      (if next_state st n (hi = None) k = NONE then {} else after char_texts (L q))"
    if "next_state st n (hi = None) k = NONE \<or> next_state st n (hi = None) k = q" "q \<noteq> NONE" for k q
    by (rule string_alts_words) (use esc that in simp_all)
  show ?thesis using k
  proof (induction "n - k" arbitrary: k)
    case 0
    then have k: "k = n" by simp
    have lo: "lo \<le> n" using n by (auto split: option.splits)
    show ?case
    proof (cases hi)
      case None
      have "L (st ! n) = after char_texts (L (st ! n)) \<union> spell {[0x22]}"
        using eqs [of n] sw [of n "st ! n"] nx [of n] lo None
        by (simp add: next_state_def Un_commute)
      from loop_unique [OF this nil_char] have "L (st ! k) = spell (conc (\<Union>n. lpow n char_texts) {[0x22]})"
        unfolding spell_after k .
      moreover have "rest_lengths lo hi k = UNIV" using None lo k by (auto simp: rest_lengths_def)
      ultimately show ?thesis by simp
    next
      case (Some h)
      then have "rest_lengths lo hi k = {0}" using n k lo by (auto simp: rest_lengths_def)
      then show ?thesis
        using eqs [of n] sw [of n "st ! n"] nx [of n] lo Some k
        by (simp add: next_state_def)
    qed
  next
    case (Suc d)
    then have k: "k < n" "Suc k \<le> n" "d = n - Suc k" by simp_all
    have IH: "L (st ! Suc k) = spell (conc (\<Union>i \<in> rest_lengths lo hi (Suc k). lpow i char_texts) {[0x22]})"
      by (rule Suc.hyps(1)) (use k in simp_all)
    have z: "0 \<in> rest_lengths lo hi k \<longleftrightarrow> lo \<le> k" using k n by (auto simp: rest_lengths_def split: option.splits)
    have "L (st ! k) = (if lo \<le> k then spell {[0x22]} else {}) \<union> after char_texts (L (st ! Suc k))"
      using eqs [of k] sw [of k "st ! Suc k"] nx [of "Suc k"] k
      by (simp add: next_state_def)
    also have "\<dots> = spell (conc ((if lo \<le> k then {[]} else {}) \<union>
        conc char_texts (\<Union>i \<in> rest_lengths lo hi (Suc k). lpow i char_texts)) {[0x22]})"
      unfolding IH after_spell conc_union conc_assoc by (simp add: spell_union conc_union)
    finally show ?case unfolding lengths_step [of _ lo hi k] z .
  qed
qed

section \<open>The rule of a string with bounds\<close>

lemma bounded_string_step:
  assumes "string_rule lo hi j = (x, j')" "\<And>h. hi = Some h \<Longrightarrow> lo \<le> h"
    and "n = (case hi of Some h \<Rightarrow> h | None \<Rightarrow> lo)" "ready (n + 4) (jg_b j)"
  shows "step (n + 3) (cached j) (jg_b j) (jg_b j') (\<lambda>L. cached j' L \<and> L x = spell (strings_of lo hi))"
proof -
  obtain esc j1 where e: "escape_rule j = (esc, j1)" by force
  let ?b1 = "jg_b j1"
  have "ready (2 + (n + 2)) (jg_b j)" using assms(4) by (rule ready_mono) simp
  note es = escape_step [OF e this]
  have r1: "ready (n + 3) ?b1" by (rule step_ready [OF es(1)]) (use assms(4) in \<open>rule ready_mono; simp\<close>)
  then have b1: "roomy ?b1" "frees ?b1" "n_rules ?b1 + (n + 3) \<le> NONE" by (simp_all add: ready_def)
  obtain st b2 where l: "rule_list (Suc n) ?b1 = (st, b2)" by force
  define b3 where "b3 = fold (\<lambda>k. gb_alts (st ! k) (string_alts esc lo n (hi = None) st k)) [0..<Suc n] b2"
  obtain b4 where n4: "gb_new [[PByte 0x22, PRef (st ! 0)]] b3 = (x, b4)" and j': "j' = j1\<lparr>jg_b := b4\<rparr>"
    using assms(1) e b1(1) l unfolding b3_def
    by (auto simp: string_rule_def Let_def in_build_def request_roomy string_state_alts simp del: rule_list.simps upt_Suc
        simp flip: assms(3) split: prod.splits)
  have "ready (Suc n) ?b1" using r1 by (rule ready_mono) simp
  note s3 = family_step [OF l b3_def this, of "\<lambda>L. cached j1 L \<and> L esc = spell escape_texts"]
  have st: "st ! k \<noteq> NONE" if "k \<le> n" for k
    using rule_list_adds [OF l b1(2,1)] b1(3) that by (auto simp del: upt_Suc)
  let ?body = "conc (\<Union>i \<in> rest_lengths lo hi 0. lpow i char_texts) {[0x22]}"
  have s3': "step (Suc n) (\<lambda>L. cached j1 L \<and> L esc = spell escape_texts) ?b1 b3 (\<lambda>L. cached j1 L \<and> L (st ! 0) = spell ?body)"
  proof (rule step_weaken [OF s3])
    fix L assume a: "(cached j1 L \<and> L esc = spell escape_texts) \<and>
      (\<forall>k < Suc n. L (st ! k) = (\<Union>ps \<in> set (string_alts esc lo n (hi = None) st k). parts_words L ps))"
    have "L (st ! 0) = spell ?body"
      by (rule chain_words [where esc = esc, OF _ _ st assms(3,2)]) (use a in auto)
    then show "cached j1 L \<and> L (st ! 0) = spell ?body" using a by simp
  qed simp_all
  have "ready (Suc 1) b3" by (rule step_ready [OF s3']) (use r1 in \<open>rule ready_mono; simp\<close>)
  note s4 = step_new(1) [OF n4 this, of "\<lambda>L. cached j1 L \<and> L (st ! 0) = spell ?body"]
  have "step (n + 3) (cached j) (jg_b j) b4 (\<lambda>L. cached j1 L \<and> L x = spell (strings_of lo hi))"
    by (rule step_weaken [OF step_trans [OF step_trans [OF es(1) s3'] s4]]) (auto simp: strings_of_def)
  then show ?thesis by (simp add: j')
qed

text \<open>The bounds a schema gives are at most 4096, and the upper is not below the lower.\<close>

lemma clip_bounds:
  assumes "clip (bound fl s a LEN_MAX 0) (bound fl s c LEN_MAX (- 1)) = (lo, hi)"
  shows "lo \<le> 4096" "hi = Some h \<Longrightarrow> lo \<le> h \<and> h \<le> 4096"
proof -
  have b: "bound fl s a LEN_MAX 0 \<le> 4096" "bound fl s c LEN_MAX (- 1) \<le> 4096"
    by (auto simp: bound_def LEN_MAX_def floor_le_iff split: option.splits)
  show "lo \<le> 4096" "hi = Some h \<Longrightarrow> lo \<le> h \<and> h \<le> 4096"
    using assms b by (auto simp: clip_def Let_def split: if_splits)
qed

lemma relax_build [simp]: "jg_b (relax p j) = jg_b j" "jg_string (relax p j) = jg_string j" "cached (relax p j) = cached j"
  by (auto simp: relax_def cached_def fun_eq_iff)

text \<open>Without bounds the rule is the one kept for every string.\<close>

lemma plain_string_rule:
  assumes "plain_string fl s j = (x, j')" "jg_string j = NONE"
    and "clip (bound fl s ''minLength'' LEN_MAX 0) (bound fl s ''maxLength'' LEN_MAX (- 1)) = (lo, hi)"
  shows "\<exists>p q j1. string_rule lo hi (relax p (relax q j)) = (x, j1) \<and> jg_b j' = jg_b j1"
proof (cases "lo = 0 \<and> hi = None")
  case True
  then show ?thesis using assms by (force simp: plain_string_def Let_def split: prod.splits)
next
  case False
  then show ?thesis using assms by (auto simp: plain_string_def Let_def split: if_splits prod.splits)
qed


definition short_strings :: place where
  "short_strings = ([], JObject [(lit ''type'', JString (lit ''string'')), (lit ''minLength'', JNumber (lit ''1'')),
     (lit ''maxLength'', JNumber (lit ''2''))])"

lemma short_bounds:
  "text_of ''format'' short_strings = None" "text_of ''pattern'' short_strings = None"
  "clip (bound id short_strings ''minLength'' LEN_MAX 0) (bound id short_strings ''maxLength'' LEN_MAX (- 1)) = (1, Some 2)"
  by code_simp+

lemma hi_string: "lit [CHR 0x22, CHR ''h'', CHR ''i'', CHR 0x22] \<in> strings_of 1 (Some 2)"
proof -
  have c: "[0x68] \<in> char_texts" "[0x69] \<in> char_texts" by (auto simp: char_texts_def singles_def plain_char_def)
  have "[0x68] @ [0x69] @ [] \<in> lpow 2 char_texts" unfolding numeral_2_eq_2 lpow.simps conc_def using c by blast
  then have "[0x68, 0x69] \<in> (\<Union>i \<in> rest_lengths 1 (Some 2) 0. lpow i char_texts)"
    by (auto simp: rest_lengths_def intro!: exI [of _ 2])
  then have "[0x22] @ [0x68, 0x69] @ [0x22] \<in> strings_of 1 (Some 2)" unfolding strings_of_def conc_def by blast
  then show ?thesis by simp
qed


end
