(* ===== verification/Schema_Objects.thy ===== *)
theory Schema_Objects
  imports Schema_Strings
begin

text \<open>
  The objects of a schema with \<open>properties\<close>: the rules that \<open>object_rule\<close> makes, two for a property
  (one after no member and one after some), match the objects whose members are the properties in
  the order of the schema, the required ones all there.
\<close>

section \<open>The texts\<close>

text \<open>
  A property is its name as it is written, whether it is required, and the texts of its values.
  \<open>sep\<close> says that a member came before.
\<close>

type_synonym property = "bytes \<times> bool \<times> bytes set"

definition member_texts :: "bool \<Rightarrow> bytes \<Rightarrow> bytes set \<Rightarrow> bytes set" where
  "member_texts sep key V =
     conc (if sep then conc {[0x2c]} ws_texts else {[]})
       (conc {key} (conc ws_texts (conc {[0x3a]} (conc ws_texts (conc V ws_texts)))))"

fun props_texts :: "bool \<Rightarrow> property list \<Rightarrow> bytes set" where
  "props_texts sep [] = {[]}"
| "props_texts sep ((key, req, V) # ps) =
     (if req then {} else props_texts sep ps) \<union> conc (member_texts sep key V) (props_texts True ps)"

definition object_texts :: "property list \<Rightarrow> bytes set" where
  "object_texts ps = conc {[0x7b]} (conc ws_texts (conc (props_texts False ps) {[0x7d]}))"

text \<open>A maker of rules that gives, with room for \<open>m\<close> rules, a rule of the texts \<open>T\<close>.\<close>

definition gives :: "nat \<Rightarrow> (jsg \<Rightarrow> nat \<times> jsg) \<Rightarrow> bytes set \<Rightarrow> bool" where
  "gives m f T \<longleftrightarrow>
     (\<forall>j x j'. f j = (x, j') \<longrightarrow> ready (Suc m) (jg_b j) \<longrightarrow>
        step m (cached j) (jg_b j) (jg_b j') (\<lambda>L. cached j' L \<and> L x = spell T))"

lemma gives_string: "gives 3 (string_rule 0 None) string_texts"
  unfolding gives_def
proof (intro allI impI)
  fix j x j' assume r: "string_rule 0 None j = (x, j')" "ready (Suc 3) (jg_b j)"
  then have "ready (4 + 0) (jg_b j)" by simp
  from string_step(1) [OF r(1) this]
  show "step 3 (cached j) (jg_b j) (jg_b j') (\<lambda>L. cached j' L \<and> L x = spell string_texts)" .
qed

lemma gives_number: "gives 31 (number_rule r) (if r then number_texts else integer_texts)"
  unfolding gives_def
proof (intro allI impI)
  fix j x j' assume n: "number_rule r j = (x, j')" "ready (Suc 31) (jg_b j)"
  then have "ready (32 + 0) (jg_b j)" by simp
  from number_step(1) [OF n(1) this]
  show "step 31 (cached j) (jg_b j) (jg_b j') (\<lambda>L. cached j' L \<and> L x = spell (if r then number_texts else integer_texts))" .
qed

lemma gives_mono: "gives m f T \<Longrightarrow> m \<le> m' \<Longrightarrow> gives m' f T"
  unfolding gives_def
proof (intro allI impI)
  fix j x j' assume a: "\<forall>j x j'. f j = (x, j') \<longrightarrow> ready (Suc m) (jg_b j) \<longrightarrow>
      step m (cached j) (jg_b j) (jg_b j') (\<lambda>L. cached j' L \<and> L x = spell T)"
    and le: "m \<le> m'" and f: "f j = (x, j')" "ready (Suc m') (jg_b j)"
  have "ready (Suc m) (jg_b j)" by (rule ready_mono [OF f(2)]) (use le in simp)
  with a f(1) have "step m (cached j) (jg_b j) (jg_b j') (\<lambda>L. cached j' L \<and> L x = spell T)" by blast
  then show "step m' (cached j) (jg_b j) (jg_b j') (\<lambda>L. cached j' L \<and> L x = spell T)"
    by (rule step_weaken) (use le in auto)
qed

section \<open>Writing with room\<close>

lemma roomy_puts:
  assumes "b_mem b = []" "\<not> b_oom b"
  shows "b_mem (buf_put t b) = [] \<and> \<not> b_oom (buf_put t b)"
  using assms by (simp add: buf_put_def)

lemma roomy_write_step:
  assumes "b_mem (fst q) = [] \<and> \<not> b_oom (fst q)"
  shows "b_mem (fst (write_str_step s i q)) = [] \<and> \<not> b_oom (fst (write_str_step s i q))"
  using assms by (cases q) (auto simp: write_str_step_def Let_def roomy_puts split: option.splits)

lemma written_string:
  assumes "roomy b"
  shows "written (json_write_str k) b = (jstring k, False, b)"
proof -
  let ?e = "\<lparr>b_p = [], b_cap = 0, b_oom = False, b_mem = []\<rparr>"
  have "b_mem (fst (fold (write_str_step k) is q)) = [] \<and> \<not> b_oom (fst (fold (write_str_step k) is q))"
    if "b_mem (fst q) = [] \<and> \<not> b_oom (fst q)" for "is" q
    using that by (induction "is" arbitrary: q) (simp_all add: roomy_write_step)
  then have w: "b_mem (json_write_str k ?e) = []" "\<not> b_oom (json_write_str k ?e)"
    by (auto simp: json_write_str_def roomy_puts split: prod.split) (metis fst_conv roomy_puts buf.select_convs(3,4))+
  then have "b_p (json_write_str k ?e) = jstring k" using json_write_str_puts [of k ?e] by (simp add: puts_def)
  with w show ?thesis using assms by (simp add: written_def roomy_def)
qed

section \<open>The two rules of a property\<close>

definition property_alts :: "nat \<Rightarrow> nat list \<Rightarrow> nat \<Rightarrow> bytes \<Rightarrow> bool \<Rightarrow> nat \<Rightarrow> nat \<Rightarrow> part list list" where
  "property_alts ws rr i key req val x =
     (if req then [] else [[PRef (rr ! (2 * Suc i + x))]]) @
     [(if x = 1 then [PByte 0x2c, PRef ws] else []) @
      [PLit key, PRef ws, PByte 0x3a, PRef ws, PRef val, PRef ws, PRef (rr ! (2 * Suc i + 1))]]"

lemma property_rules_alts:
  "property_rules ws rr i key req val x b = gb_alts (rr ! (2 * i + x)) (property_alts ws rr i key req val x) b"
  by (simp add: property_rules_def property_alts_def Let_def gb_alts_def)

definition property_words :: "langs \<Rightarrow> nat list \<Rightarrow> nat \<Rightarrow> property \<Rightarrow> nat \<Rightarrow> gsym list set" where
  "property_words L rr i p x =
     (case p of (key, req, V) \<Rightarrow>
        (if req then {} else L (rr ! (2 * Suc i + x))) \<union>
        cat (spell (member_texts (x = 1) key V)) (L (rr ! (2 * Suc i + 1))))"

lemma property_alts_words:
  assumes "L ws = spell ws_texts" "L val = spell V"
  shows "(\<Union>ps \<in> set (property_alts ws rr i key req val x). parts_words L ps) = property_words L rr i (key, req, V) x"
  by (simp add: property_alts_def property_words_def member_texts_def assms cat_assoc Un_commute flip: cat_spell)

section \<open>The properties one after another\<close>

text \<open>
  After the first \<open>k\<close> properties: the rules of the others are without alternatives, those after the
  last have the empty one, and every solution has the words of the first \<open>k\<close>.
\<close>

definition open_props :: "jsg \<Rightarrow> nat \<Rightarrow> nat list \<Rightarrow> property list \<Rightarrow> nat \<Rightarrow> gbuild \<Rightarrow> gbuild \<Rightarrow> nat \<Rightarrow> jsg \<Rightarrow> bool" where
  "open_props j1 ws rr ps m b0 b1 k j \<longleftrightarrow>
     frees (jg_b j) \<and> grants (k * m) b1 (jg_b j) \<and> adds b0 (jg_b j) \<and>
     (\<forall>i x. k \<le> i \<longrightarrow> i < length ps \<longrightarrow> x < 2 \<longrightarrow> alts_of (jg_b j) (rr ! (2 * i + x)) = {}) \<and>
     (\<forall>x < 2. alts_of (jg_b j) (rr ! (2 * length ps + x)) = {[]}) \<and>
     (\<forall>L. solves b1 (jg_b j) L \<longrightarrow> cached j1 L \<and> L ws = spell ws_texts \<longrightarrow> cached j L \<and>
        (\<forall>i < k. \<forall>x < 2. (\<Union>ys \<in> alts_of (jg_b j) (rr ! (2 * i + x)). words L ys) = property_words L rr i (ps ! i) x))"

lemma open_propsD:
  assumes "open_props j1 ws rr ps m b0 b1 k j"
  shows "frees (jg_b j)" "grants (k * m) b1 (jg_b j)" "adds b0 (jg_b j)"
    "\<forall>i x. k \<le> i \<longrightarrow> i < length ps \<longrightarrow> x < 2 \<longrightarrow> alts_of (jg_b j) (rr ! (2 * i + x)) = {}"
    "\<forall>x < 2. alts_of (jg_b j) (rr ! (2 * length ps + x)) = {[]}"
    "\<forall>L. solves b1 (jg_b j) L \<longrightarrow> cached j1 L \<and> L ws = spell ws_texts \<longrightarrow> cached j L \<and>
        (\<forall>i < k. \<forall>x < 2. (\<Union>ys \<in> alts_of (jg_b j) (rr ! (2 * i + x)). words L ys) = property_words L rr i (ps ! i) x)"
  using assms unfolding open_props_def by - (elim conjE, assumption)+

text \<open>Alternatives for one open rule.\<close>

lemma open_alts:
  assumes "frees b" "roomy b" "r < n_rules b" "alts_of b r = {}" "adds b0 b" "n_rules b0 \<le> r" "b' = gb_alts r pss b"
  shows "frees b' \<and> grants 0 b b' \<and> n_rules b' = n_rules b \<and> adds b0 b' \<and> alts_of b' r = parts_syms ` set pss \<and>
    (\<forall>q. q \<noteq> r \<longrightarrow> alts_of b' q = alts_of b q)"
proof -
  have g: "grants 0 b b'" unfolding assms(7) by (rule grants_alts [OF assms(2)])
  then have nf: "\<not> gfailed (gb_alts r pss b)" by (simp add: grants_def roomy_def assms(7))
  have new: "(r, ys) \<notin> set (aprods b)" for ys using assms(1,4) by (auto simp: alts_eq)
  note a = alts_alts [OF assms(1,3) nf, folded assms(7)]
    and at = alts_at [OF assms(1,3) nf new, folded assms(7)]
  have "adds b0 b'"
    by (rule adds_more [OF assms(5), where qs = "map (\<lambda>ps. (r, parts_syms ps)) pss"]) (use a assms(6) in auto)
  then show ?thesis using g a at by blast
qed

lemma property_step:
  assumes inv: "open_props j1 ws rr ps m b0 b1 k j" and k: "k < length ps"
    and rr: "\<And>q. q < 2 * Suc (length ps) \<Longrightarrow> rr ! q = n_rules b0 + q" "n_rules b1 = n_rules b0 + 2 * Suc (length ps)"
    and room: "n_rules b1 + length ps * m + 1 \<le> NONE"
    and inner: "gives m (inner (kids props ! k)) T"
    and p: "ps ! k = (jstring (keys props ! k), required s (keys props ! k), T)"
  shows "open_props j1 ws rr ps m b0 b1 (Suc k) (object_property inner s props ws rr k j)"
proof -
  let ?b = "jg_b j"
  note I = open_propsD [OF inv]
  obtain val j' where v: "inner (kids props ! k) j = (val, j')" by force
  let ?b' = "jg_b j'"
  have "n_rules ?b \<le> n_rules b1 + k * m" "roomy ?b" using I(2) by (auto simp: grants_def)
  moreover have "k * m + m \<le> length ps * m" using k by (metis Suc_leI add.commute mult_Suc mult_le_mono1)
  ultimately have "ready (Suc m) ?b" using I(1) room by (simp add: ready_def)
  with inner v have st: "step m (cached j) ?b ?b' (\<lambda>L. cached j' L \<and> L val = spell T)" by (simp add: gives_def)
  then have ad: "adds ?b ?b'" and g: "grants m ?b ?b'" by (auto simp: step_def knows_def)
  have f: "frees ?b'" using ad by (rule adds_frees)
  have room': "roomy ?b'" using g by (rule grants_roomy)
  have n: "n_rules b1 \<le> n_rules ?b" "n_rules ?b \<le> n_rules ?b'" using I(2) g by (auto simp: grants_def)
  let ?r0 = "rr ! (2 * k)" and ?r1 = "rr ! (2 * k + 1)"
  let ?pss = "property_alts ws rr k (jstring (keys props ! k)) (required s (keys props ! k)) val"
  let ?c0 = "gb_alts ?r0 (?pss 0) ?b'"
  let ?c1 = "gb_alts ?r1 (?pss 1) ?c0"
  have eq: "object_property inner s props ws rr k j = j'\<lparr>jg_b := ?c1\<rparr>"
    using v written_string [OF room'] by (simp add: object_property_def property_rules_alts Let_def)
  have r: "rr ! (2 * i + x) = n_rules b0 + (2 * i + x)" if "i \<le> length ps" "x < 2" for i x
    using rr(1) that by simp
  have r01: "?r0 = n_rules b0 + 2 * k" "?r1 = n_rules b0 + 2 * k + 1" using r [of k 0] r [of k 1] k by simp_all
  have old: "alts_of ?b' q = alts_of ?b q" if "q < n_rules ?b" for q by (rule adds_alts [OF ad I(1) that])
  have lt: "?r0 < n_rules b1" "?r1 < n_rules b1" using r01 rr(2) k by simp_all
  have e0: "alts_of ?b ?r0 = {}" "alts_of ?b ?r1 = {}"
  proof -
    from I(4) [rule_format, OF order_refl k] have "alts_of ?b (rr ! (2 * k + x)) = {}" if "x < 2" for x using that by simp
    from this [of 0] this [of 1] show "alts_of ?b ?r0 = {}" "alts_of ?b ?r1 = {}" by simp_all
  qed
  have ad': "adds b0 ?b'" by (rule adds_trans [OF I(3) ad])
  have "frees ?c0 \<and> grants 0 ?b' ?c0 \<and> n_rules ?c0 = n_rules ?b' \<and> adds b0 ?c0 \<and> alts_of ?c0 ?r0 = parts_syms ` set (?pss 0) \<and>
    (\<forall>q. q \<noteq> ?r0 \<longrightarrow> alts_of ?c0 q = alts_of ?b' q)"
    by (rule open_alts [OF f room' _ _ ad' _ refl]) (use lt n r01 old e0 in auto)
  note c0 = this
  have "frees ?c1 \<and> grants 0 ?c0 ?c1 \<and> n_rules ?c1 = n_rules ?c0 \<and> adds b0 ?c1 \<and> alts_of ?c1 ?r1 = parts_syms ` set (?pss 1) \<and>
    (\<forall>q. q \<noteq> ?r1 \<longrightarrow> alts_of ?c1 q = alts_of ?c0 q)"
    by (rule open_alts [OF _ _ _ _ _ _ refl]) (use c0 lt n r01 old e0 grants_roomy in auto)
  note c1 = this
  have at: "alts_of ?c1 ?r0 = parts_syms ` set (?pss 0)" "alts_of ?c1 ?r1 = parts_syms ` set (?pss 1)"
    "\<And>q. q \<noteq> ?r0 \<Longrightarrow> q \<noteq> ?r1 \<Longrightarrow> alts_of ?c1 q = alts_of ?b' q"
    using c0 c1 r01 by auto
  have other: "alts_of ?c1 (rr ! (2 * i + x)) = alts_of ?b (rr ! (2 * i + x))" if "i \<noteq> k" "i \<le> length ps" "x < 2" for i x
  proof -
    have "rr ! (2 * i + x) \<noteq> ?r0" "rr ! (2 * i + x) \<noteq> ?r1" "rr ! (2 * i + x) < n_rules b1"
      unfolding r [OF that(2,3)] r01 rr(2) using that by presburger+
    then show ?thesis using at(3) old n by simp
  qed
  have G: "grants (Suc k * m) b1 ?c1"
    using grants_trans [OF grants_trans [OF grants_trans [OF I(2) g] conjunct1 [OF conjunct2 [OF c0]]] conjunct1 [OF conjunct2 [OF c1]]]
    by (simp add: add.commute)
  have "cached j' L \<and> (\<forall>i < Suc k. \<forall>x < 2. (\<Union>ys \<in> alts_of ?c1 (rr ! (2 * i + x)). words L ys) = property_words L rr i (ps ! i) x)"
    if S: "solves b1 ?c1 L" and K: "cached j1 L \<and> L ws = spell ws_texts" for L
  proof -
    have hi: "alts_of ?c1 q = alts_of ?b' q" if "n_rules b1 \<le> q" for q using at(3) [of q] lt that by auto
    have sv: "solves b1 ?b L" by (rule solves_inner [OF S]) (use hi old n c0 c1 in auto)
    have E: "cached j L"
      "\<forall>i < k. \<forall>x < 2. (\<Union>ys \<in> alts_of ?b (rr ! (2 * i + x)). words L ys) = property_words L rr i (ps ! i) x"
      using I(6) [THEN spec, THEN mp, THEN mp, OF sv K] by (rule conjunct1, rule conjunct2)
    have "solves ?b ?b' L" by (rule solves_inner [OF S]) (use hi n c0 c1 in auto)
    with st E(1) have V: "cached j' L" "L val = spell T" by (auto simp: step_def knows_def)
    have "(\<Union>ys \<in> parts_syms ` set (?pss x). words L ys) = property_words L rr k (ps ! k) x" for x
      using property_alts_words [of L ws val T rr k _ _ x] K V(2) p by (simp add: parts_words_def)
    note pw = this
    have "(\<Union>ys \<in> alts_of ?c1 (rr ! (2 * k + x)). words L ys) = property_words L rr k (ps ! k) x" if "x < 2" for x
    proof -
      have "x = 0 \<or> x = 1" using that by auto
      then show ?thesis by (elim disjE; hypsubst; simp only: at(1,2) add_0_right pw)
    qed
    then show ?thesis using E(2) V(1) other k by (auto simp: less_Suc_eq)
  qed
  then have kn: "\<forall>L. solves b1 ?c1 L \<longrightarrow> cached j1 L \<and> L ws = spell ws_texts \<longrightarrow> cached j' L \<and>
      (\<forall>i < Suc k. \<forall>x < 2. (\<Union>ys \<in> alts_of ?c1 (rr ! (2 * i + x)). words L ys) = property_words L rr i (ps ! i) x)"
    by (intro allI impI)
  have e1: "\<forall>i x. Suc k \<le> i \<longrightarrow> i < length ps \<longrightarrow> x < 2 \<longrightarrow> alts_of ?c1 (rr ! (2 * i + x)) = {}"
  proof (intro allI impI)
    fix i x :: nat assume i: "Suc k \<le> i" "i < length ps" "x < 2"
    then have "i \<noteq> k" "i \<le> length ps" "k \<le> i" by simp_all
    then show "alts_of ?c1 (rr ! (2 * i + x)) = {}" using I(4) i(2,3) other [of i x] by simp
  qed
  have e2: "\<forall>x < 2. alts_of ?c1 (rr ! (2 * length ps + x)) = {[]}"
  proof (intro allI impI)
    fix x :: nat assume x: "x < 2"
    have "length ps \<noteq> k" using k by simp
    then show "alts_of ?c1 (rr ! (2 * length ps + x)) = {[]}" using I(5) x other [of "length ps" x] by simp
  qed
  have c: "frees ?c1" "adds b0 ?c1" using c1 by - (elim conjE, assumption)+
  have sel: "jg_b (j'\<lparr>jg_b := ?c1\<rparr>) = ?c1" by simp
  show ?thesis unfolding eq open_props_def sel cached_build by (intro conjI c G e1 e2 kn)
qed

section \<open>The rule of an object\<close>

lemma props_words:
  assumes "\<And>i x. i < length ps \<Longrightarrow> x < 2 \<Longrightarrow> L (rr ! (2 * i + x)) = property_words L rr i (ps ! i) x"
    and "\<And>x. x < 2 \<Longrightarrow> L (rr ! (2 * length ps + x)) = spell {[]}" and "i \<le> length ps" "x < 2"
  shows "L (rr ! (2 * i + x)) = spell (props_texts (x = 1) (drop i ps))"
  using assms(3,4)
proof (induction "length ps - i" arbitrary: i x)
  case 0
  then show ?case using assms(2) by simp
next
  case (Suc d)
  then have i: "i < length ps" and d: "d = length ps - Suc i" "Suc i \<le> length ps" by simp_all
  obtain key req V where p: "ps ! i = (key, req, V)" by (cases "ps ! i")
  have dr: "drop i ps = (key, req, V) # drop (Suc i) ps" using i p by (metis Cons_nth_drop_Suc)
  have "L (rr ! (2 * Suc i + x)) = spell (props_texts (x = 1) (drop (Suc i) ps))"
    "L (rr ! (2 * Suc i + 1)) = spell (props_texts True (drop (Suc i) ps))"
    using Suc.hyps(1) [OF d, of x] Suc.hyps(1) [OF d, of 1] Suc.prems(2) by simp_all
  then show ?case unfolding assms(1) [OF i Suc.prems(2)] property_words_def p dr prod.case props_texts.simps
    by (simp add: spell_union)
qed

definition props_of :: "place \<Rightarrow> place \<Rightarrow> (nat \<Rightarrow> bytes set) \<Rightarrow> property list" where
  "props_of s props T =
     map (\<lambda>i. (jstring (keys props ! i), required s (keys props ! i), T i)) [0..<length (kids props)]"

lemma props_open:
  assumes "rule_list (2 * Suc (length ps)) b0 = (rr, b1)" "frees b0" "roomy b0" "b0 = jg_b j1"
    and "b2 = gb_with (rr ! (2 * length ps + 1)) [] (gb_with (rr ! (2 * length ps)) [] b1)"
  shows "open_props j1 ws rr ps m b0 b1 0 (j1\<lparr>jg_b := b2\<rparr>) \<and> n_rules b1 = n_rules b0 + 2 * Suc (length ps) \<and>
    (\<forall>q < 2 * Suc (length ps). rr ! q = n_rules b0 + q)"
proof -
  let ?n = "length ps"
  have r: "rr = [n_rules b0..<n_rules b0 + 2 * Suc ?n]" "n_rules b1 = n_rules b0 + 2 * Suc ?n" "aprods b1 = aprods b0"
    "frees b1" "roomy b1"
    using rule_list_adds [OF assms(1-3)] by blast+
  have nth: "rr ! q = n_rules b0 + q" if "q < 2 * Suc ?n" for q using that unfolding r(1) by (subst nth_upt) auto
  have free: "alts_of b1 q = {}" if "n_rules b0 \<le> q" for q
    using that assms(2) r(3) by (auto simp: alts_eq [OF r(4)] frees_iff rules_known_def)
  have ad: "adds b0 b1" using r by (simp add: adds_def)
  let ?r0 = "rr ! (2 * ?n)" and ?r1 = "rr ! (2 * ?n + 1)"
  let ?c0 = "gb_alts ?r0 [[]] b1"
  have b2: "b2 = gb_alts ?r1 [[]] ?c0" by (simp add: assms(5) gb_alts_def)
  have r01: "?r0 = n_rules b0 + 2 * ?n" "?r1 = n_rules b0 + 2 * ?n + 1" using nth by simp_all
  have nil: "parts_syms ` set [[]] = {[]}" by (simp add: parts_syms_def)
  have c0: "frees ?c0 \<and> grants 0 b1 ?c0 \<and> n_rules ?c0 = n_rules b1 \<and> adds b0 ?c0 \<and> alts_of ?c0 ?r0 = parts_syms ` set [[]] \<and>
    (\<forall>q. q \<noteq> ?r0 \<longrightarrow> alts_of ?c0 q = alts_of b1 q)"
    by (rule open_alts [OF r(4,5) _ _ ad _ refl]) (use r01 r(2) free in auto)
  have c1: "frees b2 \<and> grants 0 ?c0 b2 \<and> n_rules b2 = n_rules ?c0 \<and> adds b0 b2 \<and> alts_of b2 ?r1 = parts_syms ` set [[]] \<and>
    (\<forall>q. q \<noteq> ?r1 \<longrightarrow> alts_of b2 q = alts_of ?c0 q)"
    by (rule open_alts [OF _ _ _ _ _ _ b2]) (use c0 r01 r(2) free grants_roomy in auto)
  have "alts_of b2 (rr ! (2 * i + x)) = {}" if "i < ?n" "x < 2" for i x
  proof -
    have "rr ! (2 * i + x) = n_rules b0 + (2 * i + x)" by (rule nth) (use that in simp)
    moreover have "2 * i + x < 2 * ?n" using that by simp
    ultimately show ?thesis using c0 c1 r01 free by auto
  qed
  moreover have "alts_of b2 (rr ! (2 * ?n + x)) = {[]}" if "x < 2" for x
    using that c0 c1 r01 nil by (auto simp: less_2_cases_iff)
  moreover have "grants (0 * m) b1 b2" using grants_trans [of 0 b1 ?c0 0 b2] c0 c1 by simp
  ultimately show ?thesis using c1 r(2) nth assms(4) by (auto simp: open_props_def)
qed

lemma object_step:
  assumes props: "get (lit ''properties'') s = Some props" "is_object (Some props)" "kids props \<noteq> []"
    and inner: "\<And>i. i < length (kids props) \<Longrightarrow> gives m (inner (kids props ! i)) (T i)"
    and r: "object_rule inner s j = (x, j')" and n: "n = length (kids props)"
    and room: "ready (2 * n + n * m + 25) (jg_b j)"
  shows "step (2 * n + n * m + 24) (cached j) (jg_b j) (jg_b j')
    (\<lambda>L. cached j' L \<and> L x = spell (object_texts (props_of s props T)))"
proof -
  define j0 where "j0 = relax (get (lit ''additionalProperties'') s = None \<or>
    snd (the (get (lit ''additionalProperties'') s)) \<noteq> JFalse) j"
  obtain ws j1 where w: "jsg_ws j0 = (ws, j1)" by force
  let ?b0 = "jg_b j1"
  have "ready (21 + (2 * n + n * m + 4)) (jg_b j0)" using room by (simp add: j0_def add.commute add.left_commute)
  note wst = ws_step(1) [OF w this]
  have r0: "ready (2 * n + n * m + 4) ?b0"
    by (rule step_ready [OF wst]) (use room in \<open>simp add: j0_def add.commute add.left_commute\<close>)
  then have b0: "frees ?b0" "roomy ?b0" "n_rules ?b0 + (2 * n + n * m + 4) \<le> NONE" by (auto simp: ready_def)
  let ?ps = "props_of s props T"
  have ps: "length ?ps = n" "\<And>k. k < n \<Longrightarrow> ?ps ! k = (jstring (keys props ! k), required s (keys props ! k), T k)"
    by (simp_all add: props_of_def n)
  obtain rr b1 where l: "rule_list (2 * Suc n) ?b0 = (rr, b1)" by force
  define b2 where "b2 = gb_with (rr ! (2 * n + 1)) [] (gb_with (rr ! (2 * n)) [] b1)"
  define f where "f k = fold (object_property inner s props ws rr) [0..<k] (j1\<lparr>jg_b := b2\<rparr>)" for k
  have "object_rule inner s j = in_build (gb_new [[PByte 0x7b, PRef ws, PRef (rr ! 0), PByte 0x7d]]) (f n)"
    unfolding object_rule_def Let_def props(1) option.sel j0_def [symmetric] n [symmetric] w prod.case request_roomy [OF b0(2)]
    using props(2,3) l by (simp add: f_def b2_def request_roomy [OF b0(2)] del: rule_list.simps)
  then obtain b4 where n4: "gb_new [[PByte 0x7b, PRef ws, PRef (rr ! 0), PByte 0x7d]] (jg_b (f n)) = (x, b4)"
    and j': "j' = f n\<lparr>jg_b := b4\<rparr>"
    using r by (auto simp: in_build_def split: prod.splits)
  note op = props_open [of ?ps, unfolded ps(1), OF l b0(1,2) refl b2_def]
  have rn: "n_rules b1 = n_rules ?b0 + 2 * Suc n" "\<And>q. q < 2 * Suc n \<Longrightarrow> rr ! q = n_rules ?b0 + q" using op by blast+
  have fk: "open_props j1 ws rr ?ps m ?b0 b1 k (f k)" if "k \<le> n" for k
    using that
  proof (induction k)
    case 0
    then show ?case using op by (simp add: f_def)
  next
    case (Suc k)
    have "f (Suc k) = object_property inner s props ws rr k (f k)" by (simp add: f_def)
    then show ?case
      using property_step [of j1 ws rr ?ps m ?b0 b1 k "f k" inner props "T k" s] Suc rn b0(3) inner ps
      by (simp add: n)
  qed
  let ?b3 = "jg_b (f n)"
  note I = open_propsD [OF fk [OF order_refl], unfolded ps(1)]
  have n3: "n_rules b1 \<le> n_rules ?b3" "n_rules ?b3 \<le> n_rules b1 + n * m" "roomy ?b3" "length (alts b1) \<le> length (alts ?b3)"
    using I(2) by (auto simp: grants_def)
  have "ready (Suc 0) ?b3" using I(1) n3 rn(1) b0(3) by (simp add: ready_def)
  note s4 = step_new(1) [OF n4 this]
  have lb: "length (alts b1) = length (alts ?b0)" using rule_list_adds [OF l b0(1,2)] by simp
  have "L (rr ! 0) = spell (props_texts False ?ps) \<and> cached (f n) L \<and> L ws = spell ws_texts"
    if S: "solves ?b0 ?b3 L" and K: "cached j1 L \<and> L ws = spell ws_texts" for L
  proof -
    have sv: "solves b1 ?b3 L" by (rule solves_inner [OF S]) (use rn(1) in auto)
    have E: "cached (f n) L"
      "\<forall>i < n. \<forall>x < 2. (\<Union>ys \<in> alts_of ?b3 (rr ! (2 * i + x)). words L ys) = property_words L rr i (?ps ! i) x"
      using I(6) [THEN spec, THEN mp, THEN mp, OF sv K] by (rule conjunct1, rule conjunct2)
    have at: "L (rr ! (2 * i + x)) = (\<Union>ys \<in> alts_of ?b3 (rr ! (2 * i + x)). words L ys)" if "i \<le> n" "x < 2" for i x
    proof (rule solves_at [OF S])
      have "rr ! (2 * i + x) = n_rules ?b0 + (2 * i + x)" by (rule rn(2)) (use that in simp)
      then show "n_rules ?b0 \<le> rr ! (2 * i + x)" "rr ! (2 * i + x) < n_rules ?b3" using that n3(1) rn(1) by simp_all
    qed
    have "L (rr ! (2 * 0 + 0)) = spell (props_texts ((0::nat) = 1) (drop 0 ?ps))"
      by (rule props_words) (use at E(2) I(5) ps(1) in auto)
    then show ?thesis using E(1) K by simp
  qed
  moreover have "grants (2 * Suc n + n * m) ?b0 ?b3" using n3 rn(1) lb by (simp add: grants_def)
  ultimately have s3: "step (2 * Suc n + n * m) (\<lambda>L. cached j1 L \<and> L ws = spell ws_texts) ?b0 ?b3
      (\<lambda>L. L (rr ! 0) = spell (props_texts False ?ps) \<and> cached (f n) L \<and> L ws = spell ws_texts)"
    using I(3) by (simp add: step_def knows_def)
  have e: "jg_b j0 = jg_b j" "cached j0 = cached j" "cached j' = cached (f n)" by (simp_all add: j0_def j')
  have "step (21 + (2 * Suc n + n * m) + 1) (cached j) (jg_b j) b4
      (\<lambda>L. cached (f n) L \<and> L x = spell (object_texts ?ps))"
    by (rule step_weaken [OF step_trans [OF step_trans [OF wst [unfolded e(1,2)] s3] s4]]) (auto simp: object_texts_def)
  then show ?thesis by (simp add: j' add.commute add.left_commute)
qed


text \<open>An object with a name it must have and an age it may have, in that order.\<close>

definition person :: place where
  "person = ([], JObject [(lit ''properties'', JObject [(lit ''age'', JString (lit ''number'')), (lit ''name'', JString (lit ''string''))]),
     (lit ''required'', JArray [JString (lit ''name'')])])"

definition person_props :: place where
  "person_props = ([0], JObject [(lit ''age'', JString (lit ''number'')), (lit ''name'', JString (lit ''string''))])"

definition person_inner :: "place \<Rightarrow> jsg \<Rightarrow> nat \<times> jsg" where
  "person_inner p = (if snd p = JString (lit ''number'') then number_rule True else string_rule 0 None)"

definition person_texts :: "nat \<Rightarrow> bytes set" where
  "person_texts i = (if i = 0 then number_texts else string_texts)"

definition name_only :: bytes where
  "name_only = [0x7b] @ jstring (lit ''name'') @ [0x3a, 0x22, 0x22, 0x7d]"

lemma person_facts:
  "get (lit ''properties'') person = Some person_props" "is_object (Some person_props)"
  "length (kids person_props) = 2" "keys person_props ! 0 = lit ''age''" "keys person_props ! 1 = lit ''name''"
  "\<not> required person (lit ''age'')" "required person (lit ''name'')"
  "snd (kids person_props ! 0) = JString (lit ''number'')" "snd (kids person_props ! 1) = JString (lit ''string'')"
  by code_simp+

lemma person_gives:
  assumes "i < length (kids person_props)"
  shows "gives 31 (person_inner (kids person_props ! i)) (person_texts i)"
proof -
  have n: "gives 31 (number_rule True) number_texts" using gives_number [of True] by simp
  have s: "gives 31 (string_rule 0 None) string_texts" by (rule gives_mono [OF gives_string]) simp
  have "i = 0 \<or> i = 1" using assms person_facts(3) by auto
  then show ?thesis using n s person_facts(8,9) by (auto simp: person_inner_def person_texts_def)
qed

lemma name_only_person: "name_only \<in> object_texts (props_of person person_props person_texts)"
proof -
  have ps: "props_of person person_props person_texts =
      [(jstring (lit ''age''), False, number_texts), (jstring (lit ''name''), True, string_texts)]"
    using person_facts(3-7) by (simp add: props_of_def person_texts_def numeral_2_eq_2)
  have w: "[] \<in> ws_texts" by (rule nil_ws)
  have "[0x22] @ [] @ [0x22] \<in> string_texts"
    unfolding string_texts_def by (intro concI) (auto intro: exI [of _ 0])
  then have "[0x22, 0x22] \<in> string_texts" by simp
  then have "[] @ jstring (lit ''name'') @ [] @ [0x3a] @ [] @ [0x22, 0x22] @ [] \<in> member_texts False (jstring (lit ''name'')) string_texts"
    unfolding member_texts_def by (intro concI w) auto
  then have "([] @ jstring (lit ''name'') @ [] @ [0x3a] @ [] @ [0x22, 0x22] @ []) @ [] \<in>
      conc (member_texts False (jstring (lit ''name'')) string_texts) (props_texts True [])"
    by (rule concI) simp
  then have "([] @ jstring (lit ''name'') @ [] @ [0x3a] @ [] @ [0x22, 0x22] @ []) @ [] \<in>
      props_texts False (props_of person person_props person_texts)"
    unfolding ps by simp
  then have "[0x7b] @ [] @ (([] @ jstring (lit ''name'') @ [] @ [0x3a] @ [] @ [0x22, 0x22] @ []) @ []) @ [0x7d] \<in>
      object_texts (props_of person person_props person_texts)"
    unfolding object_texts_def by (intro concI w) auto
  then show ?thesis by (simp add: name_only_def)
qed


end
