(* ===== verification/Spec2Isabelle.thy ===== *)
theory Spec2Isabelle
  imports Gram_Whole Constrain Json_Round Sha256 Md5 Net_Policy Words Schema_Range Inflate_Code Tok_Utf8 Tok_Naive Schema_Json_Agree Schema_Objects
begin

text \<open>
  Janas: a verification of its core.

  Janas is a local server for language models. A request brings a conversation and, when a reply
  has to have a form, a JSON schema. The text becomes tokens (tokenizer), the schema a grammar
  (schema to rules, grammar builder), and while the model writes, the matcher keeps the tokens to
  those the grammar allows (reply constraint). JSON carries requests and answers, hashes and
  inflate serve the files fetched, and a policy says where connections may go. Paths below are
  those of the repository, so \<open>src/llm/grammar.c\<close> is the file of that name in its \<open>src\<close>
  directory. \<open>Prelude\<close> holds what the theories share: machine types, memory requests (the
  allocator's answers are an input), arrays as lists, sets of bits; \<open>C_Strings\<close> the C functions on strings.

  Grammar engine (\<open>src/llm/grammar.c\<close>, \<open>gmatch.c\<close>, \<open>constrain.c\<close>).
  \<open>Gram_Lang\<close> says what a grammar over bytes and special tokens means. \<open>Gram_Build\<close> is the
  builder, \<open>Gram_Until\<close> the rule of \<open>janas_gb_until\<close>, \<open>Gram_Compile\<close> the arrays of
  \<open>janas_grammar_make\<close>. \<open>Gram_Match\<close> is the matcher with its node store, \<open>Gram_Correct\<close> and
  \<open>Gram_Accept\<close> show that it recognises the rule's language. \<open>Matcher\<close> is the interface a client
  relies on, provided by the compiled grammars; \<open>Gram_Whole\<close> puts the engine together and
  \<open>Constrain\<close> is the client that filters the tokens of a reply.

  Schemas to rules (\<open>src/llm/schema.c\<close>, \<open>schema_num.c\<close>, \<open>schema_re.c\<close>). \<open>Gram_Grow\<close> says how a client adds
  rules without changing those already finished. \<open>Schema_Num\<close> translates the rules of numbers
  with bounds; \<open>Schema_Digits\<close>, \<open>Schema_Edges\<close>, \<open>Schema_Int\<close> and \<open>Schema_Range\<close> show that the
  rule of an integer schema matches exactly the texts of the integers inside its bounds.
  \<open>Schema_Re\<close> translates regular expressions, their reader and their rules; \<open>Schema_Re_Lang\<close>
  shows what the rules of a tree match, \<open>Schema_Re_Parse\<close> that the reader ends and the two
  together. The reader runs on fuel of six times the text and six, which is shown to be enough.
  \<open>Schema_Json\<close> makes JSON itself into rules and \<open>Schema_Comp\<close> a whole schema, by recursion on the
  64 levels the source allows; \<open>Schema_Words\<close> reads a run of building steps as equations between
  languages, \<open>Schema_Json_Lang\<close> finds those of the JSON rules and \<open>Schema_Json_Text\<close> that their
  one solution is the texts of JSON; \<open>Schema_Json_Read\<close> and \<open>Schema_Json_Agree\<close> that the reader
  of \<open>json.c\<close> reads every such text, unless it is nested more deeply than it follows. \<open>Schema_Strings\<close>
  finds the language of a string with bounds on its length, \<open>Schema_Objects\<close> that of an object
  with properties, whatever their schemas, from the languages of these.

  Tokenizer (\<open>src/llm/tokenizer.c\<close>). \<open>Tok_Text\<close> is UTF-8, the classes of code points and the
  three ways to cut a text, \<open>Tok_Utf8\<close> its properties; \<open>Tok_Table\<close> the tables and how they are
  made, \<open>Tok_Bpe\<close> the heap of candidates, the merging, encoding and decoding, \<open>Tok_Heap\<close> the
  interface of a queue of candidates and that the heap provides it, \<open>Tok_Merge\<close> that the merging
  stays inside its arrays and every loop ends, \<open>Tok_Naive\<close> that it is the rule of byte-pair
  encoding without links and heap. A search in a table takes at
  most as many steps as the table has places; the merging runs on fuel of three times the number
  of symbols, which bounds the candidates and twice the symbols left together.

  JSON (\<open>src/llm/json.c\<close>). \<open>Json\<close> is the reader with its arena, the growing buffer and the
  writer, \<open>Json_Proofs\<close> and \<open>Json_Round\<close> their bounds, that reading ends and that what is
  written is read back.

  Files and connections (\<open>src/common\<close>). \<open>Hash_Stream\<close> is the interface of a hash fed in pieces,
  provided by \<open>Sha256\<close> (\<open>sha256.c\<close>) and \<open>Md5\<close> (\<open>md5.c\<close>): the digest does not depend on the
  pieces. \<open>Inflate\<close> (\<open>inflate.c\<close>) is the decoder of compressed data, with every array access
  checked and fuel of eight times the input (each round takes at least one bit), \<open>Inflate_Safe\<close>
  shows that it stays inside its arrays, \<open>Inflate_Code\<close> that it reads the canonical code.
  \<open>Net_Policy\<close> (\<open>mcp_policy.c\<close>) says which connections are allowed and \<open>Words\<close> (\<open>words.c\<close>) how a
  word of the user is matched with the ones listed.

  Refused memory. What is shown of the matcher, the builder, the constraint, the bounds of JSON and
  of the tokenizer, and that every loop ends, holds for every pattern of refused requests. What a
  part computes is in places shown where the requests it needs are granted, and the theorem then
  says so: reading JSON back, the language of a schema (the builder had room and did not fail, or
  the requests of the reader of expressions were granted) and merging a long pre-token.

  Not modelled: the numeric kernels of the models, on CPU, GPU and NPU, whose results are floating
  point; the codecs of audio and images; the HTTP server, the chat program and the services,
  which are mostly input and output around the parts above; the vendored libraries of
  \<open>src/third_party\<close>; generated tables (Unicode, geography), which are arguments where a part uses
  them. Of the parts modelled: the hash instructions of the processor, the reading of a real
  number by \<open>strtod\<close>, and the functions that only free memory.
\<close>

end
